(* ===== verification/Prelude.thy ===== *)
theory Prelude
  imports Main "HOL-Library.Word" "HOL-Library.Monad_Syntax" "HOL-Library.Sublist"
begin

text \<open>
  Shared vocabulary of the development: C memory blocks as byte lists with checked reads
  and writes, NUL-terminated strings inside such blocks, decimal printing (\<open>sprintf "%d"\<close>),
  32-bit wrap-around and the generic list lemmas the components use.

  A C buffer is a \<open>char list\<close>: an Isabelle \<open>char\<close> is one 8-bit byte, which is what the
  sources call \<open>uchar\<close>. A pointer into a buffer is an offset of type \<open>int\<close> (the sources use
  \<open>int4\<close>). Reads and writes outside the block are undefined behaviour in C; here they are
  the value \<open>None\<close>, so a theorem that an operation returns \<open>Some\<close> is a memory-safety theorem.
\<close>

named_theorems buf_simps \<open>rewriting of reads, writes and bsplices on buffers\<close>

section \<open>Bytes and buffers\<close>

abbreviation NUL :: char where
  "NUL \<equiv> CHR 0x00"

text \<open>\<open>bval\<close> is the value of a byte as \<open>*p & 0xFF\<close> gives it; \<open>byte v\<close> is \<open>v & 0xFF\<close>.\<close>

definition bval :: "char \<Rightarrow> int" where
  "bval c = of_char c"

definition byte :: "int \<Rightarrow> char" where
  "byte v = char_of v"

lemma byte_bval [simp]: "byte (bval c) = c"
  by (simp add: byte_def bval_def)

lemma bval_range [simp]: "0 \<le> bval c" "bval c < 256"
proof -
  have "(of_char c :: int) mod 256 = of_char c" by simp
  then show "0 \<le> bval c" "bval c < 256"
    unfolding bval_def by (metis pos_mod_sign zero_less_numeral, metis pos_mod_bound zero_less_numeral)
qed

lemma bval_inject [simp]: "bval c = bval d \<longleftrightarrow> c = d"
  by (simp add: bval_def)

lemma bval_eq_0 [simp]: "bval c = 0 \<longleftrightarrow> c = NUL"
proof -
  have "bval NUL = 0" by (simp add: bval_def)
  then show ?thesis using bval_inject by metis
qed

lemma bval_NUL [simp]: "bval NUL = 0"
  by simp

lemma bval_byte: "0 \<le> v \<Longrightarrow> v < 256 \<Longrightarrow> bval (byte v) = v"
  by (simp add: bval_def byte_def)

text \<open>Checked access to a block: \<open>*(buf + i)\<close> and \<open>*(buf + i) = c\<close>.\<close>

definition rd :: "char list \<Rightarrow> int \<Rightarrow> char option" where
  "rd b i = (if 0 \<le> i \<and> nat i < length b then Some (b ! nat i) else None)"

definition wr :: "char list \<Rightarrow> int \<Rightarrow> char \<Rightarrow> char list option" where
  "wr b i c = (if 0 \<le> i \<and> nat i < length b then Some (b[nat i := c]) else None)"

lemma rd_int [simp]: "rd b (int i) = (if i < length b then Some (b ! i) else None)"
  by (simp add: rd_def)

lemma wr_int [simp]: "wr b (int i) c = (if i < length b then Some (b[i := c]) else None)"
  by (simp add: wr_def)

lemma wr_length: "wr b i c = Some b' \<Longrightarrow> length b' = length b"
  by (auto simp: wr_def split: if_splits)

section \<open>NUL-terminated strings\<close>

definition cstr :: "char list \<Rightarrow> string" where
  "cstr b = takeWhile (\<lambda>c. c \<noteq> NUL) b"

lemma cstr_simps [simp]:
  "cstr [] = []"
  "cstr (c # b) = (if c = NUL then [] else c # cstr b)"
  by (simp_all add: cstr_def)

lemma cstr_no_NUL [simp]: "NUL \<notin> set (cstr b)"
  by (auto simp: cstr_def dest: set_takeWhileD)

lemma cstr_append_NUL [simp]: "NUL \<notin> set x \<Longrightarrow> cstr (x @ NUL # r) = x"
  by (induction x) auto

lemma cstr_no_terminator: "NUL \<notin> set x \<Longrightarrow> cstr x = x"
  by (induction x) auto

lemma cstr_length_le: "length (cstr b) \<le> length b"
  by (simp add: cstr_def length_takeWhile_le)

lemma cstr_split:
  "length (cstr b) < length b \<Longrightarrow> \<exists>r. b = cstr b @ NUL # r"
proof (induction b)
  case Nil
  then show ?case by simp
next
  case (Cons c b)
  then show ?case by (cases "c = NUL") auto
qed

lemma cstr_nth: "i < length (cstr b) \<Longrightarrow> b ! i = cstr b ! i"
  by (simp add: cstr_def takeWhile_nth)

lemma cstr_nth_end: "length (cstr b) < length b \<Longrightarrow> b ! length (cstr b) = NUL"
  using cstr_split [of b] by (metis nth_append_length)

lemma cstr_has_NUL: "length (cstr b) < length b \<Longrightarrow> NUL \<in> set b"
  using cstr_nth_end nth_mem by metis

lemma cstr_drop:
  "i \<le> length (cstr b) \<Longrightarrow> cstr (drop i b) = drop i (cstr b)"
proof (induction b arbitrary: i)
  case Nil
  then show ?case by simp
next
  case (Cons c b)
  then show ?case by (cases i) (auto split: if_splits)
qed

text \<open>\<open>bsplice b i xs\<close> is the block after \<open>xs\<close> has been written at offset \<open>i\<close>.\<close>

definition bsplice :: "char list \<Rightarrow> nat \<Rightarrow> string \<Rightarrow> char list" where
  "bsplice b i xs = take i b @ xs @ drop (i + length xs) b"

lemma bsplice_length [buf_simps]: "i + length xs \<le> length b \<Longrightarrow> length (bsplice b i xs) = length b"
  by (simp add: bsplice_def)

lemma bsplice_Nil [buf_simps]: "bsplice b i [] = b"
  by (simp add: bsplice_def)

lemma bsplice_one [buf_simps]: "i < length b \<Longrightarrow> bsplice b i [c] = b[i := c]"
  by (simp add: bsplice_def upd_conv_take_nth_drop)

lemma bsplice_Cons [buf_simps]:
  "i + length xs < length b \<Longrightarrow> bsplice (b[i := c]) (Suc i) xs = bsplice b i (c # xs)"
  by (simp add: bsplice_def take_Suc_conv_app_nth)

lemma cstr_bsplice [buf_simps]:
  assumes "i \<le> length (cstr b)" and "i + length xs < length b" and "NUL \<notin> set xs"
  shows "cstr (bsplice b i (xs @ NUL # ys)) = take i (cstr b) @ xs"
proof -
  have "take i b = take i (cstr b)"
    using assms(1) by (metis cstr_def takeWhile_eq_take take_take min.absorb1)
  moreover have "NUL \<notin> set (take i (cstr b) @ xs)"
    using assms(3) by (auto dest: in_set_takeD)
  ultimately show ?thesis
    using cstr_append_NUL [of "take i (cstr b) @ xs"] by (simp add: bsplice_def)
qed

section \<open>Machine integers and decimal output\<close>

text \<open>The value a 32-bit signed \<open>int4\<close> holds after an assignment of \<open>v\<close>.\<close>

definition wrap16 :: "int \<Rightarrow> int" where
  "wrap16 v = sint (word_of_int v :: 16 word)"

lemma wrap16_id: "- (2 ^ 15) \<le> v \<Longrightarrow> v < 2 ^ 15 \<Longrightarrow> wrap16 v = v"
  by (simp add: wrap16_def int_word_sint)

lemma wrap16_range: "- (2 ^ 15) \<le> wrap16 v" "wrap16 v < 2 ^ 15"
  using sint_ge [of "word_of_int v :: 16 word"] sint_lt [of "word_of_int v :: 16 word"]
  by (simp_all add: wrap16_def)

definition wrap32 :: "int \<Rightarrow> int" where
  "wrap32 v = sint (word_of_int v :: 32 word)"

lemma wrap32_id: "- (2 ^ 31) \<le> v \<Longrightarrow> v < 2 ^ 31 \<Longrightarrow> wrap32 v = v"
  by (simp add: wrap32_def int_word_sint)

lemma wrap32_mod: "wrap32 (wrap32 a * k + d) = wrap32 (a * k + d)"
  by (simp add: wrap32_def)

text \<open>\<open>sprintf ("%d")\<close>: decimal digits, most significant first, with a minus sign.\<close>

definition digit_char :: "nat \<Rightarrow> char" where
  "digit_char d = char_of (48 + d)"

fun show_nat :: "nat \<Rightarrow> string" where
  "show_nat n = (if n < 10 then [digit_char n] else show_nat (n div 10) @ [digit_char (n mod 10)])"

declare show_nat.simps [simp del]

definition show_int :: "int \<Rightarrow> string" where
  "show_int i = (if i < 0 then CHR ''-'' # show_nat (nat (- i)) else show_nat (nat i))"


section \<open>Checked array access\<close>

definition idx :: "'a list \<Rightarrow> int \<Rightarrow> 'a option" where
  "idx xs i = (if 0 \<le> i \<and> nat i < length xs then Some (xs ! nat i) else None)"

definition upd_idx :: "'a list \<Rightarrow> int \<Rightarrow> 'a \<Rightarrow> 'a list option" where
  "upd_idx xs i v = (if 0 \<le> i \<and> nat i < length xs then Some (xs[nat i := v]) else None)"

lemma idx_int [simp]: "idx xs (int i) = (if i < length xs then Some (xs ! i) else None)"
  by (simp add: idx_def)

lemma upd_idx_int [simp]: "upd_idx xs (int i) v = (if i < length xs then Some (xs[i := v]) else None)"
  by (simp add: upd_idx_def)


section \<open>Reading C strings\<close>

text \<open>\<open>strlen\<close>; a block without a terminator has no length.\<close>

definition slen :: "char list \<Rightarrow> int option" where
  "slen b = (if NUL \<in> set b then Some (int (length (cstr b))) else None)"

text \<open>\<open>holds b x\<close>: the block holds the string \<open>x\<close> and its terminator.\<close>

definition holds :: "char list \<Rightarrow> string \<Rightarrow> bool" where
  "holds b x \<longleftrightarrow> cstr b = x \<and> NUL \<in> set b"

lemma cstr_shorter: "NUL \<in> set b \<Longrightarrow> length (cstr b) < length b"
  by (induction b) auto

lemma holds_length: "holds b x \<Longrightarrow> length x < length b"
  using cstr_shorter by (auto simp: holds_def)

lemma holds_no_NUL: "holds b x \<Longrightarrow> NUL \<notin> set x"
  by (auto simp: holds_def)

lemma holds_rd:
  assumes "holds b x" and "k \<le> length x"
  shows "rd b (int k) = Some (if k < length x then x ! k else NUL)"
  using assms holds_length [OF assms(1)] cstr_nth [of k b] cstr_nth_end [of b]
  by (cases "k < length x") (auto simp: holds_def)

lemma holds_slen: "holds b x \<Longrightarrow> slen b = Some (int (length x))"
  by (simp add: slen_def holds_def)

lemma holds_splice: "holds (x @ NUL # r) x \<longleftrightarrow> NUL \<notin> set x"
  by (auto simp: holds_def) (metis cstr_no_NUL)

lemma holds_split: "holds b x \<Longrightarrow> \<exists>r. b = x @ NUL # r"
  using cstr_split [of b] holds_length [of b x] by (auto simp: holds_def)

section \<open>Occurrences\<close>

text \<open>The position of the first occurrence of \<open>y\<close> that starts inside a string.\<close>

fun first_occ :: "string \<Rightarrow> string \<Rightarrow> nat option" where
  "first_occ y [] = None"
| "first_occ y (c # x) =
     (if prefix y (c # x) then Some 0 else map_option Suc (first_occ y x))"

lemma first_occ_Some:
  "first_occ y x = Some k \<Longrightarrow>
     k < length x \<and> prefix y (drop k x) \<and> (\<forall>j < k. \<not> prefix y (drop j x))"
proof (induction x arbitrary: k)
  case Nil
  then show ?case by simp
next
  case (Cons c x)
  show ?case
  proof (cases "prefix y (c # x)")
    case True
    then show ?thesis using Cons.prems by auto
  next
    case False
    then obtain k' where "first_occ y x = Some k'" "k = Suc k'" using Cons.prems by auto
    with Cons.IH [of k'] False show ?thesis by (auto simp: less_Suc_eq_0_disj)
  qed
qed

lemma first_occ_None: "first_occ y x = None \<longleftrightarrow> (\<forall>j < length x. \<not> prefix y (drop j x))"
proof (induction x)
  case Nil
  then show ?case by simp
next
  case (Cons c x)
  then show ?case by (auto simp: less_Suc_eq_0_disj)
qed

section \<open>Decimal digits\<close>

text \<open>The value of a string of digits, as the scanning loops accumulate it.\<close>

definition dval :: "string \<Rightarrow> int" where
  "dval x = foldl (\<lambda>r c. 10 * r + (bval c - 48)) 0 x"

lemma bval_digit_char: "d < 10 \<Longrightarrow> bval (digit_char d) = 48 + int d"
proof -
  assume "d < 10"
  then have "of_char (char_of (48 + d)) = (48 + d :: nat)" by simp
  then show "bval (digit_char d) = 48 + int d"
    unfolding bval_def digit_char_def by (metis of_nat_add of_nat_numeral of_nat_of_char)
qed

lemma show_nat_range: "c \<in> set (show_nat n) \<Longrightarrow> 48 \<le> bval c \<and> bval c \<le> 57"
proof (induction n rule: show_nat.induct)
  case (1 n)
  have "n mod 10 < 10" by simp
  then show ?case using 1 bval_digit_char [of "n mod 10"] bval_digit_char [of n]
    by (subst (asm) (2) show_nat.simps) (auto split: if_splits)
qed

lemma dval_snoc: "dval (x @ [c]) = 10 * dval x + (bval c - 48)"
  by (simp add: dval_def)

lemma dval_show: "dval (show_nat n) = int n"
proof (induction n rule: show_nat.induct)
  case (1 n)
  show ?case
  proof (cases "n < 10")
    case True
    then show ?thesis using bval_digit_char [of n] by (subst show_nat.simps) (simp add: dval_def)
  next
    case False
    have "bval (digit_char (n mod 10)) = 48 + int (n mod 10)" by (rule bval_digit_char) simp
    then have "dval (show_nat n) = 10 * int (n div 10) + int (n mod 10)"
      using False 1 by (subst show_nat.simps) (simp add: dval_snoc)
    then show ?thesis by (metis mult_div_mod_eq of_nat_add of_nat_mult of_nat_numeral)
  qed
qed

lemma show_nat_not_Nil: "show_nat n \<noteq> []"
  by (subst show_nat.simps) simp

text \<open>The index of the first entry equal to a string.\<close>

fun index_in :: "string list \<Rightarrow> string \<Rightarrow> nat option" where
  "index_in [] k = None"
| "index_in (x # xs) k = (if x = k then Some 0 else map_option Suc (index_in xs k))"

lemma index_in_Some:
  "index_in xs k = Some i \<Longrightarrow> i < length xs \<and> xs ! i = k \<and> (\<forall>j < i. xs ! j \<noteq> k)"
proof (induction xs arbitrary: i)
  case Nil
  then show ?case by simp
next
  case (Cons x xs)
  show ?case
  proof (cases "x = k")
    case True
    then show ?thesis using Cons.prems by simp
  next
    case False
    then obtain j where "index_in xs k = Some j" "i = Suc j" using Cons.prems by auto
    with Cons.IH [of j] False show ?thesis by (auto simp: less_Suc_eq_0_disj)
  qed
qed

lemma index_in_None: "index_in xs k = None \<longleftrightarrow> k \<notin> set xs"
  by (induction xs) auto

end
