(* ===== verification/ChixStore.thy ===== *)
theory ChixStore
  imports Prelude
begin

text \<open>
  The chix string store (\<open>CV2/chx\<close>, \<open>CV2/include/chixuse.h\<close>, \<open>chixdef.h\<close>): a \<open>Chix\<close> is a pointer
  to a control block \<open>struct chix_t\<close> which points to a byte buffer. This theory holds the
  control block, the heap of control blocks, the argument checks, error logging, allocation,
  freeing, length, indexing, resizing and the primitive copy loop \<open>chxcapc\<close>, with the store
  invariant \<open>chx_inv\<close> and the abstraction \<open>sview\<close> of a store to a map from addresses to strings.

  The build is the one the headers select: \<open>USE_THIN_CHIX = 1\<close>, one byte per character. The
  memory allocator always succeeds and gives every block an address of its own. Dereferencing the
  null pointer, an address that was never allocated or a block that was given back is the undefined
  value \<open>None\<close>: \<open>chxfree\<close> returns the control block together with the \<open>CHIX_FREED\<close> mark it has just
  put there, so that the sources' checks for the mark read memory that is no longer theirs. Lengths are
  unbounded integers where the sources have \<open>int4\<close>: no string of 2 GB or more is considered.
\<close>

section \<open>Data\<close>

record chix_t =
  c_ischix :: int
  c_name   :: string
  c_maxlen :: int
  c_p      :: "char list option"
  c_actlen :: int
  c_dic    :: int
  c_resize :: int
  c_type   :: int

text \<open>A pointer is \<open>None\<close> (the null pointer) or an address.\<close>

type_synonym Chix = "nat option"

abbreviation nullchix :: Chix where
  "nullchix \<equiv> None"

record rule_t =
  r_a :: int
  r_b :: int
  r_c :: int
  r_i :: int

text \<open>
  The state the chx functions share: the heap, the log file written by \<open>logger\<close>, the
  \<open>debug\<close> flag with the \<open>mem_debug\<close> records, and the file-scope statics: the blanks of
  \<open>chxspec.c\<close>, the rules of \<open>chxcolla.c\<close>, the slots of \<open>chxquick.c\<close> and the blank tables that
  \<open>chxtoken.c\<close>, \<open>chxnextw.c\<close>, \<open>chxint4.c\<close> and \<open>chxblank.c\<close> fill on their first call.
\<close>

record chx_state =
  heap     :: "nat \<Rightarrow> chix_t option"
  next_adr :: nat
  clog     :: "string list"
  exited   :: bool
  debug    :: bool
  mlog     :: "(int \<times> string \<times> int) list"
  blanks   :: Chix
  rules    :: "rule_t list"
  ctab     :: "Chix list"
  tab_token :: "string option"
  tab_nextw :: "string option"
  tab_int4  :: "string option"
  tab_blank :: "string option"

definition CHIX_MAGIC :: int where "CHIX_MAGIC = 0x4348583A"
definition CHIX_FREED :: int where "CHIX_FREED = 0x454D543A"
definition RESIZE_LIM :: int where "RESIZE_LIM = 100"
definition ALLCHARS :: int where "ALLCHARS = -1000"
definition THIN :: int where "THIN = 1"
definition WIDEST :: int where "WIDEST = 2"

definition MEM_ALLOC :: int where "MEM_ALLOC = 1000"
definition MEM_FREED :: int where "MEM_FREED = 1001"

definition ISCHIX :: "chix_t \<Rightarrow> bool" where
  "ISCHIX c \<longleftrightarrow> c_ischix c = CHIX_MAGIC"

definition FREED :: "chix_t \<Rightarrow> bool" where
  "FREED c \<longleftrightarrow> c_ischix c = CHIX_FREED"

lemma FREED_not_ISCHIX [simp]: "FREED c \<Longrightarrow> \<not> ISCHIX c" "ISCHIX c \<Longrightarrow> \<not> FREED c"
  by (simp_all add: FREED_def ISCHIX_def CHIX_MAGIC_def CHIX_FREED_def)

datatype cxe = CXE_NOERROR | CXE_NORESV | CXE_NULL | CXE_FREED | CXE_NOTCHX | CXE_LOMEM
  | CXE_NOMEM | CXE_RESIZE | CXE_NOEND | CXE_SELF

definition deref :: "Chix \<Rightarrow> chx_state \<Rightarrow> chix_t option" where
  "deref x s = (case x of None \<Rightarrow> None | Some a \<Rightarrow> heap s a)"

definition put :: "nat \<Rightarrow> chix_t \<Rightarrow> chx_state \<Rightarrow> chx_state" where
  "put a c s = s\<lparr>heap := (heap s)(a := Some c)\<rparr>"

definition init_state :: chx_state where
  "init_state = \<lparr>heap = (\<lambda>_. None), next_adr = 1, clog = [], exited = False, debug = False,
     mlog = [], blanks = None, rules = [], ctab = replicate 10 None,
     tab_token = None, tab_nextw = None, tab_int4 = None, tab_blank = None\<rparr>"

section \<open>Error reporting and argument checks\<close>

definition logger :: "string \<Rightarrow> chx_state \<Rightarrow> chx_state" where
  "logger m s = s\<lparr>clog := clog s @ [m]\<rparr>"

text \<open>
  \<open>chxerror\<close>: one log line per error, except that the \<open>CXE_SELF\<close> case has no \<open>break\<close> and also
  writes the line of the \<open>default\<close> case. The two out-of-memory cases end the process.
\<close>

definition NL :: string where "NL = [CHR 0x0A]"

definition quo :: "string \<Rightarrow> string" where
  "quo t = CHR 0x27 # t @ [CHR 0x27]"

fun chxerror :: "cxe \<Rightarrow> string \<Rightarrow> string \<Rightarrow> chx_state \<Rightarrow> chx_state" where
  "chxerror CXE_NORESV s1 s2 s =
     (logger (''CXE_NORESV (1), cannot allocate reserve memory in '' @ quo s1 @ ''.'' @ NL) s)\<lparr>exited := True\<rparr>"
| "chxerror CXE_LOMEM s1 s2 s =
     logger (''CXE_LOMEM (5), running out of heap memory in '' @ quo s1 @ ''.'' @ NL
             @ ''  String='' @ quo s2 @ NL) s"
| "chxerror CXE_NOMEM s1 s2 s =
     (logger (''CXE_NOMEM (6), all out of heap memory in '' @ quo s1 @ ''.'' @ NL) s)\<lparr>exited := True\<rparr>"
| "chxerror CXE_NULL s1 s2 s =
     logger (''CXE_NULL (2), chix argument is null pointer in '' @ quo s1 @ ''.'' @ NL) s"
| "chxerror CXE_FREED s1 s2 s =
     logger (''CXE_FREED (3), chix argument in '' @ quo s1 @ '' was freed!'' @ NL
             @ ''  Old name of chix was '' @ quo s2 @ NL) s"
| "chxerror CXE_NOTCHX s1 s2 s =
     logger (''CXE_NOTCHX (4), argument not a chix in '' @ quo s1 @ ''.'' @ NL) s"
| "chxerror CXE_RESIZE s1 s2 s =
     logger (''CXE_RESIZE (7), chix '' @ quo s2 @ '' resized too often.'' @ NL) s"
| "chxerror CXE_NOEND s1 s2 s =
     logger (''CXE_NOEND (8), chix '' @ quo s2 @ '' had no 0 terminator!'' @ NL) s"
| "chxerror CXE_SELF s1 s2 s =
     logger (''CXE_UNKNOWN (9), unknown chix error for chix '' @ quo s2 @ ''.'' @ NL)
       (logger (''CXE_SELF (9), used chix '' @ quo s2 @ '' twice in function call.'' @ NL) s)"
| "chxerror CXE_NOERROR s1 s2 s =
     logger (''CXE_UNKNOWN (0), unknown chix error for chix '' @ quo s2 @ ''.'' @ NL) s"

declare chxerror.simps [simp del]

text \<open>
  The argument check. \<open>chxcheck\<close> is the one-argument function; the same tests are written
  in line at the head of the other functions, for several pointers at once: first every
  pointer against null, then each for the freed mark in argument order, then all for the
  magic number. \<open>inline_check\<close> is that block: \<open>True\<close> when every argument passed.
\<close>

fun freed_check :: "string \<Rightarrow> Chix list \<Rightarrow> chx_state \<Rightarrow> (bool \<times> chx_state) option" where
  "freed_check fn [] s = Some (True, s)"
| "freed_check fn (x # xs) s = do {
     c \<leftarrow> deref x s;
     if FREED c then Some (False, chxerror CXE_FREED fn (c_name c) s)
     else freed_check fn xs s }"

fun all_chix :: "Chix list \<Rightarrow> chx_state \<Rightarrow> bool option" where
  "all_chix [] s = Some True"
| "all_chix (x # xs) s = do {
     c \<leftarrow> deref x s;
     if \<not> ISCHIX c then Some False else all_chix xs s }"

definition inline_check :: "string \<Rightarrow> Chix list \<Rightarrow> chx_state \<Rightarrow> (bool \<times> chx_state) option" where
  "inline_check fn xs s =
     (if None \<in> set xs then Some (False, chxerror CXE_NULL fn '''' s)
      else do {
        (ok, s) \<leftarrow> freed_check fn xs s;
        if \<not> ok then Some (False, s)
        else do {
          ok \<leftarrow> all_chix xs s;
          if \<not> ok then Some (False, chxerror CXE_NOTCHX fn '''' s) else Some (True, s) } })"

definition chxcheck :: "Chix \<Rightarrow> string \<Rightarrow> chx_state \<Rightarrow> (int \<times> chx_state) option" where
  "chxcheck x name s =
     (if x = nullchix then Some (0, chxerror CXE_NULL name '''' s)
      else do {
        c \<leftarrow> deref x s;
        if FREED c then Some (0, chxerror CXE_FREED name (c_name c) s)
        else if \<not> ISCHIX c then Some (0, chxerror CXE_NOTCHX name '''' s)
        else Some (1, s) })"

section \<open>Allocation and freeing\<close>

text \<open>\<open>sysmem (b, _)\<close> is \<open>calloc (b + 2, 1)\<close>: a zeroed block two bytes longer than asked for.\<close>

definition chxmem :: "int \<Rightarrow> char list" where
  "chxmem b = replicate (nat (b + 2)) NUL"

definition chx_strname :: "string \<Rightarrow> string" where
  "chx_strname name =
     (let w1 = take 7 (takeWhile (\<lambda>c. c \<noteq> CHR '' '') name);
          rest = dropWhile (\<lambda>c. c = CHR '' '') (dropWhile (\<lambda>c. c \<noteq> CHR '' '') name);
          w2 = take 7 (takeWhile (\<lambda>c. c \<noteq> CHR '' '') rest)
      in w1 @ CHR '' '' # w2)"

definition mem_debug :: "int \<Rightarrow> string \<Rightarrow> int \<Rightarrow> chx_state \<Rightarrow> chx_state" where
  "mem_debug ev nm len s = (if debug s then s\<lparr>mlog := mlog s @ [(ev, nm, len)]\<rparr> else s)"

definition chxalloc :: "int \<Rightarrow> int \<Rightarrow> string \<Rightarrow> chx_state \<Rightarrow> nat \<times> chx_state" where
  "chxalloc maxl type name s =
     (let strname = chx_strname name;
          maxlen = (if maxl < 63 then 63 else maxl);
          a = next_adr s;
          c = \<lparr>c_ischix = CHIX_MAGIC, c_name = strname, c_maxlen = maxlen,
               c_p = Some (chxmem (maxlen + 1)), c_actlen = 0, c_dic = -1, c_resize = 0,
               c_type = THIN\<rparr>;
          s = mem_debug MEM_ALLOC strname maxl s
      in (a, put a c (s\<lparr>next_adr := Suc a\<rparr>)))"

text \<open>
  \<open>sysfree\<close> of a control block: the memory is the allocator's again.
\<close>

definition sysfree :: "Chix \<Rightarrow> chx_state \<Rightarrow> chx_state" where
  "sysfree p s = (case p of None \<Rightarrow> s | Some a \<Rightarrow> s\<lparr>heap := (heap s)(a := None)\<rparr>)"

text \<open>
  \<open>chxfree\<close>. With \<open>debug\<close> set the control block is read before the null check. The block is marked
  and then given back.
\<close>

definition chxfree :: "Chix \<Rightarrow> chx_state \<Rightarrow> (int \<times> chx_state) option" where
  "chxfree x s = do {
     s \<leftarrow> (if debug s then do { c \<leftarrow> deref x s; Some (mem_debug MEM_FREED (c_name c) (c_maxlen c) s) }
           else Some s);
     (ok, s) \<leftarrow> inline_check ''chxfree'' [x] s;
     if \<not> ok then Some (1, s)
     else do {
       c \<leftarrow> deref x s;
       let s = put (the x) (c\<lparr>c_p := None, c_ischix := CHIX_FREED\<rparr>) s;
       Some (1, sysfree x s) } }"

section \<open>Length and indexing\<close>

text \<open>
  \<open>for (p = x->p; *p; ++p)\<close> stops at the first zero byte and leaves the block when there is
  none.
\<close>

definition strlen_of :: "char list \<Rightarrow> int option" where
  "strlen_of b = (if NUL \<in> set b then Some (int (length (cstr b))) else None)"

definition chxlen :: "Chix \<Rightarrow> chx_state \<Rightarrow> (int \<times> chx_state) option" where
  "chxlen x s =
     (if x = nullchix then Some (0, s)
      else do {
        c \<leftarrow> deref x s;
        if FREED c then Some (-1, chxerror CXE_FREED ''chxlen'' (c_name c) s)
        else if \<not> ISCHIX c then Some (-1, chxerror CXE_NOTCHX ''chxlen'' '''' s)
        else if 0 \<le> c_actlen c then Some (c_actlen c, s)
        else do {
          b \<leftarrow> c_p c;
          n \<leftarrow> strlen_of b;
          if n < c_maxlen c then Some (n, put (the x) (c\<lparr>c_actlen := n\<rparr>) s)
          else do {
            b \<leftarrow> wr b (c_maxlen c - 1) NUL;
            Some (c_maxlen c,
              put (the x) (c\<lparr>c_p := Some b, c_actlen := c_maxlen c\<rparr>)
                (chxerror CXE_NOEND ''chxlen'' (c_name c) s)) } } })"

definition chxvalue :: "Chix \<Rightarrow> int \<Rightarrow> chx_state \<Rightarrow> (int \<times> chx_state) option" where
  "chxvalue x n s = do {
     (ok, s) \<leftarrow> inline_check ''chxvalue'' [x] s;
     if \<not> ok then Some (-1, s)
     else do {
       c \<leftarrow> deref x s;
       (_, s) \<leftarrow> (if 0 > c_actlen c then chxlen x s else Some (0, s));
       c \<leftarrow> deref x s;
       if n \<ge> c_actlen c then Some (0, s)
       else do {
         b \<leftarrow> c_p c;
         v \<leftarrow> rd b n;
         Some (bval v, s) } } }"

definition EMPTYCHX :: "Chix \<Rightarrow> chx_state \<Rightarrow> (bool \<times> chx_state) option" where
  "EMPTYCHX x s =
     (if x = nullchix then Some (True, s)
      else do { (v, s) \<leftarrow> chxvalue x 0 s; Some (v = 0, s) })"

definition chxtype :: "Chix \<Rightarrow> chx_state \<Rightarrow> (int \<times> chx_state) option" where
  "chxtype x s =
     (if x = nullchix then Some (0, s)
      else do {
        c \<leftarrow> deref x s;
        if FREED c then Some (0, chxerror CXE_FREED ''chxtype'' (c_name c) s)
        else if \<not> ISCHIX c then Some (0, chxerror CXE_NOTCHX ''chxtype'' '''' s)
        else Some (c_type c, s) })"

section \<open>The copy loop and resizing\<close>

text \<open>
  \<open>chxcapc (ap, atype, bp, btype, n)\<close>: copy bytes from \<open>bp\<close> to \<open>ap\<close> until a zero byte has been
  copied or \<open>n\<close> bytes have; then write a zero byte at \<open>ap\<close>. The source is another block
  (\<open>Some b\<close>) or the destination block itself (\<open>None\<close>), as in \<open>chxcat (a, a)\<close>.
\<close>

function chxcapc :: "char list \<Rightarrow> int \<Rightarrow> char list option \<Rightarrow> int \<Rightarrow> int \<Rightarrow> int \<Rightarrow> char list option" where
  "chxcapc dst ap src bp count n =
     (if count = n then wr dst ap NUL
      else case rd (case src of None \<Rightarrow> dst | Some b \<Rightarrow> b) bp of
        None \<Rightarrow> None
      | Some c \<Rightarrow>
          (case wr dst ap c of
             None \<Rightarrow> None
           | Some dst' \<Rightarrow>
               if c = NUL then wr dst' (ap + 1) NUL
               else chxcapc dst' (ap + 1) src (bp + 1) (count + 1) n))"
  by pat_completeness auto
termination
  by (relation "measure (\<lambda>(dst, ap, src, bp, count, n). length dst - nat ap)")
     (auto simp: wr_def split: if_splits)

declare chxcapc.simps [simp del]

definition chxresize :: "Chix \<Rightarrow> int \<Rightarrow> int \<Rightarrow> chx_state \<Rightarrow> (int \<times> chx_state) option" where
  "chxresize x newtype newmax s = do {
     (ok, s) \<leftarrow> chxcheck x ''chxresize'' s;
     if ok = 0 then Some (0, s)
     else do {
       c \<leftarrow> deref x s;
       let newtype = (if THIN < c_type c then c_type c else THIN);
       let newmax = (if newmax < 2 then 2 else newmax);
       if newtype = c_type c \<and> newmax < c_maxlen c then Some (1, s)
       else do {
         let newmax = (if newmax < c_maxlen c then c_maxlen c else newmax);
         let expand = (3 * c_maxlen c) div 2;
         let newmax = (if newmax < expand then expand else newmax);
         p0 \<leftarrow> c_p c;
         p1 \<leftarrow> chxcapc (chxmem ((newmax + 1) * newtype)) 0 (Some p0) 0 0 (-1);
         let c = c\<lparr>c_maxlen := newmax, c_type := newtype, c_p := Some p1,
                   c_resize := c_resize c + 1\<rparr>;
         if c_resize c > RESIZE_LIM
         then Some (1, put (the x) (c\<lparr>c_resize := 0\<rparr>) (chxerror CXE_RESIZE ''chxresize'' (c_name c) s))
         else Some (1, put (the x) c s) } } }"


section \<open>Invariant and abstraction\<close>

text \<open>
  A well-formed control block: the buffer holds at least \<open>maxlen + 1\<close> bytes, its string ends
  before \<open>maxlen\<close>, and the cached length is unknown (\<open>-1\<close>) or right.
\<close>

definition wf_chix :: "chix_t \<Rightarrow> bool" where
  "wf_chix c \<longleftrightarrow> ISCHIX c \<and> c_type c = THIN \<and>
     (case c_p c of None \<Rightarrow> False
      | Some b \<Rightarrow> c_maxlen c + 1 \<le> int (length b) \<and> int (length (cstr b)) < c_maxlen c \<and>
                 (c_actlen c = -1 \<or> c_actlen c = int (length (cstr b))))"

definition ctext :: "chix_t \<Rightarrow> string" where
  "ctext c = (case c_p c of None \<Rightarrow> [] | Some b \<Rightarrow> cstr b)"

text \<open>The abstract store: which string each live address holds.\<close>

definition sview :: "chx_state \<Rightarrow> nat \<Rightarrow> string option" where
  "sview s a = (case heap s a of None \<Rightarrow> None
                | Some c \<Rightarrow> if ISCHIX c then Some (ctext c) else None)"

definition heap_ok :: "chx_state \<Rightarrow> bool" where
  "heap_ok s \<longleftrightarrow>
     (\<forall>a c. heap s a = Some c \<longrightarrow> a < next_adr s \<and> (ISCHIX c \<longrightarrow> wf_chix c))"

definition statics_ok :: "chx_state \<Rightarrow> bool" where
  "statics_ok s \<longleftrightarrow>
     (\<forall>a. blanks s = Some a \<longrightarrow> sview s a \<noteq> None) \<and>
     (ctab s = replicate 10 None \<or> length (ctab s) = 10 \<and> None \<notin> set (ctab s)) \<and>
     (\<forall>a. Some a \<in> set (ctab s) \<longrightarrow> a < next_adr s)"

definition chx_inv :: "chx_state \<Rightarrow> bool" where
  "chx_inv s \<longleftrightarrow> heap_ok s \<and> statics_ok s"

definition globs where
  "globs s = (blanks s, rules s, ctab s, tab_token s, tab_nextw s, tab_int4 s, tab_blank s,
              debug s, exited s)"

text \<open>
  \<open>chx_to s m s'\<close>: the store \<open>s'\<close> is a proper successor of \<open>s\<close> whose abstract content is \<open>m\<close>
  and whose statics are those of \<open>s\<close>. The contract of every string operation has this form.
\<close>

definition chx_to :: "chx_state \<Rightarrow> (nat \<Rightarrow> string option) \<Rightarrow> chx_state \<Rightarrow> bool" where
  "chx_to s m s' \<longleftrightarrow> chx_inv s' \<and> sview s' = m \<and> globs s' = globs s \<and> next_adr s \<le> next_adr s'"

named_theorems chx_simps \<open>rewriting of store accesses, checks and log writes\<close>

lemma put_simps [chx_simps]:
  "heap (put a c s) = (heap s)(a := Some c)" "next_adr (put a c s) = next_adr s"
  "blanks (put a c s) = blanks s" "ctab (put a c s) = ctab s" "globs (put a c s) = globs s"
  "sview (put a c s) = (sview s)(a := (if ISCHIX c then Some (ctext c) else None))"
  "clog (put a c s) = clog s"
  by (auto simp: put_def globs_def sview_def fun_eq_iff)

lemma sysfree_simps [chx_simps]:
  "heap (sysfree (Some a) s) = (heap s)(a := None)" "next_adr (sysfree (Some a) s) = next_adr s"
  "blanks (sysfree (Some a) s) = blanks s" "ctab (sysfree (Some a) s) = ctab s" "globs (sysfree (Some a) s) = globs s"
  "sview (sysfree (Some a) s) = (sview s)(a := None)"
  by (auto simp: sysfree_def globs_def sview_def fun_eq_iff)

lemma logger_simps [chx_simps]:
  "heap (logger m s) = heap s" "next_adr (logger m s) = next_adr s" "globs (logger m s) = globs s"
  "sview (logger m s) = sview s" "chx_inv (logger m s) = chx_inv s"
  "clog (logger m s) = clog s @ [m]"
  by (auto simp: logger_def globs_def sview_def fun_eq_iff chx_inv_def heap_ok_def statics_ok_def)

lemma chxerror_simps [chx_simps]:
  "e \<notin> {CXE_NORESV, CXE_NOMEM} \<Longrightarrow> heap (chxerror e s1 s2 s) = heap s"
  "e \<notin> {CXE_NORESV, CXE_NOMEM} \<Longrightarrow> next_adr (chxerror e s1 s2 s) = next_adr s"
  "e \<notin> {CXE_NORESV, CXE_NOMEM} \<Longrightarrow> globs (chxerror e s1 s2 s) = globs s"
  "e \<notin> {CXE_NORESV, CXE_NOMEM} \<Longrightarrow> sview (chxerror e s1 s2 s) = sview s"
  "e \<notin> {CXE_NORESV, CXE_NOMEM} \<Longrightarrow> chx_inv (chxerror e s1 s2 s) = chx_inv s"
  by (cases e; simp add: chxerror.simps logger_simps)+

lemma chx_inv_put:
  assumes "chx_inv s" and "heap s a = Some c0" and "wf_chix c"
  shows "chx_inv (put a c s)"
  using assms
  by (auto simp: chx_inv_def heap_ok_def statics_ok_def put_simps wf_chix_def split: if_splits)

lemma chx_to_put:
  assumes "chx_inv s" and "heap s a = Some c0" and "wf_chix c"
  shows "chx_to s ((sview s)(a \<mapsto> ctext c)) (put a c s)"
  using assms chx_inv_put [OF assms]
  by (auto simp: chx_to_def put_simps wf_chix_def)

lemma chx_to_logger: "chx_to s m s' \<Longrightarrow> chx_to s m (logger t s')"
  by (simp add: chx_to_def logger_simps)

lemma chx_to_chxerror:
  "chx_to s m s' \<Longrightarrow> e \<notin> {CXE_NORESV, CXE_NOMEM} \<Longrightarrow> chx_to s m (chxerror e s1 s2 s')"
  by (simp add: chx_to_def chxerror_simps)

lemma chx_to_refl: "chx_inv s \<Longrightarrow> chx_to s (sview s) s"
  by (simp add: chx_to_def)

lemma chx_to_trans: "chx_to s m s' \<Longrightarrow> chx_to s' m' s'' \<Longrightarrow> chx_to s m' s''"
  by (auto simp: chx_to_def)

text \<open>Read-only steps followed by one block update: the shape of most operations.\<close>

lemma chx_to_put_trans:
  assumes "chx_to s (sview s) s1" and "heap s1 a = Some c0" and "wf_chix c" and "ctext c = x"
  shows "chx_to s ((sview s)(a \<mapsto> x)) (put a c s1)"
proof -
  have "chx_inv s1" "sview s1 = sview s" using assms(1) by (simp_all add: chx_to_def)
  then have "chx_to s1 ((sview s)(a \<mapsto> x)) (put a c s1)"
    using chx_to_put [of s1 a c0 c] assms by simp
  then show ?thesis using assms(1) chx_to_trans by blast
qed

lemma chx_to_read_trans:
  "chx_to s (sview s) s1 \<Longrightarrow> chx_to s1 (sview s1) s2 \<Longrightarrow> chx_to s (sview s) s2"
  by (simp add: chx_to_def)

lemma chx_toD:
  "chx_to s m s' \<Longrightarrow> chx_inv s'" "chx_to s m s' \<Longrightarrow> sview s' = m"
  "chx_to s m s' \<Longrightarrow> globs s' = globs s" "chx_to s m s' \<Longrightarrow> next_adr s \<le> next_adr s'"
  by (simp_all add: chx_to_def)

text \<open>The concrete control block behind a live address.\<close>

lemma live_block:
  assumes "chx_inv s" and "sview s a = Some x"
  obtains c b where "heap s a = Some c" "ISCHIX c" "\<not> FREED c" "wf_chix c" "c_p c = Some b"
    "cstr b = x" "c_type c = THIN" "c_maxlen c + 1 \<le> int (length b)" "int (length x) < c_maxlen c"
    "c_actlen c = -1 \<or> c_actlen c = int (length x)"
proof -
  from assms obtain c where h: "heap s a = Some c" "ISCHIX c" "ctext c = x"
    by (auto simp: sview_def split: option.splits if_splits)
  with assms(1) have wf: "wf_chix c" by (auto simp: chx_inv_def heap_ok_def)
  then obtain b where "c_p c = Some b" by (auto simp: wf_chix_def split: option.splits)
  with that [of c b] h wf show thesis by (auto simp: wf_chix_def ctext_def)
qed

lemma fresh_not_live: "chx_inv s \<Longrightarrow> sview s (next_adr s) = None"
  by (auto simp: chx_inv_def heap_ok_def sview_def split: option.splits)

lemma live_less: "chx_inv s \<Longrightarrow> sview s a = Some x \<Longrightarrow> a < next_adr s"
  by (auto simp: chx_inv_def heap_ok_def sview_def split: option.splits)

lemma deref_simps [chx_simps]: "deref (Some a) s = heap s a" "deref None s = None"
  by (simp_all add: deref_def)

lemma freed_check_live:
  "\<forall>x \<in> set xs. \<exists>a y. x = Some a \<and> sview s a = Some y \<Longrightarrow> freed_check fn xs s = Some (True, s)"
  by (induction xs) (auto simp: deref_def sview_def split: option.splits if_splits)

lemma all_chix_live:
  "\<forall>x \<in> set xs. \<exists>a y. x = Some a \<and> sview s a = Some y \<Longrightarrow> all_chix xs s = Some True"
  by (induction xs) (auto simp: deref_def sview_def split: option.splits if_splits)

lemma inline_check_live:
  assumes "\<forall>x \<in> set xs. \<exists>a y. x = Some a \<and> sview s a = Some y"
  shows "inline_check fn xs s = Some (True, s)"
  using freed_check_live [OF assms] all_chix_live [OF assms] assms
  by (auto simp: inline_check_def)

lemmas inline_check_simps [chx_simps] =
  inline_check_live [where xs = "[Some a]" for a, simplified]
  inline_check_live [where xs = "[Some a, Some b]" for a b, simplified]
  inline_check_live [where xs = "[Some a, Some b, Some c]" for a b c, simplified]
  inline_check_live [where xs = "[Some a, Some b, Some c, Some d]" for a b c d, simplified]

lemma chxcheck_live [chx_simps]:
  "sview s a = Some x \<Longrightarrow> chxcheck (Some a) fn s = Some (1, s)"
  by (auto simp: chxcheck_def deref_def sview_def split: option.splits if_splits)

section \<open>Behaviour of the copy loop\<close>

lemma chxcapc_all:
  assumes "NUL \<in> set (drop j b)" and "n < c \<or> c + int (length (cstr (drop j b))) < n"
    and "i + length (cstr (drop j b)) + 1 < length dst"
  shows "chxcapc dst (int i) (Some b) (int j) c n =
         Some (bsplice dst i (cstr (drop j b) @ [NUL, NUL]))"
  using assms
proof (induction "length b - j" arbitrary: dst i j c)
  case 0
  then show ?case by simp
next
  case (Suc k)
  then have j: "j < length b" by simp
  then have d: "drop j b = b ! j # drop (Suc j) b" by (simp add: Cons_nth_drop_Suc)
  show ?case
  proof (cases "b ! j = NUL")
    case True
    then show ?thesis using Suc.prems j d
      by (subst chxcapc.simps)
         (auto simp: wr_def nat_add_distrib bsplice_Cons [symmetric] bsplice_Nil)
  next
    case False
    have IH: "chxcapc (dst[i := b ! j]) (int (Suc i)) (Some b) (int (Suc j)) (c + 1) n =
        Some (bsplice (dst[i := b ! j]) (Suc i) (cstr (drop (Suc j) b) @ [NUL, NUL]))"
      by (rule Suc.hyps(1)) (use Suc.prems Suc.hyps(2) False d in auto)
    with False show ?thesis using Suc.prems j d
      by (subst chxcapc.simps) (auto simp: bsplice_Cons add.commute)
  qed
qed

lemma chxcapc_some:
  assumes "NUL \<in> set (drop j b)" and "c + int m = n" and "0 \<le> c"
    and "m \<le> length (cstr (drop j b))" and "i + m < length dst"
  shows "chxcapc dst (int i) (Some b) (int j) c n =
         Some (bsplice dst i (take m (cstr (drop j b)) @ [NUL]))"
  using assms
proof (induction m arbitrary: dst i j c)
  case 0
  then show ?case by (subst chxcapc.simps) (simp add: bsplice_one)
next
  case (Suc m)
  have j: "j < length b" using Suc.prems(1) by (cases "j < length b") auto
  then have d: "drop j b = b ! j # drop (Suc j) b" by (simp add: Cons_nth_drop_Suc)
  with Suc.prems(4) have nz: "b ! j \<noteq> NUL" by (cases "b ! j = NUL") simp_all
  have IH: "chxcapc (dst[i := b ! j]) (int (Suc i)) (Some b) (int (Suc j)) (c + 1) n =
      Some (bsplice (dst[i := b ! j]) (Suc i) (take m (cstr (drop (Suc j) b)) @ [NUL]))"
  proof (rule Suc.IH)
    show "NUL \<in> set (drop (Suc j) b)" using Suc.prems(1) nz d by simp
    show "m \<le> length (cstr (drop (Suc j) b))" using Suc.prems(4) nz d by simp
  qed (use Suc.prems in simp_all)
  have rec: "chxcapc dst (int i) (Some b) (int j) c n =
      chxcapc (dst[i := b ! j]) (int (Suc i)) (Some b) (int (Suc j)) (c + 1) n"
    using Suc.prems(2,5) j nz by (subst chxcapc.simps) (simp add: add.commute)
  have "take (Suc m) (cstr (drop j b)) @ [NUL] = b ! j # take m (cstr (drop (Suc j) b)) @ [NUL]"
    using nz d by simp
  moreover have "length (take m (cstr (drop (Suc j) b))) = m" using Suc.prems(4) nz d by simp
  ultimately show ?case unfolding rec IH using Suc.prems(5) by (simp add: bsplice_Cons)
qed

text \<open>
  Copying from the destination block itself to the end of its own string never meets a
  zero byte: the loop overwrites the terminator first and runs off the block.
\<close>

lemma chxcapc_self_runs_off:
  assumes "0 < k" and "j + k \<le> length dst"
    and "\<forall>l < k. dst ! (j + l) \<noteq> NUL" and "n < 0" and "0 \<le> c"
  shows "chxcapc dst (int (j + k)) None (int j) c n = None"
  using assms
proof (induction "length dst - j" arbitrary: dst j c)
  case 0
  then show ?case by simp
next
  case (Suc m)
  let ?d = "dst[j + k := dst ! j]"
  have nz: "dst ! j \<noteq> NUL" using Suc.prems(1,3) by force
  show ?case
  proof (cases "j + k < length dst")
    case True
    have "chxcapc ?d (int (Suc j + k)) None (int (Suc j)) (c + 1) n = None"
    proof (rule Suc.hyps(1))
      show "\<forall>l<k. ?d ! (Suc j + l) \<noteq> NUL"
      proof (intro allI impI)
        fix l assume "l < k"
        with Suc.prems(3) [rule_format, of "Suc l"] nz True
        show "?d ! (Suc j + l) \<noteq> NUL" by (cases "Suc l = k") (auto simp: nth_list_update)
      qed
    qed (use Suc True in auto)
    with nz True Suc.prems show ?thesis
      by (subst chxcapc.simps) (simp add: add.commute add.left_commute wr_def nat_add_distrib)
  next
    case False
    with Suc.prems show ?thesis
      by (subst chxcapc.simps) (simp add: wr_def nat_add_distrib split: option.splits)
  qed
qed

section \<open>Contracts of the store operations\<close>

lemma map_upd_triv: "m a = Some x \<Longrightarrow> m(a \<mapsto> x) = m"
  by (simp add: fun_upd_idem)

lemma put_same: "heap s a = Some c \<Longrightarrow> put a c s = s"
  by (simp add: put_def fun_upd_idem)

lemma wf_chix_update_len:
  "wf_chix c \<Longrightarrow> c_p c = Some b \<Longrightarrow> wf_chix (c\<lparr>c_actlen := int (length (cstr b))\<rparr>)"
  by (auto simp: wf_chix_def ISCHIX_def)

text \<open>On a live chix, \<open>chxlen\<close> returns the string's length and caches it; nothing else changes.\<close>

lemma chxlen_eq:
  assumes "chx_inv s" and h: "heap s a = Some c" and wf: "wf_chix c" and p: "c_p c = Some b"
  shows "chxlen (Some a) s =
    Some (int (length (cstr b)), put a (c\<lparr>c_actlen := int (length (cstr b))\<rparr>) s)"
proof (cases "0 \<le> c_actlen c")
  case True
  then have "c\<lparr>c_actlen := int (length (cstr b))\<rparr> = c"
    using wf p by (auto simp: wf_chix_def)
  then show ?thesis using True wf p h
    by (auto simp: chxlen_def deref_simps wf_chix_def put_same)
next
  case False
  have "length (cstr b) < length b" using wf p by (auto simp: wf_chix_def)
  then have "NUL \<in> set b" by (rule cstr_has_NUL)
  then show ?thesis using False wf p h
    by (auto simp: chxlen_def deref_simps wf_chix_def strlen_of_def)
qed

lemma chxlen_ok:
  assumes "chx_inv s" and "sview s a = Some x"
  obtains s' where "chxlen (Some a) s = Some (int (length x), s')" "chx_to s (sview s) s'"
proof -
  obtain c b where c: "heap s a = Some c" "wf_chix c" "c_p c = Some b" "cstr b = x"
    by (rule live_block [OF assms])
  let ?c = "c\<lparr>c_actlen := int (length (cstr b))\<rparr>"
  have "chx_to s ((sview s)(a \<mapsto> ctext ?c)) (put a ?c s)"
    by (rule chx_to_put [OF assms(1) c(1) wf_chix_update_len [OF c(2,3)]])
  moreover have "(sview s)(a \<mapsto> ctext ?c) = sview s"
    using c assms(2) by (simp add: ctext_def map_upd_triv)
  ultimately show thesis using that chxlen_eq [OF assms(1) c(1,2,3)] c(4) by metis
qed

text \<open>The value \<open>chxvalue\<close> returns for position \<open>n\<close> of a string: 0 at and after its end.\<close>

definition char_at :: "string \<Rightarrow> int \<Rightarrow> int" where
  "char_at x n = (if n < int (length x) then bval (x ! nat n) else 0)"

lemma chxvalue_eq:
  assumes "chx_inv s" and h: "heap s a = Some c" and wf: "wf_chix c" and p: "c_p c = Some b"
    and "0 \<le> n"
  shows "chxvalue (Some a) n s =
    Some (char_at (cstr b) n, put a (c\<lparr>c_actlen := int (length (cstr b))\<rparr>) s)"
proof -
  have live: "sview s a = Some (cstr b)" using h wf p by (simp add: sview_def wf_chix_def ctext_def)
  have len: "length (cstr b) < length b" using wf p by (auto simp: wf_chix_def)
  have nth: "n < int (length (cstr b)) \<Longrightarrow> rd b n = Some (cstr b ! nat n)"
    using len \<open>0 \<le> n\<close> by (simp add: rd_def cstr_nth nat_less_iff)
  let ?c = "c\<lparr>c_actlen := int (length (cstr b))\<rparr>"
  show ?thesis
  proof (cases "0 > c_actlen c")
    case True
    then show ?thesis using live h p nth chxlen_eq [OF assms(1) h wf p]
      by (simp add: chxvalue_def inline_check_simps deref_simps put_simps char_at_def)
  next
    case False
    then have "c_actlen c = int (length (cstr b))" using wf p by (auto simp: wf_chix_def)
    moreover then have "put a ?c s = s" using h by (simp add: put_same)
    ultimately show ?thesis using live h p nth
      by (simp add: chxvalue_def inline_check_simps deref_simps char_at_def)
  qed
qed

lemma chxvalue_ok:
  assumes "chx_inv s" and "sview s a = Some x" and "0 \<le> n"
  obtains s' where "chxvalue (Some a) n s = Some (char_at x n, s')" "chx_to s (sview s) s'"
proof -
  obtain c b where c: "heap s a = Some c" "wf_chix c" "c_p c = Some b" "cstr b = x"
    by (rule live_block [OF assms(1,2)])
  let ?c = "c\<lparr>c_actlen := int (length (cstr b))\<rparr>"
  have "chx_to s ((sview s)(a \<mapsto> ctext ?c)) (put a ?c s)"
    by (rule chx_to_put [OF assms(1) c(1) wf_chix_update_len [OF c(2,3)]])
  moreover have "(sview s)(a \<mapsto> ctext ?c) = sview s"
    using c assms(2) by (simp add: ctext_def map_upd_triv)
  ultimately show thesis using that chxvalue_eq [OF assms(1) c(1,2,3) assms(3)] c(4) by metis
qed

lemma char_at_eq_0: "NUL \<notin> set x \<Longrightarrow> 0 \<le> n \<Longrightarrow> char_at x n = 0 \<longleftrightarrow> int (length x) \<le> n"
  by (auto simp: char_at_def) (metis nat_less_iff nth_mem)

lemma live_no_NUL: "sview s a = Some x \<Longrightarrow> NUL \<notin> set x"
  by (auto simp: sview_def ctext_def split: option.splits if_splits)

lemma EMPTYCHX_ok:
  assumes "chx_inv s" and "sview s a = Some x"
  obtains s' where "EMPTYCHX (Some a) s = Some (x = [], s')" "chx_to s (sview s) s'"
proof -
  obtain s' where "chxvalue (Some a) 0 s = Some (char_at x 0, s')" "chx_to s (sview s) s'"
    by (rule chxvalue_ok [OF assms order.refl])
  moreover have "char_at x 0 = 0 \<longleftrightarrow> x = []"
    using char_at_eq_0 [OF live_no_NUL [OF assms(2)], of 0] by simp
  ultimately show thesis using that by (simp add: EMPTYCHX_def)
qed

lemma chxtype_live: "chx_inv s \<Longrightarrow> sview s a = Some x \<Longrightarrow> chxtype (Some a) s = Some (THIN, s)"
  by (erule (1) live_block) (simp add: chxtype_def deref_simps)

text \<open>
  \<open>chxresize\<close> keeps the string, the cached length and the dictionary number, and afterwards
  the block has room for the requested number of characters.
\<close>

lemma chxresize_block:
  assumes "wf_chix c" and "c_p c = Some b" and "c_maxlen c \<le> m"
  shows "chxcapc (chxmem ((m + 1) * THIN)) 0 (Some b) 0 0 (-1) =
           Some (bsplice (chxmem (m + 1)) 0 (cstr b @ [NUL, NUL]))" (is ?copy)
    and "int (length (bsplice (chxmem (m + 1)) 0 (cstr b @ [NUL, NUL]))) = m + 3" (is ?len)
    and "cstr (bsplice (chxmem (m + 1)) 0 (cstr b @ [NUL, NUL])) = cstr b" (is ?str)
proof -
  have len: "length (cstr b) < length b" "int (length (cstr b)) < c_maxlen c"
    using assms(1,2) by (auto simp: wf_chix_def)
  have fits: "length (cstr b) + 1 < length (chxmem (m + 1))"
    using len(2) assms(3) by (simp add: chxmem_def)
  have "NUL \<in> set (drop 0 b)" using cstr_has_NUL [OF len(1)] by simp
  from chxcapc_all [OF this, of "-1" 0 0] fits show ?copy by (simp add: THIN_def)
  show ?len using fits len(2) assms(3) by (simp add: bsplice_length) (simp add: chxmem_def)
  show ?str using cstr_append_NUL [of "cstr b" "[NUL] @ drop (length (cstr b) + 2) (chxmem (m + 1))"]
    by (simp add: bsplice_def)
qed

lemma chxresize_ok:
  assumes inv: "chx_inv s" and h: "heap s a = Some c" and wf: "wf_chix c"
  obtains c' s' where "chxresize (Some a) t m s = Some (1, s')" "heap s' = (heap s)(a := Some c')"
    "wf_chix c'" "ctext c' = ctext c" "c_actlen c' = c_actlen c" "c_dic c' = c_dic c"
    "m \<le> c_maxlen c'" "chx_to s (sview s) s'" "c_maxlen c \<le> c_maxlen c'"
    "c' = c \<or> 3 * c_maxlen c div 2 \<le> c_maxlen c'"
proof -
  from wf obtain b where b: "c_p c = Some b" by (auto simp: wf_chix_def split: option.splits)
  have live: "sview s a = Some (ctext c)" using h wf by (simp add: sview_def wf_chix_def)
  have ty: "c_type c = THIN" using wf by (simp add: wf_chix_def)
  define m0 where "m0 = (if m < 2 then 2 else m)"
  note unf = chxresize_def chxcheck_live deref_simps Let_def m0_def [symmetric]
  show thesis
  proof (cases "m0 < c_maxlen c")
    case True
    then have "chxresize (Some a) t m s = Some (1, s)"
      using live h ty by (simp add: unf)
    moreover have "m \<le> c_maxlen c" using True by (simp add: m0_def split: if_splits)
    moreover have "heap s = (heap s)(a := Some c)" using h by (simp add: fun_upd_idem)
    ultimately show thesis using that wf chx_to_refl [OF inv] by blast
  next
    case False
    define nm where "nm = (if m0 < (3 * c_maxlen c) div 2 then (3 * c_maxlen c) div 2 else m0)"
    have nm: "c_maxlen c \<le> nm" "m \<le> nm" "3 * c_maxlen c div 2 \<le> nm" using False by (auto simp: nm_def m0_def)
    define b' where "b' = bsplice (chxmem (nm + 1)) 0 (cstr b @ [NUL, NUL])"
    define c1 where "c1 = c\<lparr>c_maxlen := nm, c_type := THIN, c_p := Some b', c_resize := c_resize c + 1\<rparr>"
    define c' where "c' = (if c_resize c1 > RESIZE_LIM then c1\<lparr>c_resize := 0\<rparr> else c1)"
    define s0 where "s0 = (if c_resize c1 > RESIZE_LIM then chxerror CXE_RESIZE ''chxresize'' (c_name c1) s else s)"
    note blk = chxresize_block [OF wf b nm(1)]
    have "chxresize (Some a) t m s = Some (1, put a c' s0)"
      using live h ty False blk(1) b
      by (simp add: unf nm_def [symmetric] c'_def c1_def s0_def b'_def)
    moreover have "wf_chix c'" "ctext c' = ctext c" "c_actlen c' = c_actlen c" "c_dic c' = c_dic c"
        "m \<le> c_maxlen c'" "c_maxlen c \<le> c_maxlen c'" "3 * c_maxlen c div 2 \<le> c_maxlen c'"
      using wf b blk(2,3) nm
      by (auto simp: c'_def c1_def b'_def wf_chix_def ISCHIX_def ctext_def)
    moreover have "chx_inv s0" "heap s0 = heap s" "sview s0 = sview s" "chx_to s (sview s) s0"
      using inv chx_to_refl [OF inv] by (auto simp: s0_def chxerror_simps chx_to_chxerror)
    moreover then have "chx_to s0 (sview s) (put a c' s0)"
      using chx_to_put [of s0 a c c'] h \<open>wf_chix c'\<close> live \<open>ctext c' = ctext c\<close>
      by (simp add: map_upd_triv)
    ultimately show thesis
      by (intro that [of "put a c' s0" c']) (auto simp: put_simps intro: chx_to_trans)
  qed
qed

lemma mem_debug_simps [chx_simps]:
  "heap (mem_debug e n l s) = heap s" "next_adr (mem_debug e n l s) = next_adr s"
  "globs (mem_debug e n l s) = globs s" "sview (mem_debug e n l s) = sview s"
  "chx_inv (mem_debug e n l s) = chx_inv s" "debug (mem_debug e n l s) = debug s"
  by (auto simp: mem_debug_def globs_def sview_def fun_eq_iff chx_inv_def heap_ok_def statics_ok_def)

text \<open>\<open>chxalloc\<close> returns a fresh address that holds the empty string.\<close>

lemma chxalloc_ok:
  assumes inv: "chx_inv s"
  obtains s' where "chxalloc m t nm s = (next_adr s, s')"
    "chx_to s ((sview s)(next_adr s \<mapsto> [])) s'" "next_adr s' = Suc (next_adr s)"
proof -
  define a where "a = next_adr s"
  define c where "c = \<lparr>c_ischix = CHIX_MAGIC, c_name = chx_strname nm,
     c_maxlen = (if m < 63 then 63 else m), c_p = Some (chxmem ((if m < 63 then 63 else m) + 1)),
     c_actlen = 0, c_dic = -1, c_resize = 0, c_type = THIN\<rparr>"
  define s0 where "s0 = (mem_debug MEM_ALLOC (chx_strname nm) m s)\<lparr>next_adr := Suc a\<rparr>"
  have emp: "cstr (chxmem k) = []" for k by (cases "nat (k + 2)") (simp_all add: chxmem_def)
  have wf: "wf_chix c" "ctext c = []"
    by (auto simp: c_def wf_chix_def ISCHIX_def emp ctext_def) (auto simp: chxmem_def)
  have h: "heap s0 = heap s" "sview s0 = sview s" "globs s0 = globs s" "blanks s0 = blanks s"
      "ctab s0 = ctab s"
    by (auto simp: s0_def mem_debug_def sview_def globs_def fun_eq_iff)
  have "chx_inv (put a c s0)"
    using inv wf h by (auto simp: chx_inv_def heap_ok_def statics_ok_def put_simps wf_chix_def
       s0_def a_def less_Suc_eq split: if_splits)
  then have "chx_to s ((sview s)(a \<mapsto> [])) (put a c s0)"
    using h wf by (auto simp: chx_to_def put_simps wf_chix_def s0_def a_def)
  moreover have "chxalloc m t nm s = (a, put a c s0)"
    by (simp add: chxalloc_def Let_def a_def c_def s0_def)
  moreover have "next_adr (put a c s0) = Suc a" by (simp add: put_simps s0_def)
  ultimately show thesis using that by (simp add: a_def)
qed

text \<open>\<open>chxfree\<close> takes the address out of the abstract store and gives the block back.\<close>

lemma chxfree_ok:
  assumes inv: "chx_inv s" and a: "sview s a = Some x" and nb: "blanks s \<noteq> Some a"
  obtains s' where "chxfree (Some a) s = Some (1, s')" "chx_to s ((sview s)(a := None)) s'"
    "heap s' a = None" "next_adr s' = next_adr s"
proof -
  obtain c where c: "heap s a = Some c" by (rule live_block [OF inv a])
  define s0 where "s0 = mem_debug MEM_FREED (c_name c) (c_maxlen c) s"
  let ?c = "c\<lparr>c_p := None, c_ischix := CHIX_FREED\<rparr>"
  have s0: "chx_inv s0" "heap s0 = heap s" "sview s0 = sview s" "blanks s0 = blanks s"
      "ctab s0 = ctab s" "globs s0 = globs s" "next_adr s0 = next_adr s"
    using inv by (auto simp: s0_def mem_debug_simps) (auto simp: mem_debug_def)
  have "chxfree (Some a) s = Some (1, sysfree (Some a) (put a ?c s0))"
  proof (cases "debug s")
    case True
    then show ?thesis using a c s0
      by (simp add: chxfree_def deref_simps s0_def [symmetric] inline_check_simps)
  next
    case False
    moreover then have "s0 = s" by (simp add: s0_def mem_debug_def)
    ultimately show ?thesis using a c by (simp add: chxfree_def deref_simps inline_check_simps)
  qed
  moreover have "chx_inv (sysfree (Some a) (put a ?c s0))" using s0 nb
    by (auto simp: chx_inv_def heap_ok_def statics_ok_def put_simps sysfree_simps split: if_splits)
  ultimately show thesis using that s0 by (auto simp: chx_to_def put_simps sysfree_simps)
qed

text \<open>A stale pointer is not caught: the check for the mark already reads memory that was given back.\<close>

lemma chxfree_stale:
  assumes "chxfree (Some a) s = Some (1, s')" "heap s' a = None"
  shows "chxlen (Some a) s' = None" "chxfree (Some a) s' = None" "inline_check fn [Some a] s' = None"
  using assms(2) by (simp_all add: chxlen_def chxfree_def inline_check_def deref_def)

text \<open>The string at an address.\<close>

definition text_at :: "chx_state \<Rightarrow> nat \<Rightarrow> string" where
  "text_at s a = (case sview s a of None \<Rightarrow> [] | Some x \<Rightarrow> x)"

lemma text_at_live: "sview s a \<noteq> None \<Longrightarrow> sview s a = Some (text_at s a)"
  by (auto simp: text_at_def)

section \<open>Sample stores\<close>

text \<open>
  A store that holds the given strings at the addresses 1, 2, ..., as \<open>chxalloc\<close> and \<open>chxofascii\<close>
  leave them. The witnesses of the development run the operations on such stores.
\<close>

definition block_of :: "string \<Rightarrow> chix_t" where
  "block_of t = \<lparr>c_ischix = CHIX_MAGIC, c_name = ''sample'', c_maxlen = int (length t) + 63,
     c_p = Some (t @ replicate 66 NUL), c_actlen = -1, c_dic = -1, c_resize = 0, c_type = THIN\<rparr>"

definition store_of :: "string list \<Rightarrow> chx_state" where
  "store_of ts = init_state\<lparr>
     heap := (\<lambda>a. if 0 < a \<and> a \<le> length ts then Some (block_of (ts ! (a - 1))) else None),
     next_adr := Suc (length ts)\<rparr>"

lemma block_of_wf:
  assumes "NUL \<notin> set t"
  shows "wf_chix (block_of t)" and "ctext (block_of t) = t"
proof -
  have "cstr (t @ replicate 66 NUL) = t"
    using cstr_append_NUL [OF assms, of "replicate 65 NUL"] by (simp add: numeral_eq_Suc)
  then show "wf_chix (block_of t)" and "ctext (block_of t) = t"
    by (simp_all add: block_of_def wf_chix_def ctext_def ISCHIX_def)
qed

lemma store_of_sview:
  assumes "\<forall>t \<in> set ts. NUL \<notin> set t"
  shows "sview (store_of ts) a = (if 0 < a \<and> a \<le> length ts then Some (ts ! (a - 1)) else None)"
proof -
  have "ISCHIX (block_of t)" for t by (simp add: block_of_def ISCHIX_def)
  then show ?thesis using assms block_of_wf(2) by (auto simp: store_of_def sview_def)
qed

lemma store_of_inv:
  assumes "\<forall>t \<in> set ts. NUL \<notin> set t"
  shows "chx_inv (store_of ts)"
proof -
  have "blanks (store_of ts) = None" "ctab (store_of ts) = replicate 10 None"
    by (simp_all add: store_of_def init_state_def)
  moreover have "heap_ok (store_of ts)"
    using assms block_of_wf(1) by (auto simp: heap_ok_def store_of_def split: if_splits)
  ultimately show ?thesis by (simp add: chx_inv_def statics_ok_def)
qed

section \<open>Properties\<close>

text \<open>
  Resizing a live chix never loses a character: the string, its cached length and every other string stay,
  the capacity is at least the requested one and never shrinks, and a block that is replaced grows by half
  of its size at least (so that repeated appending is linear).
\<close>

theorem chxresize_grows:
  assumes "chx_inv s" and "sview s a = Some x"
  shows "\<exists>s' c c'. chxresize (Some a) t m s = Some (1, s') \<and> chx_inv s' \<and> sview s' = sview s \<and>
    heap s a = Some c \<and> heap s' a = Some c' \<and> c_actlen c' = c_actlen c \<and>
    m \<le> c_maxlen c' \<and> c_maxlen c \<le> c_maxlen c' \<and> (c' = c \<or> 3 * c_maxlen c div 2 \<le> c_maxlen c') \<and>
    (case c_p c' of None \<Rightarrow> False | Some b \<Rightarrow> c_maxlen c' + 1 \<le> int (length b))"
proof -
  obtain c b where c: "heap s a = Some c" "wf_chix c" "c_type c = THIN" "c_p c = Some b" by (rule live_block [OF assms])
  obtain c' s' where r: "chxresize (Some a) t m s = Some (1, s')" "heap s' = (heap s)(a := Some c')"
      "wf_chix c'" "c_actlen c' = c_actlen c" "m \<le> c_maxlen c'" "chx_to s (sview s) s'" "c_maxlen c \<le> c_maxlen c'"
      "c' = c \<or> 3 * c_maxlen c div 2 \<le> c_maxlen c'"
    by (rule chxresize_ok [OF assms(1) c(1,2)])
  show ?thesis using c r chx_toD(1,2) [OF r(6)] by (auto simp: wf_chix_def split: option.splits)
qed

theorem chxresize_grows_witness:
  "\<exists>s' c c'. chxresize (Some 1) THIN 500 (store_of [''foo'']) = Some (1, s') \<and> chx_inv s' \<and> sview s' = sview (store_of [''foo'']) \<and>
    heap (store_of [''foo'']) 1 = Some c \<and> heap s' 1 = Some c' \<and> c_actlen c' = c_actlen c \<and>
    500 \<le> c_maxlen c' \<and> c_maxlen c \<le> c_maxlen c' \<and> (c' = c \<or> 3 * c_maxlen c div 2 \<le> c_maxlen c') \<and>
    (case c_p c' of None \<Rightarrow> False | Some b \<Rightarrow> c_maxlen c' + 1 \<le> int (length b))"
  by (rule chxresize_grows [of "store_of [''foo'']" 1 "''foo''"]) (simp_all add: store_of_inv store_of_sview)

end
