(* ===== verification/ChixOps.thy ===== *)
theory ChixOps
  imports ChixStore
begin

text \<open>
  The chix operations that build and change strings (\<open>chxclear\<close>, \<open>chxcat\<close>, \<open>chxcatsub\<close>,
  \<open>chxcatval\<close>, \<open>chxcpy\<close>, \<open>chxconc\<close>, \<open>chxalsub\<close>, \<open>chxtrunc\<close>, \<open>chxtrim\<close>, \<open>chxchomp\<close>, \<open>chxsetval\<close>,
  \<open>chxrepval\<close>, \<open>chxofascii\<close>, \<open>chxofraw\<close>, \<open>chxquick\<close>), each with its contract: on live arguments
  no access leaves a buffer, the store invariant is kept, and the abstract store changes
  exactly as the string operation says.
\<close>

section \<open>Definitions\<close>

text \<open>\<open>chxcapc (a->p + off, ..., b->p + boff, ..., n)\<close> on the buffers of two chix.\<close>

definition capc_chix :: "Chix \<Rightarrow> int \<Rightarrow> Chix \<Rightarrow> int \<Rightarrow> int \<Rightarrow> chx_state \<Rightarrow> chx_state option" where
  "capc_chix a off b boff n s = do {
     ca \<leftarrow> deref a s;
     pa \<leftarrow> c_p ca;
     cb \<leftarrow> deref b s;
     pb \<leftarrow> c_p cb;
     p' \<leftarrow> chxcapc pa off (if a = b then None else Some pb) boff 0 n;
     Some (put (the a) (ca\<lparr>c_p := Some p'\<rparr>) s) }"

definition set_actlen :: "Chix \<Rightarrow> int \<Rightarrow> chx_state \<Rightarrow> chx_state option" where
  "set_actlen a n s = do { c \<leftarrow> deref a s; Some (put (the a) (c\<lparr>c_actlen := n\<rparr>) s) }"

definition poke :: "Chix \<Rightarrow> int \<Rightarrow> char \<Rightarrow> chx_state \<Rightarrow> chx_state option" where
  "poke a i v s = do {
     c \<leftarrow> deref a s;
     p \<leftarrow> c_p c;
     p' \<leftarrow> wr p i v;
     Some (put (the a) (c\<lparr>c_p := Some p'\<rparr>) s) }"

text \<open>The guarded call \<open>if (P) chxresize (a, t, m)\<close>; the value is 1 when no resize was needed.\<close>

definition resize_if :: "bool \<Rightarrow> Chix \<Rightarrow> int \<Rightarrow> int \<Rightarrow> chx_state \<Rightarrow> (int \<times> chx_state) option" where
  "resize_if P a t m s = (if P then chxresize a t m s else Some (1, s))"

definition chxclear :: "Chix \<Rightarrow> chx_state \<Rightarrow> (int \<times> chx_state) option" where
  "chxclear x s = do {
     (ok, s) \<leftarrow> inline_check ''chxclear'' [x] s;
     if \<not> ok then Some (1, s)
     else do {
       s \<leftarrow> poke x 0 NUL s;
       s \<leftarrow> set_actlen x 0 s;
       Some (1, s) } }"

definition chxcat :: "Chix \<Rightarrow> Chix \<Rightarrow> chx_state \<Rightarrow> (int \<times> chx_state) option" where
  "chxcat a b s = do {
     (ok, s) \<leftarrow> inline_check ''chxcat'' [a, b] s;
     if \<not> ok then Some (0, s)
     else do {
       (b_len, s) \<leftarrow> chxlen b s;
       (a_len, s) \<leftarrow> chxlen a s;
       ca \<leftarrow> deref a s;
       cb \<leftarrow> deref b s;
       (ok, s) \<leftarrow> resize_if (c_type ca < c_type cb \<or> c_maxlen ca < a_len + b_len + 1) a (c_type cb) (a_len + b_len + 5) s;
       if ok = 0 then Some (0, s)
       else do {
         ca \<leftarrow> deref a s;
         s \<leftarrow> capc_chix a (a_len * c_type ca) b 0 (-1) s;
         s \<leftarrow> set_actlen a (a_len + b_len) s;
         Some (1, s) } } }"

text \<open>
  The clamping of \<open>n\<close> and \<open>i\<close> in \<open>chxcatsub\<close>, and the number \<open>use_b\<close> of characters of \<open>B\<close> used.
\<close>

definition clamp_count :: "int \<Rightarrow> int \<Rightarrow> int" where
  "clamp_count n len_b = (let n = (if n = ALLCHARS then len_b else n) in if n < 0 then 0 else n)"

definition clamp_start :: "int \<Rightarrow> int \<Rightarrow> int" where
  "clamp_start i len_b = (let i = (if i < 0 then 0 else i) in if i \<ge> len_b then len_b else i)"

definition used_count :: "int \<Rightarrow> int \<Rightarrow> int \<Rightarrow> int" where
  "used_count n i len_b = (let use_b = len_b - i in if n < use_b then n else use_b)"

definition chxcatsub :: "Chix \<Rightarrow> Chix \<Rightarrow> int \<Rightarrow> int \<Rightarrow> chx_state \<Rightarrow> (int \<times> chx_state) option" where
  "chxcatsub a b i n s = do {
     (ok, s) \<leftarrow> inline_check ''chxcat'' [a, b] s;
     if \<not> ok then Some (1, s)
     else if a = b then do {
       c \<leftarrow> deref a s;
       Some (1, chxerror CXE_SELF ''chxcatsub'' (c_name c) s) }
     else do {
       (len_a, s) \<leftarrow> chxlen a s;
       (len_b, s) \<leftarrow> chxlen b s;
       let n = clamp_count n len_b;
       let i = clamp_start i len_b;
       let use_b = used_count n i len_b;
       ca \<leftarrow> deref a s;
       cb \<leftarrow> deref b s;
       (_, s) \<leftarrow> resize_if (c_type ca < c_type cb \<or> c_maxlen ca < len_a + use_b + 3) a (c_type cb) (len_a + use_b + 5) s;
       ca \<leftarrow> deref a s;
       cb \<leftarrow> deref b s;
       s \<leftarrow> capc_chix a (c_type ca * len_a) b (c_type cb * i) n s;
       s \<leftarrow> set_actlen a (-1) s;
       Some (1, s) } }"

definition chxcatval :: "Chix \<Rightarrow> int \<Rightarrow> int \<Rightarrow> chx_state \<Rightarrow> (int \<times> chx_state) option" where
  "chxcatval a width v s = do {
     (ok, s) \<leftarrow> inline_check ''chxcatval'' [a] s;
     if \<not> ok then Some (0, s)
     else do {
       c \<leftarrow> deref a s;
       (len, s) \<leftarrow> (if c_actlen c < 0 then chxlen a s else Some (c_actlen c, s));
       c \<leftarrow> deref a s;
       (ok, s) \<leftarrow> resize_if (c_maxlen c \<le> len + 2) a THIN (len + 5) s;
       if ok = 0 then Some (0, s)
       else do {
         s \<leftarrow> poke a len (byte v) s;
         s \<leftarrow> poke a (len + 1) NUL s;
         c \<leftarrow> deref a s;
         s \<leftarrow> set_actlen a (c_actlen c + 1) s;
         Some (1, s) } } }"

text \<open>\<open>for (i = 0; i < len; ++i) a->p[i] = b->p[i]\<close>, the reads checked against \<open>b->p\<close>.\<close>

fun copy_bytes :: "char list \<Rightarrow> char list \<Rightarrow> nat \<Rightarrow> char list option" where
  "copy_bytes dst src 0 = Some dst"
| "copy_bytes dst src (Suc n) = do {
     dst \<leftarrow> copy_bytes dst src n;
     v \<leftarrow> rd src (int n);
     wr dst (int n) v }"

definition chxcpy :: "Chix \<Rightarrow> Chix \<Rightarrow> chx_state \<Rightarrow> (int \<times> chx_state) option" where
  "chxcpy a b s = do {
     (ok, s) \<leftarrow> inline_check ''chxcpy'' [a, b] s;
     if \<not> ok then Some (1, s)
     else do {
       ca \<leftarrow> deref a s;
       cb \<leftarrow> deref b s;
       if c_type ca > c_type cb then do {
         (_, s) \<leftarrow> chxclear a s;
         (_, s) \<leftarrow> chxcat a b s;
         Some (1, s) }
       else do {
         (n, s) \<leftarrow> chxlen b s;
         let len = n + 1;
         ca \<leftarrow> deref a s;
         (_, s) \<leftarrow> resize_if (c_type ca < c_type cb) a (c_type cb) (len + 20) s;
         ca \<leftarrow> deref a s;
         (_, s) \<leftarrow> resize_if (c_maxlen ca < len) a (c_type ca) (len + 20) s;
         ca \<leftarrow> deref a s;
         cb \<leftarrow> deref b s;
         pa \<leftarrow> c_p ca;
         pb \<leftarrow> c_p cb;
         p' \<leftarrow> copy_bytes pa pb (nat len);
         Some (1, put (the a) (ca\<lparr>c_p := Some p', c_actlen := c_actlen cb, c_dic := c_dic cb\<rparr>) s) } } }"

text \<open>
  \<open>chxconc\<close> builds the concatenation in a new chix \<open>z\<close>, moves its control block into \<open>a\<close> and
  frees \<open>z\<close>'s block itself (\<open>sysfree\<close>, not \<open>chxfree\<close>).
\<close>

definition chxconc :: "Chix \<Rightarrow> Chix \<Rightarrow> Chix \<Rightarrow> chx_state \<Rightarrow> (int \<times> chx_state) option" where
  "chxconc a b c s = do {
     (ok, s) \<leftarrow> inline_check ''chxconc'' [a, b, c] s;
     if \<not> ok then Some (1, s)
     else do {
       cb \<leftarrow> deref b s;
       let (z, s) = chxalloc (c_maxlen cb) (c_type cb) ''chxconc z'' s;
       (_, s) \<leftarrow> chxcpy (Some z) b s;
       (_, s) \<leftarrow> chxcat (Some z) c s;
       cz \<leftarrow> deref (Some z) s;
       let s = put (the a) cz s;
       Some (1, sysfree (Some z) s) } }"

definition chxalsub :: "Chix \<Rightarrow> int \<Rightarrow> int \<Rightarrow> chx_state \<Rightarrow> (Chix \<times> chx_state) option" where
  "chxalsub a i n s = do {
     (ok, s) \<leftarrow> inline_check ''chxalsub'' [a] s;
     if \<not> ok then Some (nullchix, s)
     else do {
       ca \<leftarrow> deref a s;
       let (r, s) = chxalloc 80 (c_type ca) ''chxalsub result'' s;
       (_, s) \<leftarrow> chxcatsub (Some r) a i n s;
       Some (Some r, s) } }"

definition chxtrunc :: "Chix \<Rightarrow> int \<Rightarrow> chx_state \<Rightarrow> (int \<times> chx_state) option" where
  "chxtrunc x pos s = do {
     (ok, s) \<leftarrow> inline_check ''chxtrunc'' [x] s;
     if \<not> ok then Some (0, s)
     else do {
       (len, s) \<leftarrow> chxlen x s;
       if pos \<ge> len then Some (0, s)
       else do {
         s \<leftarrow> poke x pos NUL s;
         s \<leftarrow> set_actlen x pos s;
         Some (1, s) } } }"

text \<open>
  \<open>for (p = x->p; last >= 0; --last) if (NOT blank (p[last])) break;\<close> with the loop counter
  \<open>n = last + 1\<close>; the value returned is \<open>++last\<close>.
\<close>

fun back_loop :: "(char \<Rightarrow> bool) \<Rightarrow> char list \<Rightarrow> nat \<Rightarrow> nat option" where
  "back_loop blank p 0 = Some 0"
| "back_loop blank p (Suc n) = do {
     v \<leftarrow> rd p (int n);
     if blank v then back_loop blank p n else Some (Suc n) }"

definition back_trim :: "string \<Rightarrow> (char \<Rightarrow> bool) \<Rightarrow> Chix \<Rightarrow> chx_state \<Rightarrow> (int \<times> chx_state) option" where
  "back_trim fn blank x s = do {
     (ok, s) \<leftarrow> inline_check fn [x] s;
     if \<not> ok then Some (0, s)
     else do {
       c \<leftarrow> deref x s;
       (n, s) \<leftarrow> (if c_actlen c \<ge> 0 then Some (c_actlen c, s) else chxlen x s);
       c \<leftarrow> deref x s;
       p \<leftarrow> c_p c;
       last \<leftarrow> back_loop blank p (nat n);
       s \<leftarrow> poke x (int last) NUL s;
       s \<leftarrow> set_actlen x (int last) s;
       Some (1, s) } }"

definition chxtrim :: "Chix \<Rightarrow> chx_state \<Rightarrow> (int \<times> chx_state) option" where
  "chxtrim x s = back_trim ''chxtrim'' (\<lambda>c. c = CHR '' '') x s"

definition chxchomp :: "Chix \<Rightarrow> chx_state \<Rightarrow> (int \<times> chx_state) option" where
  "chxchomp x s = back_trim ''chxchomp'' (\<lambda>c. c = CHR 0x0A \<or> c = CHR 0x0D) x s"

definition chxsetval :: "Chix \<Rightarrow> int \<Rightarrow> int \<Rightarrow> int \<Rightarrow> chx_state \<Rightarrow> (int \<times> chx_state) option" where
  "chxsetval x pos width val s = do {
     (ok, s) \<leftarrow> inline_check ''chxsetval'' [x] s;
     if \<not> ok then Some (0, s)
     else do {
       (len, s) \<leftarrow> chxlen x s;
       if pos \<ge> len then Some (0, s)
       else do {
         c \<leftarrow> deref x s;
         (ok, s) \<leftarrow> resize_if (c_type c < THIN) x THIN len s;
         if ok = 0 then Some (0, s)
         else do {
           s \<leftarrow> poke x pos (byte val) s;
           Some (1, s) } } } }"

function repval_loop :: "char list \<Rightarrow> int \<Rightarrow> int \<Rightarrow> int \<Rightarrow> int \<Rightarrow> int \<Rightarrow> char list option" where
  "repval_loop p type pos len oldval newval =
     (if pos < len then do {
        v \<leftarrow> rd p (type * pos);
        if bval v = 0 then Some p
        else if bval v = oldval then do {
          p \<leftarrow> wr p (type * pos) (byte newval);
          repval_loop p type (pos + 1) len oldval newval }
        else repval_loop p type (pos + 1) len oldval newval }
      else Some p)"
  by pat_completeness auto
termination
  by (relation "measure (\<lambda>(p, t, pos, len, ov, nv). nat (len - pos))") auto

declare repval_loop.simps [simp del]

definition chxrepval :: "Chix \<Rightarrow> int \<Rightarrow> int \<Rightarrow> int \<Rightarrow> int \<Rightarrow> chx_state \<Rightarrow> (int \<times> chx_state) option" where
  "chxrepval x pos width oldval newval s = do {
     (ok, s) \<leftarrow> chxcheck x ''chxsetval'' s;
     if ok = 0 then Some (0, s)
     else do {
       (len, s) \<leftarrow> chxlen x s;
       if pos \<ge> len then Some (0, s)
       else do {
         c \<leftarrow> deref x s;
         (ok, s) \<leftarrow> resize_if (c_type c < THIN) x THIN len s;
         if ok = 0 then Some (0, s)
         else do {
           c \<leftarrow> deref x s;
           p \<leftarrow> c_p c;
           p' \<leftarrow> repval_loop p (c_type c) pos len oldval newval;
           Some (1, put (the x) (c\<lparr>c_p := Some p'\<rparr>) s) } } } }"

text \<open>A C string argument is \<open>None\<close> (NULL) or the bytes before its terminator.\<close>

definition chxofascii :: "Chix \<Rightarrow> string option \<Rightarrow> chx_state \<Rightarrow> (int \<times> chx_state) option" where
  "chxofascii a str s = do {
     (ok, s) \<leftarrow> inline_check ''chxlofascii'' [a] s;
     if \<not> ok then Some (0, s)
     else case str of
       None \<Rightarrow> Some (0, s)
     | Some t \<Rightarrow> do {
         let len = int (length t);
         c \<leftarrow> deref a s;
         (ok, s) \<leftarrow> resize_if (c_maxlen c < len + 5) a (c_type c) (len + 5) s;
         if ok = 0 then Some (0, s)
         else do {
           (_, s) \<leftarrow> chxclear a s;
           c \<leftarrow> deref a s;
           p \<leftarrow> c_p c;
           p' \<leftarrow> chxcapc p 0 (Some (t @ [NUL])) 0 0 (-1);
           Some (1, put (the a) (c\<lparr>c_p := Some p', c_actlen := len\<rparr>) s) } } }"

text \<open>\<open>chxofraw (a, raw, width, len)\<close>: \<open>raw\<close> is \<open>None\<close> (NULL) or a block of bytes.\<close>

definition chxofraw :: "Chix \<Rightarrow> char list option \<Rightarrow> int \<Rightarrow> int \<Rightarrow> chx_state \<Rightarrow> (int \<times> chx_state) option" where
  "chxofraw a raw width len s = do {
     (ok, s) \<leftarrow> (if a = nullchix then Some (False, chxerror CXE_NULL ''chxofraw'' '''' s)
                else inline_check ''chxfraw'' [a] s);
     if \<not> ok then Some (0, s)
     else case raw of
       None \<Rightarrow> Some (0, s)
     | Some r \<Rightarrow>
         if len \<le> 0 \<or> width < 1 \<or> width > WIDEST then Some (0, s)
         else do {
           c \<leftarrow> deref a s;
           p \<leftarrow> copy_bytes (chxmem (len + width)) r (nat len);
           p \<leftarrow> wr p len NUL;
           Some (1, put (the a) (c\<lparr>c_p := Some p, c_maxlen := len div width, c_actlen := -1,
                     c_resize := 0, c_type := width\<rparr>) s) } }"

definition CTABSIZE :: nat where "CTABSIZE = 10"

fun alloc_slots :: "nat \<Rightarrow> chx_state \<Rightarrow> Chix list \<times> chx_state" where
  "alloc_slots 0 s = ([], s)"
| "alloc_slots (Suc n) s =
     (let (a, s) = chxalloc 30 THIN ''ctab[i]'' s; (as, s) = alloc_slots n s in (Some a # as, s))"

definition c_strcpy :: "char list \<Rightarrow> string \<Rightarrow> char list option" where
  "c_strcpy dst t = (if length t < length dst then Some (bsplice dst 0 (t @ [NUL])) else None)"

definition chxquick :: "string option \<Rightarrow> int \<Rightarrow> chx_state \<Rightarrow> (Chix \<times> chx_state) option" where
  "chxquick str slot s =
     (let str = (case str of None \<Rightarrow> [] | Some t \<Rightarrow> t);
          slot = nat (if slot < 0 then 0 else if slot > int CTABSIZE - 1 then int CTABSIZE - 1 else slot);
          s = (if ctab s ! 0 = nullchix
               then let (as, s) = alloc_slots CTABSIZE s in s\<lparr>ctab := as\<rparr> else s)
      in do {
        c \<leftarrow> deref (ctab s ! slot) s;
        let s = (if FREED c
                 then let (a, s) = chxalloc 30 THIN ''ctab realloc'' s in s\<lparr>ctab := (ctab s)[slot := Some a]\<rparr>
                 else s);
        let x = ctab s ! slot;
        let len = int (length str);
        s \<leftarrow> poke x 0 NUL s;
        s \<leftarrow> set_actlen x 0 s;
        c \<leftarrow> deref x s;
        (ok, s) \<leftarrow> resize_if (c_maxlen c < len + 5) x (c_type c) (len + 5) s;
        if ok = 0 then Some (x, s)
        else do {
          c \<leftarrow> deref x s;
          p \<leftarrow> c_p c;
          p' \<leftarrow> c_strcpy p str;
          Some (x, put (the x) (c\<lparr>c_p := Some p', c_actlen := len\<rparr>) s) } })"

section \<open>Writing into a block\<close>

lemma put_put [chx_simps]: "put a c (put a c0 s) = put a c s"
  by (simp add: put_def)

text \<open>
  The one fact about buffers that the contracts rest on: writing \<open>xs\<close> and a terminator at a
  position inside the string, with room before \<open>maxlen\<close>, keeps the block well-formed when
  the cached length is set to the new length or to unknown.
\<close>

lemma block_write:
  assumes "wf_chix c" and "c_p c = Some b" and "i \<le> length (cstr b)"
    and "int (i + length xs) < c_maxlen c" and "i + length xs + 1 + length ys \<le> length b"
    and "NUL \<notin> set xs" and "l = -1 \<or> l = int (i + length xs)"
  shows "wf_chix (c\<lparr>c_p := Some (bsplice b i (xs @ NUL # ys)), c_actlen := l\<rparr>)"
    and "ctext (c\<lparr>c_p := Some (bsplice b i (xs @ NUL # ys)), c_actlen := l\<rparr>) = take i (cstr b) @ xs"
proof -
  have "cstr (bsplice b i (xs @ NUL # ys)) = take i (cstr b) @ xs"
    by (rule cstr_bsplice) (use assms in auto)
  moreover have "length (bsplice b i (xs @ NUL # ys)) = length b"
    by (rule bsplice_length) (use assms in auto)
  moreover have "c_maxlen c + 1 \<le> int (length b)" using assms(1,2) by (simp add: wf_chix_def)
  ultimately show "wf_chix (c\<lparr>c_p := Some (bsplice b i (xs @ NUL # ys)), c_actlen := l\<rparr>)"
    and "ctext (c\<lparr>c_p := Some (bsplice b i (xs @ NUL # ys)), c_actlen := l\<rparr>) = take i (cstr b) @ xs"
    using assms by (auto simp: wf_chix_def ctext_def ISCHIX_def)
qed

lemma grow_ok:
  assumes "chx_inv s" and "heap s a = Some c" and "wf_chix c"
  obtains c' s' where "resize_if P (Some a) t m s = Some (1, s')"
    "heap s' = (heap s)(a := Some c')" "wf_chix c'" "ctext c' = ctext c" "c_actlen c' = c_actlen c"
    "c_dic c' = c_dic c" "P \<Longrightarrow> m \<le> c_maxlen c'" "\<not> P \<Longrightarrow> c' = c" "chx_to s (sview s) s'"
proof (cases P)
  case True
  then show thesis using chxresize_ok [OF assms, of t m thesis] that by (simp add: resize_if_def)
next
  case False
  moreover have "heap s = (heap s)(a := Some c)" using assms(2) by (simp add: fun_upd_idem)
  ultimately show thesis using that [of s c] assms chx_to_refl [OF assms(1)] by (simp add: resize_if_def)
qed

lemma wf_block:
  assumes "wf_chix c"
  obtains b where "c_p c = Some b" "cstr b = ctext c" "c_maxlen c + 1 \<le> int (length b)"
    "int (length (ctext c)) < c_maxlen c" "length (cstr b) < length b" "c_type c = THIN" "ISCHIX c"
    "\<not> FREED c" "c_actlen c = -1 \<or> c_actlen c = int (length (ctext c))"
  using assms that by (auto simp: wf_chix_def ctext_def split: option.splits)

section \<open>Contracts\<close>

lemma chxclear_ok:
  assumes inv: "chx_inv s" and a: "sview s a = Some x"
  obtains s' where "chxclear (Some a) s = Some (1, s')" "chx_to s ((sview s)(a \<mapsto> [])) s'"
proof -
  obtain c b where c: "heap s a = Some c" "wf_chix c" "c_p c = Some b" "cstr b = x"
      "c_maxlen c + 1 \<le> int (length b)" "int (length x) < c_maxlen c"
    by (rule live_block [OF inv a])
  have "b \<noteq> []" using c(5,6) by auto
  let ?c = "c\<lparr>c_p := Some (bsplice b 0 ([] @ NUL # [])), c_actlen := 0\<rparr>"
  have "wf_chix ?c" "ctext ?c = []"
    using block_write [OF c(2,3), of 0 "[]" "[]" 0] c by auto
  moreover have "chxclear (Some a) s = Some (1, put a ?c s)"
    using a c \<open>b \<noteq> []\<close> by (simp add: chxclear_def inline_check_simps poke_def set_actlen_def deref_simps
        put_simps put_put bsplice_one wr_def)
  ultimately show thesis
    by (intro that) (auto intro: chx_to_put_trans [OF chx_to_refl [OF inv] c(1)])
qed

lemma chxcat_ok:
  assumes inv: "chx_inv s" and a: "sview s a = Some x" and b: "sview s b = Some y" and ne: "a \<noteq> b"
  obtains s' where "chxcat (Some a) (Some b) s = Some (1, s')" "chx_to s ((sview s)(a \<mapsto> x @ y)) s'"
proof -
  obtain s1 where s1: "chxlen (Some b) s = Some (int (length y), s1)" "chx_to s (sview s) s1"
    by (rule chxlen_ok [OF inv b])
  note t1 = chx_toD [OF s1(2)]
  have a1: "sview s1 a = Some x" and b1: "sview s1 b = Some y" using t1 a b by auto
  obtain s2 where s2: "chxlen (Some a) s1 = Some (int (length x), s2)" "chx_to s1 (sview s1) s2"
    by (rule chxlen_ok [OF t1(1) a1])
  note t2 = chx_toD [OF s2(2)]
  have a2: "sview s2 a = Some x" and b2: "sview s2 b = Some y" using t2 a1 b1 by auto
  obtain c p where c: "heap s2 a = Some c" "wf_chix c" "c_p c = Some p" "cstr p = x" "c_type c = THIN"
    by (rule live_block [OF t2(1) a2])
  obtain d q where d: "heap s2 b = Some d" "wf_chix d" "c_p d = Some q" "cstr q = y" "c_type d = THIN"
      "c_maxlen d + 1 \<le> int (length q)" "int (length y) < c_maxlen d"
    by (rule live_block [OF t2(1) b2])
  let ?P = "c_maxlen c < int (length x) + int (length y) + 1"
  obtain c' s3 where s3: "resize_if ?P (Some a) THIN (int (length x) + int (length y) + 5) s2 = Some (1, s3)"
      "heap s3 = (heap s2)(a := Some c')" "wf_chix c'"
      "ctext c' = ctext c" "?P \<Longrightarrow> int (length x) + int (length y) + 5 \<le> c_maxlen c'"
      "\<not> ?P \<Longrightarrow> c' = c" "chx_to s2 (sview s2) s3"
    by (rule grow_ok [OF t2(1) c(1,2)]) blast
  note t3 = chx_toD [OF s3(7)]
  obtain p' where p': "c_p c' = Some p'" "cstr p' = x" "c_maxlen c' + 1 \<le> int (length p')" "c_type c' = THIN"
    using wf_block [OF s3(3)] s3(4) c(3,4) by (metis ctext_def option.simps(5))
  have room: "int (length x) + int (length y) + 1 \<le> c_maxlen c'" using s3(5,6) by force
  have nul: "NUL \<in> set (drop 0 q)" using cstr_has_NUL [of q] d(4,6,7) by simp
  let ?p = "bsplice p' (length x) (y @ NUL # [NUL])"
  have copy: "chxcapc p' (int (length x)) (Some q) 0 0 (-1) = Some ?p"
    using chxcapc_all [OF nul, of "-1" 0 "length x" p'] d(4) room p'(3) by simp
  let ?c = "c'\<lparr>c_p := Some ?p, c_actlen := int (length x + length y)\<rparr>"
  have "wf_chix ?c" "ctext ?c = x @ y"
    using block_write [OF s3(3) p'(1), of "length x" y "[NUL]" "int (length x + length y)"]
      p'(2,3) room live_no_NUL [OF b] by auto
  moreover have "chxcat (Some a) (Some b) s = Some (1, put a ?c s3)"
    using a b s1(1) s2(1) c d s3(1,2) copy ne p'(1,4)
    by (simp add: chxcat_def inline_check_simps deref_simps capc_chix_def set_actlen_def
        put_simps put_put) (simp add: THIN_def)
  moreover have "heap s3 a = Some c'" using s3(2) by simp
  moreover have "chx_to s (sview s) s3" using s1(2) s2(2) s3(7) chx_to_read_trans by blast
  ultimately show thesis by (intro that) (auto intro: chx_to_put_trans)
qed

text \<open>The substring \<open>chxcatsub\<close> appends: start and count clamped to the string.\<close>

definition sub_of :: "string \<Rightarrow> int \<Rightarrow> int \<Rightarrow> string" where
  "sub_of y i n = take (if n = ALLCHARS then length y else nat n) (drop (nat i) y)"

lemma capc_sub:
  assumes "length (cstr q) < length q" and "k \<le> length (cstr q)" and "0 \<le> n"
    and "int i + min n (int (length (cstr q)) - int k) + 2 \<le> int (length dst)"
  shows "\<exists>ys. length ys \<le> 1 \<and> chxcapc dst (int i) (Some q) (int k) 0 n =
     Some (bsplice dst i (take (nat n) (drop k (cstr q)) @ NUL # ys))"
proof -
  have d: "cstr (drop k q) = drop k (cstr q)" using assms(2) by (rule cstr_drop)
  have nul: "NUL \<in> set (drop k q)"
    using cstr_has_NUL [of "drop k q"] assms(1,2) d by simp
  show ?thesis
  proof (cases "n \<le> int (length (cstr q)) - int k")
    case True
    then show ?thesis using chxcapc_some [OF nul, of 0 "nat n" n i dst] assms d
      by (intro exI [of _ "[]"]) auto
  next
    case False
    then show ?thesis using chxcapc_all [OF nul, of n 0 i dst] assms d
      by (intro exI [of _ "[NUL]"]) auto
  qed
qed

lemma chxcatsub_ok:
  assumes inv: "chx_inv s" and a: "sview s a = Some x" and b: "sview s b = Some y" and ne: "a \<noteq> b"
  obtains s' where "chxcatsub (Some a) (Some b) i n s = Some (1, s')"
    "chx_to s ((sview s)(a \<mapsto> x @ sub_of y i n)) s'"
proof -
  obtain s1 where s1: "chxlen (Some a) s = Some (int (length x), s1)" "chx_to s (sview s) s1"
    by (rule chxlen_ok [OF inv a])
  note t1 = chx_toD [OF s1(2)]
  have a1: "sview s1 a = Some x" and b1: "sview s1 b = Some y" using t1 a b by auto
  obtain s2 where s2: "chxlen (Some b) s1 = Some (int (length y), s2)" "chx_to s1 (sview s1) s2"
    by (rule chxlen_ok [OF t1(1) b1])
  note t2 = chx_toD [OF s2(2)]
  have a2: "sview s2 a = Some x" and b2: "sview s2 b = Some y" using t2 a1 b1 by auto
  obtain c p where c: "heap s2 a = Some c" "wf_chix c" "c_p c = Some p" "cstr p = x" "c_type c = THIN"
    by (rule live_block [OF t2(1) a2])
  obtain d q where d: "heap s2 b = Some d" "wf_chix d" "c_p d = Some q" "cstr q = y" "c_type d = THIN"
      "c_maxlen d + 1 \<le> int (length q)" "int (length y) < c_maxlen d"
    by (rule live_block [OF t2(1) b2])
  define n2 where "n2 = clamp_count n (int (length y))"
  define i2 where "i2 = clamp_start i (int (length y))"
  define k where "k = nat i2"
  define u where "u = used_count n2 i2 (int (length y))"
  have bnd: "0 \<le> n2" "i2 = int k" "k \<le> length y" "u = min n2 (int (length y) - int k)"
    by (auto simp: n2_def i2_def k_def u_def used_count_def clamp_start_def clamp_count_def Let_def)
  have u': "used_count n2 (int k) (int (length y)) = u" using bnd(2) by (simp add: u_def)
  have sub: "take (nat n2) (drop k y) = sub_of y i n"
    by (auto simp: sub_of_def n2_def k_def i2_def clamp_start_def clamp_count_def Let_def)
  let ?P = "c_maxlen c < int (length x) + u + 3"
  obtain c' s3 where s3: "resize_if ?P (Some a) THIN (int (length x) + u + 5) s2 = Some (1, s3)"
      "heap s3 = (heap s2)(a := Some c')" "wf_chix c'" "ctext c' = ctext c"
      "?P \<Longrightarrow> int (length x) + u + 5 \<le> c_maxlen c'" "\<not> ?P \<Longrightarrow> c' = c" "chx_to s2 (sview s2) s3"
    by (rule grow_ok [OF t2(1) c(1,2)]) blast
  note t3 = chx_toD [OF s3(7)]
  obtain p' where p': "c_p c' = Some p'" "cstr p' = x" "c_maxlen c' + 1 \<le> int (length p')" "c_type c' = THIN"
    using wf_block [OF s3(3)] s3(4) c(3,4) by (metis ctext_def option.simps(5))
  have room: "int (length x) + u + 3 \<le> c_maxlen c'" using s3(5,6) by force
  have "length (cstr q) < length q" using d(4,6,7) by simp
  then obtain ys where ys: "length ys \<le> 1" "chxcapc p' (int (length x)) (Some q) (int k) 0 n2 =
      Some (bsplice p' (length x) (sub_of y i n @ NUL # ys))"
    using capc_sub [of q k n2 "length x" p'] bnd room p'(3) d(4) sub by auto
  let ?c = "c'\<lparr>c_p := Some (bsplice p' (length x) (sub_of y i n @ NUL # ys)), c_actlen := -1\<rparr>"
  have len: "int (length (sub_of y i n)) = u" using bnd unfolding sub [symmetric] by auto
  have "NUL \<notin> set (sub_of y i n)"
    using live_no_NUL [OF b] by (auto simp: sub_of_def dest!: in_set_takeD in_set_dropD)
  then have "wf_chix ?c" "ctext ?c = x @ sub_of y i n"
    using block_write [OF s3(3) p'(1), of "length x" "sub_of y i n" ys "-1"] p'(2,3) room len ys(1) by auto
  moreover have "chxcatsub (Some a) (Some b) i n s = Some (1, put a ?c s3)"
    using a b s1(1) s2(1) c d s3(1,2) ys(2) ne p'(1,4) bnd(2)
    by (simp add: chxcatsub_def inline_check_simps deref_simps Let_def n2_def [symmetric]
        i2_def [symmetric] u' capc_chix_def set_actlen_def put_simps put_put)
       (simp add: THIN_def)
  moreover have "heap s3 a = Some c'" using s3(2) by simp
  moreover have "chx_to s (sview s) s3" using s1(2) s2(2) s3(7) chx_to_read_trans by blast
  ultimately show thesis by (intro that) (auto intro: chx_to_put_trans)
qed

text \<open>The two bytes \<open>chxcatval\<close> writes, for any value, and the length it records.\<close>

lemma chxcatval_writes:
  assumes inv: "chx_inv s" and a: "sview s a = Some x"
  obtains c' p s3 where "heap s3 a = Some c'" "wf_chix c'" "c_p c' = Some p" "cstr p = x" "chx_to s (sview s) s3"
    "int (length x) + 2 < c_maxlen c'" "c_maxlen c' + 1 \<le> int (length p)"
    "chxcatval (Some a) w v s =
      Some (1, put a (c'\<lparr>c_p := Some (bsplice p (length x) [byte v, NUL]), c_actlen := int (length x + 1)\<rparr>) s3)"
proof -
  obtain c0 p0 where c0: "heap s a = Some c0" "wf_chix c0" "c_p c0 = Some p0" "cstr p0 = x"
      "c_actlen c0 = -1 \<or> c_actlen c0 = int (length x)"
    by (rule live_block [OF inv a])
  define c where "c = c0\<lparr>c_actlen := int (length x)\<rparr>"
  define s1 where "s1 = put a c s"
  have wf: "wf_chix c" using wf_chix_update_len [OF c0(2,3)] c0(4) by (simp add: c_def)
  have cx: "ctext c = x" using c0 by (simp add: c_def ctext_def)
  have s1: "chx_to s (sview s) s1"
    using chx_to_put [OF inv c0(1) wf] cx a by (simp add: s1_def map_upd_triv)
  have len: "(if c_actlen c0 < 0 then chxlen (Some a) s else Some (c_actlen c0, s)) =
      Some (int (length x), s1)"
  proof (cases "c_actlen c0 < 0")
    case True
    then show ?thesis using chxlen_eq [OF inv c0(1,2,3)] c0(4) by (simp add: s1_def c_def)
  next
    case False
    with c0(5) have "c = c0" "c_actlen c0 = int (length x)" by (auto simp: c_def)
    then show ?thesis using c0(1) by (simp add: s1_def put_same)
  qed
  have h1: "heap s1 a = Some c" by (simp add: s1_def put_simps)
  note t1 = chx_toD [OF s1]
  let ?P = "c_maxlen c \<le> int (length x) + 2"
  obtain c' s3 where s3: "resize_if ?P (Some a) THIN (int (length x) + 5) s1 = Some (1, s3)"
      "heap s3 = (heap s1)(a := Some c')" "wf_chix c'" "ctext c' = ctext c" "c_actlen c' = c_actlen c"
      "?P \<Longrightarrow> int (length x) + 5 \<le> c_maxlen c'" "\<not> ?P \<Longrightarrow> c' = c" "chx_to s1 (sview s1) s3"
    by (rule grow_ok [OF t1(1) h1 wf]) blast
  note t3 = chx_toD [OF s3(8)]
  obtain p where p: "c_p c' = Some p" "cstr p = x" "c_maxlen c' + 1 \<le> int (length p)"
    using wf_block [OF s3(3)] s3(4) cx by metis
  have room: "int (length x) + 2 < c_maxlen c'" using s3(6,7) by force
  let ?p = "bsplice p (length x) [byte v, NUL]"
  let ?c = "c'\<lparr>c_p := Some ?p, c_actlen := int (length x + 1)\<rparr>"
  have "?p = p[length x := byte v, Suc (length x) := NUL]"
    using room p(3) bsplice_Cons [of "length x" "[NUL]" p "byte v"] by (simp add: bsplice_one)
  then have "chxcatval (Some a) w v s = Some (1, put a ?c s3)"
    using a c0(1) len h1 s3(1,2,5) p(1,3) room
    by (simp add: chxcatval_def inline_check_simps deref_simps c_def poke_def set_actlen_def
        put_simps put_put wr_def nat_add_distrib add.commute)
  moreover have "heap s3 a = Some c'" using s3(2) by simp
  moreover have "chx_to s (sview s) s3" using s1 s3(8) chx_to_read_trans by blast
  ultimately show thesis using that s3(3) p room by blast
qed

lemma chxcatval_ok:
  assumes inv: "chx_inv s" and a: "sview s a = Some x" and v: "byte v \<noteq> NUL"
  obtains s' where "chxcatval (Some a) w v s = Some (1, s')" "chx_to s ((sview s)(a \<mapsto> x @ [byte v])) s'"
proof -
  obtain c' p s3 where *: "heap s3 a = Some c'" "wf_chix c'" "c_p c' = Some p" "cstr p = x" "chx_to s (sview s) s3"
      "int (length x) + 2 < c_maxlen c'" "c_maxlen c' + 1 \<le> int (length p)"
      "chxcatval (Some a) w v s =
        Some (1, put a (c'\<lparr>c_p := Some (bsplice p (length x) [byte v, NUL]), c_actlen := int (length x + 1)\<rparr>) s3)"
    by (rule chxcatval_writes [OF inv a])
  then have "wf_chix (c'\<lparr>c_p := Some (bsplice p (length x) ([byte v] @ NUL # [])), c_actlen := int (length x + 1)\<rparr>)"
    "ctext (c'\<lparr>c_p := Some (bsplice p (length x) ([byte v] @ NUL # [])), c_actlen := int (length x + 1)\<rparr>) = x @ [byte v]"
    using block_write [OF *(2,3), of "length x" "[byte v]" "[]" "int (length x + 1)"] v by auto
  then show thesis using that * chx_to_put_trans [OF *(5,1)] by simp
qed

lemma copy_bytes_eq:
  assumes "n \<le> length src" and "n \<le> length dst"
  shows "copy_bytes dst src n = Some (take n src @ drop n dst)"
  using assms
proof (induction n)
  case 0
  then show ?case by simp
next
  case (Suc n)
  then have "(take n src @ drop n dst)[n := src ! n] = take (Suc n) src @ drop (Suc n) dst"
    by (simp add: list_update_append take_Suc_conv_app_nth) (simp add: Cons_nth_drop_Suc [symmetric])
  with Suc show ?case by simp
qed

text \<open>\<open>chxcpy\<close> makes \<open>a\<close> hold the string of \<open>b\<close>; the two may be the same chix.\<close>

lemma chxcpy_ok:
  assumes inv: "chx_inv s" and a: "sview s a = Some x" and b: "sview s b = Some y"
  obtains s' where "chxcpy (Some a) (Some b) s = Some (1, s')" "chx_to s ((sview s)(a \<mapsto> y)) s'"
proof -
  obtain ca cb where ty: "heap s a = Some ca" "heap s b = Some cb" "c_type ca = THIN" "c_type cb = THIN"
    by (meson live_block [OF inv a] live_block [OF inv b])
  obtain s1 where s1: "chxlen (Some b) s = Some (int (length y), s1)" "chx_to s (sview s) s1"
    by (rule chxlen_ok [OF inv b])
  note t1 = chx_toD [OF s1(2)]
  have a1: "sview s1 a = Some x" and b1: "sview s1 b = Some y" using t1 a b by auto
  obtain c p where c: "heap s1 a = Some c" "wf_chix c" "c_p c = Some p" "cstr p = x" "c_type c = THIN"
    by (rule live_block [OF t1(1) a1])
  let ?P = "c_maxlen c < int (length y) + 1"
  obtain c' s3 where s3: "resize_if ?P (Some a) THIN (int (length y) + 1 + 20) s1 = Some (1, s3)"
      "heap s3 = (heap s1)(a := Some c')" "wf_chix c'"
      "?P \<Longrightarrow> int (length y) + 1 + 20 \<le> c_maxlen c'" "\<not> ?P \<Longrightarrow> c' = c" "chx_to s1 (sview s1) s3"
    by (rule grow_ok [OF t1(1) c(1,2)]) blast
  note t3 = chx_toD [OF s3(6)]
  obtain p' where p': "c_p c' = Some p'" "c_maxlen c' + 1 \<le> int (length p')" using wf_block [OF s3(3)] by metis
  have room: "int (length y) + 1 \<le> c_maxlen c'" using s3(4,5) by force
  have b3: "sview s3 b = Some y" using t3 b1 by simp
  obtain d q where d: "heap s3 b = Some d" "wf_chix d" "c_p d = Some q" "cstr q = y"
      "c_maxlen d + 1 \<le> int (length q)" "int (length y) < c_maxlen d"
      "c_actlen d = -1 \<or> c_actlen d = int (length y)"
    by (rule live_block [OF t3(1) b3])
  have "length (cstr q) < length q" using d(4,5,6) by simp
  from cstr_split [OF this] d(4) have q: "take (Suc (length y)) q = y @ [NUL]"
    by (metis append_Cons append_Nil append_assoc append_eq_conv_conj length_append_singleton)
  let ?p = "bsplice p' 0 (y @ NUL # [])"
  have copy: "copy_bytes p' q (nat (int (length y) + 1)) = Some ?p"
    using copy_bytes_eq [of "Suc (length y)" q p'] q d(4-6) room p'(2)
    by (simp add: bsplice_def nat_add_distrib)
  let ?c = "c'\<lparr>c_p := Some ?p, c_actlen := c_actlen d, c_dic := c_dic d\<rparr>"
  have "wf_chix (c'\<lparr>c_p := Some ?p, c_actlen := c_actlen d\<rparr>)" "ctext (c'\<lparr>c_p := Some ?p, c_actlen := c_actlen d\<rparr>) = y"
    using block_write [OF s3(3) p'(1), of 0 y "[]" "c_actlen d"] room p'(2) live_no_NUL [OF b] d(7) by auto
  then have wf: "wf_chix ?c" "ctext ?c = y" by (auto simp: wf_chix_def ctext_def ISCHIX_def)
  have "chxcpy (Some a) (Some b) s = Some (1, put a ?c s3)"
    using a b ty s1(1) c(1,5) s3(1,2) d(1,3) copy p'(1)
    by (simp add: chxcpy_def inline_check_simps deref_simps resize_if_def [of False] Let_def)
  moreover have "heap s3 a = Some c'" using s3(2) by simp
  moreover have "chx_to s (sview s) s3" using s1(2) s3(6) chx_to_read_trans by blast
  ultimately show thesis using wf by (intro that) (auto intro: chx_to_put_trans)
qed

lemma chxtrunc_ok:
  assumes inv: "chx_inv s" and a: "sview s a = Some x" and pos: "0 \<le> pos"
  obtains s' where
    "chxtrunc (Some a) pos s = Some (if pos < int (length x) then 1 else 0, s')"
    "chx_to s ((sview s)(a \<mapsto> take (nat pos) x)) s'"
proof -
  obtain s1 where s1: "chxlen (Some a) s = Some (int (length x), s1)" "chx_to s (sview s) s1"
    by (rule chxlen_ok [OF inv a])
  note t1 = chx_toD [OF s1(2)]
  have a1: "sview s1 a = Some x" using t1 a by simp
  obtain c p where c: "heap s1 a = Some c" "wf_chix c" "c_p c = Some p" "cstr p = x"
      "c_maxlen c + 1 \<le> int (length p)" "int (length x) < c_maxlen c"
    by (rule live_block [OF t1(1) a1])
  show thesis
  proof (cases "pos < int (length x)")
    case True
    let ?c = "c\<lparr>c_p := Some (bsplice p (nat pos) ([] @ NUL # [])), c_actlen := pos\<rparr>"
    have wf: "wf_chix ?c" "ctext ?c = take (nat pos) x"
      using block_write [OF c(2,3), of "nat pos" "[]" "[]" pos] c pos True by auto
    have "chxtrunc (Some a) pos s = Some (1, put a ?c s1)"
      using a s1(1) c True pos
      by (simp add: chxtrunc_def inline_check_simps poke_def set_actlen_def deref_simps
          put_simps put_put wr_def bsplice_one nat_less_iff)
    with True wf show thesis
      by (intro that) (auto intro: chx_to_put_trans [OF s1(2) c(1)])
  next
    case False
    then have "chxtrunc (Some a) pos s = Some (0, s1)"
      using a s1(1) by (simp add: chxtrunc_def inline_check_simps)
    moreover have "(sview s)(a \<mapsto> take (nat pos) x) = sview s" using False a by (simp add: map_upd_triv)
    ultimately show thesis using that False s1(2) by simp
  qed
qed

text \<open>What the backward scan of \<open>chxtrim\<close> and \<open>chxchomp\<close> leaves: the string without the
  longest suffix of blank characters.\<close>

definition strip_end :: "(char \<Rightarrow> bool) \<Rightarrow> string \<Rightarrow> string" where
  "strip_end blank x = rev (dropWhile blank (rev x))"

lemma back_loop_eq:
  assumes "n \<le> length (cstr p)" and "length (cstr p) < length p"
  shows "back_loop blank p n = Some (length (strip_end blank (take n (cstr p))))"
  using assms
proof (induction n)
  case 0
  then show ?case by (simp add: strip_end_def)
next
  case (Suc n)
  then have "take (Suc n) (cstr p) = take n (cstr p) @ [p ! n]"
    by (simp add: take_Suc_conv_app_nth cstr_nth)
  with Suc show ?case by (simp add: strip_end_def)
qed

lemma strip_end_prefix: "strip_end blank x = take (length (strip_end blank x)) x"
  unfolding strip_end_def
  by (metis append_eq_conv_conj length_rev rev_append rev_rev_ident takeWhile_dropWhile_id)

lemma back_trim_ok:
  assumes inv: "chx_inv s" and a: "sview s a = Some x"
  obtains s' where "back_trim fn blank (Some a) s = Some (1, s')"
    "chx_to s ((sview s)(a \<mapsto> strip_end blank x)) s'"
proof -
  obtain c0 where c0: "heap s a = Some c0" "c_actlen c0 = -1 \<or> c_actlen c0 = int (length x)"
    by (rule live_block [OF inv a])
  obtain s1 where s1: "(if c_actlen c0 \<ge> 0 then Some (c_actlen c0, s) else chxlen (Some a) s) =
      Some (int (length x), s1)" "chx_to s (sview s) s1"
  proof (cases "c_actlen c0 \<ge> 0")
    case True
    then show thesis using that c0(2) chx_to_refl [OF inv] by auto
  next
    case False
    then show thesis using that chxlen_ok [OF inv a] by (metis (full_types))
  qed
  note t1 = chx_toD [OF s1(2)]
  have a1: "sview s1 a = Some x" using t1 a by simp
  obtain c p where c: "heap s1 a = Some c" "wf_chix c" "c_p c = Some p" "cstr p = x"
      "c_maxlen c + 1 \<le> int (length p)" "int (length x) < c_maxlen c"
    by (rule live_block [OF t1(1) a1])
  let ?y = "strip_end blank x"
  have le: "length ?y \<le> length x" 
    by (metis length_dropWhile_le length_rev strip_end_def)
  have loop: "back_loop blank p (length x) = Some (length ?y)"
    using back_loop_eq [of "length x" p blank] c(4,5,6) by simp
  let ?c = "c\<lparr>c_p := Some (bsplice p (length ?y) ([] @ NUL # [])), c_actlen := int (length ?y)\<rparr>"
  have wf: "wf_chix ?c" "ctext ?c = ?y"
    using block_write [OF c(2,3), of "length ?y" "[]" "[]" "int (length ?y)"] c le strip_end_prefix [of blank x]
    by auto
  have "back_trim fn blank (Some a) s = Some (1, put a ?c s1)"
    using a c0(1) s1(1) c loop le
    by (simp add: back_trim_def inline_check_simps poke_def set_actlen_def deref_simps
        put_simps put_put bsplice_one)
  with wf show thesis by (intro that) (auto intro: chx_to_put_trans [OF s1(2) c(1)])
qed

lemmas chxtrim_ok = back_trim_ok [where fn = "''chxtrim''" and blank = "\<lambda>c. c = CHR '' ''",
  folded chxtrim_def]

lemmas chxchomp_ok = back_trim_ok [where fn = "''chxchomp''" and blank = "\<lambda>c. c = CHR 0x0A \<or> c = CHR 0x0D",
  folded chxchomp_def]

lemma cstr_list_update:
  "i < length (cstr b) \<Longrightarrow> v \<noteq> NUL \<Longrightarrow> cstr (b[i := v]) = (cstr b)[i := v]"
proof (induction b arbitrary: i)
  case Nil
  then show ?case by simp
next
  case (Cons c b)
  then show ?case by (cases i) (auto split: if_splits)
qed

lemma wf_chix_same_len:
  assumes "wf_chix c" and "c_p c = Some b" and "length b' = length b" and "length (cstr b') = length (cstr b)"
  shows "wf_chix (c\<lparr>c_p := Some b'\<rparr>)" "ctext (c\<lparr>c_p := Some b'\<rparr>) = cstr b'"
  using assms by (auto simp: wf_chix_def ctext_def ISCHIX_def)

lemma chxsetval_ok:
  assumes inv: "chx_inv s" and a: "sview s a = Some x" and pos: "0 \<le> pos" and v: "byte val \<noteq> NUL"
  obtains s' where "chxsetval (Some a) pos w val s = Some (if pos < int (length x) then 1 else 0, s')"
    "chx_to s ((sview s)(a \<mapsto> x[nat pos := byte val])) s'"
proof -
  obtain s1 where s1: "chxlen (Some a) s = Some (int (length x), s1)" "chx_to s (sview s) s1"
    by (rule chxlen_ok [OF inv a])
  note t1 = chx_toD [OF s1(2)]
  have a1: "sview s1 a = Some x" using t1 a by simp
  obtain c p where c: "heap s1 a = Some c" "wf_chix c" "c_p c = Some p" "cstr p = x" "c_type c = THIN"
      "c_maxlen c + 1 \<le> int (length p)" "int (length x) < c_maxlen c"
    by (rule live_block [OF t1(1) a1])
  show thesis
  proof (cases "pos < int (length x)")
    case True
    then have lt: "nat pos < length (cstr p)" using pos c(4) by (simp add: nat_less_iff)
    let ?c = "c\<lparr>c_p := Some (p[nat pos := byte val])\<rparr>"
    have wf: "wf_chix ?c" "ctext ?c = x[nat pos := byte val]"
      using wf_chix_same_len [OF c(2,3), of "p[nat pos := byte val]"] cstr_list_update [OF lt v] c(4) by auto
    have "chxsetval (Some a) pos w val s = Some (1, put a ?c s1)"
      using a s1(1) c True pos
      by (simp add: chxsetval_def inline_check_simps poke_def deref_simps wr_def nat_less_iff resize_if_def)
    with True wf show thesis by (intro that) (auto intro: chx_to_put_trans [OF s1(2) c(1)])
  next
    case False
    then have "chxsetval (Some a) pos w val s = Some (0, s1)"
      using a s1(1) by (simp add: chxsetval_def inline_check_simps)
    moreover have "x[nat pos := byte val] = x" using False by (simp add: list_update_beyond)
    ultimately show thesis using that False s1(2) a by (simp add: map_upd_triv)
  qed
qed

definition repl :: "int \<Rightarrow> int \<Rightarrow> char \<Rightarrow> char" where
  "repl oldval newval c = (if bval c = oldval then byte newval else c)"

lemma repval_loop_eq:
  assumes "L \<le> length p" and "NUL \<notin> set (drop k (take L p))" and "k \<le> L"
  shows "repval_loop p THIN (int k) (int L) ov nv =
         Some (take k p @ map (repl ov nv) (drop k (take L p)) @ drop L p)"
  using assms
proof (induction "L - k" arbitrary: p k)
  case 0
  then show ?case by (subst repval_loop.simps) simp
next
  case (Suc m)
  then have k: "k < L" "k < length p" by auto
  then have d: "drop k (take L p) = p ! k # drop (Suc k) (take L p)"
    by (simp add: Cons_nth_drop_Suc [symmetric])
  let ?p = "p[k := repl ov nv (p ! k)]"
  have "repval_loop ?p THIN (int (Suc k)) (int L) ov nv =
      Some (take (Suc k) ?p @ map (repl ov nv) (drop (Suc k) (take L ?p)) @ drop L ?p)"
    by (rule Suc.hyps(1)) (use Suc.prems Suc.hyps(2) k d in \<open>auto simp: take_update_swap\<close>)
  also have "take (Suc k) ?p @ map (repl ov nv) (drop (Suc k) (take L ?p)) @ drop L ?p =
      take k p @ map (repl ov nv) (drop k (take L p)) @ drop L p"
    using k d by (simp add: take_Suc_conv_app_nth take_update_swap list_update_append)
  finally have IH: "repval_loop ?p THIN (int (Suc k)) (int L) ov nv =
      Some (take k p @ map (repl ov nv) (drop k (take L p)) @ drop L p)" .
  have "p ! k \<noteq> NUL" using Suc.prems(2) d by auto
  then show ?case using IH k
    by (subst repval_loop.simps) (auto simp: THIN_def repl_def add.commute)
qed

lemma chxrepval_ok:
  assumes inv: "chx_inv s" and a: "sview s a = Some x" and pos: "0 \<le> pos" and v: "byte nv \<noteq> NUL"
  obtains s' where "chxrepval (Some a) pos w ov nv s = Some (if pos < int (length x) then 1 else 0, s')"
    "chx_to s ((sview s)(a \<mapsto> take (nat pos) x @ map (repl ov nv) (drop (nat pos) x))) s'"
proof -
  obtain s1 where s1: "chxlen (Some a) s = Some (int (length x), s1)" "chx_to s (sview s) s1"
    by (rule chxlen_ok [OF inv a])
  note t1 = chx_toD [OF s1(2)]
  have a1: "sview s1 a = Some x" using t1 a by simp
  obtain c p where c: "heap s1 a = Some c" "wf_chix c" "c_p c = Some p" "cstr p = x" "c_type c = THIN"
      "c_maxlen c + 1 \<le> int (length p)" "int (length x) < c_maxlen c"
    by (rule live_block [OF t1(1) a1])
  show thesis
  proof (cases "pos < int (length x)")
    case True
    obtain r where p: "p = x @ NUL # r" using cstr_split [of p] c(4,6,7) by fastforce
    define k where "k = nat pos"
    have k: "pos = int k" "k \<le> length x" using pos True by (auto simp: k_def)
    let ?y = "take k x @ map (repl ov nv) (drop k x)"
    let ?p = "?y @ NUL # r"
    have nox: "NUL \<notin> set x" using a by (rule live_no_NUL)
    have loop: "repval_loop p THIN (int k) (int (length x)) ov nv = Some ?p"
      using repval_loop_eq [of "length x" p k ov nv] k p nox by (auto dest: in_set_dropD)
    have "NUL \<notin> set ?y" using nox v by (auto simp: repl_def dest: in_set_takeD in_set_dropD)
    then have y: "cstr ?p = ?y" by (rule cstr_append_NUL)
    let ?c = "c\<lparr>c_p := Some ?p\<rparr>"
    have wf: "wf_chix ?c" "ctext ?c = ?y"
      using wf_chix_same_len [OF c(2,3), of ?p] c(4) y p k by auto
    have "chxrepval (Some a) pos w ov nv s = Some (1, put a ?c s1)"
      using a s1(1) c(1,3,5) True k loop
      by (simp add: chxrepval_def chxcheck_live deref_simps resize_if_def)
    with True wf k show thesis by (intro that) (auto intro: chx_to_put_trans [OF s1(2) c(1)])
  next
    case False
    then have "chxrepval (Some a) pos w ov nv s = Some (0, s1)"
      using a s1(1) by (simp add: chxrepval_def chxcheck_live)
    moreover have "take (nat pos) x @ map (repl ov nv) (drop (nat pos) x) = x" using False by simp
    ultimately show thesis using that False s1(2) a by (simp add: map_upd_triv)
  qed
qed

lemma chxofascii_ok:
  assumes inv: "chx_inv s" and a: "sview s a = Some x" and t: "NUL \<notin> set t"
  obtains s' where "chxofascii (Some a) (Some t) s = Some (1, s')" "chx_to s ((sview s)(a \<mapsto> t)) s'"
proof -
  obtain c where c: "heap s a = Some c" "wf_chix c" "c_type c = THIN" by (rule live_block [OF inv a])
  let ?P = "c_maxlen c < int (length t) + 5"
  obtain c' s1 where s1: "resize_if ?P (Some a) THIN (int (length t) + 5) s = Some (1, s1)"
      "heap s1 = (heap s)(a := Some c')" "wf_chix c'"
      "?P \<Longrightarrow> int (length t) + 5 \<le> c_maxlen c'" "\<not> ?P \<Longrightarrow> c' = c" "chx_to s (sview s) s1"
    by (rule grow_ok [OF inv c(1,2)]) blast
  note t1 = chx_toD [OF s1(6)]
  obtain p where p: "c_p c' = Some p" "c_maxlen c' + 1 \<le> int (length p)" using wf_block [OF s1(3)] by metis
  have room: "int (length t) + 5 \<le> c_maxlen c'" using s1(4,5) by force
  define c2 where "c2 = c'\<lparr>c_p := Some (bsplice p 0 ([] @ NUL # [])), c_actlen := 0\<rparr>"
  have wf2: "wf_chix c2"
    using block_write [OF s1(3) p(1), of 0 "[]" "[]" 0] p room by (auto simp: c2_def)
  have a1: "sview s1 a = Some x" using t1(2) a by simp
  have "p \<noteq> []" using p room by auto
  then have clr: "chxclear (Some a) s1 = Some (1, put a c2 s1)"
    using a1 s1(2) p(1)
    by (simp add: chxclear_def inline_check_simps poke_def set_actlen_def deref_simps put_simps
        put_put bsplice_one wr_def c2_def)
  define p2 where "p2 = bsplice p 0 [NUL]"
  have p2: "c_p c2 = Some p2" "length p2 = length p" using \<open>p \<noteq> []\<close>
    by (auto simp: c2_def p2_def bsplice_one)
  have copy: "chxcapc p2 0 (Some (t @ [NUL])) 0 0 (-1) = Some (bsplice p2 0 (t @ NUL # [NUL]))"
    using chxcapc_all [of 0 "t @ [NUL]" "-1" 0 0 p2] t p room p2 by simp
  let ?c = "c2\<lparr>c_p := Some (bsplice p2 0 (t @ NUL # [NUL])), c_actlen := int (length t)\<rparr>"
  have mx: "c_maxlen c2 = c_maxlen c'" by (simp add: c2_def)
  have wf: "wf_chix ?c" "ctext ?c = t"
    using block_write [OF wf2 p2(1), of 0 t "[NUL]" "int (length t)"] t p room p2 mx by auto
  have "chxofascii (Some a) (Some t) s = Some (1, put a ?c s1)"
    using a c s1(1) clr copy p2
    by (simp add: chxofascii_def inline_check_simps deref_simps put_simps put_put Let_def)
  with wf show thesis
    using s1(2) by (intro that) (auto intro: chx_to_put_trans [OF s1(6)])
qed

text \<open>Dropping a block that no static refers to.\<close>

lemma chx_to_drop:
  assumes "chx_to s m s'" and "blanks s \<noteq> Some z" and "Some z \<notin> set (ctab s)"
  shows "chx_to s (m(z := None)) (s'\<lparr>heap := (heap s')(z := None)\<rparr>)"
proof -
  have st: "blanks s' = blanks s" "ctab s' = ctab s"
    using assms(1) by (auto simp: chx_to_def globs_def)
  have v: "sview (s'\<lparr>heap := (heap s')(z := None)\<rparr>) = m(z := None)"
    using assms(1) by (auto simp: chx_to_def sview_def fun_eq_iff)
  have "chx_inv (s'\<lparr>heap := (heap s')(z := None)\<rparr>)"
    using assms st v by (auto simp: chx_to_def chx_inv_def heap_ok_def statics_ok_def)
  then show ?thesis using v assms(1) by (simp add: chx_to_def globs_def)
qed

lemma fresh_not_static:
  assumes "chx_inv s"
  shows "blanks s \<noteq> Some (next_adr s)" "Some (next_adr s) \<notin> set (ctab s)"
proof -
  show "blanks s \<noteq> Some (next_adr s)"
    using assms fresh_not_live [OF assms] by (auto simp: chx_inv_def statics_ok_def)
  show "Some (next_adr s) \<notin> set (ctab s)" using assms by (auto simp: chx_inv_def statics_ok_def)
qed

text \<open>\<open>chxconc (a, b, c)\<close> makes \<open>a\<close> the concatenation of \<open>b\<close> and \<open>c\<close>, whichever of the three coincide.\<close>

lemma chxconc_ok:
  assumes inv: "chx_inv s" and a: "sview s a = Some x" and b: "sview s b = Some y" and c: "sview s c = Some w"
  obtains s' where "chxconc (Some a) (Some b) (Some c) s = Some (1, s')"
    "chx_to s ((sview s)(a \<mapsto> y @ w)) s'"
proof -
  define z where "z = next_adr s"
  have ne: "a \<noteq> z" "b \<noteq> z" "c \<noteq> z" using live_less [OF inv] a b c by (auto simp: z_def)
  have z0: "sview s z = None" using fresh_not_live [OF inv] by (simp add: z_def)
  obtain cb where cb: "heap s b = Some cb" by (rule live_block [OF inv b])
  obtain s1 where s1: "chxalloc (c_maxlen cb) (c_type cb) ''chxconc z'' s = (z, s1)"
      "chx_to s ((sview s)(z \<mapsto> [])) s1"
    using chxalloc_ok [OF inv] z_def by metis
  note t1 = chx_toD [OF s1(2)]
  obtain s2 where s2: "chxcpy (Some z) (Some b) s1 = Some (1, s2)" "chx_to s1 ((sview s1)(z \<mapsto> y)) s2"
    using chxcpy_ok [OF t1(1), of z "[]" b y] t1(2) b ne by auto
  note t2 = chx_toD [OF s2(2)]
  obtain s3 where s3: "chxcat (Some z) (Some c) s2 = Some (1, s3)" "chx_to s2 ((sview s2)(z \<mapsto> y @ w)) s3"
    using chxcat_ok [OF t2(1), of z y c w] t2(2) t1(2) c ne by auto
  note t3 = chx_toD [OF s3(2)]
  have z3: "sview s3 z = Some (y @ w)" using t3(2) by simp
  obtain cz where cz: "heap s3 z = Some cz" "wf_chix cz" "ctext cz = y @ w"
    using live_block [OF t3(1) z3] by (metis ctext_def option.simps(5))
  have a3: "sview s3 a = Some x" using t1(2) t2(2) t3(2) a ne by simp
  obtain ca where ca: "heap s3 a = Some ca" by (rule live_block [OF t3(1) a3])
  have "chx_to s3 ((sview s3)(a \<mapsto> y @ w)) (put a cz s3)"
    using chx_to_put [OF t3(1) ca cz(2)] cz(3) by simp
  then have "chx_to s ((sview s3)(a \<mapsto> y @ w)) (put a cz s3)"
    using s1(2) s2(2) s3(2) by (blast intro: chx_to_trans)
  from chx_to_drop [OF this, of z] fresh_not_static [OF inv]
  have "chx_to s (((sview s3)(a \<mapsto> y @ w))(z := None))
      ((put a cz s3)\<lparr>heap := (heap (put a cz s3))(z := None)\<rparr>)" by (simp add: z_def)
  moreover have "((sview s3)(a \<mapsto> y @ w))(z := None) = (sview s)(a \<mapsto> y @ w)"
    using t1(2) t2(2) t3(2) ne z0 by (auto simp: fun_eq_iff)
  moreover have "chxconc (Some a) (Some b) (Some c) s =
      Some (1, (put a cz s3)\<lparr>heap := (heap (put a cz s3))(z := None)\<rparr>)"
    using a b c cb s1(1) s2(1) s3(1) cz(1)
    by (simp add: chxconc_def inline_check_simps deref_simps Let_def sysfree_def)
  ultimately show thesis using that by simp
qed

lemma chxalsub_ok:
  assumes inv: "chx_inv s" and a: "sview s a = Some x"
  obtains s' where "chxalsub (Some a) i n s = Some (Some (next_adr s), s')"
    "chx_to s ((sview s)(next_adr s \<mapsto> sub_of x i n)) s'"
proof -
  obtain ca where ca: "heap s a = Some ca" by (rule live_block [OF inv a])
  have ne: "a \<noteq> next_adr s" using live_less [OF inv a] by simp
  obtain s1 where s1: "chxalloc 80 (c_type ca) ''chxalsub result'' s = (next_adr s, s1)"
      "chx_to s ((sview s)(next_adr s \<mapsto> [])) s1"
    by (rule chxalloc_ok [OF inv])
  note t1 = chx_toD [OF s1(2)]
  obtain s2 where s2: "chxcatsub (Some (next_adr s)) (Some a) i n s1 = Some (1, s2)"
      "chx_to s1 ((sview s1)(next_adr s \<mapsto> sub_of x i n)) s2"
    using chxcatsub_ok [OF t1(1), of "next_adr s" "[]" a x i n] t1(2) a ne by auto
  have "chx_to s ((sview s)(next_adr s \<mapsto> sub_of x i n)) s2"
    using chx_to_trans [OF s1(2) s2(2)] t1(2) by simp
  moreover have "chxalsub (Some a) i n s = Some (Some (next_adr s), s2)"
    using a ca s1(1) s2(1) by (simp add: chxalsub_def inline_check_simps deref_simps Let_def)
  ultimately show thesis using that by simp
qed

text \<open>\<open>chxquick\<close> on a slot whose chix is live: the slot then holds the C string.\<close>

lemma chxquick_ok:
  assumes inv: "chx_inv s" and slot: "0 \<le> k" "k < 10" and k: "ctab s ! nat k = Some a"
    and a: "sview s a = Some x" and t: "NUL \<notin> set t"
  obtains s' where "chxquick (Some t) k s = Some (Some a, s')" "chx_to s ((sview s)(a \<mapsto> t)) s'"
proof -
  have tab: "length (ctab s) = 10" using inv by (auto simp: chx_inv_def statics_ok_def)
  then have "Some a \<in> set (ctab s)" using k slot by (metis nat_less_iff nth_mem of_nat_numeral)
  then have "None \<notin> set (ctab s)" using inv by (auto simp: chx_inv_def statics_ok_def)
  then obtain a0 where c0: "ctab s ! 0 = Some a0" using tab by (metis nth_mem zero_less_numeral option.exhaust)
  obtain c p where c: "heap s a = Some c" "wf_chix c" "c_p c = Some p" "cstr p = x" "c_type c = THIN"
      "\<not> FREED c" "c_maxlen c + 1 \<le> int (length p)" "int (length x) < c_maxlen c"
    by (rule live_block [OF inv a])
  define c1 where "c1 = c\<lparr>c_p := Some (bsplice p 0 ([] @ NUL # [])), c_actlen := 0\<rparr>"
  have "p \<noteq> []" using c(7,8) by auto
  have wf1: "wf_chix c1" "ctext c1 = []"
    using block_write [OF c(2,3), of 0 "[]" "[]" 0] c by (auto simp: c1_def)
  have p1: "c_p c1 = Some (p[0 := NUL])" using \<open>p \<noteq> []\<close> by (simp add: c1_def bsplice_one)
  define s1 where "s1 = put a c1 s"
  have s1: "chx_inv s1" "heap s1 a = Some c1" "globs s1 = globs s"
    using chx_inv_put [OF inv c(1) wf1(1)] by (auto simp: s1_def put_simps)
  have s1v: "chx_to s ((sview s)(a \<mapsto> [])) s1" using chx_to_put [OF inv c(1) wf1(1)] wf1(2) by (simp add: s1_def)
  let ?P = "c_maxlen c < int (length t) + 5"
  obtain c' s2 where s2: "resize_if ?P (Some a) THIN (int (length t) + 5) s1 = Some (1, s2)"
      "heap s2 = (heap s1)(a := Some c')" "wf_chix c'"
      "?P \<Longrightarrow> int (length t) + 5 \<le> c_maxlen c'" "\<not> ?P \<Longrightarrow> c' = c1" "chx_to s1 (sview s1) s2"
    by (rule grow_ok [OF s1(1,2) wf1(1)]) blast
  obtain p2 where p2: "c_p c' = Some p2" "c_maxlen c' + 1 \<le> int (length p2)" using wf_block [OF s2(3)] by metis
  have room: "int (length t) + 5 \<le> c_maxlen c'"
    using s2(4,5) by (cases ?P) (auto simp: c1_def)
  let ?c = "c'\<lparr>c_p := Some (bsplice p2 0 (t @ NUL # [])), c_actlen := int (length t)\<rparr>"
  have wf: "wf_chix ?c" "ctext ?c = t"
    using block_write [OF s2(3) p2(1), of 0 t "[]" "int (length t)"] t p2 room by auto
  define s0 where "s0 = put a (c\<lparr>c_p := Some (p[0 := NUL])\<rparr>) s"
  have pk: "poke (Some a) 0 NUL s = Some s0" "set_actlen (Some a) 0 s0 = Some s1"
    using c(1,3) p1 \<open>p \<noteq> []\<close>
    by (auto simp: s0_def s1_def c1_def poke_def set_actlen_def deref_simps wr_def put_simps put_put)
  have cp: "c_strcpy p2 t = Some (bsplice p2 0 (t @ [NUL]))" using p2 room by (simp add: c_strcpy_def)
  have ct: "c_maxlen c1 = c_maxlen c" "c_type c1 = THIN" using c(5) by (simp_all add: c1_def)
  have "chxquick (Some t) k s = Some (Some a, put a ?c s2)"
    using c0 slot k c(1,6) pk s1(2) s2(1,2) p2 cp ct
    by (simp add: chxquick_def CTABSIZE_def Let_def deref_simps)
  moreover have "chx_to s1 ((sview s1)(a \<mapsto> t)) (put a ?c s2)"
    using chx_to_put_trans [OF s2(6), of a c' ?c t] s2(2) wf by simp
  ultimately show thesis using that chx_to_trans [OF s1v] chx_toD(2) [OF s1v] by simp
qed

section \<open>Properties\<close>

text \<open>
  C5. Appending (\<open>chxcat\<close>) one live chix to another always returns 1 without touching memory outside
  a buffer, makes the destination the concatenation of the two strings, changes no other string and keeps
  the store invariant.
\<close>

theorem chxcat_appends:
  assumes "chx_inv s" and "sview s a = Some x" and "sview s b = Some y" and "a \<noteq> b"
  shows "\<exists>s'. chxcat (Some a) (Some b) s = Some (1, s') \<and> chx_inv s' \<and>
           sview s' = (sview s)(a \<mapsto> x @ y)"
  by (metis chxcat_ok [OF assms] chx_toD(1,2))


theorem chxcat_appends_witness:
  "\<exists>s'. chxcat (Some 1) (Some 2) (store_of [''foo'', ''bar'']) = Some (1, s') \<and> chx_inv s' \<and>
     sview s' = (sview (store_of [''foo'', ''bar'']))(1 \<mapsto> ''foobar'')"
  using chxcat_appends [of "store_of [''foo'', ''bar'']" 1 "''foo''" 2 "''bar''"]
  by (simp add: store_of_inv store_of_sview)

text \<open>
  C6. \<open>chxconc (a, b, c)\<close> is right for every way its arguments alias: whichever of the three pointers are
  equal, it returns 1 and the destination holds the old string of \<open>b\<close> followed by the old string of \<open>c\<close>;
  the working chix it allocates is freed again and no other string changes.
\<close>

theorem chxconc_aliases:
  assumes "chx_inv s" and "sview s a = Some x" and "sview s b = Some y" and "sview s c = Some w"
  shows "\<exists>s'. chxconc (Some a) (Some b) (Some c) s = Some (1, s') \<and> chx_inv s' \<and>
    sview s' = (sview s)(a \<mapsto> y @ w)"
  by (metis chxconc_ok [OF assms] chx_toD(1,2))

theorem chxconc_aliases_witness:
  "\<exists>s'. chxconc (Some 1) (Some 1) (Some 1) (store_of [''ab'']) = Some (1, s') \<and> chx_inv s' \<and>
     sview s' = (sview (store_of [''ab'']))(1 \<mapsto> ''abab'')"
  using chxconc_aliases [of "store_of [''ab'']" 1 "''ab''" 1 "''ab''" 1 "''ab''"]
  by (simp add: store_of_inv store_of_sview)

text \<open>
  C7. \<open>chxcatsub (a, b, pos, n)\<close> appends the \<open>n\<close> characters of \<open>b\<close> from \<open>pos\<close> on, for every \<open>pos\<close> and \<open>n\<close>: a
  start before the string is its first character, a count below zero is zero, \<open>ALLCHARS\<close> is everything
  that is left, and what would lie behind the end counts as nothing. It never leaves a buffer. Given the
  same chix twice it appends nothing and logs the error instead.
\<close>

theorem chxcatsub_clamps:
  assumes "chx_inv s" and "sview s a = Some x" and "sview s b = Some y"
  shows "\<exists>s'. chxcatsub (Some a) (Some b) pos n s = Some (1, s') \<and> chx_inv s' \<and>
    sview s' = (if a = b then sview s
      else (sview s)(a \<mapsto> x @ take (if n = ALLCHARS then length y else nat n) (drop (nat pos) y))) \<and>
    (a = b \<longrightarrow> length (clog s') = length (clog s) + 2)"
proof (cases "a = b")
  case True
  obtain c where c: "heap s a = Some c" by (rule live_block [OF assms(1,2)])
  have "chxcatsub (Some a) (Some b) pos n s = Some (1, chxerror CXE_SELF ''chxcatsub'' (c_name c) s)"
    using True assms(2) c by (simp add: chxcatsub_def inline_check_simps deref_simps)
  then show ?thesis using True assms(1) by (simp add: chxerror.simps logger_simps)
next
  case False
  then show ?thesis by (metis chxcatsub_ok [OF assms False, of pos n] chx_toD(1,2) sub_of_def)
qed

theorem chxcatsub_clamps_witness:
  "\<exists>s'. chxcatsub (Some 1) (Some 2) 2 100 (store_of [''foo'', ''abcde'']) = Some (1, s') \<and> chx_inv s' \<and>
     sview s' 1 = Some ''foocde''"
  using chxcatsub_clamps [of "store_of [''foo'', ''abcde'']" 1 "''foo''" 2 "''abcde''" 2 100]
  by (auto simp: store_of_inv store_of_sview ALLCHARS_def)

text \<open>
  The characters of a string can be changed one at a time (\<open>chxsetval\<close>, the value nonzero): inside the
  string the function returns 1 and exactly that character changes, behind the end it returns 0 and
  changes nothing, and the length never changes.
\<close>

theorem chxsetval_updates:
  assumes "chx_inv s" and "sview s a = Some x" and "0 \<le> pos" and "byte val \<noteq> NUL"
  shows "\<exists>s'. chxsetval (Some a) pos w val s = Some (if pos < int (length x) then 1 else 0, s') \<and> chx_inv s' \<and>
    sview s' = (sview s)(a \<mapsto> x[nat pos := byte val])"
  by (metis chxsetval_ok [OF assms, of w] chx_toD(1,2))

theorem chxsetval_updates_witness:
  "\<exists>s'. chxsetval (Some 1) 1 1 65 (store_of [''foo'']) = Some (1, s') \<and> chx_inv s' \<and>
    sview s' = (sview (store_of [''foo'']))(1 \<mapsto> ''fAo'')"
proof -
  have b: "byte 65 = CHR ''A''" by (simp add: byte_def char_of_def)
  show ?thesis using chxsetval_updates [of "store_of [''foo'']" 1 "''foo''" 1 65 1]
    by (simp add: store_of_inv store_of_sview b)
qed

end
