(* ===== verification/ChixSearch.thy ===== *)
theory ChixSearch
  imports ChixOps "HOL-Library.Sublist"
begin

text \<open>
  Comparing and searching chix: the scan primitive \<open>chxscan\<close>, equality, substring search
  forwards and backwards, lexical comparison under the collation rules, and the operations
  that rewrite occurrences (\<open>chxalter\<close>, \<open>chxreplace\<close>, \<open>chxbreak\<close>, \<open>chxsimplify\<close>).
\<close>

section \<open>Definitions\<close>

text \<open>
  \<open>chxscan (ap, ..., bp, ..., &enda, &endb)\<close>: the position where the strings at \<open>ap\<close> and \<open>bp\<close>
  first differ or both end, and the two characters there.
\<close>

function chxscan :: "char list \<Rightarrow> int \<Rightarrow> char list \<Rightarrow> int \<Rightarrow> int \<Rightarrow> (int \<times> int \<times> int) option" where
  "chxscan p i r j n =
     (case rd p i of None \<Rightarrow> None
      | Some a \<Rightarrow>
          (case rd r j of None \<Rightarrow> None
           | Some b \<Rightarrow>
               if a \<noteq> b \<or> a = NUL then Some (n, bval a, bval b)
               else chxscan p (i + 1) r (j + 1) (n + 1)))"
  by pat_completeness auto
termination
  by (relation "measure (\<lambda>(p, i, r, j, n). length p - nat i)") (auto simp: rd_def split: if_splits)

declare chxscan.simps [simp del]

text \<open>The buffer of a live chix.\<close>

definition buf :: "Chix \<Rightarrow> chx_state \<Rightarrow> char list option" where
  "buf x s = do { c \<leftarrow> deref x s; c_p c }"

text \<open>\<open>strcmp (p, r) == 0\<close>.\<close>

definition c_streq :: "char list \<Rightarrow> char list \<Rightarrow> bool option" where
  "c_streq p r = do { (_, a, b) \<leftarrow> chxscan p 0 r 0 0; Some (a = b) }"

definition chxeq :: "Chix \<Rightarrow> Chix \<Rightarrow> chx_state \<Rightarrow> (int \<times> chx_state) option" where
  "chxeq x y s = do {
     (ok, s) \<leftarrow> inline_check ''chxeq'' [x, y] s;
     if \<not> ok then Some (0, s)
     else do {
       p \<leftarrow> buf x s;
       r \<leftarrow> buf y s;
       e \<leftarrow> c_streq p r;
       Some (if e then 1 else 0, s) } }"

definition chxeqf :: "Chix \<Rightarrow> Chix \<Rightarrow> chx_state \<Rightarrow> (int \<times> chx_state) option" where
  "chxeqf x y s = do {
     p \<leftarrow> buf x s;
     r \<leftarrow> buf y s;
     e \<leftarrow> c_streq p r;
     Some (if e then 1 else 0, s) }"

definition chxsubeq :: "Chix \<Rightarrow> int \<Rightarrow> Chix \<Rightarrow> chx_state \<Rightarrow> (int \<times> chx_state) option" where
  "chxsubeq x pos y s = do {
     (ok, s) \<leftarrow> inline_check ''chxsubeq'' [x, y] s;
     if \<not> ok then Some (0, s)
     else do {
       cx \<leftarrow> deref x s;
       p \<leftarrow> c_p cx;
       r \<leftarrow> buf y s;
       (differ_at, _, _) \<leftarrow> chxscan p (pos * c_type cx) r 0 0;
       (n, s) \<leftarrow> chxlen y s;
       Some (if differ_at = n then 1 else 0, s) } }"

function index_loop :: "char list \<Rightarrow> int \<Rightarrow> char list \<Rightarrow> int option" where
  "index_loop p i r =
     (case rd p i of None \<Rightarrow> None
      | Some c \<Rightarrow>
          if c = NUL then Some (-1)
          else (case chxscan p i r 0 0 of None \<Rightarrow> None
                | Some (_, _, y_end) \<Rightarrow> if y_end = 0 then Some i else index_loop p (i + 1) r))"
  by pat_completeness auto
termination
  by (relation "measure (\<lambda>(p, i, r). length p - nat i)") (auto simp: rd_def split: if_splits)

declare index_loop.simps [simp del]

definition chxindex :: "Chix \<Rightarrow> int \<Rightarrow> Chix \<Rightarrow> chx_state \<Rightarrow> (int \<times> chx_state) option" where
  "chxindex x pos y s = do {
     (ok, s) \<leftarrow> inline_check ''chxindex'' [x, y] s;
     if \<not> ok then Some (-1, s)
     else do {
       (v, s) \<leftarrow> chxvalue y 0 s;
       if v = 0 then Some (-1, s)
       else do {
         cx \<leftarrow> deref x s;
         (_, s) \<leftarrow> (if c_actlen cx < 0 then chxlen x s else Some (0, s));
         cx \<leftarrow> deref x s;
         if pos \<ge> c_actlen cx then Some (-1, s)
         else do {
           p \<leftarrow> c_p cx;
           r \<leftarrow> buf y s;
           i \<leftarrow> index_loop p pos r;
           Some (i, s) } } } }"

fun revdex_loop :: "char list \<Rightarrow> nat \<Rightarrow> char list \<Rightarrow> int option" where
  "revdex_loop p 0 r = Some (-1)"
| "revdex_loop p (Suc i) r =
     (case chxscan p (int i) r 0 0 of None \<Rightarrow> None
      | Some (_, _, y_end) \<Rightarrow> if y_end = 0 then Some (int i) else revdex_loop p i r)"

definition chxrevdex :: "Chix \<Rightarrow> int \<Rightarrow> Chix \<Rightarrow> chx_state \<Rightarrow> (int \<times> chx_state) option" where
  "chxrevdex x pos y s = do {
     (ok, s) \<leftarrow> inline_check ''chxrevdex'' [x, y] s;
     if \<not> ok then Some (-1, s)
     else do {
       (v, s) \<leftarrow> chxvalue y 0 s;
       if v = 0 then Some (-1, s)
       else do {
         cx \<leftarrow> deref x s;
         (_, s) \<leftarrow> (if c_actlen cx < 0 then chxlen x s else Some (0, s));
         cx \<leftarrow> deref x s;
         let pos = (if pos = ALLCHARS \<or> pos \<ge> c_actlen cx then c_actlen cx - 1 else pos);
         p \<leftarrow> c_p cx;
         r \<leftarrow> buf y s;
         i \<leftarrow> revdex_loop p (nat (pos + 1)) r;
         Some (i, s) } } }"

definition CLEAR_CT :: int where "CLEAR_CT = 0"
definition ADDRULE_CT :: int where "ADDRULE_CT = 1"
definition APPLY_CT :: int where "APPLY_CT = 2"

fun apply_rules :: "rule_t list \<Rightarrow> int \<Rightarrow> int \<Rightarrow> int" where
  "apply_rules [] a value = value"
| "apply_rules (r # rs) a value =
     (if a < r_a r \<or> a > r_b r then apply_rules rs a value
      else apply_rules rs a (r_c r + r_i r * (a - r_a r)))"

definition chxcollate :: "int \<Rightarrow> int \<Rightarrow> int \<Rightarrow> int \<Rightarrow> int \<Rightarrow> chx_state \<Rightarrow> int \<times> chx_state" where
  "chxcollate verb a b c i s =
     (if verb = CLEAR_CT then (0, s\<lparr>rules := []\<rparr>)
      else if verb = ADDRULE_CT then
        (0, s\<lparr>rules := rules s @ [\<lparr>r_a = a, r_b = b, r_c = c, r_i = i\<rparr>]\<rparr>)
      else if verb = APPLY_CT \<and> a = 0 then (0, s)
      else if verb = APPLY_CT then (apply_rules (rules s) a a, s)
      else (-1, s))"

text \<open>A chix argument of \<open>chxcompare\<close> that is null, freed or no chix counts as the empty string.\<close>

definition text_or_empty :: "Chix \<Rightarrow> chx_state \<Rightarrow> char list option" where
  "text_or_empty x s =
     (if x = nullchix then Some [NUL]
      else do { c \<leftarrow> deref x s; if \<not> FREED c \<and> ISCHIX c then c_p c else Some [NUL] })"

definition chxcompare :: "Chix \<Rightarrow> Chix \<Rightarrow> int \<Rightarrow> chx_state \<Rightarrow> (int \<times> chx_state) option" where
  "chxcompare x y len s = do {
     xp \<leftarrow> text_or_empty x s;
     yp \<leftarrow> text_or_empty y s;
     (diff_pos, x_end, y_end) \<leftarrow> chxscan xp 0 yp 0 0;
     if len \<noteq> ALLCHARS \<and> len \<le> diff_pos then Some (0, s)
     else if x_end = 0 \<and> y_end = 0 then Some (0, s)
     else if len = ALLCHARS \<and> x_end = 0 then Some (-1, s)
     else if len = ALLCHARS \<and> y_end = 0 then Some (1, s)
     else
       let (xc, s) = chxcollate APPLY_CT x_end 0 0 0 s;
           (yc, s) = chxcollate APPLY_CT y_end 0 0 0 s
       in if xc > yc then Some (1, s) else if xc < yc then Some (-1, s) else Some (0, s) }"

definition chxabr :: "Chix \<Rightarrow> Chix \<Rightarrow> chx_state \<Rightarrow> (int \<times> chx_state) option" where
  "chxabr a b s = do {
     (ok, s) \<leftarrow> inline_check ''chxabr'' [a, b] s;
     if \<not> ok then Some (0, s)
     else do {
       (ea, s) \<leftarrow> EMPTYCHX a s;
       (eb, s) \<leftarrow> (if ea then Some (True, s) else EMPTYCHX b s);
       if ea \<or> eb then Some (0, s)
       else do {
         (i, s) \<leftarrow> chxindex a 0 b s;
         if i = 0 then Some (2, s)
         else do {
           (i, s) \<leftarrow> chxindex b 0 a s;
           if i = 0 then Some (1, s) else Some (0, s) } } } }"

definition chxbreak :: "Chix \<Rightarrow> Chix \<Rightarrow> Chix \<Rightarrow> Chix \<Rightarrow> chx_state \<Rightarrow> (int \<times> chx_state) option" where
  "chxbreak a fore aft pat s = do {
     (ok, s) \<leftarrow> inline_check ''chxbreak'' [a, fore, aft, pat] s;
     if \<not> ok then Some (0, s)
     else do {
       (_, s) \<leftarrow> chxclear aft s;
       (_, s) \<leftarrow> chxclear fore s;
       (i, s) \<leftarrow> chxindex a 0 pat s;
       if i < 0 then do { (_, s) \<leftarrow> chxcpy fore a s; Some (0, s) }
       else do {
         (patlen, s) \<leftarrow> chxlen pat s;
         (_, s) \<leftarrow> chxcatsub fore a 0 i s;
         (_, s) \<leftarrow> chxcatsub aft a (i + patlen) ALLCHARS s;
         Some (1, s) } } }"

text \<open>The exchange of \<open>*a\<close> and \<open>*z\<close> and \<open>chxfree (z)\<close> at the end of \<open>chxalter\<close> and \<open>chxreplace\<close>.\<close>

definition swap_free :: "Chix \<Rightarrow> nat \<Rightarrow> chx_state \<Rightarrow> (int \<times> chx_state) option" where
  "swap_free a z s = do {
     ca \<leftarrow> deref a s;
     cz \<leftarrow> deref (Some z) s;
     let s = put z ca (put (the a) cz s);
     (_, s) \<leftarrow> chxfree (Some z) s;
     Some (1, s) }"

definition chxalter :: "Chix \<Rightarrow> int \<Rightarrow> Chix \<Rightarrow> Chix \<Rightarrow> chx_state \<Rightarrow> (int \<times> chx_state) option" where
  "chxalter a pos b c s = do {
     (ok, s) \<leftarrow> chxcheck a ''chxalter'' s;
     if ok = 0 then Some (0, s) else do {
     (ok, s) \<leftarrow> chxcheck b ''chxalter'' s;
     if ok = 0 then Some (0, s) else do {
     (ok, s) \<leftarrow> chxcheck c ''chxalter'' s;
     if ok = 0 then Some (0, s) else do {
     (v, s) \<leftarrow> chxvalue a 0 s;
     if v = 0 then Some (0, s) else do {
     (v, s) \<leftarrow> chxvalue b 0 s;
     if v = 0 then Some (0, s) else do {
     (i, s) \<leftarrow> chxindex a pos b s;
     if i < 0 then Some (0, s) else do {
     ca \<leftarrow> deref a s;
     cc \<leftarrow> deref c s;
     (_, s) \<leftarrow> resize_if (c_type cc > c_type ca) a (c_type cc) 0 s;
     ca \<leftarrow> deref a s;
     let (z, s) = chxalloc (c_maxlen ca) (c_type ca) (c_name ca) s;
     (_, s) \<leftarrow> chxcatsub (Some z) a 0 i s;
     (_, s) \<leftarrow> chxcat (Some z) c s;
     (n, s) \<leftarrow> chxlen b s;
     (_, s) \<leftarrow> chxcatsub (Some z) a (i + n) (c_maxlen ca) s;
     swap_free a z s } } } } } } }"

text \<open>The loop of \<open>chxreplace\<close>; it ends because \<open>pos\<close> grows, which the contract proves.\<close>

partial_function (option) replace_loop ::
  "Chix \<Rightarrow> Chix \<Rightarrow> Chix \<Rightarrow> Chix \<Rightarrow> int \<Rightarrow> chx_state \<Rightarrow> chx_state option" where
  "replace_loop a b c z pos s = do {
     (cval, s) \<leftarrow> chxvalue a pos s;
     if cval = 0 then Some s
     else do {
       ca \<leftarrow> deref a s;
       p \<leftarrow> c_p ca;
       r \<leftarrow> buf b s;
       (_, _, b_end) \<leftarrow> chxscan p (pos * c_type ca) r 0 0;
       if b_end \<noteq> 0 then do {
         (_, s) \<leftarrow> chxcatval z (c_maxlen ca) cval s;
         replace_loop a b c z (pos + 1) s }
       else do {
         (_, s) \<leftarrow> chxcat z c s;
         (n, s) \<leftarrow> chxlen b s;
         replace_loop a b c z (pos + (n - 1) + 1) s } } }"

definition chxreplace :: "Chix \<Rightarrow> int \<Rightarrow> Chix \<Rightarrow> Chix \<Rightarrow> chx_state \<Rightarrow> (int \<times> chx_state) option" where
  "chxreplace a pos b c s = do {
     (ok, s) \<leftarrow> inline_check ''chxreplace'' [a, b, c] s;
     if \<not> ok then Some (0, s) else do {
     (v, s) \<leftarrow> chxvalue a 0 s;
     if v = 0 then Some (0, s) else do {
     (v, s) \<leftarrow> chxvalue b 0 s;
     if v = 0 then Some (0, s) else do {
     (pos, s) \<leftarrow> chxindex a pos b s;
     if pos < 0 then Some (0, s) else do {
     ca \<leftarrow> deref a s;
     cc \<leftarrow> deref c s;
     (_, s) \<leftarrow> resize_if (c_type cc > c_type ca) a (c_type cc) 0 s;
     ca \<leftarrow> deref a s;
     let (z, s) = chxalloc (c_maxlen ca) (c_type ca) (c_name ca) s;
     (_, s) \<leftarrow> chxcatsub (Some z) a 0 pos s;
     s \<leftarrow> replace_loop a b c (Some z) pos s;
     swap_free a z s } } } } }"

partial_function (option) simplify_loop :: "Chix \<Rightarrow> Chix \<Rightarrow> Chix \<Rightarrow> chx_state \<Rightarrow> chx_state option" where
  "simplify_loop x blank2 blank1 s = do {
     (r, s) \<leftarrow> chxalter x 0 blank2 blank1 s;
     if r = 0 then Some s else simplify_loop x blank2 blank1 s }"

definition chxsimplify :: "Chix \<Rightarrow> chx_state \<Rightarrow> (int \<times> chx_state) option" where
  "chxsimplify x s = do {
     (ok, s) \<leftarrow> inline_check ''chxsimplify'' [x] s;
     if \<not> ok then Some (0, s)
     else do {
       (blank2, s) \<leftarrow> chxquick (Some ''  '') 2 s;
       (blank1, s) \<leftarrow> chxquick (Some '' '') 3 s;
       (empty, s) \<leftarrow> chxquick (Some '''') 4 s;
       s \<leftarrow> simplify_loop x blank2 blank1 s;
       (v, s) \<leftarrow> chxvalue x 0 s;
       (_, s) \<leftarrow> (if v = 32 then chxalter x 0 blank1 empty s else Some (0, s));
       (_, s) \<leftarrow> chxtrim x s;
       Some (1, s) } }"

section \<open>The scan on strings\<close>

fun scan_str :: "string \<Rightarrow> string \<Rightarrow> nat \<times> int \<times> int" where
  "scan_str (a # x) (b # y) =
     (if a = b then let (n, e) = scan_str x y in (Suc n, e) else (0, bval a, bval b))"
| "scan_str x y = (0, if x = [] then 0 else bval (hd x), if y = [] then 0 else bval (hd y))"

lemma chxscan_eq:
  assumes "NUL \<in> set (drop i p)" and "NUL \<in> set (drop j r)"
  shows "chxscan p (int i) r (int j) n =
    (let (m, e) = scan_str (cstr (drop i p)) (cstr (drop j r)) in Some (n + int m, e))"
  using assms
proof (induction "length p - i" arbitrary: i j n)
  case 0
  then show ?case by simp
next
  case (Suc k)
  then have "i < length p" "j < length r" by (auto simp: not_less intro: ccontr)
  then have d: "drop i p = p ! i # drop (Suc i) p" "drop j r = r ! j # drop (Suc j) r"
    by (simp_all add: Cons_nth_drop_Suc)
  show ?case
  proof (cases "p ! i = r ! j \<and> p ! i \<noteq> NUL")
    case True
    have "chxscan p (int (Suc i)) r (int (Suc j)) (n + 1) =
      (let (m, e) = scan_str (cstr (drop (Suc i) p)) (cstr (drop (Suc j) r)) in Some (n + 1 + int m, e))"
      by (rule Suc.hyps(1)) (use Suc True d in auto)
    then show ?thesis using True \<open>i < length p\<close> \<open>j < length r\<close> d
      by (subst chxscan.simps) (simp add: add.commute split_beta Let_def)
  next
    case False
    have "chxscan p (int i) r (int j) n = Some (n, bval (p ! i), bval (r ! j))"
      using False \<open>i < length p\<close> \<open>j < length r\<close> by (subst chxscan.simps) auto
    moreover have "scan_str (cstr (drop i p)) (cstr (drop j r)) = (0, bval (p ! i), bval (r ! j))"
      using False unfolding d by (cases "p ! i = NUL"; cases "r ! j = NUL") simp_all
    ultimately show ?thesis by simp
  qed
qed

lemma scan_str_end: "NUL \<notin> set y \<Longrightarrow> snd (snd (scan_str x y)) = 0 \<longleftrightarrow> prefix y x"
proof (induction x arbitrary: y)
  case Nil
  then show ?case by (cases y) auto
next
  case (Cons a x)
  then show ?case by (cases y) (auto simp: Let_def split_beta)
qed

lemma scan_str_eq:
  "NUL \<notin> set x \<Longrightarrow> NUL \<notin> set y \<Longrightarrow> fst (snd (scan_str x y)) = snd (snd (scan_str x y)) \<longleftrightarrow> x = y"
proof (induction x arbitrary: y)
  case Nil
  then show ?case by (cases y) auto
next
  case (Cons a x)
  then show ?case by (cases y) (auto simp: Let_def split_beta)
qed

lemma scan_str_len: "fst (scan_str x y) = length y \<longleftrightarrow> prefix y x"
proof (induction x arbitrary: y)
  case Nil
  then show ?case by (cases y) auto
next
  case (Cons a x)
  then show ?case by (cases y) (auto simp: Let_def split_beta)
qed

section \<open>Contracts of the read-only operations\<close>

lemma live_buf:
  assumes "chx_inv s" and "sview s a = Some x"
  obtains p where "buf (Some a) s = Some p" "cstr p = x" "NUL \<in> set p" "length (cstr p) < length p"
    "\<forall>i \<le> length x. NUL \<in> set (drop i p) \<and> cstr (drop i p) = drop i x"
proof -
  obtain c p where c: "heap s a = Some c" "c_p c = Some p" "cstr p = x"
      "c_maxlen c + 1 \<le> int (length p)" "int (length x) < c_maxlen c"
    by (rule live_block [OF assms])
  have l: "length (cstr p) < length p" using c(3-5) by simp
  have "NUL \<in> set (drop i p) \<and> cstr (drop i p) = drop i x" if i: "i \<le> length x" for i
    using cstr_drop [of i p] cstr_has_NUL [of "drop i p"] i l c(3) by auto
  then show thesis using that [of p] c(1,2,3) l cstr_has_NUL [OF l] by (simp add: buf_def deref_simps)
qed

lemma chxeq_live:
  assumes "chx_inv s" and "sview s a = Some x" and "sview s b = Some y"
  shows "chxeq (Some a) (Some b) s = Some (if x = y then 1 else 0, s)"
    and "chxeqf (Some a) (Some b) s = Some (if x = y then 1 else 0, s)"
proof -
  obtain p where p: "buf (Some a) s = Some p" "cstr p = x" "NUL \<in> set p" by (rule live_buf [OF assms(1,2)])
  obtain r where r: "buf (Some b) s = Some r" "cstr r = y" "NUL \<in> set r" by (rule live_buf [OF assms(1,3)])
  have "c_streq p r = Some (x = y)"
    using chxscan_eq [of 0 p 0 r 0] p r scan_str_eq [of x y] live_no_NUL [OF assms(2)] live_no_NUL [OF assms(3)]
    by (auto simp: c_streq_def split_beta Let_def)
  with p r assms show "chxeq (Some a) (Some b) s = Some (if x = y then 1 else 0, s)"
    and "chxeqf (Some a) (Some b) s = Some (if x = y then 1 else 0, s)"
    by (simp_all add: chxeq_def chxeqf_def inline_check_simps)
qed

lemma chxsubeq_ok:
  assumes inv: "chx_inv s" and a: "sview s a = Some x" and b: "sview s b = Some y"
    and pos: "0 \<le> pos" "pos \<le> int (length x)"
  obtains s' where "chxsubeq (Some a) pos (Some b) s = Some (if prefix y (drop (nat pos) x) then 1 else 0, s')"
    "chx_to s (sview s) s'"
proof -
  obtain c where c: "heap s a = Some c" "c_type c = THIN" by (rule live_block [OF inv a])
  obtain p where p: "buf (Some a) s = Some p" "cstr p = x"
      "\<forall>i \<le> length x. NUL \<in> set (drop i p) \<and> cstr (drop i p) = drop i x"
    by (rule live_buf [OF inv a])
  obtain r where r: "buf (Some b) s = Some r" "cstr r = y" "NUL \<in> set r" by (rule live_buf [OF inv b])
  obtain s' where s': "chxlen (Some b) s = Some (int (length y), s')" "chx_to s (sview s) s'"
    by (rule chxlen_ok [OF inv b])
  have sc: "chxscan p pos r 0 0 = (let (m, e) = scan_str (drop (nat pos) x) y in Some (int m, e))"
    using chxscan_eq [of "nat pos" p 0 r 0] p(3) [rule_format, of "nat pos"] r pos by (simp add: nat_le_iff)
  have cp: "c_p c = Some p" using p(1) c(1) by (simp add: buf_def deref_simps)
  have "chxsubeq (Some a) pos (Some b) s = Some (if prefix y (drop (nat pos) x) then 1 else 0, s')"
    using a b c(1) c(2) cp r(1) s'(1) sc scan_str_len [of "drop (nat pos) x" y]
    by (simp add: chxsubeq_def inline_check_simps deref_simps THIN_def split_beta Let_def)
  then show thesis using that s'(2) by blast
qed

definition index_of :: "string \<Rightarrow> int \<Rightarrow> string \<Rightarrow> int" where
  "index_of x pos y =
     (if y = [] then -1
      else case first_occ y (drop (nat pos) x) of None \<Rightarrow> -1 | Some k \<Rightarrow> pos + int k)"

lemma index_loop_eq:
  assumes r: "NUL \<in> set r" "cstr r = y" and p: "cstr p = x"
    "\<forall>i \<le> length x. NUL \<in> set (drop i p) \<and> cstr (drop i p) = drop i x"
    and "NUL \<notin> set y" and "k \<le> length x"
  shows "index_loop p (int k) r =
    Some (case first_occ y (drop k x) of None \<Rightarrow> -1 | Some m \<Rightarrow> int k + int m)"
  using assms(6)
proof (induction "length x - k" arbitrary: k)
  case 0
  then have "k = length x" by simp
  moreover have "k < length p" using p(2) [rule_format, of k] 0(2) by (cases "k < length p") auto
  moreover have "drop k p = p ! k # drop (Suc k) p" using \<open>k < length p\<close> by (simp add: Cons_nth_drop_Suc)
  ultimately have "p ! k = NUL" using p(2) [rule_format, of k] by (auto split: if_splits)
  then show ?case using \<open>k = length x\<close> \<open>k < length p\<close> by (subst index_loop.simps) simp
next
  case (Suc m)
  then have k: "k < length x" by simp
  have kp: "k < length p" using k p(1) cstr_length_le [of p] by simp
  then have d: "drop k p = p ! k # drop (Suc k) p" by (simp add: Cons_nth_drop_Suc)
  have dx: "drop k x = p ! k # drop (Suc k) x" and nz: "p ! k \<noteq> NUL"
    using p(2) [rule_format, of k] p(2) [rule_format, of "Suc k"] k d by (auto split: if_splits)
  have sc: "chxscan p (int k) r 0 0 = (let (m, e) = scan_str (drop k x) y in Some (int m, e))"
    using chxscan_eq [of k p 0 r 0] p(2) [rule_format, of k] k r by simp
  show ?case
  proof (cases "prefix y (drop k x)")
    case True
    then show ?thesis using sc scan_str_end [OF assms(5), of "drop k x"] nz kp dx
      by (subst index_loop.simps) (simp add: split_beta Let_def)
  next
    case False
    have "index_loop p (int (Suc k)) r =
       Some (case first_occ y (drop (Suc k) x) of None \<Rightarrow> -1 | Some m \<Rightarrow> int (Suc k) + int m)"
      by (rule Suc.hyps(1)) (use Suc.hyps(2) k in auto)
    then show ?thesis using False sc scan_str_end [OF assms(5), of "drop k x"] nz kp dx
      by (subst index_loop.simps) (auto simp: split_beta Let_def add.commute split: option.splits)
  qed
qed

text \<open>Reading the length when it is not cached, as \<open>chxindex\<close> and \<open>chxrevdex\<close> do.\<close>

lemma know_len:
  assumes inv: "chx_inv s" and a: "sview s a = Some x" and c: "heap s a = Some c"
  obtains s' c' n where "(if c_actlen c < 0 then chxlen (Some a) s else Some (0, s)) = Some (n, s')"
    "chx_to s (sview s) s'" "heap s' a = Some c'" "c_actlen c' = int (length x)"
proof (cases "c_actlen c < 0")
  case True
  obtain d b where d: "heap s a = Some d" "wf_chix d" "c_p d = Some b" "cstr b = x"
    by (rule live_block [OF inv a])
  obtain s' where s': "chxlen (Some a) s = Some (int (length x), s')" "chx_to s (sview s) s'"
    by (rule chxlen_ok [OF inv a])
  then have "s' = put a (d\<lparr>c_actlen := int (length x)\<rparr>) s"
    using chxlen_eq [OF inv d(1,2,3)] d(4) by simp
  then have "heap s' a = Some (d\<lparr>c_actlen := int (length x)\<rparr>)" by (simp add: put_simps)
  then show thesis using that [of "int (length x)" s' "d\<lparr>c_actlen := int (length x)\<rparr>"] s' True by simp
next
  case False
  then have "c_actlen c = int (length x)" using live_block [OF inv a] c by (metis option.inject less_minus_one_simps(1))
  then show thesis using that [of 0 s c] False c chx_to_refl [OF inv] by simp
qed

lemma chxindex_ok:
  assumes inv: "chx_inv s" and a: "sview s a = Some x" and b: "sview s b = Some y" and pos: "0 \<le> pos"
  obtains s' where "chxindex (Some a) pos (Some b) s = Some (index_of x pos y, s')" "chx_to s (sview s) s'"
proof -
  obtain s1 where s1: "chxvalue (Some b) 0 s = Some (char_at y 0, s1)" "chx_to s (sview s) s1"
    by (rule chxvalue_ok [OF inv b order.refl])
  note t1 = chx_toD [OF s1(2)]
  have a1: "sview s1 a = Some x" and b1: "sview s1 b = Some y" using t1 a b by auto
  have y0: "char_at y 0 = 0 \<longleftrightarrow> y = []" using char_at_eq_0 [OF live_no_NUL [OF b], of 0] by simp
  show thesis
  proof (cases "y = []")
    case True
    then show thesis using that [of s1] a b s1 y0
      by (simp add: chxindex_def inline_check_simps index_of_def)
  next
    case False
    obtain c where c: "heap s1 a = Some c" by (rule live_block [OF t1(1) a1])
    obtain s2 c2 n where s2: "(if c_actlen c < 0 then chxlen (Some a) s1 else Some (0, s1)) = Some (n, s2)"
        "chx_to s1 (sview s1) s2" "heap s2 a = Some c2" "c_actlen c2 = int (length x)"
      by (rule know_len [OF t1(1) a1 c])
    note t2 = chx_toD [OF s2(2)]
    have a2: "sview s2 a = Some x" and b2: "sview s2 b = Some y" using t2 a1 b1 by auto
    obtain p where p: "buf (Some a) s2 = Some p" "cstr p = x"
        "\<forall>i \<le> length x. NUL \<in> set (drop i p) \<and> cstr (drop i p) = drop i x"
      by (rule live_buf [OF t2(1) a2])
    obtain r where r: "buf (Some b) s2 = Some r" "cstr r = y" "NUL \<in> set r"
      by (rule live_buf [OF t2(1) b2])
    have cp: "c_p c2 = Some p" using p(1) s2(3) by (simp add: buf_def deref_simps)
    have lp: "pos < int (length x) \<Longrightarrow> index_loop p pos r = Some (index_of x pos y)"
      using index_loop_eq [OF r(3,2) p(2,3) live_no_NUL [OF b], of "nat pos"] pos False
      by (auto simp: index_of_def nat_less_iff split: option.splits)
    have ge: "\<not> pos < int (length x) \<Longrightarrow> index_of x pos y = -1" by (auto simp: index_of_def)
    have "chxindex (Some a) pos (Some b) s = Some (index_of x pos y, s2)"
      using a b s1(1) y0 False c s2(1,3,4) cp r(1) lp ge
      by (simp add: chxindex_def inline_check_simps deref_simps)
    then show thesis using that chx_to_read_trans [OF s1(2) s2(2)] by blast
  qed
qed

section \<open>Contracts of the replacing operations\<close>

lemma swap_free_ok:
  assumes inv: "chx_inv s" and a: "sview s a = Some x" and z: "sview s z = Some y"
    and ne: "a \<noteq> z" and nb: "blanks s \<noteq> Some z"
  obtains s' where "swap_free (Some a) z s = Some (1, s')" "chx_to s ((sview s)(a \<mapsto> y, z := None)) s'"
proof -
  obtain ca where ca: "heap s a = Some ca" "wf_chix ca" by (rule live_block [OF inv a])
  obtain cz where cz: "heap s z = Some cz" "wf_chix cz" "ctext cz = y"
    using live_block [OF inv z] by (metis ctext_def option.simps(5))
  let ?s1 = "put z ca (put a cz s)"
  have 1: "chx_to s ((sview s)(a \<mapsto> y)) (put a cz s)"
    using chx_to_put [OF inv ca(1) cz(2)] cz(3) by simp
  have 2: "chx_to (put a cz s) ((sview (put a cz s))(z \<mapsto> ctext ca)) ?s1"
    using chx_to_put [OF chx_toD(1) [OF 1], of z cz ca] cz(1) ca(2) ne by (simp add: put_simps)
  note t2 = chx_toD [OF 2]
  have "blanks ?s1 \<noteq> Some z" using nb by (simp add: put_simps)
  then obtain s' where s': "chxfree (Some z) ?s1 = Some (1, s')" "chx_to ?s1 ((sview ?s1)(z := None)) s'"
    using chxfree_ok [OF t2(1), of z "ctext ca"] t2(2) by auto
  have "(sview ?s1)(z := None) = (sview s)(a \<mapsto> y, z := None)"
    using t2(2) chx_toD(2) [OF 1] by (simp add: fun_eq_iff)
  then have "chx_to s ((sview s)(a \<mapsto> y, z := None)) s'"
    using chx_to_trans [OF chx_to_trans [OF 1 2] s'(2)] by simp
  moreover have "swap_free (Some a) z s = Some (1, s')"
    using ca(1) cz(1) s'(1) by (simp add: swap_free_def deref_simps Let_def)
  ultimately show thesis using that by blast
qed

text \<open>The string \<open>chxalter\<close> computes: the first occurrence of \<open>y\<close> from \<open>pos\<close> on is replaced by \<open>w\<close>.\<close>

definition alter_str :: "string \<Rightarrow> int \<Rightarrow> string \<Rightarrow> string \<Rightarrow> string" where
  "alter_str x pos y w =
     (let i = index_of x pos y
      in if i < 0 then x else take (nat i) x @ w @ drop (nat i + length y) x)"

lemma index_of_bound:
  assumes "0 \<le> pos" and "0 \<le> index_of x pos y"
  shows "pos \<le> index_of x pos y" "index_of x pos y + int (length y) \<le> int (length x)"
    "prefix y (drop (nat (index_of x pos y)) x)"
proof -
  obtain k where k: "first_occ y (drop (nat pos) x) = Some k" "index_of x pos y = pos + int k"
    using assms by (auto simp: index_of_def split: if_splits option.splits)
  have p: "k < length (drop (nat pos) x)" "prefix y (drop (nat (pos + int k)) x)"
    using first_occ_Some [OF k(1)] assms(1) by (auto simp: nat_add_distrib add.commute)
  then show "pos \<le> index_of x pos y" "index_of x pos y + int (length y) \<le> int (length x)"
    "prefix y (drop (nat (index_of x pos y)) x)"
    using k(2) assms(1) prefix_length_le [OF p(2)] by auto
qed

lemma sub_of_take: "0 \<le> n \<Longrightarrow> sub_of x 0 n = take (nat n) x"
  by (simp add: sub_of_def ALLCHARS_def)

lemma sub_of_rest: "int (length x) \<le> n \<Longrightarrow> sub_of x i n = drop (nat i) x"
  by (simp add: sub_of_def ALLCHARS_def)

text \<open>
  The guards \<open>chxalter\<close> and \<open>chxreplace\<close> begin with: both strings are looked at, then the first
  occurrence is sought.
\<close>

lemma guards_ok:
  assumes inv: "chx_inv s" and a: "sview s a = Some x" and b: "sview s b = Some y" and pos: "0 \<le> pos"
  obtains s1 s2 s3 where "chxvalue (Some a) 0 s = Some (char_at x 0, s1)" "chx_to s (sview s) s1"
    "chxvalue (Some b) 0 s1 = Some (char_at y 0, s2)" "chx_to s (sview s) s2"
    "chxindex (Some a) pos (Some b) s2 = Some (index_of x pos y, s3)" "chx_to s (sview s) s3"
    "char_at x 0 = 0 \<longleftrightarrow> x = []" "char_at y 0 = 0 \<longleftrightarrow> y = []"
proof -
  obtain s1 where s1: "chxvalue (Some a) 0 s = Some (char_at x 0, s1)" "chx_to s (sview s) s1"
    by (rule chxvalue_ok [OF inv a order.refl])
  note t1 = chx_toD [OF s1(2)]
  obtain s2 where s2: "chxvalue (Some b) 0 s1 = Some (char_at y 0, s2)" "chx_to s1 (sview s1) s2"
    using chxvalue_ok [OF t1(1), of b y 0] t1(2) b by auto
  note t2 = chx_toD [OF s2(2)]
  obtain s3 where s3: "chxindex (Some a) pos (Some b) s2 = Some (index_of x pos y, s3)" "chx_to s2 (sview s2) s3"
    using chxindex_ok [OF t2(1), of a x b y pos] t2(2) t1(2) a b pos by auto
  have "char_at x 0 = 0 \<longleftrightarrow> x = []" "char_at y 0 = 0 \<longleftrightarrow> y = []"
    using char_at_eq_0 [OF live_no_NUL [OF a], of 0] char_at_eq_0 [OF live_no_NUL [OF b], of 0] by simp_all
  with s1 s2 s3 show thesis using that chx_to_read_trans by blast
qed

lemma chxalter_ok:
  assumes inv: "chx_inv s" and a: "sview s a = Some x" and b: "sview s b = Some y"
    and c: "sview s c = Some w" and pos: "0 \<le> pos"
  obtains s' where
    "chxalter (Some a) pos (Some b) (Some c) s = Some (if index_of x pos y < 0 then 0 else 1, s')"
    "chx_to s ((sview s)(a \<mapsto> alter_str x pos y w)) s'"
proof -
  obtain s1 s2 s3 where g: "chxvalue (Some a) 0 s = Some (char_at x 0, s1)" "chx_to s (sview s) s1"
    "chxvalue (Some b) 0 s1 = Some (char_at y 0, s2)" "chx_to s (sview s) s2"
    "chxindex (Some a) pos (Some b) s2 = Some (index_of x pos y, s3)" "chx_to s (sview s) s3"
    "char_at x 0 = 0 \<longleftrightarrow> x = []" "char_at y 0 = 0 \<longleftrightarrow> y = []"
    by (rule guards_ok [OF inv a b pos])
  note t3 = chx_toD [OF g(6)]
  note v3 = t3(2)
  define i where "i = index_of x pos y"
  note guard = a b c g i_def chxcheck_live
  show thesis
  proof (cases "x = [] \<or> y = [] \<or> i < 0")
    case True
    then have neg: "i < 0" by (auto simp: i_def index_of_def)
    have "\<exists>t. chxalter (Some a) pos (Some b) (Some c) s = Some (0, t) \<and> chx_to s (sview s) t"
      using True guard
      by (cases "x = []"; cases "y = []") (auto simp: chxalter_def)
    then show thesis using that neg a by (auto simp: i_def alter_str_def map_upd_triv)
  next
    case False
    then have i0: "0 \<le> i" by simp
    have ib: "i + int (length y) \<le> int (length x)" using index_of_bound [OF pos] i0 by (simp add: i_def)
    obtain ca where ca: "heap s3 a = Some ca" "c_type ca = THIN" "int (length x) < c_maxlen ca"
      using live_block [OF t3(1), of a x] v3 a by metis
    obtain cc where cc: "heap s3 c = Some cc" "c_type cc = THIN"
      using live_block [OF t3(1), of c w] v3 c by metis
    define z where "z = next_adr s3"
    have ne: "a \<noteq> z" "b \<noteq> z" "c \<noteq> z" using live_less [OF t3(1)] v3 a b c by (auto simp: z_def)
    obtain s4 where s4: "chxalloc (c_maxlen ca) (c_type ca) (c_name ca) s3 = (z, s4)"
        "chx_to s3 ((sview s3)(z \<mapsto> [])) s4"
      using chxalloc_ok [OF t3(1)] z_def by metis
    note t4 = chx_toD [OF s4(2)]
    obtain s5 where s5: "chxcatsub (Some z) (Some a) 0 i s4 = Some (1, s5)"
        "chx_to s4 ((sview s4)(z \<mapsto> take (nat i) x)) s5"
      using chxcatsub_ok [OF t4(1), of z "[]" a x 0 i] t4(2) v3 a ne i0 by (auto simp: sub_of_take)
    note t5 = chx_toD [OF s5(2)]
    obtain s6 where s6: "chxcat (Some z) (Some c) s5 = Some (1, s6)"
        "chx_to s5 ((sview s5)(z \<mapsto> take (nat i) x @ w)) s6"
      using chxcat_ok [OF t5(1), of z "take (nat i) x" c w] t5(2) t4(2) v3 c ne by auto
    note t6 = chx_toD [OF s6(2)]
    obtain s7 where s7: "chxlen (Some b) s6 = Some (int (length y), s7)" "chx_to s6 (sview s6) s7"
      using chxlen_ok [OF t6(1), of b y] t6(2) t5(2) t4(2) v3 b ne by auto
    note t7 = chx_toD [OF s7(2)]
    obtain s8 where s8: "chxcatsub (Some z) (Some a) (i + int (length y)) (c_maxlen ca) s7 = Some (1, s8)"
        "chx_to s7 ((sview s7)(z \<mapsto> (take (nat i) x @ w) @ drop (nat (i + int (length y))) x)) s8"
      using chxcatsub_ok [OF t7(1), of z "take (nat i) x @ w" a x "i + int (length y)" "c_maxlen ca"]
        t7(2) t6(2) t5(2) t4(2) v3 a ne ca(3) by (auto simp: sub_of_rest)
    note t8 = chx_toD [OF s8(2)]
    have v8: "sview s8 = (sview s)(z \<mapsto> alter_str x pos y w)"
      using t8(2) t7(2) t6(2) t5(2) t4(2) v3 i0
      by (simp add: alter_str_def i_def [symmetric] Let_def nat_add_distrib)
    have "blanks s8 = blanks s3" using t8(3) t7(3) t6(3) t5(3) t4(3) by (simp add: globs_def)
    then have nb: "blanks s8 \<noteq> Some z" using fresh_not_static(1) [OF t3(1)] by (simp add: z_def)
    obtain s9 where s9: "swap_free (Some a) z s8 = Some (1, s9)"
        "chx_to s8 ((sview s8)(a \<mapsto> alter_str x pos y w, z := None)) s9"
      using swap_free_ok [OF t8(1), of a x z "alter_str x pos y w"] v8 a ne nb by auto
    have "sview s z = None" using fresh_not_live [OF t3(1)] v3 by (simp add: z_def)
    then have "(sview s8)(a \<mapsto> alter_str x pos y w, z := None) = (sview s)(a \<mapsto> alter_str x pos y w)"
      using v8 ne(1) by (auto simp: fun_eq_iff)
    then have "chx_to s ((sview s)(a \<mapsto> alter_str x pos y w)) s9"
      using chx_to_trans [OF g(6) chx_to_trans [OF s4(2) chx_to_trans [OF s5(2) chx_to_trans [OF s6(2)
              chx_to_trans [OF s7(2) chx_to_trans [OF s8(2) s9(2)]]]]]] by simp
    moreover have "chxalter (Some a) pos (Some b) (Some c) s = Some (1, s9)"
      using False guard ca cc s4(1) s5(1) s6(1) s7(1) s8(1) s9(1)
      by (simp add: chxalter_def deref_simps resize_if_def Let_def)
    ultimately show thesis using that i0 by (simp add: i_def)
  qed
qed

text \<open>Replacing every occurrence, from left to right, without rescanning the replacement.\<close>

function rep_all :: "string \<Rightarrow> string \<Rightarrow> string \<Rightarrow> string" where
  "rep_all y w [] = []"
| "rep_all y w (c # x) =
     (if y \<noteq> [] \<and> prefix y (c # x) then w @ rep_all y w (drop (length y) (c # x))
      else c # rep_all y w x)"
  by pat_completeness auto
termination
  by (relation "measure (\<lambda>(y, w, x). length x)") (auto simp: neq_Nil_conv)

declare rep_all.simps [simp del]

lemma rep_all_simps:
  "rep_all y w [] = []"
  "y \<noteq> [] \<Longrightarrow> prefix y x \<Longrightarrow> rep_all y w x = w @ rep_all y w (drop (length y) x)"
  "\<not> prefix y (c # x) \<Longrightarrow> rep_all y w (c # x) = c # rep_all y w x"
  by (cases x; simp add: rep_all.simps)+

text \<open>One pass of the loop: the character at \<open>pos\<close> is copied, or an occurrence replaced.\<close>

lemma replace_loop_unfold:
  assumes inv: "chx_inv s" and a: "sview s a = Some x" and b: "sview s b = Some y"
    and k: "k < length x"
  obtains s1 and ca :: chix_t where "chx_to s (sview s) s1"
    "replace_loop (Some a) (Some b) c z (int k) s =
       (if prefix y (drop k x)
        then do { (_, t) \<leftarrow> chxcat z c s1; (n, t) \<leftarrow> chxlen (Some b) t;
                  replace_loop (Some a) (Some b) c z (int k + (n - 1) + 1) t }
        else do { (_, t) \<leftarrow> chxcatval z (c_maxlen ca) (bval (x ! k)) s1;
                  replace_loop (Some a) (Some b) c z (int k + 1) t })"
proof -
  obtain s1 where s1: "chxvalue (Some a) (int k) s = Some (char_at x (int k), s1)" "chx_to s (sview s) s1"
    by (rule chxvalue_ok [OF inv a of_nat_0_le_iff])
  note t1 = chx_toD [OF s1(2)]
  have a1: "sview s1 a = Some x" and b1: "sview s1 b = Some y" using t1(2) a b by auto
  have v: "char_at x (int k) = bval (x ! k)" "bval (x ! k) \<noteq> 0"
    using k live_no_NUL [OF a] nth_mem [OF k] by (simp add: char_at_def, metis bval_eq_0)
  obtain ca where ca: "heap s1 a = Some ca" "c_type ca = THIN" by (rule live_block [OF t1(1) a1])
  obtain p where p: "buf (Some a) s1 = Some p"
      "\<forall>i \<le> length x. NUL \<in> set (drop i p) \<and> cstr (drop i p) = drop i x"
    by (rule live_buf [OF t1(1) a1])
  obtain r where r: "buf (Some b) s1 = Some r" "cstr r = y" "NUL \<in> set r" by (rule live_buf [OF t1(1) b1])
  have cp: "c_p ca = Some p" using p(1) ca(1) by (simp add: buf_def deref_simps)
  obtain m xe ye where sc: "chxscan p (int k) r 0 0 = Some (m, xe, ye)" "ye = 0 \<longleftrightarrow> prefix y (drop k x)"
    using chxscan_eq [of k p 0 r 0] p(2) k r scan_str_end [OF live_no_NUL [OF b], of "drop k x"]
    by (cases "scan_str (drop k x) y") auto
  have "replace_loop (Some a) (Some b) c z (int k) s =
       (if prefix y (drop k x)
        then do { (_, t) \<leftarrow> chxcat z c s1; (n, t) \<leftarrow> chxlen (Some b) t;
                  replace_loop (Some a) (Some b) c z (int k + (n - 1) + 1) t }
        else do { (_, t) \<leftarrow> chxcatval z (c_maxlen ca) (bval (x ! k)) s1;
                  replace_loop (Some a) (Some b) c z (int k + 1) t })"
    using s1(1) v ca cp r(1) sc by (subst replace_loop.simps) (simp add: deref_simps THIN_def)
  with s1(2) show thesis by (rule that)
qed

lemma replace_loop_ok:
  assumes "chx_inv s" and "sview s a = Some x" and "sview s b = Some y" and "sview s c = Some w"
    and "sview s z = Some acc" and ne: "z \<noteq> a" "z \<noteq> b" "z \<noteq> c" and y: "y \<noteq> []" and "k \<le> length x"
  shows "\<exists>s'. replace_loop (Some a) (Some b) (Some c) (Some z) (int k) s = Some s' \<and>
    chx_to s ((sview s)(z \<mapsto> acc @ rep_all y w (drop k x))) s'"
  using assms(1-5) assms(10)
proof (induction "length x - k" arbitrary: k acc s rule: less_induct)
  case less
  note inv = less.prems(1) and v = less.prems(2-5)
  show ?case
  proof (cases "k < length x")
    case False
    then have "k = length x" using less.prems(6) by simp
    moreover obtain s1 where "chxvalue (Some a) (int k) s = Some (char_at x (int k), s1)" "chx_to s (sview s) s1"
      by (rule chxvalue_ok [OF inv v(1) of_nat_0_le_iff])
    ultimately show ?thesis using v(4)
      by (subst replace_loop.simps) (simp add: char_at_def rep_all_simps map_upd_triv)
  next
    case True
    obtain s1 and ca :: chix_t where s1: "chx_to s (sview s) s1" and
      unf: "replace_loop (Some a) (Some b) (Some c) (Some z) (int k) s =
       (if prefix y (drop k x)
        then do { (_, t) \<leftarrow> chxcat (Some z) (Some c) s1; (n, t) \<leftarrow> chxlen (Some b) t;
                  replace_loop (Some a) (Some b) (Some c) (Some z) (int k + (n - 1) + 1) t }
        else do { (_, t) \<leftarrow> chxcatval (Some z) (c_maxlen ca) (bval (x ! k)) s1;
                  replace_loop (Some a) (Some b) (Some c) (Some z) (int k + 1) t })"
      by (rule replace_loop_unfold [OF inv v(1,2) True])
    note t1 = chx_toD [OF s1]
    show ?thesis
    proof (cases "prefix y (drop k x)")
      case True
      obtain s2 where s2: "chxcat (Some z) (Some c) s1 = Some (1, s2)" "chx_to s1 ((sview s1)(z \<mapsto> acc @ w)) s2"
        using chxcat_ok [OF t1(1), of z acc c w] t1(2) v ne by auto
      note t2 = chx_toD [OF s2(2)]
      obtain s3 where s3: "chxlen (Some b) s2 = Some (int (length y), s3)" "chx_to s2 (sview s2) s3"
        using chxlen_ok [OF t2(1), of b y] t2(2) t1(2) v ne by auto
      note t3 = chx_toD [OF s3(2)]
      have len: "k + length y \<le> length x" using prefix_length_le [OF True] \<open>k < length x\<close> by simp
      have v3: "sview s3 = (sview s)(z \<mapsto> acc @ w)" using t1(2) t2(2) t3(2) by simp
      have "\<exists>s'. replace_loop (Some a) (Some b) (Some c) (Some z) (int (k + length y)) s3 = Some s' \<and>
          chx_to s3 ((sview s3)(z \<mapsto> (acc @ w) @ rep_all y w (drop (k + length y) x))) s'"
        by (rule less.hyps) (use t3(1) v3 v ne len y \<open>k < length x\<close> in \<open>auto simp: neq_Nil_conv\<close>)
      then obtain s4 where s4: "replace_loop (Some a) (Some b) (Some c) (Some z) (int (k + length y)) s3 = Some s4"
          "chx_to s3 ((sview s3)(z \<mapsto> (acc @ w) @ rep_all y w (drop (k + length y) x))) s4" by blast
      have "chx_to s ((sview s)(z \<mapsto> acc @ rep_all y w (drop k x))) s4"
        using chx_to_trans [OF s1 chx_to_trans [OF s2(2) chx_to_trans [OF s3(2) s4(2)]]] v3
          rep_all_simps(2) [OF y True, of w] by (simp add: add.commute)
      moreover have "replace_loop (Some a) (Some b) (Some c) (Some z) (int k) s = Some s4"
        using unf True s2(1) s3(1) s4(1) by simp
      ultimately show ?thesis by blast
    next
      case False
      have d: "drop k x = x ! k # drop (Suc k) x" using \<open>k < length x\<close> by (simp add: Cons_nth_drop_Suc)
      have "byte (bval (x ! k)) \<noteq> NUL" using live_no_NUL [OF v(1)] \<open>k < length x\<close> nth_mem by fastforce
      then obtain s2 where s2: "chxcatval (Some z) (c_maxlen ca) (bval (x ! k)) s1 = Some (1, s2)"
          "chx_to s1 ((sview s1)(z \<mapsto> acc @ [x ! k])) s2"
        using chxcatval_ok [OF t1(1), of z acc "bval (x ! k)" "c_maxlen ca"] t1(2) v(4) by auto
      note t2 = chx_toD [OF s2(2)]
      have v2: "sview s2 = (sview s)(z \<mapsto> acc @ [x ! k])" using t1(2) t2(2) by simp
      have "\<exists>s'. replace_loop (Some a) (Some b) (Some c) (Some z) (int (Suc k)) s2 = Some s' \<and>
          chx_to s2 ((sview s2)(z \<mapsto> (acc @ [x ! k]) @ rep_all y w (drop (Suc k) x))) s'"
        by (rule less.hyps) (use t2(1) v2 v ne \<open>k < length x\<close> in auto)
      then obtain s3 where s3: "replace_loop (Some a) (Some b) (Some c) (Some z) (int (Suc k)) s2 = Some s3"
          "chx_to s2 ((sview s2)(z \<mapsto> (acc @ [x ! k]) @ rep_all y w (drop (Suc k) x))) s3" by blast
      have "chx_to s ((sview s)(z \<mapsto> acc @ rep_all y w (drop k x))) s3"
        using chx_to_trans [OF s1 chx_to_trans [OF s2(2) s3(2)]] v2 False d
        by (simp add: rep_all_simps)
      moreover have "replace_loop (Some a) (Some b) (Some c) (Some z) (int k) s = Some s3"
        using unf False s2(1) s3(1) by (simp add: add.commute)
      ultimately show ?thesis by blast
    qed
  qed
qed

text \<open>The string \<open>chxreplace\<close> computes.\<close>

definition replace_str :: "string \<Rightarrow> int \<Rightarrow> string \<Rightarrow> string \<Rightarrow> string" where
  "replace_str x pos y w =
     (let i = index_of x pos y
      in if i < 0 then x else take (nat i) x @ rep_all y w (drop (nat i) x))"

lemma chxreplace_ok:
  assumes inv: "chx_inv s" and a: "sview s a = Some x" and b: "sview s b = Some y"
    and c: "sview s c = Some w" and pos: "0 \<le> pos"
  obtains s' where
    "chxreplace (Some a) pos (Some b) (Some c) s = Some (if index_of x pos y < 0 then 0 else 1, s')"
    "chx_to s ((sview s)(a \<mapsto> replace_str x pos y w)) s'"
proof -
  obtain s1 s2 s3 where g: "chxvalue (Some a) 0 s = Some (char_at x 0, s1)" "chx_to s (sview s) s1"
    "chxvalue (Some b) 0 s1 = Some (char_at y 0, s2)" "chx_to s (sview s) s2"
    "chxindex (Some a) pos (Some b) s2 = Some (index_of x pos y, s3)" "chx_to s (sview s) s3"
    "char_at x 0 = 0 \<longleftrightarrow> x = []" "char_at y 0 = 0 \<longleftrightarrow> y = []"
    by (rule guards_ok [OF inv a b pos])
  note t3 = chx_toD [OF g(6)]
  note v3 = t3(2)
  define i where "i = index_of x pos y"
  show thesis
  proof (cases "x = [] \<or> y = [] \<or> i < 0")
    case True
    then have neg: "i < 0" by (auto simp: i_def index_of_def)
    have "\<exists>t. chxreplace (Some a) pos (Some b) (Some c) s = Some (0, t) \<and> chx_to s (sview s) t"
      using True a b c g i_def by (cases "x = []"; cases "y = []") (auto simp: chxreplace_def inline_check_simps)
    then show thesis using that neg a by (auto simp: i_def replace_str_def map_upd_triv)
  next
    case False
    then have i0: "0 \<le> i" and i1: "nat i \<le> length x"
      using index_of_bound(2) [OF pos, of x y] by (auto simp: i_def)
    obtain ca where ca: "heap s3 a = Some ca" "c_type ca = THIN"
      using live_block [OF t3(1), of a x] v3 a by metis
    obtain cc where cc: "heap s3 c = Some cc" "c_type cc = THIN"
      using live_block [OF t3(1), of c w] v3 c by metis
    define z where "z = next_adr s3"
    have ne: "z \<noteq> a" "z \<noteq> b" "z \<noteq> c" using live_less [OF t3(1)] v3 a b c by (auto simp: z_def)
    obtain s4 where s4: "chxalloc (c_maxlen ca) (c_type ca) (c_name ca) s3 = (z, s4)"
        "chx_to s3 ((sview s3)(z \<mapsto> [])) s4"
      using chxalloc_ok [OF t3(1)] z_def by metis
    note t4 = chx_toD [OF s4(2)]
    obtain s5 where s5: "chxcatsub (Some z) (Some a) 0 i s4 = Some (1, s5)"
        "chx_to s4 ((sview s4)(z \<mapsto> take (nat i) x)) s5"
      using chxcatsub_ok [OF t4(1), of z "[]" a x 0 i] t4(2) v3 a ne i0 by (auto simp: sub_of_take)
    note t5 = chx_toD [OF s5(2)]
    obtain s6 where s6: "replace_loop (Some a) (Some b) (Some c) (Some z) i s5 = Some s6"
        "chx_to s5 ((sview s5)(z \<mapsto> take (nat i) x @ rep_all y w (drop (nat i) x))) s6"
      using replace_loop_ok [OF t5(1), of a x b y c w z "take (nat i) x" "nat i"]
        t5(2) t4(2) v3 a b c ne False i0 i1 by auto
    note t6 = chx_toD [OF s6(2)]
    have v6: "sview s6 = (sview s)(z \<mapsto> replace_str x pos y w)"
      using t6(2) t5(2) t4(2) v3 i0 by (simp add: replace_str_def i_def [symmetric] Let_def)
    have "blanks s6 = blanks s3" using t6(3) t5(3) t4(3) by (simp add: globs_def)
    then have nb: "blanks s6 \<noteq> Some z" using fresh_not_static(1) [OF t3(1)] by (simp add: z_def)
    obtain s7 where s7: "swap_free (Some a) z s6 = Some (1, s7)"
        "chx_to s6 ((sview s6)(a \<mapsto> replace_str x pos y w, z := None)) s7"
      using swap_free_ok [OF t6(1), of a x z "replace_str x pos y w"] v6 a ne nb by auto
    have "sview s z = None" using fresh_not_live [OF t3(1)] v3 by (simp add: z_def)
    then have "(sview s6)(a \<mapsto> replace_str x pos y w, z := None) = (sview s)(a \<mapsto> replace_str x pos y w)"
      using v6 ne(1) by (auto simp: fun_eq_iff)
    then have "chx_to s ((sview s)(a \<mapsto> replace_str x pos y w)) s7"
      using chx_to_trans [OF g(6) chx_to_trans [OF s4(2) chx_to_trans [OF s5(2) chx_to_trans [OF s6(2) s7(2)]]]]
      by simp
    moreover have "chxreplace (Some a) pos (Some b) (Some c) s = Some (1, s7)"
      using False a b c g i_def ca cc s4(1) s5(1) s6(1) s7(1)
      by (simp add: chxreplace_def inline_check_simps deref_simps resize_if_def Let_def)
    ultimately show thesis using that i0 by (simp add: i_def)
  qed
qed

text \<open>Runs of blanks squeezed to one blank: the result of the loop of \<open>chxsimplify\<close>.\<close>

fun squeeze :: "string \<Rightarrow> string" where
  "squeeze (c # d # x) = (if c = CHR '' '' \<and> d = CHR '' '' then squeeze (d # x) else c # squeeze (d # x))"
| "squeeze x = x"

lemma squeeze_pair: "squeeze (u @ ''  '' @ v) = squeeze (u @ '' '' @ v)"
proof (induction u)
  case Nil
  then show ?case by simp
next
  case (Cons c u)
  then show ?case by (cases u) auto
qed

lemma index_split:
  assumes "0 \<le> pos" and "0 \<le> index_of x pos y"
  shows "x = take (nat (index_of x pos y)) x @ y @ drop (nat (index_of x pos y) + length y) x"
proof -
  define i where "i = nat (index_of x pos y)"
  have "prefix y (drop i x)" using index_of_bound(3) [OF assms] by (simp add: i_def)
  then have "drop i x = y @ drop (i + length y) x"
    by (metis add.commute append_eq_conv_conj drop_drop prefix_def)
  then show ?thesis by (metis append_take_drop_id i_def)
qed

lemma squeeze_fix: "index_of x 0 ''  '' < 0 \<Longrightarrow> squeeze x = x"
proof -
  assume "index_of x 0 ''  '' < 0"
  then have "first_occ ''  '' x = None" by (auto simp: index_of_def split: option.splits)
  then show "squeeze x = x" by (induction x rule: squeeze.induct) (auto split: if_splits)
qed

lemma squeeze_step:
  assumes "0 \<le> index_of x 0 ''  ''"
  shows "squeeze (alter_str x 0 ''  '' '' '') = squeeze x" and "length (alter_str x 0 ''  '' '' '') < length x"
proof -
  define i where "i = nat (index_of x 0 ''  '')"
  have x: "x = take i x @ ''  '' @ drop (i + 2) x"
    using index_split [OF order.refl assms] by (simp add: i_def)
  have y: "alter_str x 0 ''  '' '' '' = take i x @ '' '' @ drop (i + 2) x"
    using assms by (simp add: alter_str_def i_def Let_def)
  show "squeeze (alter_str x 0 ''  '' '' '') = squeeze x" using squeeze_pair x y by metis
  have "length x = length (take i x @ ''  '' @ drop (i + 2) x)" using x by simp
  then show "length (alter_str x 0 ''  '' '' '') < length x" unfolding y by simp
qed

lemma simplify_loop_ok:
  assumes "chx_inv s" and "sview s a = Some x" and "sview s b2 = Some ''  ''" and "sview s b1 = Some '' ''"
    and "a \<noteq> b2" "a \<noteq> b1"
  shows "\<exists>s'. simplify_loop (Some a) (Some b2) (Some b1) s = Some s' \<and>
    chx_to s ((sview s)(a \<mapsto> squeeze x)) s'"
  using assms(1-4)
proof (induction "length x" arbitrary: x s rule: less_induct)
  case less
  obtain s1 where s1:
    "chxalter (Some a) 0 (Some b2) (Some b1) s = Some (if index_of x 0 ''  '' < 0 then 0 else 1, s1)"
    "chx_to s ((sview s)(a \<mapsto> alter_str x 0 ''  '' '' '')) s1"
    by (rule chxalter_ok [OF less.prems order.refl])
  note t1 = chx_toD [OF s1(2)]
  show ?case
  proof (cases "index_of x 0 ''  '' < 0")
    case True
    then have "alter_str x 0 ''  '' '' '' = squeeze x" by (simp add: alter_str_def squeeze_fix)
    then show ?thesis using s1 True by (subst simplify_loop.simps) auto
  next
    case False
    have "\<exists>s'. simplify_loop (Some a) (Some b2) (Some b1) s1 = Some s' \<and>
        chx_to s1 ((sview s1)(a \<mapsto> squeeze (alter_str x 0 ''  '' '' ''))) s'"
      by (rule less.hyps) (use False squeeze_step(2) t1 less.prems assms(5,6) in auto)
    then obtain s2 where s2: "simplify_loop (Some a) (Some b2) (Some b1) s1 = Some s2"
        "chx_to s1 ((sview s1)(a \<mapsto> squeeze x)) s2" using False squeeze_step(1) by auto
    have "chx_to s ((sview s)(a \<mapsto> squeeze x)) s2" using chx_to_trans [OF s1(2) s2(2)] t1(2) by simp
    then show ?thesis using s1(1) s2(1) False by (subst simplify_loop.simps) auto
  qed
qed

text \<open>What \<open>chxsimplify\<close> leaves: words separated by single blanks.\<close>

definition simplify_str :: "string \<Rightarrow> string" where
  "simplify_str x = strip_end (\<lambda>c. c = CHR '' '') (dropWhile (\<lambda>c. c = CHR '' '') (squeeze x))"

lemma squeeze_head: "hd (squeeze (CHR '' '' # x)) = CHR '' ''" "squeeze (CHR '' '' # x) \<noteq> []"
  by (induction "CHR '' '' # x" arbitrary: x rule: squeeze.induct) auto

lemma squeeze_two: "squeeze x \<noteq> CHR '' '' # CHR '' '' # r"
proof (induction x arbitrary: r rule: squeeze.induct)
  case (1 c d x)
  show ?case
  proof (cases "d = CHR '' ''")
    case True
    then show ?thesis using 1 by auto
  next
    case False
    have "hd (squeeze (d # x)) = d" for x using False by (cases x) auto
    then show ?thesis using 1 False by (auto; metis list.sel(1))
  qed
qed auto

lemma alter_first_blank:
  assumes "x = CHR '' '' # r" and "\<forall>q. x \<noteq> CHR '' '' # CHR '' '' # q"
  shows "alter_str x 0 '' '' '''' = dropWhile (\<lambda>c. c = CHR '' '') x"
  using assms by (cases r) (auto simp: alter_str_def index_of_def)

lemma chxsimplify_ok:
  assumes inv: "chx_inv s" and a: "sview s a = Some x"
    and slots: "ctab s ! 2 = Some b2" "ctab s ! 3 = Some b1" "ctab s ! 4 = Some b0"
    and live: "sview s b2 \<noteq> None" "sview s b1 \<noteq> None" "sview s b0 \<noteq> None"
    and ne: "distinct [a, b2, b1, b0]"
  obtains s' where "chxsimplify (Some a) s = Some (1, s')"
    "chx_to s ((sview s)(b2 \<mapsto> ''  '', b1 \<mapsto> '' '', b0 \<mapsto> '''', a \<mapsto> simplify_str x)) s'"
proof -
  have blank_ok: "NUL \<notin> set ''  ''" "NUL \<notin> set '' ''" "NUL \<notin> set ''''" by simp_all
  obtain x2 x1 x0 where x: "sview s b2 = Some x2" "sview s b1 = Some x1" "sview s b0 = Some x0" using live by blast
  obtain s1 where s1: "chxquick (Some ''  '') 2 s = Some (Some b2, s1)" "chx_to s ((sview s)(b2 \<mapsto> ''  '')) s1"
    using chxquick_ok [OF inv _ _ _ x(1) blank_ok(1), of 2] slots(1) by auto
  note t1 = chx_toD [OF s1(2)]
  have g1: "ctab s1 = ctab s" using t1(3) by (simp add: globs_def)
  obtain s2 where s2: "chxquick (Some '' '') 3 s1 = Some (Some b1, s2)" "chx_to s1 ((sview s1)(b1 \<mapsto> '' '')) s2"
    using chxquick_ok [OF t1(1) _ _ _ _ blank_ok(2), of 3 b1 x1] slots(2) g1 t1(2) x(2) ne by auto
  note t2 = chx_toD [OF s2(2)]
  have g2: "ctab s2 = ctab s" using t2(3) g1 by (simp add: globs_def)
  obtain s3 where s3: "chxquick (Some '''') 4 s2 = Some (Some b0, s3)" "chx_to s2 ((sview s2)(b0 \<mapsto> '''')) s3"
    using chxquick_ok [OF t2(1) _ _ _ _ blank_ok(3), of 4 b0 x0] slots(3) g2 t2(2) t1(2) x(3) ne by auto
  note t3 = chx_toD [OF s3(2)]
  have v3: "sview s3 = (sview s)(b2 \<mapsto> ''  '', b1 \<mapsto> '' '', b0 \<mapsto> '''')" using t1(2) t2(2) t3(2) by simp
  obtain s4 where s4: "simplify_loop (Some a) (Some b2) (Some b1) s3 = Some s4"
      "chx_to s3 ((sview s3)(a \<mapsto> squeeze x)) s4"
    using simplify_loop_ok [OF t3(1), of a x b2 b1] v3 a ne by auto
  note t4 = chx_toD [OF s4(2)]
  obtain s5 where s5: "chxvalue (Some a) 0 s4 = Some (char_at (squeeze x) 0, s5)" "chx_to s4 (sview s4) s5"
    using chxvalue_ok [OF t4(1), of a "squeeze x" 0] t4(2) by auto
  note t5 = chx_toD [OF s5(2)]
  let ?y = "dropWhile (\<lambda>c. c = CHR '' '') (squeeze x)"
  obtain s6 r where s6: "(if char_at (squeeze x) 0 = 32 then chxalter (Some a) 0 (Some b1) (Some b0) s5
      else Some (0, s5)) = Some (r, s6)" "chx_to s5 ((sview s5)(a \<mapsto> ?y)) s6"
  proof (cases "char_at (squeeze x) 0 = 32")
    case True
    have "bval (CHR '' '') = 32" by (simp add: bval_def)
    then obtain q where q: "squeeze x = CHR '' '' # q"
      using True by (cases "squeeze x") (auto simp: char_at_def, metis bval_inject)
    then have "alter_str (squeeze x) 0 '' '' '''' = ?y" using alter_first_blank [OF q] squeeze_two by blast
    then show thesis using chxalter_ok [OF t5(1), of a "squeeze x" b1 "'' ''" b0 "''''" 0 thesis]
        that t5(2) t4(2) v3 ne True by auto
  next
    case False
    then have "?y = squeeze x" by (cases "squeeze x") (auto simp: char_at_def bval_def)
    moreover have "sview s5 a = Some (squeeze x)" using t5(2) t4(2) by simp
    ultimately show thesis using that [of 0 s5] False chx_to_refl [OF t5(1)] by (simp add: map_upd_triv)
  qed
  note t6 = chx_toD [OF s6(2)]
  obtain s7 where s7: "chxtrim (Some a) s6 = Some (1, s7)" "chx_to s6 ((sview s6)(a \<mapsto> simplify_str x)) s7"
    using chxtrim_ok [OF t6(1), of a ?y] t6(2) by (auto simp: simplify_str_def)
  have "(sview s6)(a \<mapsto> simplify_str x) = (sview s)(b2 \<mapsto> ''  '', b1 \<mapsto> '' '', b0 \<mapsto> '''', a \<mapsto> simplify_str x)"
    using t6(2) t5(2) t4(2) v3 by simp
  then have "chx_to s ((sview s)(b2 \<mapsto> ''  '', b1 \<mapsto> '' '', b0 \<mapsto> '''', a \<mapsto> simplify_str x)) s7"
    using chx_to_trans [OF s1(2) chx_to_trans [OF s2(2) chx_to_trans [OF s3(2) chx_to_trans [OF s4(2)
          chx_to_trans [OF s5(2) chx_to_trans [OF s6(2) s7(2)]]]]]] by simp
  moreover have "chxsimplify (Some a) s = Some (1, s7)"
    using a s1(1) s2(1) s3(1) s4(1) s5(1) s6(1) s7(1) by (simp add: chxsimplify_def inline_check_simps)
  ultimately show thesis using that by blast
qed

section \<open>Contracts of reverse search, comparison, abbreviation and splitting\<close>

text \<open>The last occurrence of \<open>y\<close> that starts before \<open>n\<close>.\<close>

fun last_occ :: "string \<Rightarrow> string \<Rightarrow> nat \<Rightarrow> int" where
  "last_occ x y 0 = -1"
| "last_occ x y (Suc i) = (if prefix y (drop i x) then int i else last_occ x y i)"

lemma last_occ_spec:
  "last_occ x y n = -1 \<and> (\<forall>i < n. \<not> prefix y (drop i x)) \<or>
   (\<exists>k < n. last_occ x y n = int k \<and> prefix y (drop k x) \<and> (\<forall>i. k < i \<and> i < n \<longrightarrow> \<not> prefix y (drop i x)))"
proof (induction n)
  case 0
  then show ?case by simp
next
  case (Suc n)
  show ?case
  proof (cases "prefix y (drop n x)")
    case True
    then show ?thesis by (auto intro!: exI [of _ n])
  next
    case False
    then have "last_occ x y (Suc n) = last_occ x y n" by simp
    with Suc False show ?thesis by (metis less_Suc_eq)
  qed
qed

definition revdex_of :: "string \<Rightarrow> int \<Rightarrow> string \<Rightarrow> int" where
  "revdex_of x pos y =
     (if y = [] then -1
      else last_occ x y (nat ((if pos = ALLCHARS \<or> pos \<ge> int (length x) then int (length x) - 1 else pos) + 1)))"

lemma revdex_loop_eq:
  assumes r: "NUL \<in> set r" "cstr r = y"
    and p: "\<forall>i \<le> length x. NUL \<in> set (drop i p) \<and> cstr (drop i p) = drop i x"
    and y: "NUL \<notin> set y" and "n \<le> Suc (length x)"
  shows "revdex_loop p n r = Some (last_occ x y n)"
  using assms(5)
proof (induction n)
  case 0
  then show ?case by simp
next
  case (Suc i)
  have "chxscan p (int i) r 0 0 = (let (m, e) = scan_str (drop i x) y in Some (int m, e))"
    using chxscan_eq [of i p 0 r 0] p Suc.prems r by simp
  then show ?case using Suc scan_str_end [OF y, of "drop i x"] by (auto simp: split_beta Let_def)
qed

lemma chxrevdex_ok:
  assumes inv: "chx_inv s" and a: "sview s a = Some x" and b: "sview s b = Some y"
  obtains s' where "chxrevdex (Some a) pos (Some b) s = Some (revdex_of x pos y, s')" "chx_to s (sview s) s'"
proof -
  obtain s1 where s1: "chxvalue (Some b) 0 s = Some (char_at y 0, s1)" "chx_to s (sview s) s1"
    by (rule chxvalue_ok [OF inv b order.refl])
  note t1 = chx_toD [OF s1(2)]
  have a1: "sview s1 a = Some x" and b1: "sview s1 b = Some y" using t1 a b by auto
  have y0: "char_at y 0 = 0 \<longleftrightarrow> y = []" using char_at_eq_0 [OF live_no_NUL [OF b], of 0] by simp
  show thesis
  proof (cases "y = []")
    case True
    then show thesis using that [of s1] a b s1 y0
      by (simp add: chxrevdex_def inline_check_simps revdex_of_def)
  next
    case False
    obtain c where c: "heap s1 a = Some c" by (rule live_block [OF t1(1) a1])
    obtain s2 c2 n where s2: "(if c_actlen c < 0 then chxlen (Some a) s1 else Some (0, s1)) = Some (n, s2)"
        "chx_to s1 (sview s1) s2" "heap s2 a = Some c2" "c_actlen c2 = int (length x)"
      by (rule know_len [OF t1(1) a1 c])
    note t2 = chx_toD [OF s2(2)]
    have a2: "sview s2 a = Some x" and b2: "sview s2 b = Some y" using t2 a1 b1 by auto
    obtain p where p: "buf (Some a) s2 = Some p"
        "\<forall>i \<le> length x. NUL \<in> set (drop i p) \<and> cstr (drop i p) = drop i x"
      by (rule live_buf [OF t2(1) a2])
    obtain r where r: "buf (Some b) s2 = Some r" "cstr r = y" "NUL \<in> set r" by (rule live_buf [OF t2(1) b2])
    have cp: "c_p c2 = Some p" using p(1) s2(3) by (simp add: buf_def deref_simps)
    have lp: "n \<le> length x \<Longrightarrow> revdex_loop p n r = Some (last_occ x y n)" for n
      using revdex_loop_eq [OF r(3,2) p(2) live_no_NUL [OF b], of n] by simp
    have "chxrevdex (Some a) pos (Some b) s = Some (revdex_of x pos y, s2)"
      using a b s1(1) y0 False c s2(1,3,4) cp r(1)
      by (simp add: chxrevdex_def inline_check_simps deref_simps revdex_of_def lp Let_def nat_le_iff)
    then show thesis using that chx_to_read_trans [OF s1(2) s2(2)] by blast
  qed
qed

text \<open>The collating value of a character and the comparison \<open>chxcompare\<close> makes.\<close>

definition col :: "rule_t list \<Rightarrow> char \<Rightarrow> int" where
  "col rs c = apply_rules rs (bval c) (bval c)"

fun compare_str :: "rule_t list \<Rightarrow> string \<Rightarrow> string \<Rightarrow> int" where
  "compare_str rs [] [] = 0"
| "compare_str rs [] (d # y) = -1"
| "compare_str rs (c # x) [] = 1"
| "compare_str rs (c # x) (d # y) =
     (if c = d then compare_str rs x y
      else if col rs c > col rs d then 1 else if col rs c < col rs d then -1 else 0)"

definition compare_ends :: "rule_t list \<Rightarrow> int \<times> int \<Rightarrow> int" where
  "compare_ends rs e = (case e of (xe, ye) \<Rightarrow>
     if xe = 0 \<and> ye = 0 then 0 else if xe = 0 then -1 else if ye = 0 then 1
     else if apply_rules rs xe xe > apply_rules rs ye ye then 1
     else if apply_rules rs xe xe < apply_rules rs ye ye then -1 else 0)"

lemma compare_scan:
  "NUL \<notin> set x \<Longrightarrow> NUL \<notin> set y \<Longrightarrow> compare_ends rs (snd (scan_str x y)) = compare_str rs x y"
proof (induction x arbitrary: y)
  case Nil
  then show ?case by (cases y) (auto simp: compare_ends_def)
next
  case (Cons c x)
  show ?case
  proof (cases y)
    case Nil
    then show ?thesis using Cons.prems by (auto simp: compare_ends_def)
  next
    case (Cons d ys)
    have "c = d \<Longrightarrow> compare_ends rs (snd (scan_str x ys)) = compare_str rs x ys"
      using Cons.IH [of ys] Cons Cons.prems by simp
    then show ?thesis using Cons Cons.prems
      by (cases "c = d") (auto simp: compare_ends_def [of rs "(_, _)"] col_def split_beta Let_def)
  qed
qed

lemma chxcompare_ok:
  assumes inv: "chx_inv s" and a: "sview s a = Some x" and b: "sview s b = Some y"
  shows "chxcompare (Some a) (Some b) ALLCHARS s = Some (compare_str (rules s) x y, s)"
proof -
  obtain ca where ca: "heap s a = Some ca" "ISCHIX ca" "\<not> FREED ca" by (rule live_block [OF inv a]) simp
  obtain cb where cb: "heap s b = Some cb" "ISCHIX cb" "\<not> FREED cb" by (rule live_block [OF inv b]) simp
  obtain p where p: "buf (Some a) s = Some p" "cstr p = x" "NUL \<in> set p" by (rule live_buf [OF inv a])
  obtain r where r: "buf (Some b) s = Some r" "cstr r = y" "NUL \<in> set r" by (rule live_buf [OF inv b])
  have te: "text_or_empty (Some a) s = Some p" "text_or_empty (Some b) s = Some r"
    using p(1) r(1) ca cb by (simp_all add: text_or_empty_def buf_def deref_simps)
  obtain m e where e: "scan_str x y = (m, e)" by (cases "scan_str x y")
  then have "chxscan p 0 r 0 0 = Some (int m, e)"
    using chxscan_eq [of 0 p 0 r 0] p r by (simp add: Let_def)
  then have "chxcompare (Some a) (Some b) ALLCHARS s = Some (compare_ends (rules s) e, s)"
    using te by (cases e) (simp add: chxcompare_def chxcollate_def CLEAR_CT_def ADDRULE_CT_def APPLY_CT_def
        compare_ends_def Let_def split_beta)
  then show ?thesis using compare_scan [OF live_no_NUL [OF a] live_no_NUL [OF b], of "rules s"] e by simp
qed

lemma compare_antisym: "compare_str rs y x = - compare_str rs x y"
  by (induction rs x y rule: compare_str.induct) auto

lemma compare_lex:
  assumes "inj_on (col rs) (set x \<union> set y)"
  shows "compare_str rs x y =
    (if x = y then 0 else if (x, y) \<in> lexord {(c, d). col rs c < col rs d} then -1 else 1)"
  using assms
proof (induction rs x y rule: compare_str.induct)
  case (4 rs c x d y)
  then have "inj_on (col rs) (set x \<union> set y)" by (auto elim: inj_on_subset)
  moreover have "c \<noteq> d \<Longrightarrow> col rs c \<noteq> col rs d" using 4(2) by (auto simp: inj_on_def)
  ultimately show ?case using 4(1) by auto
qed auto

text \<open>The code for how two strings abbreviate each other.\<close>

definition abr_of :: "string \<Rightarrow> string \<Rightarrow> int" where
  "abr_of x y = (if x = [] \<or> y = [] then 0 else if prefix y x then 2 else if prefix x y then 1 else 0)"

lemma index_of_zero: "index_of x 0 y = 0 \<longleftrightarrow> x \<noteq> [] \<and> y \<noteq> [] \<and> prefix y x"
  by (cases x) (auto simp: index_of_def split: option.splits)

lemma chxabr_ok:
  assumes inv: "chx_inv s" and a: "sview s a = Some x" and b: "sview s b = Some y"
  obtains s' where "chxabr (Some a) (Some b) s = Some (abr_of x y, s')" "chx_to s (sview s) s'"
proof -
  obtain s1 where s1: "EMPTYCHX (Some a) s = Some (x = [], s1)" "chx_to s (sview s) s1"
    by (rule EMPTYCHX_ok [OF inv a])
  note t1 = chx_toD [OF s1(2)]
  obtain s2 where s2: "EMPTYCHX (Some b) s1 = Some (y = [], s2)" "chx_to s1 (sview s1) s2"
    using EMPTYCHX_ok [OF t1(1), of b y] t1(2) b by auto
  note t2 = chx_toD [OF s2(2)]
  obtain s3 where s3: "chxindex (Some a) 0 (Some b) s2 = Some (index_of x 0 y, s3)" "chx_to s2 (sview s2) s3"
    using chxindex_ok [OF t2(1), of a x b y 0] t2(2) t1(2) a b by auto
  note t3 = chx_toD [OF s3(2)]
  obtain s4 where s4: "chxindex (Some b) 0 (Some a) s3 = Some (index_of y 0 x, s4)" "chx_to s3 (sview s3) s4"
    using chxindex_ok [OF t3(1), of b y a x 0] t3(2) t2(2) t1(2) a b by auto
  note r2 = chx_to_read_trans [OF s1(2) s2(2)]
  note r3 = chx_to_read_trans [OF r2 s3(2)]
  note r4 = chx_to_read_trans [OF r3 s4(2)]
  have "\<exists>t. chxabr (Some a) (Some b) s = Some (abr_of x y, t) \<and> chx_to s (sview s) t"
    using a b s1 s2(1) s3(1) s4(1) r2 r3 r4
    by (auto simp: chxabr_def inline_check_simps abr_of_def index_of_zero)
  then show thesis using that by blast
qed

lemma chxbreak_ok:
  assumes inv: "chx_inv s" and a: "sview s a = Some x" and f: "sview s f = Some u" and t: "sview s t = Some v"
    and p: "sview s p = Some y" and ne: "f \<noteq> a" "t \<noteq> a" "f \<noteq> t" "f \<noteq> p" "t \<noteq> p"
  obtains s' where "chxbreak (Some a) (Some f) (Some t) (Some p) s = Some (if index_of x 0 y < 0 then 0 else 1, s')"
    "chx_to s ((sview s)(f \<mapsto> (if index_of x 0 y < 0 then x else take (nat (index_of x 0 y)) x),
       t \<mapsto> (if index_of x 0 y < 0 then [] else drop (nat (index_of x 0 y) + length y) x))) s'"
proof -
  define i where "i = index_of x 0 y"
  obtain s1 where s1: "chxclear (Some t) s = Some (1, s1)" "chx_to s ((sview s)(t \<mapsto> [])) s1"
    by (rule chxclear_ok [OF inv t])
  note t1 = chx_toD [OF s1(2)]
  obtain s2 where s2: "chxclear (Some f) s1 = Some (1, s2)" "chx_to s1 ((sview s1)(f \<mapsto> [])) s2"
    using chxclear_ok [OF t1(1), of f u] t1(2) f ne by auto
  note t2 = chx_toD [OF s2(2)]
  have v2: "sview s2 = (sview s)(t \<mapsto> [], f \<mapsto> [])" using t1(2) t2(2) by simp
  obtain s3 where s3: "chxindex (Some a) 0 (Some p) s2 = Some (i, s3)" "chx_to s2 (sview s2) s3"
    using chxindex_ok [OF t2(1), of a x p y 0] v2 a p ne by (auto simp: i_def)
  note t3 = chx_toD [OF s3(2)]
  note to3 = chx_to_trans [OF s1(2) chx_to_trans [OF s2(2) s3(2)]]
  note start = a f t p s1(1) s2(1) s3(1)
  show thesis
  proof (cases "i < 0")
    case True
    obtain s4 where s4: "chxcpy (Some f) (Some a) s3 = Some (1, s4)" "chx_to s3 ((sview s3)(f \<mapsto> x)) s4"
      using chxcpy_ok [OF t3(1), of f "[]" a x] t3(2) v2 a ne by auto
    have "chxbreak (Some a) (Some f) (Some t) (Some p) s = Some (0, s4)"
      using start True s4(1) by (simp add: chxbreak_def inline_check_simps)
    moreover have "chx_to s ((sview s)(f \<mapsto> x, t \<mapsto> [])) s4"
      using chx_to_trans [OF to3 s4(2)] t3(2) v2 ne by (simp add: fun_upd_twist)
    ultimately show thesis using that True by (simp add: i_def)
  next
    case False
    obtain s4 where s4: "chxlen (Some p) s3 = Some (int (length y), s4)" "chx_to s3 (sview s3) s4"
      using chxlen_ok [OF t3(1), of p y] t3(2) v2 p ne by auto
    note t4 = chx_toD [OF s4(2)]
    obtain s5 where s5: "chxcatsub (Some f) (Some a) 0 i s4 = Some (1, s5)"
        "chx_to s4 ((sview s4)(f \<mapsto> take (nat i) x)) s5"
      using chxcatsub_ok [OF t4(1), of f "[]" a x 0 i] t4(2) t3(2) v2 a ne False by (auto simp: sub_of_take)
    note t5 = chx_toD [OF s5(2)]
    obtain s6 where s6: "chxcatsub (Some t) (Some a) (i + int (length y)) ALLCHARS s5 = Some (1, s6)"
        "chx_to s5 ((sview s5)(t \<mapsto> drop (nat i + length y) x)) s6"
      using chxcatsub_ok [OF t5(1), of t "[]" a x "i + int (length y)" ALLCHARS] t5(2) t4(2) t3(2) v2 a ne False
      by (auto simp: sub_of_def nat_add_distrib)
    have "chxbreak (Some a) (Some f) (Some t) (Some p) s = Some (1, s6)"
      using start False s4(1) s5(1) s6(1) by (simp add: chxbreak_def inline_check_simps)
    moreover have "chx_to s ((sview s)(f \<mapsto> take (nat i) x, t \<mapsto> drop (nat i + length y) x)) s6"
      using chx_to_trans [OF to3 chx_to_trans [OF s4(2) chx_to_trans [OF s5(2) s6(2)]]]
        t5(2) t4(2) t3(2) v2 ne by (simp add: fun_upd_twist)
    ultimately show thesis using that False by (simp add: i_def)
  qed
qed

text \<open>Replacement from the start of a string, as a cut into pieces.\<close>

lemma replace_str_whole: "y \<noteq> [] \<Longrightarrow> replace_str x 0 y w = rep_all y w x"
proof -
  assume y: "y \<noteq> []"
  have skip: "rep_all y w x = take k x @ rep_all y w (drop k x)" if "k \<le> length x" "\<forall>j < k. \<not> prefix y (drop j x)" for k
    using that
  proof (induction k)
    case (Suc k)
    then have "drop k x = x ! k # drop (Suc k) x" by (simp add: Cons_nth_drop_Suc)
    moreover have "\<not> prefix y (drop k x)" using Suc.prems by simp
    ultimately have "rep_all y w (drop k x) = x ! k # rep_all y w (drop (Suc k) x)" by (simp add: rep_all_simps)
    then show ?case using Suc by (simp add: take_Suc_conv_app_nth)
  qed simp
  show ?thesis
  proof (cases "first_occ y x")
    case None
    then have "\<forall>j < length x. \<not> prefix y (drop j x)" by (simp add: first_occ_None)
    then have "rep_all y w x = x" using skip [of "length x"] by (simp add: rep_all_simps)
    then show ?thesis using None y by (simp add: replace_str_def index_of_def)
  next
    case (Some k)
    then show ?thesis using skip [of k] first_occ_Some [OF Some] y by (simp add: replace_str_def index_of_def)
  qed
qed

lemma rep_all_pieces:
  assumes "y \<noteq> []"
  obtains ps z where "x = concat (map (\<lambda>p. p @ y) ps) @ z" "rep_all y w x = concat (map (\<lambda>p. p @ w) ps) @ z"
      "\<forall>p \<in> set ps. \<forall>i < length p. \<not> prefix y (drop i (p @ y))" "\<forall>i < length z. \<not> prefix y (drop i z)"
      "index_of x 0 y < 0 \<longleftrightarrow> ps = []"
proof (induction "length x" arbitrary: x thesis rule: less_induct)
  case less
  show ?case
  proof (cases "first_occ y x")
    case None
    then have none: "\<forall>i < length x. \<not> prefix y (drop i x)" by (simp add: first_occ_None)
    moreover have "rep_all y w x = x"
      using None replace_str_whole [OF assms, of x w] by (simp add: replace_str_def index_of_def split: if_splits)
    ultimately show ?thesis using less.prems [of "[]" x] None by (simp add: index_of_def)
  next
    case (Some k)
    note f = first_occ_Some [OF Some]
    define p where "p = take k x"
    obtain r where r: "drop k x = y @ r" using f by (auto simp: prefix_def)
    have len: "length p = k" using f by (simp add: p_def)
    have x: "x = p @ y @ r" using r by (metis append_take_drop_id p_def)
    have "rep_all y w x = p @ rep_all y w (drop k x)"
      using replace_str_whole [OF assms, of x w] Some assms by (simp add: replace_str_def index_of_def p_def)
    then have rx: "rep_all y w x = p @ w @ rep_all y w r" using rep_all_simps(2) [OF assms, of "drop k x" w] r by simp
    have pre: "\<not> prefix y (drop i (p @ y))" if "i < length p" for i
    proof
      assume "prefix y (drop i (p @ y))"
      then have "prefix y (drop i (p @ y) @ r)" by (rule prefix_prefix)
      then show False using f x that len by simp
    qed
    have lr: "length r < length x" using x assms by simp
    obtain ps z where "r = concat (map (\<lambda>p. p @ y) ps) @ z" "rep_all y w r = concat (map (\<lambda>p. p @ w) ps) @ z"
      "\<forall>p \<in> set ps. \<forall>i < length p. \<not> prefix y (drop i (p @ y))" "\<forall>i < length z. \<not> prefix y (drop i z)"
      "index_of r 0 y < 0 \<longleftrightarrow> ps = []" by (rule less.hyps [OF lr])
    then show ?thesis using less.prems [of "p # ps" z] x rx pre Some assms by (simp add: index_of_def)
  qed
qed

section \<open>Properties\<close>

text \<open>
  C8. \<open>chxindex (a, pos, b)\<close> finds the first occurrence: it returns -1 exactly when the nonempty string
  \<open>b\<close> occurs nowhere in \<open>a\<close> at or behind \<open>pos\<close>, and otherwise the smallest position where it does; the empty
  string is never found, and no string of the store changes.
\<close>

theorem chxindex_first:
  assumes "chx_inv s" and "sview s a = Some x" and "sview s b = Some y" and "0 \<le> pos"
  shows "\<exists>i s'. chxindex (Some a) pos (Some b) s = Some (i, s') \<and> chx_inv s' \<and> sview s' = sview s \<and>
    (if y = [] then i = -1
     else (i = -1 \<and> (\<forall>k. nat pos \<le> k \<and> k < length x \<longrightarrow> \<not> prefix y (drop k x))) \<or>
          (pos \<le> i \<and> i < int (length x) \<and> prefix y (drop (nat i) x) \<and>
           (\<forall>k. nat pos \<le> k \<and> k < nat i \<longrightarrow> \<not> prefix y (drop k x))))"
proof -
  obtain s' where s': "chxindex (Some a) pos (Some b) s = Some (index_of x pos y, s')" "chx_to s (sview s) s'"
    by (rule chxindex_ok [OF assms])
  have shift: "drop (nat pos + j) x = drop j (drop (nat pos) x)" for j by (simp add: add.commute)
  have "if y = [] then index_of x pos y = -1
     else (index_of x pos y = -1 \<and> (\<forall>k. nat pos \<le> k \<and> k < length x \<longrightarrow> \<not> prefix y (drop k x))) \<or>
          (pos \<le> index_of x pos y \<and> index_of x pos y < int (length x) \<and> prefix y (drop (nat (index_of x pos y)) x) \<and>
           (\<forall>k. nat pos \<le> k \<and> k < nat (index_of x pos y) \<longrightarrow> \<not> prefix y (drop k x)))"
  proof (cases "first_occ y (drop (nat pos) x)")
    case None
    have "\<not> prefix y (drop k x)" if "nat pos \<le> k" "k < length x" for k
    proof -
      have "k - nat pos < length (drop (nat pos) x)" using that by simp
      then show ?thesis using None [unfolded first_occ_None] that by (metis shift le_add_diff_inverse)
    qed
    then show ?thesis using None by (simp add: index_of_def)
  next
    case (Some k)
    note f = first_occ_Some [OF Some]
    have "\<not> prefix y (drop j x)" if "nat pos \<le> j" "j < nat pos + k" for j
      using f that by (metis shift add_less_cancel_left le_add_diff_inverse)
    moreover have "nat (pos + int k) = nat pos + k" using assms(4) by simp
    moreover have "pos + int k < int (length x)" using f assms(4) by auto
    ultimately show ?thesis using Some f assms(4) by (simp add: index_of_def shift)
  qed
  then show ?thesis using s' chx_toD(1,2) [OF s'(2)] by blast
qed

theorem chxindex_first_witness:
  "\<exists>i s'. chxindex (Some 1) 0 (Some 2) (store_of [''banana'', ''an'']) = Some (i, s') \<and> chx_inv s' \<and>
     sview s' = sview (store_of [''banana'', ''an'']) \<and>
    (if ''an'' = [] then i = -1
     else (i = -1 \<and> (\<forall>k. nat 0 \<le> k \<and> k < length ''banana'' \<longrightarrow> \<not> prefix ''an'' (drop k ''banana''))) \<or>
          (0 \<le> i \<and> i < int (length ''banana'') \<and> prefix ''an'' (drop (nat i) ''banana'') \<and>
           (\<forall>k. nat 0 \<le> k \<and> k < nat i \<longrightarrow> \<not> prefix ''an'' (drop k ''banana''))))"
  by (rule chxindex_first) (simp_all add: store_of_inv store_of_sview)

text \<open>
  \<open>chxrevdex (a, pos, b)\<close> finds the last occurrence that starts at or before \<open>pos\<close> (\<open>ALLCHARS\<close> for the
  end of the string), or returns -1 when there is none.
\<close>

theorem chxrevdex_last:
  assumes "chx_inv s" and "sview s a = Some x" and "sview s b = Some y" and "y \<noteq> []" and "0 \<le> pos"
  shows "\<exists>i s'. chxrevdex (Some a) pos (Some b) s = Some (i, s') \<and> chx_inv s' \<and> sview s' = sview s \<and>
    ((i = -1 \<and> (\<forall>k. k \<le> nat pos \<and> k < length x \<longrightarrow> \<not> prefix y (drop k x))) \<or>
     (0 \<le> i \<and> i \<le> pos \<and> i < int (length x) \<and> prefix y (drop (nat i) x) \<and>
      (\<forall>k. nat i < k \<and> k \<le> nat pos \<and> k < length x \<longrightarrow> \<not> prefix y (drop k x))))"
proof -
  obtain s' where s': "chxrevdex (Some a) pos (Some b) s = Some (revdex_of x pos y, s')" "chx_to s (sview s) s'"
    by (rule chxrevdex_ok [OF assms(1-3)])
  define n where "n = nat ((if pos = ALLCHARS \<or> pos \<ge> int (length x) then int (length x) - 1 else pos) + 1)"
  have n: "k < n \<longleftrightarrow> k \<le> nat pos \<and> k < length x" for k using assms(5) by (auto simp: n_def ALLCHARS_def)
  have "revdex_of x pos y = last_occ x y n" using assms(4) by (simp add: revdex_of_def n_def)
  then show ?thesis
    using last_occ_spec [of x y n] s' chx_toD(1,2) [OF s'(2)] assms(5) n
    by (intro exI [of _ "last_occ x y n"] exI [of _ s']) auto
qed

theorem chxrevdex_last_witness:
  "\<exists>i s'. chxrevdex (Some 1) 5 (Some 2) (store_of [''banana'', ''an'']) = Some (i, s') \<and> chx_inv s' \<and>
     sview s' = sview (store_of [''banana'', ''an'']) \<and>
    ((i = -1 \<and> (\<forall>k. k \<le> nat 5 \<and> k < length ''banana'' \<longrightarrow> \<not> prefix ''an'' (drop k ''banana''))) \<or>
     (0 \<le> i \<and> i \<le> 5 \<and> i < int (length ''banana'') \<and> prefix ''an'' (drop (nat i) ''banana'') \<and>
      (\<forall>k. nat i < k \<and> k \<le> nat 5 \<and> k < length ''banana'' \<longrightarrow> \<not> prefix ''an'' (drop k ''banana''))))"
  by (rule chxrevdex_last) (simp_all add: store_of_inv store_of_sview)

text \<open>
  C9. \<open>chxreplace (a, 0, b, c)\<close> replaces every occurrence, left to right and without rescanning what it put
  in: cut at the occurrences of \<open>b\<close>, the old string and the new one have the same pieces, and the last piece
  holds no further occurrence. It holds for all aliasing of the three arguments.
\<close>

theorem chxreplace_all:
  assumes "chx_inv s" and "sview s a = Some x" and "sview s b = Some y" and "sview s c = Some w" and "y \<noteq> []"
  shows "\<exists>ps z s'. chxreplace (Some a) 0 (Some b) (Some c) s = Some (if ps = [] then 0 else 1, s') \<and>
    x = concat (map (\<lambda>p. p @ y) ps) @ z \<and> chx_inv s' \<and>
    sview s' = (sview s)(a \<mapsto> concat (map (\<lambda>p. p @ w) ps) @ z) \<and>
    (\<forall>p \<in> set ps. \<forall>i < length p. \<not> prefix y (drop i (p @ y))) \<and> (\<forall>i < length z. \<not> prefix y (drop i z))"
proof -
  obtain s' where s': "chxreplace (Some a) 0 (Some b) (Some c) s = Some (if index_of x 0 y < 0 then 0 else 1, s')"
    "chx_to s ((sview s)(a \<mapsto> replace_str x 0 y w)) s'"
    by (rule chxreplace_ok [OF assms(1-4) order.refl])
  obtain ps z where pz: "x = concat (map (\<lambda>p. p @ y) ps) @ z" "rep_all y w x = concat (map (\<lambda>p. p @ w) ps) @ z"
      "\<forall>p \<in> set ps. \<forall>i < length p. \<not> prefix y (drop i (p @ y))" "\<forall>i < length z. \<not> prefix y (drop i z)"
      "index_of x 0 y < 0 \<longleftrightarrow> ps = []"
    by (rule rep_all_pieces [OF assms(5)])
  have "replace_str x 0 y w = concat (map (\<lambda>p. p @ w) ps) @ z"
    using pz replace_str_whole [OF assms(5)] by simp
  then show ?thesis using s' pz chx_toD(1,2) [OF s'(2)]
    by (intro exI [of _ ps] exI [of _ z] exI [of _ s']) simp
qed

theorem chxreplace_all_witness:
  "\<exists>ps z s'. chxreplace (Some 1) 0 (Some 2) (Some 1) (store_of [''a.b'', ''.'']) = Some (if ps = [] then 0 else 1, s') \<and>
    ''a.b'' = concat (map (\<lambda>p. p @ ''.'') ps) @ z \<and> chx_inv s' \<and>
    sview s' = (sview (store_of [''a.b'', ''.'']))(1 \<mapsto> concat (map (\<lambda>p. p @ ''a.b'') ps) @ z) \<and>
    (\<forall>p \<in> set ps. \<forall>i < length p. \<not> prefix ''.'' (drop i (p @ ''.''))) \<and> (\<forall>i < length z. \<not> prefix ''.'' (drop i z))"
  by (rule chxreplace_all) (simp_all add: store_of_inv store_of_sview)

text \<open>
  \<open>chxbreak (a, front, back, pattern)\<close> splits at the first occurrence of the pattern: joining the two
  parts with the pattern gives the old string back, and the pattern does not occur in \<open>a\<close> before the
  split. Without an occurrence the front is the whole string and the back is empty.
\<close>

theorem chxbreak_splits:
  assumes "chx_inv s" and "sview s a = Some x" and "sview s f = Some u" and "sview s t = Some v"
    and "sview s p = Some y" and "f \<noteq> a" and "t \<noteq> a" and "f \<noteq> t" and "f \<noteq> p" and "t \<noteq> p"
  shows "\<exists>r s' front back. chxbreak (Some a) (Some f) (Some t) (Some p) s = Some (r, s') \<and> chx_inv s' \<and>
    sview s' = (sview s)(f \<mapsto> front, t \<mapsto> back) \<and>
    (r = 0 \<and> front = x \<and> back = [] \<and> (y = [] \<or> (\<forall>i < length x. \<not> prefix y (drop i x))) \<or>
     r = 1 \<and> front @ y @ back = x \<and> (\<forall>i < length front. \<not> prefix y (drop i x)))"
proof -
  let ?i = "index_of x 0 y"
  obtain s' where s': "chxbreak (Some a) (Some f) (Some t) (Some p) s = Some (if ?i < 0 then 0 else 1, s')"
    "chx_to s ((sview s)(f \<mapsto> (if ?i < 0 then x else take (nat ?i) x),
       t \<mapsto> (if ?i < 0 then [] else drop (nat ?i + length y) x))) s'"
    by (rule chxbreak_ok [OF assms])
  note t = chx_toD(1,2) [OF s'(2)]
  show ?thesis
  proof (cases "first_occ y x")
    case None
    then have "?i < 0" by (simp add: index_of_def)
    then show ?thesis using s'(1) t None by (simp add: first_occ_None)
  next
    case (Some k)
    note f = first_occ_Some [OF Some]
    show ?thesis
    proof (cases "y = []")
      case True
      then show ?thesis using s'(1) t by (simp add: index_of_def)
    next
      case False
      then have i: "?i = int k" using Some by (simp add: index_of_def)
      obtain r where "drop k x = y @ r" using f by (auto simp: prefix_def)
      then have "x = take k x @ y @ drop (k + length y) x" by (metis append_take_drop_id append_eq_conv_conj drop_drop add.commute)
      moreover have "length (take k x) = k" using f by simp
      ultimately show ?thesis using s'(1) t i f
        by (intro exI [of _ 1] exI [of _ s'] exI [of _ "take k x"] exI [of _ "drop (k + length y) x"]) simp
    qed
  qed
qed

theorem chxbreak_splits_witness:
  "\<exists>r s' front back. chxbreak (Some 1) (Some 2) (Some 3) (Some 4) (store_of [''me@home'', ''u'', ''v'', ''@'']) = Some (r, s') \<and> chx_inv s' \<and>
    sview s' = (sview (store_of [''me@home'', ''u'', ''v'', ''@'']))(2 \<mapsto> front, 3 \<mapsto> back) \<and>
    (r = 0 \<and> front = ''me@home'' \<and> back = [] \<and> (''@'' = [] \<or> (\<forall>i < length ''me@home''. \<not> prefix ''@'' (drop i ''me@home''))) \<or>
     r = 1 \<and> front @ ''@'' @ back = ''me@home'' \<and> (\<forall>i < length front. \<not> prefix ''@'' (drop i ''me@home'')))"
  by (rule chxbreak_splits) (simp_all add: store_of_inv store_of_sview nth_Cons')

end
