(* ===== verification/ChixToken.thy ===== *)
theory ChixToken
  imports ChixSearch
begin

text \<open>
  Taking chix apart (\<open>CV2/chx\<close>): the special-character registry \<open>chxspecial\<close>, the blank tables the
  scanners build on their first call, \<open>chxblank\<close>, \<open>chxtoken\<close>, \<open>chxnextword\<close>, \<open>chxnextline\<close>, the
  number readers \<open>chxint4\<close> and \<open>chxnum\<close>, the start-up routine \<open>chx_init\<close>, and the copies out to C
  strings \<open>ascofchx\<close>, \<open>ascquick\<close> and \<open>asciifull\<close>. A pointer argument \<open>int4 *pos\<close> is passed in and
  returned as an integer.
\<close>

section \<open>Special characters and blank tables\<close>

definition SC_GET :: int where "SC_GET = 0"
definition SC_SET :: int where "SC_SET = 1"
definition SC_BLANK :: int where "SC_BLANK = 2"

definition chxspecial :: "int \<Rightarrow> int \<Rightarrow> Chix \<Rightarrow> chx_state \<Rightarrow> (int \<times> chx_state) option" where
  "chxspecial op type a s =
     (if op \<noteq> SC_SET \<and> op \<noteq> SC_GET then Some (0, s)
      else do {
        (ok, s) \<leftarrow> inline_check ''chxspecial'' [a] s;
        if \<not> ok then Some (0, s)
        else do {
          let s = (if blanks s = nullchix
                   then let (z, s) = chxalloc 16 THIN ''chxspecial blanks'' s in s\<lparr>blanks := Some z\<rparr>
                   else s);
          if type = SC_BLANK then do {
            (_, s) \<leftarrow> (if op = SC_SET then chxcpy (blanks s) a s else chxcpy a (blanks s) s);
            Some (1, s) }
          else Some (0, s) } })"

text \<open>\<open>for (j = 0; (list[j] = chxvalue (x, j)); ++j)\<close>: the characters of a chix as a list.\<close>

partial_function (option) list_loop :: "Chix \<Rightarrow> int \<Rightarrow> chx_state \<Rightarrow> (string \<times> chx_state) option" where
  "list_loop x j s = do {
     (v, s) \<leftarrow> chxvalue x j s;
     if v = 0 then Some ([], s)
     else do { (r, s) \<leftarrow> list_loop x (j + 1) s; Some (byte v # r, s) } }"

text \<open>
  The first-call initialisation \<open>chxblank\<close>, \<open>chxtoken\<close> and \<open>chxint4\<close> share, each for its own static
  table: \<open>blanktab[c]\<close> is set for the characters of the list. The list is what the table keeps here.
\<close>

definition fill_blanks :: "chx_state \<Rightarrow> (string \<times> chx_state) option" where
  "fill_blanks s = (let (b, s) = chxalloc 16 THIN ''chxtoken blanks'' s in do {
     (_, s) \<leftarrow> chxspecial SC_GET SC_BLANK (Some b) s;
     (v, s) \<leftarrow> chxvalue (Some b) 0 s;
     (_, s) \<leftarrow> (if v = 0 then chxcatval (Some b) THIN 32 s else Some (1, s));
     (_, s) \<leftarrow> chxlen (Some b) s;
     (bl, s) \<leftarrow> list_loop (Some b) 0 s;
     (_, s) \<leftarrow> chxfree (Some b) s;
     Some (bl, s) })"

definition in_tab :: "string \<Rightarrow> char \<Rightarrow> bool" where
  "in_tab bl c \<longleftrightarrow> c \<in> set bl"

definition chxblank :: "int \<Rightarrow> chx_state \<Rightarrow> (int \<times> chx_state) option" where
  "chxblank cval s = do {
     (bl, s) \<leftarrow> (case tab_blank s of Some bl \<Rightarrow> Some (bl, s)
       | None \<Rightarrow> do { (bl, s) \<leftarrow> fill_blanks s; Some (bl, s\<lparr>tab_blank := Some bl\<rparr>) });
     if 0 \<le> cval \<and> cval < 256 then Some (if in_tab bl (byte cval) then 1 else 0, s) else None }"

section \<open>Tokens, words and lines\<close>

text \<open>An optional chix argument: checked for the freed mark and the magic number only.\<close>

definition opt_check :: "string \<Rightarrow> Chix \<Rightarrow> chx_state \<Rightarrow> (bool \<times> chx_state) option" where
  "opt_check fn x s = (if x = nullchix then Some (True, s) else inline_check fn [x] s)"

definition opt_clear :: "Chix \<Rightarrow> chx_state \<Rightarrow> (int \<times> chx_state) option" where
  "opt_clear x s = (if x = nullchix then Some (0, s) else chxclear x s)"

partial_function (option) token_loop ::
  "Chix \<Rightarrow> int \<Rightarrow> int \<Rightarrow> string \<Rightarrow> Chix \<Rightarrow> int \<Rightarrow> int \<Rightarrow> bool \<Rightarrow> int \<Rightarrow> chx_state \<Rightarrow> (int \<times> chx_state) option" where
  "token_loop word n ltype bl line i w between start s = do {
     p \<leftarrow> buf line s;
     c \<leftarrow> rd p i;
     if c = NUL then Some (start, s)
     else if in_tab bl c then
       (if w \<ge> n then Some (start, s)
        else token_loop word n ltype bl line (i + 1) w True start s)
     else do {
       let w' = (if between then w + 1 else w);
       let start' = (if between \<and> w' = n then i else start);
       (_, s) \<leftarrow> (if w' = n \<and> word \<noteq> nullchix then chxcatval word ltype (bval c) s else Some (1, s));
       token_loop word n ltype bl line (i + 1) w' False start' s } }"

definition chxtoken :: "Chix \<Rightarrow> Chix \<Rightarrow> int \<Rightarrow> Chix \<Rightarrow> chx_state \<Rightarrow> (int \<times> chx_state) option" where
  "chxtoken word rest n line s = do {
     (ok, s) \<leftarrow> opt_check ''chxtoken'' word s;
     if \<not> ok then Some (-1, s) else do {
     (ok, s) \<leftarrow> opt_check ''chxtoken'' rest s;
     if \<not> ok then Some (-1, s) else do {
     (ok, s) \<leftarrow> inline_check ''chxtoken'' [line] s;
     if \<not> ok then Some (-1, s) else do {
     (bl, s) \<leftarrow> (case tab_token s of Some bl \<Rightarrow> Some (bl, s)
       | None \<Rightarrow> do { (bl, s) \<leftarrow> fill_blanks s; Some (bl, s\<lparr>tab_token := Some bl\<rparr>) });
     (_, s) \<leftarrow> opt_clear word s;
     (_, s) \<leftarrow> opt_clear rest s;
     (ltype, s) \<leftarrow> chxtype line s;
     (start, s) \<leftarrow> token_loop word n ltype bl line 0 0 True (-1) s;
     if start < 0 then Some (-1, s)
     else do {
       (_, s) \<leftarrow> (if rest \<noteq> nullchix then chxcatsub rest line start ALLCHARS s else Some (1, s));
       Some (start, s) } } } } }"

text \<open>\<open>for (ptr = *pos; (c = text->p[ptr]); ++ptr) if (NOT blanktab[c]) break;\<close>\<close>

function skip_loop :: "string \<Rightarrow> char list \<Rightarrow> int \<Rightarrow> (int \<times> char) option" where
  "skip_loop bl p i =
     (case rd p i of None \<Rightarrow> None
      | Some c \<Rightarrow> if c = NUL \<or> \<not> in_tab bl c then Some (i, c) else skip_loop bl p (i + 1))"
  by pat_completeness auto
termination
  by (relation "measure (\<lambda>(bl, p, i). length p - nat i)") (auto simp: rd_def split: if_splits)

declare skip_loop.simps [simp del]

partial_function (option) word_loop ::
  "Chix \<Rightarrow> Chix \<Rightarrow> int \<Rightarrow> string \<Rightarrow> int \<Rightarrow> chx_state \<Rightarrow> (int \<times> chx_state) option" where
  "word_loop word text ttype bl i s = do {
     p \<leftarrow> buf text s;
     c \<leftarrow> rd p i;
     if c = NUL \<or> in_tab bl c then Some (i, s)
     else do {
       (_, s) \<leftarrow> chxcatval word ttype (bval c) s;
       word_loop word text ttype bl (i + 1) s } }"

definition chxnextword :: "Chix \<Rightarrow> Chix \<Rightarrow> int \<Rightarrow> chx_state \<Rightarrow> (int \<times> int \<times> chx_state) option" where
  "chxnextword word text pos s = do {
     (ok, s) \<leftarrow> inline_check ''chxnextw'' [word, text] s;
     if \<not> ok then Some (-1, pos, s) else do {
     (bl, s) \<leftarrow> (case tab_nextw s of Some bl \<Rightarrow> Some (bl, s)
       | None \<Rightarrow> do {
           (_, s) \<leftarrow> chxspecial SC_GET SC_BLANK word s;
           (v, s) \<leftarrow> chxvalue word 0 s;
           (_, s) \<leftarrow> (if v = 0 then chxcatval word THIN 32 s else Some (1, s));
           (_, s) \<leftarrow> chxcatval word THIN 10 s;
           (_, s) \<leftarrow> chxcatval word THIN 9 s;
           (_, s) \<leftarrow> chxlen word s;
           (bl, s) \<leftarrow> list_loop word 0 s;
           Some (bl, s\<lparr>tab_nextw := Some bl\<rparr>) });
     p \<leftarrow> buf text s;
     (ptr, c) \<leftarrow> skip_loop bl p pos;
     if c = NUL then Some (-1, ptr, s)
     else do {
       (ttype, s) \<leftarrow> chxtype text s;
       (_, s) \<leftarrow> chxclear word s;
       (_, s) \<leftarrow> chxcatval word ttype (bval c) s;
       (fin, s) \<leftarrow> word_loop word text ttype bl (ptr + 1) s;
       Some (ptr, fin, s) } } }"

text \<open>\<open>for (newline = count = 0; 1; bp++, ++count)\<close>: up to the next newline or the end of the string.\<close>

function line_loop :: "char list \<Rightarrow> int \<Rightarrow> int \<Rightarrow> (int \<times> int) option" where
  "line_loop p i count =
     (case rd p i of None \<Rightarrow> None
      | Some c \<Rightarrow> if c = CHR 0x0A then Some (count, 1) else if c = NUL then Some (count, 0)
                 else line_loop p (i + 1) (count + 1))"
  by pat_completeness auto
termination
  by (relation "measure (\<lambda>(p, i, n). length p - nat i)") (auto simp: rd_def split: if_splits)

declare line_loop.simps [simp del]

definition chxnextline :: "Chix \<Rightarrow> Chix \<Rightarrow> int \<Rightarrow> chx_state \<Rightarrow> (int \<times> int \<times> chx_state) option" where
  "chxnextline a b pos s = do {
     (ok, s) \<leftarrow> inline_check ''chxnextline'' [a] s;
     if \<not> ok then Some (0, pos, s)
     else if b = nullchix then do { (_, s) \<leftarrow> chxclear a s; Some (0, pos, s) }
     else do {
     (ok, s) \<leftarrow> inline_check ''chxnextline'' [b] s;
     if \<not> ok then Some (0, pos, s) else do {
     p \<leftarrow> buf b s;
     (count, newline) \<leftarrow> line_loop p pos 0;
     if count + newline = 0 then Some (0, pos, s)
     else do {
       (_, s) \<leftarrow> chxclear a s;
       ca \<leftarrow> deref a s;
       cb \<leftarrow> deref b s;
       (_, s) \<leftarrow> resize_if (c_maxlen ca < count + 5) a (c_type cb) (count + 10) s;
       s \<leftarrow> capc_chix a 0 b pos count s;
       s \<leftarrow> set_actlen a (-1) s;
       Some (1 + newline, pos + count + newline, s) } } } }"

section \<open>Numbers\<close>

definition digit :: "int \<Rightarrow> bool" where
  "digit c \<longleftrightarrow> 48 \<le> c \<and> c \<le> 57"

partial_function (option) blank_skip :: "string \<Rightarrow> Chix \<Rightarrow> int \<Rightarrow> chx_state \<Rightarrow> (int \<times> chx_state) option" where
  "blank_skip bl a j s = do {
     (v, s) \<leftarrow> chxvalue a j s;
     if in_tab bl (byte v) then blank_skip bl a (j + 1) s else Some (j, s) }"

partial_function (option) digit_loop ::
  "Chix \<Rightarrow> int \<Rightarrow> int \<Rightarrow> chx_state \<Rightarrow> (int \<times> int \<times> chx_state) option" where
  "digit_loop a j result s = do {
     (c, s) \<leftarrow> chxvalue a j s;
     if digit c then digit_loop a (j + 1) (wrap32 (10 * result + (c - 48))) s
     else Some (j, result, s) }"

definition chxint4 :: "Chix \<Rightarrow> int option \<Rightarrow> chx_state \<Rightarrow> (int \<times> int option \<times> chx_state) option" where
  "chxint4 a i s = do {
     (bl, s) \<leftarrow> (case tab_int4 s of Some bl \<Rightarrow> Some (bl, s)
       | None \<Rightarrow> do { (bl, s) \<leftarrow> fill_blanks s; Some (bl, s\<lparr>tab_int4 := Some bl\<rparr>) });
     (ok, s) \<leftarrow> inline_check ''chxint4'' [a] s;
     if \<not> ok then Some (0, i, s)
     else case i of
       None \<Rightarrow> Some (0, None, s)
     | Some i0 \<Rightarrow> do {
         c \<leftarrow> deref a s;
         if i0 < 0 \<or> i0 \<ge> c_maxlen c then Some (0, i, s)
         else do {
           (j, s) \<leftarrow> blank_skip bl a i0 s;
           (sign, s) \<leftarrow> chxvalue a j s;
           let j0 = (if sign = 45 \<or> sign = 43 then j + 1 else j);
           (j, result, s) \<leftarrow> digit_loop a j0 0 s;
           if j0 = j then Some (0, i, s)
           else Some (if sign = 45 then wrap32 (- result) else result, Some j, s) } } }"

definition chxnum :: "Chix \<Rightarrow> int option \<Rightarrow> chx_state \<Rightarrow> (int \<times> int option \<times> chx_state) option" where
  "chxnum a v s = do {
     (ok, s) \<leftarrow> inline_check ''chxnum'' [a] s;
     if \<not> ok then Some (0, v, s)
     else if v = None then Some (0, v, s)
     else do {
       (r, i, s) \<leftarrow> chxint4 a (Some 0) s;
       Some (if i \<noteq> Some 0 then 1 else 0, Some r, s) } }"

section \<open>Start-up\<close>

definition ASCII :: int where "ASCII = 0"
definition JIX :: int where "JIX = 1"
definition ISO8859 :: int where "ISO8859 = 2"
definition LASTVALUE :: int where "LASTVALUE = 100000"

text \<open>
  \<open>chx_init\<close>. The argument \<open>bad_language\<close> stands for the report \<open>buglist (bugtell (...))\<close> of the
  \<open>default\<close> case, which writes to the bug log through the unit files; they are not modelled.
\<close>

definition chx_init :: "(chx_state \<Rightarrow> chx_state) \<Rightarrow> int \<Rightarrow> chx_state \<Rightarrow> (int \<times> chx_state) option" where
  "chx_init bad_language type s =
     (let (b, s) = chxalloc 8 THIN ''chxinit blanks'' s;
          (_, s) = chxcollate CLEAR_CT 0 0 0 0 s;
          (_, s) = chxcollate ADDRULE_CT 33 33 0 0 s;
          (_, s) = chxcollate ADDRULE_CT 126 126 LASTVALUE 0 s
      in if type = JIX then do {
           (_, s) \<leftarrow> chxcatval (Some b) THIN 32 s;
           (_, s) \<leftarrow> chxcatval (Some b) 2 41377 s;
           (_, s) \<leftarrow> chxcatval (Some b) THIN 10 s;
           (_, s) \<leftarrow> chxcatval (Some b) THIN 9 s;
           (_, s) \<leftarrow> chxspecial SC_SET SC_BLANK (Some b) s;
           (_, s) \<leftarrow> chxfree (Some b) s;
           Some (1, s) }
         else if type = ASCII \<or> type = ISO8859 then do {
           (_, s) \<leftarrow> chxcatval (Some b) THIN 32 s;
           (_, s) \<leftarrow> chxcatval (Some b) THIN 10 s;
           (_, s) \<leftarrow> chxcatval (Some b) THIN 9 s;
           (_, s) \<leftarrow> chxspecial SC_SET SC_BLANK (Some b) s;
           Some (1, s) }
         else Some (1, bad_language s))"

section \<open>Copying out to C strings\<close>

text \<open>\<open>for (j = 0; a->p[i+j] && j < n-1; ++j) s[j] = a->p[i+j]; s[j] = 0\<close>\<close>

function asc_loop :: "char list \<Rightarrow> char list \<Rightarrow> int \<Rightarrow> int \<Rightarrow> int \<Rightarrow> (int \<times> char list) option" where
  "asc_loop t p i n j =
     (case rd p (i + j) of None \<Rightarrow> None
      | Some c \<Rightarrow>
          if c \<noteq> NUL \<and> j < n - 1 then
            (case wr t j c of None \<Rightarrow> None | Some t' \<Rightarrow> asc_loop t' p i n (j + 1))
          else (case wr t j NUL of None \<Rightarrow> None
                | Some t' \<Rightarrow> Some (if c \<noteq> NUL then j else 0, t')))"
  by pat_completeness auto
termination
  by (relation "measure (\<lambda>(t, p, i, n, j). nat (n - 1 - j))") auto

declare asc_loop.simps [simp del]

definition ascofchx :: "char list option \<Rightarrow> Chix \<Rightarrow> int \<Rightarrow> int \<Rightarrow> chx_state \<Rightarrow>
    (int \<times> char list option \<times> chx_state) option" where
  "ascofchx t a i n s = (case t of None \<Rightarrow> Some (-1, None, s)
   | Some t \<Rightarrow> do {
       t \<leftarrow> wr t 0 NUL;
       (ok, s) \<leftarrow> inline_check ''ascofchx'' [a] s;
       if \<not> ok then Some (-1, Some t, s)
       else do {
         c \<leftarrow> deref a s;
         if c_type c > 2 \<or> i \<ge> c_maxlen c then Some (-1, Some t, s)
         else do {
           p \<leftarrow> c_p c;
           (r, t) \<leftarrow> asc_loop t p (if i < 0 then 0 else i) (if n = ALLCHARS then c_maxlen c else n) 0;
           Some (r, Some t, s) } } })"

text \<open>\<open>ascquick\<close>: the static buffer of 1002 bytes is passed in and returned.\<close>

definition ascquick :: "char list \<Rightarrow> Chix \<Rightarrow> chx_state \<Rightarrow> (char list \<times> chx_state) option" where
  "ascquick sbuf x s =
     (if x = nullchix then do { b \<leftarrow> wr sbuf 0 NUL; Some (b, s) }
      else do {
        (r, t, s) \<leftarrow> ascofchx (Some sbuf) x 0 1000 s;
        b \<leftarrow> t;
        if r < 0 then do { b \<leftarrow> wr b 0 NUL; Some (b, s) } else Some (b, s) })"

definition asciifull :: "Chix \<Rightarrow> chx_state \<Rightarrow> (char list \<times> chx_state) option" where
  "asciifull x s = do {
     (len, s) \<leftarrow> (if x = nullchix then Some (0, s) else chxlen x s);
     if x = nullchix \<or> len \<le> 0 then do { p \<leftarrow> wr (chxmem 12) 0 NUL; Some (p, s) }
     else do {
       (ty, s) \<leftarrow> chxtype x s;
       let size = ty * len + 4;
       (r, t, s) \<leftarrow> ascofchx (Some (chxmem size)) x 0 size s;
       b \<leftarrow> t;
       if r < 0 then do { b \<leftarrow> wr b 0 NUL; Some (b, s) } else Some (b, s) } }"

section \<open>The blank tables\<close>

lemma byte_char_at: "k < length x \<Longrightarrow> byte (char_at x (int k)) = x ! k"
  by (simp add: char_at_def)

lemma char_at_nz: "NUL \<notin> set x \<Longrightarrow> char_at x (int k) \<noteq> 0 \<longleftrightarrow> k < length x"
  using char_at_eq_0 [of x "int k"] by auto

lemma list_loop_ok:
  assumes "chx_inv s" and "sview s a = Some x" and "k \<le> length x"
  shows "\<exists>s'. list_loop (Some a) (int k) s = Some (drop k x, s') \<and> chx_to s (sview s) s'"
  using assms
proof (induction "length x - k" arbitrary: k s)
  case 0
  obtain s1 where "chxvalue (Some a) (int k) s = Some (char_at x (int k), s1)" "chx_to s (sview s) s1"
    by (rule chxvalue_ok [OF 0(2,3) of_nat_0_le_iff])
  then show ?case using 0 by (subst list_loop.simps) (simp add: char_at_def)
next
  case (Suc m)
  obtain s1 where s1: "chxvalue (Some a) (int k) s = Some (char_at x (int k), s1)" "chx_to s (sview s) s1"
    by (rule chxvalue_ok [OF Suc.prems(1,2) of_nat_0_le_iff])
  note t1 = chx_toD [OF s1(2)]
  have k: "k < length x" and m: "m = length x - Suc k" using Suc.hyps(2) by simp_all
  obtain s2 where s2: "list_loop (Some a) (int (Suc k)) s1 = Some (drop (Suc k) x, s2)" "chx_to s1 (sview s1) s2"
    using Suc.hyps(1) [of "Suc k" s1] m t1 Suc.prems k by auto
  have "char_at x (int k) \<noteq> 0" using char_at_nz [OF live_no_NUL [OF Suc.prems(2)]] k by blast
  then have "list_loop (Some a) (int k) s = Some (drop k x, s2)"
    using s1(1) s2(1) k byte_char_at [OF k] by (subst list_loop.simps) (simp add: add.commute Cons_nth_drop_Suc)
  then show ?case using chx_to_read_trans [OF s1(2) s2(2)] by blast
qed

text \<open>The blanks in force once \<open>chx_init\<close> has registered them; an empty registry means the ASCII blank.\<close>

definition blank_chars :: "chx_state \<Rightarrow> string" where
  "blank_chars s = (case blanks s of None \<Rightarrow> '' '' | Some z \<Rightarrow>
     (case sview s z of None \<Rightarrow> '' '' | Some t \<Rightarrow> if t = [] then '' '' else t))"

lemma globs_tabs:
  "globs s' = globs s \<Longrightarrow> blanks s' = blanks s \<and> rules s' = rules s \<and> ctab s' = ctab s \<and>
     tab_token s' = tab_token s \<and> tab_nextw s' = tab_nextw s \<and> tab_int4 s' = tab_int4 s \<and> tab_blank s' = tab_blank s"
  by (simp add: globs_def)

lemma chxspecial_get:
  assumes inv: "chx_inv s" and bl: "blanks s = Some z" and z: "sview s z = Some t" and a: "sview s a = Some x"
  obtains s' where "chxspecial SC_GET SC_BLANK (Some a) s = Some (1, s')" "chx_to s ((sview s)(a \<mapsto> t)) s'"
proof -
  obtain s' where s': "chxcpy (Some a) (Some z) s = Some (1, s')" "chx_to s ((sview s)(a \<mapsto> t)) s'"
    by (rule chxcpy_ok [OF inv a z])
  then show thesis using that a bl by (simp add: chxspecial_def inline_check_simps SC_GET_def SC_SET_def)
qed

lemma fill_blanks_ok:
  assumes inv: "chx_inv s" and bl: "blanks s \<noteq> None"
  obtains s' where "fill_blanks s = Some (blank_chars s, s')" "chx_to s (sview s) s'"
proof -
  obtain z where z: "blanks s = Some z" using bl by blast
  obtain t where t: "sview s z = Some t" using inv z by (auto simp: chx_inv_def statics_ok_def)
  define b where "b = next_adr s"
  have ne: "z \<noteq> b" using live_less [OF inv t] by (simp add: b_def)
  obtain s1 where s1: "chxalloc 16 THIN ''chxtoken blanks'' s = (b, s1)" "chx_to s ((sview s)(b \<mapsto> [])) s1"
    using chxalloc_ok [OF inv] b_def by metis
  note t1 = chx_toD [OF s1(2)]
  obtain s2 where s2: "chxspecial SC_GET SC_BLANK (Some b) s1 = Some (1, s2)" "chx_to s1 ((sview s1)(b \<mapsto> t)) s2"
    using chxspecial_get [OF t1(1), of z t b "[]"] t1(2) globs_tabs [OF t1(3)] z t ne by auto
  note t2 = chx_toD [OF s2(2)]
  obtain s3 where s3: "chxvalue (Some b) 0 s2 = Some (char_at t 0, s3)" "chx_to s2 (sview s2) s3"
    using chxvalue_ok [OF t2(1), of b t 0] t2(2) by auto
  note t3 = chx_toD [OF s3(2)]
  have t0: "char_at t 0 = 0 \<longleftrightarrow> t = []" using char_at_eq_0 [OF live_no_NUL [OF t], of 0] by simp
  have bc: "blank_chars s = (if t = [] then '' '' else t)" using z t by (simp add: blank_chars_def)
  have b32: "byte 32 = CHR '' ''" by (simp add: byte_def char_of_def)
  obtain s4 r where s4: "(if char_at t 0 = 0 then chxcatval (Some b) THIN 32 s3 else Some (1, s3)) = Some (r, s4)"
      "chx_to s3 ((sview s3)(b \<mapsto> blank_chars s)) s4"
  proof (cases "t = []")
    case True
    then show thesis using chxcatval_ok [OF t3(1), of b "[]" 32 THIN thesis] that t3(2) t2(2) t0 bc b32 by auto
  next
    case False
    have "sview s3 b = Some t" using t3(2) t2(2) by simp
    then show thesis using that [of 1 s3] False t0 bc chx_to_refl [OF t3(1)] by (simp add: map_upd_triv)
  qed
  note t4 = chx_toD [OF s4(2)]
  obtain s5 where s5: "chxlen (Some b) s4 = Some (int (length (blank_chars s)), s5)" "chx_to s4 (sview s4) s5"
    using chxlen_ok [OF t4(1), of b "blank_chars s"] t4(2) by auto
  note t5 = chx_toD [OF s5(2)]
  obtain s6 where s6: "list_loop (Some b) 0 s5 = Some (blank_chars s, s6)" "chx_to s5 (sview s5) s6"
    using list_loop_ok [OF t5(1), of b "blank_chars s" 0] t5(2) t4(2) by auto
  note t6 = chx_toD [OF s6(2)]
  have "blanks s6 = blanks s" using t6(3) t5(3) t4(3) t3(3) t2(3) t1(3) by (simp add: globs_def)
  then obtain s7 where s7: "chxfree (Some b) s6 = Some (1, s7)" "chx_to s6 ((sview s6)(b := None)) s7"
    using chxfree_ok [OF t6(1), of b "blank_chars s"] t6(2) t5(2) t4(2) z ne by auto
  have "(sview s6)(b := None) = sview s"
    using t6(2) t5(2) t4(2) t3(2) t2(2) t1(2) fresh_not_live [OF inv] by (auto simp: fun_eq_iff b_def)
  then have "chx_to s (sview s) s7"
    using chx_to_trans [OF s1(2) chx_to_trans [OF s2(2) chx_to_trans [OF s3(2) chx_to_trans [OF s4(2)
          chx_to_trans [OF s5(2) chx_to_trans [OF s6(2) s7(2)]]]]]] by simp
  moreover have "fill_blanks s = Some (blank_chars s, s7)"
    using s1(1) s2(1) s3(1) s4(1) s5(1) s6(1) s7(1) by (simp add: fill_blanks_def Let_def)
  ultimately show thesis using that by blast
qed

text \<open>A filled table changes nothing else of the state.\<close>

lemma set_tab_simps [chx_simps]:
  "sview (s\<lparr>tab_token := t\<rparr>) = sview s" "chx_inv (s\<lparr>tab_token := t\<rparr>) = chx_inv s"
  "sview (s\<lparr>tab_nextw := t\<rparr>) = sview s" "chx_inv (s\<lparr>tab_nextw := t\<rparr>) = chx_inv s"
  "sview (s\<lparr>tab_int4 := t\<rparr>) = sview s" "chx_inv (s\<lparr>tab_int4 := t\<rparr>) = chx_inv s"
  "sview (s\<lparr>tab_blank := t\<rparr>) = sview s" "chx_inv (s\<lparr>tab_blank := t\<rparr>) = chx_inv s"
  by (simp_all add: sview_def fun_eq_iff chx_inv_def heap_ok_def statics_ok_def)

section \<open>Tokens\<close>

text \<open>The words of a string, each with its position: the maximal runs of characters not in \<open>bl\<close>.\<close>

function words_at :: "string \<Rightarrow> nat \<Rightarrow> string \<Rightarrow> (nat \<times> string) list" where
  "words_at bl i [] = []"
| "words_at bl i (c # x) =
     (if in_tab bl c then words_at bl (Suc i) x
      else let w = takeWhile (\<lambda>d. \<not> in_tab bl d) x
           in (i, c # w) # words_at bl (Suc i + length w) (drop (length w) x))"
  by pat_completeness auto
termination
  by (relation "measure (\<lambda>(bl, i, x). length x)") (auto simp: length_takeWhile_le)

text \<open>The contents of the store once \<open>word\<close>, if it is given, holds \<open>t\<close>.\<close>

definition upd :: "Chix \<Rightarrow> string \<Rightarrow> (nat \<Rightarrow> string option) \<Rightarrow> nat \<Rightarrow> string option" where
  "upd word t m = (case word of None \<Rightarrow> m | Some a \<Rightarrow> m(a \<mapsto> t))"

lemma upd_simps [simp]:
  "upd None t m = m" "upd (Some a) t m = m(a \<mapsto> t)" "upd w t (upd w u m) = upd w t m"
  by (auto simp: upd_def split: option.splits)

lemma upd_other: "w \<noteq> Some a \<Longrightarrow> upd w t m a = m a"
  by (auto simp: upd_def split: option.splits)

text \<open>Reading the character at a position inside the string.\<close>

lemma buf_read:
  assumes "chx_inv s" and "sview s a = Some x" and "k \<le> length x"
  obtains p where "buf (Some a) s = Some p"
    "rd p (int k) = Some (if k < length x then x ! k else NUL)"
proof -
  obtain p where p: "buf (Some a) s = Some p" "cstr p = x" "NUL \<in> set p" "length (cstr p) < length p"
    by (rule live_buf [OF assms(1,2)])
  have "rd p (int k) = Some (if k < length x then x ! k else NUL)"
    using p(2,4) assms(3) cstr_nth [of k p] cstr_nth_end [of p] by (cases "k < length x") auto
  with p(1) show thesis by (rule that)
qed

text \<open>Inside the sought word the rest of it is appended to \<open>word\<close>.\<close>

lemma token_loop_in:
  assumes "chx_inv s" and "sview s l = Some x" and "k \<le> length x" and "word \<noteq> Some l"
    and "\<forall>a. word = Some a \<longrightarrow> sview s a = Some acc"
  shows "\<exists>s'. token_loop word n ty bl (Some l) (int k) n False st s = Some (st, s') \<and>
    chx_to s (upd word (acc @ takeWhile (\<lambda>d. \<not> in_tab bl d) (drop k x)) (sview s)) s'"
  using assms
proof (induction "length x - k" arbitrary: k acc s)
  case 0
  obtain p where "buf (Some l) s = Some p" "rd p (int k) = Some (if k < length x then x ! k else NUL)"
    by (rule buf_read [OF 0(2-4)])
  moreover have "upd word acc (sview s) = sview s" using 0(6) by (auto simp: upd_def map_upd_triv split: option.splits)
  ultimately show ?case using 0 chx_to_refl by (subst token_loop.simps) simp
next
  case (Suc m)
  then have k: "k < length x" and m: "m = length x - Suc k" by simp_all
  obtain p where p: "buf (Some l) s = Some p" "rd p (int k) = Some (if k < length x then x ! k else NUL)"
    by (rule buf_read [OF Suc.prems(1-3)])
  have d: "drop k x = x ! k # drop (Suc k) x" using k by (simp add: Cons_nth_drop_Suc)
  have nz: "x ! k \<noteq> NUL" using live_no_NUL [OF Suc.prems(2)] k nth_mem by metis
  show ?case
  proof (cases "in_tab bl (x ! k)")
    case True
    moreover have "upd word acc (sview s) = sview s"
      using Suc.prems(5) by (auto simp: upd_def map_upd_triv split: option.splits)
    ultimately show ?thesis using p k nz d chx_to_refl [OF Suc.prems(1)] by (subst token_loop.simps) simp
  next
    case False
    obtain s1 r where s1: "(if word \<noteq> nullchix then chxcatval word ty (bval (x ! k)) s else Some (1, s)) = Some (r, s1)"
        "chx_to s (upd word (acc @ [x ! k]) (sview s)) s1"
    proof (cases word)
      case None
      then show thesis using that chx_to_refl [OF Suc.prems(1)] by simp
    next
      case (Some a)
      then show thesis using chxcatval_ok [OF Suc.prems(1), of a acc "bval (x ! k)" ty thesis] that Suc.prems(5) nz by auto
    qed
    note t1 = chx_toD [OF s1(2)]
    have "\<exists>s'. token_loop word n ty bl (Some l) (int (Suc k)) n False st s1 = Some (st, s') \<and>
        chx_to s1 (upd word ((acc @ [x ! k]) @ takeWhile (\<lambda>d. \<not> in_tab bl d) (drop (Suc k) x)) (sview s1)) s'"
      by (rule Suc.hyps(1)) (use m t1 Suc.prems k in \<open>auto simp: upd_other\<close>)
    then obtain s2 where s2: "token_loop word n ty bl (Some l) (int (Suc k)) n False st s1 = Some (st, s2)"
        "chx_to s1 (upd word ((acc @ [x ! k]) @ takeWhile (\<lambda>d. \<not> in_tab bl d) (drop (Suc k) x)) (sview s1)) s2" by blast
    have "token_loop word n ty bl (Some l) (int k) n False st s = Some (st, s2)"
      using p k nz False s1(1) s2(1) by (subst token_loop.simps) (auto simp: Let_def add.commute)
    then show ?thesis using chx_to_trans [OF s1(2) s2(2)] t1(2) d False by simp
  qed
qed

text \<open>Before the sought word: the words still to come, after the rest of the current one unless \<open>between\<close>.\<close>

definition ahead :: "string \<Rightarrow> bool \<Rightarrow> nat \<Rightarrow> string \<Rightarrow> (nat \<times> string) list" where
  "ahead bl between k y =
     (let w = (if between then [] else takeWhile (\<lambda>d. \<not> in_tab bl d) y)
      in words_at bl (k + length w) (drop (length w) y))"

definition pick :: "(nat \<times> string) list \<Rightarrow> nat \<Rightarrow> int \<times> string" where
  "pick ws j = (if j < length ws then (int (fst (ws ! j)), snd (ws ! j)) else (-1, []))"

lemma ahead_simps:
  "ahead bl b k [] = []"
  "in_tab bl c \<Longrightarrow> ahead bl b k (c # y) = ahead bl True (Suc k) y"
  "\<not> in_tab bl c \<Longrightarrow> ahead bl False k (c # y) = ahead bl False (Suc k) y"
  "\<not> in_tab bl c \<Longrightarrow> ahead bl True k (c # y) =
     (k, c # takeWhile (\<lambda>d. \<not> in_tab bl d) y) # ahead bl False (Suc k) y"
  by (simp_all add: ahead_def Let_def)

lemma token_loop_seek:
  assumes "chx_inv s" and "sview s l = Some x" and "k \<le> length x" and "word \<noteq> Some l"
    and "\<forall>a. word = Some a \<longrightarrow> sview s a = Some []" and "w < n"
  shows "\<exists>s'. token_loop word n ty bl (Some l) (int k) w b (-1) s =
      Some (fst (pick (ahead bl b k (drop k x)) (nat (n - w - 1))), s') \<and>
    chx_to s (upd word (snd (pick (ahead bl b k (drop k x)) (nat (n - w - 1)))) (sview s)) s'"
  using assms
proof (induction "length x - k" arbitrary: k w b)
  case 0
  obtain p where "buf (Some l) s = Some p" "rd p (int k) = Some (if k < length x then x ! k else NUL)"
    by (rule buf_read [OF 0(2-4)])
  moreover have "upd word [] (sview s) = sview s" using 0(6) by (auto simp: upd_def map_upd_triv split: option.splits)
  ultimately show ?case using 0 chx_to_refl by (subst token_loop.simps) (simp add: ahead_simps pick_def)
next
  case (Suc m)
  then have k: "k < length x" and m: "m = length x - Suc k" by simp_all
  obtain p where p: "buf (Some l) s = Some p" "rd p (int k) = Some (x ! k)"
    by (rule buf_read [OF Suc.prems(1-3)]) (use k in simp)
  have d: "drop k x = x ! k # drop (Suc k) x" using k by (simp add: Cons_nth_drop_Suc)
  have nz: "x ! k \<noteq> NUL" using live_no_NUL [OF Suc.prems(2)] k nth_mem by metis
  have next_step: "\<exists>s'. token_loop word n ty bl (Some l) (int k + 1) w' b' (-1) s =
      Some (fst (pick (ahead bl b' (Suc k) (drop (Suc k) x)) (nat (n - w' - 1))), s') \<and>
      chx_to s (upd word (snd (pick (ahead bl b' (Suc k) (drop (Suc k) x)) (nat (n - w' - 1)))) (sview s)) s'"
    if "w' < n" for w' b'
    using Suc.hyps(1) [OF m Suc.prems(1,2) _ Suc.prems(4,5) that, of b'] k by (simp add: add.commute)
  show ?case
  proof (cases "in_tab bl (x ! k)")
    case True
    then show ?thesis using p nz d Suc.prems(6) next_step [of w True]
      by (subst token_loop.simps) (simp add: ahead_simps)
  next
    case nb: False
    consider "b" "w + 1 = n" | "b" "w + 1 < n" | "\<not> b" using Suc.prems(6) by linarith
    then show ?thesis
    proof cases
      case 1
      obtain s1 r where s1: "(if word \<noteq> nullchix then chxcatval word ty (bval (x ! k)) s else Some (1, s)) = Some (r, s1)"
        "chx_to s (upd word [x ! k] (sview s)) s1"
      proof (cases word)
        case None
        then show thesis using that chx_to_refl [OF Suc.prems(1)] by simp
      next
        case (Some a)
        then show thesis using chxcatval_ok [OF Suc.prems(1), of a "[]" "bval (x ! k)" ty thesis] that Suc.prems(5) nz by auto
      qed
      note t1 = chx_toD [OF s1(2)]
      obtain s2 where s2: "token_loop word n ty bl (Some l) (int (Suc k)) n False (int k) s1 = Some (int k, s2)"
          "chx_to s1 (upd word ([x ! k] @ takeWhile (\<lambda>d. \<not> in_tab bl d) (drop (Suc k) x)) (sview s1)) s2"
        using token_loop_in [OF t1(1), of l x "Suc k" word "[x ! k]" n ty bl "int k"] t1(2) Suc.prems k
        by (auto simp: upd_other)
      have "token_loop word n ty bl (Some l) (int k) w b (-1) s = Some (int k, s2)"
        using 1 p nz nb s1(1) s2(1) by (subst token_loop.simps) (auto simp: Let_def add.commute)
      then show ?thesis using 1 chx_to_trans [OF s1(2) s2(2)] t1(2) d nb by (auto simp: ahead_simps pick_def)
    next
      case 2
      then have j: "nat (n - w - 1) = Suc (nat (n - (w + 1) - 1))" by simp
      show ?thesis using 2 p nz nb d next_step [of "w + 1" False]
        by (subst token_loop.simps) (auto simp: ahead_simps j pick_def)
    next
      case 3
      then show ?thesis using p nz nb d Suc.prems(6) next_step [of w False]
        by (subst token_loop.simps) (auto simp: ahead_simps)
    qed
  qed
qed

text \<open>The blanks \<open>chxtoken\<close> uses, and the state in which its table is filled.\<close>

definition token_blanks :: "chx_state \<Rightarrow> string" where
  "token_blanks s = (case tab_token s of Some bl \<Rightarrow> bl | None \<Rightarrow> blank_chars s)"

lemma token_table:
  assumes inv: "chx_inv s" and bl: "blanks s \<noteq> None"
  obtains s1 where
    "(case tab_token s of Some bl \<Rightarrow> Some (bl, s)
      | None \<Rightarrow> do { (bl, s) \<leftarrow> fill_blanks s; Some (bl, s\<lparr>tab_token := Some bl\<rparr>) }) =
     Some (token_blanks s, s1)"
    "chx_inv s1" "sview s1 = sview s" "globs s1 = globs (s\<lparr>tab_token := Some (token_blanks s)\<rparr>)" "next_adr s \<le> next_adr s1"
proof (cases "tab_token s")
  case None
  obtain s1 where s1: "fill_blanks s = Some (blank_chars s, s1)" "chx_to s (sview s) s1"
    by (rule fill_blanks_ok [OF inv bl])
  note t1 = chx_toD [OF s1(2)]
  show thesis using that [of "s1\<lparr>tab_token := Some (blank_chars s)\<rparr>"] None s1(1) t1 globs_tabs [OF t1(3)]
    by (simp add: set_tab_simps token_blanks_def globs_def)
next
  case (Some b)
  then show thesis using that [of s] inv by (simp add: token_blanks_def globs_def)
qed

lemma opt_clear_ok:
  assumes "chx_inv s" and "\<forall>a. w = Some a \<longrightarrow> sview s a \<noteq> None"
  obtains r s' where "opt_clear w s = Some (r, s')" "chx_to s (upd w [] (sview s)) s'"
proof (cases w)
  case None
  then show thesis using that chx_to_refl [OF assms(1)] by (simp add: opt_clear_def)
next
  case (Some a)
  then obtain x where x: "sview s a = Some x" using assms(2) by blast
  obtain s' where "chxclear (Some a) s = Some (1, s')" "chx_to s ((sview s)(a \<mapsto> [])) s'"
    by (rule chxclear_ok [OF assms(1) x])
  then show thesis using that Some by (simp add: opt_clear_def)
qed

lemma opt_check_live: "\<forall>a. w = Some a \<longrightarrow> sview s a \<noteq> None \<Longrightarrow> opt_check fn w s = Some (True, s)"
  by (cases w) (auto simp: opt_check_def inline_check_simps)

lemma chxtoken_keeps:
  assumes inv: "chx_inv s" and bl: "blanks s \<noteq> None" and l: "sview s l = Some x"
    and wl: "\<forall>a. word = Some a \<longrightarrow> sview s a \<noteq> None" and rl: "\<forall>a. rest = Some a \<longrightarrow> sview s a \<noteq> None"
    and ne: "word \<noteq> Some l" "rest \<noteq> Some l" "word = rest \<Longrightarrow> word = None" and n: "1 \<le> n"
  obtains st t s' where "(st, t) = pick (words_at (token_blanks s) 0 x) (nat n - 1)"
    "chxtoken word rest n (Some l) s = Some (st, s')" "chx_inv s'"
    "sview s' = upd rest (if st < 0 then [] else drop (nat st) x) (upd word t (sview s))"
    "globs s' = globs (s\<lparr>tab_token := Some (token_blanks s)\<rparr>)" "next_adr s \<le> next_adr s'"
proof -
  obtain s1 where s1: "(case tab_token s of Some bl \<Rightarrow> Some (bl, s)
      | None \<Rightarrow> do { (bl, s) \<leftarrow> fill_blanks s; Some (bl, s\<lparr>tab_token := Some bl\<rparr>) }) = Some (token_blanks s, s1)"
    "chx_inv s1" "sview s1 = sview s" "globs s1 = globs (s\<lparr>tab_token := Some (token_blanks s)\<rparr>)" "next_adr s \<le> next_adr s1"
    by (rule token_table [OF inv bl])
  obtain r2 s2 where s2: "opt_clear word s1 = Some (r2, s2)" "chx_to s1 (upd word [] (sview s1)) s2"
    using opt_clear_ok [OF s1(2), of word] wl s1(3) by auto
  note t2 = chx_toD [OF s2(2)]
  have rl2: "\<forall>a. rest = Some a \<longrightarrow> sview s2 a \<noteq> None"
    using rl s1(3) t2(2) by (auto simp: upd_def split: option.splits)
  obtain r3 s3 where s3: "opt_clear rest s2 = Some (r3, s3)" "chx_to s2 (upd rest [] (sview s2)) s3"
    by (rule opt_clear_ok [OF t2(1) rl2])
  note t3 = chx_toD [OF s3(2)]
  have v3: "sview s3 = upd rest [] (upd word [] (sview s))" using t3(2) t2(2) s1(3) by simp
  have l3: "sview s3 l = Some x" using v3 l ne by (simp add: upd_other)
  have w3: "\<forall>a. word = Some a \<longrightarrow> sview s3 a = Some []" using v3 by (auto simp: upd_def split: option.splits)
  obtain st t where st: "pick (words_at (token_blanks s) 0 x) (nat n - 1) = (st, t)"
    by (cases "pick (words_at (token_blanks s) 0 x) (nat n - 1)")
  have ah: "ahead (token_blanks s) True 0 x = words_at (token_blanks s) 0 x" by (simp add: ahead_def)
  obtain ty where ty: "chxtype (Some l) s3 = Some (ty, s3)" using chxtype_live [OF t3(1) l3] by blast
  obtain s4 where s4: "token_loop word n ty (token_blanks s) (Some l) 0 0 True (-1) s3 = Some (st, s4)"
      "chx_to s3 (upd word t (sview s3)) s4"
    using token_loop_seek [OF t3(1) l3 _ ne(1) w3, of 0 0 n ty "token_blanks s" True] n st
    by (auto simp: ah nat_diff_distrib)
  note t4 = chx_toD [OF s4(2)]
  have l4: "sview s4 l = Some x" using t4(2) l3 ne by (simp add: upd_other)
  have v4: "sview s4 = upd rest [] (upd word t (sview s))"
    using t4(2) v3 ne(3) by (auto simp: upd_def fun_eq_iff split: option.splits)
  have g4: "globs s4 = globs (s\<lparr>tab_token := Some (token_blanks s)\<rparr>)" "next_adr s \<le> next_adr s4"
    using t4(3,4) t3(3,4) t2(3,4) s1(4,5) by simp_all
  note start = l opt_check_live [OF wl] opt_check_live [OF rl] s1(1) s2(1) s3(1) ty s4(1)
  show thesis
  proof (cases "st < 0 \<or> rest = None")
    case True
    have "st < 0 \<Longrightarrow> st = -1" using st by (auto simp: pick_def split: if_splits)
    then have "chxtoken word rest n (Some l) s = Some (st, s4)"
      using start True by (auto simp: chxtoken_def inline_check_simps)
    then show thesis using that [of st t s4] st t4(1) v4 g4 True by auto
  next
    case False
    then obtain r where r: "rest = Some r" and pos: "\<not> st < 0" by auto
    obtain s5 where s5: "chxcatsub (Some r) (Some l) st ALLCHARS s4 = Some (1, s5)"
        "chx_to s4 ((sview s4)(r \<mapsto> drop (nat st) x)) s5"
      using chxcatsub_ok [OF t4(1), of r "[]" l x st ALLCHARS] v4 l4 r ne by (auto simp: sub_of_def)
    have "chxtoken word rest n (Some l) s = Some (st, s5)"
      using start pos r s5(1) by (simp add: chxtoken_def inline_check_simps)
    then show thesis using that [of st t s5] st chx_toD [OF s5(2)] g4 v4 pos r by simp
  qed
qed

text \<open>What a call of \<open>chxtoken\<close> keeps of the statics: only its own table of blanks may be filled.\<close>

lemma token_globs:
  assumes "globs s' = globs (s\<lparr>tab_token := Some (token_blanks s)\<rparr>)"
  shows "blanks s' = blanks s" "rules s' = rules s" "ctab s' = ctab s" "tab_token s' = Some (token_blanks s)"
    "tab_int4 s' = tab_int4 s" "tab_nextw s' = tab_nextw s" "tab_blank s' = tab_blank s"
  using assms by (simp_all add: globs_def)

lemma chxtoken_ok:
  assumes "chx_inv s" and "blanks s \<noteq> None" and "sview s l = Some x"
    and "\<forall>a. word = Some a \<longrightarrow> sview s a \<noteq> None" and "\<forall>a. rest = Some a \<longrightarrow> sview s a \<noteq> None"
    and "word \<noteq> Some l" "rest \<noteq> Some l" "word = rest \<Longrightarrow> word = None" and "1 \<le> n"
  obtains st t s' where "(st, t) = pick (words_at (token_blanks s) 0 x) (nat n - 1)"
    "chxtoken word rest n (Some l) s = Some (st, s')" "chx_inv s'"
    "sview s' = upd rest (if st < 0 then [] else drop (nat st) x) (upd word t (sview s))"
    "blanks s' = blanks s" "rules s' = rules s" "tab_token s' = Some (token_blanks s)"
  by (rule chxtoken_keeps [OF assms]) (use that token_globs in blast)+

section \<open>Lines\<close>

definition line_of :: "string \<Rightarrow> string" where
  "line_of x = takeWhile (\<lambda>c. c \<noteq> CHR 0x0A) x"

definition has_newline :: "string \<Rightarrow> int" where
  "has_newline x = (if CHR 0x0A \<in> set x then 1 else 0)"

lemma line_loop_eq:
  assumes "NUL \<in> set (drop k p)"
  shows "line_loop p (int k) n =
    Some (n + int (length (line_of (cstr (drop k p)))), has_newline (cstr (drop k p)))"
  using assms
proof (induction "length p - k" arbitrary: k n)
  case 0
  then show ?case by simp
next
  case (Suc m)
  then have k: "k < length p" by simp
  then have d: "drop k p = p ! k # drop (Suc k) p" by (simp add: Cons_nth_drop_Suc)
  show ?case
  proof (cases "p ! k = CHR 0x0A \<or> p ! k = NUL")
    case True
    then show ?thesis using k d by (subst line_loop.simps) (auto simp: line_of_def has_newline_def)
  next
    case False
    then have "line_loop p (int (Suc k)) (n + 1) =
      Some (n + 1 + int (length (line_of (cstr (drop (Suc k) p)))), has_newline (cstr (drop (Suc k) p)))"
      using Suc.hyps(1) [of "Suc k" "n + 1"] Suc.hyps(2) Suc.prems d by auto
    then show ?thesis using False k d
      by (subst line_loop.simps) (auto simp: line_of_def has_newline_def add.commute)
  qed
qed

lemma line_of_take: "line_of x = take (length (line_of x)) x"
  by (metis line_of_def takeWhile_eq_take)

lemma chxnextline_ok:
  assumes inv: "chx_inv s" and a: "sview s a = Some x" and b: "sview s b = Some y" and ne: "a \<noteq> b"
    and k: "k < length y"
  obtains s' where "chxnextline (Some a) (Some b) (int k) s =
      Some (1 + has_newline (drop k y),
            int k + int (length (line_of (drop k y))) + has_newline (drop k y), s')"
    "chx_to s ((sview s)(a \<mapsto> line_of (drop k y))) s'"
proof -
  define ln where "ln = line_of (drop k y)"
  define nl where "nl = has_newline (drop k y)"
  obtain q where q: "buf (Some b) s = Some q" "cstr q = y"
      "\<forall>i \<le> length y. NUL \<in> set (drop i q) \<and> cstr (drop i q) = drop i y" "length (cstr q) < length q"
    by (rule live_buf [OF inv b])
  have lp: "line_loop q (int k) 0 = Some (int (length ln), nl)"
    using line_loop_eq [of k q 0] q(3) k by (simp add: ln_def nl_def)
  have pos: "int (length ln) + nl \<noteq> 0"
  proof
    assume "int (length ln) + nl = 0"
    then have "ln = []" "nl = 0" by (auto simp: nl_def has_newline_def split: if_splits)
    then have "drop k y = []" by (cases "drop k y") (auto simp: ln_def nl_def line_of_def has_newline_def split: if_splits)
    then show False using k by simp
  qed
  obtain s1 where s1: "chxclear (Some a) s = Some (1, s1)" "chx_to s ((sview s)(a \<mapsto> [])) s1"
    by (rule chxclear_ok [OF inv a])
  note t1 = chx_toD [OF s1(2)]
  have a1: "sview s1 a = Some []" and b1: "sview s1 b = Some y" using t1(2) b ne by auto
  obtain c where c: "heap s1 a = Some c" "wf_chix c" "ctext c = []"
    using live_block [OF t1(1) a1] by (metis ctext_def option.simps(5))
  obtain d r where d: "heap s1 b = Some d" "c_p d = Some r" "cstr r = y" "c_type d = THIN"
      "c_maxlen d + 1 \<le> int (length r)" "int (length y) < c_maxlen d"
    by (rule live_block [OF t1(1) b1])
  let ?P = "c_maxlen c < int (length ln) + 5"
  obtain c' s2 where s2: "resize_if ?P (Some a) THIN (int (length ln) + 10) s1 = Some (1, s2)"
      "heap s2 = (heap s1)(a := Some c')" "wf_chix c'" "ctext c' = ctext c"
      "?P \<Longrightarrow> int (length ln) + 10 \<le> c_maxlen c'" "\<not> ?P \<Longrightarrow> c' = c" "chx_to s1 (sview s1) s2"
    by (rule grow_ok [OF t1(1) c(1,2)]) blast
  obtain p' where p': "c_p c' = Some p'" "cstr p' = []" "c_maxlen c' + 1 \<le> int (length p')"
    using wf_block [OF s2(3)] s2(4) c(3) by metis
  have room: "int (length ln) + 5 \<le> c_maxlen c'" using s2(5,6) by force
  have len: "length ln \<le> length y - k" using arg_cong [OF line_of_take, of length "drop k y"] by (simp add: ln_def)
  have "take (length ln) (drop k y) = ln" using line_of_take [of "drop k y"] by (simp add: ln_def)
  moreover have "length (cstr r) < length r" using d(3,5,6) by simp
  ultimately obtain ys where ys: "length ys \<le> 1"
      "chxcapc p' 0 (Some r) (int k) 0 (int (length ln)) = Some (bsplice p' 0 (ln @ NUL # ys))"
    using capc_sub [of r k "int (length ln)" 0 p'] d(3) k room p'(3) len by auto
  let ?c = "c'\<lparr>c_p := Some (bsplice p' 0 (ln @ NUL # ys)), c_actlen := -1\<rparr>"
  have "NUL \<notin> set ln" using live_no_NUL [OF b]
    by (auto simp: ln_def line_of_def dest!: set_takeWhileD in_set_dropD)
  then have "wf_chix ?c" "ctext ?c = ln"
    using block_write [OF s2(3) p'(1), of 0 ln ys "-1"] p'(2,3) room ys(1) by auto
  then have "chx_to s1 ((sview s1)(a \<mapsto> ln)) (put a ?c s2)"
    using chx_to_put_trans [OF s2(7), of a c' ?c ln] s2(2) by simp
  then have "chx_to s ((sview s)(a \<mapsto> ln)) (put a ?c s2)" using chx_to_trans [OF s1(2)] t1(2) by simp
  moreover have "chxnextline (Some a) (Some b) (int k) s =
      Some (1 + nl, int k + int (length ln) + nl, put a ?c s2)"
    using a b q(1) lp pos s1(1) c(1) d(1,2,4) s2(1,2) p'(1) ys(2) ne
    by (simp add: chxnextline_def inline_check_simps deref_simps capc_chix_def set_actlen_def put_simps put_put)
  ultimately show thesis using that by (simp add: ln_def nl_def)
qed

lemma chxnextline_end:
  assumes inv: "chx_inv s" and a: "sview s a = Some x" and b: "sview s b = Some y"
  shows "chxnextline (Some a) (Some b) (int (length y)) s = Some (0, int (length y), s)"
proof -
  obtain q where q: "buf (Some b) s = Some q"
      "\<forall>i \<le> length y. NUL \<in> set (drop i q) \<and> cstr (drop i q) = drop i y"
    by (rule live_buf [OF inv b])
  have "line_loop q (int (length y)) 0 = Some (0, 0)"
    using line_loop_eq [of "length y" q 0] q(2) by (simp add: line_of_def has_newline_def)
  then show ?thesis using a b q(1) by (simp add: chxnextline_def inline_check_simps)
qed

section \<open>Words\<close>

lemma skip_loop_eq:
  assumes "NUL \<in> set (drop k p)"
  shows "skip_loop bl p (int k) =
    (let y = cstr (drop k p); n = length (takeWhile (in_tab bl) y)
     in Some (int (k + n), if n < length y then y ! n else NUL))"
  using assms
proof (induction "length p - k" arbitrary: k)
  case 0
  then show ?case by simp
next
  case (Suc m)
  then have k: "k < length p" by simp
  then have d: "drop k p = p ! k # drop (Suc k) p" by (simp add: Cons_nth_drop_Suc)
  show ?case
  proof (cases "p ! k = NUL \<or> \<not> in_tab bl (p ! k)")
    case True
    then show ?thesis using k d by (subst skip_loop.simps) (auto simp: Let_def)
  next
    case False
    then have "skip_loop bl p (int (Suc k)) =
        (let y = cstr (drop (Suc k) p); n = length (takeWhile (in_tab bl) y)
         in Some (int (Suc k + n), if n < length y then y ! n else NUL))"
      using Suc.hyps(1) [of "Suc k"] Suc.hyps(2) Suc.prems d by auto
    then show ?thesis using False k d by (subst skip_loop.simps) (auto simp: Let_def add.commute)
  qed
qed

lemma word_loop_ok:
  assumes "chx_inv s" and "sview s a = Some acc" and "sview s b = Some y" and "a \<noteq> b" and "k \<le> length y"
  shows "\<exists>s'. word_loop (Some a) (Some b) ty bl (int k) s =
      Some (int (k + length (takeWhile (\<lambda>c. \<not> in_tab bl c) (drop k y))), s') \<and>
    chx_to s ((sview s)(a \<mapsto> acc @ takeWhile (\<lambda>c. \<not> in_tab bl c) (drop k y))) s'"
  using assms
proof (induction "length y - k" arbitrary: k acc s)
  case 0
  obtain p where "buf (Some b) s = Some p" "rd p (int k) = Some (if k < length y then y ! k else NUL)"
    by (rule buf_read [OF 0(2,4,6)])
  then show ?case using 0 chx_to_refl [OF 0(2)] by (subst word_loop.simps) (simp add: map_upd_triv)
next
  case (Suc m)
  then have k: "k < length y" and m: "m = length y - Suc k" by simp_all
  obtain p where p: "buf (Some b) s = Some p" "rd p (int k) = Some (y ! k)"
    by (rule buf_read [OF Suc.prems(1,3,5)]) (use k in simp)
  have d: "drop k y = y ! k # drop (Suc k) y" using k by (simp add: Cons_nth_drop_Suc)
  have nz: "y ! k \<noteq> NUL" using live_no_NUL [OF Suc.prems(3)] k nth_mem by metis
  show ?case
  proof (cases "in_tab bl (y ! k)")
    case True
    then show ?thesis using p nz d Suc.prems(2) chx_to_refl [OF Suc.prems(1)]
      by (subst word_loop.simps) (simp add: map_upd_triv)
  next
    case False
    obtain s1 where s1: "chxcatval (Some a) ty (bval (y ! k)) s = Some (1, s1)"
        "chx_to s ((sview s)(a \<mapsto> acc @ [y ! k])) s1"
      using chxcatval_ok [OF Suc.prems(1,2), of "bval (y ! k)" ty] nz by auto
    note t1 = chx_toD [OF s1(2)]
    let ?w = "takeWhile (\<lambda>c. \<not> in_tab bl c) (drop (Suc k) y)"
    have "\<exists>s'. word_loop (Some a) (Some b) ty bl (int (Suc k)) s1 = Some (int (Suc k + length ?w), s') \<and>
        chx_to s1 ((sview s1)(a \<mapsto> (acc @ [y ! k]) @ ?w)) s'"
      by (rule Suc.hyps(1)) (use m t1 Suc.prems k in auto)
    then obtain s2 where s2: "word_loop (Some a) (Some b) ty bl (int (Suc k)) s1 = Some (int (Suc k + length ?w), s2)"
        "chx_to s1 ((sview s1)(a \<mapsto> (acc @ [y ! k]) @ ?w)) s2" by blast
    have "word_loop (Some a) (Some b) ty bl (int k) s = Some (int (k + length (takeWhile (\<lambda>c. \<not> in_tab bl c) (drop k y))), s2)"
      using p nz False d s1(1) s2(1) by (subst word_loop.simps) (simp add: add.commute)
    then show ?thesis using chx_to_trans [OF s1(2) s2(2)] t1(2) False d by simp
  qed
qed

text \<open>The next word from \<open>k\<close> on: where it starts, where it ends and what it is, if there is one.\<close>

definition next_word :: "string \<Rightarrow> string \<Rightarrow> nat \<Rightarrow> (nat \<times> nat \<times> string) option" where
  "next_word bl y k =
     (let i = k + length (takeWhile (in_tab bl) (drop k y));
          w = takeWhile (\<lambda>c. \<not> in_tab bl c) (drop i y)
      in if i < length y then Some (i, i + length w, w) else None)"

lemma chxnextword_ok:
  assumes inv: "chx_inv s" and a: "sview s a = Some x" and b: "sview s b = Some y" and ne: "a \<noteq> b"
    and tab: "tab_nextw s = Some bl" and k: "k \<le> length y"
  obtains s' where "chxnextword (Some a) (Some b) (int k) s =
      (case next_word bl y k of None \<Rightarrow> Some (-1, int (length y), s')
       | Some (i, e, w) \<Rightarrow> Some (int i, int e, s'))"
    "chx_to s (case next_word bl y k of None \<Rightarrow> sview s | Some (i, e, w) \<Rightarrow> (sview s)(a \<mapsto> w)) s'"
proof -
  define n where "n = length (takeWhile (in_tab bl) (drop k y))"
  define i where "i = k + n"
  obtain q where q: "buf (Some b) s = Some q"
      "\<forall>i \<le> length y. NUL \<in> set (drop i q) \<and> cstr (drop i q) = drop i y"
    by (rule live_buf [OF inv b])
  have il: "i \<le> length y" using length_takeWhile_le [of "in_tab bl" "drop k y"] k by (simp add: i_def n_def)
  have sk: "skip_loop bl q (int k) = Some (int i, if i < length y then y ! i else NUL)"
    using skip_loop_eq [of k q bl] q(2) k by (auto simp: Let_def i_def n_def)
  show thesis
  proof (cases "i < length y")
    case False
    then have "next_word bl y k = None" "i = length y" using il by (auto simp: next_word_def Let_def i_def n_def)
    moreover have "chxnextword (Some a) (Some b) (int k) s = Some (-1, int i, s)"
      using a b tab q(1) sk False by (simp add: chxnextword_def inline_check_simps)
    ultimately show thesis using that [of s] chx_to_refl [OF inv] by simp
  next
    case True
    have nz: "y ! i \<noteq> NUL" using live_no_NUL [OF b] True nth_mem by metis
    have nb: "\<not> in_tab bl (y ! i)"
      using nth_length_takeWhile [of "in_tab bl" "drop k y"] True k by (simp add: i_def n_def)
    define w where "w = takeWhile (\<lambda>c. \<not> in_tab bl c) (drop i y)"
    have w: "w = y ! i # takeWhile (\<lambda>c. \<not> in_tab bl c) (drop (Suc i) y)"
      using nb True Cons_nth_drop_Suc [OF True] by (simp add: w_def) (metis takeWhile.simps(2))
    have nw: "next_word bl y k = Some (i, i + length w, w)"
      using True by (simp add: next_word_def Let_def i_def n_def w_def)
    obtain s1 where s1: "chxclear (Some a) s = Some (1, s1)" "chx_to s ((sview s)(a \<mapsto> [])) s1"
      by (rule chxclear_ok [OF inv a])
    note t1 = chx_toD [OF s1(2)]
    obtain s2 where s2: "chxcatval (Some a) THIN (bval (y ! i)) s1 = Some (1, s2)"
        "chx_to s1 ((sview s1)(a \<mapsto> [y ! i])) s2"
      using chxcatval_ok [OF t1(1), of a "[]" "bval (y ! i)" THIN] t1(2) nz by auto
    note t2 = chx_toD [OF s2(2)]
    obtain s3 where s3: "word_loop (Some a) (Some b) THIN bl (int (Suc i)) s2 = Some (int (i + length w), s3)"
        "chx_to s2 ((sview s2)(a \<mapsto> w)) s3"
      using word_loop_ok [OF t2(1), of a "[y ! i]" b y "Suc i" THIN bl] t2(2) t1(2) b ne True w by auto
    have "chx_to s ((sview s)(a \<mapsto> w)) s3"
      using chx_to_trans [OF s1(2) chx_to_trans [OF s2(2) s3(2)]] t2(2) t1(2) by simp
    moreover have "chxnextword (Some a) (Some b) (int k) s = Some (int i, int (i + length w), s3)"
      using a b tab q(1) sk True nz chxtype_live [OF inv b] s1(1) s2(1) s3(1)
      by (simp add: chxnextword_def inline_check_simps add.commute)
    ultimately show thesis using that nw by simp
  qed
qed

text \<open>The first call fills the table: the registered blanks, newline and tab. The list is built in \<open>word\<close>.\<close>

definition nextw_blanks :: "chx_state \<Rightarrow> string" where
  "nextw_blanks s = (case tab_nextw s of Some bl \<Rightarrow> bl | None \<Rightarrow> blank_chars s @ [CHR 0x0A, CHR 0x09])"

lemma catval_pair_ok:
  assumes "chx_inv s" and "sview s a = Some x" and "byte u \<noteq> NUL" and "byte v \<noteq> NUL"
  obtains s1 s2 where "chxcatval (Some a) THIN u s = Some (1, s1)" "chxcatval (Some a) THIN v s1 = Some (1, s2)"
    "chx_to s ((sview s)(a \<mapsto> x @ [byte u, byte v])) s2"
proof -
  obtain s1 where s1: "chxcatval (Some a) THIN u s = Some (1, s1)" "chx_to s ((sview s)(a \<mapsto> x @ [byte u])) s1"
    by (rule chxcatval_ok [OF assms(1-3), of THIN])
  note t1 = chx_toD [OF s1(2)]
  obtain s2 where s2: "chxcatval (Some a) THIN v s1 = Some (1, s2)" "chx_to s1 ((sview s1)(a \<mapsto> (x @ [byte u]) @ [byte v])) s2"
    using chxcatval_ok [OF t1(1), of a "x @ [byte u]" v THIN] t1(2) assms(4) by auto
  show thesis using that s1(1) s2(1) chx_to_trans [OF s1(2) s2(2)] t1(2) by simp
qed

lemma chxnextword_first:
  assumes inv: "chx_inv s" and a: "sview s a = Some x" and b: "sview s b = Some y" and tab: "tab_nextw s = None"
    and bl: "blanks s = Some z" and ne: "a \<noteq> z" "a \<noteq> b"
  obtains s1 where "chxnextword (Some a) (Some b) k s = chxnextword (Some a) (Some b) k s1" "chx_inv s1"
    "sview s1 = (sview s)(a \<mapsto> nextw_blanks s)" "globs s1 = globs (s\<lparr>tab_nextw := Some (nextw_blanks s)\<rparr>)" "next_adr s \<le> next_adr s1"
proof -
  obtain t where t: "sview s z = Some t" using inv bl by (auto simp: chx_inv_def statics_ok_def)
  obtain s1 where s1: "chxspecial SC_GET SC_BLANK (Some a) s = Some (1, s1)" "chx_to s ((sview s)(a \<mapsto> t)) s1"
    by (rule chxspecial_get [OF inv bl t a])
  note t1 = chx_toD [OF s1(2)]
  obtain s2 where s2: "chxvalue (Some a) 0 s1 = Some (char_at t 0, s2)" "chx_to s1 (sview s1) s2"
    using chxvalue_ok [OF t1(1), of a t 0] t1(2) by auto
  note t2 = chx_toD [OF s2(2)]
  have t0: "char_at t 0 = 0 \<longleftrightarrow> t = []" using char_at_eq_0 [OF live_no_NUL [OF t], of 0] by simp
  have bc: "blank_chars s = (if t = [] then '' '' else t)" using bl t by (simp add: blank_chars_def)
  have by3: "byte 32 = CHR '' ''" "byte 10 = CHR 0x0A" "byte 9 = CHR 0x09" by (simp_all add: byte_def char_of_def)
  obtain s3 r where s3: "(if char_at t 0 = 0 then chxcatval (Some a) THIN 32 s2 else Some (1, s2)) = Some (r, s3)"
      "chx_to s2 ((sview s2)(a \<mapsto> blank_chars s)) s3"
  proof (cases "t = []")
    case True
    then show thesis using chxcatval_ok [OF t2(1), of a "[]" 32 THIN thesis] that t2(2) t1(2) t0 bc by3 by auto
  next
    case False
    have "sview s2 a = Some t" using t2(2) t1(2) by simp
    then show thesis using that [of 1 s2] False t0 bc chx_to_refl [OF t2(1)] by (simp add: map_upd_triv)
  qed
  note t3 = chx_toD [OF s3(2)]
  let ?bl = "blank_chars s @ [CHR 0x0A, CHR 0x09]"
  have "sview s3 a = Some (blank_chars s)" using t3(2) by simp
  then obtain s4 s5 where s5: "chxcatval (Some a) THIN 10 s3 = Some (1, s4)" "chxcatval (Some a) THIN 9 s4 = Some (1, s5)"
      "chx_to s3 ((sview s3)(a \<mapsto> ?bl)) s5"
    using catval_pair_ok [OF t3(1), of a "blank_chars s" 10 9] by3 by auto
  note t5 = chx_toD [OF s5(3)]
  obtain s6 where s6: "chxlen (Some a) s5 = Some (int (length ?bl), s6)" "chx_to s5 (sview s5) s6"
    using chxlen_ok [OF t5(1), of a ?bl] t5(2) by auto
  note t6 = chx_toD [OF s6(2)]
  obtain s7 where s7: "list_loop (Some a) 0 s6 = Some (?bl, s7)" "chx_to s6 (sview s6) s7"
    using list_loop_ok [OF t6(1), of a ?bl 0] t6(2) t5(2) by auto
  note t7 = chx_toD [OF s7(2)]
  let ?s = "s7\<lparr>tab_nextw := Some ?bl\<rparr>"
  have bls: "nextw_blanks s = ?bl" using tab by (simp add: nextw_blanks_def)
  have sv: "sview ?s = (sview s)(a \<mapsto> ?bl)" using t7(2) t6(2) t5(2) t3(2) t2(2) t1(2) by (simp add: set_tab_simps)
  have gl: "globs s7 = globs s" using t7(3) t6(3) t5(3) t3(3) t2(3) t1(3) by simp
  then have "globs ?s = globs (s\<lparr>tab_nextw := Some ?bl\<rparr>)" by (simp add: globs_def)
  moreover have "next_adr s \<le> next_adr ?s" using t7(4) t6(4) t5(4) t3(4) t2(4) t1(4) by simp
  moreover have "chx_inv ?s" using t7(1) by (simp add: set_tab_simps)
  moreover have "chxnextword (Some a) (Some b) k s = chxnextword (Some a) (Some b) k ?s"
    using a b sv ne tab s1(1) s2(1) s3(1) s5(1,2) s6(1) s7(1) by (simp add: chxnextword_def inline_check_simps)
  ultimately show thesis using that sv bls by metis
qed

text \<open>So every call, the first one too, splits with the same table.\<close>

lemma chxnextword_any:
  assumes inv: "chx_inv s" and a: "sview s a = Some x" and b: "sview s b = Some y" and ne: "a \<noteq> b"
    and bl: "blanks s \<noteq> None" "blanks s \<noteq> Some a" and k: "k \<le> length y"
  obtains w s' where "chxnextword (Some a) (Some b) (int k) s =
      (case next_word (nextw_blanks s) y k of None \<Rightarrow> Some (-1, int (length y), s')
       | Some (i, e, w) \<Rightarrow> Some (int i, int e, s'))"
    "chx_inv s'" "sview s' = (sview s)(a \<mapsto> w)" "globs s' = globs (s\<lparr>tab_nextw := Some (nextw_blanks s)\<rparr>)" "next_adr s \<le> next_adr s'"
proof -
  obtain z where z: "blanks s = Some z" "a \<noteq> z" using bl by auto
  obtain s1 x1 where s1: "chxnextword (Some a) (Some b) (int k) s = chxnextword (Some a) (Some b) (int k) s1" "chx_inv s1"
    "sview s1 = (sview s)(a \<mapsto> x1)" "globs s1 = globs (s\<lparr>tab_nextw := Some (nextw_blanks s)\<rparr>)" "next_adr s \<le> next_adr s1"
  proof (cases "tab_nextw s")
    case None
    show thesis by (rule chxnextword_first [OF inv a b None z(1,2) ne, of "int k"]) (use that in blast)
  next
    case (Some t)
    then have "globs s = globs (s\<lparr>tab_nextw := Some (nextw_blanks s)\<rparr>)" by (simp add: globs_def nextw_blanks_def)
    then show thesis using that [of s x] inv a by (simp add: map_upd_triv)
  qed
  have t1: "tab_nextw s1 = Some (nextw_blanks s)" using s1(4) by (simp add: globs_def)
  have v: "sview s1 a = Some x1" "sview s1 b = Some y" using s1(3) b ne by simp_all
  obtain s2 where s2: "chxnextword (Some a) (Some b) (int k) s1 =
      (case next_word (nextw_blanks s) y k of None \<Rightarrow> Some (-1, int (length y), s2)
       | Some (i, e, w) \<Rightarrow> Some (int i, int e, s2))"
    "chx_to s1 (case next_word (nextw_blanks s) y k of None \<Rightarrow> sview s1 | Some (i, e, w) \<Rightarrow> (sview s1)(a \<mapsto> w)) s2"
    by (rule chxnextword_ok [OF s1(2) v ne t1 k])
  note t2 = chx_toD [OF s2(2)]
  obtain w where w: "sview s2 = (sview s)(a \<mapsto> w)" using t2(2) s1(3) by (auto split: option.splits)
  have g: "globs s2 = globs (s\<lparr>tab_nextw := Some (nextw_blanks s)\<rparr>)" "next_adr s \<le> next_adr s2" using t2(3,4) s1(4,5) by simp_all
  show thesis by (rule that [OF trans [OF s1(1) s2(1)] t2(1) w g])
qed

section \<open>Reading numbers\<close>

definition is_digit :: "char \<Rightarrow> bool" where
  "is_digit c \<longleftrightarrow> digit (bval c)"

text \<open>The number \<open>chxint4\<close> reads from \<open>k\<close> on with its end.\<close>

definition read_int :: "string \<Rightarrow> string \<Rightarrow> nat \<Rightarrow> (int \<times> nat) option" where
  "read_int bl y k =
     (let j = k + length (takeWhile (in_tab bl) (drop k y));
          sign = char_at y (int j);
          j0 = (if sign = 45 \<or> sign = 43 then Suc j else j);
          ds = takeWhile is_digit (drop j0 y)
      in if ds = [] then None
         else Some (wrap32 (if sign = 45 then - dval ds else dval ds), j0 + length ds))"

lemma blank_skip_ok:
  assumes "chx_inv s" and "sview s a = Some y" and "k \<le> length y" and "NUL \<notin> set bl"
  shows "\<exists>s'. blank_skip bl (Some a) (int k) s = Some (int (k + length (takeWhile (in_tab bl) (drop k y))), s') \<and>
    chx_to s (sview s) s'"
  using assms
proof (induction "length y - k" arbitrary: k s)
  case 0
  obtain s1 where s1: "chxvalue (Some a) (int k) s = Some (char_at y (int k), s1)" "chx_to s (sview s) s1"
    by (rule chxvalue_ok [OF 0(2,3) of_nat_0_le_iff])
  have "byte 0 = NUL" by (metis byte_bval bval_NUL)
  then show ?case using 0 s1 by (subst blank_skip.simps) (simp add: char_at_def in_tab_def)
next
  case (Suc m)
  then have k: "k < length y" and m: "m = length y - Suc k" by simp_all
  have d: "drop k y = y ! k # drop (Suc k) y" using k by (simp add: Cons_nth_drop_Suc)
  obtain s1 where s1: "chxvalue (Some a) (int k) s = Some (char_at y (int k), s1)" "chx_to s (sview s) s1"
    by (rule chxvalue_ok [OF Suc.prems(1,2) of_nat_0_le_iff])
  note t1 = chx_toD [OF s1(2)]
  obtain s2 where s2: "blank_skip bl (Some a) (int (Suc k)) s1 =
      Some (int (Suc k + length (takeWhile (in_tab bl) (drop (Suc k) y))), s2)" "chx_to s1 (sview s1) s2"
    using Suc.hyps(1) [OF m t1(1), of] t1(2) Suc.prems k by auto
  show ?case using s1 s2(1) chx_to_read_trans [OF s1(2) s2(2)] byte_char_at [OF k] d
    by (subst blank_skip.simps) (auto simp: add.commute)
qed

lemma digit_loop_ok:
  assumes "chx_inv s" and "sview s a = Some y" and "k \<le> length y"
  shows "\<exists>s'. digit_loop (Some a) (int k) (wrap32 r) s =
      Some (int (k + length (takeWhile is_digit (drop k y))),
            wrap32 (foldl (\<lambda>r c. 10 * r + (bval c - 48)) r (takeWhile is_digit (drop k y))), s') \<and>
    chx_to s (sview s) s'"
  using assms
proof (induction "length y - k" arbitrary: k s r)
  case 0
  obtain s1 where s1: "chxvalue (Some a) (int k) s = Some (char_at y (int k), s1)" "chx_to s (sview s) s1"
    by (rule chxvalue_ok [OF 0(2,3) of_nat_0_le_iff])
  then show ?case using 0 by (subst digit_loop.simps) (simp add: char_at_def digit_def)
next
  case (Suc m)
  then have k: "k < length y" and m: "m = length y - Suc k" by simp_all
  have d: "drop k y = y ! k # drop (Suc k) y" using k by (simp add: Cons_nth_drop_Suc)
  obtain s1 where s1: "chxvalue (Some a) (int k) s = Some (char_at y (int k), s1)" "chx_to s (sview s) s1"
    by (rule chxvalue_ok [OF Suc.prems(1,2) of_nat_0_le_iff])
  note t1 = chx_toD [OF s1(2)]
  have v: "char_at y (int k) = bval (y ! k)" using k by (simp add: char_at_def)
  let ?ds = "takeWhile is_digit (drop (Suc k) y)" and ?r = "10 * r + (bval (y ! k) - 48)"
  obtain s2 where s2: "digit_loop (Some a) (int (Suc k)) (wrap32 ?r) s1 =
      Some (int (Suc k + length ?ds), wrap32 (foldl (\<lambda>r c. 10 * r + (bval c - 48)) ?r ?ds), s2)"
      "chx_to s1 (sview s1) s2"
    using Suc.hyps(1) [OF m t1(1), of ?r] t1(2) Suc.prems k by auto
  have "wrap32 (10 * wrap32 r + (bval (y ! k) - 48)) = wrap32 ?r"
    using wrap32_mod [of r 10 "bval (y ! k) - 48"] by (simp add: mult.commute)
  then show ?case using s1 s2(1) v chx_to_read_trans [OF s1(2) s2(2)] d
    by (subst digit_loop.simps) (auto simp: add.commute is_digit_def)
qed

lemma wrap32_neg: "wrap32 (- wrap32 a) = wrap32 (- a)"
  by (simp add: wrap32_def)

definition int4_blanks :: "chx_state \<Rightarrow> string" where
  "int4_blanks s = (case tab_int4 s of Some bl \<Rightarrow> bl | None \<Rightarrow> blank_chars s)"

lemma int4_table:
  assumes inv: "chx_inv s" and bl: "blanks s \<noteq> None"
  obtains s1 where
    "(case tab_int4 s of Some bl \<Rightarrow> Some (bl, s)
      | None \<Rightarrow> do { (bl, s) \<leftarrow> fill_blanks s; Some (bl, s\<lparr>tab_int4 := Some bl\<rparr>) }) =
     Some (int4_blanks s, s1)"
    "chx_inv s1" "sview s1 = sview s" "globs s1 = globs (s\<lparr>tab_int4 := Some (int4_blanks s)\<rparr>)" "next_adr s \<le> next_adr s1"
proof (cases "tab_int4 s")
  case None
  obtain s1 where s1: "fill_blanks s = Some (blank_chars s, s1)" "chx_to s (sview s) s1"
    by (rule fill_blanks_ok [OF inv bl])
  note t1 = chx_toD [OF s1(2)]
  show thesis using that [of "s1\<lparr>tab_int4 := Some (blank_chars s)\<rparr>"] None s1(1) t1 globs_tabs [OF t1(3)]
    by (simp add: set_tab_simps int4_blanks_def globs_def)
next
  case (Some b)
  then show thesis using that [of s] inv by (simp add: int4_blanks_def globs_def)
qed

lemma chxint4_keeps:
  assumes inv: "chx_inv s" and bl: "blanks s \<noteq> None" and a: "sview s a = Some y" and k: "k \<le> length y"
    and nul: "NUL \<notin> set (int4_blanks s)"
  obtains s' where "chxint4 (Some a) (Some (int k)) s =
      (case read_int (int4_blanks s) y k of None \<Rightarrow> Some (0, Some (int k), s')
       | Some (v, e) \<Rightarrow> Some (v, Some (int e), s'))"
    "chx_inv s'" "sview s' = sview s" "globs s' = globs (s\<lparr>tab_int4 := Some (int4_blanks s)\<rparr>)" "next_adr s \<le> next_adr s'"
proof -
  define b where "b = int4_blanks s"
  obtain s1 where s1: "(case tab_int4 s of Some bl \<Rightarrow> Some (bl, s)
      | None \<Rightarrow> do { (bl, s) \<leftarrow> fill_blanks s; Some (bl, s\<lparr>tab_int4 := Some bl\<rparr>) }) = Some (b, s1)"
      "chx_inv s1" "sview s1 = sview s" "globs s1 = globs (s\<lparr>tab_int4 := Some b\<rparr>)" "next_adr s \<le> next_adr s1"
    unfolding b_def by (rule int4_table [OF inv bl])
  have a1: "sview s1 a = Some y" using s1(3) a by simp
  obtain c where c: "heap s1 a = Some c" "int (length y) < c_maxlen c" by (rule live_block [OF s1(2) a1])
  define j where "j = k + length (takeWhile (in_tab b) (drop k y))"
  have j: "j \<le> length y" using length_takeWhile_le [of "in_tab b" "drop k y"] k by (simp add: j_def)
  obtain s2 where s2: "blank_skip b (Some a) (int k) s1 = Some (int j, s2)" "chx_to s1 (sview s1) s2"
    using blank_skip_ok [OF s1(2) a1 k nul] by (auto simp: b_def j_def)
  note t2 = chx_toD [OF s2(2)]
  define sign where "sign = char_at y (int j)"
  obtain s3 where s3: "chxvalue (Some a) (int j) s2 = Some (sign, s3)" "chx_to s2 (sview s2) s3"
    using chxvalue_ok [OF t2(1), of a y "int j"] t2(2) a1 by (auto simp: sign_def)
  note t3 = chx_toD [OF s3(2)]
  define j0 where "j0 = (if sign = 45 \<or> sign = 43 then Suc j else j)"
  have j0: "j0 \<le> length y" using j by (auto simp: j0_def sign_def char_at_def split: if_splits)
  let ?ds = "takeWhile is_digit (drop j0 y)"
  have w0: "wrap32 0 = 0" by (simp add: wrap32_id)
  obtain s4 where s4: "digit_loop (Some a) (int j0) 0 s3 = Some (int (j0 + length ?ds), wrap32 (dval ?ds), s4)"
      "chx_to s3 (sview s3) s4"
    using digit_loop_ok [OF t3(1), of a y j0 0] t3(2) t2(2) a1 j0 by (auto simp: dval_def w0)
  have "sview s4 = sview s" "chx_inv s4" "globs s4 = globs (s\<lparr>tab_int4 := Some b\<rparr>)" "next_adr s \<le> next_adr s4"
    using chx_toD [OF s4(2)] t3 t2 s1(3-5) by auto
  moreover have ji: "(if sign = 45 \<or> sign = 43 then int j + 1 else int j) = int j0" by (simp add: j0_def)
  moreover have rd: "read_int b y k = (if ?ds = [] then None
      else Some (wrap32 (if sign = 45 then - dval ?ds else dval ?ds), j0 + length ?ds))"
    by (simp only: read_int_def Let_def j_def sign_def j0_def)
  moreover have "chxint4 (Some a) (Some (int k)) s =
      (case read_int b y k of None \<Rightarrow> Some (0, Some (int k), s4) | Some (v, e) \<Rightarrow> Some (v, Some (int e), s4))"
    using s1(1) a1 c k s2(1) s3(1) s4(1) wrap32_neg [of "dval ?ds"]
    by (simp add: chxint4_def inline_check_simps deref_simps ji Let_def rd)
  ultimately show thesis using that by (simp add: b_def)
qed

lemma chxint4_ok:
  assumes "chx_inv s" and "blanks s \<noteq> None" and "sview s a = Some y" and "k \<le> length y" and "NUL \<notin> set (int4_blanks s)"
  obtains s' where "chxint4 (Some a) (Some (int k)) s =
      (case read_int (int4_blanks s) y k of None \<Rightarrow> Some (0, Some (int k), s')
       | Some (v, e) \<Rightarrow> Some (v, Some (int e), s'))"
    "chx_inv s'" "sview s' = sview s"
  by (rule chxint4_keeps [OF assms])

text \<open>What a call of \<open>chxint4\<close> keeps of the statics: only its own table of blanks may be filled.\<close>

lemma int4_globs:
  assumes "globs s' = globs (s\<lparr>tab_int4 := Some (int4_blanks s)\<rparr>)"
  shows "int4_blanks s' = int4_blanks s" "blanks s' = blanks s" "rules s' = rules s" "ctab s' = ctab s"
    "tab_token s' = tab_token s" "tab_nextw s' = tab_nextw s" "tab_int4 s' = Some (int4_blanks s)" "tab_blank s' = tab_blank s"
  using assms by (simp_all add: globs_def int4_blanks_def)

lemma chxnum_ok:
  assumes inv: "chx_inv s" and bl: "blanks s \<noteq> None" and a: "sview s a = Some y"
    and nul: "NUL \<notin> set (int4_blanks s)"
  obtains s' where "chxnum (Some a) (Some v0) s =
      (case read_int (int4_blanks s) y 0 of None \<Rightarrow> Some (0, Some 0, s') | Some (v, e) \<Rightarrow> Some (1, Some v, s'))"
    "chx_inv s'" "sview s' = sview s"
proof -
  obtain s' where s': "chxint4 (Some a) (Some (int 0)) s =
      (case read_int (int4_blanks s) y 0 of None \<Rightarrow> Some (0, Some (int 0), s')
       | Some (v, e) \<Rightarrow> Some (v, Some (int e), s'))" "chx_inv s'" "sview s' = sview s"
    by (rule chxint4_ok [OF inv bl a le0 nul])
  have "read_int (int4_blanks s) y 0 = Some (v, e) \<Longrightarrow> e \<noteq> 0" for v e
    by (auto simp: read_int_def Let_def split: if_splits)
  then have "chxnum (Some a) (Some v0) s =
      (case read_int (int4_blanks s) y 0 of None \<Rightarrow> Some (0, Some 0, s') | Some (v, e) \<Rightarrow> Some (1, Some v, s'))"
    using a s'(1) by (auto simp: chxnum_def inline_check_simps split: option.splits)
  then show thesis using that s'(2,3) by blast
qed

text \<open>Printed numbers are read back.\<close>

lemma is_digit_show: "c \<in> set (show_nat n) \<Longrightarrow> is_digit c"
  using show_nat_range by (simp add: is_digit_def digit_def)

text \<open>A number at the place \<open>length p\<close>, up to a character that is no digit.\<close>

lemma read_show_at:
  assumes v: "- (2 ^ 31) \<le> v" "v < 2 ^ 31" and bl: "\<forall>c \<in> set bl. \<not> is_digit c" "CHR ''-'' \<notin> set bl"
    and r: "r = [] \<or> \<not> is_digit (hd r)"
  shows "read_int bl (p @ show_int v @ r) (length p) = Some (v, length p + length (show_int v))"
proof -
  have tw: "takeWhile is_digit (show_nat n @ r) = show_nat n" for n
    using is_digit_show r by (cases r) (auto simp: takeWhile_append)
  have m: "bval (CHR ''-'') = 45" by (simp add: bval_def)
  show ?thesis
  proof (cases "v < 0")
    case True
    then have x: "show_int v = CHR ''-'' # show_nat (nat (- v))" by (simp add: show_int_def)
    then show ?thesis using m v True bl(2)
      by (simp add: read_int_def char_at_def tw show_nat_not_Nil dval_show wrap32_id in_tab_def nth_append)
  next
    case False
    then have x: "show_int v = show_nat (nat v)" by (simp add: show_int_def)
    obtain c t where c: "show_nat (nat v) = c # t" using show_nat_not_Nil by (metis list.exhaust)
    have dc: "is_digit c" using is_digit_show [of c "nat v"] c by simp
    then have tb: "takeWhile (in_tab bl) (c # t @ r) = []" using bl(1) by (auto simp: in_tab_def)
    have "char_at (p @ show_int v @ r) (int (length p)) = bval c" using c x by (simp add: char_at_def nth_append)
    moreover have "bval c \<noteq> 45" "bval c \<noteq> 43" using dc by (auto simp: is_digit_def digit_def)
    ultimately show ?thesis using x v False tw [of "nat v"] tb c dval_show [of "nat v"]
      by (simp add: read_int_def show_nat_not_Nil wrap32_id Let_def)
  qed
qed

lemma read_show:
  assumes "- (2 ^ 31) \<le> v" and "v < 2 ^ 31" and "\<forall>c \<in> set bl. \<not> is_digit c" and "CHR ''-'' \<notin> set bl"
  shows "read_int bl (show_int v) 0 = Some (v, length (show_int v))"
  using read_show_at [OF assms, of "[]" "[]"] by simp

section \<open>Start-up\<close>

lemma set_rules_simps [chx_simps]:
  "sview (s\<lparr>rules := r\<rparr>) = sview s" "chx_inv (s\<lparr>rules := r\<rparr>) = chx_inv s"
  "next_adr (s\<lparr>rules := r\<rparr>) = next_adr s" "blanks (s\<lparr>rules := r\<rparr>) = blanks s"
  by (simp_all add: sview_def fun_eq_iff chx_inv_def heap_ok_def statics_ok_def)

lemma set_blanks_simps [chx_simps]:
  "sview (s\<lparr>blanks := b\<rparr>) = sview s"
  "chx_inv s \<Longrightarrow> sview s z \<noteq> None \<Longrightarrow> chx_inv (s\<lparr>blanks := Some z\<rparr>)"
  by (auto simp: sview_def fun_eq_iff chx_inv_def heap_ok_def statics_ok_def)

lemma chxspecial_set_first:
  assumes inv: "chx_inv s" and b: "blanks s = None" and a: "sview s a = Some x"
  obtains s' where "chxspecial SC_SET SC_BLANK (Some a) s = Some (1, s')" "chx_inv s'"
    "sview s' = (sview s)(next_adr s \<mapsto> x)" "blanks s' = Some (next_adr s)" "rules s' = rules s"
proof -
  define z where "z = next_adr s"
  obtain s1 where s1: "chxalloc 16 THIN ''chxspecial blanks'' s = (z, s1)" "chx_to s ((sview s)(z \<mapsto> [])) s1"
    using chxalloc_ok [OF inv] z_def by metis
  note t1 = chx_toD [OF s1(2)]
  have ne: "a \<noteq> z" using live_less [OF inv a] by (simp add: z_def)
  let ?s1 = "s1\<lparr>blanks := Some z\<rparr>"
  have i1: "chx_inv ?s1" "sview ?s1 = (sview s)(z \<mapsto> [])" using t1 by (simp_all add: set_blanks_simps)
  obtain s2 where s2: "chxcpy (Some z) (Some a) ?s1 = Some (1, s2)" "chx_to ?s1 ((sview ?s1)(z \<mapsto> x)) s2"
    using chxcpy_ok [OF i1(1), of z "[]" a x] i1(2) a ne by auto
  note t2 = chx_toD [OF s2(2)]
  have "chxspecial SC_SET SC_BLANK (Some a) s = Some (1, s2)"
    using a b s1(1) s2(1) by (simp add: chxspecial_def inline_check_simps SC_SET_def Let_def)
  then show thesis using that [of s2] t2 i1(2) globs_tabs [OF t2(3)] globs_tabs [OF t1(3)] by (simp add: z_def)
qed

definition init_rules :: "rule_t list" where
  "init_rules = [\<lparr>r_a = 33, r_b = 33, r_c = 0, r_i = 0\<rparr>, \<lparr>r_a = 126, r_b = 126, r_c = LASTVALUE, r_i = 0\<rparr>]"

lemma chx_init_ok:
  assumes inv: "chx_inv s" and b: "blanks s = None" and ty: "type = ASCII \<or> type = ISO8859"
  obtains s' z where "chx_init bug type s = Some (1, s')" "chx_inv s'" "blanks s' = Some z"
    "sview s' z = Some [CHR '' '', CHR 0x0A, CHR 0x09]" "rules s' = init_rules"
    "\<forall>a x. sview s a = Some x \<longrightarrow> sview s' a = Some x"
proof -
  define b where "b = next_adr s"
  have by32: "byte 32 = CHR '' ''" "byte 10 = CHR 0x0A" "byte 9 = CHR 0x09"
    by (simp_all add: byte_def char_of_def)
  obtain s1 where s1: "chxalloc 8 THIN ''chxinit blanks'' s = (b, s1)" "chx_to s ((sview s)(b \<mapsto> [])) s1"
    using chxalloc_ok [OF inv] b_def by metis
  note t1 = chx_toD [OF s1(2)]
  let ?s1 = "s1\<lparr>rules := init_rules\<rparr>"
  have i1: "chx_inv ?s1" "sview ?s1 = (sview s)(b \<mapsto> [])" using t1 by (simp_all add: set_rules_simps)
  obtain s2 where s2: "chxcatval (Some b) THIN 32 ?s1 = Some (1, s2)" "chx_to ?s1 ((sview ?s1)(b \<mapsto> '' '')) s2"
    using chxcatval_ok [OF i1(1), of b "[]" 32 THIN] i1(2) by32 by auto
  note t2 = chx_toD [OF s2(2)]
  obtain s3 where s3: "chxcatval (Some b) THIN 10 s2 = Some (1, s3)" "chx_to s2 ((sview s2)(b \<mapsto> [CHR '' '', CHR 0x0A])) s3"
    using chxcatval_ok [OF t2(1), of b "'' ''" 10 THIN] t2(2) by32 by auto
  note t3 = chx_toD [OF s3(2)]
  let ?bl = "[CHR '' '', CHR 0x0A, CHR 0x09]"
  obtain s4 where s4: "chxcatval (Some b) THIN 9 s3 = Some (1, s4)" "chx_to s3 ((sview s3)(b \<mapsto> ?bl)) s4"
    using chxcatval_ok [OF t3(1), of b "[CHR '' '', CHR 0x0A]" 9 THIN] t3(2) by32 by auto
  note t4 = chx_toD [OF s4(2)]
  have g4: "blanks s4 = None" "rules s4 = init_rules"
    using globs_tabs [OF t4(3)] globs_tabs [OF t3(3)] globs_tabs [OF t2(3)] globs_tabs [OF t1(3)] assms(2) by simp_all
  have v4: "sview s4 = (sview s)(b \<mapsto> ?bl)" using t4(2) t3(2) t2(2) i1(2) by simp
  obtain s5 where s5: "chxspecial SC_SET SC_BLANK (Some b) s4 = Some (1, s5)" "chx_inv s5"
      "sview s5 = (sview s4)(next_adr s4 \<mapsto> ?bl)" "blanks s5 = Some (next_adr s4)" "rules s5 = rules s4"
    using chxspecial_set_first [OF t4(1) g4(1), of b ?bl] v4 by auto
  have "sview s5 a = Some x" if "sview s a = Some x" for a x
  proof -
    have "a \<noteq> b" using live_less [OF inv that] by (simp add: b_def)
    then have "sview s4 a = Some x" using v4 that by simp
    then show ?thesis using live_less [OF t4(1)] s5(3) by fastforce
  qed
  moreover have "chx_init bug type s = Some (1, s5)"
    using ty s1(1) s2(1) s3(1) s4(1) s5(1)
    by (auto simp: chx_init_def chxcollate_def CLEAR_CT_def ADDRULE_CT_def ASCII_def ISO8859_def JIX_def init_rules_def)
  ultimately show thesis using that [of s5 "next_adr s4"] s5 g4 by simp
qed

lemma init_col_inj: "inj_on (col init_rules) {c. c \<noteq> NUL}"
proof (rule inj_onI)
  fix c d assume a: "c \<in> {c. c \<noteq> NUL}" "d \<in> {c. c \<noteq> NUL}" and e: "col init_rules c = col init_rules d"
  have cv: "col init_rules c = (if bval c = 33 then 0 else if bval c = 126 then 100000 else bval c)" for c
    by (simp add: col_def init_rules_def LASTVALUE_def)
  have key: "p = q" if "p \<noteq> 0" "q \<noteq> 0" "p < 256" "q < 256"
    "(if p = 33 then 0 else if p = 126 then 100000 else p) = (if q = 33 then 0 else if q = 126 then 100000 else q)"
    for p q :: int using that by (auto split: if_splits)
  have "bval c \<noteq> 0" "bval d \<noteq> 0" using a by auto
  then have "bval c = bval d" by (rule key) (simp_all only: e [unfolded cv] bval_range)
  then show "c = d" by simp
qed

section \<open>Copies to C strings\<close>

lemma asc_loop_eq:
  assumes p: "cstr p = x" "length (cstr p) < length p" and i: "i \<le> length x"
    and "j \<le> length (drop i x)" and "int j \<le> n - 1" and "min (length (drop i x)) (nat (n - 1)) < length t"
    and "take j t = take j (drop i x)"
  shows "\<exists>t'. asc_loop t p (int i) n (int j) =
      Some (if int (length (drop i x)) \<le> n - 1 then 0 else n - 1, t') \<and>
    cstr t' = take (nat (n - 1)) (drop i x) \<and> length t' = length t"
  using assms(4-7)
proof (induction "length (drop i x) - j" arbitrary: j t rule: less_induct)
  case less
  have "i + j = length x" if "\<not> i + j < length x" using that less.prems(1) i by simp
  then have rd: "rd p (int i + int j) = Some (if i + j < length x then x ! (i + j) else NUL)"
    using p cstr_nth [of "i + j" p] cstr_nth_end [of p]
    by (cases "i + j < length x") (auto simp: rd_def nat_add_distrib)
  have nn: "NUL \<notin> set x" using p(1) by auto
  show ?case
  proof (cases "i + j < length x \<and> int j < n - 1")
    case True
    then have nz: "x ! (i + j) \<noteq> NUL" using nn by (metis nth_mem)
    let ?t = "t[j := x ! (i + j)]"
    have jt: "j < length t" using True less.prems(3) by auto
    have jd: "j < length (drop i x)" using True by auto
    have "take (Suc j) ?t = take j t @ [x ! (i + j)]" using jt by (simp add: take_Suc_conv_app_nth)
    also have "\<dots> = take (Suc j) (drop i x)"
      using take_Suc_conv_app_nth [OF jd] less.prems(4) True by simp
    finally have "take (Suc j) ?t = take (Suc j) (drop i x)" .
    then have "\<exists>t'. asc_loop ?t p (int i) n (int (Suc j)) =
        Some (if int (length (drop i x)) \<le> n - 1 then 0 else n - 1, t') \<and>
        cstr t' = take (nat (n - 1)) (drop i x) \<and> length t' = length ?t"
      by (intro less.hyps) (use True less.prems in auto)
    then show ?thesis using True rd nz jt by (subst asc_loop.simps) (simp add: add.commute)
  next
    case False
    have jm: "j = min (length (drop i x)) (nat (n - 1))" using False less.prems(1,2) by auto
    then have jt: "j < length t" using less.prems(3) by simp
    have "NUL \<notin> set (take j (drop i x))" using nn by (auto dest!: in_set_takeD in_set_dropD)
    then have "cstr (t[j := NUL]) = take j (drop i x)"
      using less.prems(4) jt by (simp add: upd_conv_take_nth_drop)
    also have "\<dots> = take (nat (n - 1)) (drop i x)" using jm by (auto simp: min_def)
    finally have c: "cstr (t[j := NUL]) = take (nat (n - 1)) (drop i x)" .
    have nz: "i + j < length x \<Longrightarrow> x ! (i + j) \<noteq> NUL" using nn by (metis nth_mem)
    have "asc_loop t p (int i) n (int j) = Some (if i + j < length x then int j else 0, t[j := NUL])"
      using False rd nz jt by (subst asc_loop.simps) auto
    moreover have "(if i + j < length x then int j else 0) =
        (if int (length (drop i x)) \<le> n - 1 then 0 else n - 1)" using jm less.prems(1,2) i by auto
    ultimately show ?thesis using c by simp
  qed
qed

lemma ascofchx_ok:
  assumes inv: "chx_inv s" and a: "sview s a = Some x" and i: "i \<le> length x" and n: "1 \<le> n"
    and room: "min (length (drop i x)) (nat (n - 1)) < length t"
  obtains t' where "ascofchx (Some t) (Some a) (int i) n s =
      Some (if int (length (drop i x)) \<le> n - 1 then 0 else n - 1, Some t', s)"
    "cstr t' = take (nat (n - 1)) (drop i x)"
proof -
  obtain c p where c: "heap s a = Some c" "c_p c = Some p" "cstr p = x" "c_type c = THIN"
      "c_maxlen c + 1 \<le> int (length p)" "int (length x) < c_maxlen c"
    by (rule live_block [OF inv a])
  have "\<exists>t'. asc_loop (t[0 := NUL]) p (int i) n (int 0) =
      Some (if int (length (drop i x)) \<le> n - 1 then 0 else n - 1, t') \<and>
    cstr t' = take (nat (n - 1)) (drop i x) \<and> length t' = length (t[0 := NUL])"
    by (rule asc_loop_eq) (use c i n room in auto)
  moreover have "n \<noteq> ALLCHARS" using n by (simp add: ALLCHARS_def)
  moreover have "t \<noteq> []" using room by auto
  ultimately show thesis using that a c(1,2,4,6) i
    by (auto simp: ascofchx_def inline_check_simps deref_simps THIN_def wr_def)
qed

lemma asciifull_ok:
  assumes inv: "chx_inv s" and a: "sview s a = Some x"
  obtains b s' where "asciifull (Some a) s = Some (b, s')" "cstr b = x" "chx_to s (sview s) s'"
proof -
  obtain s1 where s1: "chxlen (Some a) s = Some (int (length x), s1)" "chx_to s (sview s) s1"
    by (rule chxlen_ok [OF inv a])
  note t1 = chx_toD [OF s1(2)]
  have a1: "sview s1 a = Some x" using t1(2) a by simp
  show thesis
  proof (cases "x = []")
    case True
    have "wr (chxmem 12) 0 NUL = Some (chxmem 12)" by (simp add: wr_def chxmem_def numeral_eq_Suc)
    moreover have "cstr (chxmem 12) = []" by (simp add: chxmem_def numeral_eq_Suc)
    ultimately show thesis using that [of "chxmem 12" s1] True s1 by (simp add: asciifull_def)
  next
    case False
    let ?n = "int (length x) + 4"
    obtain t' where t': "ascofchx (Some (chxmem ?n)) (Some a) (int 0) ?n s1 =
        Some (if int (length (drop 0 x)) \<le> ?n - 1 then 0 else ?n - 1, Some t', s1)"
        "cstr t' = take (nat (?n - 1)) (drop 0 x)"
      by (rule ascofchx_ok [OF t1(1) a1 le0, of ?n "chxmem ?n"]) (auto simp: chxmem_def)
    then have "asciifull (Some a) s = Some (t', s1)"
      using False s1(1) chxtype_live [OF t1(1) a1] by (simp add: asciifull_def THIN_def Let_def)
    then show thesis using that [of t' s1] t'(2) s1(2) by simp
  qed
qed

section \<open>Reading a text line by line\<close>

text \<open>
  The callers' loop \<open>for (pos = 0; chxnextline (line, text, &pos); )\<close>: the lines seen, with fuel for the
  number of calls.
\<close>

fun read_lines :: "nat \<Rightarrow> nat \<Rightarrow> Chix \<Rightarrow> int \<Rightarrow> chx_state \<Rightarrow> (string list \<times> chx_state) option" where
  "read_lines 0 a b pos s = None"
| "read_lines (Suc n) a b pos s = do {
     (r, pos, s) \<leftarrow> chxnextline (Some a) b pos s;
     if r = 0 then Some ([], s)
     else do {
       (ls, s') \<leftarrow> read_lines n a b pos s;
       Some (text_at s a # ls, s') } }"

abbreviation newline :: char where "newline \<equiv> CHR 0x0A"

lemma line_split:
  "has_newline y = 1 \<Longrightarrow> y = line_of y @ newline # drop (Suc (length (line_of y))) y"
  "has_newline y = 0 \<Longrightarrow> line_of y = y"
proof -
  show "has_newline y = 0 \<Longrightarrow> line_of y = y"
    by (auto simp: has_newline_def line_of_def takeWhile_eq_all_conv split: if_splits)
  assume "has_newline y = 1"
  then have "\<exists>c \<in> set y. \<not> c \<noteq> newline" by (simp add: has_newline_def split: if_splits)
  then have "dropWhile (\<lambda>c. c \<noteq> newline) y \<noteq> []" by (auto simp: dropWhile_eq_Nil_conv)
  moreover then have "hd (dropWhile (\<lambda>c. c \<noteq> newline) y) = newline" using hd_dropWhile [of "\<lambda>c. c \<noteq> newline" y] by simp
  ultimately obtain r where r: "dropWhile (\<lambda>c. c \<noteq> newline) y = newline # r"
    by (cases "dropWhile (\<lambda>c. c \<noteq> newline) y") auto
  then have y: "y = line_of y @ newline # r"
    using takeWhile_dropWhile_id [of "\<lambda>c. c \<noteq> newline" y] by (simp add: line_of_def)
  have "drop (Suc (length (line_of y))) y = drop (Suc (length (line_of y))) (line_of y @ newline # r)" using y by simp
  then have "drop (Suc (length (line_of y))) y = r" by simp
  then show "y = line_of y @ newline # drop (Suc (length (line_of y))) y" using y by simp
qed

lemma has_newline_cases: "has_newline y = 0 \<or> has_newline y = 1"
  by (simp add: has_newline_def)

lemma read_lines_ok:
  assumes "chx_inv s" and "sview s a \<noteq> None" and "sview s b = Some y" and "a \<noteq> b" and "k \<le> length y" and "length y - k < n"
  shows "\<exists>ls s'. read_lines n a (Some b) (int k) s = Some (ls, s') \<and> chx_inv s' \<and> sview s' b = Some y \<and>
    (\<forall>l \<in> set ls. newline \<notin> set l) \<and>
    (concat (map (\<lambda>l. l @ [newline]) ls) = drop k y \<or> concat (map (\<lambda>l. l @ [newline]) ls) = drop k y @ [newline])"
  using assms
proof (induction n arbitrary: k s)
  case (Suc n)
  obtain x where x: "sview s a = Some x" using Suc.prems(2) by blast
  show ?case
  proof (cases "k = length y")
    case True
    then show ?thesis using chxnextline_end [OF Suc.prems(1) x Suc.prems(3)] Suc.prems by simp
  next
    case False
    then have k: "k < length y" using Suc.prems(5) by simp
    define d where "d = drop k y"
    define m where "m = k + length (line_of d) + nat (has_newline d)"
    have d: "d \<noteq> []" using k by (simp add: d_def)
    have hn: "has_newline d = 0 \<or> has_newline d = 1" by (rule has_newline_cases)
    obtain s1 where s1: "chxnextline (Some a) (Some b) (int k) s = Some (1 + has_newline d, int m, s1)"
        "chx_to s ((sview s)(a \<mapsto> line_of d)) s1"
    proof (rule chxnextline_ok [OF Suc.prems(1) x Suc.prems(3,4) k])
      fix s1
      assume "chxnextline (Some a) (Some b) (int k) s =
          Some (1 + has_newline (drop k y), int k + int (length (line_of (drop k y))) + has_newline (drop k y), s1)"
        "chx_to s ((sview s)(a \<mapsto> line_of (drop k y))) s1"
      moreover have "int m = int k + int (length (line_of (drop k y))) + has_newline (drop k y)"
        using hn by (auto simp: m_def d_def)
      ultimately show thesis using that [of s1] by (simp add: d_def)
    qed
    note t = chx_toD [OF s1(2)]
    have split: "drop k y = line_of d @ (if has_newline d = 1 then [newline] else []) @ drop m y"
      and step: "k < m" "m \<le> length y"
    proof -
      show "drop k y = line_of d @ (if has_newline d = 1 then [newline] else []) @ drop m y"
        using hn
      proof
        assume h: "has_newline d = 1"
        then show ?thesis using line_split(1) [of d] by (simp add: m_def d_def add.commute)
      qed (use line_split(2) [of d] in \<open>simp add: m_def d_def [symmetric]\<close>, simp add: d_def)
      from arg_cong [OF this, of length] show "m \<le> length y" using hn k by (auto simp: m_def d_def)
      show "k < m" using hn d line_split(2) [of d] by (auto simp: m_def)
    qed
    have b1: "sview s1 b = Some y" using t(2) Suc.prems(3,4) by simp
    obtain ls s' where ih: "read_lines n a (Some b) (int m) s1 = Some (ls, s')" "chx_inv s'" "sview s' b = Some y"
        "\<forall>l \<in> set ls. newline \<notin> set l"
        "concat (map (\<lambda>l. l @ [newline]) ls) = drop m y \<or> concat (map (\<lambda>l. l @ [newline]) ls) = drop m y @ [newline]"
    proof -
      have "sview s1 a \<noteq> None" "length y - m < n" using t(2) step Suc.prems(6) k by auto
      from Suc.IH [OF t(1) this(1) b1 Suc.prems(4) step(2) this(2)] show thesis using that by blast
    qed
    have r: "read_lines (Suc n) a (Some b) (int k) s = Some (line_of d # ls, s')"
      using s1(1) ih(1) t(2) hn by (auto simp: text_at_def)
    have "newline \<notin> set (line_of d)" by (auto simp: line_of_def dest: set_takeWhileD)
    moreover have "concat (map (\<lambda>l. l @ [newline]) (line_of d # ls)) = drop k y \<or>
        concat (map (\<lambda>l. l @ [newline]) (line_of d # ls)) = drop k y @ [newline]"
    proof (cases "has_newline d = 1")
      case True
      then show ?thesis using ih(5) split by auto
    next
      case False
      then have h: "has_newline d = 0" using hn by simp
      then have "m = length y" using line_split(2) [OF h] k by (simp add: m_def d_def)
      moreover have "read_lines n a (Some b) (int (length y)) s1 = Some (ls, s') \<Longrightarrow> ls = []"
        using chxnextline_end [OF t(1) _ b1, of a "line_of d"] t(2) by (cases n) auto
      ultimately show ?thesis using ih(1) split h by simp
    qed
    ultimately show ?thesis using r ih by auto
  qed
qed simp

section \<open>What simplifying guarantees\<close>

definition spaced :: "string \<Rightarrow> bool" where
  "spaced x \<longleftrightarrow> successively (\<lambda>c d. c \<noteq> CHR 0x20 \<or> d \<noteq> CHR 0x20) x"

lemma squeeze_hd: "squeeze (d # x) \<noteq> [] \<and> hd (squeeze (d # x)) = d"
proof (induction x arbitrary: d)
  case (Cons e x)
  then show ?case by auto
qed simp

lemma squeeze_spaced: "spaced (squeeze x)"
proof (induction x rule: squeeze.induct)
  case (1 c d x)
  then show ?case using squeeze_hd [of d x] by (auto simp: spaced_def successively_Cons)
qed (auto simp: spaced_def)

lemma squeeze_filter: "filter (\<lambda>c. c \<noteq> CHR 0x20) (squeeze x) = filter (\<lambda>c. c \<noteq> CHR 0x20) x"
  by (induction x rule: squeeze.induct) auto

lemma spaced_squeeze: "spaced x \<Longrightarrow> squeeze x = x"
  by (induction x rule: squeeze.induct) (auto simp: spaced_def successively_Cons)

lemma spaced_append: "spaced (u @ v) \<Longrightarrow> spaced u \<and> spaced v"
  by (auto simp: spaced_def successively_append_iff)

lemma strip_end_split: "\<exists>v. x = strip_end blank x @ v \<and> (\<forall>c \<in> set v. blank c)"
proof -
  have "rev x = takeWhile blank (rev x) @ dropWhile blank (rev x)" by simp
  then have "x = strip_end blank x @ rev (takeWhile blank (rev x))" unfolding strip_end_def by (metis rev_append rev_rev_ident)
  then show ?thesis by (intro exI [of _ "rev (takeWhile blank (rev x))"]) (auto dest: set_takeWhileD)
qed

lemma strip_end_last: "strip_end blank x \<noteq> [] \<Longrightarrow> \<not> blank (last (strip_end blank x))"
  using hd_dropWhile [of blank "rev x"] by (auto simp: strip_end_def last_rev)

lemma strip_end_id: "x = [] \<or> \<not> blank (last x) \<Longrightarrow> strip_end blank x = x"
  by (cases x rule: rev_cases) (auto simp: strip_end_def)

lemma simplify_facts:
  shows "filter (\<lambda>c. c \<noteq> CHR 0x20) (simplify_str x) = filter (\<lambda>c. c \<noteq> CHR 0x20) x" (is ?keep)
    and "simplify_str x = [] \<or> hd (simplify_str x) \<noteq> CHR 0x20 \<and> last (simplify_str x) \<noteq> CHR 0x20" (is ?ends)
    and "\<forall>u v. simplify_str x \<noteq> u @ [CHR 0x20, CHR 0x20] @ v" (is ?pairs)
    and "simplify_str (simplify_str x) = simplify_str x" (is ?again)
proof -
  let ?b = "\<lambda>c. c = CHR 0x20"
  define z where "z = dropWhile ?b (squeeze x)"
  define y where "y = simplify_str x"
  have y: "y = strip_end ?b z" by (simp add: y_def z_def simplify_str_def)
  obtain v where v: "z = y @ v" "\<forall>c \<in> set v. ?b c" using strip_end_split [of z ?b] y by blast
  have sq: "squeeze x = takeWhile ?b (squeeze x) @ y @ v" using takeWhile_dropWhile_id [of ?b "squeeze x"] z_def v(1) by simp
  have "filter (\<lambda>c. \<not> ?b c) (squeeze x) = filter (\<lambda>c. \<not> ?b c) y"
    using arg_cong [OF sq, of "filter (\<lambda>c. \<not> ?b c)"] v(2) by (simp add: filter_empty_conv) (auto simp: filter_empty_conv dest: set_takeWhileD)
  then show ?keep using squeeze_filter [of x] by (simp add: y_def)
  have sp: "spaced y" using spaced_append spaced_append squeeze_spaced [of x] sq by metis
  then show ?pairs using spaced_append by (fastforce simp: y_def [symmetric] spaced_def successively_append_iff)
  have "y \<noteq> [] \<Longrightarrow> hd y \<noteq> CHR 0x20" using v(1) hd_dropWhile [of ?b "squeeze x"] by (cases y) (auto simp: z_def)
  moreover have "y \<noteq> [] \<Longrightarrow> last y \<noteq> CHR 0x20" using strip_end_last [of ?b z] y by simp
  ultimately show e: ?ends by (auto simp: y_def)
  have "dropWhile ?b y = y" using e by (cases y) (auto simp: y_def [symmetric])
  moreover have "strip_end ?b y = y" by (rule strip_end_id) (use e in \<open>auto simp: y_def [symmetric]\<close>)
  ultimately have "simplify_str y = y" using spaced_squeeze [OF sp] by (simp add: simplify_str_def)
  then show ?again by (simp add: y_def)
qed

section \<open>A started store\<close>

text \<open>
  A sample store after start-up: the blanks at address 1, the ten chix of \<open>chxquick\<close> at 2 to 11, the given
  strings from 12 on.
\<close>

definition started_store :: "string list \<Rightarrow> chx_state" where
  "started_store ts = (store_of ([CHR '' '', CHR 0x0A, CHR 0x09] # replicate 10 [] @ ts))
     \<lparr>blanks := Some 1, rules := init_rules, ctab := map Some [2..<12]\<rparr>"

lemma started_sview:
  assumes "\<forall>t \<in> set ts. NUL \<notin> set t"
  shows "sview (started_store ts) a =
    (if a = 1 then Some [CHR '' '', CHR 0x0A, CHR 0x09] else if 2 \<le> a \<and> a \<le> 11 then Some []
     else if 12 \<le> a \<and> a \<le> 11 + length ts then Some (ts ! (a - 12)) else None)"
proof -
  let ?all = "[CHR '' '', CHR 0x0A, CHR 0x09] # replicate 10 [] @ ts"
  have "\<forall>t \<in> set ?all. NUL \<notin> set t" using assms by auto
  note v = store_of_sview [OF this, of a]
  have same: "sview (started_store ts) a = sview (store_of ?all) a"
    by (simp add: started_store_def sview_def)
  consider "a = 0" | "a = 1" | "2 \<le> a" "a \<le> 11" | "12 \<le> a" by linarith
  then show ?thesis using same v
  proof cases
    case 3
    then have "?all ! (a - 1) = []" by (simp add: nth_Cons' nth_append)
    then show ?thesis using same v 3 by simp
  next
    case 4
    have "?all ! (a - 1) = ts ! (a - 12)" if "a \<le> 11 + length ts"
    proof -
      obtain k where "a = k + 12" using 4 by (metis le_add_diff_inverse2)
      then show ?thesis by (simp add: nth_Cons' nth_append)
    qed
    then show ?thesis using same v 4 by auto
  qed simp_all
qed

lemma started_inv:
  assumes "\<forall>t \<in> set ts. NUL \<notin> set t"
  shows "chx_inv (started_store ts)"
proof -
  let ?all = "[CHR '' '', CHR 0x0A, CHR 0x09] # replicate 10 [] @ ts"
  have "\<forall>t \<in> set ?all. NUL \<notin> set t" using assms by auto
  then have "heap_ok (store_of ?all)" using store_of_inv by (simp add: chx_inv_def)
  then have "heap_ok (started_store ts)" by (simp add: heap_ok_def started_store_def)
  moreover have "next_adr (started_store ts) = 12 + length ts" by (simp add: started_store_def store_of_def)
  ultimately show ?thesis using started_sview [OF assms, of 1]
    by (auto simp: chx_inv_def statics_ok_def started_store_def)
qed

lemma started_statics [simp]:
  "blanks (started_store ts) = Some 1" "rules (started_store ts) = init_rules" "ctab (started_store ts) = map Some [2..<12]"
  "tab_token (started_store ts) = None" "tab_int4 (started_store ts) = None"
  by (simp_all add: started_store_def store_of_def init_state_def)

lemma started_blanks:
  assumes "\<forall>t \<in> set ts. NUL \<notin> set t"
  shows "token_blanks (started_store ts) = [CHR '' '', CHR 0x0A, CHR 0x09]"
    and "int4_blanks (started_store ts) = [CHR '' '', CHR 0x0A, CHR 0x09]"
  using started_sview [OF assms, of 1] by (simp_all add: token_blanks_def int4_blanks_def blank_chars_def)

text \<open>The blanks known to \<open>chxint4\<close> are neither digits nor a minus sign.\<close>

definition int4_ready :: "chx_state \<Rightarrow> bool" where
  "int4_ready s \<longleftrightarrow> chx_inv s \<and> blanks s \<noteq> None \<and> (\<forall>c \<in> set (int4_blanks s). \<not> is_digit c \<and> c \<noteq> CHR ''-'' \<and> c \<noteq> NUL)"

lemma int4_readyD:
  "int4_ready s \<Longrightarrow> chx_inv s" "int4_ready s \<Longrightarrow> blanks s \<noteq> None" "int4_ready s \<Longrightarrow> NUL \<notin> set (int4_blanks s)"
  "int4_ready s \<Longrightarrow> \<forall>c \<in> set (int4_blanks s). \<not> is_digit c" "int4_ready s \<Longrightarrow> CHR ''-'' \<notin> set (int4_blanks s)"
  by (auto simp: int4_ready_def)

lemma int4_ready_chx_to: "int4_ready s \<Longrightarrow> chx_to s (sview s) s' \<Longrightarrow> int4_ready s' \<and> sview s' = sview s"
proof -
  assume s: "int4_ready s" and t: "chx_to s (sview s) s'"
  have g: "blanks s' = blanks s" "tab_int4 s' = tab_int4 s" using globs_tabs [OF chx_toD(3) [OF t]] by simp_all
  then have "blank_chars s' = blank_chars s" by (simp only: blank_chars_def g chx_toD(2) [OF t])
  then have "int4_blanks s' = int4_blanks s" by (simp only: int4_blanks_def g(2))
  then show ?thesis using s chx_toD(1,2) [OF t] g(1) unfolding int4_ready_def by metis
qed

text \<open>One number read in place.\<close>

lemma chxint4_show:
  assumes s: "int4_ready s" and a: "sview s a = Some (p @ show_int v @ r)" and v: "- (2 ^ 31) \<le> v" "v < 2 ^ 31"
    and r: "r = [] \<or> \<not> is_digit (hd r)"
  obtains s' where "chxint4 (Some a) (Some (int (length p))) s = Some (v, Some (int (length p + length (show_int v))), s')"
    "int4_ready s'" "sview s' = sview s" "next_adr s \<le> next_adr s'" "globs s' = globs (s\<lparr>tab_int4 := Some (int4_blanks s)\<rparr>)"
proof -
  note d = int4_readyD [OF s]
  have k: "length p \<le> length (p @ show_int v @ r)" by simp
  obtain s' where s': "chxint4 (Some a) (Some (int (length p))) s =
      (case read_int (int4_blanks s) (p @ show_int v @ r) (length p) of None \<Rightarrow> Some (0, Some (int (length p)), s')
       | Some (v, e) \<Rightarrow> Some (v, Some (int e), s'))"
    "chx_inv s'" "sview s' = sview s" "globs s' = globs (s\<lparr>tab_int4 := Some (int4_blanks s)\<rparr>)" "next_adr s \<le> next_adr s'"
    by (rule chxint4_keeps [OF d(1,2) a k d(3)])
  have "int4_ready s'" using s s'(2) int4_globs [OF s'(4)] by (simp add: int4_ready_def)
  then show thesis using that s' read_show_at [OF v d(4,5) r, of p] by simp
qed

lemma started_ready: "NUL \<notin> set t \<Longrightarrow> int4_ready (started_store [t])"
  by (auto simp: int4_ready_def started_inv started_blanks is_digit_def digit_def bval_def)

section \<open>Properties\<close>

text \<open>
  Start-up (\<open>chx_init\<close>, character sets ASCII and ISO 8859): the call succeeds, the registered blanks are
  space, newline and tab, the collation puts the exclamation mark first and the tilde last, the invariant
  holds and every string that was there keeps its value.
\<close>

theorem chx_init_starts:
  assumes "chx_inv s" and "blanks s = None" and "type = ASCII \<or> type = ISO8859"
  shows "\<exists>s' z. chx_init bug type s = Some (1, s') \<and> chx_inv s' \<and> blanks s' = Some z \<and>
    sview s' z = Some [CHR '' '', CHR 0x0A, CHR 0x09] \<and>
    (\<forall>c. c \<noteq> CHR 0x21 \<and> c \<noteq> NUL \<longrightarrow> col (rules s') (CHR 0x21) < col (rules s') c) \<and>
    (\<forall>c. c \<noteq> CHR 0x7E \<longrightarrow> col (rules s') c < col (rules s') (CHR 0x7E)) \<and>
    (\<forall>a x. sview s a = Some x \<longrightarrow> sview s' a = Some x)"
proof -
  obtain s' z where s': "chx_init bug type s = Some (1, s')" "chx_inv s'" "blanks s' = Some z"
    "sview s' z = Some [CHR '' '', CHR 0x0A, CHR 0x09]" "rules s' = init_rules"
    "\<forall>a x. sview s a = Some x \<longrightarrow> sview s' a = Some x"
    by (rule chx_init_ok [OF assms])
  have v: "col init_rules c = (if bval c = 33 then 0 else if bval c = 126 then 100000 else bval c)" for c
    by (simp add: col_def init_rules_def LASTVALUE_def)
  have b: "bval (CHR 0x21) = 33" "bval (CHR 0x7E) = 126" by (simp_all add: bval_def)
  have "col init_rules (CHR 0x21) < col init_rules c" if "c \<noteq> CHR 0x21" "c \<noteq> NUL" for c
  proof -
    have "bval c \<noteq> 33" using that(1) b(1) by (metis bval_inject)
    moreover have "0 < bval c" using that(2) bval_range(1) [of c] by (metis bval_eq_0 less_le)
    ultimately show ?thesis unfolding v b by simp
  qed
  moreover have "col init_rules c < col init_rules (CHR 0x7E)" if "c \<noteq> CHR 0x7E" for c
  proof -
    have "bval c \<noteq> 126" using that b(2) by (metis bval_inject)
    moreover have "bval c < 100000" by (rule less_trans [OF bval_range(2)]) simp
    ultimately show ?thesis unfolding v b by simp
  qed
  ultimately show ?thesis using s' by auto
qed

theorem chx_init_starts_witness:
  "\<exists>s' z. chx_init (\<lambda>s. s) ASCII init_state = Some (1, s') \<and> chx_inv s' \<and> blanks s' = Some z \<and>
    sview s' z = Some [CHR 0x20, CHR 0x0A, CHR 0x09] \<and>
    (\<forall>c. c \<noteq> CHR 0x21 \<and> c \<noteq> NUL \<longrightarrow> col (rules s') (CHR 0x21) < col (rules s') c) \<and>
    (\<forall>c. c \<noteq> CHR 0x7E \<longrightarrow> col (rules s') c < col (rules s') (CHR 0x7E)) \<and>
    (\<forall>a x. sview init_state a = Some x \<longrightarrow> sview s' a = Some x)"
  by (rule chx_init_starts) (simp_all add: chx_inv_def heap_ok_def statics_ok_def init_state_def)

text \<open>
  C10. \<open>chxtoken (word, nullchix, n, line)\<close> returns the position of the \<open>n\<close>'th word of the line and copies it out:
  the result is \<open>-1\<close> with an empty word when the line has fewer than \<open>n\<close> words, and the \<open>n\<close>'th of the
  maximal runs of non-blank characters otherwise. The line itself is kept.
\<close>

theorem chxtoken_word:
  assumes "chx_inv s" and "blanks s \<noteq> None" and "sview s l = Some x" and "sview s w = Some u" and "w \<noteq> l" and "1 \<le> n"
  shows "\<exists>s'. chx_inv s' \<and>
    (let ws = words_at (token_blanks s) 0 x in
     if nat n \<le> length ws
     then chxtoken (Some w) nullchix n (Some l) s = Some (int (fst (ws ! (nat n - 1))), s') \<and>
          sview s' = (sview s)(w \<mapsto> snd (ws ! (nat n - 1)))
     else chxtoken (Some w) nullchix n (Some l) s = Some (-1, s') \<and> sview s' = (sview s)(w \<mapsto> []))"
proof -
  have ne: "Some w \<noteq> Some l" "(None :: Chix) \<noteq> Some l" "Some w = None \<Longrightarrow> Some w = None"
    "\<forall>a. Some w = Some a \<longrightarrow> sview s a \<noteq> None" "\<forall>a. (None :: Chix) = Some a \<longrightarrow> sview s a \<noteq> None" using assms(4,5) by auto
  obtain st t s' where "(st, t) = pick (words_at (token_blanks s) 0 x) (nat n - 1)"
    "chxtoken (Some w) None n (Some l) s = Some (st, s')" "chx_inv s'"
    "sview s' = upd None (if st < 0 then [] else drop (nat st) x) (upd (Some w) t (sview s))"
    by (rule chxtoken_ok [OF assms(1-3) ne(4,5,1,2,3) assms(6)])
  then show ?thesis using assms(6) by (intro exI [of _ s']) (auto simp: pick_def Let_def split: if_splits)
qed

theorem chxtoken_word_witness:
  "\<exists>s'. chx_inv s' \<and> chxtoken (Some 12) nullchix 2 (Some 13) (started_store [''x'', ''to be or'']) = Some (3, s') \<and>
     sview s' 12 = Some ''be''"
  using chxtoken_word [of "started_store [''x'', ''to be or'']" 13 "''to be or''" 12 "''x''" 2]
  by (auto simp: started_inv started_sview started_blanks in_tab_def Let_def)

text \<open>
  C11. Reading a text line by line is lossless and ends: the loop over \<open>chxnextline\<close> makes at most as many
  calls as the text has characters, plus one; the lines hold no newline, and ending each with a newline
  gives the text back (with its last line completed when it had none). The text is not changed.
\<close>

theorem chxnextline_round_trip:
  assumes "chx_inv s" and "sview s a = Some x" and "sview s b = Some y" and "a \<noteq> b"
  shows "\<exists>ls s'. read_lines (Suc (length y)) a (Some b) 0 s = Some (ls, s') \<and> chx_inv s' \<and> sview s' b = Some y \<and>
    (\<forall>l \<in> set ls. newline \<notin> set l) \<and>
    (concat (map (\<lambda>l. l @ [newline]) ls) = y \<or> concat (map (\<lambda>l. l @ [newline]) ls) = y @ [newline])"
  using read_lines_ok [of s a b y 0 "Suc (length y)"] assms by simp

theorem chxnextline_round_trip_witness:
  "\<exists>ls s'. read_lines (Suc (length ''ab'')) 1 (Some 2) 0 (store_of [''x'', ''ab'']) = Some (ls, s') \<and> chx_inv s' \<and>
    sview s' 2 = Some ''ab'' \<and> (\<forall>l \<in> set ls. newline \<notin> set l) \<and>
    (concat (map (\<lambda>l. l @ [newline]) ls) = ''ab'' \<or> concat (map (\<lambda>l. l @ [newline]) ls) = ''ab'' @ [newline])"
  by (rule chxnextline_round_trip) (simp_all add: store_of_inv store_of_sview)

text \<open>
  Numbers survive: a chix that holds the decimal digits of a 32-bit value is read back by \<open>chxnum\<close> as
  that value, for the whole range from the smallest to the largest \<open>int4\<close>, with result 1.
\<close>

theorem chxnum_round_trip:
  assumes "chx_inv s" and "blanks s \<noteq> None" and "sview s a = Some (show_int v)" and "- (2 ^ 31) \<le> v" and "v < 2 ^ 31"
    and "\<forall>c \<in> set (int4_blanks s). \<not> is_digit c \<and> c \<noteq> CHR 0x2D \<and> c \<noteq> NUL"
  shows "\<exists>s'. chxnum (Some a) (Some v0) s = Some (1, Some v, s') \<and> chx_inv s' \<and> sview s' = sview s"
proof -
  have nul: "NUL \<notin> set (int4_blanks s)" using assms(6) by auto
  obtain s' where s': "chxnum (Some a) (Some v0) s =
      (case read_int (int4_blanks s) (show_int v) 0 of None \<Rightarrow> Some (0, Some 0, s') | Some (v, e) \<Rightarrow> Some (1, Some v, s'))"
    "chx_inv s'" "sview s' = sview s" by (rule chxnum_ok [OF assms(1-3) nul])
  have "read_int (int4_blanks s) (show_int v) 0 = Some (v, length (show_int v))"
    by (rule read_show) (use assms(4-6) in auto)
  then show ?thesis using s' by simp
qed

theorem chxnum_round_trip_witness:
  "\<exists>s'. chxnum (Some 12) (Some 0) (started_store [show_int (-2147483648)]) = Some (1, Some (-2147483648), s') \<and> chx_inv s' \<and>
     sview s' = sview (started_store [show_int (-2147483648)])"
proof -
  have "CHR 0x2D \<noteq> NUL" by simp
  then have nn: "NUL \<notin> set (show_int (-2147483648))" using show_nat_range by (fastforce simp: show_int_def)
  show ?thesis
    by (rule chxnum_round_trip)
       (use nn in \<open>auto simp: started_inv started_sview started_blanks is_digit_def digit_def bval_def\<close>)
qed

text \<open>
  C strings survive: storing a C string in a chix (\<open>chxofascii\<close>) and copying it out again (\<open>asciifull\<close>) gives
  a buffer that holds the same C string, whatever its length; both calls keep the other strings.
\<close>

theorem asciifull_round_trip:
  assumes "chx_inv s" and "sview s a = Some x" and "NUL \<notin> set t"
  shows "\<exists>s1 b s2. chxofascii (Some a) (Some t) s = Some (1, s1) \<and> asciifull (Some a) s1 = Some (b, s2) \<and>
    cstr b = t \<and> chx_inv s2 \<and> sview s2 = (sview s)(a \<mapsto> t)"
proof -
  obtain s1 where s1: "chxofascii (Some a) (Some t) s = Some (1, s1)" "chx_to s ((sview s)(a \<mapsto> t)) s1"
    by (rule chxofascii_ok [OF assms])
  note t = chx_toD [OF s1(2)]
  have a1: "sview s1 a = Some t" using t(2) by simp
  obtain b s2 where "asciifull (Some a) s1 = Some (b, s2)" "cstr b = t" "chx_to s1 (sview s1) s2"
    by (rule asciifull_ok [OF t(1) a1])
  then show ?thesis using s1(1) t(2) chx_toD(1,2) by metis
qed

theorem asciifull_round_trip_witness:
  "\<exists>s1 b s2. chxofascii (Some 1) (Some ''hello'') (store_of [''x'']) = Some (1, s1) \<and> asciifull (Some 1) s1 = Some (b, s2) \<and>
    cstr b = ''hello'' \<and> chx_inv s2 \<and> sview s2 = (sview (store_of [''x'']))(1 \<mapsto> ''hello'')"
  by (rule asciifull_round_trip) (simp_all add: store_of_inv store_of_sview)

text \<open>
  \<open>chxsimplify\<close> normalises blanks: its result begins and ends with no space and has no two spaces in a
  row, it keeps the other characters in their order, and simplifying again changes nothing.
\<close>

theorem chxsimplify_normal:
  assumes "chx_inv s" and "sview s a = Some x"
    and "ctab s ! 2 = Some b2" and "ctab s ! 3 = Some b1" and "ctab s ! 4 = Some b0"
    and "sview s b2 \<noteq> None" and "sview s b1 \<noteq> None" and "sview s b0 \<noteq> None" and "distinct [a, b2, b1, b0]"
  shows "\<exists>s' y. chxsimplify (Some a) s = Some (1, s') \<and> chx_inv s' \<and> sview s' a = Some y \<and>
    filter (\<lambda>c. c \<noteq> CHR 0x20) y = filter (\<lambda>c. c \<noteq> CHR 0x20) x \<and> (y = [] \<or> hd y \<noteq> CHR 0x20 \<and> last y \<noteq> CHR 0x20) \<and>
    (\<forall>u v. y \<noteq> u @ [CHR 0x20, CHR 0x20] @ v) \<and> simplify_str y = y"
proof -
  obtain s' where s': "chxsimplify (Some a) s = Some (1, s')" "chx_inv s'" "sview s' a = Some (simplify_str x)"
    using chxsimplify_ok [OF assms] chx_toD(1,2) by (metis fun_upd_same)
  show ?thesis using s' simplify_facts [of x] by blast
qed

theorem chxsimplify_normal_witness:
  "\<exists>s' y. chxsimplify (Some 12) (started_store [''a   b'']) = Some (1, s') \<and> chx_inv s' \<and> sview s' 12 = Some y \<and>
    filter (\<lambda>c. c \<noteq> CHR 0x20) y = filter (\<lambda>c. c \<noteq> CHR 0x20) ''a   b'' \<and> (y = [] \<or> hd y \<noteq> CHR 0x20 \<and> last y \<noteq> CHR 0x20) \<and>
    (\<forall>u v. y \<noteq> u @ [CHR 0x20, CHR 0x20] @ v) \<and> simplify_str y = y"
  by (rule chxsimplify_normal [where ?b2.0 = 4 and ?b1.0 = 5 and ?b0.0 = 6])
     (simp_all add: started_inv started_sview upt_rec)

end
