(* ===== verification/ChixProgram.thy ===== *)
theory ChixProgram
  imports ChixToken
begin

text \<open>
  Programs over the chix API. The callers of \<open>CV2/chx\<close> keep chix pointers in variables and work on them with
  sequences of calls. This theory states what such a caller may rely on: every sequence of calls on
  variables that hold live strings runs without leaving a buffer, and its effect is that of the same
  sequence on plain strings. The locale \<open>simulation\<close> carries the argument from one call to a sequence.
\<close>

section \<open>Simulations\<close>

fun runs :: "('c \<Rightarrow> 's \<Rightarrow> 's option) \<Rightarrow> 'c list \<Rightarrow> 's \<Rightarrow> 's option" where
  "runs exec [] s = Some s"
| "runs exec (c # cs) s = do { s \<leftarrow> exec c s; runs exec cs s }"

lemma runs_append: "runs exec (cs @ ds) s = do { s \<leftarrow> runs exec cs s; runs exec ds s }"
  by (induction cs arbitrary: s) (auto split: bind_splits)

inductive steps :: "('c \<Rightarrow> 's \<Rightarrow> 's option) \<Rightarrow> 's \<Rightarrow> 's \<Rightarrow> bool" for exec where
  refl: "steps exec s s"
| step: "steps exec s s' \<Longrightarrow> exec c s' = Some s'' \<Longrightarrow> steps exec s s''"

text \<open>A machine restricted to the calls that the abstract one has a result for.\<close>

definition guarded :: "('c \<Rightarrow> 'a \<Rightarrow> 'a option) \<Rightarrow> ('s \<Rightarrow> 'a) \<Rightarrow> ('c \<Rightarrow> 's \<Rightarrow> 's option) \<Rightarrow> 'c \<Rightarrow> 's \<Rightarrow> 's option" where
  "guarded aexec absn cexec c s = (if aexec c (absn s) = None then None else cexec c s)"

locale simulation =
  fixes cexec :: "'c \<Rightarrow> 's \<Rightarrow> 's option" and aexec :: "'c \<Rightarrow> 'a \<Rightarrow> 'a option"
    and absn :: "'s \<Rightarrow> 'a" and ok :: "'s \<Rightarrow> bool"
  assumes sim: "ok s \<Longrightarrow> aexec c (absn s) = Some m \<Longrightarrow> \<exists>s'. cexec c s = Some s' \<and> ok s' \<and> absn s' = m"
begin

lemma runs_refine:
  "ok s \<Longrightarrow> runs aexec cs (absn s) = Some m \<Longrightarrow> \<exists>s'. runs cexec cs s = Some s' \<and> ok s' \<and> absn s' = m"
proof (induction cs arbitrary: s)
  case (Cons c cs)
  then obtain m1 where m1: "aexec c (absn s) = Some m1" "runs aexec cs m1 = Some m" by (auto split: bind_splits)
  obtain s1 where s1: "cexec c s = Some s1" "ok s1" "absn s1 = m1" using sim [OF Cons.prems(1) m1(1)] by blast
  then show ?case using Cons.IH [OF s1(2)] m1(2) by auto
qed simp

text \<open>Calls that the abstract machine allows keep every reachable state proper.\<close>

lemma guarded_ok: "steps (guarded aexec absn cexec) s s' \<Longrightarrow> ok s \<Longrightarrow> ok s'"
proof (induction rule: steps.induct)
  case (step s s' c s'')
  then have "ok s'" by simp
  moreover obtain m where "aexec c (absn s') = Some m" "cexec c s' = Some s''"
    using step.hyps(2) by (auto simp: guarded_def split: if_splits)
  ultimately show ?case using sim by fastforce
qed simp

end

section \<open>Calls\<close>

datatype call =
    New nat
  | Drop nat
  | Ascii nat string
  | Copy nat nat
  | Append nat nat
  | Join nat nat nat
  | Part nat nat int int
  | Cut nat int
  | Poke nat int int
  | Subst nat nat nat

record prog =
  env   :: "nat \<Rightarrow> Chix"
  store :: chx_state

definition set_store :: "prog \<Rightarrow> (int \<times> chx_state) option \<Rightarrow> prog option" where
  "set_store p r = do { (_, s) \<leftarrow> r; Some (p\<lparr>store := s\<rparr>) }"

text \<open>A call as the code makes it; a variable is reset to the null pointer when its chix is freed.\<close>

fun exec :: "call \<Rightarrow> prog \<Rightarrow> prog option" where
  "exec (New v) p = (let (a, s) = chxalloc 80 THIN ''caller var'' (store p) in Some (p\<lparr>env := (env p)(v := Some a), store := s\<rparr>))"
| "exec (Drop v) p = do {
     p \<leftarrow> set_store p (chxfree (env p v) (store p));
     Some (p\<lparr>env := (env p)(v := nullchix)\<rparr>) }"
| "exec (Ascii v t) p = set_store p (chxofascii (env p v) (Some t) (store p))"
| "exec (Copy v w) p = set_store p (chxcpy (env p v) (env p w) (store p))"
| "exec (Append v w) p = set_store p (chxcat (env p v) (env p w) (store p))"
| "exec (Join v w u) p = set_store p (chxconc (env p v) (env p w) (env p u) (store p))"
| "exec (Part v w i n) p = set_store p (chxcatsub (env p v) (env p w) i n (store p))"
| "exec (Cut v pos) p = set_store p (chxtrunc (env p v) pos (store p))"
| "exec (Poke v pos val) p = set_store p (chxsetval (env p v) pos 1 val (store p))"
| "exec (Subst v w u) p = set_store p (chxreplace (env p v) 0 (env p w) (env p u) (store p))"

text \<open>The same calls on plain strings; \<open>None\<close> where a variable is not live or the call's condition fails.\<close>

fun aexec :: "call \<Rightarrow> (nat \<Rightarrow> string option) \<Rightarrow> (nat \<Rightarrow> string option) option" where
  "aexec (New v) m = Some (m(v \<mapsto> []))"
| "aexec (Drop v) m = do { x \<leftarrow> m v; Some (m(v := None)) }"
| "aexec (Ascii v t) m = do { x \<leftarrow> m v; if NUL \<in> set t then None else Some (m(v \<mapsto> t)) }"
| "aexec (Copy v w) m = do { x \<leftarrow> m v; y \<leftarrow> m w; Some (m(v \<mapsto> y)) }"
| "aexec (Append v w) m = do { x \<leftarrow> m v; y \<leftarrow> m w; if v = w then None else Some (m(v \<mapsto> x @ y)) }"
| "aexec (Join v w u) m = do { x \<leftarrow> m v; y \<leftarrow> m w; z \<leftarrow> m u; Some (m(v \<mapsto> y @ z)) }"
| "aexec (Part v w i n) m = do { x \<leftarrow> m v; y \<leftarrow> m w; if v = w then None else Some (m(v \<mapsto> x @ sub_of y i n)) }"
| "aexec (Cut v pos) m = do { x \<leftarrow> m v; if pos < 0 then None else Some (m(v \<mapsto> take (nat pos) x)) }"
| "aexec (Poke v pos val) m = do { x \<leftarrow> m v; if pos < 0 \<or> byte val = NUL then None else Some (m(v \<mapsto> x[nat pos := byte val])) }"
| "aexec (Subst v w u) m = do { x \<leftarrow> m v; y \<leftarrow> m w; z \<leftarrow> m u; Some (m(v \<mapsto> replace_str x 0 y z)) }"

definition pview :: "prog \<Rightarrow> nat \<Rightarrow> string option" where
  "pview p v = (case env p v of None \<Rightarrow> None | Some a \<Rightarrow> sview (store p) a)"

text \<open>Each variable is null or holds a live chix of its own, apart from the one with the blanks.\<close>

definition prog_ok :: "prog \<Rightarrow> bool" where
  "prog_ok p \<longleftrightarrow> chx_inv (store p) \<and>
     (\<forall>v a. env p v = Some a \<longrightarrow> sview (store p) a \<noteq> None \<and> blanks (store p) \<noteq> Some a) \<and>
     (\<forall>v w a. env p v = Some a \<and> env p w = Some a \<longrightarrow> v = w)"

section \<open>The simulation\<close>

lemma prog_ok_parts:
  assumes "prog_ok p"
  shows "chx_inv (store p)" and "env p v = Some a \<Longrightarrow> sview (store p) a \<noteq> None \<and> blanks (store p) \<noteq> Some a"
    and "env p v = Some a \<Longrightarrow> env p w = Some a \<Longrightarrow> w = v"
  using assms unfolding prog_ok_def by blast+

lemma prog_okI:
  assumes "chx_inv (store p)" and "\<And>v a. env p v = Some a \<Longrightarrow> sview (store p) a \<noteq> None \<and> blanks (store p) \<noteq> Some a"
    and "\<And>v w a. env p v = Some a \<Longrightarrow> env p w = Some a \<Longrightarrow> v = w"
  shows "prog_ok p"
  using assms unfolding prog_ok_def by blast

lemma prog_okD:
  assumes "prog_ok p" and "pview p v = Some x"
  obtains a where "env p v = Some a" "sview (store p) a = Some x" "chx_inv (store p)" "blanks (store p) \<noteq> Some a"
    "\<forall>w. env p w = Some a \<longrightarrow> w = v"
proof -
  obtain a where a: "env p v = Some a" "sview (store p) a = Some x" using assms(2) by (auto simp: pview_def split: option.splits)
  then show thesis using that [of a] prog_ok_parts [OF assms(1)] by blast
qed

text \<open>A call that changes the string of one variable.\<close>

lemma assign_ok:
  assumes ok: "prog_ok p" and v: "env p v = Some a" and t: "chx_to (store p) ((sview (store p))(a \<mapsto> y)) s'"
    and r: "r = Some (k, s')"
  shows "\<exists>p'. set_store p r = Some p' \<and> prog_ok p' \<and> pview p' = (pview p)(v \<mapsto> y)"
proof -
  have own: "env p w = Some a \<Longrightarrow> w = v" for w using prog_ok_parts(3) [OF ok v] .
  have g: "blanks s' = blanks (store p)" using globs_tabs [OF chx_toD(3) [OF t]] by simp
  have "prog_ok (p\<lparr>store := s'\<rparr>)"
  proof (rule prog_okI)
    show "env (p\<lparr>store := s'\<rparr>) u = Some b \<Longrightarrow> env (p\<lparr>store := s'\<rparr>) w = Some b \<Longrightarrow> u = w" for u w b
      using prog_ok_parts(3) [OF ok, of w b u] by simp
  qed (use prog_ok_parts(2) [OF ok] chx_toD(1,2) [OF t] g in auto)
  moreover have "pview (p\<lparr>store := s'\<rparr>) = (pview p)(v \<mapsto> y)"
  proof
    fix w show "pview (p\<lparr>store := s'\<rparr>) w = ((pview p)(v \<mapsto> y)) w"
      using chx_toD(2) [OF t] v own [of w] by (cases "env p w") (auto simp: pview_def)
  qed
  ultimately show ?thesis using r by (simp add: set_store_def)
qed

lemma exec_new:
  assumes ok: "prog_ok p"
  shows "\<exists>p'. exec (New v) p = Some p' \<and> prog_ok p' \<and> pview p' = (pview p)(v \<mapsto> [])"
proof -
  have inv: "chx_inv (store p)" using ok by (simp add: prog_ok_def)
  let ?a = "next_adr (store p)"
  obtain s' where s': "chxalloc 80 THIN ''caller var'' (store p) = (?a, s')" "chx_to (store p) ((sview (store p))(?a \<mapsto> [])) s'"
    by (rule chxalloc_ok [OF inv])
  note t = chx_toD [OF s'(2)]
  have fresh: "env p w \<noteq> Some ?a" for w
  proof
    assume "env p w = Some ?a"
    then have "sview (store p) ?a \<noteq> None" using prog_ok_parts(2) [OF ok] by blast
    then show False using fresh_not_live [OF inv] by simp
  qed
  have bl: "blanks s' \<noteq> Some ?a" using fresh_not_static(1) [OF inv] globs_tabs [OF t(3)] by simp
  let ?p = "p\<lparr>env := (env p)(v := Some ?a), store := s'\<rparr>"
  have "prog_ok ?p"
  proof (rule prog_okI)
    show "env ?p u = Some b \<Longrightarrow> env ?p w = Some b \<Longrightarrow> u = w" for u w b
      using prog_ok_parts(3) [OF ok, of w b u] fresh by (auto split: if_splits)
  qed (use prog_ok_parts(2) [OF ok] t(1,2) bl globs_tabs [OF t(3)] in \<open>auto split: if_splits\<close>)
  moreover have "pview ?p = (pview p)(v \<mapsto> [])"
    using t(2) fresh by (auto simp: pview_def fun_eq_iff split: option.splits)
  ultimately show ?thesis using s'(1) by simp
qed

lemma exec_drop:
  assumes ok: "prog_ok p" and x: "pview p v = Some x"
  shows "\<exists>p'. exec (Drop v) p = Some p' \<and> prog_ok p' \<and> pview p' = (pview p)(v := None)"
proof -
  obtain a where a: "env p v = Some a" "sview (store p) a = Some x" "chx_inv (store p)" "blanks (store p) \<noteq> Some a"
    "\<forall>w. env p w = Some a \<longrightarrow> w = v" by (rule prog_okD [OF assms])
  obtain s' where s': "chxfree (Some a) (store p) = Some (1, s')" "chx_to (store p) ((sview (store p))(a := None)) s'"
    by (rule chxfree_ok [OF a(3,2,4)])
  note t = chx_toD [OF s'(2)]
  let ?p = "p\<lparr>store := s', env := (env p)(v := nullchix)\<rparr>"
  have "prog_ok ?p"
  proof (rule prog_okI)
    show "env ?p u = Some b \<Longrightarrow> env ?p w = Some b \<Longrightarrow> u = w" for u w b
      using prog_ok_parts(3) [OF ok, of w b u] by (auto split: if_splits)
  qed (use prog_ok_parts(2) [OF ok] t(1,2) globs_tabs [OF t(3)] a(5) in \<open>auto split: if_splits\<close>)
  moreover have "pview ?p = (pview p)(v := None)"
    using t(2) a(5) by (auto simp: pview_def fun_eq_iff split: option.splits)
  ultimately show ?thesis using s'(1) a(1) by (simp add: set_store_def)
qed

lemma exec_sim:
  assumes ok: "prog_ok p" and a: "aexec c (pview p) = Some m"
  shows "\<exists>p'. exec c p = Some p' \<and> prog_ok p' \<and> pview p' = m"
proof (cases c)
  case (New v)
  then have "m = (pview p)(v \<mapsto> [])" using a by simp
  then show ?thesis using exec_new [OF ok, of v] New by simp
next
  case (Drop v)
  then obtain x where x: "pview p v = Some x" "m = (pview p)(v := None)" using a by (auto split: bind_splits)
  then show ?thesis using exec_drop [OF ok x(1)] Drop by simp
next
  case (Ascii v t)
  then obtain x where x: "pview p v = Some x" "NUL \<notin> set t" "m = (pview p)(v \<mapsto> t)" using a by (auto split: bind_splits if_splits)
  obtain b where b: "env p v = Some b" "sview (store p) b = Some x" "chx_inv (store p)" by (rule prog_okD [OF ok x(1)])
  show ?thesis using chxofascii_ok [OF b(3,2) x(2)] assign_ok [OF ok b(1)] b(1) x(3) Ascii by (metis exec.simps(3))
next
  case (Copy v w)
  then obtain x y where x: "pview p v = Some x" "pview p w = Some y" "m = (pview p)(v \<mapsto> y)" using a by (auto split: bind_splits)
  obtain b where b: "env p v = Some b" "sview (store p) b = Some x" "chx_inv (store p)" by (rule prog_okD [OF ok x(1)])
  obtain d where d: "env p w = Some d" "sview (store p) d = Some y" by (rule prog_okD [OF ok x(2)])
  show ?thesis using chxcpy_ok [OF b(3,2) d(2)] assign_ok [OF ok b(1)] b(1) d(1) x(3) Copy by (metis exec.simps(4))
next
  case (Append v w)
  then obtain x y where x: "pview p v = Some x" "pview p w = Some y" "v \<noteq> w" "m = (pview p)(v \<mapsto> x @ y)"
    using a by (auto split: bind_splits if_splits)
  obtain b where b: "env p v = Some b" "sview (store p) b = Some x" "chx_inv (store p)" by (rule prog_okD [OF ok x(1)])
  obtain d where d: "env p w = Some d" "sview (store p) d = Some y" "\<forall>u. env p u = Some d \<longrightarrow> u = w" by (rule prog_okD [OF ok x(2)])
  have "b \<noteq> d" using b(1) d(3) x(3) by blast
  then show ?thesis using chxcat_ok [OF b(3,2) d(2)] assign_ok [OF ok b(1)] b(1) d(1) x(4) Append by (metis exec.simps(5))
next
  case (Join v w u)
  then obtain x y z where x: "pview p v = Some x" "pview p w = Some y" "pview p u = Some z" "m = (pview p)(v \<mapsto> y @ z)"
    using a by (auto split: bind_splits)
  obtain b where b: "env p v = Some b" "sview (store p) b = Some x" "chx_inv (store p)" by (rule prog_okD [OF ok x(1)])
  obtain d where d: "env p w = Some d" "sview (store p) d = Some y" by (rule prog_okD [OF ok x(2)])
  obtain e where e: "env p u = Some e" "sview (store p) e = Some z" by (rule prog_okD [OF ok x(3)])
  show ?thesis using chxconc_ok [OF b(3,2) d(2) e(2)] assign_ok [OF ok b(1)] b(1) d(1) e(1) x(4) Join by (metis exec.simps(6))
next
  case (Part v w i n)
  then obtain x y where x: "pview p v = Some x" "pview p w = Some y" "v \<noteq> w" "m = (pview p)(v \<mapsto> x @ sub_of y i n)"
    using a by (auto split: bind_splits if_splits)
  obtain b where b: "env p v = Some b" "sview (store p) b = Some x" "chx_inv (store p)" by (rule prog_okD [OF ok x(1)])
  obtain d where d: "env p w = Some d" "sview (store p) d = Some y" "\<forall>u. env p u = Some d \<longrightarrow> u = w" by (rule prog_okD [OF ok x(2)])
  have "b \<noteq> d" using b(1) d(3) x(3) by blast
  then show ?thesis using chxcatsub_ok [OF b(3,2) d(2)] assign_ok [OF ok b(1)] b(1) d(1) x(4) Part by (metis exec.simps(7))
next
  case (Cut v pos)
  then obtain x where x: "pview p v = Some x" "0 \<le> pos" "m = (pview p)(v \<mapsto> take (nat pos) x)" using a by (auto split: bind_splits if_splits)
  obtain b where b: "env p v = Some b" "sview (store p) b = Some x" "chx_inv (store p)" by (rule prog_okD [OF ok x(1)])
  show ?thesis using chxtrunc_ok [OF b(3,2) x(2)] assign_ok [OF ok b(1)] b(1) x(3) Cut by (metis exec.simps(8))
next
  case (Poke v pos val)
  then obtain x where x: "pview p v = Some x" "0 \<le> pos" "byte val \<noteq> NUL" "m = (pview p)(v \<mapsto> x[nat pos := byte val])"
    using a by (auto split: bind_splits if_splits)
  obtain b where b: "env p v = Some b" "sview (store p) b = Some x" "chx_inv (store p)" by (rule prog_okD [OF ok x(1)])
  show ?thesis using chxsetval_ok [OF b(3,2) x(2,3)] assign_ok [OF ok b(1)] b(1) x(4) Poke by (metis exec.simps(9))
next
  case (Subst v w u)
  then obtain x y z where x: "pview p v = Some x" "pview p w = Some y" "pview p u = Some z" "m = (pview p)(v \<mapsto> replace_str x 0 y z)"
    using a by (auto split: bind_splits)
  obtain b where b: "env p v = Some b" "sview (store p) b = Some x" "chx_inv (store p)" by (rule prog_okD [OF ok x(1)])
  obtain d where d: "env p w = Some d" "sview (store p) d = Some y" by (rule prog_okD [OF ok x(2)])
  obtain e where e: "env p u = Some e" "sview (store p) e = Some z" by (rule prog_okD [OF ok x(3)])
  show ?thesis using chxreplace_ok [OF b(3,2) d(2) e(2) order.refl] assign_ok [OF ok b(1)] b(1) d(1) e(1) x(4) Subst by (metis exec.simps(10))
qed

interpretation chx_calls: simulation exec aexec pview prog_ok
  by unfold_locales (rule exec_sim)

text \<open>The state of a program before its first call.\<close>

definition start_prog :: "chx_state \<Rightarrow> prog" where
  "start_prog s = \<lparr>env = (\<lambda>_. nullchix), store = s\<rparr>"

lemma start_ok: "chx_inv s \<Longrightarrow> prog_ok (start_prog s) \<and> pview (start_prog s) = (\<lambda>_. None)"
  by (auto simp: start_prog_def pview_def intro!: prog_okI)

section \<open>Properties\<close>

text \<open>
  C1. The chix API implements strings: for every sequence of allocations, frees, copies, concatenations,
  substrings, truncations, character updates and replacements that makes sense on plain string variables,
  the calls on the store all return, no access leaves a buffer, and every variable then holds exactly
  the string that the plain computation gives it.
\<close>

theorem chx_calls_refine_strings:
  assumes "chx_inv s" and "runs aexec cs (\<lambda>_. None) = Some m"
  shows "\<exists>p'. runs exec cs (start_prog s) = Some p' \<and> chx_inv (store p') \<and> pview p' = m"
proof -
  have ok: "prog_ok (start_prog s)" and v: "pview (start_prog s) = (\<lambda>_. None)" using start_ok [OF assms(1)] by auto
  obtain p' where "runs exec cs (start_prog s) = Some p'" "prog_ok p'" "pview p' = m"
    using chx_calls.runs_refine [OF ok] assms(2) v by auto
  then show ?thesis using prog_ok_parts(1) by blast
qed

theorem chx_calls_refine_strings_witness:
  "\<exists>p' m. runs aexec [New 0, New 1, Ascii 0 ''foo'', Copy 1 0, Append 1 0, Cut 1 5, Drop 0] (\<lambda>_. None) = Some m \<and> m 1 = Some ''foofo'' \<and>
     runs exec [New 0, New 1, Ascii 0 ''foo'', Copy 1 0, Append 1 0, Cut 1 5, Drop 0] (start_prog init_state) = Some p' \<and>
     chx_inv (store p') \<and> pview p' = m"
proof -
  have inv: "chx_inv init_state" by (simp add: chx_inv_def heap_ok_def statics_ok_def init_state_def)
  have "\<exists>m. runs aexec [New 0, New 1, Ascii 0 ''foo'', Copy 1 0, Append 1 0, Cut 1 5, Drop 0] (\<lambda>_. None) = Some m \<and> m 1 = Some ''foofo''"
    by (simp add: numeral_eq_Suc)
  then show ?thesis using chx_calls_refine_strings [OF inv] by metis
qed

text \<open>
  C2. No leak of one variable into another, whatever is called in whatever order: in every state that calls
  allowed by the plain-string machine can reach, the store invariant holds, every variable is null or
  owns a live chix, and no two variables share one.
\<close>

theorem chx_reachable_invariant:
  assumes "chx_inv s" and "steps (guarded aexec pview exec) (start_prog s) p"
  shows "chx_inv (store p) \<and> (\<forall>v a. env p v = Some a \<longrightarrow> sview (store p) a \<noteq> None) \<and>
    (\<forall>v w a. env p v = Some a \<and> env p w = Some a \<longrightarrow> v = w)"
proof -
  have "prog_ok p" by (rule chx_calls.guarded_ok [OF assms(2)]) (simp add: start_ok [OF assms(1)])
  then show ?thesis using prog_ok_parts [of p] by blast
qed

theorem chx_reachable_invariant_witness:
  "\<exists>p a b. steps (guarded aexec pview exec) (start_prog init_state) p \<and> chx_inv (store p) \<and>
     env p 0 = Some a \<and> env p 1 = Some b \<and> a \<noteq> b \<and> sview (store p) a \<noteq> None"
proof -
  define p1 where "p1 = the (exec (New 0) (start_prog init_state))"
  define p2 where "p2 = the (exec (New 1) p1)"
  have "guarded aexec pview exec (New 0) (start_prog init_state) = Some p1"
    by (simp add: guarded_def p1_def Let_def split_beta)
  moreover have "guarded aexec pview exec (New 1) p1 = Some p2" by (simp add: guarded_def p2_def Let_def split_beta)
  ultimately have st: "steps (guarded aexec pview exec) (start_prog init_state) p2" using steps.intros by metis
  have "chx_inv init_state" by (simp add: chx_inv_def heap_ok_def statics_ok_def init_state_def)
  note inv = chx_reachable_invariant [OF this st]
  have "env p2 0 = env p1 0" "env p2 1 \<noteq> None" "env p1 0 \<noteq> None"
    by (simp_all add: p2_def p1_def Let_def split_beta)
  then obtain a b where ab: "env p2 0 = Some a" "env p2 1 = Some b" by auto
  then have "a \<noteq> b" using inv by (metis zero_neq_one)
  then show ?thesis using inv ab st by blast
qed

end
