(* ===== verification/Vartab.thy ===== *)
theory Vartab
  imports ChixOps ChixSearch
begin

text \<open>
  Variable tables (\<open>CV2/api\<close>: \<open>struct Vartab_t\<close>, \<open>a_mak_vartab\<close>, \<open>vartab_find\<close>, \<open>vartab_new\<close>,
  \<open>vartab_exp\<close>, \<open>vartab_add\<close>, \<open>vartab_is\<close>, \<open>a_fre_vartab\<close>): parallel arrays of chix pointers for the
  names and values of the user, conference and site variables. The arrays live in the table record,
  the chix in the chix store. The \<open>api_debug\<close> trace is off.
\<close>

section \<open>Data and operations\<close>

record Vartab_t =
  vt_tag   :: int
  vt_id1   :: int
  vt_id2   :: int
  vt_owner :: Chix
  vt_name  :: "Chix list"
  vt_value :: "Chix list"
  vt_code  :: "int list"
  vt_used  :: int
  vt_max   :: int

definition INITIAL_SIZE :: nat where "INITIAL_SIZE = 100"
definition T_VARTAB :: int where "T_VARTAB = 114"

definition a_mak_vartab :: "string \<Rightarrow> chx_state \<Rightarrow> Vartab_t \<times> chx_state" where
  "a_mak_vartab name s =
     (let (owner, s) = chxalloc 20 THIN ''a_mak_vartab owner'' s
      in (\<lparr>vt_tag = T_VARTAB, vt_id1 = 0, vt_id2 = 0, vt_owner = Some owner,
           vt_name = replicate INITIAL_SIZE nullchix, vt_value = replicate INITIAL_SIZE nullchix,
           vt_code = replicate INITIAL_SIZE (-1), vt_used = 0, vt_max = int INITIAL_SIZE\<rparr>, s))"

text \<open>The old entries are copied, the new ones filled with null pointers and code -1.\<close>

definition vartab_exp :: "Vartab_t \<Rightarrow> Vartab_t option" where
  "vartab_exp vt =
     (let used = nat (vt_used vt); m = vt_max vt * 2; rest = nat m - used
      in if used \<le> length (vt_name vt) \<and> used \<le> length (vt_value vt) \<and> used \<le> length (vt_code vt) \<and> used \<le> nat m
         then Some (vt\<lparr>vt_max := m,
                vt_name := take used (vt_name vt) @ replicate rest nullchix,
                vt_value := take used (vt_value vt) @ replicate rest nullchix,
                vt_code := take used (vt_code vt) @ replicate rest (-1)\<rparr>)
         else None)"

text \<open>\<open>if (vt->name[new] == nullchix)\<close>: the two chix of a slot used for the first time.\<close>

definition slot_alloc :: "Vartab_t \<Rightarrow> int \<Rightarrow> chx_state \<Rightarrow> (Vartab_t \<times> chx_state) option" where
  "slot_alloc vt new s = do {
     x \<leftarrow> idx (vt_name vt) new;
     if x = nullchix then
       (let (n, s) = chxalloc 30 THIN ''vart_new name'' s;
            (v, s) = chxalloc 40 THIN ''vart_new value'' s
        in do {
          ns \<leftarrow> upd_idx (vt_name vt) new (Some n);
          vs \<leftarrow> upd_idx (vt_value vt) new (Some v);
          Some (vt\<lparr>vt_name := ns, vt_value := vs\<rparr>, s) })
     else Some (vt, s) }"

definition slot_fill :: "Vartab_t \<Rightarrow> Chix \<Rightarrow> int \<Rightarrow> chx_state \<Rightarrow> (int \<times> Vartab_t \<times> chx_state) option" where
  "slot_fill vt name new s = do {
     (vt, s) \<leftarrow> slot_alloc vt new s;
     n \<leftarrow> idx (vt_name vt) new;
     v \<leftarrow> idx (vt_value vt) new;
     (_, s) \<leftarrow> chxcpy n name s;
     (_, s) \<leftarrow> chxclear v s;
     Some (new, vt, s) }"

definition vartab_new :: "Vartab_t \<Rightarrow> Chix \<Rightarrow> int \<Rightarrow> chx_state \<Rightarrow> (int \<times> Vartab_t \<times> chx_state) option" where
  "vartab_new vt name slot s =
     (let fresh = (slot < 0 \<or> slot \<ge> vt_used vt);
          new = (if fresh then vt_used vt else slot);
          vt = (if fresh then vt\<lparr>vt_used := vt_used vt + 1\<rparr> else vt)
      in if new > vt_max vt - 5 then do { vt \<leftarrow> vartab_exp vt; slot_fill vt name new s }
         else slot_fill vt name new s)"

text \<open>The scan of \<open>vartab_find\<close>: the slot of a matching name, and the last empty slot seen.\<close>

function find_loop :: "Chix list \<Rightarrow> int \<Rightarrow> Chix \<Rightarrow> int \<Rightarrow> int \<Rightarrow> chx_state \<Rightarrow>
    (int option \<times> int \<times> chx_state) option" where
  "find_loop names used name num new s =
     (if num \<ge> used then Some (None, new, s)
      else do {
        x \<leftarrow> idx names num;
        (e, s) \<leftarrow> chxeq x name s;
        if e \<noteq> 0 then Some (Some num, new, s)
        else do {
          (v, s) \<leftarrow> chxvalue x 0 s;
          find_loop names used name (num + 1) (if v = 0 then num else new) s } })"
  by pat_completeness auto
termination
  by (relation "measure (\<lambda>(names, used, name, num, new, s). nat (used - num))") auto

declare find_loop.simps [simp del]

definition vartab_find :: "Vartab_t \<Rightarrow> Chix \<Rightarrow> chx_state \<Rightarrow> (int \<times> Vartab_t \<times> chx_state) option" where
  "vartab_find vt name s = do {
     (found, new, s) \<leftarrow> find_loop (vt_name vt) (vt_used vt) name 0 (-1) s;
     case found of Some num \<Rightarrow> Some (num, vt, s) | None \<Rightarrow> vartab_new vt name new s }"

definition vartab_add :: "Vartab_t \<Rightarrow> Chix \<Rightarrow> Chix \<Rightarrow> chx_state \<Rightarrow> (int \<times> Vartab_t \<times> chx_state) option" where
  "vartab_add vt name val s = do {
     (slot, vt, s) \<leftarrow> vartab_find vt name s;
     if slot \<ge> 0 then do {
       v \<leftarrow> idx (vt_value vt) slot;
       (_, s) \<leftarrow> chxcpy v val s;
       Some (slot, vt, s) }
     else Some (slot, vt, s) }"

function is_loop :: "Chix list \<Rightarrow> int \<Rightarrow> Chix \<Rightarrow> int \<Rightarrow> chx_state \<Rightarrow> (int \<times> chx_state) option" where
  "is_loop names used name num s =
     (if num \<ge> used then Some (-1, s)
      else do {
        x \<leftarrow> idx names num;
        (e, s) \<leftarrow> chxeq x name s;
        if e \<noteq> 0 then Some (num, s) else is_loop names used name (num + 1) s })"
  by pat_completeness auto
termination
  by (relation "measure (\<lambda>(names, used, name, num, s). nat (used - num))") auto

declare is_loop.simps [simp del]

definition vartab_is :: "Vartab_t \<Rightarrow> Chix \<Rightarrow> chx_state \<Rightarrow> (int \<times> chx_state) option" where
  "vartab_is vt name s = is_loop (vt_name vt) (vt_used vt) name 0 s"

fun free_slots :: "(Chix \<times> Chix) list \<Rightarrow> chx_state \<Rightarrow> chx_state option" where
  "free_slots [] s = Some s"
| "free_slots ((n, v) # ps) s =
     (if n \<noteq> nullchix then do {
        (_, s) \<leftarrow> chxfree n s;
        (_, s) \<leftarrow> chxfree v s;
        free_slots ps s }
      else free_slots ps s)"

definition a_fre_vartab :: "Vartab_t option \<Rightarrow> chx_state \<Rightarrow> (int \<times> chx_state) option" where
  "a_fre_vartab vt s =
     (case vt of None \<Rightarrow> Some (0, s)
      | Some vt \<Rightarrow>
          if vt_tag vt \<noteq> T_VARTAB then Some (0, s)
          else do {
            (_, s) \<leftarrow> chxfree (vt_owner vt) s;
            s \<leftarrow> free_slots (take (nat (vt_used vt)) (zip (vt_name vt) (vt_value vt))) s;
            Some (1, s) })"

section \<open>Well-formed tables and the map they stand for\<close>

text \<open>
  A table of \<open>n\<close> used slots: slot \<open>i\<close> holds the addresses \<open>na ! i\<close> and \<open>va ! i\<close>, all different and live;
  the rest of the arrays holds null pointers.
\<close>

definition vt_ok :: "Vartab_t \<Rightarrow> nat list \<Rightarrow> nat list \<Rightarrow> chx_state \<Rightarrow> bool" where
  "vt_ok vt na va s \<longleftrightarrow> chx_inv s \<and> length va = length na \<and>
     vt_used vt = int (length na) \<and> vt_used vt \<le> vt_max vt - 4 \<and>
     vt_name vt = map Some na @ replicate (nat (vt_max vt) - length na) nullchix \<and>
     vt_value vt = map Some va @ replicate (nat (vt_max vt) - length na) nullchix \<and>
     length (vt_code vt) = nat (vt_max vt) \<and>
     distinct (na @ va) \<and> (\<forall>a \<in> set na \<union> set va. sview s a \<noteq> None)"

definition vars :: "nat list \<Rightarrow> nat list \<Rightarrow> chx_state \<Rightarrow> string \<Rightarrow> string option" where
  "vars na va s k =
     (if k = [] then None else map_of (zip (map (text_at s) na) (map (text_at s) va)) k)"

lemma map_of_first:
  "index_in xs k = Some i \<Longrightarrow> length ys = length xs \<Longrightarrow> map_of (zip xs ys) k = Some (ys ! i)"
proof (induction xs arbitrary: ys i)
  case Nil
  then show ?case by simp
next
  case (Cons x xs)
  then show ?case by (cases ys) (auto split: if_splits)
qed

lemma map_of_zip_upd:
  assumes "length ys = length xs" and "i < length xs" and "\<forall>j < i. xs ! j \<noteq> k" and "xs ! i = k"
  shows "map_of (zip xs (ys[i := v])) = (map_of (zip xs ys))(k \<mapsto> v)"
  using assms
proof (induction xs arbitrary: ys i)
  case Nil
  then show ?case by simp
next
  case (Cons x xs)
  then obtain y ys' where ys: "ys = y # ys'" by (cases ys) auto
  show ?case
  proof (cases i)
    case 0
    then show ?thesis using Cons.prems ys by (simp add: fun_eq_iff)
  next
    case (Suc j)
    have "x \<noteq> k" using Cons.prems(3) Suc by force
    moreover have "\<forall>l < j. xs ! l \<noteq> k" using Cons.prems(3) Suc by force
    ultimately show ?thesis using Cons.IH [of ys' j] Cons.prems Suc ys by (auto simp: fun_eq_iff)
  qed
qed

lemma map_of_zip_snoc:
  "length xs = length ys \<Longrightarrow> q \<noteq> k \<Longrightarrow> map_of (zip (xs @ [k]) (ys @ [w])) q = map_of (zip xs ys) q"
  by (induction xs ys rule: list_induct2) auto

lemma is_loop_ok:
  assumes "chx_inv s" and "sview s nm = Some k" and "\<forall>a \<in> set na. sview s a \<noteq> None"
  shows "is_loop (map Some ds @ map Some na @ rest) (int (length ds + length na)) (Some nm) (int (length ds)) s =
    Some (case index_in (map (text_at s) na) k of None \<Rightarrow> -1 | Some i \<Rightarrow> int (length ds + i), s)"
  using assms(3)
proof (induction na arbitrary: ds)
  case Nil
  then show ?case by (subst is_loop.simps) simp
next
  case (Cons a na)
  have a: "sview s a = Some (text_at s a)" using Cons.prems by (auto intro: text_at_live)
  have ih: "is_loop (map Some (ds @ [a]) @ map Some na @ rest) (int (length (ds @ [a]) + length na)) (Some nm) (int (length (ds @ [a]))) s =
    Some (case index_in (map (text_at s) na) k of None \<Rightarrow> -1 | Some i \<Rightarrow> int (length (ds @ [a]) + i), s)"
    by (rule Cons.IH) (use Cons.prems in auto)
  have nth: "idx (map Some ds @ Some a # map Some na @ rest) (int (length ds)) = Some (Some a)"
    by (simp add: nth_append)
  show ?case using ih nth chxeq_live(1) [OF assms(1) a assms(2)]
    by (subst is_loop.simps) (auto simp: add.commute split: option.splits)
qed

lemma find_loop_ok:
  assumes "chx_inv s" and "sview s nm = Some k" and "\<forall>a \<in> set na. sview s a \<noteq> None"
  shows "\<exists>new' s'. find_loop (map Some ds @ map Some na @ rest) (int (length ds + length na)) (Some nm)
        (int (length ds)) new s =
      Some (map_option (\<lambda>i. int (length ds + i)) (index_in (map (text_at s) na) k), new', s') \<and>
    chx_to s (sview s) s' \<and>
    (new' = new \<or> (\<exists>j < length na. new' = int (length ds + j) \<and> text_at s (na ! j) = []))"
  using assms
proof (induction na arbitrary: ds new s)
  case Nil
  then show ?case using chx_to_refl [OF Nil(1)] by (subst find_loop.simps) simp
next
  case (Cons a na)
  define t where "t = text_at s a"
  have a: "sview s a = Some t" using Cons.prems by (auto simp: t_def intro: text_at_live)
  note eq = chxeq_live(1) [OF Cons.prems(1) a Cons.prems(2)]
  have nth: "idx (map Some ds @ Some a # map Some na @ rest) (int (length ds)) = Some (Some a)"
    by (simp add: nth_append)
  show ?case
  proof (cases "t = k")
    case True
    then have "find_loop (map Some ds @ Some a # map Some na @ rest) (1 + (int (length ds) + int (length na))) (Some nm)
        (int (length ds)) new s = Some (Some (int (length ds)), new, s)"
      using eq nth by (subst find_loop.simps) simp
    then show ?thesis using True chx_to_refl [OF Cons.prems(1)] by (simp add: t_def)
  next
    case False
    obtain s1 where s1: "chxvalue (Some a) 0 s = Some (char_at t 0, s1)" "chx_to s (sview s) s1"
      by (rule chxvalue_ok [OF Cons.prems(1) a order.refl])
    note t1 = chx_toD [OF s1(2)]
    have t0: "char_at t 0 = 0 \<longleftrightarrow> t = []" using char_at_eq_0 [OF live_no_NUL [OF a], of 0] by simp
    let ?new = "if t = [] then int (length ds) else new"
    have tx: "text_at s1 = text_at s" using t1(2) by (simp add: text_at_def fun_eq_iff)
    obtain new' s2 where ih: "find_loop (map Some (ds @ [a]) @ map Some na @ rest) (int (length (ds @ [a]) + length na)) (Some nm)
        (int (length (ds @ [a]))) ?new s1 =
      Some (map_option (\<lambda>i. int (length (ds @ [a]) + i)) (index_in (map (text_at s1) na) k), new', s2)"
      "chx_to s1 (sview s1) s2"
      "new' = ?new \<or> (\<exists>j < length na. new' = int (length (ds @ [a]) + j) \<and> text_at s1 (na ! j) = [])"
      using Cons.IH [OF t1(1), of "ds @ [a]" ?new] t1(2) Cons.prems by auto
    have "find_loop (map Some ds @ map Some (a # na) @ rest) (int (length ds + length (a # na))) (Some nm)
        (int (length ds)) new s =
      Some (map_option (\<lambda>i. int (length ds + i)) (index_in (map (text_at s) (a # na)) k), new', s2)"
      using eq nth s1(1) t0 ih(1) False
      by (subst find_loop.simps) (auto simp: t_def [symmetric] tx option.map_comp comp_def add.commute add.left_commute)
    moreover have "new' = new \<or> (\<exists>j < length (a # na). new' = int (length ds + j) \<and> text_at s ((a # na) ! j) = [])"
      using ih(3)
    proof
      assume "new' = ?new"
      then show ?thesis by (cases "t = []") (auto simp: t_def intro: exI [of _ 0])
    next
      assume "\<exists>j < length na. new' = int (length (ds @ [a]) + j) \<and> text_at s1 (na ! j) = []"
      then obtain j where "j < length na" "new' = int (length ds + Suc j)" "text_at s (na ! j) = []"
        by (auto simp: tx)
      then show ?thesis by (intro disjI2 exI [of _ "Suc j"]) simp
    qed
    ultimately show ?thesis using chx_to_read_trans [OF s1(2) ih(2)] by blast
  qed
qed

text \<open>Reusing an empty slot.\<close>

lemma vartab_new_reuse:
  assumes ok: "vt_ok vt na va s" and j: "j < length na" and nm: "sview s nm = Some k"
    and ext: "nm \<notin> set na \<union> set va"
  obtains s' where "vartab_new vt (Some nm) (int j) s = Some (int j, vt, s')" "vt_ok vt na va s'"
    "chx_to s ((sview s)(na ! j \<mapsto> k, va ! j \<mapsto> [])) s'"
proof -
  note o = ok [unfolded vt_ok_def]
  have jv: "j < length va" using o j by simp
  obtain x y where x: "sview s (na ! j) = Some x" and y: "sview s (va ! j) = Some y"
    using o j jv by (metis UnI1 UnI2 nth_mem option.exhaust)
  have ne: "na ! j \<noteq> va ! j" using o nth_mem [OF j] nth_mem [OF jv] by auto
  obtain s1 where s1: "chxcpy (Some (na ! j)) (Some nm) s = Some (1, s1)" "chx_to s ((sview s)(na ! j \<mapsto> k)) s1"
    using chxcpy_ok [of s "na ! j" x nm k] o x nm by blast
  note t1 = chx_toD [OF s1(2)]
  obtain s2 where s2: "chxclear (Some (va ! j)) s1 = Some (1, s2)" "chx_to s1 ((sview s1)(va ! j \<mapsto> [])) s2"
    using chxclear_ok [OF t1(1), of "va ! j" y] t1(2) y ne by auto
  note t2 = chx_toD [OF s2(2)]
  have small: "\<not> int j > vt_max vt - 5" using o j by simp
  have "vartab_new vt (Some nm) (int j) s = Some (int j, vt, s2)"
    using o j jv small s1(1) s2(1) by (simp add: vartab_new_def slot_fill_def slot_alloc_def Let_def nth_append)
  moreover have "vt_ok vt na va s2" using o t1 t2 by (auto simp: vt_ok_def)
  moreover have "chx_to s ((sview s)(na ! j \<mapsto> k, va ! j \<mapsto> [])) s2"
    using chx_to_trans [OF s1(2) s2(2)] t1(2) by simp
  ultimately show thesis using that by blast
qed

text \<open>A new slot, with the arrays doubled when they are nearly full.\<close>

lemma vartab_exp_ok:
  assumes "vt_name vt = map Some na @ replicate (nat (vt_max vt) - length na) nullchix"
    and "vt_value vt = map Some va @ replicate (nat (vt_max vt) - length na) nullchix"
    and "length (vt_code vt) = nat (vt_max vt)" and "length va = length na"
    and "vt_used vt = int (length na) + 1" and "int (length na) + 4 \<le> vt_max vt"
  obtains vt' where "vartab_exp vt = Some vt'" "vt_max vt' = vt_max vt * 2" "vt_used vt' = vt_used vt"
    "vt_name vt' = map Some na @ replicate (nat (vt_max vt') - length na) nullchix"
    "vt_value vt' = map Some va @ replicate (nat (vt_max vt') - length na) nullchix"
    "length (vt_code vt') = nat (vt_max vt')"
proof -
  let ?n = "length na" and ?m = "nat (vt_max vt)"
  have m: "nat (vt_max vt * 2) = ?m * 2" "?n + 4 \<le> ?m" using assms(6) by (simp_all add: nat_mult_distrib)
  have used: "nat (vt_used vt) = Suc ?n" using assms(5) by simp
  have rep: "take (Suc ?n) (xs @ replicate (?m - ?n) z) @ replicate (nat (vt_max vt * 2) - Suc ?n) z =
      xs @ replicate (nat (vt_max vt * 2) - ?n) z" if "length xs = ?n" for xs :: "Chix list" and z
  proof -
    have "take (Suc ?n) (xs @ replicate (?m - ?n) z) = xs @ [z]"
      using that m(2) by (simp add: take_replicate min_def)
    moreover have "nat (vt_max vt * 2) - ?n = Suc (nat (vt_max vt * 2) - Suc ?n)" using m by simp
    ultimately show ?thesis by simp
  qed
  show thesis
    using that [of "the (vartab_exp vt)"] assms m used rep [of "map Some na" None] rep [of "map Some va" None]
    by (simp add: vartab_exp_def Let_def)
qed

lemma vartab_new_fresh:
  assumes ok: "vt_ok vt na va s" and slot: "slot < 0" and nm: "sview s nm = Some k"
  obtains vt' s' n v where "vartab_new vt (Some nm) slot s = Some (int (length na), vt', s')"
    "vt_ok vt' (na @ [n]) (va @ [v]) s'" "sview s n = None" "sview s v = None" "n \<noteq> v"
    "sview s' = (sview s)(n \<mapsto> k, v \<mapsto> [])" "globs s' = globs s"
proof -
  note o = ok [unfolded vt_ok_def]
  let ?vt = "vt\<lparr>vt_used := vt_used vt + 1\<rparr>"
  have inv: "chx_inv s" using o by simp
  obtain vt1 where vt1: "(if vt_used vt > vt_max ?vt - 5 then vartab_exp ?vt else Some ?vt) = Some vt1"
      "int (length na) + 5 \<le> vt_max vt1" "vt_used vt1 = int (length na) + 1"
      "vt_name vt1 = map Some na @ replicate (nat (vt_max vt1) - length na) nullchix"
      "vt_value vt1 = map Some va @ replicate (nat (vt_max vt1) - length na) nullchix"
      "length (vt_code vt1) = nat (vt_max vt1)"
  proof (cases "vt_used vt > vt_max vt - 5")
    case True
    have pre: "vt_name ?vt = map Some na @ replicate (nat (vt_max ?vt) - length na) nullchix"
      "vt_value ?vt = map Some va @ replicate (nat (vt_max ?vt) - length na) nullchix"
      "length (vt_code ?vt) = nat (vt_max ?vt)" "length va = length na"
      "vt_used ?vt = int (length na) + 1" "int (length na) + 4 \<le> vt_max ?vt" using o by simp_all
    show thesis by (rule vartab_exp_ok [OF pre]) (rule that, use True o in auto)
  next
    case False
    then show thesis using that [of ?vt] o by simp
  qed
  define n where "n = next_adr s"
  obtain s1 where s1: "chxalloc 30 THIN ''vart_new name'' s = (n, s1)" "chx_to s ((sview s)(n \<mapsto> [])) s1"
      "next_adr s1 = Suc n" using chxalloc_ok [OF inv] n_def by metis
  note t1 = chx_toD [OF s1(2)]
  define v where "v = Suc n"
  obtain s2 where s2: "chxalloc 40 THIN ''vart_new value'' s1 = (v, s2)" "chx_to s1 ((sview s1)(v \<mapsto> [])) s2"
    using chxalloc_ok [OF t1(1)] s1(3) v_def by metis
  note t2 = chx_toD [OF s2(2)]
  have new: "sview s n = None" "sview s v = None" "n \<noteq> v"
    using fresh_not_live [OF inv] live_less [OF inv, of v]
    by (simp_all add: n_def v_def) (metis Suc_lessD less_irrefl option.exhaust)
  have nn: "nm \<noteq> n" "nm \<noteq> v" using new nm by auto
  have v2: "sview s2 = (sview s)(n \<mapsto> [], v \<mapsto> [])" using t1(2) t2(2) by simp
  obtain s3 where s3: "chxcpy (Some n) (Some nm) s2 = Some (1, s3)" "chx_to s2 ((sview s2)(n \<mapsto> k)) s3"
    using chxcpy_ok [OF t2(1), of n "[]" nm k] v2 nm nn new by auto
  note t3 = chx_toD [OF s3(2)]
  obtain s4 where s4: "chxclear (Some v) s3 = Some (1, s4)" "chx_to s3 ((sview s3)(v \<mapsto> [])) s4"
    using chxclear_ok [OF t3(1), of v "[]"] t3(2) v2 new by auto
  note t4 = chx_toD [OF s4(2)]
  have v4: "sview s4 = (sview s)(n \<mapsto> k, v \<mapsto> [])" using t4(2) t3(2) v2 new by (auto simp: fun_eq_iff)
  let ?L = "length na"
  obtain r where r: "nat (vt_max vt1) - ?L = Suc r" using vt1(2) by (cases "nat (vt_max vt1) - ?L") auto
  let ?vt' = "vt1\<lparr>vt_name := map Some (na @ [n]) @ replicate r nullchix, vt_value := map Some (va @ [v]) @ replicate r nullchix\<rparr>"
  have used: "vt_used vt = int ?L" using o by simp
  have exp: "(if vt_max vt - 5 < int ?L then vartab_exp (vt\<lparr>vt_used := int ?L + 1\<rparr>)
      else Some (vt\<lparr>vt_used := int ?L + 1\<rparr>)) = Some vt1" using vt1(1) [unfolded used] by simp
  have na1: "idx (vt_name vt1) (int ?L) = Some None" "upd_idx (vt_name vt1) (int ?L) (Some n) = Some (vt_name ?vt')"
      "upd_idx (vt_value vt1) (int ?L) (Some v) = Some (vt_value ?vt')"
      "idx (vt_name ?vt') (int ?L) = Some (Some n)" "idx (vt_value ?vt') (int ?L) = Some (Some v)"
    using vt1(4,5) r o by (simp_all add: nth_append list_update_append)
  have "slot_alloc vt1 (int ?L) s = Some (?vt', s2)"
    unfolding slot_alloc_def na1(1) using na1(2,3) s1(1) s2(1) by simp
  then have "slot_fill vt1 (Some nm) (int ?L) s = Some (int ?L, ?vt', s4)"
    using s3(1) s4(1) o nth_append_length [of "map Some va" "Some v" "replicate r nullchix"]
    unfolding slot_fill_def by (simp add: nth_append)
  moreover have "vartab_new vt (Some nm) slot s =
      ((if vt_max vt - 5 < int ?L then vartab_exp (vt\<lparr>vt_used := int ?L + 1\<rparr>)
        else Some (vt\<lparr>vt_used := int ?L + 1\<rparr>)) \<bind> (\<lambda>vt. slot_fill vt (Some nm) (int ?L) s))"
    using slot unfolding vartab_new_def Let_def used by simp
  ultimately have "vartab_new vt (Some nm) slot s = Some (int ?L, ?vt', s4)" unfolding exp by simp
  moreover have "vt_ok ?vt' (na @ [n]) (va @ [v]) s4"
  proof -
    have "\<forall>a \<in> set na \<union> set va. sview s a \<noteq> None" using o by blast
    then have "n \<notin> set na \<union> set va" "v \<notin> set na \<union> set va" using new by metis+
    moreover have "nat (vt_max vt1) - Suc ?L = r" using r by simp
    ultimately show ?thesis using o vt1 t4(1) v4 new by (auto simp: vt_ok_def)
  qed
  moreover have "globs s4 = globs s" using t1(3) t2(3) t3(3) t4(3) by simp
  ultimately show thesis using that new v4 by blast
qed

section \<open>Finding and adding\<close>

lemma text_at_upd: "sview s' = (sview s)(a \<mapsto> x) \<Longrightarrow> text_at s' = (text_at s)(a := x)"
  by (auto simp: text_at_def fun_eq_iff)

lemma map_upd_distinct:
  "distinct as \<Longrightarrow> i < length as \<Longrightarrow> map (f(as ! i := x)) as = (map f as)[i := x]"
  by (auto simp: list_eq_iff_nth_eq nth_list_update nth_eq_iff_index_eq)

text \<open>
  \<open>vartab_find\<close> returns a slot whose name is the given one. A name that was not there gets a slot with
  an empty value; nothing else of the table changes.
\<close>

lemma vartab_find_ok:
  assumes ok: "vt_ok vt na va s" and nm: "sview s nm = Some k" and k: "k \<noteq> []"
    and ext: "nm \<notin> set na \<union> set va"
  obtains i vt' na' va' s' where "vartab_find vt (Some nm) s = Some (int i, vt', s')" "vt_ok vt' na' va' s'"
    "i < length na'" "index_in (map (text_at s') na') k = Some i"
    "\<forall>q. q \<noteq> k \<longrightarrow> vars na' va' s' q = vars na va s q"
    "\<forall>a. sview s a \<noteq> None \<and> a \<notin> set na \<union> set va \<longrightarrow> sview s' a = sview s a \<and> a \<notin> set na' \<union> set va'"
    "globs s' = globs s"
proof -
  note o = ok [unfolded vt_ok_def]
  have inv: "chx_inv s" and live: "\<forall>a \<in> set na. sview s a \<noteq> None" using o by auto
  have dn: "distinct na" and dv: "distinct va" and dj: "set na \<inter> set va = {}" and lv: "length va = length na"
    using o by auto
  obtain new s1 where s1: "find_loop (vt_name vt) (vt_used vt) (Some nm) 0 (-1) s =
      Some (map_option int (index_in (map (text_at s) na) k), new, s1)" "chx_to s (sview s) s1"
      "new = -1 \<or> (\<exists>j < length na. new = int j \<and> text_at s (na ! j) = [])"
    using find_loop_ok [OF inv nm live, of "[]" "replicate (nat (vt_max vt) - length na) nullchix" "-1"] o by auto
  note t1 = chx_toD [OF s1(2)]
  have ok1: "vt_ok vt na va s1" using o t1 by (simp add: vt_ok_def)
  have tx1: "text_at s1 = text_at s" using t1(2) by (simp add: text_at_def fun_eq_iff)
  have vs1: "vars na va s1 = vars na va s" by (simp add: vars_def tx1 fun_eq_iff)
  show thesis
  proof (cases "index_in (map (text_at s) na) k")
    case (Some i)
    then have "vartab_find vt (Some nm) s = Some (int i, vt, s1)" using s1(1) by (simp add: vartab_find_def)
    then show thesis
      using that [of i vt s1 na va] ok1 Some index_in_Some [OF Some] tx1 vs1 t1 by (simp add: vs1)
  next
    case None
    then have kn: "k \<notin> set (map (text_at s) na)" by (simp add: index_in_None)
    have nm1: "sview s1 nm = Some k" using t1(2) nm by simp
    from s1(3) show thesis
    proof
      assume neg: "new = -1"
      obtain vt' s2 n v where r: "vartab_new vt (Some nm) (-1) s1 = Some (int (length na), vt', s2)"
          "vt_ok vt' (na @ [n]) (va @ [v]) s2" "sview s1 n = None" "sview s1 v = None" "n \<noteq> v"
          "sview s2 = (sview s1)(n \<mapsto> k, v \<mapsto> [])" "globs s2 = globs s1"
        by (rule vartab_new_fresh [OF ok1 _ nm1, of "-1"]) simp_all
      have old: "sview s2 a = sview s a" if "sview s a \<noteq> None" for a using r(3-6) t1(2) that by auto
      have txo: "text_at s2 a = text_at s a" if "a \<in> set na \<union> set va" for a
        using old [of a] o that by (simp add: text_at_def)
      have txn: "text_at s2 n = k" "text_at s2 v = []" using r(5,6) by (simp_all add: text_at_def)
      have mp: "map (text_at s2) na = map (text_at s) na" "map (text_at s2) va = map (text_at s) va" using txo by simp_all
      have "index_in (xs @ [k]) k = Some (length xs)" if "k \<notin> set xs" for xs using that by (induction xs) auto
      then have f: "index_in (map (text_at s2) (na @ [n])) k = Some (length na)" using kn mp txn by simp
      have vr: "vars (na @ [n]) (va @ [v]) s2 q = vars na va s q" if "q \<noteq> k" for q
        unfolding vars_def map_append mp
        using txn that map_of_zip_snoc [of "map (text_at s) na" "map (text_at s) va" q k "[]"] lv by simp
      have find: "vartab_find vt (Some nm) s = Some (int (length na), vt', s2)"
        using s1(1) None r(1) neg by (simp add: vartab_find_def)
      have ext': "\<forall>a. sview s a \<noteq> None \<and> a \<notin> set na \<union> set va \<longrightarrow>
          sview s2 a = sview s a \<and> a \<notin> set (na @ [n]) \<union> set (va @ [v])"
        using old r(3,4) t1(2) by auto
      show thesis using that [OF find r(2) _ f _ ext'] vr r(7) t1(3) by simp
    next
      assume "\<exists>j < length na. new = int j \<and> text_at s (na ! j) = []"
      then obtain j where j: "j < length na" "new = int j" "text_at s (na ! j) = []" by blast
      obtain s2 where r: "vartab_new vt (Some nm) (int j) s1 = Some (int j, vt, s2)" "vt_ok vt na va s2"
          "chx_to s1 ((sview s1)(na ! j \<mapsto> k, va ! j \<mapsto> [])) s2"
        by (rule vartab_new_reuse [OF ok1 j(1) nm1 ext])
      note t2 = chx_toD [OF r(3)]
      have jn: "na ! j \<in> set na" "va ! j \<in> set va" using j(1) lv by simp_all
      have mp: "map (text_at s2) na = (map (text_at s) na)[j := k]" "map (text_at s2) va = (map (text_at s) va)[j := []]"
      proof -
        have tx2: "text_at s2 = (text_at s)(na ! j := k, va ! j := [])"
          using t2(2) t1(2) by (auto simp: text_at_def fun_eq_iff)
        have "map ((text_at s)(na ! j := k)) na = map (text_at s2) na" using tx2 jn dj by auto
        then show "map (text_at s2) na = (map (text_at s) na)[j := k]" using map_upd_distinct [OF dn j(1)] by metis
        have "map ((text_at s)(va ! j := [])) va = map (text_at s2) va" using tx2 jn dj by auto
        then show "map (text_at s2) va = (map (text_at s) va)[j := []]" using map_upd_distinct [OF dv] j(1) lv by metis
      qed
      have "index_in (xs[j := k]) k = Some j" if "k \<notin> set xs" "j < length xs" for xs
        using that by (induction xs arbitrary: j) (auto split: nat.splits)
      then have f: "index_in (map (text_at s2) na) k = Some j" using kn mp j(1) by simp
      have "map_of (zip (xs[j := k]) (ys[j := w])) q = map_of (zip xs ys) q"
        if "q \<noteq> k" "q \<noteq> []" "xs ! j = []" "length ys = length xs" for xs ys :: "string list" and q w
        using that
      proof (induction xs arbitrary: ys j)
        case (Cons x xs)
        then show ?case by (cases ys; cases j) auto
      qed simp
      then have vr: "vars na va s2 q = vars na va s q" if "q \<noteq> k" for q
        using that mp j lv by (simp add: vars_def)
      have find: "vartab_find vt (Some nm) s = Some (int j, vt, s2)"
        using s1(1) None r(1) j(2) by (simp add: vartab_find_def)
      have ext': "\<forall>a. sview s a \<noteq> None \<and> a \<notin> set na \<union> set va \<longrightarrow> sview s2 a = sview s a \<and> a \<notin> set na \<union> set va"
        using t2(2) t1(2) jn by auto
      show thesis using that [OF find r(2) j(1) f _ ext'] vr t2(3) t1(3) by simp
    qed
  qed
qed

definition names_of :: "Vartab_t \<Rightarrow> nat list" where
  "names_of vt = map the (take (nat (vt_used vt)) (vt_name vt))"

definition values_of :: "Vartab_t \<Rightarrow> nat list" where
  "values_of vt = map the (take (nat (vt_used vt)) (vt_value vt))"

definition vt_inv :: "Vartab_t \<Rightarrow> chx_state \<Rightarrow> bool" where
  "vt_inv vt s \<longleftrightarrow> vt_ok vt (names_of vt) (values_of vt) s"

definition lookup :: "Vartab_t \<Rightarrow> chx_state \<Rightarrow> string \<Rightarrow> string option" where
  "lookup vt s = vars (names_of vt) (values_of vt) s"

definition outside :: "Vartab_t \<Rightarrow> nat \<Rightarrow> bool" where
  "outside vt a \<longleftrightarrow> a \<notin> set (names_of vt) \<union> set (values_of vt)"

lemma vt_ok_names: "vt_ok vt na va s \<Longrightarrow> names_of vt = na \<and> values_of vt = va"
  by (simp add: vt_ok_def names_of_def values_of_def comp_def)

text \<open>\<open>vartab_add\<close> binds the name to the value and changes no other variable and no chix outside the table.\<close>

lemma vartab_add_ok:
  assumes inv: "vt_inv vt s" and n: "sview s n = Some k" "k \<noteq> []" and v: "sview s v = Some x"
    and out: "outside vt n" "outside vt v"
  obtains i vt' s' where "vartab_add vt (Some n) (Some v) s = Some (i, vt', s')" "vt_inv vt' s'"
    "lookup vt' s' = (lookup vt s)(k \<mapsto> x)"
    "\<forall>a. sview s a \<noteq> None \<and> outside vt a \<longrightarrow> sview s' a = sview s a \<and> outside vt' a"
proof -
  let ?na = "names_of vt" and ?va = "values_of vt"
  have ext: "n \<notin> set ?na \<union> set ?va" "v \<notin> set ?na \<union> set ?va" using out by (auto simp: outside_def)
  obtain i vt' na va s1 where f: "vartab_find vt (Some n) s = Some (int i, vt', s1)" "vt_ok vt' na va s1"
    "i < length na" "index_in (map (text_at s1) na) k = Some i"
    "\<forall>q. q \<noteq> k \<longrightarrow> vars na va s1 q = vars ?na ?va s q"
    "\<forall>a. sview s a \<noteq> None \<and> a \<notin> set ?na \<union> set ?va \<longrightarrow> sview s1 a = sview s a \<and> a \<notin> set na \<union> set va"
    by (rule vartab_find_ok [OF inv [unfolded vt_inv_def] n ext(1)])
  note o = f(2) [unfolded vt_ok_def]
  have iv: "i < length va" using o f(3) by simp
  have vi: "va ! i \<in> set va" using iv by simp
  obtain y where y: "sview s1 (va ! i) = Some y" using o vi by blast
  have v1: "sview s1 v = Some x" "v \<notin> set na \<union> set va" using f(6) v ext(2) by auto
  obtain s2 where s2: "chxcpy (Some (va ! i)) (Some v) s1 = Some (1, s2)" "chx_to s1 ((sview s1)(va ! i \<mapsto> x)) s2"
    using chxcpy_ok [of s1 "va ! i" y v x] o y v1(1) by blast
  note t2 = chx_toD [OF s2(2)]
  have ok2: "vt_ok vt' na va s2" using o t2 by (auto simp: vt_ok_def)
  have tx: "text_at s2 = (text_at s1)(va ! i := x)" by (rule text_at_upd [OF t2(2)])
  have dj: "set na \<inter> set va = {}" and dv: "distinct va" and lv: "length va = length na" using o by auto
  have mn: "map (text_at s2) na = map (text_at s1) na" using tx vi dj by auto
  have mv: "map (text_at s2) va = (map (text_at s1) va)[i := x]" unfolding tx by (rule map_upd_distinct [OF dv iv])
  note fs = index_in_Some [OF f(4)]
  have "map_of (zip (map (text_at s1) na) ((map (text_at s1) va)[i := x])) =
      (map_of (zip (map (text_at s1) na) (map (text_at s1) va)))(k \<mapsto> x)"
    by (rule map_of_zip_upd) (use fs lv in auto)
  then have "vars na va s2 = (vars na va s1)(k \<mapsto> x)" using n(2) by (auto simp: vars_def mn mv fun_eq_iff)
  then have "vars na va s2 = (vars ?na ?va s)(k \<mapsto> x)" using f(5) by (auto simp: fun_eq_iff)
  then have "lookup vt' s2 = (lookup vt s)(k \<mapsto> x)" using vt_ok_names [OF ok2] by (simp add: lookup_def)
  moreover have "vartab_add vt (Some n) (Some v) s = Some (int i, vt', s2)"
    using f(1) o iv s2(1) by (simp add: vartab_add_def nth_append)
  moreover have "vt_inv vt' s2" using ok2 vt_ok_names [OF ok2] by (simp add: vt_inv_def)
  moreover have "\<forall>a. sview s a \<noteq> None \<and> outside vt a \<longrightarrow> sview s2 a = sview s a \<and> outside vt' a"
    using f(6) t2(2) vi vt_ok_names [OF ok2] by (auto simp: outside_def)
  ultimately show thesis using that by blast
qed

text \<open>\<open>vartab_is\<close> finds the slot of a variable, or -1, and changes nothing.\<close>

lemma vartab_is_ok:
  assumes inv: "vt_inv vt s" and n: "sview s n = Some k" "k \<noteq> []"
  shows "\<exists>i. vartab_is vt (Some n) s = Some (i, s) \<and>
    (case lookup vt s k of None \<Rightarrow> i = -1
     | Some x \<Rightarrow> 0 \<le> i \<and> i < vt_used vt \<and> sview s (values_of vt ! nat i) = Some x)"
proof -
  let ?na = "names_of vt" and ?va = "values_of vt"
  note o = inv [unfolded vt_inv_def vt_ok_def]
  have live: "\<forall>a \<in> set ?na. sview s a \<noteq> None" "\<forall>a \<in> set ?va. sview s a \<noteq> None" using o by auto
  have run: "vartab_is vt (Some n) s =
      Some (case index_in (map (text_at s) ?na) k of None \<Rightarrow> -1 | Some i \<Rightarrow> int i, s)"
    using is_loop_ok [OF _ n(1) live(1), of "[]" "replicate (nat (vt_max vt) - length ?na) nullchix"] o
    by (simp add: vartab_is_def split: option.splits)
  show ?thesis
  proof (cases "index_in (map (text_at s) ?na) k")
    case None
    then have "lookup vt s k = None" using o by (auto simp: lookup_def vars_def index_in_None map_of_eq_None_iff dest: set_zip_leftD)
    then show ?thesis using run None by simp
  next
    case (Some i)
    have i: "i < length ?na" "i < length ?va" using index_in_Some [OF Some] o by auto
    have "lookup vt s k = Some (text_at s (?va ! i))"
      using map_of_first [OF Some, of "map (text_at s) ?va"] n(2) o i by (simp add: lookup_def vars_def)
    moreover have "sview s (?va ! i) = Some (text_at s (?va ! i))" using live(2) i by (intro text_at_live) auto
    moreover have "vt_used vt = int (length ?na)" using o by simp
    ultimately show ?thesis using run Some i by simp
  qed
qed

lemma a_mak_vartab_ok:
  assumes inv: "chx_inv s"
  obtains vt s' where "a_mak_vartab nm s = (vt, s')" "vt_inv vt s'" "lookup vt s' = (\<lambda>_. None)"
    "\<forall>a. outside vt a" "chx_to s ((sview s)(next_adr s \<mapsto> [])) s'" "vt_owner vt = Some (next_adr s)" "vt_tag vt = T_VARTAB"
proof -
  obtain s' where s': "chxalloc 20 THIN ''a_mak_vartab owner'' s = (next_adr s, s')"
      "chx_to s ((sview s)(next_adr s \<mapsto> [])) s'" by (rule chxalloc_ok [OF inv])
  define vt where "vt = fst (a_mak_vartab nm s)"
  have r: "a_mak_vartab nm s = (vt, s')" using s'(1) by (simp add: vt_def a_mak_vartab_def)
  have vt: "vt = \<lparr>vt_tag = T_VARTAB, vt_id1 = 0, vt_id2 = 0, vt_owner = Some (next_adr s),
           vt_name = replicate INITIAL_SIZE nullchix, vt_value = replicate INITIAL_SIZE nullchix,
           vt_code = replicate INITIAL_SIZE (-1), vt_used = 0, vt_max = int INITIAL_SIZE\<rparr>"
    using s'(1) by (simp add: vt_def a_mak_vartab_def)
  have na: "names_of vt = []" "values_of vt = []" by (simp_all add: vt names_of_def values_of_def)
  have "vt_inv vt s'" unfolding vt_inv_def vt_ok_def na using chx_toD(1) [OF s'(2)] by (simp add: vt INITIAL_SIZE_def)
  moreover have "lookup vt s' = (\<lambda>_. None)" "\<forall>a. outside vt a"
    by (auto simp: lookup_def na vars_def fun_eq_iff outside_def)
  moreover have "vt_owner vt = Some (next_adr s)" "vt_tag vt = T_VARTAB" by (simp_all add: vt)
  ultimately show thesis using that r s'(2) by blast
qed

lemma free_slots_ok:
  assumes "chx_inv s" and "distinct (map fst ps @ map snd ps)"
    and "\<forall>p \<in> set ps. sview s (fst p) \<noteq> None \<and> sview s (snd p) \<noteq> None"
    and "\<forall>p \<in> set ps. blanks s \<noteq> Some (fst p) \<and> blanks s \<noteq> Some (snd p)"
  shows "\<exists>s'. free_slots (map (\<lambda>(n, v). (Some n, Some v)) ps) s = Some s' \<and>
    chx_to s (\<lambda>a. if a \<in> fst ` set ps \<union> snd ` set ps then None else sview s a) s'"
  using assms
proof (induction ps arbitrary: s)
  case Nil
  then show ?case using chx_to_refl [OF Nil(1)] by simp
next
  case (Cons p ps)
  obtain n v where p: "p = (n, v)" by (cases p)
  obtain x y where xy: "sview s n = Some x" "sview s v = Some y" using Cons.prems(3) p by auto
  have ne: "n \<noteq> v" using Cons.prems(2) p by auto
  obtain s1 where s1: "chxfree (Some n) s = Some (1, s1)" "chx_to s ((sview s)(n := None)) s1"
    using chxfree_ok [OF Cons.prems(1) xy(1)] Cons.prems(4) p by auto
  note t1 = chx_toD [OF s1(2)]
  have "blanks s1 \<noteq> Some v" using t1(3) Cons.prems(4) p by (auto simp: globs_def)
  then obtain s2 where s2: "chxfree (Some v) s1 = Some (1, s2)" "chx_to s1 ((sview s1)(v := None)) s2"
    using chxfree_ok [OF t1(1), of v y] t1(2) xy(2) ne by auto
  note t2 = chx_toD [OF s2(2)]
  have b2: "blanks s2 = blanks s" using t1(3) t2(3) by (simp add: globs_def)
  have v2: "sview s2 = (sview s)(n := None, v := None)" using t1(2) t2(2) by simp
  have "n \<notin> fst ` set ps \<union> snd ` set ps" "v \<notin> fst ` set ps \<union> snd ` set ps" using Cons.prems(2) p by simp_all
  then have out: "\<forall>q \<in> set ps. fst q \<noteq> n \<and> fst q \<noteq> v \<and> snd q \<noteq> n \<and> snd q \<noteq> v" by (metis UnI1 UnI2 imageI)
  have ih: "\<exists>s'. free_slots (map (\<lambda>(n, v). (Some n, Some v)) ps) s2 = Some s' \<and>
      chx_to s2 (\<lambda>a. if a \<in> fst ` set ps \<union> snd ` set ps then None else sview s2 a) s'"
    by (rule Cons.IH [OF t2(1)]) (use Cons.prems(2-4) p v2 b2 out in auto)
  then obtain s3 where s3: "free_slots (map (\<lambda>(n, v). (Some n, Some v)) ps) s2 = Some s3"
      "chx_to s2 (\<lambda>a. if a \<in> fst ` set ps \<union> snd ` set ps then None else sview s2 a) s3" by blast
  have "(\<lambda>a. if a \<in> fst ` set ps \<union> snd ` set ps then None else sview s2 a) =
      (\<lambda>a. if a \<in> fst ` set (p # ps) \<union> snd ` set (p # ps) then None else sview s a)"
    using v2 p by (auto simp: fun_eq_iff)
  then have "chx_to s (\<lambda>a. if a \<in> fst ` set (p # ps) \<union> snd ` set (p # ps) then None else sview s a) s3"
    using chx_to_trans [OF s1(2) chx_to_trans [OF s2(2) s3(2)]] by simp
  then show ?case using s1(1) s2(1) s3(1) p by auto
qed

text \<open>Freeing a table frees its owner and every slot, and nothing else.\<close>

lemma a_fre_vartab_ok:
  assumes inv: "vt_inv vt s" and tag: "vt_tag vt = T_VARTAB" and ow: "vt_owner vt = Some w" "sview s w \<noteq> None"
    and out: "outside vt w" and bl: "blanks s \<noteq> Some w" "\<forall>a. blanks s = Some a \<longrightarrow> outside vt a"
  obtains s' where "a_fre_vartab (Some vt) s = Some (1, s')"
    "chx_to s (\<lambda>a. if a = w \<or> \<not> outside vt a then None else sview s a) s'"
proof -
  let ?na = "names_of vt" and ?va = "values_of vt"
  note o = inv [unfolded vt_inv_def vt_ok_def]
  have ext: "w \<notin> set ?na \<union> set ?va" using out by (simp add: outside_def)
  obtain x where x: "sview s w = Some x" using ow(2) by blast
  obtain s1 where s1: "chxfree (Some w) s = Some (1, s1)" "chx_to s ((sview s)(w := None)) s1"
    using chxfree_ok [OF _ x bl(1)] o by blast
  note t1 = chx_toD [OF s1(2)]
  let ?ps = "zip ?na ?va"
  have fs: "map fst ?ps = ?na" "map snd ?ps = ?va" using o by simp_all
  have im: "fst ` set ?ps = set ?na" "snd ` set ?ps = set ?va" using fs by (metis set_map)+
  have slots: "take (nat (vt_used vt)) (zip (vt_name vt) (vt_value vt)) = map (\<lambda>(n, v). (Some n, Some v)) ?ps"
    using o by (simp add: take_zip zip_map_map)
  have "\<exists>s'. free_slots (map (\<lambda>(n, v). (Some n, Some v)) ?ps) s1 = Some s' \<and>
    chx_to s1 (\<lambda>a. if a \<in> fst ` set ?ps \<union> snd ` set ?ps then None else sview s1 a) s'"
  proof (rule free_slots_ok [OF t1(1)])
    show "distinct (map fst ?ps @ map snd ?ps)" using o unfolding fs by simp
    have mem: "p \<in> set ?ps \<Longrightarrow> fst p \<in> set ?na \<and> snd p \<in> set ?va" for p using im by (metis imageI)
    have live: "a \<in> set ?na \<union> set ?va \<Longrightarrow> sview s1 a \<noteq> None \<and> blanks s1 \<noteq> Some a" for a
    proof -
      assume a: "a \<in> set ?na \<union> set ?va"
      then have "sview s a \<noteq> None" "a \<noteq> w" "\<not> outside vt a" using o ext by (blast, metis, simp add: outside_def)
      then show "sview s1 a \<noteq> None \<and> blanks s1 \<noteq> Some a" using t1(2,3) bl(2) by (auto simp: globs_def)
    qed
    show "\<forall>p \<in> set ?ps. sview s1 (fst p) \<noteq> None \<and> sview s1 (snd p) \<noteq> None"
      "\<forall>p \<in> set ?ps. blanks s1 \<noteq> Some (fst p) \<and> blanks s1 \<noteq> Some (snd p)"
      using mem live by (metis UnI1 UnI2)+
  qed
  then obtain s2 where s2: "free_slots (map (\<lambda>(n, v). (Some n, Some v)) ?ps) s1 = Some s2"
    "chx_to s1 (\<lambda>a. if a \<in> set ?na \<union> set ?va then None else sview s1 a) s2" unfolding im by blast
  have "(\<lambda>a. if a \<in> set ?na \<union> set ?va then None else sview s1 a) =
      (\<lambda>a. if a = w \<or> \<not> outside vt a then None else sview s a)"
    using t1(2) by (auto simp: fun_eq_iff outside_def)
  then have "chx_to s (\<lambda>a. if a = w \<or> \<not> outside vt a then None else sview s a) s2"
    using chx_to_trans [OF s1(2) s2(2)] by simp
  moreover have "a_fre_vartab (Some vt) s = Some (1, s2)"
    using tag ow(1) s1(1) s2(1) slots by (simp add: a_fre_vartab_def)
  ultimately show thesis using that by blast
qed

section \<open>The interface of a variable store\<close>

text \<open>
  What the macro interpreter relies on: after \<open>add\<close> a name is bound to the new value and every other
  name keeps its own, for a name and value that are held outside the table.
\<close>

fun adds :: "('t \<Rightarrow> Chix \<Rightarrow> Chix \<Rightarrow> 's \<Rightarrow> (int \<times> 't \<times> 's) option) \<Rightarrow> 't \<Rightarrow> (nat \<times> nat) list \<Rightarrow> 's \<Rightarrow> ('t \<times> 's) option" where
  "adds add t [] s = Some (t, s)"
| "adds add t ((n, v) # ps) s = do { (_, t, s) \<leftarrow> add t (Some n) (Some v) s; adds add t ps s }"

locale variable_store =
  fixes ok :: "'t \<Rightarrow> 's \<Rightarrow> bool"
    and bound :: "'t \<Rightarrow> 's \<Rightarrow> string \<Rightarrow> string option"
    and str_at :: "'s \<Rightarrow> nat \<Rightarrow> string option"
    and free_of :: "'t \<Rightarrow> nat \<Rightarrow> bool"
    and add :: "'t \<Rightarrow> Chix \<Rightarrow> Chix \<Rightarrow> 's \<Rightarrow> (int \<times> 't \<times> 's) option"
  assumes add_law:
    "ok t s \<Longrightarrow> str_at s n = Some k \<Longrightarrow> k \<noteq> [] \<Longrightarrow> str_at s v = Some x \<Longrightarrow> free_of t n \<Longrightarrow> free_of t v \<Longrightarrow>
     \<exists>i t' s'. add t (Some n) (Some v) s = Some (i, t', s') \<and> ok t' s' \<and>
       bound t' s' = (bound t s)(k \<mapsto> x) \<and>
       (\<forall>a. str_at s a \<noteq> None \<and> free_of t a \<longrightarrow> str_at s' a = str_at s a \<and> free_of t' a)"
begin

lemma adds_law:
  assumes "ok t s"
    and "\<forall>(n, v) \<in> set ps. str_at s n \<noteq> None \<and> str_at s n \<noteq> Some [] \<and> str_at s v \<noteq> None \<and> free_of t n \<and> free_of t v"
  shows "\<exists>t' s'. adds add t ps s = Some (t', s') \<and> ok t' s' \<and>
    bound t' s' = bound t s ++ map_of (rev (map (\<lambda>(n, v). (the (str_at s n), the (str_at s v))) ps))"
  using assms
proof (induction ps arbitrary: t s)
  case Nil
  then show ?case by simp
next
  case (Cons p ps)
  obtain n v where p: "p = (n, v)" by (cases p)
  then obtain k x where kx: "str_at s n = Some k" "k \<noteq> []" "str_at s v = Some x" "free_of t n" "free_of t v"
    using Cons.prems(2) by auto
  obtain i t1 s1 where s1: "add t (Some n) (Some v) s = Some (i, t1, s1)" "ok t1 s1"
      "bound t1 s1 = (bound t s)(k \<mapsto> x)"
      "\<forall>a. str_at s a \<noteq> None \<and> free_of t a \<longrightarrow> str_at s1 a = str_at s a \<and> free_of t1 a"
    using add_law [OF Cons.prems(1) kx] by blast
  have same: "\<forall>(n, v) \<in> set ps. str_at s1 n = str_at s n \<and> str_at s1 v = str_at s v \<and> free_of t1 n \<and> free_of t1 v"
    using s1(4) Cons.prems(2) by auto
  then have "\<forall>(n, v) \<in> set ps. str_at s1 n \<noteq> None \<and> str_at s1 n \<noteq> Some [] \<and> str_at s1 v \<noteq> None \<and> free_of t1 n \<and> free_of t1 v"
    using Cons.prems(2) by fastforce
  then obtain t2 s2 where s2: "adds add t1 ps s1 = Some (t2, s2)" "ok t2 s2"
      "bound t2 s2 = bound t1 s1 ++ map_of (rev (map (\<lambda>(n, v). (the (str_at s1 n), the (str_at s1 v))) ps))"
    using Cons.IH [OF s1(2)] by blast
  have "map (\<lambda>(n, v). (the (str_at s1 n), the (str_at s1 v))) ps = map (\<lambda>(n, v). (the (str_at s n), the (str_at s v))) ps"
    using same by (auto intro!: map_cong)
  note s2(3) [unfolded this s1(3)]
  then show ?case using s1(1) s2(1,2) p kx by (simp add: map_add_upd_left map_add_assoc [symmetric])
qed

end

interpretation vt: variable_store vt_inv lookup sview outside vartab_add
proof unfold_locales
  fix t s n k v x
  assume "vt_inv t s" "sview s n = Some k" "k \<noteq> []" "sview s v = Some x" "outside t n" "outside t v"
  then show "\<exists>i t' s'. vartab_add t (Some n) (Some v) s = Some (i, t', s') \<and> vt_inv t' s' \<and>
       lookup t' s' = (lookup t s)(k \<mapsto> x) \<and>
       (\<forall>a. sview s a \<noteq> None \<and> outside t a \<longrightarrow> sview s' a = sview s a \<and> outside t' a)"
    using vartab_add_ok by metis
qed

section \<open>Properties\<close>

text \<open>A sample table: a new one on a store that holds a name and a value.\<close>

lemma sample_table:
  obtains vt s where "a_mak_vartab nm (store_of [''color'', ''red'']) = (vt, s)" "vt_inv vt s" "lookup vt s = (\<lambda>_. None)"
    "\<forall>a. outside vt a" "sview s 1 = Some ''color''" "sview s 2 = Some ''red''" "sview s 3 = Some []" "vt_owner vt = Some 3"
    "vt_tag vt = T_VARTAB" "blanks s = None"
proof -
  let ?s = "store_of [''color'', ''red'']"
  have inv: "chx_inv ?s" by (simp add: store_of_inv)
  have n: "next_adr ?s = 3" "blanks ?s = None" by (simp_all add: store_of_def init_state_def)
  obtain vt s where m: "a_mak_vartab nm ?s = (vt, s)" "vt_inv vt s" "lookup vt s = (\<lambda>_. None)" "\<forall>a. outside vt a"
    "chx_to ?s ((sview ?s)(next_adr ?s \<mapsto> [])) s" "vt_owner vt = Some (next_adr ?s)" "vt_tag vt = T_VARTAB"
    by (rule a_mak_vartab_ok [OF inv])
  have g: "blanks s = None" using chx_toD(3) [OF m(5)] n(2) by (simp add: globs_def)
  have "sview s 1 = Some ''color''" "sview s 2 = Some ''red''" "sview s 3 = Some []"
    using chx_toD(2) [OF m(5)] n(1) by (simp_all add: store_of_sview)
  then show thesis using that m g n(1) by simp
qed

text \<open>
  \<open>vartab_add\<close> is an assignment: afterwards the name is bound to the value, every other variable keeps its
  own, the table stays well-formed (grown when it is nearly full), and no string outside it changes.
\<close>

theorem vartab_add_binds:
  assumes "vt_inv vt s" and "sview s n = Some k" and "k \<noteq> []" and "sview s v = Some x" and "outside vt n" and "outside vt v"
  shows "\<exists>i vt' s'. vartab_add vt (Some n) (Some v) s = Some (i, vt', s') \<and> vt_inv vt' s' \<and>
    lookup vt' s' = (lookup vt s)(k \<mapsto> x) \<and>
    (\<forall>a. sview s a \<noteq> None \<and> outside vt a \<longrightarrow> sview s' a = sview s a \<and> outside vt' a)"
  using vartab_add_ok [OF assms] by metis

theorem vartab_add_binds_witness:
  "\<exists>vt s i vt' s'. a_mak_vartab ''site'' (store_of [''color'', ''red'']) = (vt, s) \<and>
     vartab_add vt (Some 1) (Some 2) s = Some (i, vt', s') \<and> lookup vt' s' ''color'' = Some ''red''"
proof -
  obtain vt s where vt: "a_mak_vartab ''site'' (store_of [''color'', ''red'']) = (vt, s)" "vt_inv vt s" "lookup vt s = (\<lambda>_. None)"
    "\<forall>a. outside vt a" "sview s 1 = Some ''color''" "sview s 2 = Some ''red''" by (rule sample_table)
  show ?thesis using vartab_add_binds [of vt s 1 "''color''" 2 "''red''"] vt by fastforce
qed

text \<open>
  C39. A sequence of assignments behaves like one map update after the other: the last value given to a name wins,
  names not assigned keep their values, and no assignment of the sequence fails.
\<close>

theorem vartab_assignments:
  assumes "vt_inv vt s"
    and "\<forall>(n, v) \<in> set ps. sview s n \<noteq> None \<and> sview s n \<noteq> Some [] \<and> sview s v \<noteq> None \<and> outside vt n \<and> outside vt v"
  shows "\<exists>vt' s'. adds vartab_add vt ps s = Some (vt', s') \<and> vt_inv vt' s' \<and>
    lookup vt' s' = lookup vt s ++ map_of (rev (map (\<lambda>(n, v). (the (sview s n), the (sview s v))) ps))"
  by (rule vt.adds_law [OF assms])

theorem vartab_assignments_witness:
  "\<exists>vt s vt' s'. a_mak_vartab ''site'' (store_of [''color'', ''red'']) = (vt, s) \<and>
     adds vartab_add vt [(1, 2), (1, 1)] s = Some (vt', s') \<and> lookup vt' s' ''color'' = Some ''color''"
proof -
  obtain vt s where vt: "a_mak_vartab ''site'' (store_of [''color'', ''red'']) = (vt, s)" "vt_inv vt s" "lookup vt s = (\<lambda>_. None)"
    "\<forall>a. outside vt a" "sview s 1 = Some ''color''" "sview s 2 = Some ''red''" by (rule sample_table)
  show ?thesis using vartab_assignments [of vt s "[(1, 2), (1, 1)]"] vt by fastforce
qed

text \<open>
  \<open>vartab_is\<close> looks a variable up without changing anything: -1 when it is not bound, otherwise the index of
  a used slot whose value chix holds the variable's value.
\<close>

theorem vartab_is_finds:
  assumes "vt_inv vt s" and "sview s n = Some k" and "k \<noteq> []"
  shows "\<exists>i. vartab_is vt (Some n) s = Some (i, s) \<and>
    (case lookup vt s k of None \<Rightarrow> i = -1
     | Some x \<Rightarrow> 0 \<le> i \<and> i < vt_used vt \<and> sview s (values_of vt ! nat i) = Some x)"
  by (rule vartab_is_ok [OF assms])

theorem vartab_is_finds_witness:
  "\<exists>vt s. a_mak_vartab ''site'' (store_of [''color'', ''red'']) = (vt, s) \<and> vartab_is vt (Some 1) s = Some (-1, s)"
proof -
  obtain vt s where vt: "a_mak_vartab ''site'' (store_of [''color'', ''red'']) = (vt, s)" "vt_inv vt s" "lookup vt s = (\<lambda>_. None)"
    "sview s 1 = Some ''color''" by (rule sample_table)
  show ?thesis using vartab_is_finds [of vt s 1 "''color''"] vt by fastforce
qed

text \<open>
  \<open>a_fre_vartab\<close> releases everything and only that: the owner and the two chix of every used slot are freed,
  no string outside the table is touched, and the store invariant holds afterwards.
\<close>

theorem a_fre_vartab_releases:
  assumes "vt_inv vt s" and "vt_tag vt = T_VARTAB" and "vt_owner vt = Some w" and "sview s w \<noteq> None"
    and "outside vt w" and "blanks s \<noteq> Some w" and "\<forall>a. blanks s = Some a \<longrightarrow> outside vt a"
  shows "\<exists>s'. a_fre_vartab (Some vt) s = Some (1, s') \<and> chx_inv s' \<and>
    sview s' = (\<lambda>a. if a = w \<or> \<not> outside vt a then None else sview s a)"
  using a_fre_vartab_ok [OF assms] chx_toD(1,2) by metis

theorem a_fre_vartab_releases_witness:
  "\<exists>vt s s'. a_mak_vartab ''site'' (store_of [''color'', ''red'']) = (vt, s) \<and> a_fre_vartab (Some vt) s = Some (1, s') \<and>
     chx_inv s' \<and> sview s' 3 = None \<and> sview s' 1 = Some ''color''"
proof -
  obtain vt s where vt: "a_mak_vartab ''site'' (store_of [''color'', ''red'']) = (vt, s)" "vt_inv vt s" "lookup vt s = (\<lambda>_. None)"
    "\<forall>a. outside vt a" "sview s 1 = Some ''color''" "sview s 2 = Some ''red''" "sview s 3 = Some []" "vt_owner vt = Some 3"
    "vt_tag vt = T_VARTAB" "blanks s = None" by (rule sample_table)
  show ?thesis using a_fre_vartab_releases [of vt s 3] vt by fastforce
qed

end
