(* ===== verification/Base64.thy ===== *)
theory Base64
  imports ChixToken
begin

unbundle bit_operations_syntax

text \<open>
  Base 64 (\<open>CV2/sweb/encode64.c\<close>), which the web server uses to embed binary files in mail. \<open>encode64\<close> reads
  a stream_t and appends the text to a chix, 72 characters to a line; \<open>decode64\<close> reads such a text and
  writes the bytes, skipping what is not in the alphabet. A stream_t is the bytes still to be read and
  the end-of-file mark that \<open>feof\<close> reports once a read has failed.
\<close>

record stream_t =
  f_rest :: string
  f_eof  :: bool

definition getc :: "stream_t \<Rightarrow> int \<times> stream_t" where
  "getc f = (case f_rest f of [] \<Rightarrow> (-1, f\<lparr>f_eof := True\<rparr>) | c # r \<Rightarrow> (bval c, f\<lparr>f_rest := r\<rparr>))"

definition opened :: "string \<Rightarrow> stream_t" where
  "opened x = \<lparr>f_rest = x, f_eof = False\<rparr>"

section \<open>Encoding\<close>

definition cb64 :: string where
  "cb64 = ''ABCDEFGHIJKLMNOPQRSTUVWXYZabcdefghijklmnopqrstuvwxyz0123456789+/''"

definition encodeblock :: "char \<Rightarrow> char \<Rightarrow> char \<Rightarrow> int \<Rightarrow> string" where
  "encodeblock in0 in1 in2 len =
     [cb64 ! nat (drop_bit 2 (bval in0)),
      cb64 ! nat (push_bit 4 (bval in0 AND 0x03) OR drop_bit 4 (bval in1 AND 0xF0)),
      if len > 1 then cb64 ! nat (push_bit 2 (bval in1 AND 0x0F) OR drop_bit 6 (bval in2 AND 0xC0)) else CHR ''='',
      if len > 2 then cb64 ! nat (bval in2 AND 0x3F) else CHR ''='']"

text \<open>The loop that reads one byte of the block; bytes behind the end of the stream_t are zero.\<close>

definition get_in :: "int \<Rightarrow> stream_t \<Rightarrow> char \<times> int \<times> stream_t" where
  "get_in len f = (let (v, f) = getc f in if \<not> f_eof f then (byte v, len + 1, f) else (NUL, len, f))"

fun cat_chars :: "Chix \<Rightarrow> string \<Rightarrow> chx_state \<Rightarrow> chx_state option" where
  "cat_chars x [] s = Some s"
| "cat_chars x (c # cs) s = do { (_, s) \<leftarrow> chxcatval x THIN (bval c) s; cat_chars x cs s }"

definition read3 :: "stream_t \<Rightarrow> char \<times> char \<times> char \<times> int \<times> stream_t" where
  "read3 f = (let (in0, len, f) = get_in 0 f; (in1, len, f) = get_in len f; (in2, len, f) = get_in len f
              in (in0, in1, in2, len, f))"

lemma get_in_cases:
  "get_in len f = (case f_rest f of [] \<Rightarrow> (NUL, len, f\<lparr>f_eof := True\<rparr>)
     | c # r \<Rightarrow> if f_eof f then (NUL, len, f\<lparr>f_rest := r\<rparr>) else (c, len + 1, f\<lparr>f_rest := r\<rparr>))"
  by (auto simp: get_in_def getc_def split: list.splits)

lemma read3_less:
  "read3 f = (a, b, c, len, f') \<Longrightarrow> \<not> f_eof f \<Longrightarrow>
     length (f_rest f') + (if f_eof f' then 0 else 1) < length (f_rest f) + 1"
  by (auto simp: read3_def get_in_cases Let_def split: list.splits if_splits)

function encode_loop :: "stream_t \<Rightarrow> Chix \<Rightarrow> int \<Rightarrow> chx_state \<Rightarrow> chx_state option" where
  "encode_loop f output blocksout s =
     (if f_eof f then Some s
      else case read3 f of (in0, in1, in2, len, f') \<Rightarrow>
        (case (if len \<noteq> 0 then cat_chars output (encodeblock in0 in1 in2 len) s else Some s) of
           None \<Rightarrow> None
         | Some s \<Rightarrow>
             let blocksout = (if len \<noteq> 0 then blocksout + 1 else blocksout) in
             if blocksout \<ge> 72 div 4 \<or> f_eof f'
             then (case (if blocksout \<noteq> 0 then chxcatval output THIN 10 s else Some (0, s)) of
                     None \<Rightarrow> None | Some (_, s) \<Rightarrow> encode_loop f' output 0 s)
             else encode_loop f' output blocksout s))"
  by pat_completeness auto
termination
  by (relation "measure (\<lambda>(f, x, b, s). length (f_rest f) + (if f_eof f then 0 else 1))")
    (auto dest!: read3_less [OF sym])

declare encode_loop.simps [simp del]

definition encode64 :: "stream_t \<Rightarrow> Chix \<Rightarrow> chx_state \<Rightarrow> chx_state option" where
  "encode64 f output s = encode_loop f output 0 s"

section \<open>Decoding\<close>

definition cd64 :: string where
  "cd64 = ''|$$$}rstuvwxyz{$$$$$$$>?@ABCDEFGHIJKLMNOPQRSTUVW$$$$$$XYZ['' @ [CHR 0x5C] @ '']^_`abcdefghijklmnopq''"

definition decodeblock :: "char list \<Rightarrow> string" where
  "decodeblock inb =
     [byte (push_bit 2 (bval (inb ! 0)) OR drop_bit 4 (bval (inb ! 1))),
      byte (push_bit 4 (bval (inb ! 1)) OR drop_bit 2 (bval (inb ! 2))),
      byte ((push_bit 6 (bval (inb ! 2)) AND 0xC0) OR bval (inb ! 3))]"

text \<open>The value of one character: 0 for noise, otherwise its place in the alphabet, counted from 1.\<close>

definition cd_value :: "int \<Rightarrow> int" where
  "cd_value v =
     (let v = (if v < 43 \<or> v > 122 then 0 else bval (cd64 ! nat (v - 43)))
      in if v \<noteq> 0 then (if v = 36 then 0 else v - 61) else v)"

text \<open>\<open>v = getc (infile)\<close> stores the value as an \<open>unsigned char\<close>: -1 becomes 255.\<close>

function skip_noise :: "stream_t \<Rightarrow> int \<Rightarrow> int \<times> stream_t" where
  "skip_noise f v =
     (if \<not> f_eof f \<and> v = 0 then (case getc f of (v, f') \<Rightarrow> skip_noise f' (cd_value (v mod 256))) else (v, f))"
  by pat_completeness auto
termination
  by (relation "measure (\<lambda>(f, v). length (f_rest f) + (if f_eof f then 0 else 1))")
    (auto simp: getc_def split: list.splits)

declare skip_noise.simps [simp del]

lemma skip_noise_less:
  "skip_noise f v = (v', f') \<Longrightarrow> \<not> f_eof f \<Longrightarrow> v = 0 \<Longrightarrow>
     length (f_rest f') + (if f_eof f' then 0 else 1) < length (f_rest f) + 1"
proof (induction f v rule: skip_noise.induct)
  case (1 f v)
  show ?case
  proof (cases "f_rest f")
    case Nil
    then have "getc f = (-1, f\<lparr>f_eof := True\<rparr>)" by (simp add: getc_def)
    then have "(v', f') = (cd_value (- 1 mod 256), f\<lparr>f_eof := True\<rparr>)"
      using 1(2-4) by (subst (asm) skip_noise.simps) (subst (asm) skip_noise.simps, simp)
    then show ?thesis by simp
  next
    case (Cons c r)
    then have g: "getc f = (bval c, f\<lparr>f_rest := r\<rparr>)" by (simp add: getc_def)
    then have "skip_noise (f\<lparr>f_rest := r\<rparr>) (cd_value (bval c mod 256)) = (v', f')"
      using 1(2-4) by (subst (asm) skip_noise.simps) simp
    moreover have "cd_value (bval c mod 256) \<noteq> 0 \<Longrightarrow> f' = f\<lparr>f_rest := r\<rparr>"
      using calculation by (subst (asm) skip_noise.simps) simp
    ultimately show ?thesis using 1(1) [OF _ g [symmetric]] 1(3,4) Cons
      by (cases "cd_value (bval c mod 256) = 0") (fastforce simp: not_less)+
  qed
qed

function quad_loop :: "nat \<Rightarrow> int \<Rightarrow> char list \<Rightarrow> stream_t \<Rightarrow> int \<times> char list \<times> stream_t" where
  "quad_loop i len inb f =
     (if i < 4 \<and> \<not> f_eof f
      then (case skip_noise f 0 of (v, f) \<Rightarrow>
              if \<not> f_eof f then quad_loop (i + 1) (len + 1) (if v \<noteq> 0 then inb[i := byte (v - 1)] else inb) f
              else quad_loop (i + 1) len (inb[i := NUL]) f)
      else (len, inb, f))"
  by pat_completeness auto
termination
  by (relation "measure (\<lambda>(i, len, inb, f). 4 - i)") auto

declare quad_loop.simps [simp del]

definition left :: "stream_t \<Rightarrow> nat" where
  "left f = length (f_rest f) + (if f_eof f then 0 else 1)"

lemma quad_loop_less:
  "quad_loop i len inb f = (l, b, f') \<Longrightarrow> left f' \<le> left f \<and> (i < 4 \<and> \<not> f_eof f \<longrightarrow> left f' < left f)"
proof (induction i len inb f rule: quad_loop.induct)
  case (1 i len inb f)
  show ?case
  proof (cases "i < 4 \<and> \<not> f_eof f")
    case True
    obtain v f1 where g: "skip_noise f 0 = (v, f1)" by fastforce
    then have less: "left f1 < left f" using skip_noise_less [OF g] True by (simp add: left_def)
    have "left f' \<le> left f1"
    proof (cases "f_eof f1")
      case False
      have "quad_loop (i + 1) (len + 1) (if v \<noteq> 0 then inb[i := byte (v - 1)] else inb) f1 = (l, b, f')"
        using 1(3) True g False by (subst (asm) quad_loop.simps) simp
      then show ?thesis using 1(1) [OF True g [symmetric] False] by blast
    next
      case eof: True
      have "quad_loop (i + 1) len (inb[i := NUL]) f1 = (l, b, f')"
        using 1(3) True g eof by (subst (asm) quad_loop.simps) simp
      then show ?thesis using 1(2) [OF True g [symmetric]] eof by blast
    qed
    then show ?thesis using less by simp
  next
    case False
    then show ?thesis using 1(3) by (subst (asm) quad_loop.simps) auto
  qed
qed

text \<open>
  The outer loop; \<open>inb\<close> is the array \<open>in\<close>, whose contents survive from one turn to the next. The
  result is what has been written to the output file.
\<close>

function decode_loop :: "stream_t \<Rightarrow> char list \<Rightarrow> string \<Rightarrow> string" where
  "decode_loop f inb out =
     (if f_eof f then out
      else case quad_loop 0 0 inb f of (len, inb, f') \<Rightarrow>
        decode_loop f' inb (if len \<noteq> 0 then out @ take (nat (len - 1)) (decodeblock inb) else out))"
  by pat_completeness auto
termination
  by (relation "measure (\<lambda>(f, inb, out). left f)") (auto dest!: quad_loop_less [OF sym])

declare decode_loop.simps [simp del]

definition decode64 :: "stream_t \<Rightarrow> char list \<Rightarrow> string" where
  "decode64 f inb = decode_loop f inb []"

section \<open>One block\<close>

lemma or_shift: "0 \<le> y \<Longrightarrow> y < 2 ^ n \<Longrightarrow> push_bit n x OR y = x * 2 ^ n + (y :: int)"
  using concat_bit_eq [of n y x] concat_bit_def [of n y x]
  by (simp add: take_bit_int_eq_self or.commute push_bit_eq_mult)

lemma masks:
  "x AND 3 = x mod 4" "x AND 15 = x mod 16" "x AND 63 = x mod 64"
  "x AND 0xF0 = 16 * (x div 16 mod 16)" "x AND 0xC0 = 64 * (x div 64 mod 4)" for x :: int
proof -
  have m: "x AND mask n = x mod 2 ^ n" for n by (simp add: take_bit_eq_mask [symmetric] take_bit_eq_mod)
  show "x AND 3 = x mod 4" "x AND 15 = x mod 16" "x AND 63 = x mod 64"
    using m [of 2] m [of 4] m [of 6] by (simp_all add: mask_eq_exp_minus_1)
  have h: "x AND push_bit k (mask n) = push_bit k (take_bit n (drop_bit k x))" for k n
    by (rule bit_eqI) (auto simp: bit_simps)
  show "x AND 0xF0 = 16 * (x div 16 mod 16)" "x AND 0xC0 = 64 * (x div 64 mod 4)"
    using h [of 4 4] h [of 6 2] by (simp_all add: mask_eq_exp_minus_1 push_bit_eq_mult take_bit_eq_mod drop_bit_eq_div mult.commute)
qed

definition sextets :: "char \<Rightarrow> char \<Rightarrow> char \<Rightarrow> int list" where
  "sextets a b c = [bval a div 4, 16 * (bval a mod 4) + bval b div 16, 4 * (bval b mod 16) + bval c div 64, bval c mod 64]"

lemma byte_parts:
  "0 \<le> bval a div 4" "bval a div 4 < 64" "0 \<le> bval a div 16" "bval a div 16 < 16" "0 \<le> bval a div 64" "bval a div 64 < 4"
  "0 \<le> bval a mod 4" "bval a mod 4 < 4" "0 \<le> bval a mod 16" "bval a mod 16 < 16" "0 \<le> bval a mod 64" "bval a mod 64 < 64"
proof -
  have d: "0 < k \<Longrightarrow> x < n * k \<Longrightarrow> x div k < n" for x k n :: int
    by (metis less_le_trans linorder_not_le mult_right_mono pos_mod_sign div_mult_mod_eq less_imp_le add_increasing2 le_add_same_cancel1)
  show "0 \<le> bval a div 4" "0 \<le> bval a div 16" "0 \<le> bval a div 64" by (simp_all add: pos_imp_zdiv_nonneg_iff)
  show "bval a div 4 < 64" "bval a div 16 < 16" "bval a div 64 < 4" using bval_range(2) [of a] by (auto intro!: d)
qed simp_all

lemma encodeblock_sextets:
  "encodeblock a b c len =
     (let q = sextets a b c in [cb64 ! nat (q ! 0), cb64 ! nat (q ! 1),
        if len > 1 then cb64 ! nat (q ! 2) else CHR ''='', if len > 2 then cb64 ! nat (q ! 3) else CHR ''=''])"
proof -
  have "push_bit 4 (bval a AND 3) OR drop_bit 4 (bval b AND 0xF0) = 16 * (bval a mod 4) + bval b div 16"
    using or_shift [of "bval b div 16" 4 "bval a mod 4"] byte_parts(3,4) [of b] by (simp add: masks drop_bit_eq_div)
  moreover have "push_bit 2 (bval b AND 0x0F) OR drop_bit 6 (bval c AND 0xC0) = 4 * (bval b mod 16) + bval c div 64"
    using or_shift [of "bval c div 64" 2 "bval b mod 16"] byte_parts(5,6) [of c] by (simp add: masks drop_bit_eq_div)
  moreover have "drop_bit 2 (bval a) = bval a div 4" "bval c AND 0x3F = bval c mod 64" by (simp_all add: masks drop_bit_eq_div)
  ultimately show ?thesis unfolding encodeblock_def sextets_def Let_def
    by (simp only: nth_Cons_0 nth_Cons_Suc One_nat_def numeral_2_eq_2 numeral_3_eq_3)
qed

lemma sextets_range: "v \<in> set (sextets a b c) \<Longrightarrow> 0 \<le> v \<and> v < 64"
proof -
  have p: "0 \<le> p \<Longrightarrow> p < 4 \<Longrightarrow> 0 \<le> q \<Longrightarrow> q < 16 \<Longrightarrow> 0 \<le> 16 * p + q \<and> 16 * p + q < 64"
    "0 \<le> p \<Longrightarrow> p < 16 \<Longrightarrow> 0 \<le> q \<Longrightarrow> q < 4 \<Longrightarrow> 0 \<le> 4 * p + q \<and> 4 * p + q < 64" for p q :: int by linarith+
  assume "v \<in> set (sextets a b c)"
  then consider "v = bval a div 4" | "v = 16 * (bval a mod 4) + bval b div 16"
    | "v = 4 * (bval b mod 16) + bval c div 64" | "v = bval c mod 64" by (auto simp: sextets_def)
  then show ?thesis
    by cases (simp_all only: byte_parts p(1) [OF byte_parts(7,8) byte_parts(3,4)] p(2) [OF byte_parts(9,10) byte_parts(5,6)])
qed

lemma join_parts: "0 \<le> d \<Longrightarrow> d < k \<Longrightarrow> (k * m + d) div k = m \<and> (k * m + d) mod k = (d :: int)"
  by (simp add: mult.commute [of k])

lemma byte_mod: "byte (v mod 256) = byte v"
  by (simp add: byte_def char_of_def bit_simps flip: take_bit_eq_mod [of 8, simplified])

text \<open>Decoding undoes the split into 6-bit values.\<close>

lemma decodeblock_sextets: "decodeblock (map byte (sextets a b c)) = [a, b, c]"
proof -
  obtain x0 x1 x2 x3 where q: "sextets a b c = [x0, x1, x2, x3]" by (simp add: sextets_def)
  have r: "0 \<le> x0 \<and> x0 < 64" "0 \<le> x1 \<and> x1 < 64" "0 \<le> x2 \<and> x2 < 64" "0 \<le> x3 \<and> x3 < 64"
    using sextets_range [of _ a b c] q by auto
  have x: "x0 = bval a div 4" "x1 = 16 * (bval a mod 4) + bval b div 16" "x2 = 4 * (bval b mod 16) + bval c div 64" "x3 = bval c mod 64"
    using q by (auto simp: sextets_def)
  have bb: "bval (byte x0) = x0" "bval (byte x1) = x1" "bval (byte x2) = x2" "bval (byte x3) = x3"
    using r by (simp_all add: bval_byte)
  have s: "x1 div 16 = bval a mod 4" "x2 div 4 = bval b mod 16" "x1 mod 16 = bval b div 16" "x2 mod 4 = bval c div 64"
    unfolding x using join_parts byte_parts by metis+
  have "push_bit 2 x0 OR drop_bit 4 x1 = bval a"
    using or_shift [of "x1 div 16" 2 x0] s(1) by (simp add: drop_bit_eq_div x(1))
  moreover have "push_bit 4 x1 OR drop_bit 2 x2 = x1 * 16 + bval b mod 16"
    using or_shift [of "x2 div 4" 4 x1] s(2) by (simp add: drop_bit_eq_div)
  moreover have "(x1 * 16 + bval b mod 16) mod 256 = bval b"
  proof -
    have "x1 * 16 + bval b mod 16 = 256 * (x1 div 16) + (16 * (x1 mod 16) + bval b mod 16)" by presburger
    then show ?thesis using s(3) join_parts [of "bval b" 256 "x1 div 16"] bval_range [of b] by simp
  qed
  moreover have "(push_bit 6 x2 AND 0xC0) OR x3 = bval c"
  proof -
    have "push_bit 6 x2 AND 0xC0 = push_bit 6 (x2 mod 4)" by (simp add: masks push_bit_eq_mult)
    then show ?thesis using or_shift [of x3 6 "x2 mod 4"] r(4) s(4) x(4) by simp
  qed
  ultimately show ?thesis
    using byte_mod [of "x1 * 16 + bval b mod 16"] by (simp add: decodeblock_def q bb)
qed

text \<open>Every character of the alphabet is read as its place; the padding and the newline are noise.\<close>

lemma cd_value_alphabet:
  assumes "0 \<le> v" and "v < 64"
  shows "cd_value (bval (cb64 ! nat v)) = v + 1"
proof -
  have "\<forall>k < 64. cd_value (bval (cb64 ! k)) = int k + 1" by code_simp
  then show ?thesis using assms by (auto dest!: spec [of _ "nat v"])
qed

lemma cd_value_noise: "cd_value (bval (CHR ''='')) = 0" "cd_value (bval (CHR 0x0A)) = 0" "cd_value 255 = 0"
  by code_simp+

section \<open>The text\<close>

text \<open>The text of a file, with \<open>k\<close> blocks on the current line.\<close>

fun b64_of :: "nat \<Rightarrow> string \<Rightarrow> string" where
  "b64_of k [] = (if k = 0 then [] else [newline])"
| "b64_of k [a] = encodeblock a NUL NUL 1 @ [newline]"
| "b64_of k [a, b] = encodeblock a b NUL 2 @ [newline]"
| "b64_of k (a # b # c # r) =
     encodeblock a b c 3 @ (if k + 1 \<ge> 18 then newline # b64_of 0 r else b64_of (k + 1) r)"

lemma NUL_notin_cb64: "NUL \<notin> set cb64" "length cb64 = 64"
  by (simp_all add: cb64_def)

lemma cb64_not_NUL: "0 \<le> v \<Longrightarrow> v < 64 \<Longrightarrow> cb64 ! nat v \<noteq> NUL"
  using NUL_notin_cb64 nth_mem [of "nat v" cb64] by fastforce

lemma encodeblock_no_NUL: "NUL \<notin> set (encodeblock a b c len)"
proof -
  obtain x0 x1 x2 x3 where q: "sextets a b c = [x0, x1, x2, x3]" by (simp add: sextets_def)
  then have "0 \<le> x0 \<and> x0 < 64" "0 \<le> x1 \<and> x1 < 64" "0 \<le> x2 \<and> x2 < 64" "0 \<le> x3 \<and> x3 < 64"
    using sextets_range [of _ a b c] by auto
  then have "cb64 ! nat x0 \<noteq> NUL" "cb64 ! nat x1 \<noteq> NUL" "cb64 ! nat x2 \<noteq> NUL" "cb64 ! nat x3 \<noteq> NUL"
    by (simp_all add: cb64_not_NUL)
  then show ?thesis by (auto simp: encodeblock_sextets Let_def q)
qed

lemma cat_chars_ok:
  assumes "chx_inv s" and "sview s a = Some x" and "NUL \<notin> set cs"
  shows "\<exists>s'. cat_chars (Some a) cs s = Some s' \<and> chx_to s ((sview s)(a \<mapsto> x @ cs)) s'"
  using assms
proof (induction cs arbitrary: s x)
  case Nil
  then show ?case using chx_to_refl [of s] by (auto simp: map_upd_triv)
next
  case (Cons c cs)
  obtain s1 where s1: "chxcatval (Some a) THIN (bval c) s = Some (1, s1)" "chx_to s ((sview s)(a \<mapsto> x @ [byte (bval c)])) s1"
    by (rule chxcatval_ok [OF Cons.prems(1,2), of "bval c" THIN]) (use Cons.prems(3) in auto)
  note t1 = chx_toD [OF s1(2)]
  obtain s2 where s2: "cat_chars (Some a) cs s1 = Some s2" "chx_to s1 ((sview s1)(a \<mapsto> (x @ [c]) @ cs)) s2"
    using Cons.IH [OF t1(1), of "x @ [c]"] t1(2) Cons.prems(3) by (simp del: fun_upd_apply) (metis fun_upd_same)
  have "cat_chars (Some a) (c # cs) s = Some s2" using s1(1) s2(1) by simp
  moreover have "chx_to s ((sview s)(a \<mapsto> x @ c # cs)) s2" using chx_to_trans [OF s1(2) s2(2)] t1(2) by simp
  ultimately show ?case by blast
qed

text \<open>One block read from a file that still has bytes.\<close>

lemma read3_cases:
  "read3 (opened []) = (NUL, NUL, NUL, 0, \<lparr>f_rest = [], f_eof = True\<rparr>)"
  "read3 (opened [a]) = (a, NUL, NUL, 1, \<lparr>f_rest = [], f_eof = True\<rparr>)"
  "read3 (opened [a, b]) = (a, b, NUL, 2, \<lparr>f_rest = [], f_eof = True\<rparr>)"
  "read3 (opened (a # b # c # r)) = (a, b, c, 3, opened r)"
  by (simp_all add: read3_def opened_def get_in_cases Let_def)

lemma encode_done: "encode_loop \<lparr>f_rest = x, f_eof = True\<rparr> output k s = Some s"
  by (subst encode_loop.simps) simp

lemma opened_not_eof [simp]: "\<not> f_eof (opened x)"
  by (simp add: opened_def)

lemma newline_ok:
  assumes "chx_inv s" and "sview s a = Some x"
  obtains s' where "chxcatval (Some a) THIN 10 s = Some (1, s')" "chx_to s ((sview s)(a \<mapsto> x @ [newline])) s'"
proof -
  have b: "byte 10 = newline" by code_simp
  show thesis by (rule chxcatval_ok [OF assms, of 10 THIN]) (use b that in auto)
qed

text \<open>One turn of the loop: a block is appended, and perhaps a newline.\<close>

lemma block_ok:
  assumes "chx_inv s" and "sview s a = Some x"
  obtains s' where "cat_chars (Some a) (encodeblock p q r len) s = Some s'"
    "chx_to s ((sview s)(a \<mapsto> x @ encodeblock p q r len)) s'"
  using cat_chars_ok [OF assms encodeblock_no_NUL] by blast

lemma block_line_ok:
  assumes "chx_inv s" and "sview s a = Some x"
  obtains s1 s' where "cat_chars (Some a) (encodeblock p q r len) s = Some s1" "chxcatval (Some a) THIN 10 s1 = Some (1, s')"
    "chx_to s ((sview s)(a \<mapsto> x @ encodeblock p q r len @ [newline])) s'"
proof -
  obtain s1 where s1: "cat_chars (Some a) (encodeblock p q r len) s = Some s1"
    "chx_to s ((sview s)(a \<mapsto> x @ encodeblock p q r len)) s1" by (rule block_ok [OF assms])
  note t1 = chx_toD [OF s1(2)]
  obtain s2 where s2: "chxcatval (Some a) THIN 10 s1 = Some (1, s2)"
    "chx_to s1 ((sview s1)(a \<mapsto> (x @ encodeblock p q r len) @ [newline])) s2"
    by (rule newline_ok [of s1 a "x @ encodeblock p q r len"]) (use t1 in auto)
  show thesis using that [OF s1(1) s2(1)] chx_to_trans [OF s1(2) s2(2)] t1(2) by simp
qed

lemma encode_loop_ok:
  assumes "chx_inv s" and "sview s a = Some x"
  shows "\<exists>s'. encode_loop (opened t) (Some a) (int k) s = Some s' \<and> chx_to s ((sview s)(a \<mapsto> x @ b64_of k t)) s'"
  using assms
proof (induction k t arbitrary: s x rule: b64_of.induct)
  case (1 k)
  obtain s1 where s1: "chxcatval (Some a) THIN 10 s = Some (1, s1)" "chx_to s ((sview s)(a \<mapsto> x @ [newline])) s1"
    by (rule newline_ok [OF 1])
  show ?case using 1 s1 chx_to_refl [OF 1(1)]
    by (subst encode_loop.simps) (auto simp: read3_cases encode_done map_upd_triv)
next
  case (2 k p)
  obtain s1 s2 where "cat_chars (Some a) (encodeblock p NUL NUL 1) s = Some s1" "chxcatval (Some a) THIN 10 s1 = Some (1, s2)"
    "chx_to s ((sview s)(a \<mapsto> x @ encodeblock p NUL NUL 1 @ [newline])) s2" by (rule block_line_ok [OF 2])
  then show ?case by (subst encode_loop.simps) (auto simp: read3_cases encode_done)
next
  case (3 k p q)
  obtain s1 s2 where "cat_chars (Some a) (encodeblock p q NUL 2) s = Some s1" "chxcatval (Some a) THIN 10 s1 = Some (1, s2)"
    "chx_to s ((sview s)(a \<mapsto> x @ encodeblock p q NUL 2 @ [newline])) s2" by (rule block_line_ok [OF 3])
  then show ?case by (subst encode_loop.simps) (auto simp: read3_cases encode_done)
next
  case (4 k p q r rest)
  show ?case
  proof (cases "k + 1 \<ge> 18")
    case True
    obtain s1 s2 where s2: "cat_chars (Some a) (encodeblock p q r 3) s = Some s1" "chxcatval (Some a) THIN 10 s1 = Some (1, s2)"
      "chx_to s ((sview s)(a \<mapsto> x @ encodeblock p q r 3 @ [newline])) s2" by (rule block_line_ok [OF 4(3,4)])
    note t2 = chx_toD [OF s2(3)]
    obtain s3 where s3: "encode_loop (opened rest) (Some a) 0 s2 = Some s3"
      "chx_to s2 ((sview s2)(a \<mapsto> (x @ encodeblock p q r 3 @ [newline]) @ b64_of 0 rest)) s3"
      using 4(1) [OF True t2(1), of "x @ encodeblock p q r 3 @ [newline]"] t2(2) by (simp del: fun_upd_apply) (metis fun_upd_same)
    show ?thesis using s2 s3 chx_to_trans [OF s2(3) s3(2)] t2(2) True
      by (subst encode_loop.simps) (auto simp: read3_cases)
  next
    case False
    obtain s1 where s1: "cat_chars (Some a) (encodeblock p q r 3) s = Some s1"
      "chx_to s ((sview s)(a \<mapsto> x @ encodeblock p q r 3)) s1" by (rule block_ok [OF 4(3,4)])
    note t1 = chx_toD [OF s1(2)]
    obtain s3 where s3: "encode_loop (opened rest) (Some a) (int (k + 1)) s1 = Some s3"
      "chx_to s1 ((sview s1)(a \<mapsto> (x @ encodeblock p q r 3) @ b64_of (k + 1) rest)) s3"
      using 4(2) [OF False t1(1), of "x @ encodeblock p q r 3"] t1(2) by (simp del: fun_upd_apply) (metis fun_upd_same)
    show ?thesis using s1 s3 chx_to_trans [OF s1(2) s3(2)] t1(2) False
      by (subst encode_loop.simps) (auto simp: read3_cases add.commute)
  qed
qed

section \<open>Reading the text back\<close>

lemma skip_hit: "cd_value (bval c) \<noteq> 0 \<Longrightarrow> skip_noise (opened (c # r)) 0 = (cd_value (bval c), opened r)"
  by (subst skip_noise.simps, simp add: getc_def opened_def, subst skip_noise.simps, simp)

lemma skip_miss: "cd_value (bval c) = 0 \<Longrightarrow> skip_noise (opened (c # r)) 0 = skip_noise (opened r) 0"
  by (subst skip_noise.simps, simp add: getc_def opened_def)

lemma skip_end: "skip_noise (opened []) 0 = (0, \<lparr>f_rest = [], f_eof = True\<rparr>)"
  by (subst skip_noise.simps, simp add: getc_def opened_def cd_value_noise, subst skip_noise.simps, simp)

lemma quad_step:
  "i < 4 \<Longrightarrow> 0 \<le> v \<Longrightarrow> v < 64 \<Longrightarrow>
     quad_loop i len inb (opened (cb64 ! nat v # r)) = quad_loop (i + 1) (len + 1) (inb[i := byte v]) (opened r)"
  by (subst quad_loop.simps) (simp add: skip_hit cd_value_alphabet)

lemma quad_noise:
  "cd_value (bval c) = 0 \<Longrightarrow> quad_loop i len inb (opened (c # r)) =
     (if i < 4 then quad_loop i len inb (opened r) else (len, inb, opened (c # r)))"
  by (subst quad_loop.simps, subst (3) quad_loop.simps) (simp add: skip_miss)

lemma quad_end:
  "i < 4 \<Longrightarrow> quad_loop i len inb (opened []) = (len, inb[i := NUL], \<lparr>f_rest = [], f_eof = True\<rparr>)"
  by (subst quad_loop.simps, simp add: skip_end, subst quad_loop.simps, simp)

lemma quad_full: "\<not> i < 4 \<Longrightarrow> quad_loop i len inb f = (len, inb, f)"
  by (subst quad_loop.simps) simp

lemma decode_eof: "decode_loop \<lparr>f_rest = r, f_eof = True\<rparr> inb out = out"
  by (subst decode_loop.simps) simp

lemma decode_newline: "decode_loop (opened (newline # r)) inb out = decode_loop (opened r) inb out"
  by (subst (1 2) decode_loop.simps) (simp add: quad_noise cd_value_noise)

lemma decode_nothing: "decode_loop (opened []) inb out = out"
  by (subst decode_loop.simps) (simp add: quad_end decode_eof)

text \<open>The 6-bit values of a block, with their bounds.\<close>

lemma sextets_cases:
  obtains x0 x1 x2 x3 where "sextets a b c = [x0, x1, x2, x3]"
    "0 \<le> x0" "x0 < 64" "0 \<le> x1" "x1 < 64" "0 \<le> x2" "x2 < 64" "0 \<le> x3" "x3 < 64"
    "encodeblock a b c len = [cb64 ! nat x0, cb64 ! nat x1, if len > 1 then cb64 ! nat x2 else CHR ''='',
       if len > 2 then cb64 ! nat x3 else CHR ''='']"
    "decodeblock [byte x0, byte x1, byte x2, byte x3] = [a, b, c]"
proof -
  obtain x0 x1 x2 x3 where q: "sextets a b c = [x0, x1, x2, x3]" by (simp add: sextets_def)
  then show thesis using that sextets_range [of _ a b c] encodeblock_sextets [of a b c len] decodeblock_sextets [of a b c]
    by (simp add: numeral_2_eq_2 numeral_3_eq_3)
qed

lemma four: "length inb = 4 \<Longrightarrow> \<exists>i0 i1 i2 i3. inb = [i0, i1, i2, i3]"
  by (auto simp: numeral_eq_Suc length_Suc_conv)

lemma decode_block:
  assumes "length inb = 4"
  shows "decode_loop (opened (encodeblock a b c 3 @ r)) inb out =
    decode_loop (opened r) (map byte (sextets a b c)) (out @ [a, b, c])"
proof -
  obtain x0 x1 x2 x3 where q: "sextets a b c = [x0, x1, x2, x3]"
    and r: "0 \<le> x0" "x0 < 64" "0 \<le> x1" "x1 < 64" "0 \<le> x2" "x2 < 64" "0 \<le> x3" "x3 < 64"
    and e: "encodeblock a b c 3 = [cb64 ! nat x0, cb64 ! nat x1, if (3 :: int) > 1 then cb64 ! nat x2 else CHR ''='',
       if (3 :: int) > 2 then cb64 ! nat x3 else CHR ''='']"
    and d: "decodeblock [byte x0, byte x1, byte x2, byte x3] = [a, b, c]" by (rule sextets_cases)
  have "quad_loop 0 0 inb (opened (encodeblock a b c 3 @ r)) = (4, [byte x0, byte x1, byte x2, byte x3], opened r)"
    using four [OF assms] r by (auto simp: e quad_step quad_full numeral_2_eq_2 numeral_3_eq_3)
  then show ?thesis by (subst decode_loop.simps) (simp add: d q)
qed

lemma decode_tail:
  assumes "length inb = 4"
  shows "decode_loop (opened (encodeblock a NUL NUL 1 @ [newline])) inb out = out @ [a]" (is ?one)
    and "decode_loop (opened (encodeblock a b NUL 2 @ [newline])) inb out = out @ [a, b]" (is ?two)
proof -
  obtain i0 i1 i2 i3 where i: "inb = [i0, i1, i2, i3]" using four [OF assms] by blast
  obtain x0 x1 x2 x3 where r: "0 \<le> x0" "x0 < 64" "0 \<le> x1" "x1 < 64" "0 \<le> x2" "x2 < 64" "0 \<le> x3" "x3 < 64"
    and e: "encodeblock a NUL NUL 1 = [cb64 ! nat x0, cb64 ! nat x1, if (1 :: int) > 1 then cb64 ! nat x2 else CHR ''='',
       if (1 :: int) > 2 then cb64 ! nat x3 else CHR ''='']"
    and d: "decodeblock [byte x0, byte x1, byte x2, byte x3] = [a, NUL, NUL]" by (rule sextets_cases)
  have "quad_loop 0 0 inb (opened (encodeblock a NUL NUL 1 @ [newline])) =
      (2, [byte x0, byte x1, NUL, i3], \<lparr>f_rest = [], f_eof = True\<rparr>)"
    using r by (simp add: i e quad_step quad_noise quad_end cd_value_noise numeral_2_eq_2)
  moreover have "take 1 (decodeblock [byte x0, byte x1, NUL, i3]) = [a]"
    using d by (simp add: decodeblock_def)
  ultimately show ?one by (subst decode_loop.simps) (simp add: decode_eof)
  obtain y0 y1 y2 y3 where r: "0 \<le> y0" "y0 < 64" "0 \<le> y1" "y1 < 64" "0 \<le> y2" "y2 < 64" "0 \<le> y3" "y3 < 64"
    and e: "encodeblock a b NUL 2 = [cb64 ! nat y0, cb64 ! nat y1, if (2 :: int) > 1 then cb64 ! nat y2 else CHR ''='',
       if (2 :: int) > 2 then cb64 ! nat y3 else CHR ''='']"
    and d: "decodeblock [byte y0, byte y1, byte y2, byte y3] = [a, b, NUL]" by (rule sextets_cases)
  have "quad_loop 0 0 inb (opened (encodeblock a b NUL 2 @ [newline])) =
      (3, [byte y0, byte y1, byte y2, NUL], \<lparr>f_rest = [], f_eof = True\<rparr>)"
    using r by (simp add: i e quad_step quad_noise quad_end cd_value_noise numeral_2_eq_2 numeral_3_eq_3)
  moreover have "take 2 (decodeblock [byte y0, byte y1, byte y2, NUL]) = [a, b]"
    using d by (simp add: decodeblock_def numeral_2_eq_2)
  ultimately show ?two by (subst decode_loop.simps) (simp add: decode_eof)
qed

lemma decode_b64_of: "length inb = 4 \<Longrightarrow> decode_loop (opened (b64_of k t)) inb out = out @ t"
proof (induction k t arbitrary: inb out rule: b64_of.induct)
  case (4 k a b c r)
  have "length (map byte (sextets a b c)) = 4" by (simp add: sextets_def)
  then show ?case using 4 decode_block [OF 4(3)]
    by (auto simp: decode_newline)
qed (simp_all add: decode_newline decode_nothing decode_tail del: append.simps)

lemma encode64_ok:
  assumes "chx_inv s" and "sview s a = Some x"
  obtains s' where "encode64 (opened t) (Some a) s = Some s'" "chx_to s ((sview s)(a \<mapsto> x @ b64_of 0 t)) s'"
  using encode_loop_ok [OF assms, of t 0] unfolding encode64_def by auto

section \<open>Properties\<close>

text \<open>
  C37. Base 64 round trip: for every file, \<open>encode64\<close> returns and appends a text to the output chix, no other
  string changes, and \<open>decode64\<close> on that text writes the bytes of the file, all of them and in order,
  whatever its array \<open>in\<close> held before.
\<close>

theorem base64_round_trip:
  assumes "chx_inv s" and "sview s a = Some x" and "length inb = 4"
  shows "\<exists>s' y. encode64 (opened t) (Some a) s = Some s' \<and> chx_inv s' \<and> sview s' = (sview s)(a \<mapsto> x @ y) \<and>
    decode64 (opened y) inb = t"
proof -
  obtain s' where s': "encode64 (opened t) (Some a) s = Some s'" "chx_to s ((sview s)(a \<mapsto> x @ b64_of 0 t)) s'"
    by (rule encode64_ok [OF assms(1,2)])
  then show ?thesis using chx_toD(1,2) [OF s'(2)] decode_b64_of [OF assms(3)] unfolding decode64_def by auto
qed

theorem base64_round_trip_witness:
  "\<exists>s' y. encode64 (opened [CHR 0xFF, NUL, CHR ''a'', CHR ''b'']) (Some 1) (store_of [''x'']) = Some s' \<and> chx_inv s' \<and>
    sview s' = (sview (store_of [''x'']))(1 \<mapsto> ''x'' @ y) \<and>
    decode64 (opened y) [NUL, NUL, NUL, NUL] = [CHR 0xFF, NUL, CHR ''a'', CHR ''b'']"
  by (rule base64_round_trip) (simp_all add: store_of_sview store_of_inv)

end
