(* ===== verification/Rlist.thy ===== *)
theory Rlist
  imports Prelude
begin

text \<open>
  Response lists (\<open>CV2/api\<close>: \<open>struct Rlist_t\<close>, \<open>a_mak_rlist\<close>, \<open>add_to_rlist\<close>, \<open>and_rlist\<close>,
  \<open>or_rlist\<close>, \<open>rl_all\<close>, \<open>rl_of_select\<close>). An Rlist is a linked list: a head node, then one node per
  rectangle of items \<open>i0..i1\<close> and responses \<open>r0..r1\<close>; -1 as a response means the last one. A chain of
  nodes is a list here, a pointer into it an index. The fields are 16-bit: every store wraps.
\<close>

section \<open>Data\<close>

record Rlist_t =
  i0 :: int
  i1 :: int
  r0 :: int
  r1 :: int

type_synonym Rlist = "Rlist_t list"

definition HIGHBOUND :: int where "HIGHBOUND = 20000"

definition a_mak_rlist :: Rlist_t where
  "a_mak_rlist = \<lparr>i0 = -9999, i1 = -9999, r0 = 0, r1 = -1\<rparr>"

text \<open>A new node with its four fields assigned.\<close>

definition set_node :: "int \<Rightarrow> int \<Rightarrow> int \<Rightarrow> int \<Rightarrow> Rlist_t" where
  "set_node a b c d = a_mak_rlist\<lparr>i0 := wrap16 a, i1 := wrap16 b, r0 := wrap16 c, r1 := wrap16 d\<rparr>"

section \<open>Operations\<close>

text \<open>
  \<open>add_to_rlist (oldptr, item, r0, r1)\<close>: the chain from \<open>oldptr\<close> on is searched for a node that
  \<open>item\<close> extends; otherwise a node is linked behind the last one. With a null \<open>oldptr\<close> the code uses
  the uninitialised \<open>lastptr\<close>: undefined. The result is the node's index and the chain.
\<close>

fun add_to_rlist :: "Rlist \<Rightarrow> int \<Rightarrow> int \<Rightarrow> int \<Rightarrow> (nat \<times> Rlist) option" where
  "add_to_rlist [] item a b = None"
| "add_to_rlist (p # ps) item a b =
     (if item = i1 p + 1 \<and> a = r0 p \<and> b = r1 p then Some (0, p\<lparr>i1 := wrap16 item\<rparr> # ps)
      else if ps = [] then Some (1, [p, set_node item item a b])
      else do { (k, ps') \<leftarrow> add_to_rlist ps item a b; Some (Suc k, p # ps') })"

definition high :: "int \<Rightarrow> int" where
  "high r = (if r = -1 then HIGHBOUND else r)"

definition unhigh :: "int \<Rightarrow> int" where
  "unhigh r = (if r = HIGHBOUND then -1 else r)"

text \<open>The body of the two nested loops of \<open>and_rlist\<close>: the node for one pair, if it is not empty.\<close>

definition and_node :: "Rlist_t \<Rightarrow> Rlist_t \<Rightarrow> Rlist" where
  "and_node pa pb =
     (let ilo = max (i0 pa) (i0 pb); ihi = min (i1 pa) (i1 pb)
      in if ihi < ilo then []
         else let rlo = max (high (r0 pa)) (high (r0 pb)); rhi = min (high (r1 pa)) (high (r1 pb))
              in if rhi < rlo then [] else [set_node ilo ihi (unhigh rlo) (unhigh rhi)])"

definition and_rlist :: "Rlist option \<Rightarrow> Rlist option \<Rightarrow> Rlist option" where
  "and_rlist rla rlb =
     (case (rla, rlb) of
        (Some (_ # as), Some (_ # bs)) \<Rightarrow>
          Some (a_mak_rlist # concat (map (\<lambda>pa. concat (map (\<lambda>pb. and_node pa pb) bs)) as))
      | _ \<Rightarrow> None)"

definition inside :: "int \<Rightarrow> Rlist \<Rightarrow> bool" where
  "inside item px = (case px of [] \<Rightarrow> False | p # _ \<Rightarrow> i0 p \<le> item \<and> item \<le> i1 p)"

definition advance :: "int \<Rightarrow> Rlist \<Rightarrow> Rlist" where
  "advance item px = (case px of [] \<Rightarrow> [] | p # ps \<Rightarrow> if item > i1 p then ps else p # ps)"

text \<open>
  The loop of \<open>or_rlist\<close>. \<open>res\<close> is the result built so far, the head node first; its last node is
  \<open>tail\<close>. Each pass moves \<open>pa\<close> and \<open>pb\<close> on by at most one node and looks at one item.
\<close>

definition or_low :: "int \<Rightarrow> Rlist \<Rightarrow> Rlist \<Rightarrow> int" where
  "or_low item pa pb =
     (let lo = HIGHBOUND;
          lo = (if inside item pa then min lo (high (r0 (hd pa))) else lo)
      in if inside item pb then min lo (high (r0 (hd pb))) else lo)"

definition or_high :: "int \<Rightarrow> Rlist \<Rightarrow> Rlist \<Rightarrow> int" where
  "or_high item pa pb =
     (let hi = 0;
          hi = (if inside item pa then max hi (high (r1 (hd pa))) else hi)
      in if inside item pb then max hi (high (r1 (hd pb))) else hi)"

definition or_push :: "int \<Rightarrow> int \<Rightarrow> int \<Rightarrow> int \<Rightarrow> Rlist \<Rightarrow> Rlist" where
  "or_push item ilo rlo rhi res =
     (let tail = last res
      in if item = ilo then res @ [set_node item item rlo rhi]
         else if i1 tail + 1 = item \<and> r0 tail = rlo \<and> r1 tail = rhi
         then butlast res @ [tail\<lparr>i1 := wrap16 item\<rparr>]
         else res @ [set_node item item rlo rhi])"

definition rl_weight :: "int \<Rightarrow> Rlist \<Rightarrow> nat" where
  "rl_weight item ps = sum_list (map (\<lambda>p. Suc (nat (i1 p - item + 1))) ps)"

lemma rl_weight_mono: "rl_weight (item + 1) ps \<le> rl_weight item ps"
  unfolding rl_weight_def by (rule sum_list_mono) simp

lemma rl_weight_advance:
  "rl_weight (item + 1) (advance item ps) \<le> rl_weight item ps"
  "ps \<noteq> [] \<Longrightarrow> rl_weight (item + 1) (advance item ps) < rl_weight item ps"
  using rl_weight_mono [of item "tl ps"] by (cases ps; auto simp: advance_def rl_weight_def)+

lemma rl_weight_two:
  "\<not> (pa = [] \<and> pb = []) \<Longrightarrow>
     rl_weight (item + 1) (advance item pa) + rl_weight (item + 1) (advance item pb)
     < rl_weight item pa + rl_weight item pb"
  using rl_weight_advance [where item = item and ps = pa] rl_weight_advance [where item = item and ps = pb]
  by linarith

function or_loop :: "int \<Rightarrow> int \<Rightarrow> Rlist \<Rightarrow> Rlist \<Rightarrow> Rlist \<Rightarrow> Rlist" where
  "or_loop item ilo pa pb res =
     (if pa = [] \<and> pb = [] then res
      else let pa = advance item pa; pb = advance item pb;
               rlo = or_low item pa pb; rhi = or_high item pa pb
           in or_loop (item + 1) ilo pa pb (if rlo > rhi then res else or_push item ilo rlo rhi res))"
  by pat_completeness auto
termination
  by (relation "measure (\<lambda>(item, ilo, pa, pb, res). rl_weight item pa + rl_weight item pb)")
     (simp_all add: rl_weight_two)

declare or_loop.simps [simp del]

definition or_rlist :: "Rlist option \<Rightarrow> Rlist option \<Rightarrow> Rlist option" where
  "or_rlist rla rlb =
     (case (rla, rlb) of
        (Some (_ # pa), Some (_ # pb)) \<Rightarrow>
          (let ilo = HIGHBOUND;
               ilo = (if pa \<noteq> [] then min ilo (i0 (hd pa)) else ilo);
               ilo = (if pb \<noteq> [] then min ilo (i0 (hd pb)) else ilo);
               res = or_loop ilo ilo pa pb [a_mak_rlist]
           in Some (hd res # map (\<lambda>p. if r1 p = HIGHBOUND then p\<lparr>r1 := -1\<rparr> else p) (tl res)))
      | _ \<Rightarrow> None)"

definition rl_all :: "int \<Rightarrow> Rlist" where
  "rl_all items = [a_mak_rlist, set_node 1 items 0 (-1)]"

text \<open>
  The loop of \<open>rl_of_select\<close>: when an item does not fit the block under construction the code
  clears \<open>prev\<close> and looks at the same item again.
\<close>

function sel_loop :: "int list \<Rightarrow> int \<Rightarrow> int \<Rightarrow> int \<Rightarrow> Rlist \<Rightarrow> Rlist option" where
  "sel_loop select maxitems item prev res =
     (if item > maxitems then Some res
      else if item < 0 \<or> nat item \<ge> length select then None
      else let v = select ! nat item
           in if v < 0 then sel_loop select maxitems (item + 1) 0 res
              else if prev = 0 then sel_loop select maxitems (item + 1) item (res @ [set_node item item v (-1)])
              else if v = r0 (last res)
              then sel_loop select maxitems (item + 1) prev (butlast res @ [(last res)\<lparr>i1 := wrap16 item\<rparr>])
              else sel_loop select maxitems item 0 res)"
  by pat_completeness auto
termination
  by (relation "measures [\<lambda>(select, m, item, prev, res). nat (m + 1 - item),
                          \<lambda>(select, m, item, prev, res). if prev = 0 then 0 else 1]") auto

declare sel_loop.simps [simp del]

definition rl_of_select :: "int list \<Rightarrow> int \<Rightarrow> Rlist option" where
  "rl_of_select select maxitems = sel_loop select maxitems 1 0 [a_mak_rlist]"

section \<open>The set of responses an Rlist stands for\<close>

text \<open>Response -1, the last one, is \<open>HIGHBOUND\<close> here as in the code.\<close>

definition cells :: "Rlist_t \<Rightarrow> (int \<times> int) set" where
  "cells p = {(i, r). i0 p \<le> i \<and> i \<le> i1 p \<and> high (r0 p) \<le> r \<and> r \<le> high (r1 p)}"

definition den :: "Rlist \<Rightarrow> (int \<times> int) set" where
  "den rl = (\<Union>p \<in> set (tl rl). cells p)"

definition short_node :: "Rlist_t \<Rightarrow> bool" where
  "short_node p \<longleftrightarrow> (\<forall>v \<in> {i0 p, i1 p, r0 p, r1 p}. - (2 ^ 15) \<le> v \<and> v < 2 ^ 15)"

lemma den_simps [simp]:
  "den [h] = {}" "den (h # ps) = (\<Union>p \<in> set ps. cells p)"
  by (auto simp: den_def)

lemma high_unhigh: "r \<noteq> -1 \<Longrightarrow> high (unhigh r) = r"
  by (simp add: high_def unhigh_def)

lemma high_neq: "high r \<noteq> -1"
  by (simp add: high_def HIGHBOUND_def)

lemma set_node_fields:
  assumes "\<forall>v \<in> {a, b, c, d}. - (2 ^ 15) \<le> v \<and> v < 2 ^ 15"
  shows "i0 (set_node a b c d) = a" "i1 (set_node a b c d) = b"
    "r0 (set_node a b c d) = c" "r1 (set_node a b c d) = d"
  using assms by (simp_all add: set_node_def wrap16_id)

lemma high_short: "- (2 ^ 15) \<le> r \<Longrightarrow> r < 2 ^ 15 \<Longrightarrow> - (2 ^ 15) \<le> high r \<and> high r < 2 ^ 15"
  by (simp add: high_def HIGHBOUND_def)

lemma and_node_cells:
  assumes "short_node pa" and "short_node pb"
  shows "(\<Union>p \<in> set (and_node pa pb). cells p) = cells pa \<inter> cells pb"
proof -
  let ?ilo = "max (i0 pa) (i0 pb)" and ?ihi = "min (i1 pa) (i1 pb)"
  let ?rlo = "max (high (r0 pa)) (high (r0 pb))" and ?rhi = "min (high (r1 pa)) (high (r1 pb))"
  have bounds: "\<forall>v \<in> {?ilo, ?ihi, unhigh ?rlo, unhigh ?rhi}. - (2 ^ 15) \<le> v \<and> v < 2 ^ 15"
    using assms high_short [of "r0 pa"] high_short [of "r0 pb"] high_short [of "r1 pa"] high_short [of "r1 pb"]
    by (auto simp: short_node_def unhigh_def max_def min_def)
  have "?rlo \<noteq> -1" "?rhi \<noteq> -1" using high_neq by (simp_all add: max_def min_def)
  then have "cells (set_node ?ilo ?ihi (unhigh ?rlo) (unhigh ?rhi)) = cells pa \<inter> cells pb"
    using high_unhigh by (auto simp: cells_def set_node_fields [OF bounds])
  moreover have "?ihi < ?ilo \<or> ?rhi < ?rlo \<Longrightarrow> cells pa \<inter> cells pb = {}" by (auto simp: cells_def)
  ultimately show ?thesis unfolding and_node_def Let_def by auto
qed

lemma and_rlist_den:
  assumes "\<forall>p \<in> set as. short_node p" and "\<forall>p \<in> set bs. short_node p"
  obtains rl where "and_rlist (Some (h # as)) (Some (k # bs)) = Some rl" "den rl = den (h # as) \<inter> den (k # bs)"
proof -
  let ?ps = "concat (map (\<lambda>pa. concat (map (\<lambda>pb. and_node pa pb) bs)) as)"
  have "(\<Union>p \<in> set ?ps. cells p) = (\<Union>pa \<in> set as. \<Union>pb \<in> set bs. \<Union>p \<in> set (and_node pa pb). cells p)" by auto
  also have "\<dots> = (\<Union>pa \<in> set as. \<Union>pb \<in> set bs. cells pa \<inter> cells pb)"
    using assms and_node_cells by (intro SUP_cong refl) blast
  finally have "den (a_mak_rlist # ?ps) = den (h # as) \<inter> den (k # bs)" by auto
  then show thesis using that by (simp add: and_rlist_def)
qed

section \<open>Adding an item\<close>

lemma add_to_rlist_den:
  assumes "ps \<noteq> []" and "\<forall>p \<in> set ps. i0 p \<le> i1 p + 1" and "0 \<le> item" "item < 2 ^ 15"
    and "- (2 ^ 15) \<le> a" "a < 2 ^ 15" "- (2 ^ 15) \<le> b" "b < 2 ^ 15"
  shows "\<exists>k ps'. add_to_rlist ps item a b = Some (k, ps') \<and> k < length ps' \<and>
     (\<Union>p \<in> set ps'. cells p) = (\<Union>p \<in> set ps. cells p) \<union> {item} \<times> {high a .. high b} \<and>
     i1 (ps' ! k) = item \<and> r0 (ps' ! k) = a \<and> r1 (ps' ! k) = b \<and>
     (\<forall>p \<in> set ps'. i0 p \<le> i1 p + 1)"
  using assms
proof (induction ps)
  case Nil
  then show ?case by simp
next
  case (Cons p ps)
  let ?n = "set_node item item a b"
  have n: "i0 ?n = item" "i1 ?n = item" "r0 ?n = a" "r1 ?n = b"
    using Cons.prems by (simp_all add: set_node_fields)
  show ?case
  proof (cases "item = i1 p + 1 \<and> a = r0 p \<and> b = r1 p")
    case True
    have "wrap16 item = item" using Cons.prems by (simp add: wrap16_id)
    then have "cells (p\<lparr>i1 := wrap16 item\<rparr>) = cells p \<union> {item} \<times> {high a .. high b}"
      using True Cons.prems(2) by (auto simp: cells_def)
    moreover have "wrap16 (1 + i1 p) = 1 + i1 p" using True \<open>wrap16 item = item\<close> by (simp add: add.commute)
    ultimately show ?thesis using True Cons.prems(2) \<open>wrap16 item = item\<close> by (auto simp: add.commute)
  next
    case False
    show ?thesis
    proof (cases "ps = []")
      case True
      have "cells ?n = {item} \<times> {high a .. high b}" using n by (auto simp: cells_def)
      then show ?thesis using False True n Cons.prems(2) by auto
    next
      case nonempty: False
      then obtain k ps' where ps': "add_to_rlist ps item a b = Some (k, ps')" "k < length ps'"
        "(\<Union>p \<in> set ps'. cells p) = (\<Union>p \<in> set ps. cells p) \<union> {item} \<times> {high a .. high b}"
        "i1 (ps' ! k) = item" "r0 (ps' ! k) = a" "r1 (ps' ! k) = b" "\<forall>p \<in> set ps'. i0 p \<le> i1 p + 1"
        using Cons.IH Cons.prems by auto
      then show ?thesis using False nonempty Cons.prems(2) by auto
    qed
  qed
qed

lemma add_to_head_den:
  assumes "\<forall>p \<in> set ps. i0 p \<le> i1 p + 1" and "0 \<le> item" "item < 2 ^ 15"
    and "- (2 ^ 15) \<le> a" "a < 2 ^ 15" "- (2 ^ 15) \<le> b" "b < 2 ^ 15"
  obtains k ps' where "add_to_rlist (a_mak_rlist # ps) item a b = Some (Suc k, a_mak_rlist # ps')"
    "den (a_mak_rlist # ps') = den (a_mak_rlist # ps) \<union> {item} \<times> {high a .. high b}"
    "k < length ps'" "i1 (ps' ! k) = item" "\<forall>p \<in> set ps'. i0 p \<le> i1 p + 1"
proof -
  have h: "item \<noteq> i1 a_mak_rlist + 1" using assms(2) by (simp add: a_mak_rlist_def)
  show thesis
  proof (cases "ps = []")
    case True
    let ?n = "set_node item item a b"
    have n: "i0 ?n = item" "i1 ?n = item" "r0 ?n = a" "r1 ?n = b" using assms by (simp_all add: set_node_fields)
    have "cells ?n = {item} \<times> {high a .. high b}" using n by (auto simp: cells_def)
    then show thesis using that [of 0 "[?n]"] True h n by simp
  next
    case False
    from add_to_rlist_den [OF False assms] obtain k ps' where
      "add_to_rlist ps item a b = Some (k, ps')" "k < length ps'"
      "(\<Union>p \<in> set ps'. cells p) = (\<Union>p \<in> set ps. cells p) \<union> {item} \<times> {high a .. high b}"
      "i1 (ps' ! k) = item" "\<forall>p \<in> set ps'. i0 p \<le> i1 p + 1" by blast
    then show thesis using that [of k ps'] False h by simp
  qed
qed

section \<open>Union\<close>

definition node_ok :: "Rlist_t \<Rightarrow> bool" where
  "node_ok p \<longleftrightarrow> 0 \<le> i0 p \<and> i0 p \<le> i1 p \<and> i1 p < 2 ^ 15 \<and>
     0 \<le> high (r0 p) \<and> high (r0 p) \<le> HIGHBOUND \<and> 0 \<le> high (r1 p) \<and> high (r1 p) \<le> HIGHBOUND"

text \<open>Disjoint nodes in ascending order, as the parsers of item lists build them.\<close>

definition ordered :: "Rlist \<Rightarrow> bool" where
  "ordered ps \<longleftrightarrow> sorted_wrt (\<lambda>p q. i1 p < i0 q) ps \<and> (\<forall>p \<in> set ps. node_ok p)"

definition holds_item :: "int \<Rightarrow> Rlist_t \<Rightarrow> bool" where
  "holds_item item p \<longleftrightarrow> i0 p \<le> item \<and> item \<le> i1 p"

abbreviation from_item :: "int \<Rightarrow> Rlist \<Rightarrow> Rlist" where
  "from_item item ps \<equiv> filter (\<lambda>p. item \<le> i1 p) ps"

lemma ordered_i1:
  "ordered (p # ps) \<Longrightarrow> q \<in> set ps \<Longrightarrow> i1 p < i0 q \<and> i1 p < i1 q"
  by (force simp: ordered_def node_ok_def)

lemma ordered_Cons: "ordered (p # ps) \<Longrightarrow> ordered ps \<and> node_ok p"
  by (simp add: ordered_def)

lemma advance_from:
  "ordered ps \<Longrightarrow> advance item (from_item (item - 1) ps) = from_item item ps"
proof (induction ps)
  case Nil
  then show ?case by (simp add: advance_def)
next
  case (Cons p ps)
  show ?case
  proof (cases "item - 1 \<le> i1 p")
    case True
    have "from_item (item - 1) ps = from_item item ps"
      using ordered_i1 [OF Cons.prems] True by (intro filter_cong) force+
    moreover have "from_item item ps = ps" if "item \<le> i1 p"
      using ordered_i1 [OF Cons.prems] that by (force simp: filter_id_conv)
    ultimately show ?thesis using True by (auto simp: advance_def)
  next
    case False
    then show ?thesis using Cons ordered_Cons by fastforce
  qed
qed

lemma inside_from:
  assumes "ordered ps"
  shows "inside item (from_item item ps) \<longleftrightarrow> (\<exists>p \<in> set ps. holds_item item p)"
    and "p \<in> set ps \<Longrightarrow> holds_item item p \<Longrightarrow> hd (from_item item ps) = p"
proof -
  have hd: "hd (from_item item ps) = p \<and> inside item (from_item item ps)"
    if "p \<in> set ps" "holds_item item p" for p
    using assms that
  proof (induction ps)
    case (Cons q ps)
    show ?case
    proof (cases "p = q")
      case True
      then show ?thesis using Cons.prems by (simp add: inside_def holds_item_def)
    next
      case False
      then have p: "p \<in> set ps" using Cons.prems by simp
      then have "i1 q < item" using ordered_i1 [OF Cons.prems(1) p] Cons.prems(3) by (simp add: holds_item_def)
      then show ?thesis using Cons.IH p Cons.prems ordered_Cons by fastforce
    qed
  qed simp
  show "inside item (from_item item ps) \<longleftrightarrow> (\<exists>p \<in> set ps. holds_item item p)"
  proof
    assume i: "inside item (from_item item ps)"
    then obtain q qs where q: "from_item item ps = q # qs" by (auto simp: inside_def split: list.splits)
    then have "q \<in> set ps" by (metis filter_is_subset list.set_intros(1) subsetD)
    then show "\<exists>p \<in> set ps. holds_item item p" using i q by (auto simp: inside_def holds_item_def)
  qed (use hd in blast)
  show "p \<in> set ps \<Longrightarrow> holds_item item p \<Longrightarrow> hd (from_item item ps) = p" using hd by blast
qed

text \<open>The responses of \<open>item\<close> in the union: from the lowest to the highest bound of the nodes that hold it.\<close>

definition hull :: "Rlist \<Rightarrow> Rlist \<Rightarrow> (int \<times> int) set" where
  "hull as bs = {(i, r). \<exists>p \<in> set as \<union> set bs. \<exists>q \<in> set as \<union> set bs.
     holds_item i p \<and> holds_item i q \<and> high (r0 p) \<le> r \<and> r \<le> high (r1 q)}"

lemma or_bounds:
  assumes "ordered as" and "ordered bs"
  shows "{r. (item, r) \<in> hull as bs} =
    {or_low item (from_item item as) (from_item item bs) .. or_high item (from_item item as) (from_item item bs)}"
proof -
  have key: "\<exists>p. \<forall>q. q \<in> set ps \<and> holds_item item q \<longleftrightarrow> q = p \<and> inside item (from_item item ps)" if "ordered ps" for ps
    using inside_from(1) [OF that, of item] inside_from(2) [OF that, where item = item] by metis
  obtain p where p: "\<forall>q. q \<in> set as \<and> holds_item item q \<longleftrightarrow> q = p \<and> inside item (from_item item as)"
    using key [OF assms(1)] by blast
  obtain q where q: "\<forall>p. p \<in> set bs \<and> holds_item item p \<longleftrightarrow> p = q \<and> inside item (from_item item bs)"
    using key [OF assms(2)] by blast
  have hp: "inside item (from_item item as) \<Longrightarrow> hd (from_item item as) = p \<and> node_ok p"
    using p inside_from(2) [OF assms(1)] assms(1) by (metis ordered_def)
  have hq: "inside item (from_item item bs) \<Longrightarrow> hd (from_item item bs) = q \<and> node_ok q"
    using q inside_from(2) [OF assms(2)] assms(2) by (metis ordered_def)
  let ?A = "inside item (from_item item as)" and ?B = "inside item (from_item item bs)"
  have m: "u \<in> set as \<union> set bs \<and> holds_item item u \<longleftrightarrow> u = p \<and> ?A \<or> u = q \<and> ?B" for u
    using p q by blast
  have "{r. (item, r) \<in> hull as bs} = {r. \<exists>u v. (u \<in> set as \<union> set bs \<and> holds_item item u) \<and>
      (v \<in> set as \<union> set bs \<and> holds_item item v) \<and> high (r0 u) \<le> r \<and> r \<le> high (r1 v)}"
    unfolding hull_def by blast
  also have "\<dots> = {r. \<exists>u v. (u = p \<and> ?A \<or> u = q \<and> ?B) \<and> (v = p \<and> ?A \<or> v = q \<and> ?B) \<and>
      high (r0 u) \<le> r \<and> r \<le> high (r1 v)}"
    by (simp only: m)
  also have "\<dots> = {r. (?A \<and> high (r0 p) \<le> r \<or> ?B \<and> high (r0 q) \<le> r) \<and>
      (?A \<and> r \<le> high (r1 p) \<or> ?B \<and> r \<le> high (r1 q))}" by blast
  also have "\<dots> = {or_low item (from_item item as) (from_item item bs) .. or_high item (from_item item as) (from_item item bs)}"
    unfolding or_low_def or_high_def Let_def using hp hq
    by (cases ?A; cases ?B) (simp_all add: node_ok_def set_eq_iff min_le_iff_disj le_max_iff_disj HIGHBOUND_def)
  finally show ?thesis .
qed

text \<open>The result under construction: a head node, then nodes of items below \<open>item\<close>.\<close>

definition building :: "int \<Rightarrow> Rlist \<Rightarrow> bool" where
  "building item res \<longleftrightarrow> res \<noteq> [] \<and> hd res = a_mak_rlist \<and>
     (\<forall>p \<in> set (tl res). i0 p \<le> i1 p \<and> i1 p < item)"

lemma or_push_den:
  assumes b: "building item res" and item: "0 \<le> item" "item < 2 ^ 15"
    and r: "0 \<le> lo" "lo \<le> HIGHBOUND" "0 \<le> hi" "hi \<le> HIGHBOUND"
  shows "den (or_push item ilo lo hi res) = den res \<union> {item} \<times> {lo .. hi}"
    and "building (item + 1) (or_push item ilo lo hi res)"
proof -
  obtain ps where res: "res = a_mak_rlist # ps" using b by (cases res) (auto simp: building_def)
  have ps: "\<forall>p \<in> set ps. i0 p \<le> i1 p \<and> i1 p < item" using b res by (simp add: building_def)
  let ?n = "set_node item item lo hi"
  have n: "i0 ?n = item" "i1 ?n = item" "r0 ?n = lo" "r1 ?n = hi"
    using item r by (simp_all add: set_node_fields HIGHBOUND_def)
  have nh: "high lo = lo" "high hi = hi" using r by (simp_all add: high_def)
  have "den (res @ [?n]) = den res \<union> {item} \<times> {lo .. hi} \<and> building (item + 1) (res @ [?n])"
    using res ps n nh by (auto simp: cells_def building_def)
  moreover have "den (butlast res @ [(last res)\<lparr>i1 := wrap16 item\<rparr>]) = den res \<union> {item} \<times> {lo .. hi} \<and>
      building (item + 1) (butlast res @ [(last res)\<lparr>i1 := wrap16 item\<rparr>])"
    if t: "i1 (last res) + 1 = item" "r0 (last res) = lo" "r1 (last res) = hi"
  proof -
    have "ps \<noteq> []" using t(1) item(1) res by (auto simp: a_mak_rlist_def)
    then obtain qs p where p: "ps = qs @ [p]" by (metis rev_exhaust)
    have w: "wrap16 item = item" using item by (simp add: wrap16_id)
    have lp: "last res = p" "butlast res = a_mak_rlist # qs" using res p by simp_all
    have "cells (p\<lparr>i1 := item\<rparr>) = cells p \<union> {item} \<times> {lo .. hi}"
      using t ps p lp nh by (auto simp: cells_def)
    then show ?thesis using ps p lp w res by (auto simp: building_def)
  qed
  ultimately show "den (or_push item ilo lo hi res) = den res \<union> {item} \<times> {lo .. hi}"
    and "building (item + 1) (or_push item ilo lo hi res)"
    unfolding or_push_def Let_def by auto
qed

lemma or_low_high_range:
  assumes "ordered as" and "ordered bs"
  shows "or_low item (from_item item as) (from_item item bs) \<le> HIGHBOUND"
    "0 \<le> or_low item (from_item item as) (from_item item bs)"
    "0 \<le> or_high item (from_item item as) (from_item item bs)"
    "or_high item (from_item item as) (from_item item bs) \<le> HIGHBOUND"
proof -
  have ok: "inside item (from_item item ps) \<Longrightarrow> node_ok (hd (from_item item ps))" if "ordered ps" for ps
    using inside_from [OF that] that by (metis ordered_def)
  show "or_low item (from_item item as) (from_item item bs) \<le> HIGHBOUND"
    "0 \<le> or_low item (from_item item as) (from_item item bs)"
    "0 \<le> or_high item (from_item item as) (from_item item bs)"
    "or_high item (from_item item as) (from_item item bs) \<le> HIGHBOUND"
    using ok [OF assms(1)] ok [OF assms(2)]
    by (auto simp: or_low_def or_high_def Let_def node_ok_def HIGHBOUND_def)
qed

lemma or_loop_den:
  assumes as: "ordered as" and bs: "ordered bs" and "0 \<le> item"
    and "pa = from_item (item - 1) as" and "pb = from_item (item - 1) bs" and "building item res"
  shows "den (or_loop item ilo pa pb res) = den res \<union> {(i, r) \<in> hull as bs. item \<le> i} \<and>
    or_loop item ilo pa pb res \<noteq> []"
  using assms(3-6)
proof (induction item ilo pa pb res rule: or_loop.induct)
  case (1 item ilo pa pb res)
  let ?pa = "from_item item as" and ?pb = "from_item item bs"
  show ?case
  proof (cases "pa = [] \<and> pb = []")
    case True
    then have "\<forall>p \<in> set as \<union> set bs. i1 p < item - 1" using 1(3,4) by (auto simp: filter_empty_conv not_le)
    then have "{(i, r) \<in> hull as bs. item \<le> i} = {}" by (force simp: hull_def holds_item_def)
    moreover have "or_loop item ilo pa pb res = res" using True by (subst or_loop.simps) simp
    ultimately show ?thesis using 1(5) by (auto simp: building_def)
  next
    case False
    define lo where "lo = or_low item ?pa ?pb"
    define hi where "hi = or_high item ?pa ?pb"
    define res' where "res' = (if lo > hi then res else or_push item ilo lo hi res)"
    have adv: "advance item pa = ?pa" "advance item pb = ?pb" using 1(3,4) advance_from as bs by simp_all
    have row: "{r. (item, r) \<in> hull as bs} = {lo .. hi}" using or_bounds [OF as bs] by (simp add: lo_def hi_def)
    have rng: "lo \<le> HIGHBOUND" "0 \<le> lo" "0 \<le> hi" "hi \<le> HIGHBOUND"
      using or_low_high_range [OF as bs] by (simp_all add: lo_def hi_def)
    have small: "item < 2 ^ 15" if "lo \<le> hi"
    proof -
      have "(item, lo) \<in> hull as bs" using row that by auto
      then obtain p where "p \<in> set as \<union> set bs" "holds_item item p" by (auto simp: hull_def)
      then show ?thesis using as bs by (auto simp: ordered_def node_ok_def holds_item_def)
    qed
    have res': "den res' = den res \<union> {item} \<times> {lo .. hi} \<and> building (item + 1) res'"
    proof (cases "lo > hi")
      case True
      then show ?thesis using 1(5) by (auto simp: res'_def building_def)
    next
      case False
      then show ?thesis using or_push_den [OF 1(5,2), of lo hi ilo] small rng by (auto simp: res'_def)
    qed
    have "den (or_loop (item + 1) ilo ?pa ?pb res') = den res' \<union> {(i, r) \<in> hull as bs. item + 1 \<le> i} \<and>
        or_loop (item + 1) ilo ?pa ?pb res' \<noteq> []"
      using 1(1) [OF False refl refl refl refl, unfolded adv, folded lo_def hi_def, folded res'_def] res' 1(2) by simp
    moreover have "or_loop item ilo pa pb res = or_loop (item + 1) ilo ?pa ?pb res'"
      unfolding or_loop.simps [of item ilo pa] Let_def adv lo_def [symmetric] hi_def [symmetric] res'_def [symmetric]
      by (rule if_not_P [OF False])
    moreover have "{(i, r) \<in> hull as bs. item \<le> i} = {item} \<times> {lo .. hi} \<union> {(i, r) \<in> hull as bs. item + 1 \<le> i}"
    proof -
      have "(item, r) \<in> hull as bs \<longleftrightarrow> lo \<le> r \<and> r \<le> hi" for r using row by (metis atLeastAtMost_iff mem_Collect_eq)
      moreover have "item \<le> i \<longleftrightarrow> i = item \<or> item + 1 \<le> i" for i by linarith
      ultimately show ?thesis by fastforce
    qed
    ultimately show ?thesis using res' by auto
  qed
qed

lemma or_rlist_den:
  assumes as: "ordered as" and bs: "ordered bs"
  obtains rl where "or_rlist (Some (h # as)) (Some (k # bs)) = Some rl" "den rl = hull as bs"
proof -
  define ilo where "ilo = (let ilo = HIGHBOUND;
               ilo = (if as \<noteq> [] then min ilo (i0 (hd as)) else ilo)
           in if bs \<noteq> [] then min ilo (i0 (hd bs)) else ilo)"
  let ?res = "or_loop ilo ilo as bs [a_mak_rlist]"
  have lowest: "i0 (hd ps) \<le> i0 p" if "ordered ps" "p \<in> set ps" for ps p
    using that ordered_i1 [of "hd ps" "tl ps" p] by (cases ps) (force simp: ordered_def node_ok_def)+
  have below: "ilo \<le> i0 p \<and> i0 p \<le> i1 p" if "p \<in> set as \<union> set bs" for p
  proof -
    have "ilo \<le> i0 p" using that lowest [OF as, of p] lowest [OF bs, of p] by (auto simp: ilo_def Let_def min_def)
    moreover have "node_ok p" using that as bs by (auto simp: ordered_def)
    ultimately show ?thesis by (simp add: node_ok_def)
  qed
  have pos: "0 \<le> ilo"
  proof -
    have "node_ok (hd ps)" if "ordered ps" "ps \<noteq> []" for ps using that by (cases ps) (auto simp: ordered_def)
    then show ?thesis using as bs by (auto simp: ilo_def Let_def node_ok_def HIGHBOUND_def min_def)
  qed
  have "from_item (ilo - 1) as = as" "from_item (ilo - 1) bs = bs" using below by (force simp: filter_id_conv)+
  then have l: "den ?res = den [a_mak_rlist] \<union> {(i, r) \<in> hull as bs. ilo \<le> i} \<and> ?res \<noteq> []"
    using or_loop_den [OF as bs pos, of as bs "[a_mak_rlist]" ilo] by (simp add: building_def)
  have "{(i, r) \<in> hull as bs. ilo \<le> i} = hull as bs" using below by (force simp: hull_def holds_item_def)
  then have d: "den ?res = hull as bs" using l by simp
  have c: "cells (if r1 p = HIGHBOUND then p\<lparr>r1 := -1\<rparr> else p) = cells p" for p
    by (auto simp: cells_def high_def HIGHBOUND_def)
  let ?rl = "hd ?res # map (\<lambda>p. if r1 p = HIGHBOUND then p\<lparr>r1 := -1\<rparr> else p) (tl ?res)"
  have "den ?rl = (\<Union>p \<in> set (tl ?res). cells (if r1 p = HIGHBOUND then p\<lparr>r1 := -1\<rparr> else p))"
    unfolding den_def by (simp only: list.sel set_map image_image)
  then have "den ?rl = hull as bs" using d by (simp only: c den_def)
  moreover have "or_rlist (Some (h # as)) (Some (k # bs)) = Some ?rl"
    by (simp add: or_rlist_def Let_def ilo_def)
  ultimately show thesis using that by blast
qed

section \<open>Selections\<close>

text \<open>What a selection array stands for: from item \<open>i\<close> the responses \<open>select[i]\<close> and up, if not negative.\<close>

definition selected :: "int list \<Rightarrow> int \<Rightarrow> (int \<times> int) set" where
  "selected select maxitems =
     {(i, r). 1 \<le> i \<and> i \<le> maxitems \<and> 0 \<le> select ! nat i \<and> select ! nat i \<le> r \<and> r \<le> HIGHBOUND}"

definition sel_state :: "int \<Rightarrow> int \<Rightarrow> Rlist \<Rightarrow> bool" where
  "sel_state item prev res \<longleftrightarrow> building item res \<and>
     (prev \<noteq> 0 \<longrightarrow> tl res \<noteq> [] \<and> i1 (last res) + 1 = item \<and> r1 (last res) = -1 \<and> 0 \<le> r0 (last res))"

lemma sel_loop_den:
  assumes len: "maxitems < int (length select)" and top: "maxitems < 2 ^ 15"
    and sel: "\<forall>v \<in> set select. v < HIGHBOUND" and "1 \<le> item" and "sel_state item prev res"
  shows "\<exists>rl. sel_loop select maxitems item prev res = Some rl \<and> rl \<noteq> [] \<and>
    den rl = den res \<union> {(i, r) \<in> selected select maxitems. item \<le> i}"
  using assms
proof (induction select maxitems item prev res rule: sel_loop.induct)
  case (1 select maxitems item prev res)
  note len = 1(5) and top = 1(6) and sel = 1(7) and item = 1(8) and st = 1(9)
  define v where "v = select ! nat item"
  let ?S = "\<lambda>n. {(i, r) \<in> selected select maxitems. n \<le> i}"
  let ?row = "{(i, r). i = item \<and> 0 \<le> v \<and> v \<le> r \<and> r \<le> HIGHBOUND}"
  obtain ps where res: "res = a_mak_rlist # ps" using st by (cases res) (auto simp: sel_state_def building_def)
  have ps: "\<forall>p \<in> set ps. i0 p \<le> i1 p \<and> i1 p < item" using st res by (simp add: sel_state_def building_def)
  show ?case
  proof (cases "item > maxitems")
    case True
    then have "?S item = {}" by (auto simp: selected_def)
    moreover have "sel_loop select maxitems item prev res = Some res" using True by (subst sel_loop.simps) simp
    ultimately show ?thesis using res by blast
  next
    case False
    have ge: "\<not> (item < 0 \<or> length select \<le> nat item)" using False len item by auto
    then have vs: "v < HIGHBOUND" using sel by (auto simp: v_def)
    have split: "?S item = ?row \<union> ?S (item + 1)"
    proof (rule set_eqI, rule prod.induct)
      fix i r
      show "(i, r) \<in> ?S item \<longleftrightarrow> (i, r) \<in> ?row \<union> ?S (item + 1)"
        using False item by (cases "i = item") (auto simp: selected_def v_def)
    qed
    have w: "wrap16 item = item" using False top item by (simp add: wrap16_id)
    consider (neg) "v < 0" | (start) "0 \<le> v" "prev = 0" | (extend) "0 \<le> v" "prev \<noteq> 0" "v = r0 (last res)"
      | (again) "0 \<le> v" "prev \<noteq> 0" "v \<noteq> r0 (last res)" by linarith
    then show ?thesis
    proof cases
      case neg
      have "sel_loop select maxitems item prev res = sel_loop select maxitems (item + 1) 0 res"
        using False ge neg by (subst sel_loop.simps) (simp add: v_def)
      moreover have "sel_state (item + 1) 0 res" using st by (auto simp: sel_state_def building_def)
      ultimately show ?thesis using 1(1) [OF False ge v_def neg len top sel] item neg split by auto
    next
      case start
      let ?n = "set_node item item v (-1)"
      have n: "i0 ?n = item" "i1 ?n = item" "r0 ?n = v" "r1 ?n = -1"
        using False top item start vs by (simp_all add: set_node_fields HIGHBOUND_def)
      have "sel_loop select maxitems item prev res = sel_loop select maxitems (item + 1) item (res @ [?n])"
        using False ge start by (subst sel_loop.simps) (simp add: v_def)
      moreover have "sel_state (item + 1) item (res @ [?n])"
        using res ps n start by (auto simp: sel_state_def building_def)
      moreover have "den (res @ [?n]) = den res \<union> ?row"
        using res n start by (auto simp: cells_def high_def)
      ultimately show ?thesis
        using 1(2) [OF False ge v_def _ start(2) len top sel] item start split by (auto simp: Un_assoc)
    next
      case extend
      let ?res = "butlast res @ [(last res)\<lparr>i1 := wrap16 item\<rparr>]"
      have "ps \<noteq> []" using st extend res by (auto simp: sel_state_def)
      then obtain qs p where p: "ps = qs @ [p]" by (metis rev_exhaust)
      have lp: "last res = p" "butlast res = a_mak_rlist # qs" using res p by simp_all
      have pp: "i1 p + 1 = item" "r1 p = -1" "r0 p = v" "i0 p \<le> i1 p"
        using st extend lp ps p by (auto simp: sel_state_def)
      have "sel_loop select maxitems item prev res = sel_loop select maxitems (item + 1) prev ?res"
        using False ge extend by (subst sel_loop.simps) (simp add: v_def)
      moreover have "sel_state (item + 1) prev ?res"
        using lp pp ps p w extend(1) by (auto simp: sel_state_def building_def)
      moreover have "cells (p\<lparr>i1 := item\<rparr>) = cells p \<union> ?row"
        using pp extend(1) by (auto simp: cells_def high_def)
      then have "den ?res = den res \<union> ?row" using lp w res p by auto
      ultimately show ?thesis
        using 1(3) [OF False ge v_def _ extend(2,3) len top sel] item extend split by (auto simp: Un_assoc)
    next
      case again
      have "sel_loop select maxitems item prev res = sel_loop select maxitems item 0 res"
        using False ge again by (subst sel_loop.simps) (simp add: v_def)
      moreover have "sel_state item 0 res" using st by (simp add: sel_state_def)
      ultimately show ?thesis using 1(4) [OF False ge v_def _ again(2,3) len top sel item] again(1) by auto
    qed
  qed
qed

lemma rl_of_select_den:
  assumes "maxitems < int (length select)" and "maxitems < 2 ^ 15" and "\<forall>v \<in> set select. v < HIGHBOUND"
  obtains rl where "rl_of_select select maxitems = Some rl" "den rl = selected select maxitems"
proof -
  have "sel_state 1 0 [a_mak_rlist]" by (simp add: sel_state_def building_def)
  from sel_loop_den [OF assms order.refl this] obtain rl where
    "rl_of_select select maxitems = Some rl" "den rl = {(i, r) \<in> selected select maxitems. 1 \<le> i}"
    by (auto simp: rl_of_select_def)
  moreover have "{(i, r) \<in> selected select maxitems. 1 \<le> i} = selected select maxitems" by (auto simp: selected_def)
  ultimately show thesis using that by simp
qed

lemma rl_all_den:
  "0 \<le> items \<Longrightarrow> items < 2 ^ 15 \<Longrightarrow> den (rl_all items) = {1 .. items} \<times> {0 .. HIGHBOUND}"
  by (auto simp: rl_all_def cells_def set_node_fields high_def)

section \<open>Properties\<close>

text \<open>
  C38. \<open>and_rlist\<close> intersects: the list it builds stands for exactly the responses that both arguments stand
  for, for any two lists of 16-bit rectangles in any order, overlapping or not.
\<close>

theorem and_rlist_intersects:
  assumes "\<forall>p \<in> set as \<union> set bs. short_node p"
  shows "\<exists>rl. and_rlist (Some (h # as)) (Some (k # bs)) = Some rl \<and> den rl = den (h # as) \<inter> den (k # bs)"
  using and_rlist_den [of as bs h k] assms by blast

theorem and_rlist_intersects_witness:
  "\<exists>rl. and_rlist (Some [a_mak_rlist, \<lparr>i0 = 1, i1 = 9, r0 = 3, r1 = -1\<rparr>]) (Some [a_mak_rlist, \<lparr>i0 = 5, i1 = 20, r0 = 0, r1 = 7\<rparr>]) = Some rl \<and>
     den rl = den [a_mak_rlist, \<lparr>i0 = 1, i1 = 9, r0 = 3, r1 = -1\<rparr>] \<inter> den [a_mak_rlist, \<lparr>i0 = 5, i1 = 20, r0 = 0, r1 = 7\<rparr>]"
  by (rule and_rlist_intersects) (simp add: short_node_def)

text \<open>
  \<open>or_rlist\<close> on two ordered lists: the result covers, for every item of either list, the responses from the
  lowest start to the highest end that the two lists give for that item. So it contains both lists, and
  it names no item that neither has.
\<close>

theorem or_rlist_hull:
  assumes "ordered as" and "ordered bs"
  shows "\<exists>rl. or_rlist (Some (h # as)) (Some (k # bs)) = Some rl \<and> den rl = hull as bs \<and>
    den (h # as) \<union> den (k # bs) \<subseteq> den rl \<and>
    (\<forall>(i, r) \<in> den rl. \<exists>p \<in> set as \<union> set bs. i0 p \<le> i \<and> i \<le> i1 p)"
proof -
  obtain rl where rl: "or_rlist (Some (h # as)) (Some (k # bs)) = Some rl" "den rl = hull as bs"
    by (rule or_rlist_den [OF assms])
  moreover have "den (h # as) \<union> den (k # bs) \<subseteq> hull as bs"
    by (force simp: den_def cells_def hull_def holds_item_def)
  moreover have "\<forall>(i, r) \<in> hull as bs. \<exists>p \<in> set as \<union> set bs. i0 p \<le> i \<and> i \<le> i1 p"
    by (auto simp: hull_def holds_item_def)
  ultimately show ?thesis by auto
qed

theorem or_rlist_hull_witness:
  "\<exists>rl. or_rlist (Some [a_mak_rlist, \<lparr>i0 = 1, i1 = 9, r0 = 3, r1 = -1\<rparr>]) (Some [a_mak_rlist, \<lparr>i0 = 5, i1 = 20, r0 = 0, r1 = 7\<rparr>]) = Some rl \<and>
    den rl = hull [\<lparr>i0 = 1, i1 = 9, r0 = 3, r1 = -1\<rparr>] [\<lparr>i0 = 5, i1 = 20, r0 = 0, r1 = 7\<rparr>] \<and>
    den [a_mak_rlist, \<lparr>i0 = 1, i1 = 9, r0 = 3, r1 = -1\<rparr>] \<union> den [a_mak_rlist, \<lparr>i0 = 5, i1 = 20, r0 = 0, r1 = 7\<rparr>] \<subseteq> den rl \<and>
    (\<forall>(i, r) \<in> den rl. \<exists>p \<in> set [\<lparr>i0 = 1, i1 = 9, r0 = 3, r1 = -1\<rparr>] \<union> set [\<lparr>i0 = 5, i1 = 20, r0 = 0, r1 = 7\<rparr>]. i0 p \<le> i \<and> i \<le> i1 p)"
  by (rule or_rlist_hull) (simp_all add: ordered_def node_ok_def high_def HIGHBOUND_def)

text \<open>
  The union leaks its internal bound: for a list that asks for the last response of item 5 only
  (\<open>r0 = r1 = -1\<close>), the result starts at response 20000 instead of at the last one, since only \<open>r1\<close> is
  turned back into -1.
\<close>

theorem or_rlist_last_only:
  "or_rlist (Some [a_mak_rlist, \<lparr>i0 = 5, i1 = 5, r0 = -1, r1 = -1\<rparr>]) (Some [a_mak_rlist]) =
     Some [a_mak_rlist, \<lparr>i0 = 5, i1 = 5, r0 = 20000, r1 = -1\<rparr>]"
  by (code_simp)

text \<open>
  \<open>rl_of_select\<close> turns an array of first responses into ranges: item \<open>i\<close> contributes the responses from
  \<open>select[i]\<close> on when that entry is not negative and none otherwise, and nothing else is in the list.
\<close>

theorem rl_of_select_ranges:
  assumes "maxitems < int (length select)" and "maxitems < 2 ^ 15" and "\<forall>v \<in> set select. v < HIGHBOUND"
  shows "\<exists>rl. rl_of_select select maxitems = Some rl \<and> den rl =
    {(i, r). 1 \<le> i \<and> i \<le> maxitems \<and> 0 \<le> select ! nat i \<and> select ! nat i \<le> r \<and> r \<le> HIGHBOUND}"
  using rl_of_select_den [OF assms] by (metis selected_def)

theorem rl_of_select_ranges_witness:
  "\<exists>rl. rl_of_select [0, 4, 4, -1, 2] 4 = Some rl \<and> den rl =
    {(i, r). 1 \<le> i \<and> i \<le> 4 \<and> 0 \<le> [0, 4, 4, -1, 2 :: int] ! nat i \<and> [0, 4, 4, -1, 2] ! nat i \<le> r \<and> r \<le> HIGHBOUND}"
  by (rule rl_of_select_ranges) (simp_all add: HIGHBOUND_def)

text \<open>
  \<open>add_to_rlist\<close> adds one item's range of responses to a list under its head: the set grows by exactly that
  range whether the last rectangle is extended or a new one linked, and the index returned is that of
  the node that ends with the item.
\<close>

theorem add_to_rlist_adds:
  assumes "\<forall>p \<in> set ps. i0 p \<le> i1 p + 1" and "0 \<le> item" and "item < 2 ^ 15"
    and "- (2 ^ 15) \<le> a" and "a < 2 ^ 15" and "- (2 ^ 15) \<le> b" and "b < 2 ^ 15"
  shows "\<exists>k ps'. add_to_rlist (a_mak_rlist # ps) item a b = Some (Suc k, a_mak_rlist # ps') \<and>
    den (a_mak_rlist # ps') = den (a_mak_rlist # ps) \<union> {item} \<times> {high a .. high b} \<and>
    k < length ps' \<and> i1 (ps' ! k) = item"
  using add_to_head_den [OF assms] by metis

theorem add_to_rlist_adds_witness:
  "\<exists>k ps'. add_to_rlist (a_mak_rlist # [\<lparr>i0 = 1, i1 = 3, r0 = 0, r1 = -1\<rparr>]) 4 0 (-1) = Some (Suc k, a_mak_rlist # ps') \<and>
    den (a_mak_rlist # ps') = den (a_mak_rlist # [\<lparr>i0 = 1, i1 = 3, r0 = 0, r1 = -1\<rparr>]) \<union> {4} \<times> {high 0 .. high (-1)} \<and>
    k < length ps' \<and> i1 (ps' ! k) = 4"
  by (rule add_to_rlist_adds) simp_all

end
