(* ===== verification/Str.thy ===== *)
theory Str
  imports Prelude
begin

text \<open>
  The C string utilities (\<open>CV2/str\<close>): character classes, comparison, search and replacement in place,
  number scanning, base-36 file numbers, the word-table automaton \<open>strtable\<close>, \<open>strtoken\<close>, URL
  unescaping and the XOR scrambling \<open>strplain\<close>. A \<open>char *\<close> is a byte block; every read and write is
  checked against the block, and an out-of-range access is \<open>None\<close>. Blocks passed together do not
  overlap. The build has \<open>JAPAN\<close> off.
\<close>

unbundle bit_operations_syntax

section \<open>Characters\<close>

definition cf_digit :: "int \<Rightarrow> bool" where "cf_digit c \<longleftrightarrow> 48 \<le> c \<and> c \<le> 57"
definition cf_lower :: "int \<Rightarrow> bool" where "cf_lower c \<longleftrightarrow> 97 \<le> c \<and> c \<le> 122"
definition cf_upper :: "int \<Rightarrow> bool" where "cf_upper c \<longleftrightarrow> 65 \<le> c \<and> c \<le> 90"
definition cf_value :: "int \<Rightarrow> int" where "cf_value d = d - 48"

text \<open>\<open>for (; *s; ++s) *s = f (*s)\<close>\<close>

function map_loop :: "(char \<Rightarrow> char) \<Rightarrow> char list \<Rightarrow> int \<Rightarrow> char list option" where
  "map_loop f b i =
     (case rd b i of None \<Rightarrow> None
      | Some c \<Rightarrow> if c = NUL then Some b
                 else (case wr b i (f c) of None \<Rightarrow> None | Some b' \<Rightarrow> map_loop f b' (i + 1)))"
  by pat_completeness auto
termination
  by (relation "measure (\<lambda>(f, b, i). length b - nat i)") (auto simp: rd_def wr_def split: if_splits)

declare map_loop.simps [simp del]

definition to_upper :: "char \<Rightarrow> char" where
  "to_upper c = (if cf_lower (bval c) then byte (bval c - 32) else c)"

definition to_lower :: "char \<Rightarrow> char" where
  "to_lower c = (if cf_upper (bval c) then byte (bval c + 32) else c)"

definition strlower :: "char list \<Rightarrow> char list option" where
  "strlower b = map_loop to_lower b 0"

section \<open>Comparison, search, copying\<close>

function eq_loop :: "char list \<Rightarrow> int \<Rightarrow> char list \<Rightarrow> int \<Rightarrow> bool option" where
  "eq_loop s i t j =
     (case rd s i of None \<Rightarrow> None
      | Some a \<Rightarrow> (case rd t j of None \<Rightarrow> None
          | Some b \<Rightarrow> if a \<noteq> b then Some False else if a = NUL then Some True else eq_loop s (i + 1) t (j + 1)))"
  by pat_completeness auto
termination
  by (relation "measure (\<lambda>(s, i, t, j). length s - nat i)") (auto simp: rd_def split: if_splits)

declare eq_loop.simps [simp del]

definition streq :: "char list option \<Rightarrow> char list option \<Rightarrow> bool option" where
  "streq s t = (case (s, t) of (Some s, Some t) \<Rightarrow> eq_loop s 0 t 0 | _ \<Rightarrow> Some False)"

text \<open>The inner loop of \<open>strindex\<close>: true when it stops at the end of \<open>t\<close>.\<close>

function match_loop :: "char list \<Rightarrow> int \<Rightarrow> char list \<Rightarrow> int \<Rightarrow> bool option" where
  "match_loop s j t k =
     (case rd t k of None \<Rightarrow> None
      | Some b \<Rightarrow> if b = NUL then Some True
                 else (case rd s j of None \<Rightarrow> None
                       | Some a \<Rightarrow> if a = b then match_loop s (j + 1) t (k + 1) else Some False))"
  by pat_completeness auto
termination
  by (relation "measure (\<lambda>(s, j, t, k). length t - nat k)") (auto simp: rd_def split: if_splits)

declare match_loop.simps [simp del]

function sindex_loop :: "char list \<Rightarrow> int \<Rightarrow> char list \<Rightarrow> int option" where
  "sindex_loop s i t =
     (case rd s i of None \<Rightarrow> None
      | Some c \<Rightarrow> if c = NUL then Some (-1)
                 else (case match_loop s i t 0 of None \<Rightarrow> None
                       | Some m \<Rightarrow> if m then Some i else sindex_loop s (i + 1) t))"
  by pat_completeness auto
termination
  by (relation "measure (\<lambda>(s, i, t). length s - nat i)") (auto simp: rd_def split: if_splits)

declare sindex_loop.simps [simp del]

definition strindex :: "char list \<Rightarrow> char list \<Rightarrow> int option" where
  "strindex s t = sindex_loop s 0 t"

text \<open>\<open>for (i = hi; i >= lo; --i) s[i+delta] = s[i]\<close> and the ascending loop.\<close>

function move_up :: "char list \<Rightarrow> int \<Rightarrow> int \<Rightarrow> int \<Rightarrow> char list option" where
  "move_up s delta lo i =
     (if i < lo then Some s
      else (case rd s i of None \<Rightarrow> None
            | Some c \<Rightarrow> (case wr s (i + delta) c of None \<Rightarrow> None | Some s' \<Rightarrow> move_up s' delta lo (i - 1))))"
  by pat_completeness auto
termination
  by (relation "measure (\<lambda>(s, d, lo, i). nat (i - lo + 1))") auto

function move_down :: "char list \<Rightarrow> int \<Rightarrow> int \<Rightarrow> int \<Rightarrow> char list option" where
  "move_down s delta i hi =
     (if i > hi then Some s
      else (case rd s i of None \<Rightarrow> None
            | Some c \<Rightarrow> (case wr s (i + delta) c of None \<Rightarrow> None | Some s' \<Rightarrow> move_down s' delta (i + 1) hi)))"
  by pat_completeness auto
termination
  by (relation "measure (\<lambda>(s, d, i, hi). nat (hi - i + 1))") auto

text \<open>\<open>for (i = 0; i < n; ++i) dst[off+i] = src[from+i]\<close>\<close>

function copy_loop :: "char list \<Rightarrow> int \<Rightarrow> char list \<Rightarrow> int \<Rightarrow> int \<Rightarrow> int \<Rightarrow> char list option" where
  "copy_loop dst off src from n i =
     (if i \<ge> n then Some dst
      else (case rd src (from + i) of None \<Rightarrow> None
            | Some c \<Rightarrow> (case wr dst (off + i) c of None \<Rightarrow> None | Some dst' \<Rightarrow> copy_loop dst' off src from n (i + 1))))"
  by pat_completeness auto
termination
  by (relation "measure (\<lambda>(dst, off, src, from, n, i). nat (n - i))") auto

function copy_down :: "char list \<Rightarrow> int \<Rightarrow> char list \<Rightarrow> int \<Rightarrow> char list option" where
  "copy_down dst off src i =
     (if i < 0 then Some dst
      else (case rd src i of None \<Rightarrow> None
            | Some c \<Rightarrow> (case wr dst (i + off) c of None \<Rightarrow> None | Some dst' \<Rightarrow> copy_down dst' off src (i - 1))))"
  by pat_completeness auto
termination
  by (relation "measure (\<lambda>(dst, off, src, i). nat (i + 1))") auto

declare copy_down.simps [simp del] move_up.simps [simp del] move_down.simps [simp del] copy_loop.simps [simp del]

definition shift_tail :: "char list \<Rightarrow> int \<Rightarrow> int \<Rightarrow> int \<Rightarrow> char list option" where
  "shift_tail sss delta lo hi = do {
     sss \<leftarrow> (if delta > 0 then move_up sss delta lo hi else Some sss);
     if delta < 0 then move_down sss delta lo hi else Some sss }"

definition stralter :: "char list \<Rightarrow> char list \<Rightarrow> char list \<Rightarrow> (int \<times> char list) option" where
  "stralter sss old new = do {
     ssslen \<leftarrow> slen sss;
     oldlen \<leftarrow> slen old;
     newlen \<leftarrow> slen new;
     if ssslen = 0 \<or> oldlen = 0 then Some (0, sss)
     else do {
       pos \<leftarrow> strindex sss old;
       if pos < 0 then Some (0, sss)
       else do {
         sss \<leftarrow> shift_tail sss (newlen - oldlen) (pos + oldlen) ssslen;
         sss \<leftarrow> copy_loop sss pos new 0 newlen 0;
         Some (1, sss) } } }"

definition strsub :: "char list \<Rightarrow> char list \<Rightarrow> int \<Rightarrow> int \<Rightarrow> (int \<times> char list) option" where
  "strsub result str start len = do {
     let start = max start 0;
     n \<leftarrow> slen str;
     let last = min (start + len - 1) (n - 1);
     result \<leftarrow> copy_loop result 0 str start (last - start + 1) 0;
     result \<leftarrow> wr result (max 0 (last - start + 1)) NUL;
     Some (1, result) }"

definition strconc :: "char list \<Rightarrow> char list \<Rightarrow> char list \<Rightarrow> (int \<times> char list) option" where
  "strconc a b c = do {
     blen \<leftarrow> slen b;
     clen \<leftarrow> slen c;
     a \<leftarrow> copy_down a blen c clen;
     a \<leftarrow> copy_loop a 0 b 0 blen 0;
     Some (1, a) }"

function til_loop :: "char list \<Rightarrow> int \<Rightarrow> char list \<Rightarrow> int \<Rightarrow> char \<Rightarrow> char list option" where
  "til_loop b i a j c =
     (case rd a j of None \<Rightarrow> None
      | Some x \<Rightarrow> if x = NUL \<or> x = c then wr b i NUL
                 else (case wr b i x of None \<Rightarrow> None | Some b' \<Rightarrow> til_loop b' (i + 1) a (j + 1) c))"
  by pat_completeness auto
termination
  by (relation "measure (\<lambda>(b, i, a, j, c). length a - nat j)") (auto simp: rd_def split: if_splits)

declare til_loop.simps [simp del]

definition strcpytil :: "char list \<Rightarrow> char list \<Rightarrow> char \<Rightarrow> (int \<times> char list) option" where
  "strcpytil b a c = do { b \<leftarrow> til_loop b 0 a 0 c; Some (1, b) }"

section \<open>Numbers\<close>

function blank_loop :: "char list \<Rightarrow> int \<Rightarrow> int option" where
  "blank_loop b i =
     (case rd b i of None \<Rightarrow> None | Some c \<Rightarrow> if c = CHR '' '' then blank_loop b (i + 1) else Some i)"
  by pat_completeness auto
termination
  by (relation "measure (\<lambda>(b, i). length b - nat i)") (auto simp: rd_def split: if_splits)

function scan_loop :: "char list \<Rightarrow> int \<Rightarrow> int \<Rightarrow> (int \<times> int) option" where
  "scan_loop b i result =
     (case rd b i of None \<Rightarrow> None
      | Some c \<Rightarrow> if cf_digit (bval c) then scan_loop b (i + 1) (wrap32 (10 * result + cf_value (bval c)))
                 else Some (i, result))"
  by pat_completeness auto
termination
  by (relation "measure (\<lambda>(b, i, r). length b - nat i)") (auto simp: rd_def split: if_splits)

declare blank_loop.simps [simp del] scan_loop.simps [simp del]

text \<open>\<open>strscan (&s)\<close>: the pointer \<open>s\<close> is an offset or null; the result is the value and the new pointer.\<close>

definition strscan :: "char list \<Rightarrow> int option \<Rightarrow> (int \<times> int option) option" where
  "strscan b s =
     (case s of None \<Rightarrow> Some (-1, None)
      | Some p \<Rightarrow> do {
          i \<leftarrow> blank_loop b p;
          c \<leftarrow> rd b i;
          if \<not> cf_digit (bval c) then Some (0, Some p)
          else do { (j, r) \<leftarrow> scan_loop b i 0; Some (r, Some j) } })"

definition strnum :: "char list \<Rightarrow> int \<Rightarrow> (int \<times> int) option" where
  "strnum b v = do {
     t \<leftarrow> blank_loop b 0;
     c \<leftarrow> rd b t;
     let minus = (c = CHR ''-'');
     let u = (if minus then t + 1 else t);
     (temp, t') \<leftarrow> strscan b (Some u);
     if t' = Some u then Some (0, v)
     else Some (1, if minus then wrap32 (- temp) else temp) }"

text \<open>The loops of \<open>strshort\<close> over the text before a number and over its digits.\<close>

function nondigit_loop :: "char list \<Rightarrow> int \<Rightarrow> char \<Rightarrow> (int \<times> char) option" where
  "nondigit_loop b i prevchar =
     (case rd b i of None \<Rightarrow> None
      | Some c \<Rightarrow> if c = NUL \<or> cf_digit (bval c) then Some (i, prevchar) else nondigit_loop b (i + 1) c)"
  by pat_completeness auto
termination
  by (relation "measure (\<lambda>(b, i, c). length b - nat i)") (auto simp: rd_def split: if_splits)

function short_loop :: "char list \<Rightarrow> int \<Rightarrow> int \<Rightarrow> (int \<times> int) option" where
  "short_loop b i v =
     (case rd b i of None \<Rightarrow> None
      | Some c \<Rightarrow> if c \<noteq> NUL \<and> cf_digit (bval c) then short_loop b (i + 1) (wrap16 (v * 10 + cf_value (bval c)))
                 else Some (i, v))"
  by pat_completeness auto
termination
  by (relation "measure (\<lambda>(b, i, r). length b - nat i)") (auto simp: rd_def split: if_splits)

declare nondigit_loop.simps [simp del] short_loop.simps [simp del]

fun shorts :: "nat \<Rightarrow> char list \<Rightarrow> int \<Rightarrow> int list option" where
  "shorts 0 b i = Some []"
| "shorts (Suc n) b i = do {
     (i, prevchar) \<leftarrow> nondigit_loop b i NUL;
     (i, v) \<leftarrow> short_loop b i 0;
     vs \<leftarrow> shorts n b i;
     Some ((if prevchar = CHR ''-'' then wrap16 (- v) else v) # vs) }"

text \<open>\<open>strshort (array, str, number)\<close>: the entries it stores in \<open>array\<close>.\<close>

definition strshort :: "char list \<Rightarrow> int \<Rightarrow> (int \<times> int list) option" where
  "strshort b number = do { vs \<leftarrow> shorts (nat number) b 0; Some (1, vs) }"

section \<open>Base 36\<close>

definition alphanums :: string where
  "alphanums = ''0123456789ABCDEFGHIJKLMNOPQRSTUVWXYZ''"

fun find_char :: "string \<Rightarrow> char \<Rightarrow> nat" where
  "find_char [] c = 0"
| "find_char (x # xs) c = (if x = c then 0 else Suc (find_char xs c))"

function loop36 :: "char list \<Rightarrow> int \<Rightarrow> int \<Rightarrow> int option" where
  "loop36 b i num =
     (case rd b i of None \<Rightarrow> None
      | Some c \<Rightarrow>
          if 47 < bval c \<and> bval c < 58 \<or> 64 < bval c \<and> bval c < 91 then
            (let j = find_char alphanums c
             in if j \<ge> length alphanums then Some (-1) else loop36 b (i + 1) (wrap32 (36 * num + int j)))
          else Some num)"
  by pat_completeness auto
termination
  by (relation "measure (\<lambda>(b, i, n). length b - nat i)") (auto simp: rd_def split: if_splits)

declare loop36.simps [simp del]

text \<open>\<open>str36toi\<close> first turns the string to upper case in place.\<close>

definition str36toi :: "char list \<Rightarrow> (int \<times> char list) option" where
  "str36toi b = do { b \<leftarrow> map_loop to_upper b 0; n \<leftarrow> loop36 b 0 0; Some (n, b) }"

text \<open>\<open>do str[i++] = alphanums[num % 36]; while ((num /= 36) > 0)\<close>; division truncates towards zero.\<close>

function digits36 :: "char list \<Rightarrow> int \<Rightarrow> int \<Rightarrow> (char list \<times> int) option" where
  "digits36 b i num =
     (let r = num - 36 * (num div 36) in
      if num < 0 then None
      else (case wr b i (alphanums ! nat r) of None \<Rightarrow> None
            | Some b' \<Rightarrow> if num div 36 > 0 then digits36 b' (i + 1) (num div 36) else Some (b', i + 1)))"
  by pat_completeness auto
termination
  by (relation "measure (\<lambda>(b, i, n). nat n)") auto

function pad_loop :: "char list \<Rightarrow> int \<Rightarrow> int \<Rightarrow> (char list \<times> int) option" where
  "pad_loop b i len =
     (if i < len then (case wr b i (CHR ''0'') of None \<Rightarrow> None | Some b' \<Rightarrow> pad_loop b' (i + 1) len)
      else Some (b, i))"
  by pat_completeness auto
termination
  by (relation "measure (\<lambda>(b, i, len). nat (len - i))") auto

function rev_loop :: "char list \<Rightarrow> int \<Rightarrow> int \<Rightarrow> char list option" where
  "rev_loop b j k =
     (if j < k then
        (case (rd b j, rd b k) of
           (Some x, Some y) \<Rightarrow>
             (case wr b j y of None \<Rightarrow> None
              | Some b' \<Rightarrow> (case wr b' k x of None \<Rightarrow> None | Some b'' \<Rightarrow> rev_loop b'' (j + 1) (k - 1)))
         | _ \<Rightarrow> None)
      else Some b)"
  by pat_completeness auto
termination
  by (relation "measure (\<lambda>(b, j, k). nat (k - j))") auto

declare digits36.simps [simp del] pad_loop.simps [simp del] rev_loop.simps [simp del]

text \<open>A negative number indexes \<open>alphanums\<close> out of bounds: undefined.\<close>

definition strito36 :: "char list \<Rightarrow> int \<Rightarrow> int \<Rightarrow> char list option" where
  "strito36 b num len = do {
     (b, i) \<leftarrow> digits36 b 0 num;
     (b, i) \<leftarrow> pad_loop b i len;
     b \<leftarrow> wr b i NUL;
     n \<leftarrow> slen b;
     rev_loop b 0 (n - 1) }"

section \<open>Words and tables\<close>

datatype table_state = BETWEEN | CHECKWORD | SKIPWORD

fun state_rank :: "table_state \<Rightarrow> nat" where
  "state_rank BETWEEN = 2"
| "state_rank CHECKWORD = 1"
| "state_rank SKIPWORD = 0"

function table_loop :: "char list \<Rightarrow> char list \<Rightarrow> table_state \<Rightarrow> int \<Rightarrow> int \<Rightarrow> int \<Rightarrow> int option" where
  "table_loop tbl word st which sp wp =
     (case rd tbl sp of None \<Rightarrow> None
      | Some c \<Rightarrow>
          (case st of
             BETWEEN \<Rightarrow>
               if c = NUL then Some (-2)
               else if c = CHR '' '' then table_loop tbl word BETWEEN which (sp + 1) wp
               else table_loop tbl word CHECKWORD (which + 1) sp 0
           | CHECKWORD \<Rightarrow>
               (case rd word wp of None \<Rightarrow> None
                | Some w \<Rightarrow>
                    if w = NUL \<and> (c = CHR '' '' \<or> c = NUL) then Some which
                    else if c = NUL then Some (-3)
                    else if c = w then table_loop tbl word CHECKWORD which (sp + 1) (wp + 1)
                    else table_loop tbl word SKIPWORD which sp wp)
           | SKIPWORD \<Rightarrow>
               if c = NUL then Some (-4)
               else table_loop tbl word (if c = CHR '' '' then BETWEEN else SKIPWORD) which (sp + 1) wp))"
  by pat_completeness auto
termination
  by (relation "measures [\<lambda>(tbl, word, st, which, sp, wp). length tbl - nat sp,
                          \<lambda>(tbl, word, st, which, sp, wp). state_rank st]")
     (auto simp: rd_def split: if_splits)

declare table_loop.simps [simp del]

definition strtable :: "char list \<Rightarrow> char list \<Rightarrow> int option" where
  "strtable tbl word = do {
     t \<leftarrow> rd tbl 0;
     w \<leftarrow> rd word 0;
     if t = NUL \<or> w = NUL then Some (-1) else table_loop tbl word BETWEEN (-1) 0 0 }"

text \<open>
  \<open>strtoken\<close> collects each token in the local \<open>buf[300]\<close>; \<open>w\<close> is the write position in it. A longer
  token overruns \<open>buf\<close>: undefined. The result is the offset of the token or the null pointer.
\<close>

definition TOKEN_BUF :: nat where "TOKEN_BUF = 300"

function stoken_loop :: "char list \<Rightarrow> char list \<Rightarrow> char list \<Rightarrow> int \<Rightarrow> int \<Rightarrow> bool \<Rightarrow> int \<Rightarrow> int \<Rightarrow> int \<Rightarrow>
    (int option \<times> char list) option" where
  "stoken_loop word tbuf line len i between w start pos =
     (if i > len then (case wr word 0 NUL of None \<Rightarrow> None | Some word \<Rightarrow> Some (None, word))
      else (case rd line i of None \<Rightarrow> None
       | Some c \<Rightarrow>
          if c = CHR '' '' \<or> c = NUL then
            (if between then stoken_loop word tbuf line len (i + 1) True w start pos
             else (case wr tbuf w NUL of None \<Rightarrow> None
                   | Some tbuf \<Rightarrow>
                       if pos - 1 \<le> 0 then
                         (if length (cstr tbuf) < length word
                          then Some (Some start, bsplice word 0 (cstr tbuf @ [NUL])) else None)
                       else stoken_loop word tbuf line len (i + 1) True w start (pos - 1)))
          else
            (let w = (if between then 0 else w); start = (if between then i else start)
             in (case wr tbuf w c of None \<Rightarrow> None
                 | Some tbuf \<Rightarrow> stoken_loop word tbuf line len (i + 1) False (w + 1) start pos))))"
  by pat_completeness auto
termination
  by (relation "measure (\<lambda>(word, tbuf, line, len, i, b, w, start, pos). nat (len + 1 - i))") auto

declare stoken_loop.simps [simp del]

definition strtoken :: "char list \<Rightarrow> int \<Rightarrow> char list \<Rightarrow> (int option \<times> char list) option" where
  "strtoken word pos line = do {
     len \<leftarrow> slen line;
     stoken_loop word (replicate TOKEN_BUF NUL) line len 0 True 0 0 pos }"

section \<open>Unescaping and scrambling\<close>

definition hex_digit :: "char \<Rightarrow> int option" where
  "hex_digit c =
     (let v = bval c
      in if 48 \<le> v \<and> v \<le> 57 then Some (v - 48)
         else if 65 \<le> v \<and> v \<le> 70 then Some (v - 55)
         else if 97 \<le> v \<and> v \<le> 102 then Some (v - 87) else None)"

fun hex_value :: "int \<Rightarrow> string \<Rightarrow> int" where
  "hex_value r [] = r"
| "hex_value r (c # x) = (case hex_digit c of None \<Rightarrow> r | Some d \<Rightarrow> hex_value (16 * r + d) x)"

text \<open>\<open>strtol (hex, NULL, 16)\<close>: white space, a sign, then hexadecimal digits.\<close>

definition is_space :: "char \<Rightarrow> bool" where
  "is_space c \<longleftrightarrow> c = CHR '' '' \<or> (9 \<le> bval c \<and> bval c \<le> 13)"

definition strtol16 :: "string \<Rightarrow> int" where
  "strtol16 x =
     (case dropWhile is_space x of [] \<Rightarrow> 0
      | c # r \<Rightarrow> if c = CHR ''-'' then - hex_value 0 r
                 else if c = CHR ''+'' then hex_value 0 r else hex_value 0 (c # r))"

function unescape_loop :: "char list \<Rightarrow> int \<Rightarrow> int \<Rightarrow> char list option" where
  "unescape_loop b s t =
     (case rd b s of None \<Rightarrow> None
      | Some c \<Rightarrow>
          if c = NUL then wr b t NUL
          else
            (let h1 = (if c = CHR ''%'' then rd b (s + 1) else Some NUL);
                 h2 = (if c = CHR ''%'' \<and> h1 \<noteq> Some NUL then rd b (s + 2) else Some NUL)
             in (case (h1, h2) of
                   (Some x, Some y) \<Rightarrow>
                     if c \<noteq> CHR ''%'' \<or> x = NUL \<or> y = NUL then
                       (case wr b t c of None \<Rightarrow> None | Some b' \<Rightarrow> unescape_loop b' (s + 1) (t + 1))
                     else
                       (case wr b t (byte (strtol16 [x, y])) of None \<Rightarrow> None
                        | Some b' \<Rightarrow> unescape_loop b' (s + 3) (t + 1))
                 | _ \<Rightarrow> None)))"
  by pat_completeness auto
termination
  by (relation "measure (\<lambda>(b, s, t). length b - nat s)") (auto simp: rd_def wr_def Let_def split: if_splits)

declare unescape_loop.simps [simp del]

definition strunescape :: "char list \<Rightarrow> (int \<times> char list) option" where
  "strunescape b = do { b \<leftarrow> unescape_loop b 0 0; Some (1, b) }"

definition PLAIN_ENC_STR :: string where
  "PLAIN_ENC_STR = concat (replicate 8 [CHR 0xAA, CHR 0x95])"

definition xor_char :: "char \<Rightarrow> char \<Rightarrow> char" where
  "xor_char a b = byte (bval a XOR bval b)"

text \<open>
  \<open>strplain\<close>: the loop stops at the end of the string or of the 16-byte key, so the static result
  buffer of 32 bytes suffices. The result is that buffer up to its terminator.
\<close>

definition strplain :: "char list \<Rightarrow> char list option" where
  "strplain str =
     (if NUL \<in> set str \<or> length PLAIN_ENC_STR < length str
      then Some (map (\<lambda>(a, b). xor_char a b) (zip (cstr str) PLAIN_ENC_STR) @ [NUL])
      else None)"

section \<open>Loops on strings\<close>

lemma drop_rd:
  assumes "rd b (int i) = Some c"
  shows "drop i b = c # drop (Suc i) b" and "i < length b"
  using assms by (auto simp: Cons_nth_drop_Suc split: if_splits)

lemma map_loop_eq:
  assumes "b = p @ x @ NUL # r" and "NUL \<notin> set x" and "\<forall>c \<in> set x. f c \<noteq> NUL"
  shows "map_loop f b (int (length p)) = Some (p @ map f x @ NUL # r)"
  using assms
proof (induction x arbitrary: b p)
  case Nil
  then show ?case by (subst map_loop.simps) (simp add: nth_append)
next
  case (Cons c x)
  have "map_loop f (p @ f c # x @ NUL # r) (int (length (p @ [f c]))) = Some ((p @ [f c]) @ map f x @ NUL # r)"
    by (rule Cons.IH) (use Cons.prems in auto)
  moreover have "c \<noteq> NUL" using Cons.prems by auto
  ultimately show ?case using Cons.prems(1) by (subst map_loop.simps) (simp add: nth_append add.commute)
qed

lemma streq_holds:
  assumes "holds s x" and "holds t y"
  shows "streq (Some s) (Some t) = Some (x = y)"
proof -
  have "eq_loop s (int (length p)) t (int (length q)) = Some (u = v)"
    if "s = p @ u @ NUL # r" "t = q @ v @ NUL # r'" "NUL \<notin> set u" "NUL \<notin> set v" for p q u v r r'
    using that
  proof (induction u arbitrary: p q v)
    case Nil
    then show ?case by (subst eq_loop.simps) (cases v; auto simp: nth_append)
  next
    case (Cons a u)
    show ?case
    proof (cases v)
      case Nil
      then show ?thesis using Cons.prems by (subst eq_loop.simps) (auto simp: nth_append)
    next
      case (Cons b w)
      show ?thesis
      proof (cases "a = b")
        case True
        have "eq_loop s (int (length (p @ [a]))) t (int (length (q @ [b]))) = Some (u = w)"
          by (rule Cons.IH) (use Cons Cons.prems in auto)
        then show ?thesis using Cons Cons.prems True
          by (subst eq_loop.simps) (auto simp: nth_append add.commute)
      next
        case False
        then show ?thesis using Cons Cons.prems by (subst eq_loop.simps) (simp add: nth_append)
      qed
    qed
  qed
  from this [of "[]" x _ "[]" y] assms show ?thesis
    using holds_split [OF assms(1)] holds_split [OF assms(2)] holds_no_NUL by (auto simp: streq_def)
qed

section \<open>Base 36 numbers\<close>

fun d36 :: "nat \<Rightarrow> string" where
  "d36 n = alphanums ! (n mod 36) # (if n div 36 > 0 then d36 (n div 36) else [])"

declare d36.simps [simp del]

fun val36 :: "int \<Rightarrow> string \<Rightarrow> int" where
  "val36 r [] = r"
| "val36 r (c # x) = val36 (36 * r + int (find_char alphanums c)) x"

lemma length_alphanums: "length alphanums = 36"
  by (simp add: alphanums_def)

lemma find_char_nth: "distinct xs \<Longrightarrow> k < length xs \<Longrightarrow> find_char xs (xs ! k) = k"
proof (induction xs arbitrary: k)
  case Nil
  then show ?case by simp
next
  case (Cons x xs)
  then show ?case by (cases k) auto
qed

lemma distinct_alphanums: "distinct alphanums"
  by (simp add: alphanums_def)

lemma alphanum_class:
  assumes "k < 36"
  shows "47 < bval (alphanums ! k) \<and> bval (alphanums ! k) < 58 \<or> 64 < bval (alphanums ! k) \<and> bval (alphanums ! k) < 91"
proof -
  have "list_all (\<lambda>c. 47 < bval c \<and> bval c < 58 \<or> 64 < bval c \<and> bval c < 91) alphanums"
    by (simp add: alphanums_def bval_def)
  then show ?thesis using assms length_alphanums by (simp add: list_all_length)
qed

lemma digits36_eq:
  "i + length (d36 n) \<le> length b \<Longrightarrow>
   digits36 b (int i) (int n) = Some (bsplice b i (d36 n), int (i + length (d36 n)))"
proof (induction n arbitrary: b i rule: d36.induct)
  case (1 n)
  have r: "nat (int n - 36 * (int n div 36)) = n mod 36" by (simp add: minus_mult_div_eq_mod nat_mod_as_int)
  have q: "int n div 36 = int (n div 36)" by (simp add: zdiv_int)
  show ?case
  proof (cases "n div 36 > 0")
    case True
    have d: "d36 n = alphanums ! (n mod 36) # d36 (n div 36)" using True by (subst d36.simps) simp
    have "digits36 (b[i := alphanums ! (n mod 36)]) (int (Suc i)) (int (n div 36)) =
        Some (bsplice (b[i := alphanums ! (n mod 36)]) (Suc i) (d36 (n div 36)), int (Suc i + length (d36 (n div 36))))"
      by (rule 1(1)) (use True 1(2) d in auto)
    then show ?thesis using True 1(2) d r q bsplice_Cons [of i "d36 (n div 36)" b]
      by (subst digits36.simps) (simp add: Let_def add.commute)
  next
    case False
    then have d: "d36 n = [alphanums ! (n mod 36)]" by (subst d36.simps) simp
    then show ?thesis using False 1(2) r q by (subst digits36.simps) (simp add: Let_def bsplice_one)
  qed
qed

lemma pad_loop_eq:
  "i + k \<le> length b \<Longrightarrow> pad_loop b (int i) (int (i + k)) = Some (bsplice b i (replicate k (CHR ''0'')), int (i + k))"
proof (induction k arbitrary: b i)
  case 0
  then show ?case by (subst pad_loop.simps) (simp add: bsplice_Nil)
next
  case (Suc k)
  have "pad_loop (b[i := CHR ''0'']) (int (Suc i)) (int (Suc i + k)) =
      Some (bsplice (b[i := CHR ''0'']) (Suc i) (replicate k (CHR ''0'')), int (Suc i + k))"
    using Suc.IH [of "Suc i" "b[i := CHR ''0'']"] Suc.prems by simp
  then show ?case using Suc.prems bsplice_Cons [of i "replicate k (CHR ''0'')" b]
    by (subst pad_loop.simps) (simp add: add.commute)
qed

lemma rev_loop_eq: "rev_loop (p @ x @ q) (int (length p)) (int (length p) + int (length x) - 1) = Some (p @ rev x @ q)"
proof (induction "length x" arbitrary: p x q rule: less_induct)
  case less
  show ?case
  proof (cases "length x \<le> 1")
    case True
    then have "rev x = x" by (cases x) (auto simp: le_Suc_eq)
    then show ?thesis using True by (subst rev_loop.simps) auto
  next
    case False
    then obtain a y b where x: "x = a # y @ [b]" by (cases x; cases "tl x" rule: rev_cases) auto
    let ?k = "length p + length y + 1"
    have rd: "rd (p @ x @ q) (int (length p)) = Some a" "rd (p @ x @ q) (int ?k) = Some b"
      unfolding rd_int using x by (simp_all add: nth_append)
    have wr: "wr (p @ x @ q) (int (length p)) b = Some (p @ b # y @ b # q)"
      "wr (p @ b # y @ b # q) (int ?k) a = Some (p @ b # y @ a # q)"
      unfolding wr_int using x by (simp_all add: list_update_append)
    have "rev_loop ((p @ [b]) @ y @ (a # q)) (int (length (p @ [b]))) (int (length (p @ [b])) + int (length y) - 1) =
        Some ((p @ [b]) @ rev y @ (a # q))"
      by (rule less) (use x in simp)
    then have ih: "rev_loop (p @ b # y @ a # q) (int (length p) + 1) (int ?k - 1) = Some (p @ b # rev y @ a # q)"
      by (simp add: algebra_simps)
    have "int (length p) + int (length x) - 1 = int ?k" using x by simp
    then show ?thesis using rd wr ih x by (subst rev_loop.simps) simp
  qed
qed

definition text36 :: "nat \<Rightarrow> nat \<Rightarrow> string" where
  "text36 n len = replicate (len - length (d36 n)) (CHR ''0'') @ rev (d36 n)"

lemma d36_chars: "c \<in> set (d36 n) \<Longrightarrow> \<exists>k < 36. c = alphanums ! k"
proof (induction n rule: d36.induct)
  case (1 n)
  have "\<exists>k < 36. alphanums ! (n mod 36) = alphanums ! k" by (rule exI [of _ "n mod 36"]) simp
  then show ?case using 1 by (subst (asm) (2) d36.simps) (auto split: if_splits)
qed

lemma alphanum_nz: "k < 36 \<Longrightarrow> alphanums ! k \<noteq> NUL"
  using alphanum_class [of k] by (metis bval_NUL less_asym zero_less_numeral linorder_not_less less_le_trans order.strict_trans2 not_numeral_less_zero)

lemma text36_chars: "c \<in> set (text36 n len) \<Longrightarrow> \<exists>k < 36. c = alphanums ! k"
proof -
  have "CHR ''0'' = alphanums ! 0" by (simp add: alphanums_def)
  then have z: "\<exists>k < 36. CHR ''0'' = alphanums ! k" by (metis zero_less_numeral)
  assume "c \<in> set (text36 n len)"
  then show ?thesis using d36_chars [of c n] z by (auto simp: text36_def split: if_splits)
qed

lemma val36_append: "val36 r (x @ y) = val36 (val36 r x) y"
  by (induction x arbitrary: r) auto

lemma val36_rev: "val36 0 (rev (d36 n)) = int n"
proof (induction n rule: d36.induct)
  case (1 n)
  have f: "find_char alphanums (alphanums ! (n mod 36)) = n mod 36"
    by (rule find_char_nth) (simp_all add: distinct_alphanums length_alphanums)
  show ?case
  proof (cases "n div 36 > 0")
    case True
    then have "val36 0 (rev (d36 n)) = 36 * int (n div 36) + int (n mod 36)"
      using 1 f by (subst d36.simps) (simp add: val36_append)
    then show ?thesis by (metis mult_div_mod_eq of_nat_add of_nat_mult of_nat_numeral)
  next
    case False
    then show ?thesis using f by (subst d36.simps) (simp add: div_eq_0_iff)
  qed
qed

lemma val36_zeros: "val36 0 (replicate k (CHR ''0'') @ x) = val36 0 x"
proof -
  have "find_char alphanums (CHR ''0'') = 0" by (simp add: alphanums_def)
  then show ?thesis by (induction k) simp_all
qed

lemma strito36_eq:
  assumes "max (length (d36 n)) len < length b"
  shows "\<exists>b'. strito36 b (int n) (int len) = Some b' \<and> holds b' (text36 n len)"
proof -
  let ?d = "d36 n" and ?k = "len - length (d36 n)"
  let ?z = "replicate ?k (CHR ''0'')"
  let ?x = "?d @ ?z"
  have lx: "length ?x = max (length ?d) len" "length ?x < length b" using assms by auto
  have 1: "digits36 b 0 (int n) = Some (bsplice b 0 ?d, int (length ?d))"
    using digits36_eq [of 0 n b] assms by simp
  have "pad_loop (bsplice b 0 ?d) (int (length ?d)) (int (length ?d + ?k)) =
      Some (bsplice (bsplice b 0 ?d) (length ?d) ?z, int (length ?d + ?k))"
    by (rule pad_loop_eq) (use assms in \<open>auto simp: bsplice_length\<close>)
  moreover have "bsplice (bsplice b 0 ?d) (length ?d) ?z = bsplice b 0 ?x" by (simp add: bsplice_def add.commute)
  moreover have "pad_loop c (int (length ?d)) (int len) = pad_loop c (int (length ?d)) (int (length ?d + ?k))" for c
    by (cases "length ?d \<le> len") (simp_all add: pad_loop.simps [of c "int (length ?d)"])
  ultimately have 2: "pad_loop (bsplice b 0 ?d) (int (length ?d)) (int len) = Some (bsplice b 0 ?x, int (length ?x))"
    by simp
  obtain c r where cr: "drop (length ?x) b = c # r" using lx(2) by (cases "drop (length ?x) b") auto
  have bx: "bsplice b 0 ?x = ?x @ c # r" using cr by (simp add: bsplice_def)
  have 3: "wr (bsplice b 0 ?x) (int (length ?x)) NUL = Some (?x @ NUL # r)"
    unfolding wr_int bx by (simp add: list_update_append)
  have "NUL \<notin> set ?d" using d36_chars alphanum_nz by metis
  then have nz: "NUL \<notin> set ?x" by simp
  have 4: "slen (?x @ NUL # r) = Some (int (length ?x))"
    by (rule holds_slen) (use nz in \<open>simp only: holds_splice not_False_eq_True\<close>)
  have 5: "rev_loop (?x @ NUL # r) 0 (int (length ?x) - 1) = Some (rev ?x @ NUL # r)"
    using rev_loop_eq [of "[]" ?x "NUL # r"] by simp
  have "strito36 b (int n) (int len) = Some (rev ?x @ NUL # r)"
    using 1 2 3 4 5 by (simp add: strito36_def)
  moreover have "rev ?x = text36 n len" by (simp add: text36_def)
  moreover have "holds (rev ?x @ NUL # r) (rev ?x)" unfolding holds_splice using nz by simp
  ultimately show ?thesis by metis
qed

lemma loop36_eq:
  assumes "b = p @ x @ NUL # r" and "\<forall>c \<in> set x. \<exists>k < 36. c = alphanums ! k"
  shows "loop36 b (int (length p)) (wrap32 v) = Some (wrap32 (val36 v x))"
  using assms
proof (induction x arbitrary: p v)
  case Nil
  then show ?case by (subst loop36.simps) (simp add: nth_append)
next
  case (Cons c x)
  obtain k where k: "k < 36" "c = alphanums ! k" using Cons.prems(2) by auto
  have f: "find_char alphanums c = k" unfolding k(2) by (rule find_char_nth) (simp_all add: distinct_alphanums length_alphanums k)
  have cls: "47 < bval c \<and> bval c < 58 \<or> 64 < bval c \<and> bval c < 91" unfolding k(2) by (rule alphanum_class [OF k(1)])
  have w: "wrap32 (36 * wrap32 v + int k) = wrap32 (36 * v + int k)"
    using wrap32_mod [of v 36 "int k"] by (simp add: mult.commute)
  have "loop36 b (int (length (p @ [c]))) (wrap32 (36 * v + int k)) = Some (wrap32 (val36 (36 * v + int k) x))"
    by (rule Cons.IH) (use Cons.prems in auto)
  then show ?case using Cons.prems(1) f cls k(1) w
    by (subst loop36.simps) (simp add: nth_append add.commute length_alphanums)
qed

lemma str36toi_eq:
  assumes "holds b x" and "\<forall>c \<in> set x. \<exists>k < 36. c = alphanums ! k"
  shows "str36toi b = Some (wrap32 (val36 0 x), b)"
proof -
  obtain r where b: "b = x @ NUL # r" using holds_split [OF assms(1)] by blast
  have up: "to_upper (alphanums ! k) = alphanums ! k" if "k < 36" for k
    using alphanum_class [OF that] by (auto simp: to_upper_def cf_lower_def)
  have nz: "\<forall>c \<in> set x. to_upper c \<noteq> NUL" using assms(2) up alphanum_nz by fastforce
  have "map to_upper x = x" using assms(2) up by (intro map_idI) fastforce
  then have "map_loop to_upper b 0 = Some b"
    using map_loop_eq [of b "[]" x r to_upper] b holds_no_NUL [OF assms(1)] nz by simp
  moreover have "loop36 b 0 0 = Some (wrap32 (val36 0 x))"
    using loop36_eq [of b "[]" x r 0] b assms(2) by (simp add: wrap32_id)
  ultimately show ?thesis by (simp add: str36toi_def)
qed

section \<open>The word table\<close>

text \<open>The words of a table, and the position of a word among them.\<close>

function blank_words :: "string \<Rightarrow> string list" where
  "blank_words [] = []"
| "blank_words (c # x) =
     (if c = CHR '' '' then blank_words x
      else (c # takeWhile (\<lambda>d. d \<noteq> CHR '' '') x) # blank_words (dropWhile (\<lambda>d. d \<noteq> CHR '' '') x))"
  by pat_completeness auto
termination
  by (relation "measure length") (auto simp: length_dropWhile_le le_imp_less_Suc)

definition table_result :: "int \<Rightarrow> string list \<Rightarrow> string \<Rightarrow> int option \<Rightarrow> bool" where
  "table_result which ws w r \<longleftrightarrow>
     (case index_in ws w of Some i \<Rightarrow> r = Some (which + int i) | None \<Rightarrow> (\<exists>n < 0. r = Some n))"

lemma table_result_Cons:
  "x \<noteq> w \<Longrightarrow> table_result which (x # ws) w r = table_result (which + 1) ws w r"
  by (auto simp: table_result_def split: option.splits)

definition rest_words :: "string \<Rightarrow> string list" where
  "rest_words t = blank_words (dropWhile (\<lambda>d. d \<noteq> CHR '' '') t)"

lemma rest_words_simps:
  "rest_words [] = []" "rest_words (CHR '' '' # t) = blank_words t"
  "c \<noteq> CHR '' '' \<Longrightarrow> rest_words (c # t) = rest_words t"
  by (simp_all add: rest_words_def)

definition this_word :: "string \<Rightarrow> string" where
  "this_word t = takeWhile (\<lambda>d. d \<noteq> CHR '' '') t"

lemma blank_words_nonblank: "c \<noteq> CHR '' '' \<Longrightarrow> blank_words (c # t) = this_word (c # t) # rest_words (c # t)"
  by (simp add: this_word_def rest_words_def)

lemma table_loop_eq:
  assumes tbl: "tbl = p @ t @ NUL # r" and wd: "word = w1 @ w2 @ NUL # q" and nt: "NUL \<notin> set t"
    and nw: "NUL \<notin> set (w1 @ w2)" "CHR '' '' \<notin> set (w1 @ w2)" "w1 @ w2 = w"
  shows "(st = BETWEEN \<longrightarrow> table_result (which + 1) (blank_words t) w (table_loop tbl word st which (int (length p)) wp)) \<and>
    (st = SKIPWORD \<longrightarrow> table_result (which + 1) (rest_words t) w (table_loop tbl word st which (int (length p)) wp)) \<and>
    (st = CHECKWORD \<longrightarrow> table_result which ((w1 @ this_word t) # rest_words t) w
       (table_loop tbl word st which (int (length p)) (int (length w1))))"
  using tbl wd nt nw
proof (induction "3 * length t + state_rank st" arbitrary: t st p w1 w2 which wp rule: less_induct)
  case less
  note tbl = less.prems(1) and wd = less.prems(2) and nt = less.prems(3) and nw = less.prems(4-6)
  have nb: "NUL \<noteq> CHR '' ''" by simp
  have hd: "rd tbl (int (length p)) = Some (case t of [] \<Rightarrow> NUL | c # _ \<Rightarrow> c)"
    using tbl by (cases t) (simp_all add: nth_append)
  have ww: "word = [] @ w @ NUL # q" "NUL \<notin> set ([] @ w)" "CHR '' '' \<notin> set ([] @ w)" "[] @ w = w" using wd nw by auto
  show ?case
  proof (cases st)
    case st: BETWEEN
    show ?thesis
  proof (cases t)
    case Nil
    then show ?thesis using st hd by (subst table_loop.simps) (simp add: table_result_def)
  next
    case (Cons c u)
    have tb: "tbl = (p @ [c]) @ u @ NUL # r" using tbl Cons by simp
    show ?thesis
    proof (cases "c = CHR '' ''")
      case True
      then show ?thesis using less.hyps [of u BETWEEN "p @ [c]" w1 w2 which wp] tb wd nt nw Cons st hd nb
        by (subst table_loop.simps) (simp add: add.commute)
    next
      case False
      have "table_result (which + 1) ((([] :: string) @ this_word t) # rest_words t) w
          (table_loop tbl word CHECKWORD (which + 1) (int (length p)) (int (length ([] :: string))))"
        using less.hyps [of t CHECKWORD p "[]" w "which + 1"] st tbl ww nt by simp
      then show ?thesis using st hd Cons False nt blank_words_nonblank [OF False, of u]
        by (subst table_loop.simps) (auto simp: Cons)
    qed
  qed
  next
    case st: SKIPWORD
    show ?thesis
  proof (cases t)
    case Nil
    then show ?thesis using st hd by (subst table_loop.simps) (simp add: table_result_def rest_words_simps)
  next
    case (Cons c u)
    have tb: "tbl = (p @ [c]) @ u @ NUL # r" using tbl Cons by simp
    show ?thesis using less.hyps [of u BETWEEN "p @ [c]" w1 w2 which wp] less.hyps [of u SKIPWORD "p @ [c]" w1 w2 which wp]
        tb wd nt nw Cons st hd
      by (subst table_loop.simps) (auto simp: add.commute rest_words_simps)
  qed
  next
    case st: CHECKWORD
    have hw: "rd word (int (length w1)) = Some (case w2 of [] \<Rightarrow> NUL | d # _ \<Rightarrow> d)"
      using wd by (cases w2) (simp_all add: nth_append)
    have skip: "table_result (which + 1) (rest_words t) w (table_loop tbl word SKIPWORD which (int (length p)) (int (length w1)))"
      using less.hyps [of t SKIPWORD p w1 w2 which] st tbl wd nt nw by simp
    show ?thesis
    proof (cases t)
      case Nil
      then show ?thesis using st hd hw nw wd
        by (subst table_loop.simps) (cases w2; auto simp: table_result_def this_word_def rest_words_simps)
    next
      case (Cons c u)
      have tb: "tbl = (p @ [c]) @ u @ NUL # r" using tbl Cons by simp
      have cz: "c \<noteq> NUL" using nt Cons by auto
      show ?thesis
      proof (cases w2)
        case Nil
        then show ?thesis
        proof (cases "c = CHR '' ''")
          case True
          then have "table_loop tbl word CHECKWORD which (int (length p)) (int (length w1)) = Some which"
            using hd hw Cons Nil by (subst table_loop.simps) simp
          then show ?thesis using st nw Nil True Cons by (simp add: table_result_def this_word_def)
        next
          case False
          then have "w1 @ this_word t \<noteq> w" using Cons Nil nw(3) by (simp add: this_word_def)
          then show ?thesis using st hd hw Cons Nil False cz skip
            by (subst table_loop.simps) (simp add: table_result_Cons)
        qed
      next
        case (Cons d v)
        note w2 = this
        have dz: "d \<noteq> NUL" "d \<noteq> CHR '' ''" using nw w2 by auto
        show ?thesis
        proof (cases "c = d")
          case True
          have "table_result which (((w1 @ [d]) @ this_word u) # rest_words u) w
              (table_loop tbl word CHECKWORD which (int (length (p @ [c]))) (int (length (w1 @ [d]))))"
            using less.hyps [of u CHECKWORD "p @ [c]" "w1 @ [d]" v which] tb wd w2 nt nw st \<open>t = c # u\<close> by simp
          then show ?thesis using st hd hw \<open>t = c # u\<close> w2 True dz
            by (subst table_loop.simps) (simp add: add.commute this_word_def rest_words_simps)
        next
          case False
          have "w1 @ this_word t \<noteq> w"
            using \<open>t = c # u\<close> w2 nw(3) False dz by (auto simp: this_word_def)
          then show ?thesis using st hd hw \<open>t = c # u\<close> w2 False cz dz skip
            by (subst table_loop.simps) (simp add: table_result_Cons)
        qed
      qed
    qed
  qed
qed

lemma strtable_eq:
  assumes t: "holds tbl t" and w: "holds word w" "w \<noteq> []" "CHR '' '' \<notin> set w"
  shows "table_result 0 (blank_words t) w (strtable tbl word)"
proof -
  obtain r where r: "tbl = t @ NUL # r" using holds_split [OF t] by blast
  obtain q where q: "word = w @ NUL # q" using holds_split [OF w(1)] by blast
  have nz: "NUL \<notin> set t" "NUL \<notin> set w" using holds_no_NUL t w by auto
  have rt: "rd tbl 0 = Some (if t = [] then NUL else hd t)" "rd word 0 = Some (hd w)"
    using r q w(2) by (cases t; cases w; simp add: rd_def)+
  have hw: "hd w \<noteq> NUL" using nz w(2) by (cases w) auto
  show ?thesis
  proof (cases "t = []")
    case True
    then show ?thesis using rt by (simp add: strtable_def table_result_def)
  next
    case False
    then have "hd t \<noteq> NUL" using nz by (cases t) auto
    moreover have "table_result 0 (blank_words t) w (table_loop tbl word BETWEEN (-1) 0 0)"
      using table_loop_eq [of tbl "[]" t r word "[]" w q w BETWEEN "-1" 0] r q nz w(3) by simp
    ultimately show ?thesis using rt hw False by (simp add: strtable_def)
  qed
qed

section \<open>Replacing in place\<close>

lemma match_loop_eq:
  assumes "s = p @ x @ NUL # r" and "t = q @ y @ NUL # r'" and "NUL \<notin> set x" and "NUL \<notin> set y"
  shows "match_loop s (int (length p)) t (int (length q)) = Some (prefix y x)"
  using assms
proof (induction y arbitrary: p q x)
  case Nil
  then show ?case by (subst match_loop.simps) (simp add: nth_append)
next
  case (Cons b y)
  show ?case
  proof (cases x)
    case Nil
    then show ?thesis using Cons.prems by (subst match_loop.simps) (auto simp: nth_append)
  next
    case (Cons a u)
    have ih: "a = b \<Longrightarrow> match_loop s (int (length (p @ [a]))) t (int (length (q @ [b]))) = Some (prefix y u)"
      by (rule Cons.IH) (use Cons Cons.prems in auto)
    then show ?thesis using Cons Cons.prems
      by (subst match_loop.simps) (auto simp: nth_append add.commute)
  qed
qed

lemma sindex_loop_eq:
  assumes "s = p @ x @ NUL # r" and "t = y @ NUL # r'" and "NUL \<notin> set x" and "NUL \<notin> set y"
  shows "sindex_loop s (int (length p)) t =
    Some (case first_occ y x of None \<Rightarrow> -1 | Some k \<Rightarrow> int (length p + k))"
  using assms
proof (induction x arbitrary: p)
  case Nil
  then show ?case by (subst sindex_loop.simps) (simp add: nth_append)
next
  case (Cons c x)
  have m: "match_loop s (int (length p)) t 0 = Some (prefix y (c # x))"
    using match_loop_eq [of s p "c # x" r t "[]" y r'] Cons.prems by simp
  have ih: "sindex_loop s (int (length (p @ [c]))) t =
      Some (case first_occ y x of None \<Rightarrow> -1 | Some k \<Rightarrow> int (length (p @ [c]) + k))"
    by (rule Cons.IH) (use Cons.prems in auto)
  have hd: "rd s (int (length p)) = Some c" "c \<noteq> NUL" using Cons.prems by (auto simp: nth_append)
  show ?case using m ih hd
    by (subst sindex_loop.simps) (auto simp: add.commute split: option.splits)
qed

lemma strindex_eq:
  assumes "holds s x" and "holds t y"
  shows "strindex s t = Some (case first_occ y x of None \<Rightarrow> -1 | Some k \<Rightarrow> int k)"
proof -
  obtain r r' where "s = x @ NUL # r" "t = y @ NUL # r'" using holds_split assms by metis
  then show ?thesis
    using sindex_loop_eq [of s "[]" x r t y r'] holds_no_NUL [OF assms(1)] holds_no_NUL [OF assms(2)]
    by (simp add: strindex_def split: option.splits)
qed

lemma move_up_eq:
  assumes "0 < d" and "d \<le> length q"
  shows "move_up (p @ y @ q) (int d) (int (length p)) (int (length p) + int (length y) - 1) =
    Some (take (length p + d) (p @ y @ q) @ y @ drop d q)"
  using assms
proof (induction y arbitrary: q rule: rev_induct)
  case Nil
  then show ?case by (subst move_up.simps) (simp add: append_take_drop_id [symmetric])
next
  case (snoc c y)
  obtain e where e: "d = Suc e" "e < length q" using snoc.prems by (cases d) auto
  let ?q = "c # q[e := c]"
  let ?b = "p @ (y @ [c]) @ q"
  have i: "int (length p) + int (length (y @ [c])) - 1 = int (length p + length y)" by simp
  have rd: "rd ?b (int (length p + length y)) = Some c" unfolding rd_int by (simp add: nth_append)
  have up: "?b[length p + length y + d := c] = p @ y @ ?q" using e(1) by (simp add: list_update_append)
  have wr: "wr ?b (int (length p + length y) + int d) c = Some (p @ y @ ?q)"
    using snoc.prems up wr_int [of ?b "length p + length y + d" c] by simp
  have ih: "move_up (p @ y @ ?q) (int d) (int (length p)) (int (length p) + int (length y) - 1) =
      Some (take (length p + d) (p @ y @ ?q) @ y @ drop d ?q)"
    by (rule snoc.IH) (use snoc.prems in auto)
  have "drop d ?q = c # drop d q" using e by (simp add: upd_conv_take_nth_drop)
  moreover have "take (length p + d) (p @ y @ ?q) = take (length p + d) ?b"
    unfolding up [symmetric] by (rule take_update_cancel) simp
  ultimately show ?case using i rd wr ih by (subst move_up.simps) simp
qed

lemma move_down_eq:
  assumes "0 < d" and "d \<le> length p"
  shows "\<exists>z. move_down (p @ y @ q) (- int d) (int (length p)) (int (length p) + int (length y) - 1) =
    Some (take (length p - d) p @ y @ z @ q) \<and> length z = d"
  using assms
proof (induction y arbitrary: p)
  case Nil
  then show ?case
    by (subst move_down.simps) (auto intro!: exI [of _ "drop (length p - d) p"])
next
  case (Cons c y)
  let ?p = "p[length p - d := c] @ [c]"
  have rd: "rd (p @ (c # y) @ q) (int (length p)) = Some c" by (simp add: nth_append)
  have "length p - d < length p" using Cons.prems by simp
  then have "(p @ (c # y) @ q)[length p - d := c] = ?p @ y @ q" by (simp add: list_update_append)
  then have wr: "wr (p @ (c # y) @ q) (int (length p) + - int d) c = Some (?p @ y @ q)"
    using Cons.prems wr_int [of "p @ (c # y) @ q" "length p - d" c] by (simp add: of_nat_diff)
  obtain z where z: "move_down (?p @ y @ q) (- int d) (int (length ?p)) (int (length ?p) + int (length y) - 1) =
      Some (take (length ?p - d) ?p @ y @ z @ q)" "length z = d"
    using Cons.IH [of ?p] Cons.prems by auto
  have "take (length ?p - d) ?p = take (length p - d) p @ [c]"
    using Cons.prems by (simp add: Suc_diff_le take_Suc_conv_app_nth)
  then show ?case using rd wr z by (subst move_down.simps) (auto simp: algebra_simps)
qed

lemma copy_loop_eq:
  assumes "src = a @ y @ c" and "dst = p @ z @ q" and "length z = length y"
  shows "copy_loop dst (int (length p) - int i) src (int (length a) - int i) (int (length y) + int i) (int i) =
    Some (p @ y @ q)"
  using assms
proof (induction y arbitrary: a p z dst i)
  case Nil
  then show ?case by (subst copy_loop.simps) simp
next
  case (Cons x y)
  obtain w z' where z: "z = w # z'" "length z' = length y" using Cons.prems(3) by (cases z) auto
  have rd: "rd src (int (length a)) = Some x" using Cons.prems(1) by (simp add: nth_append)
  have wr: "wr dst (int (length p)) x = Some ((p @ [x]) @ z' @ q)"
    using Cons.prems(2) z by (simp add: list_update_append)
  have "copy_loop ((p @ [x]) @ z' @ q) (int (length (p @ [x])) - int (Suc i)) src (int (length (a @ [x])) - int (Suc i))
      (int (length y) + int (Suc i)) (int (Suc i)) = Some ((p @ [x]) @ y @ q)"
    by (rule Cons.IH [of "a @ [x]" "(p @ [x]) @ z' @ q" "p @ [x]" z']) (use Cons.prems z in auto)
  then show ?case using rd wr by (subst copy_loop.simps) (simp add: algebra_simps)
qed

definition replace_first :: "string \<Rightarrow> string \<Rightarrow> string \<Rightarrow> string" where
  "replace_first x y w =
     (if y = [] then x
      else case first_occ y x of None \<Rightarrow> x | Some i \<Rightarrow> take i x @ w @ drop (i + length y) x)"

lemma stralter_eq:
  assumes x: "holds sss x" and y: "holds old y" and w: "holds new w"
    and room: "length x + length w < length sss + length y"
  shows "\<exists>sss'. stralter sss old new = Some (if x = [] \<or> y = [] \<or> first_occ y x = None then 0 else 1, sss') \<and>
    holds sss' (replace_first x y w)"
proof (cases "x = [] \<or> y = [] \<or> first_occ y x = None")
  case True
  then have "replace_first x y w = x" by (auto simp: replace_first_def)
  then show ?thesis using True x holds_slen [OF x] holds_slen [OF y] holds_slen [OF w] strindex_eq [OF x y]
    by (auto simp: stralter_def)
next
  case False
  then obtain i where i: "first_occ y x = Some i" by auto
  have pf: "prefix y (drop i x)" and ix: "i < length x" using first_occ_Some [OF i] by auto
  define u where "u = take i x"
  define v where "v = drop (i + length y) x"
  have xs: "x = u @ y @ v" unfolding u_def v_def using pf
    by (metis append_eq_conv_conj append_take_drop_id drop_drop prefix_def add.commute)
  have lu: "length u = i" using ix by (simp add: u_def)
  obtain r where r: "sss = x @ NUL # r" using holds_split [OF x] by blast
  have idx: "strindex sss old = Some (int i)" using strindex_eq [OF x y] i by simp
  note lens = holds_slen [OF x] holds_slen [OF y] holds_slen [OF w]
  have nz: "NUL \<notin> set u" "NUL \<notin> set v" "NUL \<notin> set w" using holds_no_NUL [OF x] holds_no_NUL [OF w] xs by auto
  obtain z r' where z: "shift_tail sss (int (length w) - int (length y)) (int i + int (length y)) (int (length x)) =
       Some (u @ z @ v @ NUL # r')" "length z = length w"
  proof -
    consider (grow) "length w > length y" | (shrink) "length w < length y" | (same) "length w = length y" by linarith
    then show thesis
    proof cases
      case grow
      define d where "d = length w - length y"
      have d: "0 < d" "d \<le> length r" "int (length w) - int (length y) = int d"
        using grow room r by (auto simp: d_def of_nat_diff)
      have "move_up ((u @ y) @ (v @ [NUL]) @ r) (int d) (int (length (u @ y))) (int (length (u @ y)) + int (length (v @ [NUL])) - 1) =
          Some (take (length (u @ y) + d) ((u @ y) @ (v @ [NUL]) @ r) @ (v @ [NUL]) @ drop d r)"
        by (rule move_up_eq [OF d(1,2)])
      moreover define z where "z = take (length y + d) (y @ v @ NUL # r)"
      moreover have "int (length (u @ y)) = int i + int (length y)"
        "int (length (u @ y)) + int (length (v @ [NUL])) - 1 = int (length x)" "(u @ y) @ (v @ [NUL]) @ r = sss"
        "take (length (u @ y) + d) ((u @ y) @ (v @ [NUL]) @ r) = u @ z"
        using lu xs r by (simp_all add: z_def)
      ultimately have "move_up sss (int d) (int i + int (length y)) (int (length x)) = Some (u @ z @ v @ NUL # drop d r)"
        by simp
      moreover have "length z = length w" using d grow by (simp add: z_def d_def)
      ultimately show thesis using that [of z "drop d r"] d(1,3) by (simp add: shift_tail_def)
    next
      case shrink
      define d where "d = length y - length w"
      have d: "0 < d" "d \<le> length (u @ y)" "int (length w) - int (length y) = - int d"
        using shrink by (auto simp: d_def of_nat_diff)
      obtain z where "move_down ((u @ y) @ (v @ [NUL]) @ r) (- int d) (int (length (u @ y))) (int (length (u @ y)) + int (length (v @ [NUL])) - 1) =
          Some (take (length (u @ y) - d) (u @ y) @ (v @ [NUL]) @ z @ r)" using move_down_eq [OF d(1,2)] by blast
      moreover have "take (length (u @ y) - d) (u @ y) = u @ take (length w) y" using shrink by (simp add: d_def)
      moreover have "int (length (u @ y)) = int i + int (length y)"
        "int (length (u @ y)) + int (length (v @ [NUL])) - 1 = int (length x)" "(u @ y) @ (v @ [NUL]) @ r = sss"
        using lu xs r by simp_all
      ultimately have "move_down sss (- int d) (int i + int (length y)) (int (length x)) =
          Some (u @ take (length w) y @ v @ NUL # z @ r)" by simp
      then show thesis using that [of "take (length w) y" "z @ r"] d(1,3) shrink by (simp add: shift_tail_def)
    next
      case same
      have "sss = u @ y @ v @ NUL # r" unfolding r by (subst xs) simp
      then show thesis by (intro that [of y r]) (simp_all add: same shift_tail_def)
    qed
  qed
  obtain q where q: "new = w @ NUL # q" using holds_split [OF w] by blast
  have cp: "copy_loop (u @ z @ v @ NUL # r') (int i) new 0 (int (length w)) 0 = Some (u @ w @ v @ NUL # r')"
    using copy_loop_eq [of new "[]" w "NUL # q" "u @ z @ v @ NUL # r'" u z "v @ NUL # r'" 0] q z(2) lu by simp
  have "stralter sss old new = Some (1, u @ w @ v @ NUL # r')"
    using False lens idx z(1) cp by (simp add: stralter_def)
  moreover have "holds ((u @ w @ v) @ NUL # r') (u @ w @ v)" unfolding holds_splice using nz by simp
  moreover have "replace_first x y w = u @ w @ v" using False i by (simp add: replace_first_def u_def v_def)
  ultimately show ?thesis using False by simp
qed

section \<open>Scrambling\<close>

lemma bval_xor: "bval (xor_char a b) = bval a XOR bval b"
proof -
  have "bval a XOR bval b < 2 ^ 8" by (rule XOR_upper) simp_all
  moreover have "0 \<le> bval a XOR bval b" by simp
  ultimately show ?thesis by (simp add: xor_char_def bval_byte)
qed

lemma xor_char_twice: "xor_char (xor_char a b) b = a"
  unfolding xor_char_def [of "xor_char a b"] bval_xor by (simp add: xor.assoc)

lemma xor_char_NUL: "xor_char a b = NUL \<longleftrightarrow> a = b"
proof -
  have "xor_char a b = NUL \<longleftrightarrow> bval a XOR bval b = 0" by (metis bval_eq_0 bval_xor)
  also have "\<dots> \<longleftrightarrow> bval a = bval b"
    by (metis xor.assoc xor.commute xor.left_neutral xor_self_eq)
  finally show ?thesis by simp
qed

lemma length_key: "length PLAIN_ENC_STR = 16"
  by (simp add: PLAIN_ENC_STR_def length_concat sum_list_replicate)

text \<open>Scrambling twice gives the string back, for strings of up to 16 bytes none of which meets itself in the key.\<close>

lemma strplain_twice_ok:
  assumes x: "holds str x" and len: "length x \<le> 16" and free: "\<forall>i < length x. x ! i \<noteq> PLAIN_ENC_STR ! i"
  obtains r where "strplain str = Some r" "strplain r = Some (x @ [NUL])"
proof -
  let ?f = "\<lambda>(a, b). xor_char a b"
  let ?y = "map ?f (zip x PLAIN_ENC_STR)"
  have 1: "strplain str = Some (?y @ [NUL])" using x by (simp add: strplain_def holds_def)
  have ly: "length ?y = length x" using len by (simp add: length_key)
  have "NUL \<notin> set ?y" using free by (auto simp: set_zip xor_char_NUL dest: sym)
  then have cy: "cstr (?y @ [NUL]) = ?y" by (rule cstr_append_NUL)
  have "map ?f (zip ?y PLAIN_ENC_STR) = x"
    by (rule nth_equalityI) (use len length_key in \<open>auto simp: xor_char_twice\<close>)
  then have "strplain (?y @ [NUL]) = Some (x @ [NUL])" unfolding strplain_def cy by simp
  then show thesis using that 1 by blast
qed

section \<open>Numbers in strings\<close>

lemma blank_loop_eq:
  assumes "b = p @ replicate k (CHR '' '') @ c # r" and "c \<noteq> CHR '' ''"
  shows "blank_loop b (int (length p)) = Some (int (length p + k))"
  using assms
proof (induction k arbitrary: p)
  case 0
  then show ?case by (subst blank_loop.simps) (simp add: nth_append)
next
  case (Suc k)
  have "blank_loop b (int (length (p @ [CHR '' '']))) = Some (int (length (p @ [CHR '' '']) + k))"
    by (rule Suc.IH) (use Suc.prems in auto)
  then show ?case using Suc.prems by (subst blank_loop.simps) (simp add: nth_append add.commute)
qed

definition num_value :: "int \<Rightarrow> string \<Rightarrow> int" where
  "num_value r x = foldl (\<lambda>r c. 10 * r + cf_value (bval c)) r x"

lemma scan_loop_eq:
  assumes "b = p @ x @ c # r" and "\<forall>d \<in> set x. cf_digit (bval d)" and "\<not> cf_digit (bval c)"
  shows "scan_loop b (int (length p)) (wrap32 v) = Some (int (length p + length x), wrap32 (num_value v x))"
  using assms
proof (induction x arbitrary: p v)
  case Nil
  then show ?case by (subst scan_loop.simps) (simp add: nth_append num_value_def)
next
  case (Cons d x)
  let ?v = "10 * v + cf_value (bval d)"
  have w: "wrap32 (10 * wrap32 v + cf_value (bval d)) = wrap32 ?v"
    using wrap32_mod [of v 10 "cf_value (bval d)"] by (simp add: mult.commute)
  have "scan_loop b (int (length (p @ [d]))) (wrap32 ?v) = Some (int (length (p @ [d]) + length x), wrap32 (num_value ?v x))"
    by (rule Cons.IH) (use Cons.prems in auto)
  then show ?case using Cons.prems w
    by (subst scan_loop.simps) (simp add: nth_append add.commute num_value_def)
qed

lemma show_nat_digits: "c \<in> set (show_nat n) \<Longrightarrow> cf_digit (bval c)"
  using show_nat_range by (simp add: cf_digit_def)

lemma num_value_show: "num_value 0 (show_nat n) = int n"
  using dval_show [of n] by (simp add: num_value_def dval_def cf_value_def)

section \<open>Reading numbers back\<close>

lemma strscan_show:
  assumes b: "b = p @ show_nat n @ NUL # r"
  shows "strscan b (Some (int (length p))) = Some (wrap32 (int n), Some (int (length p + length (show_nat n))))"
proof -
  obtain d ds where d: "show_nat n = d # ds" using show_nat_not_Nil by (metis list.exhaust)
  have dg: "cf_digit (bval d)" using show_nat_digits [of d n] d by simp
  then have nb: "d \<noteq> CHR '' ''" by (auto simp: cf_digit_def bval_def)
  have "blank_loop b (int (length p)) = Some (int (length p))"
    using blank_loop_eq [of b p 0 d "ds @ NUL # r"] b d nb by simp
  moreover have "rd b (int (length p)) = Some d" using b d by (simp add: rd_def nth_append)
  moreover have "scan_loop b (int (length p)) (wrap32 0) =
      Some (int (length p + length (show_nat n)), wrap32 (num_value 0 (show_nat n)))"
    by (rule scan_loop_eq [OF b]) (use show_nat_digits in \<open>auto simp: cf_digit_def\<close>)
  ultimately show ?thesis using dg num_value_show by (simp add: strscan_def wrap32_id)
qed

lemma strnum_show:
  assumes b: "b = replicate k (CHR '' '') @ show_int v @ NUL # r" and v: "- (2 ^ 31) \<le> v" "v < 2 ^ 31"
  shows "strnum b v0 = Some (1, v)"
proof -
  let ?sp = "replicate k (CHR '' '')"
  obtain d ds where d: "show_int v = d # ds" using show_nat_not_Nil by (auto simp: show_int_def split: if_splits) (metis list.exhaust)
  have nd: "d \<noteq> CHR '' '' \<and> (d = CHR ''-'' \<longleftrightarrow> v < 0)"
  proof (cases "v < 0")
    case True
    then have "CHR ''-'' = d" using d by (simp add: show_int_def)
    moreover have "CHR ''-'' \<noteq> CHR 0x20" by simp
    ultimately show ?thesis using True by blast
  next
    case False
    then have "d \<in> set (show_nat (nat v))" using d by (simp add: show_int_def)
    then have "48 \<le> bval d" using show_nat_range by blast
    then show ?thesis using False by (auto simp: bval_def)
  qed
  have 1: "blank_loop b 0 = Some (int k)" using blank_loop_eq [of b "[]" k d "ds @ NUL # r"] b d nd by simp
  have 2: "rd b (int k) = Some d" using b d by (simp add: rd_def nth_append)
  show ?thesis
  proof (cases "v < 0")
    case True
    have "b = (?sp @ [CHR ''-'']) @ show_nat (nat (- v)) @ NUL # r" using b True by (simp add: show_int_def)
    from strscan_show [OF this]
    have "strscan b (Some (int k + 1)) = Some (wrap32 (- v), Some (int (Suc k + length (show_nat (nat (- v))))))"
      using True by (simp add: add.commute)
    moreover have "wrap32 (- wrap32 (- v)) = v"
      using wrap32_mod [of "- v" "-1" 0] wrap32_id [OF v(1), unfolded mult_minus1] v by (simp add: wrap32_id)
    ultimately show ?thesis using 1 2 nd True show_nat_not_Nil [of "nat (- v)"] by (simp add: strnum_def)
  next
    case False
    have "b = ?sp @ show_nat (nat v) @ NUL # r" using b False by (simp add: show_int_def)
    from strscan_show [OF this]
    have "strscan b (Some (int k)) = Some (v, Some (int (k + length (show_nat (nat v)))))" using False v by (simp add: wrap32_id)
    then show ?thesis using 1 2 nd False show_nat_not_Nil [of "nat v"] by (simp add: strnum_def)
  qed
qed

section \<open>Properties\<close>

text \<open>
  C40. Base 36 round trip: writing a number with \<open>strito36\<close> (upper case digits, padded with zeros to the asked
  length) and reading it with \<open>str36toi\<close> gives the number back, for every non-negative \<open>int4\<close> and every buffer
  with room for the digits. Reading leaves the buffer as it is.
\<close>

theorem base36_round_trip:
  assumes "max (length (d36 n)) len < length b" and "int n < 2 ^ 31"
  shows "\<exists>b'. strito36 b (int n) (int len) = Some b' \<and> length (cstr b') = max (length (d36 n)) len \<and>
    str36toi b' = Some (int n, b')"
proof -
  obtain b' where b': "strito36 b (int n) (int len) = Some b'" "holds b' (text36 n len)"
    using strito36_eq [OF assms(1)] by blast
  have "str36toi b' = Some (wrap32 (val36 0 (text36 n len)), b')"
    by (rule str36toi_eq [OF b'(2)]) (use text36_chars in blast)
  moreover have "val36 0 (text36 n len) = int n" by (simp add: text36_def val36_zeros val36_rev)
  moreover have "length (cstr b') = max (length (d36 n)) len" using b'(2) by (simp add: holds_def text36_def)
  ultimately show ?thesis using b'(1) assms(2) by (simp add: wrap32_id)
qed

theorem base36_round_trip_witness:
  "\<exists>b'. strito36 (replicate 12 NUL) (int 12345) (int 5) = Some b' \<and> length (cstr b') = 5 \<and> str36toi b' = Some (12345, b')"
proof -
  have l: "length (d36 12345) = 3" by (simp add: d36.simps)
  show ?thesis using base36_round_trip [of 12345 5 "replicate 12 NUL"] unfolding l by simp
qed

text \<open>
  Decimal round trip: \<open>strnum\<close> on a C string that holds any number of blanks and the decimal digits of an
  \<open>int4\<close> stores exactly that value and returns 1, from the smallest to the largest value.
\<close>

theorem strnum_round_trip:
  assumes "- (2 ^ 31) \<le> v" and "v < 2 ^ 31"
  shows "strnum (replicate k (CHR 0x20) @ show_int v @ NUL # r) v0 = Some (1, v)"
  by (rule strnum_show [OF refl assms])

theorem strnum_round_trip_witness:
  "strnum (replicate 2 (CHR 0x20) @ show_int (-2147483648) @ NUL # []) 0 = Some (1, -2147483648)"
  by (rule strnum_round_trip) simp_all

text \<open>
  \<open>strtable\<close> looks a word up in a blank-separated table: it returns the index of the first entry equal to the
  word and a negative number when there is none, and neither argument is read behind its end.
\<close>

theorem strtable_first:
  assumes "holds tbl t" and "holds word w" and "w \<noteq> []" and "CHR 0x20 \<notin> set w"
  shows "\<exists>r. strtable tbl word = Some r \<and>
    (if w \<in> set (blank_words t)
     then 0 \<le> r \<and> nat r < length (blank_words t) \<and> blank_words t ! nat r = w \<and> (\<forall>j < nat r. blank_words t ! j \<noteq> w)
     else r < 0)"
proof -
  have t: "table_result 0 (blank_words t) w (strtable tbl word)" by (rule strtable_eq [OF assms])
  show ?thesis
  proof (cases "index_in (blank_words t) w")
    case None
    then have "w \<notin> set (blank_words t)" by (simp add: index_in_None)
    then show ?thesis using t None by (auto simp: table_result_def)
  next
    case (Some i)
    note f = index_in_Some [OF Some]
    then have "w \<in> set (blank_words t)" by auto
    then show ?thesis using t Some f by (simp add: table_result_def)
  qed
qed

theorem strtable_first_witness:
  "\<exists>r. strtable (''add delete show'' @ [NUL]) (''show'' @ [NUL]) = Some r \<and>
    (if ''show'' \<in> set (blank_words ''add delete show'')
     then 0 \<le> r \<and> nat r < length (blank_words ''add delete show'') \<and> blank_words ''add delete show'' ! nat r = ''show'' \<and>
       (\<forall>j < nat r. blank_words ''add delete show'' ! j \<noteq> ''show'')
     else r < 0)"
  by (rule strtable_first) (simp_all add: holds_def)

text \<open>
  \<open>stralter\<close> replaces the first occurrence in place, for a replacement that is shorter, longer or equal: when
  the buffer has room for the result, no byte outside it is written, the result is the old text with
  its first occurrence of \<open>old\<close> replaced, and the value is 1; 0 and an unchanged text when there is none.
\<close>

theorem stralter_in_place:
  assumes "holds sss x" and "holds old y" and "holds new w" and "length x + length w < length sss + length y" and "y \<noteq> []"
  shows "\<exists>r sss'. stralter sss old new = Some (r, sss') \<and>
    (r = 0 \<and> holds sss' x \<and> (\<forall>i < length x. \<not> prefix y (drop i x)) \<or>
     r = 1 \<and> (\<exists>u v. x = u @ y @ v \<and> holds sss' (u @ w @ v) \<and> (\<forall>i < length u. \<not> prefix y (drop i x))))"
proof -
  obtain sss' where s: "stralter sss old new = Some (if x = [] \<or> y = [] \<or> first_occ y x = None then 0 else 1, sss')"
      "holds sss' (replace_first x y w)"
    using stralter_eq [OF assms(1-4)] by blast
  show ?thesis
  proof (cases "first_occ y x")
    case None
    then have "replace_first x y w = x" by (simp add: replace_first_def)
    then show ?thesis using s None by (simp add: first_occ_None)
  next
    case (Some k)
    note f = first_occ_Some [OF Some]
    then obtain v where "drop k x = y @ v" by (auto simp: prefix_def)
    then have x: "x = take k x @ y @ v" "drop (k + length y) x = v"
      by (metis append_take_drop_id, metis add.commute append_eq_conv_conj drop_drop)
    have len: "length (take k x) = k" using f by simp
    have ne: "x \<noteq> []" using f by auto
    have "holds sss' (take k x @ w @ v)" using s(2) Some assms(5) x(2) by (simp add: replace_first_def)
    then have "\<exists>u v. x = u @ y @ v \<and> holds sss' (u @ w @ v) \<and> (\<forall>i < length u. \<not> prefix y (drop i x))"
      using x(1) f len by metis
    then show ?thesis using s(1) Some assms(5) ne by (intro exI [of _ 1] exI [of _ sss']) simp
  qed
qed

theorem stralter_in_place_witness:
  "\<exists>r sss'. stralter (''a cat'' @ replicate 5 NUL) (''cat'' @ [NUL]) (''lion'' @ [NUL]) = Some (r, sss') \<and>
    (r = 0 \<and> holds sss' ''a cat'' \<and> (\<forall>i < length ''a cat''. \<not> prefix ''cat'' (drop i ''a cat'')) \<or>
     r = 1 \<and> (\<exists>u v. ''a cat'' = u @ ''cat'' @ v \<and> holds sss' (u @ ''lion'' @ v) \<and> (\<forall>i < length u. \<not> prefix ''cat'' (drop i ''a cat''))))"
  by (rule stralter_in_place) (simp_all add: holds_def numeral_eq_Suc)

text \<open>
  The password cipher is its own inverse: for a text of at most 16 characters that meets the key nowhere,
  \<open>strplain\<close> applied twice returns the text. (A character equal to the key's at the same place becomes a
  zero byte and cuts the text off there.)
\<close>

theorem strplain_involution:
  assumes "holds str x" and "length x \<le> 16" and "\<forall>i < length x. x ! i \<noteq> PLAIN_ENC_STR ! i"
  shows "\<exists>r. strplain str = Some r \<and> strplain r = Some (x @ [NUL])"
  using strplain_twice_ok [OF assms] by metis

theorem strplain_involution_witness:
  "\<exists>r. strplain (''secret'' @ [NUL]) = Some r \<and> strplain r = Some (''secret'' @ [NUL])"
  by (rule strplain_involution) (simp_all add: holds_def PLAIN_ENC_STR_def, code_simp)

end
