(* ===== verification/Ranges.thy ===== *)
theory Ranges
  imports ChixToken Rlist Str
begin

text \<open>
  Numeric ranges such as \<open>1-3, 7\<close> (\<open>CV2/gen/numtorl.c\<close> and \<open>CV2/gen/parsenum.c\<close>): \<open>num_to_rl\<close> turns the text into
  a response list, \<open>parsenum\<close> marks the items in an array. Both walk over the text with \<open>chxvalue\<close> and
  \<open>chxint4\<close> and differ in what they do at a number and at a dash; the locale \<open>range_scan\<close> holds what they
  share. The local \<open>item1\<close> is not initialised in either function: its first value is a parameter.
\<close>

section \<open>The functions\<close>

definition max_c :: "int \<Rightarrow> int \<Rightarrow> int" where "max_c a b = (if a > b then a else b)"
definition min_c :: "int \<Rightarrow> int \<Rightarrow> int" where "min_c a b = (if a < b then a else b)"

record num_state =
  n_rl   :: Rlist
  n_this :: nat
  n_add  :: bool
  n_item :: int

definition num_digit :: "int \<Rightarrow> int \<Rightarrow> num_state \<Rightarrow> num_state option" where
  "num_digit first item1 st = do {
     (k, ps) \<leftarrow> add_to_rlist (drop (n_this st) (n_rl st)) item1 first (-1);
     Some (st\<lparr>n_rl := take (n_this st) (n_rl st) @ ps, n_this := n_this st + k, n_add := True, n_item := item1\<rparr>) }"

definition num_dash :: "int \<Rightarrow> num_state \<Rightarrow> num_state option" where
  "num_dash item2 st =
     (let st = st\<lparr>n_item := max_c (n_item st) 1\<rparr> in do {
        st \<leftarrow> (if \<not> n_add st then Some st
               else case drop (n_this st) (n_rl st) of [] \<Rightarrow> None
                 | p # ps \<Rightarrow> Some (st\<lparr>n_rl := take (n_this st) (n_rl st) @ p\<lparr>i1 := wrap16 item2\<rparr> # ps\<rparr>));
        Some (st\<lparr>n_add := False\<rparr>) })"

partial_function (option) num_loop ::
  "Chix \<Rightarrow> int \<Rightarrow> int \<Rightarrow> num_state \<Rightarrow> chx_state \<Rightarrow> (num_state \<times> chx_state) option" where
  "num_loop rng first pos st s = do {
     (val, s) \<leftarrow> chxvalue rng pos s;
     if val = 0 then Some (st, s)
     else if cf_digit val then do {
       (item1, p, s) \<leftarrow> chxint4 rng (Some pos) s;
       st \<leftarrow> num_digit first item1 st;
       num_loop rng first (the p) st s }
     else if val = 45 then do {
       (item2, p, s) \<leftarrow> chxint4 rng (Some (pos + 1)) s;
       st \<leftarrow> num_dash item2 st;
       num_loop rng first (the p) st s }
     else if val = 32 \<or> val = 44 then num_loop rng first (pos + 1) (st\<lparr>n_add := False\<rparr>) s
     else Some (st, s) }"

text \<open>The result: the place of the node returned, and the chain from \<open>oldptr\<close> on.\<close>

definition num_to_rl :: "Rlist \<Rightarrow> Chix \<Rightarrow> int \<Rightarrow> int \<Rightarrow> chx_state \<Rightarrow> (nat \<times> Rlist \<times> chx_state) option" where
  "num_to_rl oldptr rng first garbage s = do {
     (st, s) \<leftarrow> num_loop rng first 0 \<lparr>n_rl = oldptr, n_this = 0, n_add = False, n_item = garbage\<rparr> s;
     Some (n_this st, n_rl st, s) }"

record pn_state =
  p_flags :: "int list"
  p_success :: int
  p_item  :: int

definition pn_digit :: "int \<Rightarrow> int \<Rightarrow> int \<Rightarrow> pn_state \<Rightarrow> pn_state option" where
  "pn_digit max_items mark item1 st =
     (if item1 > 0 \<and> item1 \<le> max_items
      then do { f \<leftarrow> upd_idx (p_flags st) item1 (wrap16 mark); Some (st\<lparr>p_flags := f, p_success := 1, p_item := item1\<rparr>) }
      else Some (st\<lparr>p_item := item1\<rparr>))"

function mark_loop :: "int \<Rightarrow> int \<Rightarrow> int \<Rightarrow> pn_state \<Rightarrow> pn_state option" where
  "mark_loop i item2 mark st =
     (if i \<le> item2
      then (case upd_idx (p_flags st) i (wrap16 mark) of None \<Rightarrow> None
            | Some f \<Rightarrow> mark_loop (i + 1) item2 mark (st\<lparr>p_flags := f, p_success := 1\<rparr>))
      else Some st)"
  by pat_completeness auto
termination
  by (relation "measure (\<lambda>(i, item2, mark, st). nat (item2 + 1 - i))") auto

declare mark_loop.simps [simp del]

definition pn_dash :: "int \<Rightarrow> int \<Rightarrow> int \<Rightarrow> pn_state \<Rightarrow> pn_state option" where
  "pn_dash max_items mark item2 st =
     (let st = st\<lparr>p_item := max_c (p_item st) 1\<rparr>
      in mark_loop (p_item st) (min_c item2 max_items) mark st)"

partial_function (option) parsenum_loop ::
  "Chix \<Rightarrow> int \<Rightarrow> int \<Rightarrow> int \<Rightarrow> pn_state \<Rightarrow> chx_state \<Rightarrow> (pn_state \<times> chx_state) option" where
  "parsenum_loop rng max_items mark pos st s = do {
     (val, s) \<leftarrow> chxvalue rng pos s;
     if val = 0 then Some (st, s)
     else if cf_digit val then do {
       (item1, p, s) \<leftarrow> chxint4 rng (Some pos) s;
       st \<leftarrow> pn_digit max_items mark item1 st;
       parsenum_loop rng max_items mark (the p) st s }
     else if val = 45 then do {
       (item2, p, s) \<leftarrow> chxint4 rng (Some (pos + 1)) s;
       st \<leftarrow> pn_dash max_items mark item2 st;
       parsenum_loop rng max_items mark (the p) st s }
     else if val = 32 \<or> val = 44 then parsenum_loop rng max_items mark (pos + 1) st s
     else Some (st, s) }"

definition parsenum :: "Chix \<Rightarrow> int list \<Rightarrow> int \<Rightarrow> int \<Rightarrow> int \<Rightarrow> chx_state \<Rightarrow> (int \<times> int list \<times> chx_state) option" where
  "parsenum rng flags max_items mark garbage s = do {
     (st, s) \<leftarrow> parsenum_loop rng max_items mark 0 \<lparr>p_flags = flags, p_success = 0, p_item = garbage\<rparr> s;
     Some (p_success st, p_flags st, s) }"

section \<open>Texts of ranges\<close>

datatype sel = One int | Upto int int

fun sel_text :: "sel \<Rightarrow> string" where
  "sel_text (One a) = show_int a"
| "sel_text (Upto a b) = show_int a @ [CHR ''-''] @ show_int b"

fun sel_items :: "sel \<Rightarrow> int set" where
  "sel_items (One a) = {a}"
| "sel_items (Upto a b) = {a .. b}"

fun sel_ok :: "sel \<Rightarrow> bool" where
  "sel_ok (One a) \<longleftrightarrow> 0 \<le> a \<and> a < 2 ^ 15"
| "sel_ok (Upto a b) \<longleftrightarrow> 0 \<le> a \<and> a \<le> b \<and> b < 2 ^ 15"

text \<open>A text of ranges: each is followed by blanks and commas, at least one unless it is the last.\<close>

fun sels_text :: "(sel \<times> string) list \<Rightarrow> string" where
  "sels_text [] = []"
| "sels_text ((x, sep) # xs) = sel_text x @ sep @ sels_text xs"

fun seps_ok :: "(sel \<times> string) list \<Rightarrow> bool" where
  "seps_ok [] \<longleftrightarrow> True"
| "seps_ok ((x, sep) # xs) \<longleftrightarrow> set sep \<subseteq> {CHR '' '', CHR '',''} \<and> (xs = [] \<or> sep \<noteq> []) \<and> seps_ok xs"

text \<open>What a scan does with such a text, by the actions at a number, at a dash and at a separator.\<close>

fun act :: "(int \<Rightarrow> 'r \<Rightarrow> 'r option) \<Rightarrow> (int \<Rightarrow> 'r \<Rightarrow> 'r option) \<Rightarrow> sel \<Rightarrow> 'r \<Rightarrow> 'r option" where
  "act num dash (One a) r = num a r"
| "act num dash (Upto a b) r = do { r \<leftarrow> num a r; dash b r }"

fun acts :: "(int \<Rightarrow> 'r \<Rightarrow> 'r option) \<Rightarrow> (int \<Rightarrow> 'r \<Rightarrow> 'r option) \<Rightarrow> ('r \<Rightarrow> 'r) \<Rightarrow> (sel \<times> string) list \<Rightarrow> 'r \<Rightarrow> 'r option" where
  "acts num dash gap [] r = Some r"
| "acts num dash gap ((x, sep) # xs) r = do { r \<leftarrow> act num dash x r; acts num dash gap xs (if sep = [] then r else gap r) }"

section \<open>Scanning\<close>

locale range_scan =
  fixes loop :: "Chix \<Rightarrow> int \<Rightarrow> 'r \<Rightarrow> chx_state \<Rightarrow> ('r \<times> chx_state) option"
    and num dash :: "int \<Rightarrow> 'r \<Rightarrow> 'r option" and gap :: "'r \<Rightarrow> 'r"
  assumes turn: "loop rng pos r s = do {
       (val, s) \<leftarrow> chxvalue rng pos s;
       if val = 0 then Some (r, s)
       else if cf_digit val then do { (v, p, s) \<leftarrow> chxint4 rng (Some pos) s; r \<leftarrow> num v r; loop rng (the p) r s }
       else if val = 45 then do { (v, p, s) \<leftarrow> chxint4 rng (Some (pos + 1)) s; r \<leftarrow> dash v r; loop rng (the p) r s }
       else if val = 32 \<or> val = 44 then loop rng (pos + 1) (gap r) s
       else Some (r, s) }"
    and gap_gap: "gap (gap r) = gap r"
begin

lemma at_end:
  assumes s: "int4_ready s" and a: "sview s a = Some p"
  obtains s' where "loop (Some a) (int (length p)) r s = Some (r, s')" "int4_ready s'" "sview s' = sview s"
proof -
  obtain s1 where s1: "chxvalue (Some a) (int (length p)) s = Some (char_at p (int (length p)), s1)" "chx_to s (sview s) s1"
    by (rule chxvalue_ok [OF int4_readyD(1) [OF s] a of_nat_0_le_iff])
  then show thesis using that int4_ready_chx_to [OF s s1(2)] by (subst (asm) turn) (simp add: char_at_def)
qed

lemma at_number:
  assumes s: "int4_ready s" and a: "sview s a = Some (p @ show_int v @ t)" and v: "0 \<le> v" "v < 2 ^ 31"
    and t: "t = [] \<or> \<not> is_digit (hd t)"
  obtains s' where "loop (Some a) (int (length p)) r s =
      do { r \<leftarrow> num v r; loop (Some a) (int (length p + length (show_int v))) r s' }" "int4_ready s'" "sview s' = sview s"
proof -
  have x: "show_int v = show_nat (nat v)" using v by (simp add: show_int_def)
  obtain c u where c: "show_nat (nat v) = c # u" using show_nat_not_Nil by (metis list.exhaust)
  have dc: "cf_digit (bval c)" using is_digit_show [of c "nat v"] c by (simp add: is_digit_def digit_def cf_digit_def)
  obtain s1 where s1: "chxvalue (Some a) (int (length p)) s = Some (bval c, s1)" "chx_to s (sview s) s1"
    using chxvalue_ok [OF int4_readyD(1) [OF s] a, of "int (length p)"] x c by (auto simp: char_at_def nth_append)
  note r1 = int4_ready_chx_to [OF s s1(2)]
  have lo: "- (2 ^ 31) \<le> v" using v by simp
  obtain s2 where s2: "chxint4 (Some a) (Some (int (length p))) s1 = Some (v, Some (int (length p + length (show_int v))), s2)"
      "int4_ready s2" "sview s2 = sview s1"
    by (rule chxint4_show [of s1 a p v t]) (use r1 a lo v t in auto)
  have "bval c \<noteq> 0" using dc by (auto simp: cf_digit_def)
  then have "loop (Some a) (int (length p)) r s =
      do { r \<leftarrow> num v r; loop (Some a) (int (length p + length (show_int v))) r s2 }"
    using s1(1) s2(1) dc by (subst turn) simp
  then show thesis using that s2(2,3) r1 by simp
qed

lemma at_dash:
  assumes s: "int4_ready s" and a: "sview s a = Some (p @ CHR ''-'' # show_int v @ t)" and v: "0 \<le> v" "v < 2 ^ 31"
    and t: "t = [] \<or> \<not> is_digit (hd t)"
  obtains s' where "loop (Some a) (int (length p)) r s =
      do { r \<leftarrow> dash v r; loop (Some a) (int (Suc (length p) + length (show_int v))) r s' }" "int4_ready s'" "sview s' = sview s"
proof -
  have m: "bval (CHR ''-'') = 45" by (simp add: bval_def)
  obtain s1 where s1: "chxvalue (Some a) (int (length p)) s = Some (45, s1)" "chx_to s (sview s) s1"
    using chxvalue_ok [OF int4_readyD(1) [OF s] a, of "int (length p)"] m by (auto simp: char_at_def nth_append)
  note r1 = int4_ready_chx_to [OF s s1(2)]
  have lo: "- (2 ^ 31) \<le> v" using v by simp
  obtain s2 where s2: "chxint4 (Some a) (Some (int (length (p @ [CHR ''-''])))) s1 =
       Some (v, Some (int (length (p @ [CHR ''-'']) + length (show_int v))), s2)"
      "int4_ready s2" "sview s2 = sview s1"
    by (rule chxint4_show [of s1 a "p @ [CHR ''-'']" v t]) (use r1 a lo v t in auto)
  have "loop (Some a) (int (length p)) r s =
      do { r \<leftarrow> dash v r; loop (Some a) (int (Suc (length p) + length (show_int v))) r s2 }"
    using s1(1) s2(1) by (subst turn) (simp add: cf_digit_def add.commute)
  then show thesis using that s2(2,3) r1 by simp
qed

lemma at_seps:
  assumes "int4_ready s" and "sview s a = Some (p @ sep @ t)" and "set sep \<subseteq> {CHR '' '', CHR '',''}"
  obtains s' where "loop (Some a) (int (length p)) r s = loop (Some a) (int (length p + length sep)) (if sep = [] then r else gap r) s'"
    "int4_ready s'" "sview s' = sview s"
  using assms
proof (induction sep arbitrary: p r s thesis)
  case Nil
  then show ?case by simp
next
  case (Cons c sep)
  have v: "bval c = 32 \<or> bval c = 44" using Cons.prems(4) by (auto simp: bval_def)
  obtain s1 where s1: "chxvalue (Some a) (int (length p)) s = Some (bval c, s1)" "chx_to s (sview s) s1"
    using chxvalue_ok [OF int4_readyD(1) [OF Cons.prems(2)] Cons.prems(3), of "int (length p)"] by (auto simp: char_at_def nth_append)
  note r1 = int4_ready_chx_to [OF Cons.prems(2) s1(2)]
  have l: "loop (Some a) (int (length p)) r s = loop (Some a) (int (length (p @ [c]))) (gap r) s1"
    using s1(1) v by (subst turn) (auto simp: cf_digit_def add.commute)
  obtain s2 where "loop (Some a) (int (length (p @ [c]))) (gap r) s1 =
       loop (Some a) (int (length (p @ [c]) + length sep)) (if sep = [] then gap r else gap (gap r)) s2"
     "int4_ready s2" "sview s2 = sview s1"
    by (rule Cons.IH [of "p @ [c]" "gap r" s1]) (use r1 Cons.prems(3,4) in auto)
  then show ?case using Cons.prems(1) [of s2] l r1 gap_gap by simp
qed

lemma at_sel:
  assumes s: "int4_ready s" and a: "sview s a = Some (p @ sel_text x @ t)" and x: "sel_ok x" and t: "t = [] \<or> \<not> is_digit (hd t)"
  obtains s' where "loop (Some a) (int (length p)) r s =
      do { r \<leftarrow> act num dash x r; loop (Some a) (int (length p + length (sel_text x))) r s' }" "int4_ready s'" "sview s' = sview s"
proof (cases x)
  case (One v)
  show thesis by (rule at_number [of s a p v t r]) (use s a x t One that in auto)
next
  case (Upto v w)
  have nd: "\<not> is_digit (CHR ''-'')" by (simp add: is_digit_def digit_def bval_def)
  have vw: "0 \<le> v" "v < 2 ^ 31" "0 \<le> w" "w < 2 ^ 31" using x Upto by auto
  obtain s1 where s1: "loop (Some a) (int (length p)) r s =
      do { r \<leftarrow> num v r; loop (Some a) (int (length p + length (show_int v))) r s1 }" "int4_ready s1" "sview s1 = sview s"
    by (rule at_number [of s a p v "CHR ''-'' # show_int w @ t" r]) (use s a vw nd Upto in auto)
  have "\<exists>s'. loop (Some a) (int (length p)) r s =
      do { r \<leftarrow> act num dash x r; loop (Some a) (int (length p + length (sel_text x))) r s' } \<and> int4_ready s' \<and> sview s' = sview s"
  proof (cases "num v r")
    case None
    then show ?thesis using s1 Upto s by auto
  next
    case (Some r1)
    obtain s2 where "loop (Some a) (int (length (p @ show_int v))) r1 s1 =
        do { r \<leftarrow> dash w r1; loop (Some a) (int (Suc (length (p @ show_int v)) + length (show_int w))) r s2 }"
      "int4_ready s2" "sview s2 = sview s1"
      by (rule at_dash [of s1 a "p @ show_int v" w t r1]) (use s1 a vw t Upto in auto)
    then show ?thesis using s1 Upto Some by (auto simp: add.assoc)
  qed
  then show thesis using that by blast
qed

lemma scan_sels:
  assumes "int4_ready s" and "sview s a = Some (p @ sels_text xs)" and "seps_ok xs" and "\<forall>(x, sep) \<in> set xs. sel_ok x"
  shows "\<exists>s'. loop (Some a) (int (length p)) r s = map_option (\<lambda>r. (r, s')) (acts num dash gap xs r) \<and>
    int4_ready s' \<and> sview s' = sview s"
  using assms
proof (induction xs arbitrary: p r s)
  case Nil
  then have "sview s a = Some p" by simp
  then obtain s1 where "loop (Some a) (int (length p)) r s = Some (r, s1)" "int4_ready s1" "sview s1 = sview s"
    by (rule at_end [OF Nil.prems(1)])
  then show ?case by auto
next
  case (Cons xsep xs)
  obtain x sep where x: "xsep = (x, sep)" by (cases xsep)
  let ?t = "sep @ sels_text xs"
  have hd: "?t = [] \<or> \<not> is_digit (hd ?t)"
    using Cons.prems(3) x by (cases sep) (auto simp: is_digit_def digit_def bval_def)
  obtain s1 where s1: "loop (Some a) (int (length p)) r s =
      do { r \<leftarrow> act num dash x r; loop (Some a) (int (length p + length (sel_text x))) r s1 }" "int4_ready s1" "sview s1 = sview s"
    by (rule at_sel [of s a p x ?t r]) (use Cons.prems x hd in auto)
  show ?case
  proof (cases "act num dash x r")
    case None
    then show ?thesis using s1 Cons.prems(1) x by auto
  next
    case (Some r1)
    let ?q = "p @ sel_text x" and ?g = "if sep = [] then r1 else gap r1"
    obtain s2 where s2: "loop (Some a) (int (length ?q)) r1 s1 = loop (Some a) (int (length ?q + length sep)) ?g s2"
      "int4_ready s2" "sview s2 = sview s1"
      by (rule at_seps [of s1 a ?q sep "sels_text xs" r1]) (use s1 Cons.prems x in auto)
    have "\<exists>s'. loop (Some a) (int (length (?q @ sep))) ?g s2 = map_option (\<lambda>r. (r, s')) (acts num dash gap xs ?g) \<and>
        int4_ready s' \<and> sview s' = sview s2"
      by (rule Cons.IH) (use s2 s1 Cons.prems x in auto)
    then show ?thesis using s1 s2 Some x by (auto simp: add.assoc)
  qed
qed

end

interpretation nr: range_scan "\<lambda>rng. num_loop rng first" "num_digit first" num_dash "\<lambda>st. st\<lparr>n_add := False\<rparr>"
  for first
  by unfold_locales (subst num_loop.simps, simp_all)

interpretation pn: range_scan "\<lambda>rng. parsenum_loop rng max_items mark" "pn_digit max_items mark" "pn_dash max_items mark" "\<lambda>st. st"
  for max_items mark
  by unfold_locales (subst parsenum_loop.simps, simp_all)

section \<open>Response lists from a text\<close>

text \<open>
  The state between two ranges: the node in hand is the last one of the chain, the chain stands for \<open>d\<close>.
  Behind a number the node in hand ends with it and may still be extended by a dash.
\<close>

definition num_at :: "(int \<times> int) set \<Rightarrow> num_state \<Rightarrow> bool" where
  "num_at d st \<longleftrightarrow> (\<exists>ps. n_rl st = a_mak_rlist # ps \<and> n_this st = length ps \<and> den (n_rl st) = d)"

definition num_open :: "int \<Rightarrow> int \<Rightarrow> num_state \<Rightarrow> bool" where
  "num_open first v st \<longleftrightarrow> n_add st \<and> (\<exists>ps p. n_rl st = a_mak_rlist # ps @ [p] \<and> i0 p \<le> v \<and> i1 p = v \<and> r0 p = first \<and> r1 p = -1)"

lemma num_at_gap: "num_at d st \<Longrightarrow> num_at d (st\<lparr>n_add := b\<rparr>)"
  by (simp add: num_at_def)

definition tidy :: "num_state \<Rightarrow> bool" where
  "tidy st \<longleftrightarrow> (\<forall>p \<in> set (tl (n_rl st)). i0 p \<le> i1 p)"

lemma high_minus_1 [simp]: "high (-1) = HIGHBOUND"
  by (simp add: high_def)

lemma num_digit_ok:
  assumes st: "num_at d st" "tidy st" and v: "0 \<le> v" "v < 2 ^ 15" and f: "- (2 ^ 15) \<le> first" "first < 2 ^ 15"
  obtains st' where "num_digit first v st = Some st'" "num_at (d \<union> {v} \<times> {high first .. HIGHBOUND}) st'" "num_open first v st'" "tidy st'"
proof -
  obtain ps where ps: "n_rl st = a_mak_rlist # ps" "n_this st = length ps" "den (a_mak_rlist # ps) = d"
    using st by (auto simp: num_at_def)
  let ?n = "set_node v v first (-1)"
  have n: "i0 ?n = v" "i1 ?n = v" "r0 ?n = first" "r1 ?n = -1" using v f by (simp_all add: set_node_fields)
  then have cn: "cells ?n = {v} \<times> {high first .. HIGHBOUND}" by (auto simp: cells_def)
  have w: "wrap16 v = v" using v by (simp add: wrap16_id)
  show thesis
  proof (cases ps rule: rev_cases)
    case Nil
    have "v \<noteq> i1 a_mak_rlist + 1" using v by (simp add: a_mak_rlist_def)
    then have "num_digit first v st = Some (st\<lparr>n_rl := [a_mak_rlist, ?n], n_this := 1, n_add := True, n_item := v\<rparr>)"
      using ps Nil by (simp add: num_digit_def)
    then show thesis using that n cn ps(3) Nil by (auto simp: num_at_def num_open_def tidy_def)
  next
    case (snoc qs p)
    have dr: "drop (length ps) (a_mak_rlist # ps) = [p]" "take (length ps) (a_mak_rlist # ps) = a_mak_rlist # qs" using snoc by simp_all
    have ip: "i0 p \<le> i1 p" using st(2) ps snoc by (simp add: tidy_def)
    show thesis
    proof (cases "v = i1 p + 1 \<and> first = r0 p \<and> -1 = r1 p")
      case True
      let ?p = "p\<lparr>i1 := v\<rparr>"
      have "num_digit first v st = Some (st\<lparr>n_rl := a_mak_rlist # qs @ [?p], n_this := length ps, n_add := True, n_item := v\<rparr>)"
        using ps dr True w by (simp add: num_digit_def)
      moreover have t: "i1 p = v - 1" "r0 p = first" "r1 p = -1" using True by auto
      have "cells ?p = cells p \<union> {v} \<times> {high first .. HIGHBOUND}" using ip unfolding cells_def by (auto simp: t)
      ultimately show thesis using that ip True ps(3) snoc st(2) ps(1)
        by (auto simp: num_at_def num_open_def tidy_def)
    next
      case False
      have "num_digit first v st = Some (st\<lparr>n_rl := a_mak_rlist # qs @ [p, ?n], n_this := Suc (length ps), n_add := True, n_item := v\<rparr>)"
        using ps dr False by (auto simp: num_digit_def)
      then show thesis using that [of "st\<lparr>n_rl := a_mak_rlist # qs @ [p, ?n], n_this := Suc (length ps), n_add := True, n_item := v\<rparr>"]
        n cn ps(3) snoc st(2) ps(1) by (auto simp: num_at_def num_open_def tidy_def)
    qed
  qed
qed

lemma num_dash_ok:
  assumes st: "num_at d st" "num_open first v st" "tidy st" and b: "v \<le> b" "b < 2 ^ 15" "0 \<le> v"
  obtains st' where "num_dash b st = Some st'" "num_at (d \<union> {v .. b} \<times> {high first .. HIGHBOUND}) st'" "tidy st'"
proof -
  obtain ps p where ps: "n_rl st = a_mak_rlist # ps @ [p]" "n_add st" "i0 p \<le> v" "i1 p = v" "r0 p = first" "r1 p = -1"
    using st(2) by (auto simp: num_open_def)
  have t: "n_this st = Suc (length ps)" "d = den (a_mak_rlist # ps @ [p])" using st(1) ps(1) by (auto simp: num_at_def)
  let ?st = "st\<lparr>n_item := max_c (n_item st) 1, n_rl := a_mak_rlist # ps @ [p\<lparr>i1 := b\<rparr>], n_add := False\<rparr>"
  have "num_dash b st = Some ?st" using ps t b by (simp add: num_dash_def wrap16_id)
  moreover have "cells (p\<lparr>i1 := b\<rparr>) = cells p \<union> {v .. b} \<times> {high first .. HIGHBOUND}" using ps b by (auto simp: cells_def)
  ultimately show thesis using that t ps st(3) b by (auto simp: num_at_def tidy_def)
qed

lemma num_sel_ok:
  assumes "num_at d st" and "tidy st" and "sel_ok x" and "- (2 ^ 15) \<le> first" "first < 2 ^ 15"
  obtains st' where "act (num_digit first) num_dash x st = Some st'" "num_at (d \<union> sel_items x \<times> {high first .. HIGHBOUND}) st'" "tidy st'"
proof (cases x)
  case (One v)
  show thesis by (rule num_digit_ok [of d st v first]) (use assms One that in auto)
next
  case (Upto v w)
  obtain st1 where st1: "num_digit first v st = Some st1" "num_at (d \<union> {v} \<times> {high first .. HIGHBOUND}) st1" "num_open first v st1" "tidy st1"
    by (rule num_digit_ok [of d st v first]) (use assms Upto in auto)
  obtain st2 where st2: "num_dash w st1 = Some st2" "num_at (d \<union> {v} \<times> {high first .. HIGHBOUND} \<union> {v .. w} \<times> {high first .. HIGHBOUND}) st2" "tidy st2"
    by (rule num_dash_ok [OF st1(2-4), of w]) (use assms Upto in auto)
  have "d \<union> {v} \<times> {high first .. HIGHBOUND} \<union> {v .. w} \<times> {high first .. HIGHBOUND} = d \<union> sel_items x \<times> {high first .. HIGHBOUND}"
    using assms Upto by auto
  then show thesis using that st1(1) st2 Upto by simp
qed

lemma num_acts_ok:
  assumes "num_at d st" and "tidy st" and "\<forall>(x, sep) \<in> set xs. sel_ok x" and "- (2 ^ 15) \<le> first" "first < 2 ^ 15"
  shows "\<exists>st'. acts (num_digit first) num_dash (\<lambda>st. st\<lparr>n_add := False\<rparr>) xs st = Some st' \<and>
    num_at (d \<union> (\<Union>(x, sep) \<in> set xs. sel_items x) \<times> {high first .. HIGHBOUND}) st'"
  using assms(1-3)
proof (induction xs arbitrary: d st)
  case (Cons xsep xs)
  obtain x sep where x: "xsep = (x, sep)" by (cases xsep)
  obtain st1 where st1: "act (num_digit first) num_dash x st = Some st1" "num_at (d \<union> sel_items x \<times> {high first .. HIGHBOUND}) st1" "tidy st1"
    by (rule num_sel_ok [of d st x first]) (use Cons.prems x assms(4,5) in auto)
  let ?st = "if sep = [] then st1 else st1\<lparr>n_add := False\<rparr>"
  have "num_at (d \<union> sel_items x \<times> {high first .. HIGHBOUND}) ?st" "tidy ?st" using st1(2,3) num_at_gap by (auto simp: tidy_def)
  from Cons.IH [OF this] show ?case using Cons.prems(3) st1(1) x by (auto simp: Sigma_Un_distrib1 Un_assoc)
qed simp

lemma num_to_rl_ok:
  assumes "int4_ready s" and "sview s a = Some (sels_text xs)" and "seps_ok xs" and "\<forall>(x, sep) \<in> set xs. sel_ok x"
    and "- (2 ^ 15) \<le> first" "first < 2 ^ 15"
  obtains k rl s' where "num_to_rl [a_mak_rlist] (Some a) first garbage s = Some (k, rl, s')" "Suc k = length rl"
    "den rl = (\<Union>(x, sep) \<in> set xs. sel_items x) \<times> {high first .. HIGHBOUND}" "int4_ready s'" "sview s' = sview s"
proof -
  let ?st = "\<lparr>n_rl = [a_mak_rlist], n_this = 0, n_add = False, n_item = garbage\<rparr>"
  obtain st' where st': "acts (num_digit first) num_dash (\<lambda>st. st\<lparr>n_add := False\<rparr>) xs ?st = Some st'"
      "num_at ((\<Union>(x, sep) \<in> set xs. sel_items x) \<times> {high first .. HIGHBOUND}) st'"
    using num_acts_ok [of "{}" ?st xs first] assms(4-6) by (auto simp: num_at_def tidy_def)
  obtain s' where "num_loop (Some a) first (int (length ([] :: string))) ?st s = Some (st', s')" "int4_ready s'" "sview s' = sview s"
    using nr.scan_sels [of s a "[]" xs first ?st] assms(1-4) st'(1) by auto
  then show thesis using that st'(2) by (auto simp: num_to_rl_def num_at_def)
qed

section \<open>Marks from a text\<close>

definition pn_at :: "int list \<Rightarrow> int \<Rightarrow> int set \<Rightarrow> pn_state \<Rightarrow> bool" where
  "pn_at flags mark d st \<longleftrightarrow> p_flags st = map (\<lambda>i. if int i \<in> d then wrap16 mark else flags ! i) [0..<length flags] \<and>
     p_success st = (if d = {} then 0 else 1)"

lemma pn_at_item [simp]: "pn_at flags mark d (st\<lparr>p_item := x\<rparr>) = pn_at flags mark d st"
  by (simp add: pn_at_def)

lemma pn_at_mark:
  assumes "pn_at flags mark d st" and "0 \<le> v" and "v < int (length flags)"
  shows "upd_idx (p_flags st) v (wrap16 mark) = Some ((p_flags st)[nat v := wrap16 mark])"
    "pn_at flags mark (d \<union> {v}) (st\<lparr>p_flags := (p_flags st)[nat v := wrap16 mark], p_success := 1\<rparr>)"
proof -
  have l: "length (p_flags st) = length flags" using assms(1) by (simp add: pn_at_def)
  then show "upd_idx (p_flags st) v (wrap16 mark) = Some ((p_flags st)[nat v := wrap16 mark])" using assms by (simp add: upd_idx_def)
  have "(p_flags st)[nat v := wrap16 mark] = map (\<lambda>i. if int i \<in> d \<union> {v} then wrap16 mark else flags ! i) [0..<length flags]"
    using assms l by (intro nth_equalityI) (auto simp: pn_at_def nth_list_update)
  then show "pn_at flags mark (d \<union> {v}) (st\<lparr>p_flags := (p_flags st)[nat v := wrap16 mark], p_success := 1\<rparr>)"
    by (simp add: pn_at_def)
qed

lemma mark_loop_ok:
  assumes "pn_at flags mark d st" and "0 \<le> i" and "item2 < int (length flags)"
  shows "\<exists>st'. mark_loop i item2 mark st = Some st' \<and> pn_at flags mark (d \<union> {i .. item2}) st'"
  using assms
proof (induction i item2 mark st arbitrary: d rule: mark_loop.induct)
  case (1 i item2 mark st)
  show ?case
  proof (cases "i \<le> item2")
    case True
    have b: "i < int (length flags)" using 1(4) True by simp
    note f = pn_at_mark [OF 1(2,3) b]
    have "d \<union> {i} \<union> {i + 1 .. item2} = d \<union> {i .. item2}" using True by auto
    then show ?thesis using 1(1) [OF True f(1,2)] 1(3,4) True f(1) by (subst mark_loop.simps) auto
  next
    case False
    then show ?thesis using 1(2) by (subst mark_loop.simps) simp
  qed
qed

lemma pn_digit_ok:
  assumes "pn_at flags mark d st" and "max_items < int (length flags)"
  shows "\<exists>st'. pn_digit max_items mark v st = Some st' \<and> pn_at flags mark (d \<union> {v} \<inter> {1 .. max_items}) st' \<and> p_item st' = v"
proof (cases "0 < v \<and> v \<le> max_items")
  case True
  then have b: "0 \<le> v" "v < int (length flags)" using assms(2) by simp_all
  have "pn_at flags mark (d \<union> {v}) (st\<lparr>p_flags := (p_flags st)[nat v := wrap16 mark], p_success := 1, p_item := v\<rparr>)"
    using pn_at_mark(2) [OF assms(1) b] by (simp only: pn_at_item)
  then show ?thesis using True pn_at_mark(1) [OF assms(1) b] by (simp add: pn_digit_def)
next
  case False
  then show ?thesis using assms(1) by (auto simp: pn_digit_def pn_at_def)
qed

lemma pn_sel_ok:
  assumes "pn_at flags mark d st" and "max_items < int (length flags)" and "sel_ok x"
  shows "\<exists>st'. act (pn_digit max_items mark) (pn_dash max_items mark) x st = Some st' \<and>
    pn_at flags mark (d \<union> sel_items x \<inter> {1 .. max_items}) st'"
proof (cases x)
  case (One v)
  then show ?thesis using pn_digit_ok [OF assms(1,2), of v] by auto
next
  case (Upto v w)
  obtain st1 where st1: "pn_digit max_items mark v st = Some st1" "pn_at flags mark (d \<union> {v} \<inter> {1 .. max_items}) st1" "p_item st1 = v"
    using pn_digit_ok [OF assms(1,2)] by blast
  let ?st = "st1\<lparr>p_item := max_c v 1\<rparr>"
  have b: "0 \<le> max_c v 1" "min_c w max_items < int (length flags)" using assms(2) by (simp_all add: max_c_def min_c_def)
  have "pn_at flags mark (d \<union> {v} \<inter> {1 .. max_items}) ?st" using st1(2) by (simp add: pn_at_def)
  then obtain st2 where st2: "mark_loop (max_c v 1) (min_c w max_items) mark ?st = Some st2"
      "pn_at flags mark (d \<union> {v} \<inter> {1 .. max_items} \<union> {max_c v 1 .. min_c w max_items}) st2"
    using mark_loop_ok [OF _ b, of mark _ ?st] by blast
  have "d \<union> {v} \<inter> {1 .. max_items} \<union> {max_c v 1 .. min_c w max_items} = d \<union> sel_items x \<inter> {1 .. max_items}"
    using Upto assms(3) by (auto simp: max_c_def min_c_def split: if_splits)
  then show ?thesis using st1 st2 Upto by (simp add: pn_dash_def)
qed

lemma pn_acts_ok:
  assumes "pn_at flags mark d st" and "max_items < int (length flags)" and "\<forall>(x, sep) \<in> set xs. sel_ok x"
  shows "\<exists>st'. acts (pn_digit max_items mark) (pn_dash max_items mark) (\<lambda>st. st) xs st = Some st' \<and>
    pn_at flags mark (d \<union> (\<Union>(x, sep) \<in> set xs. sel_items x) \<inter> {1 .. max_items}) st'"
  using assms(1,3)
proof (induction xs arbitrary: d st)
  case (Cons xsep xs)
  obtain x sep where x: "xsep = (x, sep)" by (cases xsep)
  obtain st1 where st1: "act (pn_digit max_items mark) (pn_dash max_items mark) x st = Some st1"
      "pn_at flags mark (d \<union> sel_items x \<inter> {1 .. max_items}) st1"
    using pn_sel_ok [OF Cons.prems(1) assms(2), of x] Cons.prems(2) x by auto
  from Cons.IH [OF st1(2)] show ?case using Cons.prems(2) st1(1) x by (auto simp: Int_Un_distrib2 Un_assoc)
qed simp

lemma parsenum_ok:
  assumes "int4_ready s" and "sview s a = Some (sels_text xs)" and "seps_ok xs" and "\<forall>(x, sep) \<in> set xs. sel_ok x"
    and "max_items < int (length flags)"
  defines "d \<equiv> (\<Union>(x, sep) \<in> set xs. sel_items x) \<inter> {1 .. max_items}"
  obtains s' where "parsenum (Some a) flags max_items mark garbage s =
      Some (if d = {} then 0 else 1, map (\<lambda>i. if int i \<in> d then wrap16 mark else flags ! i) [0..<length flags], s')"
    "int4_ready s'" "sview s' = sview s"
proof -
  let ?st = "\<lparr>p_flags = flags, p_success = 0, p_item = garbage\<rparr>"
  have "pn_at flags mark {} ?st" by (simp add: pn_at_def map_nth)
  then obtain st' where st': "acts (pn_digit max_items mark) (pn_dash max_items mark) (\<lambda>st. st) xs ?st = Some st'" "pn_at flags mark d st'"
    using pn_acts_ok [OF _ assms(5,4), of mark "{}" ?st] unfolding d_def by auto
  obtain s' where "parsenum_loop (Some a) max_items mark (int (length ([] :: string))) ?st s = Some (st', s')" "int4_ready s'" "sview s' = sview s"
    using pn.scan_sels [of s a "[]" xs max_items mark ?st] assms(1-4) st'(1) by auto
  then show thesis using that st'(2) by (simp add: parsenum_def pn_at_def)
qed

section \<open>Properties\<close>

text \<open>
  C25. \<open>num_to_rl\<close> reads a text of numbers and ranges, separated by any blanks and commas: it returns, and the list
  it has built from an empty one stands for exactly the items named, each with its responses from \<open>first\<close> on;
  the node it returns is the last one of the list, and no string changes.
\<close>

theorem num_to_rl_selects:
  assumes "int4_ready s" and "sview s a = Some (sels_text xs)" and "seps_ok xs" and "\<forall>(x, sep) \<in> set xs. sel_ok x"
    and "- (2 ^ 15) \<le> first" and "first < 2 ^ 15"
  shows "\<exists>k rl s'. num_to_rl [a_mak_rlist] (Some a) first garbage s = Some (k, rl, s') \<and> Suc k = length rl \<and>
    den rl = (\<Union>(x, sep) \<in> set xs. sel_items x) \<times> {high first .. HIGHBOUND} \<and> chx_inv s' \<and> sview s' = sview s"
  by (rule num_to_rl_ok [OF assms, of garbage]) (auto dest: int4_readyD(1))

theorem num_to_rl_selects_witness:
  "\<exists>k rl s'. num_to_rl [a_mak_rlist] (Some 12) 1 99 (started_store [''2-4, 7'']) = Some (k, rl, s') \<and> Suc k = length rl \<and>
    den rl = {2, 3, 4, 7} \<times> {1 .. 20000} \<and> chx_inv s' \<and> sview s' = sview (started_store [''2-4, 7''])"
proof -
  define xs where "xs = [(Upto 2 4, '', ''), (One 7, [])]"
  have t: "sels_text xs = ''2-4, 7''" unfolding xs_def by code_simp
  have x: "seps_ok xs" "\<forall>(x, sep) \<in> set xs. sel_ok x" "(\<Union>(x, sep) \<in> set xs. sel_items x) = {2, 3, 4, 7}" by (auto simp: xs_def)
  have ready: "int4_ready (started_store [''2-4, 7''])" by (rule started_ready) simp
  have "sview (started_store [''2-4, 7'']) 12 = Some (sels_text xs)" by (simp add: t started_sview)
  from num_to_rl_selects [OF ready this x(1,2), of 1 99] show ?thesis
    unfolding x(3) by (simp add: high_def HIGHBOUND_def)
qed

text \<open>
  C26. \<open>parsenum\<close> marks exactly the items that the text names and that lie between 1 and \<open>max_items\<close>, writes no other
  entry of the array, and returns 1 when it has marked something, 0 otherwise.
\<close>

theorem parsenum_marks:
  assumes "int4_ready s" and "sview s a = Some (sels_text xs)" and "seps_ok xs" and "\<forall>(x, sep) \<in> set xs. sel_ok x"
    and "max_items < int (length flags)"
  shows "\<exists>r flags' s'. parsenum (Some a) flags max_items mark garbage s = Some (r, flags', s') \<and> length flags' = length flags \<and>
    (\<forall>i < length flags. flags' ! i =
       (if int i \<in> (\<Union>(x, sep) \<in> set xs. sel_items x) \<inter> {1 .. max_items} then wrap16 mark else flags ! i)) \<and>
    (r = 1 \<longleftrightarrow> (\<Union>(x, sep) \<in> set xs. sel_items x) \<inter> {1 .. max_items} \<noteq> {}) \<and> chx_inv s' \<and> sview s' = sview s"
  by (rule parsenum_ok [OF assms, of mark garbage]) (auto dest: int4_readyD(1))

theorem parsenum_marks_witness:
  "\<exists>r flags' s'. parsenum (Some 12) [0, 0, 0, 0, 0] 4 1 0 (started_store [''3-9'']) = Some (r, flags', s') \<and>
     flags' ! 2 = 0 \<and> flags' ! 4 = 1 \<and> r = 1"
proof -
  define xs where "xs = [(Upto 3 9, [] :: string)]"
  have t: "sels_text xs = ''3-9''" unfolding xs_def by code_simp
  have x: "seps_ok xs" "\<forall>(x, sep) \<in> set xs. sel_ok x" "(\<Union>(x, sep) \<in> set xs. sel_items x) \<inter> {1 .. 4} = {3, 4}" by (auto simp: xs_def)
  have ready: "int4_ready (started_store [''3-9''])" by (rule started_ready) simp
  have sv: "sview (started_store [''3-9'']) 12 = Some (sels_text xs)" by (simp add: t started_sview)
  have l: "4 < int (length [0, 0, 0, 0, 0 :: int])" by simp
  obtain p flags' s' where p: "parsenum (Some 12) [0, 0, 0, 0, 0] 4 1 0 (started_store [''3-9'']) = Some (p, flags', s')"
    and f: "\<forall>i < length [0, 0, 0, 0, 0 :: int]. flags' ! i = (if int i \<in> {3, 4} then wrap16 1 else [0, 0, 0, 0, 0] ! i)"
    and one: "p = 1 \<longleftrightarrow> {3, 4 :: int} \<noteq> {}"
    using parsenum_marks [OF ready sv x(1,2) l, of 1 0] unfolding x(3) by blast
  have "flags' ! 2 = 0" "flags' ! 4 = 1" using f [rule_format, of 2] f [rule_format, of 4] by (simp_all add: wrap16_id)
  moreover have "p = 1" using one by auto
  ultimately show ?thesis using p by blast
qed

end
