(* ===== verification/Namelist.thy ===== *)
theory Namelist
  imports ChixToken "HOL-Library.Multiset"
begin

text \<open>
  Name lists (\<open>CV2/people\<close>: \<open>nlnode\<close>, \<open>nladd\<close>, \<open>nlcat\<close>, \<open>nlcopy\<close>, \<open>nlfind\<close>, \<open>nlfree\<close>, \<open>nlnames\<close>,
  \<open>nlrdup\<close>, \<open>nlsize\<close>, with \<open>jixreduce\<close> of \<open>CV2/chx\<close>): singly linked lists of chix
  strings with a number, under a head node that carries no entry. No node is shared between two lists, so a list pointer is the list of the nodes it reaches, the null pointer the
  empty one; the strings of the nodes live in the chix store.
\<close>

section \<open>Data\<close>

record namlist_t =
  nl_str :: Chix
  nl_num :: int

type_synonym Namelist = "namlist_t list"

section \<open>Building lists\<close>

text \<open>\<open>sysmem\<close> gives zeroed memory, so \<open>num\<close> starts as 0.\<close>

definition nlnode :: "int \<Rightarrow> chx_state \<Rightarrow> Namelist \<times> chx_state" where
  "nlnode len s = (let (a, s) = chxalloc len THIN ''nlnode str'' s in ([\<lparr>nl_str = Some a, nl_num = 0\<rparr>], s))"

text \<open>The search of \<open>nladd\<close> from node \<open>p\<close>, and the linking of the new node behind the node it stops at.\<close>

fun nladd_loop :: "namlist_t \<Rightarrow> Namelist \<Rightarrow> Namelist \<Rightarrow> Chix \<Rightarrow> chx_state \<Rightarrow> (Namelist \<times> chx_state) option" where
  "nladd_loop p [] new str s = Some (p # new, s)"
| "nladd_loop p (q # ps) new str s = do {
     (c, s) \<leftarrow> chxcompare str (nl_str q) ALLCHARS s;
     if c < 0 then Some (p # new @ q # ps, s)
     else do { (r, s) \<leftarrow> nladd_loop q ps new str s; Some (p # r, s) } }"

definition nladd :: "Namelist \<Rightarrow> Chix \<Rightarrow> int \<Rightarrow> chx_state \<Rightarrow> (int \<times> Namelist \<times> chx_state) option" where
  "nladd p str n s =
     (case p of [] \<Rightarrow> Some (0, [], s)
      | h # rest \<Rightarrow>
          let (new, s) = nlnode 40 s in do {
            (_, s) \<leftarrow> chxcpy (nl_str (hd new)) str s;
            let new = [(hd new)\<lparr>nl_num := wrap16 n\<rparr>];
            (r, s) \<leftarrow> nladd_loop h rest new str s;
            Some (1, r, s) })"

definition nlcat :: "Namelist \<Rightarrow> Chix \<Rightarrow> int \<Rightarrow> chx_state \<Rightarrow> (int \<times> Namelist \<times> chx_state) option" where
  "nlcat p str n s =
     (if p = [] then Some (0, [], s)
      else do {
        (len, s) \<leftarrow> chxlen str s;
        let (new, s) = nlnode (wrap32 len) s;
        (_, s) \<leftarrow> chxcpy (nl_str (hd new)) str s;
        Some (1, p @ [(hd new)\<lparr>nl_num := wrap16 n\<rparr>], s) })"

fun nlcopy_loop :: "Namelist \<Rightarrow> Namelist \<Rightarrow> chx_state \<Rightarrow> (Namelist \<times> chx_state) option" where
  "nlcopy_loop [] new s = Some (new, s)"
| "nlcopy_loop (p # ps) new s = do {
     (_, new, s) \<leftarrow> nlcat new (nl_str p) (nl_num p) s;
     nlcopy_loop ps new s }"

text \<open>\<open>old->next\<close> is read without a null check.\<close>

definition nlcopy :: "Namelist \<Rightarrow> chx_state \<Rightarrow> (Namelist \<times> chx_state) option" where
  "nlcopy old s =
     (let (new, s) = nlnode 1 s
      in case old of [] \<Rightarrow> None | h # ps \<Rightarrow> nlcopy_loop ps new s)"

section \<open>Searching, counting, freeing\<close>

fun nlfind_loop :: "Namelist \<Rightarrow> nat \<Rightarrow> Chix \<Rightarrow> chx_state \<Rightarrow> (Namelist \<times> chx_state) option" where
  "nlfind_loop [] word1 str s = Some ([], s)"
| "nlfind_loop (p # ps) word1 str s = do {
     (_, s) \<leftarrow> chxtoken (Some word1) nullchix 1 (nl_str p) s;
     (e, s) \<leftarrow> chxeq (Some word1) str s;
     if e \<noteq> 0 then Some (p # ps, s) else nlfind_loop ps word1 str s }"

text \<open>\<open>word1\<close> is the function's static chix. The result is the list from the matching node on.\<close>

definition nlfind :: "Namelist \<Rightarrow> Chix \<Rightarrow> Chix \<Rightarrow> chx_state \<Rightarrow> (Namelist \<times> Chix \<times> chx_state) option" where
  "nlfind list str word1 s =
     (case list of [] \<Rightarrow> Some ([], word1, s)
      | h # ps \<Rightarrow>
          let (w, s) = (case word1 of Some w \<Rightarrow> (w, s) | None \<Rightarrow> chxalloc 40 THIN ''nlfind word1'' s)
          in do { (r, s) \<leftarrow> nlfind_loop ps w str s; Some (r, Some w, s) })"

fun nlfree :: "Namelist \<Rightarrow> chx_state \<Rightarrow> (int \<times> chx_state) option" where
  "nlfree [] s = Some (1, s)"
| "nlfree (p # ps) s = do { (_, s) \<leftarrow> chxfree (nl_str p) s; nlfree ps s }"

fun nlsize_loop :: "Namelist \<Rightarrow> int \<Rightarrow> int" where
  "nlsize_loop [] sz = sz"
| "nlsize_loop (p # ps) sz = nlsize_loop ps (wrap16 (sz + 1))"

definition nlsize :: "Namelist \<Rightarrow> int" where
  "nlsize p = (case p of [] \<Rightarrow> 0 | h # ps \<Rightarrow> nlsize_loop ps 0)"

section \<open>Removing duplicates\<close>

text \<open>
  \<open>nlrdup\<close>. The argument \<open>brk\<close> gives the answers of the successive calls of \<open>sysbrktest\<close>, the interrupt
  flag; when it is used up the answer is false. The inner loop starts at \<open>q\<close>; when the node behind
  \<open>q\<close> has been taken out, \<open>q = q->next\<close> still moves on.
\<close>

fun sysbrktest :: "bool list \<Rightarrow> bool \<times> bool list" where
  "sysbrktest [] = (False, [])"
| "sysbrktest (b # bs) = (b, bs)"

fun nlrdup_inner :: "nat \<Rightarrow> nat \<Rightarrow> int \<Rightarrow> namlist_t \<Rightarrow> Namelist \<Rightarrow> bool list \<Rightarrow> chx_state \<Rightarrow>
    (Namelist \<times> bool list \<times> chx_state) option" where
  "nlrdup_inner sp sr n q [] brk s = Some ([q], brk, s)"
| "nlrdup_inner sp sr n q (r # rs) brk s =
     (let (stop, brk) = sysbrktest brk
      in if stop then Some (q # r # rs, brk, s)
         else do {
           (_, s) \<leftarrow> chxtoken (Some sr) nullchix n (nl_str r) s;
           (e, s) \<leftarrow> chxeq (Some sr) (Some sp) s;
           if e \<noteq> 0 then do {
             (_, s) \<leftarrow> chxfree (nl_str r) s;
             (case rs of [] \<Rightarrow> Some ([q], brk, s)
              | q' # rs' \<Rightarrow> do {
                  (l, brk, s) \<leftarrow> nlrdup_inner sp sr n q' rs' brk s;
                  Some (q # l, brk, s) }) }
           else do {
             (l, brk, s) \<leftarrow> nlrdup_inner sp sr n r rs brk s;
             Some (q # l, brk, s) } })"

lemma bind_cases:
  assumes "Option.bind m f = Some y"
  obtains x where "m = Some x" "f x = Some y"
  using assms by (cases m) auto

lemma nlrdup_inner_length:
  "nlrdup_inner sp sr n q rs brk s = Some (l, brk', s') \<Longrightarrow> \<exists>l'. l = q # l' \<and> length l' \<le> length rs"
  by (induction sp sr n q rs brk s arbitrary: l brk' s' rule: nlrdup_inner.induct)
     (fastforce simp: Let_def split: prod.splits if_splits list.splits bind_splits)+

function nlrdup_loop :: "nat \<Rightarrow> nat \<Rightarrow> int \<Rightarrow> Namelist \<Rightarrow> bool list \<Rightarrow> chx_state \<Rightarrow>
    (Namelist \<times> chx_state) option" where
  "nlrdup_loop sp sr n [] brk s = Some ([], s)"
| "nlrdup_loop sp sr n (q # rs) brk s = do {
     (_, s) \<leftarrow> chxtoken (Some sp) nullchix n (nl_str q) s;
     (l, brk, s) \<leftarrow> nlrdup_inner sp sr n q rs brk s;
     let (stop, brk) = sysbrktest brk;
     if stop then Some (l, s)
     else do { (r, s) \<leftarrow> nlrdup_loop sp sr n (tl l) brk s; Some (hd l # r, s) } }"
  by pat_completeness auto
termination
  by (relation "measure (\<lambda>(sp, sr, n, l, brk, s). length l)") (auto dest!: nlrdup_inner_length)

declare nlrdup_loop.simps [simp del]

definition nlrdup :: "Namelist \<Rightarrow> int \<Rightarrow> bool list \<Rightarrow> chx_state \<Rightarrow> (int \<times> Namelist \<times> chx_state) option" where
  "nlrdup p n brk s =
     (case p of [] \<Rightarrow> Some (0, [], s)
      | h # rest \<Rightarrow>
          let (sp, s) = chxalloc 60 THIN ''nlrdup sp'' s;
              (sr, s) = chxalloc 60 THIN ''nlrdup sr'' s
          in do {
            (l, s) \<leftarrow> nlrdup_loop sp sr n rest brk s;
            (_, s) \<leftarrow> chxfree (Some sp) s;
            (_, s) \<leftarrow> chxfree (Some sr) s;
            Some (1, h # l, s) })"

section \<open>Names and punctuation\<close>

text \<open>\<open>jixreduce\<close>, one byte per character: upper case ASCII letters become lower case, in place.\<close>

definition reduce_char :: "char \<Rightarrow> char" where
  "reduce_char c = (if 65 \<le> bval c \<and> bval c \<le> 90 then byte (bval c - 65 + 97) else c)"

function reduce_loop :: "char list \<Rightarrow> int \<Rightarrow> char list option" where
  "reduce_loop p i =
     (case rd p i of None \<Rightarrow> None
      | Some c \<Rightarrow> if c = NUL then Some p
          else (case wr p i (reduce_char c) of None \<Rightarrow> None | Some p' \<Rightarrow> reduce_loop p' (i + 1)))"
  by pat_completeness auto
termination
  by (relation "measure (\<lambda>(p, i). length p - nat i)") (auto simp: rd_def wr_def split: if_splits)

declare reduce_loop.simps [simp del]

definition jixreduce :: "Chix \<Rightarrow> chx_state \<Rightarrow> (int \<times> chx_state) option" where
  "jixreduce a s = do {
     (ok, s) \<leftarrow> chxcheck a ''jixreduce'' s;
     if ok = 0 then Some (0, s)
     else do {
       c \<leftarrow> deref a s;
       p \<leftarrow> c_p c;
       p' \<leftarrow> reduce_loop p 0;
       Some (1, put (the a) (c\<lparr>c_p := Some p'\<rparr>) s) } }"

text \<open>\<open>CQ (t)\<close> is \<open>chxquick (t, 0)\<close>. \<open>nlnames\<close>: \<open>i\<close> is a \<open>short\<close>.\<close>

definition CQ :: "string \<Rightarrow> chx_state \<Rightarrow> (Chix \<times> chx_state) option" where
  "CQ t s = chxquick (Some t) 0 s"

definition add_owner :: "Chix \<Rightarrow> Chix \<Rightarrow> chx_state \<Rightarrow> chx_state option" where
  "add_owner name owner s = do {
     (e, s) \<leftarrow> (if owner = nullchix then Some (True, s) else EMPTYCHX owner s);
     if e then Some s
     else do {
       (b, s) \<leftarrow> CQ '' '' s;
       (_, s) \<leftarrow> chxcat name b s;
       (_, s) \<leftarrow> chxcat name owner s;
       Some s } }"

partial_function (option) nlnames_loop :: "Namelist \<Rightarrow> Chix \<Rightarrow> Chix \<Rightarrow> Chix \<Rightarrow> int \<Rightarrow> chx_state \<Rightarrow>
    (Namelist \<times> chx_state) option" where
  "nlnames_loop p name str owner i s = do {
     (st, s) \<leftarrow> chxtoken name nullchix i str s;
     if st < 0 then Some (p, s)
     else do {
       (_, s) \<leftarrow> jixreduce name s;
       s \<leftarrow> add_owner name owner s;
       (_, p, s) \<leftarrow> nladd p name 0 s;
       nlnames_loop p name str owner (wrap16 (i + 1)) s } }"

definition nlnames :: "Chix \<Rightarrow> Chix \<Rightarrow> chx_state \<Rightarrow> (Namelist \<times> chx_state) option" where
  "nlnames str owner s =
     (let (name, s) = chxalloc 120 THIN ''nlnames name'' s;
          (p, s) = nlnode 1 s
      in do {
        (p, s) \<leftarrow> nlnames_loop p (Some name) str owner 1 s;
        (_, s) \<leftarrow> chxfree (Some name) s;
        Some (p, s) })"

section \<open>Well-formed lists and their entries\<close>

text \<open>
  A proper list has a head, and every node owns a live chix of its own. Its entries are the strings and
  numbers of the nodes behind the head.
\<close>

definition nl_live :: "Namelist \<Rightarrow> chx_state \<Rightarrow> bool" where
  "nl_live p s \<longleftrightarrow> (\<forall>q \<in> set p. \<exists>a x. nl_str q = Some a \<and> sview s a = Some x)"

definition nl_ok :: "Namelist \<Rightarrow> chx_state \<Rightarrow> bool" where
  "nl_ok p s \<longleftrightarrow> chx_inv s \<and> p \<noteq> [] \<and> distinct (map nl_str p) \<and> nl_live p s"

definition entry :: "chx_state \<Rightarrow> namlist_t \<Rightarrow> string \<times> int" where
  "entry s q = (text_at s (the (nl_str q)), nl_num q)"

definition entries :: "Namelist \<Rightarrow> chx_state \<Rightarrow> (string \<times> int) list" where
  "entries p s = map (entry s) (tl p)"

lemma nl_live_Cons [simp]:
  "nl_live (q # p) s \<longleftrightarrow> (\<exists>a x. nl_str q = Some a \<and> sview s a = Some x) \<and> nl_live p s"
  "nl_live [] s"
  by (auto simp: nl_live_def)

lemma nl_live_append [simp]: "nl_live (p @ r) s \<longleftrightarrow> nl_live p s \<and> nl_live r s"
  by (auto simp: nl_live_def)

lemma nl_live_keep: "nl_live p s \<Longrightarrow> \<forall>q \<in> set p. sview s' (the (nl_str q)) = sview s (the (nl_str q)) \<Longrightarrow> nl_live p s'"
  by (force simp: nl_live_def)

lemma entry_keep: "sview s' (the (nl_str q)) = sview s (the (nl_str q)) \<Longrightarrow> entry s' q = entry s q"
  by (simp add: entry_def text_at_def)

lemma entries_keep:
  "\<forall>q \<in> set (tl p). sview s' (the (nl_str q)) = sview s (the (nl_str q)) \<Longrightarrow> entries p s' = entries p s"
  by (auto simp: entries_def intro: entry_keep)

lemma nl_live_less: "chx_inv s \<Longrightarrow> nl_live p s \<Longrightarrow> q \<in> set p \<Longrightarrow> the (nl_str q) < next_adr s"
  by (fastforce simp: nl_live_def dest: live_less)

lemma nl_live_text: "nl_live p s \<Longrightarrow> q \<in> set p \<Longrightarrow> sview s (the (nl_str q)) = Some (fst (entry s q))"
  by (force simp: nl_live_def entry_def text_at_def)

lemma entries_no_NUL: "nl_live p s \<Longrightarrow> \<forall>e \<in> set (entries p s). NUL \<notin> set (fst e)"
  by (cases p) (auto simp: entries_def dest!: nl_live_text live_no_NUL)

text \<open>A node on a fresh chix that then receives a string.\<close>

lemma new_node_ok:
  assumes inv: "chx_inv s" and a: "sview s a = Some x"
  obtains s1 s2 where "nlnode k s = ([\<lparr>nl_str = Some (next_adr s), nl_num = 0\<rparr>], s1)"
    "chxcpy (Some (next_adr s)) (Some a) s1 = Some (1, s2)"
    "chx_to s ((sview s)(next_adr s \<mapsto> x)) s2" "next_adr s < next_adr s2"
proof -
  obtain s1 where s1: "chxalloc k THIN ''nlnode str'' s = (next_adr s, s1)"
      "chx_to s ((sview s)(next_adr s \<mapsto> [])) s1" "next_adr s1 = Suc (next_adr s)"
    by (rule chxalloc_ok [OF inv])
  note t1 = chx_toD [OF s1(2)]
  have "a \<noteq> next_adr s" using live_less [OF inv a] by simp
  then obtain s2 where s2: "chxcpy (Some (next_adr s)) (Some a) s1 = Some (1, s2)"
      "chx_to s1 ((sview s1)(next_adr s \<mapsto> x)) s2"
    using chxcpy_ok [OF t1(1), of "next_adr s" "[]" a x] t1(2) a by auto
  have "chx_to s ((sview s)(next_adr s \<mapsto> x)) s2" using chx_to_trans [OF s1(2) s2(2)] t1(2) by simp
  then show thesis using that [of s1 s2] s1 s2 chx_toD(4) [OF s2(2)] by (simp add: nlnode_def)
qed

lemma nl_ok_fresh:
  assumes ok: "nl_ok p s" and t: "chx_to s ((sview s)(next_adr s \<mapsto> x)) s'"
  shows "nl_live p s'" and "Some (next_adr s) \<notin> nl_str ` set p" and "\<forall>q \<in> set p. entry s' q = entry s q"
    and "entry s' \<lparr>nl_str = Some (next_adr s), nl_num = n\<rparr> = (x, n)"
proof -
  have i: "chx_inv s" "nl_live p s" using ok by (simp_all add: nl_ok_def)
  have ne: "the (nl_str q) \<noteq> next_adr s" if "q \<in> set p" for q using nl_live_less [OF i that] by simp
  then show "nl_live p s'" by (intro nl_live_keep [OF i(2)]) (simp add: chx_toD(2) [OF t])
  show "Some (next_adr s) \<notin> nl_str ` set p" using ne i(2) by (force simp: nl_live_def)
  show "\<forall>q \<in> set p. entry s' q = entry s q" using ne by (intro ballI entry_keep) (simp add: chx_toD(2) [OF t])
  show "entry s' \<lparr>nl_str = Some (next_adr s), nl_num = n\<rparr> = (x, n)"
    by (simp add: entry_def text_at_def chx_toD(2) [OF t])
qed

section \<open>Sorted insertion\<close>

text \<open>Insertion behind every entry that does not come after the new one.\<close>

fun ins :: "(string \<Rightarrow> string \<Rightarrow> int) \<Rightarrow> string \<times> int \<Rightarrow> (string \<times> int) list \<Rightarrow> (string \<times> int) list" where
  "ins cmp e [] = [e]"
| "ins cmp e (f # fs) = (if cmp (fst e) (fst f) < 0 then e # f # fs else f # ins cmp e fs)"

definition in_order :: "(string \<Rightarrow> string \<Rightarrow> int) \<Rightarrow> (string \<times> int) list \<Rightarrow> bool" where
  "in_order cmp es \<longleftrightarrow> sorted_wrt (\<lambda>e f. cmp (fst e) (fst f) \<le> 0) es"

lemma nladd_loop_ok:
  assumes inv: "chx_inv s" and a: "sview s a = Some x" and l: "nl_live ps s"
    and e: "entry s w = (x, n)"
  shows "\<exists>r. nladd_loop h ps [w] (Some a) s = Some (h # r, s) \<and> set r = insert w (set ps) \<and>
    map (entry s) r = ins (compare_str (rules s)) (x, n) (map (entry s) ps) \<and>
    (\<exists>u v. ps = u @ v \<and> r = u @ w # v)"
  using l
proof (induction ps arbitrary: h)
  case Nil
  then show ?case using e by simp
next
  case (Cons q ps)
  have q: "nl_str q = Some (the (nl_str q))" "sview s (the (nl_str q)) = Some (fst (entry s q))"
    using Cons.prems nl_live_text [OF Cons.prems, of q] by auto
  have c: "chxcompare (Some a) (nl_str q) ALLCHARS s = Some (compare_str (rules s) x (fst (entry s q)), s)"
    using chxcompare_ok [OF inv a q(2)] q(1) by simp
  show ?case
  proof (cases "compare_str (rules s) x (fst (entry s q)) < 0")
    case True
    then show ?thesis using c e by (auto intro: exI [of _ "[]"])
  next
    case False
    obtain r u v where r: "nladd_loop q ps [w] (Some a) s = Some (q # r, s)" "set r = insert w (set ps)"
        "map (entry s) r = ins (compare_str (rules s)) (x, n) (map (entry s) ps)" "ps = u @ v" "r = u @ w # v"
      using Cons.IH [of q] Cons.prems by auto
    have "nladd_loop h (q # ps) [w] (Some a) s = Some (h # q # r, s)" using c False r(1) by simp
    then show ?thesis using r False by (intro exI [of _ "q # r"]) (auto intro: exI [of _ "q # u"])
  qed
qed

lemma nladd_ok:
  assumes ok: "nl_ok p s" and a: "sview s a = Some x"
  obtains p' s' where "nladd p (Some a) n s = Some (1, p', s')" "nl_ok p' s'"
    "entries p' s' = ins (compare_str (rules s)) (x, wrap16 n) (entries p s)"
    "chx_to s ((sview s)(next_adr s \<mapsto> x)) s'" "hd p' = hd p"
    "nl_str ` set p' = insert (Some (next_adr s)) (nl_str ` set p)"
proof -
  obtain h ps where p: "p = h # ps" using ok by (cases p) (auto simp: nl_ok_def)
  have inv: "chx_inv s" using ok by (simp add: nl_ok_def)
  obtain s1 s2 where s: "nlnode 40 s = ([\<lparr>nl_str = Some (next_adr s), nl_num = 0\<rparr>], s1)"
      "chxcpy (Some (next_adr s)) (Some a) s1 = Some (1, s2)"
      "chx_to s ((sview s)(next_adr s \<mapsto> x)) s2"
    by (rule new_node_ok [OF inv a])
  note t = chx_toD [OF s(3)] and f = nl_ok_fresh [OF ok s(3)]
  define w where "w = \<lparr>nl_str = Some (next_adr s), nl_num = wrap16 n\<rparr>"
  have a2: "sview s2 a = Some x" using t(2) a by simp
  have l: "nl_live ps s2" using f(1) p by simp
  have e: "entry s2 w = (x, wrap16 n)" using f(4) by (simp add: w_def)
  have r2: "rules s2 = rules s" using globs_tabs [OF t(3)] by simp
  obtain r u v where r: "nladd_loop h ps [w] (Some a) s2 = Some (h # r, s2)" "set r = insert w (set ps)"
      "map (entry s2) r = ins (compare_str (rules s2)) (x, wrap16 n) (map (entry s2) ps)" "ps = u @ v" "r = u @ w # v"
    using nladd_loop_ok [OF t(1) a2 l e, of h] by blast
  have "nl_live [w] s2" using t(2) by (simp add: w_def)
  then have "nl_ok (h # r) s2"
    using ok t(1) f(1,2) p r(4,5) by (auto simp: nl_ok_def w_def)
  moreover have "nladd p (Some a) n s = Some (1, h # r, s2)" using p s(1,2) r(1) by (simp add: nladd_def w_def)
  moreover have m: "map (entry s2) ps = map (entry s) ps" using f(3) p by simp
  have "entries (h # r) s2 = ins (compare_str (rules s)) (x, wrap16 n) (entries p s)"
    using r(3) [unfolded r2 m] p by (simp add: entries_def)
  moreover have "nl_str ` set (h # r) = insert (Some (next_adr s)) (nl_str ` set p)" using r(2) p by (auto simp: w_def)
  ultimately show thesis using that s(3) p by simp
qed

text \<open>
  The interface between lists and the comparison of names: on a carrier of names the comparison is
  a total order, given as a sign. A list kept by \<open>ins\<close> is then sorted, and insertion keeps the other
  entries and their order.
\<close>

locale name_order =
  fixes cmp :: "string \<Rightarrow> string \<Rightarrow> int" and carrier :: "string set"
  assumes cmp_flip: "cmp y x = - cmp x y"
    and cmp_trans: "x \<in> carrier \<Longrightarrow> y \<in> carrier \<Longrightarrow> z \<in> carrier \<Longrightarrow> cmp x y \<le> 0 \<Longrightarrow> cmp y z \<le> 0 \<Longrightarrow> cmp x z \<le> 0"
    and cmp_zero: "x \<in> carrier \<Longrightarrow> y \<in> carrier \<Longrightarrow> cmp x y = 0 \<Longrightarrow> x = y"
begin

lemma cmp_refl: "cmp x x = 0"
  using cmp_flip [of x x] by simp

lemma set_ins: "set (ins cmp e es) = insert e (set es)"
  by (induction es) auto

lemma ins_in_order:
  assumes "in_order cmp es" and "fst ` set (e # es) \<subseteq> carrier"
  shows "in_order cmp (ins cmp e es)"
  using assms
proof (induction es)
  case Nil
  then show ?case by (simp add: in_order_def)
next
  case (Cons f fs)
  have f: "\<forall>g \<in> set fs. cmp (fst f) (fst g) \<le> 0" and o: "in_order cmp fs"
    using Cons.prems(1) by (simp_all add: in_order_def)
  have car: "fst e \<in> carrier" "fst f \<in> carrier" "\<And>g. g \<in> set fs \<Longrightarrow> fst g \<in> carrier" using Cons.prems(2) by auto
  show ?case
  proof (cases "cmp (fst e) (fst f) < 0")
    case True
    have "cmp (fst e) (fst g) \<le> 0" if g: "g \<in> set fs" for g
      using cmp_trans [OF car(1,2) car(3) [OF g]] True f g by auto
    then show ?thesis using Cons.prems(1) True by (auto simp: in_order_def)
  next
    case False
    then have "cmp (fst f) (fst e) \<le> 0" using cmp_flip [of "fst f" "fst e"] by simp
    moreover have "in_order cmp (ins cmp e fs)" using Cons.IH o Cons.prems(2) by simp
    ultimately show ?thesis using False f by (auto simp: in_order_def set_ins)
  qed
qed

lemma ins_split: "\<exists>u v. es = u @ v \<and> ins cmp e es = u @ e # v \<and> (v = [] \<or> cmp (fst e) (fst (hd v)) < 0)"
proof (induction es)
  case Nil
  then show ?case by simp
next
  case (Cons f fs)
  then obtain u v where "fs = u @ v" "ins cmp e fs = u @ e # v" "v = [] \<or> cmp (fst e) (fst (hd v)) < 0" by blast
  then show ?case by (cases "cmp (fst e) (fst f) < 0") (auto intro: exI [of _ "[]"] exI [of _ "f # u"])
qed

lemma order_unique:
  assumes "in_order cmp es" and "in_order cmp fs" and "fst ` set es \<subseteq> carrier" and "mset (map fst es) = mset (map fst fs)"
  shows "map fst es = map fst fs"
  using assms
proof (induction es arbitrary: fs)
  case Nil
  then show ?case by simp
next
  case (Cons e es)
  then obtain f gs where fs: "fs = f # gs" by (cases fs) auto
  have same: "fst ` set (e # es) = fst ` set fs"
    using mset_eq_setD [OF Cons.prems(4)] by (simp only: set_map)
  have e: "fst e \<in> fst ` set fs" and f: "fst f \<in> fst ` set (e # es)" using same fs by auto
  have "cmp (fst f) (fst e) \<le> 0"
  proof -
    obtain g where g: "fst e = fst g" "g = f \<or> g \<in> set gs" using imageE [OF e [unfolded fs]] by auto
    then show ?thesis using Cons.prems(2) fs cmp_refl [of "fst f"] by (auto simp: in_order_def)
  qed
  moreover have "cmp (fst e) (fst f) \<le> 0"
  proof -
    obtain g where g: "fst f = fst g" "g = e \<or> g \<in> set es" using imageE [OF f] by auto
    then show ?thesis using Cons.prems(1) cmp_refl [of "fst e"] by (auto simp: in_order_def)
  qed
  moreover have "cmp (fst f) (fst e) = - cmp (fst e) (fst f)" by (rule cmp_flip)
  ultimately have "cmp (fst e) (fst f) = 0" by simp
  moreover have "fst e \<in> carrier" "fst f \<in> carrier" using Cons.prems(3) f by (auto simp only: list.set_map list.simps)
  ultimately have ef: "fst e = fst f" using cmp_zero by blast
  moreover have "map fst es = map fst gs"
    using Cons.IH [of gs] Cons.prems fs ef by (auto simp: in_order_def)
  ultimately show ?case using fs by simp
qed

end

text \<open>The start-up collation of \<open>chx_init\<close> orders the strings a chix can hold.\<close>

lemma init_compare:
  assumes "NUL \<notin> set x" and "NUL \<notin> set y"
  shows "compare_str init_rules x y =
    (if x = y then 0 else if (x, y) \<in> lexord {(c, d). col init_rules c < col init_rules d} then -1 else 1)"
  by (rule compare_lex, rule inj_on_subset [OF init_col_inj]) (use assms in auto)

interpretation init_order: name_order "compare_str init_rules" "{x. NUL \<notin> set x}"
proof
  fix x y z :: string
  show "compare_str init_rules y x = - compare_str init_rules x y" by (rule compare_antisym)
  let ?R = "{(c, d). col init_rules c < col init_rules d}"
  assume x: "x \<in> {x. NUL \<notin> set x}" and y: "y \<in> {x. NUL \<notin> set x}"
  show "compare_str init_rules x y = 0 \<Longrightarrow> x = y" using init_compare [of x y] x y by (auto split: if_splits)
  assume z: "z \<in> {x. NUL \<notin> set x}" and le: "compare_str init_rules x y \<le> 0" "compare_str init_rules y z \<le> 0"
  have tr: "trans ?R" by (auto intro: transI)
  have "x = y \<or> (x, y) \<in> lexord ?R" "y = z \<or> (y, z) \<in> lexord ?R"
    using le init_compare [of x y] init_compare [of y z] x y z by (auto split: if_splits)
  then have "x = z \<or> (x, z) \<in> lexord ?R" using lexord_trans [OF _ _ tr] by blast
  then show "compare_str init_rules x z \<le> 0" using init_compare [of x z] x z by auto
qed

section \<open>Copying, counting and freeing\<close>

lemma nlcat_ok:
  assumes ok: "nl_ok p s" and a: "sview s a = Some x"
  obtains p' s' w where "nlcat p (Some a) n s = Some (1, p', s')" "nl_ok p' s'"
    "entries p' s' = entries p s @ [(x, wrap16 n)]" "sview s w = None" "chx_to s ((sview s)(w \<mapsto> x)) s'"
    "nl_str ` set p' = insert (Some w) (nl_str ` set p)"
proof -
  have inv: "chx_inv s" and ne: "p \<noteq> []" using ok by (simp_all add: nl_ok_def)
  obtain s0 where s0: "chxlen (Some a) s = Some (int (length x), s0)" "chx_to s (sview s) s0"
    by (rule chxlen_ok [OF inv a])
  note t0 = chx_toD [OF s0(2)]
  have ok0: "nl_ok p s0" using ok t0 nl_live_keep [of p s s0] by (simp add: nl_ok_def)
  have a0: "sview s0 a = Some x" using t0(2) a by simp
  define w where "w = next_adr s0"
  obtain s1 s2 where s: "nlnode (wrap32 (int (length x))) s0 = ([\<lparr>nl_str = Some w, nl_num = 0\<rparr>], s1)"
      "chxcpy (Some w) (Some a) s1 = Some (1, s2)"
      "chx_to s0 ((sview s0)(next_adr s0 \<mapsto> x)) s2" "next_adr s0 < next_adr s2"
    unfolding w_def by (rule new_node_ok [OF t0(1) a0])
  note t = chx_toD [OF s(3)] and f = nl_ok_fresh [OF ok0 s(3)]
  let ?w = "\<lparr>nl_str = Some w, nl_num = wrap16 n\<rparr>"
  have "nlcat p (Some a) n s = Some (1, p @ [?w], s2)" using ne s0(1) s(1,2) by (simp add: nlcat_def)
  moreover have "nl_ok (p @ [?w]) s2"
    using ok t(1,2) f(1,2) by (auto simp: nl_ok_def w_def)
  moreover have "entries p s2 = entries p s"
  proof (rule entries_keep, rule ballI)
    fix q assume "q \<in> set (tl p)"
    then have "the (nl_str q) < next_adr s0"
      using nl_live_less [OF t0(1), of p q] ok0 ne by (simp add: nl_ok_def list.set_sel(2))
    then show "sview s2 (the (nl_str q)) = sview s (the (nl_str q))" using t(2) t0(2) by simp
  qed
  then have "entries (p @ [?w]) s2 = entries p s @ [(x, wrap16 n)]"
    using f(4) ne by (simp add: entries_def w_def)
  moreover have "sview s w = None" using fresh_not_live [OF t0(1)] t0(2) by (simp add: w_def)
  moreover have "chx_to s ((sview s)(w \<mapsto> x)) s2" using chx_to_trans [OF s0(2) s(3)] t0(2) by (simp add: w_def)
  ultimately show thesis using that by simp
qed

text \<open>
  \<open>nlcopy\<close>: a new list with the same entries, on chix of its own; nothing else of the store changes.
  The numbers of a list are 16-bit values.
\<close>

definition old_kept :: "chx_state \<Rightarrow> chx_state \<Rightarrow> bool" where
  "old_kept s s' \<longleftrightarrow> (\<forall>a x. sview s a = Some x \<longrightarrow> sview s' a = Some x)"

lemma old_kept_trans: "old_kept s s1 \<Longrightarrow> old_kept s1 s2 \<Longrightarrow> old_kept s s2"
  by (simp add: old_kept_def)

lemma old_kept_fresh: "chx_to s ((sview s)(w \<mapsto> x)) s' \<Longrightarrow> sview s w = None \<Longrightarrow> old_kept s s'"
  using chx_toD(2) [of s "(sview s)(w \<mapsto> x)" s'] by (auto simp: old_kept_def)

lemma old_kept_list:
  assumes "old_kept s s'" and "nl_live p s"
  shows "nl_live p s'" and "map (entry s') p = map (entry s) p"
proof -
  have k: "sview s' (the (nl_str q)) = sview s (the (nl_str q))" if "q \<in> set p" for q
    using assms(1) nl_live_text [OF assms(2) that] by (simp add: old_kept_def)
  show "nl_live p s'" by (rule nl_live_keep [OF assms(2)]) (simp add: k)
  show "map (entry s') p = map (entry s) p" using entry_keep [OF k] by simp
qed

lemma nlcopy_loop_ok:
  assumes "nl_ok new s" and "nl_live ps s" and "\<forall>q \<in> set ps. wrap16 (nl_num q) = nl_num q"
    and "\<forall>q \<in> set new. sview s0 (the (nl_str q)) = None" and "old_kept s0 s"
  shows "\<exists>p' s'. nlcopy_loop ps new s = Some (p', s') \<and> nl_ok p' s' \<and>
    entries p' s' = entries new s @ map (entry s) ps \<and>
    (\<forall>q \<in> set p'. sview s0 (the (nl_str q)) = None) \<and> old_kept s0 s'"
  using assms
proof (induction ps arbitrary: new s)
  case Nil
  then show ?case by simp
next
  case (Cons q ps)
  obtain a where a: "nl_str q = Some a" "sview s a = Some (fst (entry s q))" "snd (entry s q) = nl_num q"
    using Cons.prems(2) nl_live_text [OF Cons.prems(2), of q] by (auto simp: entry_def)
  obtain new' s1 w where s1: "nlcat new (Some a) (nl_num q) s = Some (1, new', s1)" "nl_ok new' s1"
      "entries new' s1 = entries new s @ [(fst (entry s q), wrap16 (nl_num q))]" "sview s w = None"
      "chx_to s ((sview s)(w \<mapsto> fst (entry s q))) s1" "nl_str ` set new' = insert (Some w) (nl_str ` set new)"
    by (rule nlcat_ok [OF Cons.prems(1) a(2)])
  have k: "old_kept s s1" by (rule old_kept_fresh [OF s1(5,4)])
  note l = old_kept_list [OF k, of ps]
  have fresh: "\<forall>q \<in> set new'. sview s0 (the (nl_str q)) = None"
  proof
    fix r assume "r \<in> set new'"
    then have "nl_str r = Some w \<or> nl_str r \<in> nl_str ` set new" using s1(6) by (metis image_eqI insertE)
    moreover have "sview s0 w = None" using Cons.prems(5) s1(4) by (cases "sview s0 w") (auto simp: old_kept_def)
    ultimately show "sview s0 (the (nl_str r)) = None" using Cons.prems(4) by auto
  qed
  obtain p' s' where ih: "nlcopy_loop ps new' s1 = Some (p', s')" "nl_ok p' s'"
      "entries p' s' = entries new' s1 @ map (entry s1) ps"
      "\<forall>q \<in> set p'. sview s0 (the (nl_str q)) = None" "old_kept s0 s'"
    using Cons.IH [OF s1(2) l(1) _ fresh old_kept_trans [OF Cons.prems(5) k]] Cons.prems(2,3) by auto
  have "nlcopy_loop (q # ps) new s = Some (p', s')" using a(1) s1(1) ih(1) by simp
  moreover have "entries p' s' = entries new s @ map (entry s) (q # ps)"
    using ih(3) s1(3) l(2) Cons.prems(2,3) a(3) by (simp add: prod_eq_iff)
  ultimately show ?case using ih by blast
qed

lemma nlcopy_ok:
  assumes ok: "nl_ok p s" and n: "\<forall>q \<in> set (tl p). wrap16 (nl_num q) = nl_num q"
  obtains p' s' where "nlcopy p s = Some (p', s')" "nl_ok p' s'" "entries p' s' = entries p s"
    "\<forall>q \<in> set p'. sview s (the (nl_str q)) = None" "old_kept s s'"
proof -
  obtain h ps where p: "p = h # ps" using ok by (cases p) (auto simp: nl_ok_def)
  have inv: "chx_inv s" and l: "nl_live p s" using ok by (simp_all add: nl_ok_def)
  obtain s1 where s1: "chxalloc 1 THIN ''nlnode str'' s = (next_adr s, s1)"
      "chx_to s ((sview s)(next_adr s \<mapsto> [])) s1"
    by (rule chxalloc_ok [OF inv])
  note t = chx_toD [OF s1(2)]
  let ?new = "[\<lparr>nl_str = Some (next_adr s), nl_num = 0\<rparr>]"
  have f: "sview s (next_adr s) = None" by (rule fresh_not_live [OF inv])
  have k: "old_kept s s1" by (rule old_kept_fresh [OF s1(2) f])
  have new: "nl_ok ?new s1" using t by (simp add: nl_ok_def)
  obtain p' s' where "nlcopy_loop ps ?new s1 = Some (p', s')" "nl_ok p' s'"
      "entries p' s' = entries ?new s1 @ map (entry s1) ps"
      "\<forall>q \<in> set p'. sview s (the (nl_str q)) = None" "old_kept s s'"
    using nlcopy_loop_ok [OF new old_kept_list(1) [OF k], of ps s] n f k l p by auto
  moreover have "map (entry s1) ps = map (entry s) ps" using old_kept_list(2) [OF k, of ps] l p by simp
  ultimately show thesis using that p s1(1) by (simp add: nlcopy_def nlnode_def entries_def)
qed

lemma nlsize_ok: "p \<noteq> [] \<Longrightarrow> length p \<le> 2 ^ 15 \<Longrightarrow> nlsize p = int (length p) - 1"
proof -
  have "k + int (length ps) < 2 ^ 15 \<Longrightarrow> 0 \<le> k \<Longrightarrow> nlsize_loop ps k = k + int (length ps)" for ps k
    by (induction ps arbitrary: k) (simp_all add: wrap16_id)
  from this [of 0 "tl p"] show "p \<noteq> [] \<Longrightarrow> length p \<le> 2 ^ 15 \<Longrightarrow> nlsize p = int (length p) - 1"
    by (cases p) (simp_all add: nlsize_def)
qed

text \<open>\<open>nlfree\<close> takes exactly the chix of the list out of the store.\<close>

lemma nlfree_ok:
  assumes "chx_inv s" and "nl_live p s" and "distinct (map nl_str p)" and "blanks s \<notin> nl_str ` set p"
  obtains s' where "nlfree p s = Some (1, s')" "chx_inv s'" "globs s' = globs s"
    "sview s' = (\<lambda>a. if Some a \<in> nl_str ` set p then None else sview s a)"
  using assms
proof (induction p arbitrary: s thesis)
  case Nil
  then show ?case by simp
next
  case (Cons q p)
  obtain a x where a: "nl_str q = Some a" "sview s a = Some x" using Cons.prems(3) by auto
  obtain s1 where s1: "chxfree (Some a) s = Some (1, s1)" "chx_to s ((sview s)(a := None)) s1"
    using chxfree_ok [OF Cons.prems(2) a(2)] Cons.prems(5) a(1) by auto
  note t = chx_toD [OF s1(2)]
  have nin: "Some a \<notin> nl_str ` set p" using Cons.prems(4) a(1) by auto
  have l: "nl_live p s1"
    by (rule nl_live_keep [of p s]) (use Cons.prems(3) nin t(2) in \<open>force simp: nl_live_def\<close>)+
  obtain s' where "nlfree p s1 = Some (1, s')" "chx_inv s'" "globs s' = globs s1"
      "sview s' = (\<lambda>a. if Some a \<in> nl_str ` set p then None else sview s1 a)"
    using Cons.IH [OF _ t(1) l] Cons.prems(4,5) globs_tabs [OF t(3)] by auto
  then show ?case using Cons.prems(1) [of s'] s1(1) t a(1) by (auto simp: fun_eq_iff)
qed

section \<open>Searching\<close>

text \<open>The \<open>n\<close>'th word of a string, empty when there are fewer: what \<open>chxtoken\<close> leaves in its word.\<close>

definition nth_word :: "string \<Rightarrow> int \<Rightarrow> string \<Rightarrow> string" where
  "nth_word bl n x = snd (pick (words_at bl 0 x) (nat n - 1))"

text \<open>A scratch chix \<open>w\<close> receives a word; everything else of the store stays.\<close>

definition scratch_to :: "nat \<Rightarrow> string \<Rightarrow> chx_state \<Rightarrow> chx_state \<Rightarrow> bool" where
  "scratch_to w t s s' \<longleftrightarrow> chx_inv s' \<and> sview s' = (sview s)(w \<mapsto> t) \<and> blanks s' = blanks s \<and>
     rules s' = rules s \<and> token_blanks s' = token_blanks s"

lemma token_scratch:
  assumes inv: "chx_inv s" and bl: "blanks s \<noteq> None" and l: "sview s l = Some x"
    and w: "sview s w \<noteq> None" "w \<noteq> l" and n: "1 \<le> n"
  obtains st s' where "chxtoken (Some w) nullchix n (Some l) s = Some (st, s')"
    "scratch_to w (nth_word (token_blanks s) n x) s s'"
proof -
  have ne: "Some w \<noteq> Some l" "(None :: Chix) \<noteq> Some l" "Some w = None \<Longrightarrow> Some w = None"
    "\<forall>a. Some w = Some a \<longrightarrow> sview s a \<noteq> None" "\<forall>a. (None :: Chix) = Some a \<longrightarrow> sview s a \<noteq> None" using w by auto
  obtain st t s' where "(st, t) = pick (words_at (token_blanks s) 0 x) (nat n - 1)"
    "chxtoken (Some w) None n (Some l) s = Some (st, s')" "chx_inv s'"
    "sview s' = upd None (if st < 0 then [] else drop (nat st) x) (upd (Some w) t (sview s))"
    "blanks s' = blanks s" "rules s' = rules s" "tab_token s' = Some (token_blanks s)"
    by (rule chxtoken_ok [OF inv bl l ne(4,5,1,2,3) n])
  then show thesis using that [of st s'] by (simp add: scratch_to_def nth_word_def token_blanks_def [of s'] prod_eq_iff)
qed

lemma scratch_toD:
  assumes "scratch_to w t s s'"
  shows "chx_inv s'" "sview s' = (sview s)(w \<mapsto> t)" "blanks s' = blanks s" "rules s' = rules s"
    "token_blanks s' = token_blanks s"
  using assms by (simp_all add: scratch_to_def)

lemma scratch_list:
  assumes "scratch_to w t s s'" and "Some w \<notin> nl_str ` set p" and "nl_live p s"
  shows "nl_live p s'" and "q \<in> set p \<Longrightarrow> entry s' q = entry s q"
proof -
  have k: "sview s' (the (nl_str q)) = sview s (the (nl_str q))" if "q \<in> set p" for q
  proof -
    obtain a where "nl_str q = Some a" using assms(3) \<open>q \<in> set p\<close> by (auto simp: nl_live_def)
    moreover then have "a \<noteq> w" using assms(2) \<open>q \<in> set p\<close> by force
    ultimately show ?thesis using scratch_toD(2) [OF assms(1)] by simp
  qed
  show "nl_live p s'" by (rule nl_live_keep [OF assms(3)]) (simp add: k)
  show "q \<in> set p \<Longrightarrow> entry s' q = entry s q" by (rule entry_keep) (rule k)
qed

lemma nlfind_loop_ok:
  assumes "chx_inv s" and "blanks s \<noteq> None" and "nl_live ps s" and "sview s w \<noteq> None"
    and "Some w \<notin> nl_str ` set ps" and "sview s b = Some y" and "w \<noteq> b"
  shows "\<exists>t s'. nlfind_loop ps w (Some b) s =
      Some (dropWhile (\<lambda>q. nth_word (token_blanks s) 1 (fst (entry s q)) \<noteq> y) ps, s') \<and>
    (s' = s \<or> scratch_to w t s s')"
  using assms
proof (induction ps arbitrary: s)
  case Nil
  then show ?case by simp
next
  case (Cons q ps)
  let ?x = "fst (entry s q)" and ?bl = "token_blanks s"
  obtain a where a: "nl_str q = Some a" "sview s a = Some ?x"
    using Cons.prems(3) nl_live_text [OF Cons.prems(3), of q] by auto
  have ne: "w \<noteq> a" using Cons.prems(5) a(1) by auto
  obtain st s1 where s1: "chxtoken (Some w) nullchix 1 (Some a) s = Some (st, s1)"
      "scratch_to w (nth_word ?bl 1 ?x) s s1"
    by (rule token_scratch [OF Cons.prems(1,2) a(2) Cons.prems(4) ne order.refl])
  note d = scratch_toD [OF s1(2)]
  have v: "sview s1 w = Some (nth_word ?bl 1 ?x)" "sview s1 b = Some y" using d(2) Cons.prems(6,7) by simp_all
  note eq = chxeq_live(1) [OF d(1) v]
  show ?case
  proof (cases "nth_word ?bl 1 ?x = y")
    case True
    then show ?thesis using a(1) s1 eq by auto
  next
    case False
    have "Some w \<notin> nl_str ` set ps" using Cons.prems(5) by simp
    note l = scratch_list [OF s1(2) this]
    have ps: "nl_live ps s" using Cons.prems(3) by simp
    obtain t s' where ih: "nlfind_loop ps w (Some b) s1 =
        Some (dropWhile (\<lambda>q. nth_word (token_blanks s1) 1 (fst (entry s1 q)) \<noteq> y) ps, s')"
        "s' = s1 \<or> scratch_to w t s1 s'"
      using Cons.IH [OF d(1)] d(3) Cons.prems l(1) [OF ps] v by auto
    have "dropWhile (\<lambda>q. nth_word (token_blanks s1) 1 (fst (entry s1 q)) \<noteq> y) ps =
        dropWhile (\<lambda>q. nth_word ?bl 1 (fst (entry s q)) \<noteq> y) ps"
      by (rule dropWhile_cong) (simp_all add: d(5) l(2) [OF ps])
    moreover have "scratch_to w t s s'" if "scratch_to w t s1 s'"
      using that d by (simp add: scratch_to_def)
    ultimately show ?thesis using a(1) s1 eq False ih by auto
  qed
qed

lemma token_blanks_keep:
  assumes inv: "chx_inv s" and k: "old_kept s s'" and g: "globs s' = globs s"
  shows "token_blanks s' = token_blanks s"
proof -
  have "blank_chars s' = blank_chars s"
  proof (cases "blanks s")
    case (Some z)
    then obtain t where "sview s z = Some t" using inv by (auto simp: chx_inv_def statics_ok_def)
    moreover then have "sview s' z = Some t" using k by (simp add: old_kept_def)
    ultimately show ?thesis using Some globs_tabs [OF g] by (simp add: blank_chars_def)
  qed (use globs_tabs [OF g] in \<open>simp add: blank_chars_def\<close>)
  then show ?thesis using globs_tabs [OF g] by (simp add: token_blanks_def split: option.splits)
qed

text \<open>The static chix of \<open>nlfind\<close>, allocated at its first call.\<close>

definition nlfind_word :: "Chix \<Rightarrow> chx_state \<Rightarrow> nat \<times> chx_state" where
  "nlfind_word word1 s = (case word1 of Some w \<Rightarrow> (w, s) | None \<Rightarrow> chxalloc 40 THIN ''nlfind word1'' s)"

lemma nlfind_ok:
  assumes ok: "nl_ok p s" and bl: "blanks s \<noteq> None" and b: "sview s b = Some y"
    and w: "\<And>w. word1 = Some w \<Longrightarrow> sview s w \<noteq> None \<and> Some w \<notin> nl_str ` set p \<and> w \<noteq> b"
  obtains w' s' where "nlfind p (Some b) word1 s =
      Some (dropWhile (\<lambda>q. nth_word (token_blanks s) 1 (fst (entry s q)) \<noteq> y) (tl p), Some w', s')"
    "chx_inv s'" "\<forall>a. a \<noteq> w' \<longrightarrow> sview s' a = sview s a" "word1 = Some w' \<or> sview s w' = None"
proof -
  obtain h ps where p: "p = h # ps" using ok by (cases p) (auto simp: nl_ok_def)
  have inv: "chx_inv s" and live: "nl_live p s" using ok by (simp_all add: nl_ok_def)
  obtain w1 s1 where s1: "nlfind_word word1 s = (w1, s1)" "chx_inv s1" "old_kept s s1" "globs s1 = globs s"
      "sview s1 w1 \<noteq> None" "\<forall>a. a \<noteq> w1 \<longrightarrow> sview s1 a = sview s a" "word1 = Some w1 \<or> sview s w1 = None"
  proof (cases word1)
    case None
    obtain s1 where a: "chxalloc 40 THIN ''nlfind word1'' s = (next_adr s, s1)"
        "chx_to s ((sview s)(next_adr s \<mapsto> [])) s1" by (rule chxalloc_ok [OF inv])
    note f = fresh_not_live [OF inv]
    show thesis
      by (rule that [of "next_adr s" s1])
         (use None a chx_toD [OF a(2)] f old_kept_fresh [OF a(2) f] in \<open>auto simp: nlfind_word_def\<close>)
  next
    case (Some x)
    show thesis by (rule that [of x s]) (use Some inv w in \<open>auto simp: nlfind_word_def old_kept_def\<close>)
  qed
  have nin: "Some w1 \<notin> nl_str ` set p \<and> w1 \<noteq> b"
    using s1(7) w live b by (force simp: nl_live_def)
  note k = old_kept_list [OF s1(3) live]
  have ps: "nl_live ps s1" and e: "q \<in> set ps \<Longrightarrow> entry s1 q = entry s q" for q using k p by auto
  have b1: "sview s1 b = Some y" using s1(3) b by (simp add: old_kept_def)
  obtain t s' where s': "nlfind_loop ps w1 (Some b) s1 =
      Some (dropWhile (\<lambda>q. nth_word (token_blanks s1) 1 (fst (entry s1 q)) \<noteq> y) ps, s')"
      "s' = s1 \<or> scratch_to w1 t s1 s'"
    using nlfind_loop_ok [OF s1(2) _ ps s1(5) _ b1] nin globs_tabs [OF s1(4)] bl p by auto
  have "dropWhile (\<lambda>q. nth_word (token_blanks s1) 1 (fst (entry s1 q)) \<noteq> y) ps =
      dropWhile (\<lambda>q. nth_word (token_blanks s) 1 (fst (entry s q)) \<noteq> y) ps"
    by (rule dropWhile_cong) (simp_all add: token_blanks_keep [OF inv s1(3,4)] e)
  then have "nlfind p (Some b) word1 s =
      Some (dropWhile (\<lambda>q. nth_word (token_blanks s) 1 (fst (entry s q)) \<noteq> y) (tl p), Some w1, s')"
    using p s1(1) s'(1) by (simp add: nlfind_def nlfind_word_def)
  moreover have "chx_inv s'" using s'(2) s1(2) by (auto dest: scratch_toD)
  moreover have "sview s' a = sview s a" if "a \<noteq> w1" for a
    using s'(2) s1(6) that scratch_toD(2) [of w1 t s1 s'] by auto
  ultimately show thesis using that s1(7) by blast
qed

section \<open>Removing duplicates: what happens\<close>

text \<open>
  What the two loops of \<open>nlrdup\<close> do to a list of nodes with the given keys, no interrupt pending.
\<close>

fun rdup_inner :: "('a \<Rightarrow> string) \<Rightarrow> string \<Rightarrow> 'a \<Rightarrow> 'a list \<Rightarrow> 'a list" where
  "rdup_inner key k q [] = [q]"
| "rdup_inner key k q (r # rs) =
     (if key r = k then (case rs of [] \<Rightarrow> [q] | q' # rs' \<Rightarrow> q # rdup_inner key k q' rs')
      else q # rdup_inner key k r rs)"

lemma subseq_set: "subseq l rs \<Longrightarrow> set l \<subseteq> set rs"
  by (auto dest: list_emb_set)

lemma subseq_distinct: "subseq l rs \<Longrightarrow> distinct rs \<Longrightarrow> distinct l"
  by (induction rule: list_emb.induct) (auto dest: subseq_set)

lemma rdup_inner_Cons: "\<exists>l. rdup_inner key k q rs = q # l \<and> subseq l rs"
proof (induction key k q rs rule: rdup_inner.induct)
  case (2 key k q r rs)
  show ?case
  proof (cases "key r = k")
    case False
    with 2(2) show ?thesis by auto
  next
    case True
    show ?thesis
    proof (cases rs)
      case (Cons q' rs')
      with 2(1) True obtain l where "rdup_inner key k q' rs' = q' # l" "subseq l rs'" by blast
      then show ?thesis using True Cons by (auto intro: list_emb_Cons)
    qed (use True in simp)
  qed
qed simp

function rdup :: "('a \<Rightarrow> string) \<Rightarrow> 'a list \<Rightarrow> 'a list" where
  "rdup key [] = []"
| "rdup key (q # rs) = q # rdup key (tl (rdup_inner key (key q) q rs))"
  by pat_completeness auto
termination
proof (relation "measure (\<lambda>(key, l). length l)")
  fix key :: "'a \<Rightarrow> string" and q rs
  obtain l where "rdup_inner key (key q) q rs = q # l" "subseq l rs" using rdup_inner_Cons by metis
  moreover then have "length l \<le> length rs" by (simp add: list_emb_length)
  ultimately show "((key, tl (rdup_inner key (key q) q rs)), key, q # rs) \<in> measure (\<lambda>(key, l). length l)" by simp
qed simp

text \<open>
  The loops on a store: the nodes taken out lose their chix, the scratch chix \<open>sr\<close> changes, nothing else.
\<close>

definition dropped :: "Namelist \<Rightarrow> Namelist \<Rightarrow> Chix set" where
  "dropped p r = nl_str ` set p - nl_str ` set r"

lemma dropped_out:
  assumes "nl_str q \<notin> nl_str ` set (r # p)" and "nl_str r \<notin> nl_str ` set p" and "set l \<subseteq> set p"
  shows "dropped (q # r # p) (q # l) = {nl_str r} \<union> dropped p l"
proof -
  have set_law: "insert x (insert y P) - insert x L = {y} \<union> (P - L)"
    if "x \<noteq> y" "x \<notin> P" "y \<notin> P" "L \<subseteq> P" for x y and P L :: "Chix set" using that by blast
  show ?thesis unfolding dropped_def list.set image_insert
    by (rule set_law) (use assms in auto)
qed

definition rdup_to :: "nat set \<Rightarrow> Chix set \<Rightarrow> chx_state \<Rightarrow> chx_state \<Rightarrow> bool" where
  "rdup_to W D s s' \<longleftrightarrow> chx_inv s' \<and> blanks s' = blanks s \<and> rules s' = rules s \<and> token_blanks s' = token_blanks s \<and>
     (\<forall>a. a \<notin> W \<longrightarrow> sview s' a = (if Some a \<in> D then None else sview s a)) \<and>
     (\<forall>a \<in> W. sview s a \<noteq> None \<longrightarrow> sview s' a \<noteq> None)"

lemma rdup_to_trans:
  "rdup_to W D s s1 \<Longrightarrow> rdup_to W E s1 s2 \<Longrightarrow> rdup_to W (D \<union> E) s s2"
  by (auto simp: rdup_to_def)

lemma rdup_to_scratch: "scratch_to w t s s' \<Longrightarrow> w \<in> W \<Longrightarrow> rdup_to W {} s s'"
  by (auto simp: rdup_to_def scratch_to_def)

lemma rdup_to_mono: "rdup_to W D s s' \<Longrightarrow> W \<subseteq> W' \<Longrightarrow> \<forall>a \<in> W' - W. Some a \<notin> D \<Longrightarrow> rdup_to W' D s s'"
  by (auto simp: rdup_to_def)

lemma rdup_to_list:
  assumes "rdup_to W D s s'" and "\<forall>a \<in> W. Some a \<notin> nl_str ` set p" and "D \<inter> nl_str ` set p = {}" and "nl_live p s"
  shows "nl_live p s'" and "q \<in> set p \<Longrightarrow> entry s' q = entry s q"
proof -
  have k: "sview s' (the (nl_str q)) = sview s (the (nl_str q))" if q: "q \<in> set p" for q
  proof -
    obtain a where a: "nl_str q = Some a" using assms(4) q by (auto simp: nl_live_def)
    then have "Some a \<in> nl_str ` set p" using q by force
    then have "a \<notin> W" "Some a \<notin> D" using assms(2,3) by auto
    then show ?thesis using assms(1) a by (auto simp: rdup_to_def)
  qed
  show "nl_live p s'" by (rule nl_live_keep [OF assms(4)]) (simp add: k)
  show "q \<in> set p \<Longrightarrow> entry s' q = entry s q" by (rule entry_keep) (rule k)
qed

lemma rdup_inner_cong:
  "\<forall>r \<in> set rs. key r = key' r \<Longrightarrow> rdup_inner key k q rs = rdup_inner key' k q rs"
proof (induction key k q rs rule: rdup_inner.induct)
  case (2 key k q r rs)
  then show ?case by (cases rs) simp_all
qed simp

text \<open>The test of one node: its word against the one in \<open>sp\<close>.\<close>

lemma rdup_test:
  assumes "chx_inv s" and "blanks s \<noteq> None" and "sview s sp = Some k" and "sview s sr \<noteq> None" and "sp \<noteq> sr"
    and r: "nl_str r = Some a" "sview s a = Some (fst (entry s r))" "a \<noteq> sr" and n: "1 \<le> n"
  obtains st s1 where "chxtoken (Some sr) nullchix n (nl_str r) s = Some (st, s1)" "rdup_to {sr} {} s s1"
    "chxeq (Some sr) (Some sp) s1 = Some (if nth_word (token_blanks s) n (fst (entry s r)) = k then 1 else 0, s1)"
proof -
  have ne: "sr \<noteq> a" using r(3) by simp
  obtain st s1 where s1: "chxtoken (Some sr) nullchix n (Some a) s = Some (st, s1)"
      "scratch_to sr (nth_word (token_blanks s) n (fst (entry s r))) s s1"
    by (rule token_scratch [OF assms(1,2) r(2) assms(4) ne n])
  note d = scratch_toD [OF s1(2)]
  have v: "sview s1 sr = Some (nth_word (token_blanks s) n (fst (entry s r)))" "sview s1 sp = Some k"
    using d(2) assms(3,5) by simp_all
  show thesis
    using that [of st s1] s1 r(1) rdup_to_scratch [OF s1(2), of "{sr}"] chxeq_live(1) [OF d(1) v] by simp
qed

lemma nlrdup_inner_ok:
  assumes "chx_inv s" and "blanks s \<noteq> None" and "sview s sp = Some k" and "sview s sr \<noteq> None" and "sp \<noteq> sr"
    and "nl_live (q # rs) s" and "distinct (map nl_str (q # rs))" and "1 \<le> n"
    and "\<forall>a \<in> {sp, sr}. Some a \<notin> nl_str ` set (q # rs)" and "blanks s \<notin> nl_str ` set (q # rs)"
  shows "\<exists>s'. nlrdup_inner sp sr n q rs [] s =
      Some (rdup_inner (\<lambda>r. nth_word (token_blanks s) n (fst (entry s r))) k q rs, [], s') \<and>
    rdup_to {sr} (dropped (q # rs) (rdup_inner (\<lambda>r. nth_word (token_blanks s) n (fst (entry s r))) k q rs)) s s'"
  using assms
proof (induction "length rs" arbitrary: q rs s rule: less_induct)
  case less
  show ?case
  proof (cases rs)
    case Nil
    then show ?thesis using less.prems(1) by (auto simp: rdup_to_def dropped_def)
  next
    case (Cons r rs1)
    let ?key = "\<lambda>s r. nth_word (token_blanks s) n (fst (entry s r))"
    have lr: "nl_live (r # rs1) s" using less.prems(6) Cons by simp
    obtain a where a: "nl_str r = Some a" "sview s a = Some (fst (entry s r))"
      using lr nl_live_text [OF lr, of r] by auto
    have ne: "a \<noteq> sr" "a \<noteq> sp" "blanks s \<noteq> Some a" using less.prems(9,10) a(1) Cons by auto
    obtain st s1 where s1: "chxtoken (Some sr) nullchix n (nl_str r) s = Some (st, s1)" "rdup_to {sr} {} s s1"
        "chxeq (Some sr) (Some sp) s1 = Some (if ?key s r = k then 1 else 0, s1)"
      by (rule rdup_test [OF less.prems(1-5) a ne(1) less.prems(8)])
    have i1: "chx_inv s1" "blanks s1 = blanks s" "token_blanks s1 = token_blanks s" "sview s1 sr \<noteq> None"
      using s1(2) less.prems(4) by (simp_all add: rdup_to_def)
    show ?thesis
    proof (cases "?key s r = k")
      case False
      have l1: "nl_live (r # rs1) s1" "\<And>x. x \<in> set (r # rs1) \<Longrightarrow> entry s1 x = entry s x"
        using rdup_to_list [OF s1(2) _ _ lr] less.prems(9) Cons by auto
      have sp1: "sview s1 sp = Some k" using s1(2) less.prems(3,5) by (auto simp: rdup_to_def)
      obtain s' where ih: "nlrdup_inner sp sr n r rs1 [] s1 = Some (rdup_inner (?key s1) k r rs1, [], s')"
          "rdup_to {sr} (dropped (r # rs1) (rdup_inner (?key s1) k r rs1)) s1 s'"
        using less.hyps [of rs1 s1 r] Cons i1 sp1 l1(1) less.prems by auto
      have "rdup_inner (?key s1) k r rs1 = rdup_inner (?key s) k r rs1"
        by (rule rdup_inner_cong) (simp add: i1(3) l1(2))
      moreover obtain l where l: "rdup_inner (?key s) k r rs1 = r # l" "set l \<subseteq> set rs1"
        using rdup_inner_Cons subseq_set by metis
      moreover have "dropped (q # rs) (q # r # l) = dropped (r # rs1) (r # l)"
        using Cons less.prems(7) l(2) by (auto simp: dropped_def)
      ultimately show ?thesis
        using ih s1 False Cons rdup_to_trans [OF s1(2), of "dropped (r # rs1) (r # l)" s'] by simp
    next
      case True
      have a1: "sview s1 a = Some (fst (entry s r))" using s1(2) a(2) ne by (simp add: rdup_to_def)
      obtain s2 where s2: "chxfree (Some a) s1 = Some (1, s2)" "chx_to s1 ((sview s1)(a := None)) s2"
        using chxfree_ok [OF i1(1) a1] i1(2) ne(3) by auto
      note t2 = chx_toD [OF s2(2)]
      have tb: "token_blanks s2 = token_blanks s1"
      proof -
        have "blank_chars s2 = blank_chars s1"
          using globs_tabs [OF t2(3)] t2(2) i1(2) ne(3) by (auto simp: blank_chars_def split: option.splits)
        then show ?thesis using globs_tabs [OF t2(3)] by (simp add: token_blanks_def split: option.splits)
      qed
      have "rdup_to {sr} {Some a} s1 s2"
        using t2 globs_tabs [OF t2(3)] tb ne by (auto simp: rdup_to_def)
      then have s02: "rdup_to {sr} {Some a} s s2" using rdup_to_trans [OF s1(2)] by force
      show ?thesis
      proof (cases rs1)
        case Nil
        have "dropped (q # rs) [q] = {Some a}" using Cons Nil a(1) less.prems(7) by (auto simp: dropped_def)
        then show ?thesis using Cons Nil True s1 s2(1) a(1) s02 by simp
      next
        case (Cons q' rs')
        note rs = \<open>rs = r # rs1\<close> [unfolded Cons]
        have lq: "nl_live (q' # rs') s" using lr Cons by simp
        have nin: "Some a \<notin> nl_str ` set (q' # rs')" using less.prems(7) rs a(1) by auto
        have l2: "nl_live (q' # rs') s2" "\<And>x. x \<in> set (q' # rs') \<Longrightarrow> entry s2 x = entry s x"
          using rdup_to_list [OF s02 _ _ lq] less.prems(9) nin rs by auto
        have i2: "chx_inv s2" "blanks s2 = blanks s" "token_blanks s2 = token_blanks s" "sview s2 sr \<noteq> None"
            "sview s2 sp = Some k"
          using s02 less.prems(3,4,5) ne by (auto simp: rdup_to_def)
        obtain s' where ih: "nlrdup_inner sp sr n q' rs' [] s2 = Some (rdup_inner (?key s2) k q' rs', [], s')"
            "rdup_to {sr} (dropped (q' # rs') (rdup_inner (?key s2) k q' rs')) s2 s'"
          using less.hyps [of rs' s2 q'] rs i2 l2(1) less.prems by auto
        have eq: "rdup_inner (?key s2) k q' rs' = rdup_inner (?key s) k q' rs'"
          by (rule rdup_inner_cong) (simp add: i2(3) l2(2))
        moreover obtain l where l: "rdup_inner (?key s) k q' rs' = q' # l" "set l \<subseteq> set rs'"
          using rdup_inner_Cons subseq_set by metis
        moreover have "dropped (q # rs) (q # q' # l) = {Some a} \<union> dropped (q' # rs') (q' # l)"
          using dropped_out [of q r "q' # rs'" "q' # l"] rs less.prems(7) l(2) a(1) by auto
        ultimately show ?thesis
          using ih s1 s2(1) a(1) True rs Cons rdup_to_trans [OF s02, of "dropped (q' # rs') (q' # l)" s'] by simp
      qed
    qed
  qed
qed

lemma rdup_Cons:
  obtains l where "rdup_inner key (key q) q rs = q # l" "subseq l rs" "length l \<le> length rs"
    "rdup key (q # rs) = q # rdup key l"
  using rdup_inner_Cons [of key "key q" q rs] that by (auto simp: list_emb_length)

lemma rdup_subseq: "subseq (rdup key l) l"
proof (induction "length l" arbitrary: l rule: less_induct)
  case less
  show ?case
  proof (cases l)
    case (Cons q rs)
    obtain l' where l: "rdup key (q # rs) = q # rdup key l'" "length l' \<le> length rs" "subseq l' rs"
      by (rule rdup_Cons)
    have "subseq (rdup key l') l'" using less l(2) Cons by simp
    then show ?thesis using subseq_order.trans [OF _ l(3)] l(1) Cons by simp
  qed simp
qed

lemma rdup_cong: "\<forall>r \<in> set l. key r = key' r \<Longrightarrow> rdup key l = rdup key' l"
proof (induction "length l" arbitrary: l rule: less_induct)
  case less
  show ?case
  proof (cases l)
    case (Cons q rs)
    obtain l' where l: "rdup_inner key (key q) q rs = q # l'" "rdup key (q # rs) = q # rdup key l'"
        "length l' \<le> length rs" "subseq l' rs" by (rule rdup_Cons)
    have "rdup_inner key' (key' q) q rs = q # l'"
      using l(1) rdup_inner_cong [of rs key key' "key q" q] less.prems Cons by simp
    then have "rdup key' (q # rs) = q # rdup key' l'" by simp
    moreover have "rdup key l' = rdup key' l'"
      using less.hyps [of l'] less.prems Cons l(3) subseq_set [OF l(4)] by auto
    ultimately show ?thesis using l(2) Cons by simp
  qed simp
qed

lemma nlrdup_loop_ok:
  assumes "chx_inv s" and "blanks s \<noteq> None" and "sview s sp \<noteq> None" and "sview s sr \<noteq> None" and "sp \<noteq> sr"
    and "nl_live ps s" and "distinct (map nl_str ps)" and "1 \<le> n"
    and "\<forall>a \<in> {sp, sr}. Some a \<notin> nl_str ` set ps" and "blanks s \<notin> nl_str ` set ps"
  shows "\<exists>s'. nlrdup_loop sp sr n ps [] s =
      Some (rdup (\<lambda>r. nth_word (token_blanks s) n (fst (entry s r))) ps, s') \<and>
    rdup_to {sp, sr} (dropped ps (rdup (\<lambda>r. nth_word (token_blanks s) n (fst (entry s r))) ps)) s s'"
  using assms
proof (induction "length ps" arbitrary: ps s rule: less_induct)
  case less
  show ?case
  proof (cases ps)
    case Nil
    then show ?thesis using less.prems(1) by (auto simp: rdup_to_def dropped_def nlrdup_loop.simps)
  next
    case (Cons q rs)
    let ?key = "\<lambda>s r. nth_word (token_blanks s) n (fst (entry s r))" and ?W = "{sp, sr}"
    obtain a where a: "nl_str q = Some a" "sview s a = Some (fst (entry s q))"
      using less.prems(6) nl_live_text [OF less.prems(6), of q] Cons by auto
    have ne: "sp \<noteq> a" using less.prems(9) a(1) Cons by auto
    obtain st s1 where s1: "chxtoken (Some sp) nullchix n (Some a) s = Some (st, s1)"
        "scratch_to sp (?key s q) s s1"
      by (rule token_scratch [OF less.prems(1,2) a(2) less.prems(3) ne less.prems(8)])
    note d = scratch_toD [OF s1(2)]
    have l1: "nl_live (q # rs) s1" "\<And>x. x \<in> set (q # rs) \<Longrightarrow> entry s1 x = entry s x"
      using scratch_list [OF s1(2), of "q # rs"] less.prems(6,9) Cons by auto
    have key1: "rdup_inner (?key s1) (?key s q) q rs = rdup_inner (?key s) (?key s q) q rs"
      by (rule rdup_inner_cong) (simp add: d(5) l1(2))
    obtain l where l: "rdup_inner (?key s) (?key s q) q rs = q # l" "subseq l rs" "length l \<le> length rs"
        "rdup (?key s) (q # rs) = q # rdup (?key s) l" by (rule rdup_Cons)
    obtain s2 where s2: "nlrdup_inner sp sr n q rs [] s1 = Some (q # l, [], s2)"
        "rdup_to {sr} (dropped (q # rs) (q # l)) s1 s2"
      using nlrdup_inner_ok [OF d(1), of sp "?key s q" sr q rs n] d(2,3) less.prems l1(1) Cons
      unfolding key1 l(1) by auto
    have "rdup_to ?W (dropped (q # rs) (q # l)) s1 s2"
      by (rule rdup_to_mono [OF s2(2)]) (use less.prems(9) Cons in \<open>auto simp: dropped_def\<close>)
    then have s02: "rdup_to ?W (dropped (q # rs) (q # l)) s s2"
      using rdup_to_trans [OF rdup_to_scratch [OF s1(2), of ?W]] by force
    note sub = subseq_set [OF l(2)]
    have dist: "distinct (map nl_str l)"
      using less.prems(7) subseq_map [OF l(2), of nl_str] Cons by (auto dest: subseq_distinct)
    have ll: "nl_live l s" using less.prems(6) sub Cons by (auto simp: nl_live_def)
    have l2: "nl_live l s2" "\<And>x. x \<in> set l \<Longrightarrow> entry s2 x = entry s x"
      by (rule rdup_to_list [OF s02 _ _ ll]; use less.prems(9) sub Cons in \<open>auto simp: dropped_def\<close>)+
    have i2: "chx_inv s2" "blanks s2 = blanks s" "token_blanks s2 = token_blanks s" "sview s2 sp \<noteq> None" "sview s2 sr \<noteq> None"
      using s02 less.prems(3,4) by (auto simp: rdup_to_def)
    have pre: "length l < length ps" "\<forall>a \<in> ?W. Some a \<notin> nl_str ` set l" "blanks s2 \<notin> nl_str ` set l" "blanks s2 \<noteq> None"
      using Cons l(3) less.prems(2,9,10) sub i2(2) by auto
    obtain s3 where s3: "nlrdup_loop sp sr n l [] s2 = Some (rdup (?key s2) l, s3)"
        "rdup_to ?W (dropped l (rdup (?key s2) l)) s2 s3"
      using less.hyps [OF pre(1) i2(1) pre(4) i2(4,5) less.prems(5) l2(1) dist less.prems(8) pre(2,3)] by blast
    have key2: "rdup (?key s2) l = rdup (?key s) l" by (rule rdup_cong) (simp add: i2(3) l2(2))
    have "dropped ps (q # rdup (?key s) l) = dropped (q # rs) (q # l) \<union> dropped l (rdup (?key s) l)"
      using subseq_set [OF rdup_subseq, of "?key s" l] sub less.prems(7) Cons by (auto simp: dropped_def)
    moreover have "nlrdup_loop sp sr n ps [] s = Some (q # rdup (?key s) l, s3)"
      using Cons a(1) s1(1) s2(1) s3(1) key2 by (simp add: nlrdup_loop.simps)
    ultimately show ?thesis using rdup_to_trans [OF s02 s3(2)] key2 l(4) Cons by auto
  qed
qed

text \<open>
  \<open>nlrdup\<close> as a whole: the entries that stay are those of \<open>rdup\<close>; the chix of the others are freed, as are
  the two scratch chix; every other string keeps its value.
\<close>

lemma rdup_map: "rdup key (map f l) = map f (rdup (key \<circ> f) l)"
proof (induction "length l" arbitrary: l rule: less_induct)
  case less
  have inner: "rdup_inner key k (f q) (map f rs) = map f (rdup_inner (key \<circ> f) k q rs)" for k q rs
    by (induction "key \<circ> f" k q rs rule: rdup_inner.induct) (auto split: list.splits)
  show ?case
  proof (cases l)
    case (Cons q rs)
    obtain l' where l': "rdup_inner (key \<circ> f) ((key \<circ> f) q) q rs = q # l'" "length l' \<le> length rs"
        "rdup (key \<circ> f) (q # rs) = q # rdup (key \<circ> f) l'"
      by (rule rdup_Cons)
    then have "rdup key (map f l) = f q # rdup key (map f l')" using Cons inner [of "key (f q)" q rs] by simp
    then show ?thesis using less [of l'] l' Cons by simp
  qed simp
qed

lemma nlrdup_ok:
  assumes ok: "nl_ok p s" and bl: "blanks s \<noteq> None" "blanks s \<notin> nl_str ` set p" and n: "1 \<le> n"
  obtains p' s' where "nlrdup p n [] s = Some (1, p', s')" "nl_ok p' s'"
    "p' = hd p # rdup (\<lambda>r. nth_word (token_blanks s) n (fst (entry s r))) (tl p)"
    "entries p' s' = rdup (\<lambda>e. nth_word (token_blanks s) n (fst e)) (entries p s)"
    "\<forall>a x. sview s a = Some x \<longrightarrow> sview s' a = (if Some a \<in> dropped p p' then None else Some x)"
proof -
  obtain h ps where p: "p = h # ps" using ok by (cases p) (auto simp: nl_ok_def)
  have inv: "chx_inv s" and live: "nl_live p s" and dist: "distinct (map nl_str p)" using ok by (simp_all add: nl_ok_def)
  let ?key = "\<lambda>s r. nth_word (token_blanks s) n (fst (entry s r))"
  define sp where "sp = next_adr s"
  obtain s1 where s1: "chxalloc 60 THIN ''nlrdup sp'' s = (sp, s1)" "chx_to s ((sview s)(sp \<mapsto> [])) s1"
      "next_adr s1 = Suc sp" unfolding sp_def by (rule chxalloc_ok [OF inv])
  note t1 = chx_toD [OF s1(2)]
  define sr where "sr = Suc sp"
  obtain s2 where s2: "chxalloc 60 THIN ''nlrdup sr'' s1 = (sr, s2)" "chx_to s1 ((sview s1)(sr \<mapsto> [])) s2"
    using chxalloc_ok [OF t1(1)] s1(3) by (metis sr_def)
  note t2 = chx_toD [OF s2(2)]
  have old: "a < sp" if "sview s a = Some x" for a x using live_less [OF inv that] by (simp add: sp_def)
  have v2: "sview s2 = (sview s)(sp \<mapsto> [], sr \<mapsto> [])" using t1(2) t2(2) by simp
  have new: "sview s sp = None" "sview s sr = None" using old by (fastforce simp: sr_def)+
  have k2: "old_kept s s2" using v2 new by (auto simp: old_kept_def)
  have g2: "globs s2 = globs s" using t2(3) t1(3) by simp
  note gt = globs_tabs [OF g2] and tb = token_blanks_keep [OF inv k2 g2]
  note l2 = old_kept_list [OF k2 live]
  have nin: "Some a \<notin> nl_str ` set p" if "a \<in> {sp, sr}" for a
    using that live new by (auto simp: nl_live_def)
  have pre: "blanks s2 \<noteq> None" "sview s2 sp \<noteq> None" "sview s2 sr \<noteq> None" "sp \<noteq> sr" "nl_live ps s2" "distinct (map nl_str ps)"
      "\<forall>a \<in> {sp, sr}. Some a \<notin> nl_str ` set ps" "blanks s2 \<notin> nl_str ` set ps"
    using bl gt v2 l2(1) dist p nin by (auto simp: sr_def)
  define r where "r = rdup (?key s) ps"
  have e2: "entry s2 q = entry s q" if "q \<in> set p" for q using l2(2) that by simp
  have "rdup (?key s2) ps = r" unfolding r_def by (rule rdup_cong) (simp add: tb e2 p)
  then obtain s3 where s3: "nlrdup_loop sp sr n ps [] s2 = Some (r, s3)" "rdup_to {sp, sr} (dropped ps r) s2 s3"
    using nlrdup_loop_ok [OF t2(1) pre(1-6) n pre(7,8)] by auto
  have sub: "subseq r ps" unfolding r_def by (rule rdup_subseq)
  have lr: "nl_live (h # r) s2" using l2(1) subseq_set [OF sub] p by (auto simp: nl_live_def)
  have dr: "dropped ps r = dropped p (h # r)" using dist p by (auto simp: dropped_def)
  have "nl_str ` set (h # r) \<subseteq> nl_str ` set p" by (rule image_mono) (use subseq_set [OF sub] p in auto)
  then have dj2: "\<forall>a \<in> {sp, sr}. Some a \<notin> nl_str ` set (h # r)" using nin by (meson subsetD)
  have dj1: "dropped ps r \<inter> nl_str ` set (h # r) = {}"
    unfolding dr unfolding dropped_def by (subst Int_commute) (rule Diff_disjoint)
  note l3 = rdup_to_list [OF s3(2) dj2 dj1 lr]
  have i3: "chx_inv s3" "blanks s3 = blanks s" and w3: "sview s3 sp \<noteq> None" "sview s3 sr \<noteq> None"
    using s3(2) pre(2,3) gt by (auto simp: rdup_to_def)
  have b: "blanks s \<noteq> Some sp" "blanks s \<noteq> Some sr"
    using inv new by (auto simp: chx_inv_def statics_ok_def)
  obtain s4 where s4: "chxfree (Some sp) s3 = Some (1, s4)" "chx_to s3 ((sview s3)(sp := None)) s4"
    using chxfree_ok [OF i3(1), of sp] w3(1) i3(2) b(1) by auto
  note t4 = chx_toD [OF s4(2)]
  have w4: "sview s4 sr \<noteq> None" "blanks s4 \<noteq> Some sr" using t4(2) w3(2) pre(4) globs_tabs [OF t4(3)] i3(2) b(2) by auto
  obtain s5 where s5: "chxfree (Some sr) s4 = Some (1, s5)" "chx_to s4 ((sview s4)(sr := None)) s5"
    using chxfree_ok [OF t4(1) _ w4(2)] w4(1) by auto
  note t5 = chx_toD [OF s5(2)]
  have v5: "sview s5 a = sview s3 a" if "a \<notin> {sp, sr}" for a using t5(2) t4(2) that by auto
  have "h # r = hd p # rdup (?key s) (tl p)" using p by (simp add: r_def)
  moreover have "nlrdup p n [] s = Some (1, h # r, s5)" using p s1(1) s2(1) s3(1) s4(1) s5(1) by (simp add: nlrdup_def)
  moreover have in5: "sview s5 (the (nl_str q)) = sview s3 (the (nl_str q))" if "q \<in> set (h # r)" for q
    by (rule v5) (use that l3(1) nin subseq_set [OF sub] p in \<open>force simp: nl_live_def\<close>)
  moreover have "nl_ok (h # r) s5"
    using t5(1) nl_live_keep [OF l3(1)] in5 subseq_distinct [OF subseq_map [OF sub]] dist p subseq_set [OF sub]
    by (auto simp: nl_ok_def)
  moreover have "entries (h # r) s5 = rdup (\<lambda>e. nth_word (token_blanks s) n (fst e)) (entries p s)"
  proof -
    have "entry s5 q = entry s q" if "q \<in> set r" for q
      using entry_keep [OF in5, of q] l3(2) [of q] e2 [of q] that subseq_set [OF sub] p by auto
    then show ?thesis using p by (simp add: entries_def rdup_map r_def comp_def)
  qed
  moreover have "sview s5 a = (if Some a \<in> dropped p (h # r) then None else Some x)" if a: "sview s a = Some x" for a x
  proof -
    have "a \<notin> {sp, sr}" using a new by auto
    then show ?thesis using v5 s3(2) v2 a dr by (auto simp: rdup_to_def)
  qed
  ultimately show thesis using that by blast
qed

text \<open>
  The inner loop as a pass with one bit of memory: an entry with the word \<open>k\<close> goes, unless it stands behind one
  that went.
\<close>

fun take_out :: "('a \<Rightarrow> string) \<Rightarrow> string \<Rightarrow> bool \<Rightarrow> 'a list \<Rightarrow> 'a list" where
  "take_out key k skip [] = []"
| "take_out key k skip (r # rs) =
     (if \<not> skip \<and> key r = k then take_out key k True rs else r # take_out key k False rs)"

lemma rdup_inner_take_out: "rdup_inner key k q rs = q # take_out key k False rs"
  by (induction key k q rs rule: rdup_inner.induct) (auto split: list.splits)

lemma take_out_set: "set (take_out key k b rs) \<subseteq> set rs"
  by (induction rs arbitrary: b) auto

lemma take_out_append: "\<exists>b'. take_out key k b (xs @ ys) = take_out key k b xs @ take_out key k b' ys"
  by (induction xs arbitrary: b) auto

lemma take_out_other: "\<forall>r \<in> set rs. key r \<noteq> k \<Longrightarrow> take_out key k b rs = rs"
  by (induction rs arbitrary: b) auto

lemma take_out_length: "length (take_out key k b rs) \<le> length rs"
  by (induction rs arbitrary: b) (auto intro: le_SucI)

lemma take_out_half:
  "\<forall>r \<in> set rs. key r = k \<Longrightarrow> length (take_out key k b rs) = (length rs + (if b then 1 else 0)) div 2"
  by (induction rs arbitrary: b) auto

text \<open>A run of equal words is halved once for every word left of it.\<close>

lemma rdup_run:
  assumes "\<forall>e \<in> set run. key e = w" and "\<forall>e \<in> set xs \<union> set ys. key e \<noteq> w"
  shows "2 ^ length (filter (\<lambda>e. key e = w) (rdup key (xs @ run @ ys))) \<le> length run + 1 \<and>
    length run + 1 < 2 ^ (length (filter (\<lambda>e. key e = w) (rdup key (xs @ run @ ys))) + 1)"
  using assms
proof (induction "length (xs @ run @ ys)" arbitrary: xs run ys rule: less_induct)
  case less
  let ?n = "\<lambda>l. length (filter (\<lambda>e. key e = w) (rdup key l))"
  consider q xs1 where "xs = q # xs1" | e run1 where "xs = []" "run = e # run1" | "xs = []" "run = []"
    by (meson neq_Nil_conv)
  then show ?case
  proof cases
    case 1
    obtain b1 where b1: "take_out key (key q) False (xs1 @ run @ ys) = take_out key (key q) False xs1 @ take_out key (key q) b1 (run @ ys)"
      using take_out_append by blast
    obtain b2 where b2: "take_out key (key q) b1 (run @ ys) = take_out key (key q) b1 run @ take_out key (key q) b2 ys"
      using take_out_append by blast
    let ?xs = "take_out key (key q) False xs1" and ?ys = "take_out key (key q) b2 ys"
    have q: "key q \<noteq> w" using less.prems(2) 1 by simp
    have "take_out key (key q) b1 run = run" by (rule take_out_other) (use q less.prems(1) in auto)
    then have r: "rdup key (xs @ run @ ys) = q # rdup key (?xs @ run @ ?ys)" using 1 b1 b2 by (simp add: rdup_inner_take_out)
    have "length (?xs @ run @ ?ys) < length (xs @ run @ ys)"
      using take_out_length [of key "key q" False xs1] take_out_length [of key "key q" b2 ys] 1 by simp
    moreover have "\<forall>e \<in> set ?xs \<union> set ?ys. key e \<noteq> w"
      using less.prems(2) 1 take_out_set [of key "key q" False xs1] take_out_set [of key "key q" b2 ys] by auto
    ultimately show ?thesis using less.hyps [of ?xs run ?ys] less.prems(1) r q by simp
  next
    case 2
    obtain b where b: "take_out key w False (run1 @ ys) = take_out key w False run1 @ take_out key w b ys"
      using take_out_append by blast
    let ?r = "take_out key w False run1"
    have e: "key e = w" "\<forall>r \<in> set run1. key r = w" using less.prems(1) 2 by auto
    have "take_out key w b ys = ys" by (rule take_out_other) (use less.prems(2) in auto)
    then have r: "rdup key (xs @ run @ ys) = e # rdup key ([] @ ?r @ ys)" using 2 b e(1) by (simp add: rdup_inner_take_out)
    have l: "length ?r = length run1 div 2" using take_out_half [OF e(2), of False] by simp
    have "\<forall>r \<in> set ?r. key r = w" using e(2) take_out_set [of key w False run1] by auto
    moreover have "length ([] @ ?r @ ys) < length (xs @ run @ ys)" using 2 l by simp
    ultimately have "2 ^ ?n ([] @ ?r @ ys) \<le> length ?r + 1" "length ?r + 1 < 2 ^ (?n ([] @ ?r @ ys) + 1)"
      using less.hyps [of "[]" ?r ys] less.prems(2) 2 by auto
    moreover have "2 * p \<le> Suc (Suc n) \<and> Suc (Suc n) < 4 * p" if "p \<le> Suc (n div 2)" "Suc (n div 2) < 2 * p" for p n :: nat
      using that by linarith
    ultimately show ?thesis using r e(1) 2 l by simp
  next
    case 3
    have "\<forall>e \<in> set (rdup key ys). key e \<noteq> w" using subseq_set [OF rdup_subseq, of key ys] less.prems(2) by auto
    then show ?thesis using 3 by (simp add: filter_empty_conv)
  qed
qed

text \<open>
  What that means for the entries: the list only loses entries, no word is lost, and when no word occurs
  more than twice none is left twice.
\<close>

lemma rdup_inner_filter:
  "length (filter (\<lambda>r. key r = k) rs) \<le> 1 \<Longrightarrow> rdup_inner key k q rs = q # filter (\<lambda>r. key r \<noteq> k) rs"
proof (induction key k q rs rule: rdup_inner.induct)
  case (2 key k q r rs)
  show ?case
  proof (cases "key r = k")
    case True
    then have none: "filter (\<lambda>r. key r = k) rs = []" using 2(3) by (simp add: filter_empty_conv)
    then have all: "\<forall>x \<in> set rs. key x \<noteq> k" by (auto simp: filter_empty_conv)
    show ?thesis
    proof (cases rs)
      case (Cons q' rs')
      then show ?thesis using True 2(1) [OF True Cons] all by (simp add: filter_empty_conv filter_id_conv)
    qed (use True in simp)
  qed (use 2 in simp)
qed simp

lemma rdup_distinct:
  "\<forall>k. length (filter (\<lambda>r. key r = k) l) \<le> 2 \<Longrightarrow> distinct (map key (rdup key l))"
proof (induction "length l" arbitrary: l rule: less_induct)
  case less
  show ?case
  proof (cases l)
    case (Cons q rs)
    let ?f = "filter (\<lambda>r. key r \<noteq> key q) rs"
    have "length (filter (\<lambda>r. key r = key q) rs) \<le> 1" using less.prems Cons by (auto dest: spec [of _ "key q"])
    then have r: "rdup key l = q # rdup key ?f" using Cons rdup_inner_filter [of key "key q" rs q] by simp
    have "length (filter (\<lambda>r. key r = k) ?f) \<le> 2" for k
    proof -
      have "length (filter (\<lambda>r. key r = k) ?f) \<le> length (filter (\<lambda>r. key r = k) rs)"
        by (induction rs) auto
      also have "\<dots> \<le> length (filter (\<lambda>r. key r = k) l)" using Cons by simp
      finally show ?thesis using less.prems by (meson le_trans)
    qed
    moreover have "length ?f < length l" using Cons by (simp add: le_imp_less_Suc)
    ultimately have "distinct (map key (rdup key ?f))" using less.hyps by blast
    moreover have "key q \<notin> key ` set (rdup key ?f)" using subseq_set [OF rdup_subseq, of key ?f] by auto
    ultimately show ?thesis using r by simp
  qed simp
qed

lemma rdup_inner_keys: "insert k (key ` set (rdup_inner key k q rs)) = insert k (key ` set (q # rs))"
proof (induction key k q rs rule: rdup_inner.induct)
  case (2 key k q r rs)
  show ?case
  proof (cases "key r = k")
    case True
    show ?thesis
    proof (cases rs)
      case (Cons q' rs')
      have "insert k (key ` set (rdup_inner key k q' rs')) = insert k (key ` set (q' # rs'))" by (rule 2(1) [OF True Cons])
      then have "insert (key q) (insert k (key ` set (rdup_inner key k q' rs'))) = insert (key q) (insert k (key ` set (q' # rs')))"
        by (rule arg_cong)
      then show ?thesis using True Cons by (simp add: insert_commute)
    qed (use True in auto)
  next
    case False
    then have "insert k (key ` set (rdup_inner key k r rs)) = insert k (key ` set (r # rs))" using 2(2) by simp
    then have "insert (key q) (insert k (key ` set (rdup_inner key k r rs))) = insert (key q) (insert k (key ` set (r # rs)))"
      by (rule arg_cong)
    then show ?thesis using False by (simp add: insert_commute)
  qed
qed simp

lemma rdup_keys: "key ` set (rdup key l) = key ` set l"
proof (induction "length l" arbitrary: l rule: less_induct)
  case less
  show ?case
  proof (cases l)
    case (Cons q rs)
    obtain l' where l': "rdup_inner key (key q) q rs = q # l'" "length l' \<le> length rs" "rdup key (q # rs) = q # rdup key l'"
      by (rule rdup_Cons)
    have "insert (key q) (key ` set l') = insert (key q) (key ` set rs)" using rdup_inner_keys [of "key q" key q rs] l'(1) by simp
    then show ?thesis using less [of l'] l'(2,3) Cons by simp
  qed simp
qed

section \<open>Sample lists\<close>

text \<open>A list on a started store: the head and one node for each of the strings from address 12 on.\<close>

definition sample_list :: "nat \<Rightarrow> Namelist" where
  "sample_list n = map (\<lambda>a. \<lparr>nl_str = Some a, nl_num = 0\<rparr>) [12..<12 + Suc n]"

lemma sample_list_adr [simp]: "Some a \<in> nl_str ` set (sample_list n) \<longleftrightarrow> 12 \<le> a \<and> a < 12 + Suc n"
  by (auto simp: sample_list_def image_iff)

lemma sample_list_ok:
  assumes t: "\<forall>t \<in> set ts. NUL \<notin> set t" and n: "Suc n \<le> length ts"
  shows "nl_ok (sample_list n) (started_store ts)"
    and "entries (sample_list n) (started_store ts) = map (\<lambda>t. (t, 0)) (take n (tl ts))"
proof -
  have "12 \<le> a \<and> a \<le> 11 + length ts" if "a \<in> set [12..<12 + Suc n]" for a using that n by auto
  then have v: "sview (started_store ts) a = Some (ts ! (a - 12))" if "a \<in> set [12..<12 + Suc n]" for a
    using started_sview [OF t, of a] that by force
  have "nl_live (sample_list n) (started_store ts)" using v by (auto simp: nl_live_def sample_list_def)
  moreover have "distinct (map nl_str (sample_list n))" by (simp add: sample_list_def comp_def distinct_map inj_on_def)
  ultimately show "nl_ok (sample_list n) (started_store ts)" using started_inv [OF t] by (simp add: nl_ok_def sample_list_def)
  have tlu: "tl [12..<12 + Suc n] = [13..<13 + n]" by (simp add: upt_conv_Cons)
  have "entries (sample_list n) (started_store ts) = map (\<lambda>a. (ts ! (a - 12), 0)) [13..<13 + n]"
    using v by (auto simp: entries_def sample_list_def map_tl [symmetric] tlu entry_def text_at_def comp_def simp del: upt_Suc)
  also have "\<dots> = map (\<lambda>t. (t, 0)) (take n (tl ts))"
    by (rule nth_equalityI) (use n in \<open>auto simp: nth_tl\<close>)
  finally show "entries (sample_list n) (started_store ts) = map (\<lambda>t. (t, 0)) (take n (tl ts))" .
qed

section \<open>Properties\<close>

text \<open>
  C12. Under the start-up collation \<open>chxcompare\<close> is a total order on strings: it gives 0 exactly for equal strings,
  swapping the arguments swaps the sign, and it is transitive; it changes nothing.
\<close>

theorem chxcompare_total_order:
  assumes "chx_inv s" and "rules s = init_rules" and "sview s a = Some x" and "sview s b = Some y" and "sview s c = Some z"
  shows "\<exists>r q t. chxcompare (Some a) (Some b) ALLCHARS s = Some (r, s) \<and>
    chxcompare (Some b) (Some a) ALLCHARS s = Some (- r, s) \<and> (r = 0 \<longleftrightarrow> x = y) \<and>
    chxcompare (Some b) (Some c) ALLCHARS s = Some (q, s) \<and> chxcompare (Some a) (Some c) ALLCHARS s = Some (t, s) \<and>
    (r \<le> 0 \<and> q \<le> 0 \<longrightarrow> t \<le> 0)"
proof -
  let ?c = "compare_str init_rules"
  have n: "x \<in> {x. NUL \<notin> set x}" "y \<in> {x. NUL \<notin> set x}" "z \<in> {x. NUL \<notin> set x}"
    using live_no_NUL assms(3-5) by auto
  have "?c x y = 0 \<longleftrightarrow> x = y" using init_order.cmp_zero [OF n(1,2)] init_order.cmp_refl by blast
  moreover have "?c x y \<le> 0 \<and> ?c y z \<le> 0 \<longrightarrow> ?c x z \<le> 0" using init_order.cmp_trans [OF n] by blast
  moreover have "?c y x = - ?c x y" by (rule compare_antisym)
  moreover have "chxcompare (Some a) (Some b) ALLCHARS s = Some (?c x y, s)" "chxcompare (Some b) (Some a) ALLCHARS s = Some (?c y x, s)"
    "chxcompare (Some b) (Some c) ALLCHARS s = Some (?c y z, s)" "chxcompare (Some a) (Some c) ALLCHARS s = Some (?c x z, s)"
    using chxcompare_ok [OF assms(1)] assms(2-5) by simp_all
  ultimately show ?thesis by auto
qed

theorem chxcompare_total_order_witness:
  "\<exists>r q t. chxcompare (Some 12) (Some 13) ALLCHARS (started_store [''ant'', ''bee'', ''cow'']) = Some (r, started_store [''ant'', ''bee'', ''cow'']) \<and>
    chxcompare (Some 13) (Some 12) ALLCHARS (started_store [''ant'', ''bee'', ''cow'']) = Some (- r, started_store [''ant'', ''bee'', ''cow'']) \<and> (r = 0 \<longleftrightarrow> ''ant'' = ''bee'') \<and>
    chxcompare (Some 13) (Some 14) ALLCHARS (started_store [''ant'', ''bee'', ''cow'']) = Some (q, started_store [''ant'', ''bee'', ''cow'']) \<and>
    chxcompare (Some 12) (Some 14) ALLCHARS (started_store [''ant'', ''bee'', ''cow'']) = Some (t, started_store [''ant'', ''bee'', ''cow'']) \<and>
    (r \<le> 0 \<and> q \<le> 0 \<longrightarrow> t \<le> 0)"
  by (rule chxcompare_total_order) (simp_all add: started_inv started_sview)

text \<open>
  C13. \<open>nladd\<close> keeps a sorted list sorted: on a proper list, in any store with the start-up collation, it returns 1
  and links exactly one new entry with a copy of the string and the number, before the first entry that
  comes after it; all other entries keep their place, and the strings of the store stay as they were.
\<close>

theorem nladd_keeps_order:
  assumes "nl_ok p s" and "rules s = init_rules" and "sview s a = Some x" and "in_order (compare_str init_rules) (entries p s)"
  shows "\<exists>p' s' u v. nladd p (Some a) n s = Some (1, p', s') \<and> nl_ok p' s' \<and> old_kept s s' \<and>
    entries p s = u @ v \<and> entries p' s' = u @ (x, wrap16 n) # v \<and> in_order (compare_str init_rules) (entries p' s') \<and>
    (v = [] \<or> compare_str init_rules x (fst (hd v)) < 0)"
proof -
  obtain p' s' where r: "nladd p (Some a) n s = Some (1, p', s')" "nl_ok p' s'"
    "entries p' s' = ins (compare_str (rules s)) (x, wrap16 n) (entries p s)"
    "chx_to s ((sview s)(next_adr s \<mapsto> x)) s'"
    by (rule nladd_ok [OF assms(1,3)])
  have inv: "chx_inv s" "nl_live p s" using assms(1) by (simp_all add: nl_ok_def)
  have car: "fst ` set ((x, wrap16 n) # entries p s) \<subseteq> {x. NUL \<notin> set x}"
    using entries_no_NUL [OF inv(2)] live_no_NUL [OF assms(3)] by auto
  obtain u v where uv: "entries p s = u @ v" "ins (compare_str init_rules) (x, wrap16 n) (entries p s) = u @ (x, wrap16 n) # v"
      "v = [] \<or> compare_str init_rules (fst (x, wrap16 n)) (fst (hd v)) < 0"
    using init_order.ins_split by blast
  have o: "in_order (compare_str init_rules) (entries p' s')"
    using init_order.ins_in_order [OF assms(4) car] r(3) assms(2) by simp
  show ?thesis
    using r(1,2) o uv r(3) [unfolded assms(2) uv(2)] old_kept_fresh [OF r(4) fresh_not_live [OF inv(1)]]
    by (intro exI [of _ p'] exI [of _ s'] exI [of _ u] exI [of _ v]) simp
qed

theorem nladd_keeps_order_witness:
  "\<exists>p' s' u v. nladd (sample_list 2) (Some 15) 7 (started_store [''head'', ''ant'', ''cow'', ''bee'']) = Some (1, p', s') \<and> nl_ok p' s' \<and>
    old_kept (started_store [''head'', ''ant'', ''cow'', ''bee'']) s' \<and>
    entries (sample_list 2) (started_store [''head'', ''ant'', ''cow'', ''bee'']) = u @ v \<and>
    entries p' s' = u @ (''bee'', wrap16 7) # v \<and> in_order (compare_str init_rules) (entries p' s') \<and>
    (v = [] \<or> compare_str init_rules ''bee'' (fst (hd v)) < 0)"
  by (rule nladd_keeps_order)
     (simp_all add: sample_list_ok started_sview in_order_def, simp add: col_def init_rules_def bval_def)

text \<open>
  \<open>nlcopy\<close> makes an independent copy: the new list has the same entries in the same order, none of its chix
  was in use before, and every string of the store, so the old list too, is unchanged.
\<close>

theorem nlcopy_independent:
  assumes "nl_ok p s" and "\<forall>q \<in> set (tl p). wrap16 (nl_num q) = nl_num q"
  shows "\<exists>p' s'. nlcopy p s = Some (p', s') \<and> nl_ok p' s' \<and> entries p' s' = entries p s \<and>
    (\<forall>q \<in> set p'. sview s (the (nl_str q)) = None) \<and> old_kept s s'"
  using nlcopy_ok [OF assms] by metis

theorem nlcopy_independent_witness:
  "\<exists>p' s'. nlcopy (sample_list 1) (started_store [''head'', ''ant'']) = Some (p', s') \<and> nl_ok p' s' \<and>
    entries p' s' = entries (sample_list 1) (started_store [''head'', ''ant'']) \<and>
    (\<forall>q \<in> set p'. sview (started_store [''head'', ''ant'']) (the (nl_str q)) = None) \<and> old_kept (started_store [''head'', ''ant'']) s'"
  by (rule nlcopy_independent) (simp add: sample_list_ok, simp add: sample_list_def wrap16_id)

text \<open>
  \<open>nlfind\<close> finds the first entry whose first word is the given string: the result is the list from that node on,
  and the null list exactly when no entry has that first word. Apart from its own static work chix, which
  it allocates at the first call, no string changes.
\<close>

theorem nlfind_first:
  assumes "nl_ok p s" and "blanks s \<noteq> None" and "sview s b = Some y"
    and "\<forall>w. word1 = Some w \<longrightarrow> sview s w \<noteq> None \<and> Some w \<notin> nl_str ` set p \<and> w \<noteq> b"
  shows "\<exists>before found w' s'. nlfind p (Some b) word1 s = Some (found, Some w', s') \<and> chx_inv s' \<and>
    tl p = before @ found \<and> (\<forall>q \<in> set before. nth_word (token_blanks s) 1 (fst (entry s q)) \<noteq> y) \<and>
    (found = [] \<or> nth_word (token_blanks s) 1 (fst (entry s (hd found))) = y) \<and>
    (\<forall>a. a \<noteq> w' \<longrightarrow> sview s' a = sview s a)"
proof -
  let ?P = "\<lambda>q. nth_word (token_blanks s) 1 (fst (entry s q)) \<noteq> y"
  obtain w' s' where r: "nlfind p (Some b) word1 s = Some (dropWhile ?P (tl p), Some w', s')" "chx_inv s'"
    "\<forall>a. a \<noteq> w' \<longrightarrow> sview s' a = sview s a"
    using nlfind_ok [OF assms(1-3), of word1] assms(4) by metis
  have "tl p = takeWhile ?P (tl p) @ dropWhile ?P (tl p)" by simp
  moreover have "\<forall>q \<in> set (takeWhile ?P (tl p)). ?P q" by (auto dest: set_takeWhileD)
  moreover have "dropWhile ?P (tl p) = [] \<or> \<not> ?P (hd (dropWhile ?P (tl p)))" using hd_dropWhile [of ?P "tl p"] by blast
  ultimately show ?thesis using r by blast
qed

theorem nlfind_first_witness:
  "\<exists>before found w' s'. nlfind (sample_list 2) (Some 15) nullchix (started_store [''head'', ''ant 1'', ''cow 2'', ''cow'']) = Some (found, Some w', s') \<and>
    chx_inv s' \<and> tl (sample_list 2) = before @ found \<and>
    (\<forall>q \<in> set before. nth_word (token_blanks (started_store [''head'', ''ant 1'', ''cow 2'', ''cow''])) 1
        (fst (entry (started_store [''head'', ''ant 1'', ''cow 2'', ''cow'']) q)) \<noteq> ''cow'') \<and>
    (found = [] \<or> nth_word (token_blanks (started_store [''head'', ''ant 1'', ''cow 2'', ''cow''])) 1
        (fst (entry (started_store [''head'', ''ant 1'', ''cow 2'', ''cow'']) (hd found))) = ''cow'') \<and>
    (\<forall>a. a \<noteq> w' \<longrightarrow> sview s' a = sview (started_store [''head'', ''ant 1'', ''cow 2'', ''cow'']) a)"
  by (rule nlfind_first) (simp_all add: sample_list_ok started_sview)

text \<open>
  C14. \<open>nlfree\<close> gives back the chix of every node, the head's included, and no other: afterwards exactly those
  addresses are gone from the store.
\<close>

theorem nlfree_releases:
  assumes "nl_ok p s" and "blanks s \<notin> nl_str ` set p"
  shows "\<exists>s'. nlfree p s = Some (1, s') \<and> chx_inv s' \<and>
    sview s' = (\<lambda>a. if Some a \<in> nl_str ` set p then None else sview s a)"
proof -
  have "chx_inv s" "nl_live p s" "distinct (map nl_str p)" using assms(1) by (simp_all add: nl_ok_def)
  then obtain s' where "nlfree p s = Some (1, s')" "chx_inv s'"
      "sview s' = (\<lambda>a. if Some a \<in> nl_str ` set p then None else sview s a)"
    using nlfree_ok [OF _ _ _ assms(2)] by metis
  then show ?thesis by blast
qed

theorem nlfree_releases_witness:
  "\<exists>s'. nlfree (sample_list 1) (started_store [''head'', ''ant'']) = Some (1, s') \<and> chx_inv s' \<and>
    sview s' = (\<lambda>a. if Some a \<in> nl_str ` set (sample_list 1) then None else sview (started_store [''head'', ''ant'']) a)"
  by (rule nlfree_releases) (simp_all add: sample_list_ok)

text \<open>
  C15. \<open>nlrdup\<close> without an interrupt: the list only loses entries, keeps their order, loses no word, and frees exactly
  the chix of the nodes it takes out. When no \<open>n\<close>'th word occurs more than twice, no word is left twice.
\<close>

theorem nlrdup_removes:
  assumes "nl_ok p s" and "blanks s \<noteq> None" and "blanks s \<notin> nl_str ` set p" and "1 \<le> n"
  shows "\<exists>p' s'. nlrdup p n [] s = Some (1, p', s') \<and> nl_ok p' s' \<and> subseq (entries p' s') (entries p s) \<and>
    (let word = \<lambda>e. nth_word (token_blanks s) n (fst e) in
     word ` set (entries p' s') = word ` set (entries p s) \<and>
     ((\<forall>w. length (filter (\<lambda>e. word e = w) (entries p s)) \<le> 2) \<longrightarrow> distinct (map word (entries p' s')))) \<and>
    (\<forall>a x. sview s a = Some x \<longrightarrow> sview s' a = (if Some a \<in> nl_str ` set p - nl_str ` set p' then None else Some x))"
proof -
  let ?w = "\<lambda>e :: string \<times> int. nth_word (token_blanks s) n (fst e)"
  obtain p' s' where r: "nlrdup p n [] s = Some (1, p', s')" "nl_ok p' s'" "entries p' s' = rdup ?w (entries p s)"
    "\<forall>a x. sview s a = Some x \<longrightarrow> sview s' a = (if Some a \<in> dropped p p' then None else Some x)"
    by (rule nlrdup_ok [OF assms])
  show ?thesis
    using r rdup_subseq [of ?w "entries p s"] rdup_keys [of ?w "entries p s"] rdup_distinct [of ?w "entries p s"]
    by (intro exI [of _ p'] exI [of _ s']) (simp add: Let_def dropped_def)
qed

theorem nlrdup_removes_witness:
  "\<exists>p' s'. nlrdup (sample_list 2) 1 [] (started_store [''h'', ''a 1'', ''a 2'']) = Some (1, p', s') \<and> nl_ok p' s' \<and>
    subseq (entries p' s') (entries (sample_list 2) (started_store [''h'', ''a 1'', ''a 2'']))"
proof -
  let ?s = "started_store [''h'', ''a 1'', ''a 2'']"
  have "nl_ok (sample_list 2) ?s" "blanks ?s \<noteq> None" "blanks ?s \<notin> nl_str ` set (sample_list 2)" "1 \<le> (1 :: int)"
    by (simp_all add: sample_list_ok)
  from nlrdup_removes [OF this] show ?thesis by blast
qed

text \<open>
  C16. \<open>nlrdup\<close> leaves duplicates behind. After taking an entry out its inner loop steps over the next one: when the
  \<open>n\<close>'th word \<open>w\<close> stands in \<open>m\<close> entries next to each other and in no other, the entries left with that word are
  \<open>k\<close> many with \<open>2 ^ k \<le> m + 1 < 2 ^ (k + 1)\<close>, one of them only when \<open>m\<close> is 1 or 2. The header comment says that
  entries with the same word are removed.
\<close>

theorem nlrdup_leaves_duplicates:
  assumes "nl_ok p s" and "blanks s \<noteq> None" and "blanks s \<notin> nl_str ` set p" and "1 \<le> n"
    and "entries p s = xs @ run @ ys"
    and "\<forall>e \<in> set run. nth_word (token_blanks s) n (fst e) = w"
    and "\<forall>e \<in> set xs \<union> set ys. nth_word (token_blanks s) n (fst e) \<noteq> w"
  shows "\<exists>p' s' k. nlrdup p n [] s = Some (1, p', s') \<and>
    k = length (filter (\<lambda>e. nth_word (token_blanks s) n (fst e) = w) (entries p' s')) \<and>
    2 ^ k \<le> length run + 1 \<and> length run + 1 < 2 ^ (k + 1)"
proof -
  obtain p' s' where r: "nlrdup p n [] s = Some (1, p', s')"
      "entries p' s' = rdup (\<lambda>e. nth_word (token_blanks s) n (fst e)) (entries p s)"
    by (rule nlrdup_ok [OF assms(1-4)])
  show ?thesis using r rdup_run [OF assms(6,7)] assms(5) by auto
qed

theorem nlrdup_leaves_duplicates_witness:
  "\<exists>p' s' k. nlrdup (sample_list 3) 1 [] (started_store [''h'', ''a'', ''a'', ''a'']) = Some (1, p', s') \<and>
    k = length (filter (\<lambda>e. nth_word (token_blanks (started_store [''h'', ''a'', ''a'', ''a''])) 1 (fst e) = ''a'') (entries p' s')) \<and>
    2 ^ k \<le> length [(''a'', 0 :: int), (''a'', 0), (''a'', 0)] + 1 \<and> length [(''a'', 0 :: int), (''a'', 0), (''a'', 0)] + 1 < 2 ^ (k + 1)"
proof -
  let ?s = "started_store [''h'', ''a'', ''a'', ''a'']" and ?e = "[(''a'', 0), (''a'', 0), (''a'', 0)] :: (string \<times> int) list"
  have ok: "nl_ok (sample_list 3) ?s" "blanks ?s \<noteq> None" "blanks ?s \<notin> nl_str ` set (sample_list 3)" "1 \<le> (1 :: int)"
    by (simp_all add: sample_list_ok)
  have e: "entries (sample_list 3) ?s = [] @ ?e @ []" by (simp add: sample_list_ok)
  have "nth_word [CHR '' '', CHR 0x0A, CHR 0x09] 1 ''a'' = ''a''" by code_simp
  then have w: "\<forall>e \<in> set ?e. nth_word (token_blanks ?s) 1 (fst e) = ''a''" by (simp add: started_blanks)
  show ?thesis by (rule nlrdup_leaves_duplicates [OF ok e w]) simp
qed

end
