(* ===== verification/ChixKept.thy ===== *)
theory ChixKept
  imports ChixToken
begin

text \<open>
  What the routines that use the chix functions may rely on from call to call. The scanners of
  \<open>chx\<close> fill a table of blanks on their first call; \<open>kept\<close> and \<open>reads\<close> describe what later calls see in spite
  of that.
\<close>

section \<open>What the calls keep\<close>

text \<open>
  The functions below read with tables that the first calls fill. \<open>kept\<close> says that the invariant holds, the start-up
  data are the same and the scanners split as before, whether their tables are filled by now or not.
\<close>

definition blank_blanks :: "chx_state \<Rightarrow> string" where
  "blank_blanks s = (case tab_blank s of Some bl \<Rightarrow> bl | None \<Rightarrow> blank_chars s)"

definition kept :: "chx_state \<Rightarrow> chx_state \<Rightarrow> bool" where
  "kept s s' \<longleftrightarrow> chx_inv s' \<and> blanks s' = blanks s \<and> rules s' = rules s \<and> ctab s' = ctab s \<and> int4_blanks s' = int4_blanks s \<and>
     nextw_blanks s' = nextw_blanks s \<and> token_blanks s' = token_blanks s \<and> blank_blanks s' = blank_blanks s \<and> next_adr s \<le> next_adr s'"

lemma kept_trans: "kept s s1 \<Longrightarrow> kept s1 s2 \<Longrightarrow> kept s s2"
  by (auto simp: kept_def)

lemma kept_inv: "kept s s' \<Longrightarrow> chx_inv s'"
  by (simp add: kept_def)

lemma blank_chars_keep:
  assumes "blanks s' = blanks s" and "\<forall>z. blanks s = Some z \<longrightarrow> sview s' z = sview s z"
  shows "blank_chars s' = blank_chars s"
  using assms by (cases "blanks s") (auto simp: blank_chars_def)

lemma kept_I:
  assumes "chx_inv s'" and "blanks s' = blanks s" "rules s' = rules s" "ctab s' = ctab s" and "next_adr s \<le> next_adr s'"
    and "\<forall>z. blanks s = Some z \<longrightarrow> sview s' z = sview s z"
    and "tab_int4 s' = tab_int4 s \<or> tab_int4 s' = Some (int4_blanks s)"
    and "tab_nextw s' = tab_nextw s \<or> tab_nextw s' = Some (nextw_blanks s)"
    and "tab_token s' = tab_token s \<or> tab_token s' = Some (token_blanks s)"
    and "tab_blank s' = tab_blank s \<or> tab_blank s' = Some (blank_blanks s)"
  shows "kept s s'"
  using assms(1-5) assms(7-10) blank_chars_keep [OF assms(2,6)]
  by (cases "tab_int4 s"; cases "tab_nextw s"; cases "tab_token s"; cases "tab_blank s")
    (auto simp: kept_def int4_blanks_def nextw_blanks_def token_blanks_def blank_blanks_def)

lemma kept_chx_to: "chx_to s m s' \<Longrightarrow> \<forall>z. blanks s = Some z \<longrightarrow> m z = sview s z \<Longrightarrow> kept s s'"
  using globs_tabs [of s' s] by (intro kept_I) (auto simp: chx_to_def)

lemma live_blanks: "chx_inv s \<Longrightarrow> blanks s = Some z \<Longrightarrow> sview s z \<noteq> None"
  by (auto simp: chx_inv_def statics_ok_def)

text \<open>Calls that look but do not change any string.\<close>

definition reads :: "chx_state \<Rightarrow> chx_state \<Rightarrow> bool" where
  "reads s s' \<longleftrightarrow> kept s s' \<and> sview s' = sview s"

lemma reads_refl: "chx_inv s \<Longrightarrow> reads s s"
  by (simp add: reads_def kept_def)

lemma reads_trans: "reads s s1 \<Longrightarrow> reads s1 s2 \<Longrightarrow> reads s s2"
  by (auto simp: reads_def intro: kept_trans)

lemma reads_chx_to: "chx_to s (sview s) s' \<Longrightarrow> reads s s'"
  by (auto simp: reads_def chx_to_def intro: kept_chx_to [unfolded chx_to_def])

lemma readsD:
  assumes "reads s s'"
  shows "chx_inv s'" "sview s' = sview s" "blanks s' = blanks s" "rules s' = rules s" "ctab s' = ctab s" "blank_blanks s' = blank_blanks s"
    "token_blanks s' = token_blanks s" "next_adr s \<le> next_adr s'"
  using assms by (simp_all add: reads_def kept_def)

lemma chxvalue_reads:
  assumes "chx_inv s" and "sview s a = Some x" and "0 \<le> n"
  obtains s' where "chxvalue (Some a) n s = Some (char_at x n, s')" "reads s s'"
  using chxvalue_ok [OF assms] reads_chx_to by blast

lemma chxlen_reads:
  assumes "chx_inv s" and "sview s a = Some x"
  obtains s' where "chxlen (Some a) s = Some (int (length x), s')" "reads s s'"
  using chxlen_ok [OF assms] reads_chx_to by blast

lemma EMPTYCHX_reads:
  assumes "chx_inv s" and "sview s a = Some x"
  obtains s' where "EMPTYCHX (Some a) s = Some (x = [], s')" "reads s s'"
  using EMPTYCHX_ok [OF assms] reads_chx_to by blast

lemma chxblank_reads:
  assumes inv: "chx_inv s" and bl: "blanks s \<noteq> None" and c: "0 \<le> c" "c < 256"
  obtains s' where "chxblank c s = Some (if in_tab (blank_blanks s) (byte c) then 1 else 0, s')" "reads s s'"
proof (cases "tab_blank s")
  case None
  obtain s1 where s1: "fill_blanks s = Some (blank_chars s, s1)" "chx_to s (sview s) s1"
    by (rule fill_blanks_ok [OF inv bl])
  note t1 = chx_toD [OF s1(2)]
  let ?s = "s1\<lparr>tab_blank := Some (blank_chars s)\<rparr>"
  have b: "blank_blanks s = blank_chars s" using None by (simp add: blank_blanks_def)
  have v: "sview ?s = sview s1" and "chx_inv ?s" using t1(1) by (simp_all add: set_tab_simps)
  then have "kept s ?s" using t1 globs_tabs [OF t1(3)] v b by (intro kept_I) auto
  then have "reads s ?s" using v t1(2) by (simp add: reads_def)
  moreover have "chxblank c s = Some (if in_tab (blank_blanks s) (byte c) then 1 else 0, ?s)"
    using None s1(1) b c by (simp add: chxblank_def)
  ultimately show thesis using that by blast
next
  case (Some bl)
  then have "chxblank c s = Some (if in_tab (blank_blanks s) (byte c) then 1 else 0, s)" using c by (simp add: chxblank_def blank_blanks_def)
  then show thesis using that reads_refl [OF inv] by blast
qed

end
