(* ===== verification/Sorts.thy ===== *)
theory Sorts
  imports Namelist ChixKept "HOL-Library.Product_Lexorder"
begin

text \<open>
  The sorting functions of the page language (\<open>CV2/sweb\<close>: \<open>num_sort\<close>, \<open>trip_sort\<close>, \<open>gen_sort\<close>). The argument is one
  chix: first the direction, then the things to sort, as words. The sorted words, or their numbers, are
  appended to the result. \<open>num_sort\<close> is a bubble sort of an array, \<open>trip_sort\<close> an insertion into a linked list of
  triples (conference, item, response), \<open>gen_sort\<close> builds a name list and prints the places of the words.
\<close>

section \<open>The functions\<close>

partial_function (option) count_words :: "Chix \<Rightarrow> Chix \<Rightarrow> int \<Rightarrow> int \<Rightarrow> chx_state \<Rightarrow> (int \<times> chx_state) option" where
  "count_words word arg pos cnt s = do {
     (r, pos, s) \<leftarrow> chxnextword word arg pos s;
     if r \<ge> 0 then count_words word arg pos (cnt + 1) s else Some (cnt, s) }"

fun read_values :: "nat \<Rightarrow> Chix \<Rightarrow> int \<Rightarrow> chx_state \<Rightarrow> (int list \<times> int \<times> chx_state) option" where
  "read_values 0 arg pos s = Some ([], pos, s)"
| "read_values (Suc n) arg pos s = do {
     (v, p, s) \<leftarrow> chxint4 arg (Some pos) s;
     (vs, pos, s) \<leftarrow> read_values n arg (the p) s;
     Some (v # vs, pos, s) }"

text \<open>The two loops over the array. The pair in hand is \<open>value[nx-1]\<close>, \<open>value[nx]\<close>.\<close>

definition out_of_order :: "int \<Rightarrow> int \<Rightarrow> int \<Rightarrow> bool" where
  "out_of_order direction a b \<longleftrightarrow> direction > 0 \<and> a > b \<or> direction < 0 \<and> a < b"

function bubble_inner :: "int \<Rightarrow> int \<Rightarrow> int \<Rightarrow> int list \<Rightarrow> int list option" where
  "bubble_inner direction cnt nx val =
     (if nx < cnt
      then (case (idx val (nx - 1), idx val nx) of
              (Some a, Some b) \<Rightarrow> bubble_inner direction cnt (nx + 1)
                 (if out_of_order direction a b then val[nat (nx - 1) := b, nat nx := a] else val)
            | _ \<Rightarrow> None)
      else Some val)"
  by pat_completeness auto
termination
  by (relation "measure (\<lambda>(direction, cnt, nx, val). nat (cnt - nx))") auto

function bubble_outer :: "int \<Rightarrow> int \<Rightarrow> int \<Rightarrow> int list \<Rightarrow> int list option" where
  "bubble_outer direction cnt i val =
     (if i < cnt - 1
      then (case bubble_inner direction cnt 1 val of None \<Rightarrow> None | Some val \<Rightarrow> bubble_outer direction cnt (i + 1) val)
      else Some val)"
  by pat_completeness auto
termination
  by (relation "measure (\<lambda>(direction, cnt, i, val). nat (cnt - i))") auto

declare bubble_inner.simps [simp del] bubble_outer.simps [simp del]

text \<open>\<open>sprintf (temp, "%d ", v); chxcat (result, CQ(temp))\<close> for each value.\<close>

fun put_texts :: "string list \<Rightarrow> Chix \<Rightarrow> chx_state \<Rightarrow> chx_state option" where
  "put_texts [] result s = Some s"
| "put_texts (t # ts) result s = do {
     (q, s) \<leftarrow> CQ t s;
     (_, s) \<leftarrow> chxcat result q s;
     put_texts ts result s }"

definition dec_text :: "int \<Rightarrow> string" where
  "dec_text v = show_int v @ '' ''"

definition num_sort :: "Chix \<Rightarrow> Chix \<Rightarrow> chx_state \<Rightarrow> (int \<times> chx_state) option" where
  "num_sort result arg s =
     (let (word, s) = chxalloc 40 THIN ''num_sort word'' s in do {
        (direction, pos, s) \<leftarrow> chxint4 arg (Some 0) s;
        (cnt, s) \<leftarrow> count_words (Some word) arg (the pos) 0 s;
        (val, _, s) \<leftarrow> read_values (nat cnt) arg (the pos) s;
        val \<leftarrow> bubble_outer direction cnt 0 val;
        s \<leftarrow> put_texts (map dec_text val) result s;
        (_, s) \<leftarrow> chxfree (Some word) s;
        Some (1, s) })"

record Tlist_t =
  cnum :: int
  inum :: int
  rnum :: int

text \<open>The tests that make the search go on behind \<open>post\<close>.\<close>

definition goes_on :: "int \<Rightarrow> Tlist_t \<Rightarrow> Tlist_t \<Rightarrow> bool" where
  "goes_on direction item post \<longleftrightarrow>
     (if direction > 0
      then cnum item > cnum post \<or> (cnum item = cnum post \<and> (inum item > inum post \<or> (inum item = inum post \<and> rnum item > rnum post)))
      else cnum item < cnum post \<or> (cnum item = cnum post \<and> (inum item < inum post \<or> (inum item = inum post \<and> rnum item < rnum post))))"

fun trip_insert :: "int \<Rightarrow> Tlist_t \<Rightarrow> Tlist_t list \<Rightarrow> Tlist_t list" where
  "trip_insert direction item [] = [item]"
| "trip_insert direction item (post # rest) =
     (if goes_on direction item post then post # trip_insert direction item rest else item # post # rest)"

fun trip_loop :: "nat \<Rightarrow> int \<Rightarrow> Chix \<Rightarrow> int \<Rightarrow> Tlist_t list \<Rightarrow> chx_state \<Rightarrow> (Tlist_t list \<times> chx_state) option" where
  "trip_loop 0 direction arg pos l s = Some (l, s)"
| "trip_loop (Suc n) direction arg pos l s = do {
     (c, p, s) \<leftarrow> chxint4 arg (Some pos) s;
     (i, p, s) \<leftarrow> chxint4 arg p s;
     (r, p, s) \<leftarrow> chxint4 arg p s;
     trip_loop n direction arg (the p) (trip_insert direction \<lparr>cnum = c, inum = i, rnum = r\<rparr> l) s }"

definition trip_text :: "Tlist_t \<Rightarrow> string" where
  "trip_text t = show_int (cnum t) @ '' '' @ show_int (inum t) @ '' '' @ show_int (rnum t) @ '' ''"

definition trip_sort :: "Chix \<Rightarrow> Chix \<Rightarrow> chx_state \<Rightarrow> (int \<times> chx_state) option" where
  "trip_sort result arg s =
     (let (word, s) = chxalloc 40 THIN ''trip_sort word'' s in do {
        (direction, pos, s) \<leftarrow> chxint4 arg (Some 0) s;
        (cnt, s) \<leftarrow> count_words (Some word) arg (the pos) 0 s;
        (_, pos, s) \<leftarrow> chxint4 arg (Some 0) s;
        (l, s) \<leftarrow> trip_loop (nat (cnt div 3)) direction arg (the pos) [] s;
        s \<leftarrow> put_texts (map trip_text l) result s;
        (_, s) \<leftarrow> chxfree (Some word) s;
        Some (1, s) })"

partial_function (option) gen_loop :: "nat \<Rightarrow> Chix \<Rightarrow> int \<Rightarrow> Namelist \<Rightarrow> chx_state \<Rightarrow> (Namelist \<times> chx_state) option" where
  "gen_loop word arg token l s = do {
     (r, s) \<leftarrow> chxtoken (Some word) nullchix token arg s;
     if r \<ge> 0 then do {
       (_, l, s) \<leftarrow> nladd l (Some word) (token - 1) s;
       gen_loop word arg (token + 1) l s }
     else Some (l, s) }"

fun gen_print :: "int \<Rightarrow> nat \<Rightarrow> Namelist \<Rightarrow> chx_state \<Rightarrow> chx_state option" where
  "gen_print direction word [] s = Some s"
| "gen_print direction word (node # l) s = do {
     (q, s) \<leftarrow> CQ (dec_text (nl_num node)) s;
     (_, s) \<leftarrow> (if direction > 0 then chxcat (Some word) q s else chxconc (Some word) q (Some word) s);
     gen_print direction word l s }"

definition gen_sort :: "Chix \<Rightarrow> Chix \<Rightarrow> chx_state \<Rightarrow> (int \<times> chx_state) option" where
  "gen_sort result arg s =
     (let (l, s) = nlnode 1 s; (word, s) = chxalloc 80 THIN ''gen_sort word'' s in do {
        (direction, _, s) \<leftarrow> chxint4 arg (Some 0) s;
        (l, s) \<leftarrow> gen_loop word arg 2 l s;
        (_, s) \<leftarrow> chxclear (Some word) s;
        s \<leftarrow> gen_print direction word (tl l) s;
        (_, s) \<leftarrow> chxcat result (Some word) s;
        (_, s) \<leftarrow> chxfree (Some word) s;
        (_, s) \<leftarrow> nlfree l s;
        Some (1, s) })"

section \<open>Bubble sort\<close>

text \<open>One pass over a list, and what repeated passes give for any total preorder.\<close>

fun pass :: "('a \<Rightarrow> 'a \<Rightarrow> bool) \<Rightarrow> 'a list \<Rightarrow> 'a list" where
  "pass le (a # b # xs) = (if le a b then a # pass le (b # xs) else b # pass le (a # xs))"
| "pass le xs = xs"

lemma length_pass [simp]: "length (pass le xs) = length xs"
  by (induction le xs rule: pass.induct) auto

lemma mset_pass [simp]: "mset (pass le xs) = mset xs"
  by (induction le xs rule: pass.induct) auto

lemma set_pass [simp]: "set (pass le xs) = set xs"
  by (metis mset_pass set_mset_mset)

locale sort_order =
  fixes le :: "'a \<Rightarrow> 'a \<Rightarrow> bool"
  assumes total: "le a b \<or> le b a" and transitive: "le a b \<Longrightarrow> le b c \<Longrightarrow> le a c"
begin

text \<open>A pass carries a greatest element to the end, and leaves a sorted end of greater elements alone.\<close>

lemma pass_last: "\<exists>us m. pass le (a # xs) = us @ [m] \<and> (\<forall>x \<in> set (a # xs). le x m)"
proof (induction xs arbitrary: a)
  case Nil
  show ?case using total [of a a] by simp
next
  case (Cons b xs)
  show ?case
  proof (cases "le a b")
    case True
    obtain us m where m: "pass le (b # xs) = us @ [m]" "\<forall>x \<in> set (b # xs). le x m" using Cons [of b] by blast
    then have "le a m" using True transitive by auto
    then show ?thesis using True m by (intro exI [of _ "a # us"] exI [of _ m]) auto
  next
    case False
    obtain us m where m: "pass le (a # xs) = us @ [m]" "\<forall>x \<in> set (a # xs). le x m" using Cons [of a] by blast
    then have "le b m" using False total [of a b] transitive by auto
    then show ?thesis using False m by (intro exI [of _ "b # us"] exI [of _ m]) auto
  qed
qed

lemma pass_sorted: "sorted_wrt le xs \<Longrightarrow> pass le xs = xs"
  by (induction xs rule: induct_list012) auto

lemma pass_append:
  "sorted_wrt le ys \<Longrightarrow> \<forall>x \<in> set xs. \<forall>y \<in> set ys. le x y \<Longrightarrow> pass le (xs @ ys) = pass le xs @ ys"
proof (induction "length xs" arbitrary: xs rule: less_induct)
  case less
  show ?case
  proof (cases xs)
    case Nil
    then show ?thesis using less.prems pass_sorted by simp
  next
    case c1: (Cons a xs1)
    show ?thesis
    proof (cases xs1)
      case Nil
      then show ?thesis using less.prems c1 pass_sorted [of "a # ys"] by simp
    next
      case (Cons b xs2)
      then show ?thesis using less.hyps [of "b # xs2"] less.hyps [of "a # xs2"] less.prems c1 by simp
    qed
  qed
qed

lemma passes:
  "\<exists>us vs. (pass le ^^ k) xs = us @ vs \<and> length vs = min k (length xs) \<and> sorted_wrt le vs \<and>
     (\<forall>u \<in> set us. \<forall>v \<in> set vs. le u v)"
proof (induction k)
  case 0
  then show ?case by simp
next
  case (Suc k)
  then obtain us vs where uv: "(pass le ^^ k) xs = us @ vs" "length vs = min k (length xs)" "sorted_wrt le vs"
    "\<forall>u \<in> set us. \<forall>v \<in> set vs. le u v" by blast
  have len: "length us + length vs = length xs"
  proof -
    have "length ((pass le ^^ k) xs) = length xs" by (induction k) auto
    then show ?thesis using uv(1) by simp
  qed
  have step: "(pass le ^^ Suc k) xs = pass le us @ vs" using uv pass_append by simp
  show ?case
  proof (cases us)
    case Nil
    then have "(pass le ^^ Suc k) xs = [] @ vs" using step by simp
    then show ?thesis using uv len Nil by (intro exI [of _ "[]"] exI [of _ vs]) auto
  next
    case (Cons a us1)
    obtain ws m where m: "pass le us = ws @ [m]" "\<forall>x \<in> set us. le x m" using pass_last [of a us1] Cons by auto
    have "set ws \<subseteq> set us" "m \<in> set us" using m(1) by (metis Un_subset_iff set_append set_pass subset_refl,
        metis in_set_conv_decomp set_pass)
    then have "sorted_wrt le (m # vs)" "\<forall>u \<in> set ws. \<forall>v \<in> set (m # vs). le u v" using uv m by auto
    moreover have "length (m # vs) = min (Suc k) (length xs)" using uv(2) len Cons by simp
    moreover have "(pass le ^^ Suc k) xs = ws @ m # vs" using step m(1) by simp
    ultimately show ?thesis by blast
  qed
qed

lemma passes_sort: "length xs \<le> Suc k \<Longrightarrow> sorted_wrt le ((pass le ^^ k) xs)"
proof -
  assume k: "length xs \<le> Suc k"
  obtain us vs where uv: "(pass le ^^ k) xs = us @ vs" "length vs = min k (length xs)" "sorted_wrt le vs"
    "\<forall>u \<in> set us. \<forall>v \<in> set vs. le u v" using passes [of k xs] by blast
  have "length ((pass le ^^ k) xs) = length xs" by (induction k) auto
  then have "length us \<le> 1" using uv(1,2) k by simp
  then have "sorted_wrt le us" by (cases us) auto
  then show ?thesis using uv by (simp add: sorted_wrt_append)
qed

end

fun insert_by :: "('a \<Rightarrow> 'a \<Rightarrow> bool) \<Rightarrow> 'a \<Rightarrow> 'a list \<Rightarrow> 'a list" where
  "insert_by le x [] = [x]"
| "insert_by le x (y # ys) = (if le x y then x # y # ys else y # insert_by le x ys)"

lemma mset_insert_by [simp]: "mset (insert_by le x ys) = add_mset x (mset ys)"
  by (induction ys) auto

lemma set_insert_by [simp]: "set (insert_by le x ys) = insert x (set ys)"
  by (metis mset_insert_by set_mset_add_mset_insert set_mset_mset)

context sort_order
begin

lemma insert_by_sorted: "sorted_wrt le ys \<Longrightarrow> sorted_wrt le (insert_by le x ys)"
proof (induction ys)
  case (Cons y ys)
  have "le y x" if "\<not> le x y" using total [of x y] that by blast
  then show ?case using Cons transitive [of x y] by auto
qed simp

lemma insert_all_sorted: "sorted_wrt le ys \<Longrightarrow> sorted_wrt le (foldl (\<lambda>l x. insert_by le x l) ys xs)"
  by (induction xs arbitrary: ys) (auto simp: insert_by_sorted)

end

lemma mset_insert_all: "mset (foldl (\<lambda>l x. insert_by le x l) ys xs) = mset ys + mset xs"
  by (induction xs arbitrary: ys) auto

text \<open>The order of a direction: ascending, descending, or no order at all.\<close>

definition dir_le :: "int \<Rightarrow> int \<Rightarrow> int \<Rightarrow> bool" where
  "dir_le direction a b \<longleftrightarrow> \<not> out_of_order direction a b"

interpretation dir: sort_order "dir_le direction" for direction
  by unfold_locales (auto simp: dir_le_def out_of_order_def)

definition trip_le :: "int \<Rightarrow> Tlist_t \<Rightarrow> Tlist_t \<Rightarrow> bool" where
  "trip_le direction a b \<longleftrightarrow> \<not> goes_on direction a b"

definition trip_key :: "Tlist_t \<Rightarrow> int \<times> int \<times> int" where
  "trip_key t = (cnum t, inum t, rnum t)"

lemma trip_le_key: "trip_le direction a b \<longleftrightarrow> (if direction > 0 then trip_key a \<le> trip_key b else trip_key b \<le> trip_key a)"
  by (auto simp: trip_le_def goes_on_def trip_key_def less_eq_prod_def less_prod_def)

interpretation trip: sort_order "trip_le direction" for direction
  by unfold_locales (auto simp: trip_le_key)

lemma trip_insert_by: "trip_insert direction t l = insert_by (trip_le direction) t l"
  by (induction l) (auto simp: trip_le_def)

lemma mset_passes: "mset ((pass le ^^ k) xs) = mset xs"
  by (induction k) auto

lemma length_passes: "length ((pass le ^^ k) xs) = length xs"
  by (metis mset_passes size_mset)

text \<open>The two loops are passes.\<close>

lemma bubble_inner_pass:
  "bubble_inner direction (int (length (ps @ a # xs))) (int (Suc (length ps))) (ps @ a # xs) =
     Some (ps @ pass (dir_le direction) (a # xs))"
proof (induction xs arbitrary: ps a)
  case Nil
  then show ?case by (subst bubble_inner.simps) simp
next
  case (Cons b xs)
  have i: "idx (ps @ a # b # xs) (int (Suc (length ps)) - 1) = Some a" "idx (ps @ a # b # xs) (int (Suc (length ps))) = Some b"
    by (simp_all add: idx_def nth_append nat_add_distrib)
  have u: "(ps @ a # b # xs)[nat (int (Suc (length ps)) - 1) := b, nat (int (Suc (length ps))) := a] = (ps @ [b]) @ a # xs"
    by (simp add: list_update_append nat_add_distrib)
  have "dir_le direction a b \<longleftrightarrow> \<not> out_of_order direction a b" by (simp add: dir_le_def)
  then show ?case using i u Cons [of "ps @ [a]" b] Cons [of "ps @ [b]" a]
    by (subst bubble_inner.simps) (auto simp: algebra_simps)
qed

lemma bubble_inner_full: "bubble_inner direction (int (length xs)) 1 xs = Some (pass (dir_le direction) xs)"
proof (cases xs)
  case Nil
  then show ?thesis by (subst bubble_inner.simps) simp
next
  case (Cons a ys)
  then show ?thesis using bubble_inner_pass [of direction "[]" a ys] by simp
qed

lemma bubble_outer_passes:
  "i \<le> length xs \<Longrightarrow> bubble_outer direction (int (length xs)) (int i) xs =
     Some ((pass (dir_le direction) ^^ (length xs - 1 - i)) xs)"
proof (induction "length xs - 1 - i" arbitrary: i xs)
  case 0
  then show ?case by (subst bubble_outer.simps) auto
next
  case (Suc m)
  then have i: "int i < int (length xs) - 1" "m = length (pass (dir_le direction) xs) - 1 - Suc i" "Suc i \<le> length (pass (dir_le direction) xs)"
    by auto
  have "length xs - 1 - i = Suc (length xs - 1 - Suc i)" using i(1) by simp
  then have "(pass (dir_le direction) ^^ (length xs - 1 - i)) xs =
      (pass (dir_le direction) ^^ (length xs - 1 - Suc i)) (pass (dir_le direction) xs)"
    by (simp only: funpow_Suc_right o_apply)
  then show ?case using Suc.hyps(1) [OF i(2,3)] i(1)
    by (subst bubble_outer.simps) (simp add: bubble_inner_full add.commute)
qed

section \<open>Blanks and numbers\<close>

text \<open>Tables of blanks that number texts are safe with.\<close>

definition num_blanks :: "string \<Rightarrow> bool" where
  "num_blanks bl \<longleftrightarrow> CHR '' '' \<in> set bl \<and> (\<forall>c \<in> set bl. \<not> is_digit c \<and> c \<noteq> CHR ''-'' \<and> c \<noteq> NUL)"

definition sort_ready :: "chx_state \<Rightarrow> bool" where
  "sort_ready s \<longleftrightarrow> chx_inv s \<and> blanks s \<noteq> None \<and> num_blanks (int4_blanks s) \<and> num_blanks (nextw_blanks s)"

lemma sort_ready_kept: "sort_ready s \<Longrightarrow> kept s s' \<Longrightarrow> sort_ready s'"
  by (simp add: sort_ready_def kept_def)

section \<open>Texts of numbers\<close>

definition spaced_nums :: "int list \<Rightarrow> string" where
  "spaced_nums vs = concat (map (\<lambda>v. CHR '' '' # show_int v) vs)"

lemma spaced_nums_simps [simp]:
  "spaced_nums [] = []" "spaced_nums (v # vs) = CHR '' '' # show_int v @ spaced_nums vs"
  by (simp_all add: spaced_nums_def)

lemma spaced_nums_hd: "spaced_nums vs = [] \<or> hd (spaced_nums vs) = CHR '' ''"
  by (cases vs) simp_all

lemma show_int_chars: "c \<in> set (show_int v) \<Longrightarrow> is_digit c \<or> c = CHR ''-''"
  using is_digit_show by (auto simp: show_int_def split: if_splits)

lemma show_int_no_NUL: "NUL \<notin> set (show_int v)"
  using show_int_chars [of NUL v] by (auto simp: is_digit_def digit_def)

lemma read_int_skip:
  "set b \<subseteq> set bl \<Longrightarrow> read_int bl (p @ b @ t) (length p) = read_int bl ((p @ b) @ t) (length (p @ b))"
proof -
  assume b: "set b \<subseteq> set bl"
  have "takeWhile (in_tab bl) (b @ t) = b @ takeWhile (in_tab bl) t"
    using b by (intro takeWhile_append2) (auto simp: in_tab_def)
  then show ?thesis by (simp add: read_int_def Let_def add.assoc)
qed

lemma chxint4_spaced:
  assumes s: "sort_ready s" and a: "sview s a = Some (p @ CHR '' '' # show_int v @ r)" and v: "- (2 ^ 31) \<le> v" "v < 2 ^ 31"
    and r: "r = [] \<or> hd r = CHR '' ''"
  obtains s' where "chxint4 (Some a) (Some (int (length p))) s = Some (v, Some (int (length p + Suc (length (show_int v)))), s')"
    "kept s s'" "sview s' = sview s"
proof -
  have bl: "chx_inv s" "blanks s \<noteq> None" "NUL \<notin> set (int4_blanks s)" "\<forall>c \<in> set (int4_blanks s). \<not> is_digit c"
    "CHR ''-'' \<notin> set (int4_blanks s)" "set '' '' \<subseteq> set (int4_blanks s)"
    using s by (auto simp: sort_ready_def num_blanks_def)
  have r': "r = [] \<or> \<not> is_digit (hd r)" using r by (auto simp: is_digit_def digit_def bval_def)
  have ri: "read_int (int4_blanks s) (p @ '' '' @ show_int v @ r) (length p) = Some (v, length (p @ '' '') + length (show_int v))"
    using read_int_skip [OF bl(6), of p "show_int v @ r"] read_show_at [OF v bl(4,5) r', of "p @ '' ''"] by simp
  have k: "length p \<le> length (p @ CHR '' '' # show_int v @ r)" by simp
  obtain s' where s': "chxint4 (Some a) (Some (int (length p))) s =
      (case read_int (int4_blanks s) (p @ CHR '' '' # show_int v @ r) (length p) of None \<Rightarrow> Some (0, Some (int (length p)), s')
       | Some (v, e) \<Rightarrow> Some (v, Some (int e), s'))"
    "chx_inv s'" "sview s' = sview s" "globs s' = globs (s\<lparr>tab_int4 := Some (int4_blanks s)\<rparr>)" "next_adr s \<le> next_adr s'"
    by (rule chxint4_keeps [OF bl(1,2) a k bl(3)])
  have "kept s s'" by (rule kept_I) (use s' int4_globs [OF s'(4)] in auto)
  then show thesis using that s' ri by simp
qed

lemma next_word_spaced:
  assumes "num_blanks bl"
  shows "next_word bl (p @ spaced_nums []) (length p) = None"
    "next_word bl (p @ spaced_nums (v # vs)) (length p) = Some (Suc (length p), Suc (length p) + length (show_int v), show_int v)"
proof -
  have sp: "in_tab bl (CHR '' '')" "\<And>c. c \<in> set (show_int v) \<Longrightarrow> \<not> in_tab bl c"
    using assms show_int_chars by (auto simp: num_blanks_def in_tab_def)
  have ne: "show_int v \<noteq> []" by (simp add: show_int_def show_nat_not_Nil)
  then have "takeWhile (in_tab bl) (show_int v @ spaced_nums vs) = []" using sp(2) by (cases "show_int v") auto
  moreover have "takeWhile (\<lambda>c. \<not> in_tab bl c) (show_int v @ spaced_nums vs) = show_int v"
    using sp spaced_nums_hd [of vs] by (cases "spaced_nums vs") (auto simp: takeWhile_append)
  ultimately show "next_word bl (p @ spaced_nums (v # vs)) (length p) = Some (Suc (length p), Suc (length p) + length (show_int v), show_int v)"
    using sp(1) ne by (simp add: next_word_def Let_def)
qed (simp add: next_word_def)

lemma read_values_ok:
  assumes "sort_ready s" and "sview s a = Some (p @ spaced_nums vs)" and "\<forall>v \<in> set vs. - (2 ^ 31) \<le> v \<and> v < 2 ^ 31"
  shows "\<exists>s'. read_values (length vs) (Some a) (int (length p)) s = Some (vs, int (length p + length (spaced_nums vs)), s') \<and>
    kept s s' \<and> sview s' = sview s"
  using assms
proof (induction vs arbitrary: p s)
  case Nil
  then show ?case by (simp add: kept_def sort_ready_def)
next
  case (Cons v vs)
  obtain s1 where s1: "chxint4 (Some a) (Some (int (length p))) s = Some (v, Some (int (length p + Suc (length (show_int v)))), s1)"
    "kept s s1" "sview s1 = sview s"
    by (rule chxint4_spaced [OF Cons.prems(1), of a p v "spaced_nums vs"]) (use Cons.prems spaced_nums_hd in auto)
  let ?q = "p @ CHR '' '' # show_int v"
  obtain s2 where "read_values (length vs) (Some a) (int (length ?q)) s1 = Some (vs, int (length ?q + length (spaced_nums vs)), s2)"
    "kept s1 s2" "sview s2 = sview s1"
    using Cons.IH [OF sort_ready_kept [OF Cons.prems(1) s1(2)], of ?q] s1(3) Cons.prems by auto
  then show ?case using s1 kept_trans [OF s1(2)] by (auto simp: algebra_simps)
qed

lemma count_words_ok:
  assumes "sort_ready s" and "sview s a = Some (p @ spaced_nums vs)" and "sview s w = Some x" and "w \<noteq> a" and "blanks s \<noteq> Some w"
  shows "\<exists>s' u. count_words (Some w) (Some a) (int (length p)) n s = Some (n + int (length vs), s') \<and> kept s s' \<and>
    sview s' = (sview s)(w \<mapsto> u)"
  using assms
proof (induction vs arbitrary: p s x n)
  case Nil
  then have nb: "chx_inv s" "blanks s \<noteq> None" "num_blanks (nextw_blanks s)" by (simp_all add: sort_ready_def)
  obtain u s1 where s1: "chxnextword (Some w) (Some a) (int (length p)) s = Some (-1, int (length p), s1)"
    "chx_inv s1" "sview s1 = (sview s)(w \<mapsto> u)" "globs s1 = globs (s\<lparr>tab_nextw := Some (nextw_blanks s)\<rparr>)" "next_adr s \<le> next_adr s1"
    using chxnextword_any [OF nb(1) Nil.prems(3,2,4) nb(2) Nil.prems(5), of "length p"] next_word_spaced(1) [OF nb(3), of p]
    by simp blast
  have "kept s s1" by (rule kept_I) (use s1 Nil.prems(5) in \<open>auto simp: globs_def\<close>)
  then show ?case using s1(1,3) by (subst count_words.simps) auto
next
  case (Cons v vs)
  then have nb: "chx_inv s" "blanks s \<noteq> None" "num_blanks (nextw_blanks s)" by (simp_all add: sort_ready_def)
  let ?q = "p @ CHR '' '' # show_int v"
  obtain u s1 where s1: "chxnextword (Some w) (Some a) (int (length p)) s = Some (int (Suc (length p)), int (length ?q), s1)"
    "chx_inv s1" "sview s1 = (sview s)(w \<mapsto> u)" "globs s1 = globs (s\<lparr>tab_nextw := Some (nextw_blanks s)\<rparr>)" "next_adr s \<le> next_adr s1"
    using chxnextword_any [OF nb(1) Cons.prems(3,2,4) nb(2) Cons.prems(5), of "length p"] next_word_spaced(2) [OF nb(3), of p v vs]
    by simp blast
  have k1: "kept s s1" by (rule kept_I) (use s1 Cons.prems(5) in \<open>auto simp: globs_def\<close>)
  have nw: "blanks s1 \<noteq> Some w" using k1 Cons.prems(5) by (simp add: kept_def)
  have v1: "sview s1 a = Some (?q @ spaced_nums vs)" "sview s1 w = Some u" using s1(3) Cons.prems(2,4) by simp_all
  obtain s2 u2 where s2: "count_words (Some w) (Some a) (int (length ?q)) (n + 1) s1 = Some (n + 1 + int (length vs), s2)" "kept s1 s2"
    "sview s2 = (sview s1)(w \<mapsto> u2)"
    using Cons.IH [OF sort_ready_kept [OF Cons.prems(1) k1] v1 Cons.prems(4) nw, of "n + 1"] by blast
  have "count_words (Some w) (Some a) (int (length p)) n s = Some (n + int (length (v # vs)), s2)"
    using s1(1) s2(1) by (subst count_words.simps) simp
  moreover have "sview s2 = (sview s)(w \<mapsto> u2)" using s2(3) s1(3) by simp
  ultimately show ?case using kept_trans [OF k1 s2(2)] by blast
qed

section \<open>Output\<close>

lemma put_texts_ok:
  assumes "chx_inv s" and "ctab s ! 0 = Some q" and "sview s q = Some y" and "sview s r = Some x" and "r \<noteq> q"
    and "\<forall>t \<in> set ts. NUL \<notin> set t"
  shows "\<exists>s' y'. put_texts ts (Some r) s = Some s' \<and> chx_to s ((sview s)(q \<mapsto> y', r \<mapsto> x @ concat ts)) s'"
  using assms
proof (induction ts arbitrary: s x y)
  case Nil
  have "(sview s)(q \<mapsto> y, r \<mapsto> x) = sview s" using Nil.prems by (auto simp: fun_eq_iff)
  then have "chx_to s ((sview s)(q \<mapsto> y, r \<mapsto> x @ concat [])) s" using chx_to_refl [OF Nil.prems(1)] by simp
  moreover have "put_texts [] (Some r) s = Some s" by simp
  ultimately show ?case by blast
next
  case (Cons t ts)
  obtain s1 where s1: "chxquick (Some t) 0 s = Some (Some q, s1)" "chx_to s ((sview s)(q \<mapsto> t)) s1"
    by (rule chxquick_ok [OF Cons.prems(1), of 0 q y t]) (use Cons.prems in auto)
  note t1 = chx_toD [OF s1(2)]
  have v1: "sview s1 r = Some x" "sview s1 q = Some t" using t1(2) Cons.prems by simp_all
  obtain s2 where s2: "chxcat (Some r) (Some q) s1 = Some (1, s2)" "chx_to s1 ((sview s1)(r \<mapsto> x @ t)) s2"
    by (rule chxcat_ok [OF t1(1) v1 Cons.prems(5)])
  note t2 = chx_toD [OF s2(2)]
  have v2: "sview s2 q = Some t" "sview s2 r = Some (x @ t)" "ctab s2 ! 0 = Some q"
    using t2(2) v1 Cons.prems(2,5) globs_tabs [OF t2(3)] globs_tabs [OF t1(3)] by simp_all
  have no: "\<forall>t \<in> set ts. NUL \<notin> set t" using Cons.prems(6) by simp
  obtain s3 y' where s3: "put_texts ts (Some r) s2 = Some s3" "chx_to s2 ((sview s2)(q \<mapsto> y', r \<mapsto> (x @ t) @ concat ts)) s3"
    using Cons.IH [OF t2(1) v2(3,1,2) Cons.prems(5) no] by blast
  have "(sview s2)(q \<mapsto> y', r \<mapsto> (x @ t) @ concat ts) = (sview s)(q \<mapsto> y', r \<mapsto> x @ concat (t # ts))"
    using t2(2) t1(2) Cons.prems(5) by (auto simp: fun_eq_iff)
  then have "chx_to s ((sview s)(q \<mapsto> y', r \<mapsto> x @ concat (t # ts))) s3"
    using chx_to_trans [OF s1(2) chx_to_trans [OF s2(2) s3(2)]] by simp
  moreover have "put_texts (t # ts) (Some r) s = Some s3" using s1(1) s2(1) s3(1) by (simp add: CQ_def)
  ultimately show ?case by blast
qed

text \<open>
  The frame of \<open>num_sort\<close> and \<open>trip_sort\<close>: a work chix is allocated, the direction and the number of words are read.
\<close>

definition num_arg :: "int \<Rightarrow> int list \<Rightarrow> string" where
  "num_arg d vs = show_int d @ spaced_nums vs"

lemma chxint4_first:
  assumes s: "sort_ready s" and a: "sview s a = Some (num_arg d vs)" and d: "- (2 ^ 31) \<le> d" "d < 2 ^ 31"
  obtains s' where "chxint4 (Some a) (Some 0) s = Some (d, Some (int (length (show_int d))), s')" "kept s s'" "sview s' = sview s"
proof -
  have r: "int4_ready s" using s by (auto simp: sort_ready_def int4_ready_def num_blanks_def)
  have nd: "spaced_nums vs = [] \<or> \<not> is_digit (hd (spaced_nums vs))"
    using spaced_nums_hd [of vs] by (auto simp: is_digit_def digit_def bval_def)
  have a': "sview s a = Some ([] @ show_int d @ spaced_nums vs)" using a by (simp add: num_arg_def)
  obtain s' where s': "chxint4 (Some a) (Some (int (length ([] :: string)))) s = Some (d, Some (int (length ([] :: string) + length (show_int d))), s')"
    "int4_ready s'" "sview s' = sview s" "next_adr s \<le> next_adr s'" "globs s' = globs (s\<lparr>tab_int4 := Some (int4_blanks s)\<rparr>)"
    by (rule chxint4_show [OF r a' d nd])
  have "kept s s'" by (rule kept_I) (use s' int4_globs [OF s'(5)] int4_readyD(1) in auto)
  then show thesis using that s' by simp
qed

lemma sort_frame:
  assumes s: "sort_ready s" and a: "sview s a = Some (num_arg d vs)" and d: "- (2 ^ 31) \<le> d" "d < 2 ^ 31"
  obtains w s1 s2 s3 u where "chxalloc 40 THIN nm s = (w, s1)" "chxint4 (Some a) (Some 0) s1 = Some (d, Some (int (length (show_int d))), s2)"
    "count_words (Some w) (Some a) (int (length (show_int d))) 0 s2 = Some (int (length vs), s3)"
    "kept s s3" "sview s3 = (sview s)(w \<mapsto> u)" "sview s w = None"
proof -
  let ?w = "next_adr s"
  have inv: "chx_inv s" using s by (simp add: sort_ready_def)
  have new: "sview s ?w = None" by (rule fresh_not_live [OF inv])
  obtain s1 where s1: "chxalloc 40 THIN nm s = (?w, s1)" "chx_to s ((sview s)(?w \<mapsto> [])) s1" using chxalloc_ok [OF inv] by metis
  have bz: "sview s z \<noteq> None" if "blanks s = Some z" for z using inv that by (auto simp: chx_inv_def statics_ok_def)
  have k1: "kept s s1" by (rule kept_chx_to [OF s1(2)]) (use bz new in auto)
  note r1 = sort_ready_kept [OF s k1]
  have v1: "sview s1 a = Some (num_arg d vs)" "sview s1 ?w = Some []" "?w \<noteq> a" "blanks s1 \<noteq> Some ?w"
    using chx_toD(2) [OF s1(2)] a new bz k1 by (auto simp: kept_def)
  obtain s2 where s2: "chxint4 (Some a) (Some 0) s1 = Some (d, Some (int (length (show_int d))), s2)" "kept s1 s2" "sview s2 = sview s1"
    by (rule chxint4_first [OF r1 v1(1) d])
  have v2: "sview s2 a = Some (show_int d @ spaced_nums vs)" "sview s2 ?w = Some []" "blanks s2 \<noteq> Some ?w"
    using v1 s2 by (simp_all add: num_arg_def kept_def)
  obtain s3 u where s3: "count_words (Some ?w) (Some a) (int (length (show_int d))) 0 s2 = Some (int (length vs), s3)" "kept s2 s3"
    "sview s3 = (sview s2)(?w \<mapsto> u)"
    using count_words_ok [OF sort_ready_kept [OF r1 s2(2)] v2(1,2) v1(3) v2(3), of 0] by auto
  have "sview s3 = (sview s)(?w \<mapsto> u)" using s3(3) s2(3) chx_toD(2) [OF s1(2)] by simp
  then show thesis using that [OF s1(1) s2(1) s3(1)] kept_trans [OF k1 kept_trans [OF s2(2) s3(2)]] new by blast
qed

text \<open>The end of the two functions: the texts are appended and the work chix is freed.\<close>

lemma sort_finish:
  assumes k: "kept s s3" and v: "sview s3 = (sview s)(w \<mapsto> u)" "sview s w = None" and inv: "chx_inv s"
    and q: "ctab s ! 0 = Some q" "sview s q = Some y" and r: "sview s r = Some x" "r \<noteq> q" and t: "\<forall>t \<in> set ts. NUL \<notin> set t"
  obtains s4 s5 y' where "put_texts ts (Some r) s3 = Some s4" "chxfree (Some w) s4 = Some (1, s5)" "chx_inv s5"
    "sview s5 = (sview s)(q \<mapsto> y', r \<mapsto> x @ concat ts)"
proof -
  have bz: "sview s z \<noteq> None" if "blanks s = Some z" for z using inv that by (auto simp: chx_inv_def statics_ok_def)
  have ne: "q \<noteq> w" "r \<noteq> w" "blanks s \<noteq> Some w" using q r v(2) bz by auto
  have v3: "sview s3 q = Some y" "sview s3 r = Some x" "ctab s3 ! 0 = Some q" using v(1) ne q r k by (simp_all add: kept_def)
  obtain s4 y' where s4: "put_texts ts (Some r) s3 = Some s4" "chx_to s3 ((sview s3)(q \<mapsto> y', r \<mapsto> x @ concat ts)) s4"
    using put_texts_ok [OF kept_inv [OF k] v3(3,1,2) r(2) t] by blast
  note t4 = chx_toD [OF s4(2)]
  have w4: "sview s4 w = Some u" "blanks s4 \<noteq> Some w"
    using t4(2) v(1) ne globs_tabs [OF t4(3)] k by (auto simp: kept_def)
  obtain s5 where s5: "chxfree (Some w) s4 = Some (1, s5)" "chx_to s4 ((sview s4)(w := None)) s5"
    by (rule chxfree_ok [OF t4(1) w4])
  have "sview s5 = (sview s)(q \<mapsto> y', r \<mapsto> x @ concat ts)"
    using chx_toD(2) [OF s5(2)] t4(2) v ne by (auto simp: fun_eq_iff)
  then show thesis using that s4(1) s5(1) chx_toD(1) [OF s5(2)] by blast
qed

section \<open>Sorting numbers and triples\<close>

lemma dec_text_no_NUL: "NUL \<notin> set (dec_text v)"
  using show_int_no_NUL by (auto simp: dec_text_def)

lemma trip_text_no_NUL: "NUL \<notin> set (trip_text t)"
  using show_int_no_NUL by (auto simp: trip_text_def)

lemma bubble_outer_sorts:
  obtains ws where "bubble_outer direction (int (length vs)) 0 vs = Some ws" "mset ws = mset vs" "sorted_wrt (dir_le direction) ws"
    "direction = 0 \<longrightarrow> ws = vs"
proof -
  let ?ws = "(pass (dir_le direction) ^^ (length vs - 1)) vs"
  have "direction = 0 \<Longrightarrow> (pass (dir_le direction) ^^ k) vs = vs" for k
  proof (induction k)
    case (Suc k)
    have "sorted_wrt (dir_le direction) vs" using Suc.prems by (simp add: dir_le_def out_of_order_def sorted_wrt_iff_nth_less)
    then show ?case using Suc dir.pass_sorted by simp
  qed simp
  moreover have "bubble_outer direction (int (length vs)) 0 vs = Some ?ws" using bubble_outer_passes [of 0 vs direction] by simp
  ultimately show thesis using that [of ?ws] mset_passes dir.passes_sort [of vs "length vs - 1" direction] by auto
qed

lemma num_sort_ok:
  assumes s: "sort_ready s" and a: "sview s a = Some (num_arg d vs)" and d: "- (2 ^ 31) \<le> d" "d < 2 ^ 31"
    and v: "\<forall>v \<in> set vs. - (2 ^ 31) \<le> v \<and> v < 2 ^ 31"
    and q: "ctab s ! 0 = Some q" "sview s q = Some y" and r: "sview s r = Some x" "r \<noteq> q"
  obtains ws y' s' where "num_sort (Some r) (Some a) s = Some (1, s')" "mset ws = mset vs" "sorted_wrt (dir_le d) ws" "d = 0 \<longrightarrow> ws = vs"
    "chx_inv s'" "sview s' = (sview s)(q \<mapsto> y', r \<mapsto> x @ concat (map dec_text ws))"
proof -
  have inv: "chx_inv s" using s by (simp add: sort_ready_def)
  obtain w s1 s2 s3 u where f: "chxalloc 40 THIN ''num_sort word'' s = (w, s1)" "chxint4 (Some a) (Some 0) s1 = Some (d, Some (int (length (show_int d))), s2)"
    "count_words (Some w) (Some a) (int (length (show_int d))) 0 s2 = Some (int (length vs), s3)"
    "kept s s3" "sview s3 = (sview s)(w \<mapsto> u)" "sview s w = None"
    by (rule sort_frame [OF s a d, of "''num_sort word''"])
  have "sview s3 a = Some (show_int d @ spaced_nums vs)" using f(5,6) a by (auto simp: num_arg_def)
  then obtain s4 where s4: "read_values (length vs) (Some a) (int (length (show_int d))) s3 =
      Some (vs, int (length (show_int d) + length (spaced_nums vs)), s4)" "kept s3 s4" "sview s4 = sview s3"
    using read_values_ok [OF sort_ready_kept [OF s f(4)] _ v] by blast
  obtain ws where ws: "bubble_outer d (int (length vs)) 0 vs = Some ws" "mset ws = mset vs" "sorted_wrt (dir_le d) ws" "d = 0 \<longrightarrow> ws = vs"
    by (rule bubble_outer_sorts [of d vs])
  have v4: "sview s4 = (sview s)(w \<mapsto> u)" using s4(3) f(5) by simp
  have no: "\<forall>t \<in> set (map dec_text ws). NUL \<notin> set t" using dec_text_no_NUL by simp
  obtain s5 s6 y' where "put_texts (map dec_text ws) (Some r) s4 = Some s5" "chxfree (Some w) s5 = Some (1, s6)" "chx_inv s6"
    "sview s6 = (sview s)(q \<mapsto> y', r \<mapsto> x @ concat (map dec_text ws))"
    by (rule sort_finish [OF kept_trans [OF f(4) s4(2)] v4 f(6) inv q r no])
  then show thesis using that [of s6 ws y'] f(1-3) s4(1) ws by (simp add: num_sort_def)
qed

definition flat :: "Tlist_t list \<Rightarrow> int list" where
  "flat ts = concat (map (\<lambda>t. [cnum t, inum t, rnum t]) ts)"

lemma flat_simps [simp]: "flat [] = []" "flat (t # ts) = cnum t # inum t # rnum t # flat ts"
  by (simp_all add: flat_def)

lemma length_flat [simp]: "length (flat ts) = 3 * length ts"
  by (induction ts) auto

lemma spaced_next: "t = spaced_nums vs \<Longrightarrow> t = [] \<or> hd t = CHR '' ''"
  using spaced_nums_hd by simp

lemma trip_loop_ok:
  assumes "sort_ready s" and "sview s a = Some (p @ spaced_nums (flat ts @ rest))" and "\<forall>v \<in> set (flat ts). - (2 ^ 31) \<le> v \<and> v < 2 ^ 31"
  shows "\<exists>s'. trip_loop (length ts) d (Some a) (int (length p)) l s = Some (foldl (\<lambda>l t. insert_by (trip_le d) t l) l ts, s') \<and>
    kept s s' \<and> sview s' = sview s"
  using assms
proof (induction ts arbitrary: p s l)
  case Nil
  then show ?case by (simp add: kept_def sort_ready_def)
next
  case (Cons t ts)
  have b: "- (2 ^ 31) \<le> cnum t" "cnum t < 2 ^ 31" "- (2 ^ 31) \<le> inum t" "inum t < 2 ^ 31" "- (2 ^ 31) \<le> rnum t" "rnum t < 2 ^ 31"
    using Cons.prems(3) by simp_all
  let ?p1 = "p @ CHR '' '' # show_int (cnum t)"
  let ?p2 = "?p1 @ CHR '' '' # show_int (inum t)"
  let ?p3 = "?p2 @ CHR '' '' # show_int (rnum t)"
  let ?e = "spaced_nums (flat ts @ rest)"
  have hd: "CHR '' '' # show_int (inum t) @ CHR '' '' # show_int (rnum t) @ ?e = [] \<or> hd (CHR '' '' # show_int (inum t) @ CHR '' '' # show_int (rnum t) @ ?e) = CHR '' ''"
    "CHR '' '' # show_int (rnum t) @ ?e = [] \<or> hd (CHR '' '' # show_int (rnum t) @ ?e) = CHR '' ''" "?e = [] \<or> hd ?e = CHR '' ''"
    using spaced_nums_hd by simp_all
  have a: "sview s a = Some (p @ CHR '' '' # show_int (cnum t) @ CHR '' '' # show_int (inum t) @ CHR '' '' # show_int (rnum t) @ ?e)"
    using Cons.prems(2) by simp
  obtain s1 where s1: "chxint4 (Some a) (Some (int (length p))) s = Some (cnum t, Some (int (length p + Suc (length (show_int (cnum t))))), s1)"
    "kept s s1" "sview s1 = sview s" by (rule chxint4_spaced [OF Cons.prems(1) a b(1,2) hd(1)])
  note r1 = sort_ready_kept [OF Cons.prems(1) s1(2)]
  have a1: "sview s1 a = Some (?p1 @ CHR '' '' # show_int (inum t) @ CHR '' '' # show_int (rnum t) @ ?e)" using a s1(3) by simp
  obtain s2 where s2: "chxint4 (Some a) (Some (int (length ?p1))) s1 = Some (inum t, Some (int (length ?p1 + Suc (length (show_int (inum t))))), s2)"
    "kept s1 s2" "sview s2 = sview s1" by (rule chxint4_spaced [OF r1 a1 b(3,4) hd(2)])
  note r2 = sort_ready_kept [OF r1 s2(2)]
  have a2: "sview s2 a = Some (?p2 @ CHR '' '' # show_int (rnum t) @ ?e)" using a1 s2(3) by simp
  obtain s3 where s3: "chxint4 (Some a) (Some (int (length ?p2))) s2 = Some (rnum t, Some (int (length ?p2 + Suc (length (show_int (rnum t))))), s3)"
    "kept s2 s3" "sview s3 = sview s2" by (rule chxint4_spaced [OF r2 a2 b(5,6) hd(3)])
  note r3 = sort_ready_kept [OF r2 s3(2)]
  have a3: "sview s3 a = Some (?p3 @ ?e)" using a2 s3(3) by simp
  have rest: "\<forall>v \<in> set (flat ts). - (2 ^ 31) \<le> v \<and> v < 2 ^ 31" using Cons.prems(3) by simp
  have t: "\<lparr>cnum = cnum t, inum = inum t, rnum = rnum t\<rparr> = t" by simp
  obtain s4 where s4: "trip_loop (length ts) d (Some a) (int (length ?p3)) (insert_by (trip_le d) t l) s3 =
      Some (foldl (\<lambda>l t. insert_by (trip_le d) t l) (insert_by (trip_le d) t l) ts, s4)" "kept s3 s4" "sview s4 = sview s3"
    using Cons.IH [OF r3 a3 rest, of "insert_by (trip_le d) t l"] by blast
  have "trip_loop (length (t # ts)) d (Some a) (int (length p)) l s = Some (foldl (\<lambda>l t. insert_by (trip_le d) t l) l (t # ts), s4)"
    using s1(1) s2(1) s3(1) s4(1) by (simp add: trip_insert_by t algebra_simps)
  moreover have "kept s s4" using kept_trans s1(2) s2(2) s3(2) s4(2) by blast
  ultimately show ?case using s1(3) s2(3) s3(3) s4(3) by auto
qed

lemma trip_sort_ok:
  assumes s: "sort_ready s" and a: "sview s a = Some (num_arg d (flat ts @ rest))" and d: "- (2 ^ 31) \<le> d" "d < 2 ^ 31"
    and v: "\<forall>v \<in> set (flat ts). - (2 ^ 31) \<le> v \<and> v < 2 ^ 31" and rest: "length rest < 3"
    and q: "ctab s ! 0 = Some q" "sview s q = Some y" and r: "sview s r = Some x" "r \<noteq> q"
  obtains ws y' s' where "trip_sort (Some r) (Some a) s = Some (1, s')" "mset ws = mset ts" "sorted_wrt (trip_le d) ws"
    "chx_inv s'" "sview s' = (sview s)(q \<mapsto> y', r \<mapsto> x @ concat (map trip_text ws))"
proof -
  have inv: "chx_inv s" using s by (simp add: sort_ready_def)
  obtain w s1 s2 s3 u where f: "chxalloc 40 THIN ''trip_sort word'' s = (w, s1)" "chxint4 (Some a) (Some 0) s1 = Some (d, Some (int (length (show_int d))), s2)"
    "count_words (Some w) (Some a) (int (length (show_int d))) 0 s2 = Some (int (length (flat ts @ rest)), s3)"
    "kept s s3" "sview s3 = (sview s)(w \<mapsto> u)" "sview s w = None"
    by (rule sort_frame [OF s a d, of "''trip_sort word''"])
  have a3: "sview s3 a = Some (num_arg d (flat ts @ rest))" using f(5,6) a by auto
  obtain s4 where s4: "chxint4 (Some a) (Some 0) s3 = Some (d, Some (int (length (show_int d))), s4)" "kept s3 s4" "sview s4 = sview s3"
    by (rule chxint4_first [OF sort_ready_kept [OF s f(4)] a3 d])
  note k4 = kept_trans [OF f(4) s4(2)]
  have a4: "sview s4 a = Some (show_int d @ spaced_nums (flat ts @ rest))" using s4(3) a3 by (simp add: num_arg_def)
  let ?ws = "foldl (\<lambda>l t. insert_by (trip_le d) t l) [] ts"
  obtain s5 where s5: "trip_loop (length ts) d (Some a) (int (length (show_int d))) [] s4 = Some (?ws, s5)" "kept s4 s5" "sview s5 = sview s4"
    using trip_loop_ok [OF sort_ready_kept [OF s k4] a4 v, of d "[]"] by blast
  have v5: "sview s5 = (sview s)(w \<mapsto> u)" using s5(3) s4(3) f(5) by simp
  have no: "\<forall>t \<in> set (map trip_text ?ws). NUL \<notin> set t" using trip_text_no_NUL by simp
  obtain s6 s7 y' where s7: "put_texts (map trip_text ?ws) (Some r) s5 = Some s6" "chxfree (Some w) s6 = Some (1, s7)" "chx_inv s7"
    "sview s7 = (sview s)(q \<mapsto> y', r \<mapsto> x @ concat (map trip_text ?ws))"
    by (rule sort_finish [OF kept_trans [OF k4 s5(2)] v5 f(6) inv q r no])
  have "nat (int (length (flat ts @ rest)) div 3) = length ts" using rest by simp
  then have "trip_sort (Some r) (Some a) s = Some (1, s7)"
    using f(1-3) s4(1) s5(1) s7(1,2) by (simp add: trip_sort_def del: length_append)
  then show thesis using that [of s7 ?ws y'] s7(3,4) mset_insert_all [of "trip_le d" "[]" ts] trip.insert_all_sorted [of d "[]" ts] by simp
qed

section \<open>Sorting words\<close>

text \<open>
  Relative to the store \<open>s0\<close> at the call: the work chix \<open>w\<close> and the chix of the list are new, everything else is as it was.
\<close>

definition gen_inv :: "chx_state \<Rightarrow> nat \<Rightarrow> Namelist \<Rightarrow> chx_state \<Rightarrow> bool" where
  "gen_inv s0 w l s \<longleftrightarrow> nl_ok l s \<and> kept s0 s \<and> sview s w \<noteq> None \<and> sview s0 w = None \<and> Some w \<notin> nl_str ` set l \<and>
     (\<forall>c. Some c \<in> nl_str ` set l \<longrightarrow> sview s0 c = None) \<and>
     (\<forall>c. c \<noteq> w \<and> Some c \<notin> nl_str ` set l \<longrightarrow> sview s c = sview s0 c)"

lemma gen_invD:
  assumes "gen_inv s0 w l s"
  shows "chx_inv s" "nl_ok l s" "kept s0 s" "sview s w \<noteq> None" "sview s0 w = None" "Some w \<notin> nl_str ` set l"
    "\<And>c. sview s0 c \<noteq> None \<Longrightarrow> sview s c = sview s0 c \<and> c \<noteq> w \<and> Some c \<notin> nl_str ` set l"
proof -
  show "chx_inv s" "nl_ok l s" "kept s0 s" "sview s w \<noteq> None" "sview s0 w = None" "Some w \<notin> nl_str ` set l"
    using assms by (auto simp: gen_inv_def nl_ok_def)
  fix c assume c: "sview s0 c \<noteq> None"
  then have "c \<noteq> w" "Some c \<notin> nl_str ` set l" using assms by (auto simp: gen_inv_def)
  moreover then have "sview s c = sview s0 c" using assms by (simp add: gen_inv_def)
  ultimately show "sview s c = sview s0 c \<and> c \<noteq> w \<and> Some c \<notin> nl_str ` set l" by blast
qed

lemma gen_inv_word:
  assumes g: "gen_inv s0 w l s" and k: "kept s s'" and v: "sview s' = (sview s)(w \<mapsto> t)"
  shows "gen_inv s0 w l s'" "entries l s' = entries l s"
proof -
  have ne: "the (nl_str q) \<noteq> w" if "q \<in> set l" for q
    using gen_invD(2,6) [OF g] that by (force simp: nl_ok_def nl_live_def)
  have "nl_live l s'" using gen_invD(2) [OF g] ne v by (auto intro!: nl_live_keep [of l s] simp: nl_ok_def)
  then show "gen_inv s0 w l s'"
    using g kept_trans [OF gen_invD(3) [OF g] k] kept_inv [OF k] v by (auto simp: gen_inv_def nl_ok_def)
  have "q \<in> set l" if "q \<in> set (tl l)" for q using that by (cases l) auto
  then show "entries l s' = entries l s" using ne v by (auto simp: entries_def intro!: entry_keep)
qed

lemma gen_token_ok:
  assumes g: "gen_inv s0 w l s" and i0: "chx_inv s0" and a: "sview s0 a = Some x" and bl: "blanks s0 \<noteq> None" and n: "1 \<le> n"
  obtains st t s' where "(st, t) = pick (words_at (token_blanks s0) 0 x) (nat n - 1)"
    "chxtoken (Some w) nullchix n (Some a) s = Some (st, s')" "gen_inv s0 w l s'" "sview s' w = Some t" "entries l s' = entries l s"
proof -
  have k: "kept s0 s" by (rule gen_invD(3) [OF g])
  have a': "sview s a = Some x" "a \<noteq> w" using gen_invD(7) [OF g, of a] a by auto
  have c: "blanks s \<noteq> None" "token_blanks s = token_blanks s0" using k bl by (simp_all add: kept_def)
  obtain st t s' where s': "(st, t) = pick (words_at (token_blanks s) 0 x) (nat n - 1)"
    "chxtoken (Some w) nullchix n (Some a) s = Some (st, s')" "chx_inv s'"
    "sview s' = upd nullchix (if st < 0 then [] else drop (nat st) x) (upd (Some w) t (sview s))"
    "globs s' = globs (s\<lparr>tab_token := Some (token_blanks s)\<rparr>)" "next_adr s \<le> next_adr s'"
    by (rule chxtoken_keeps [OF gen_invD(1) [OF g] c(1) a'(1), of "Some w" nullchix n]) (use gen_invD(4) [OF g] a'(2) n in auto)
  have v: "sview s' = (sview s)(w \<mapsto> t)" using s'(4) by (simp add: upd_def)
  have "blanks s \<noteq> Some w"
  proof
    assume "blanks s = Some w"
    then have "blanks s0 = Some w" using k by (simp add: kept_def)
    then show False using live_blanks [OF i0] gen_invD(5) [OF g] by blast
  qed
  then have "kept s s'" using s' v token_globs [OF s'(5)] by (intro kept_I) auto
  from gen_inv_word [OF g this v] show thesis using that s'(1,2) c(2) v by simp
qed

lemma gen_add_ok:
  assumes g: "gen_inv s0 w l s" and t: "sview s w = Some t" and i0: "chx_inv s0"
  obtains l' s' where "nladd l (Some w) n s = Some (1, l', s')" "gen_inv s0 w l' s'"
    "entries l' s' = ins (compare_str (rules s0)) (t, wrap16 n) (entries l s)"
proof -
  have k: "kept s0 s" and inv: "chx_inv s" using gen_invD(1,3) [OF g] by simp_all
  let ?b = "next_adr s"
  have f: "sview s ?b = None" by (rule fresh_not_live [OF inv])
  obtain l' s' where l': "nladd l (Some w) n s = Some (1, l', s')" "nl_ok l' s'"
    "entries l' s' = ins (compare_str (rules s)) (t, wrap16 n) (entries l s)"
    "chx_to s ((sview s)(?b \<mapsto> t)) s'" "nl_str ` set l' = insert (Some ?b) (nl_str ` set l)"
    by (rule nladd_ok [OF gen_invD(2) [OF g] t, of n])
  have "blanks s \<noteq> Some ?b" using live_blanks [OF inv] f by blast
  then have k': "kept s s'" by (intro kept_chx_to [OF l'(4)]) auto
  have "sview s0 ?b = None" using gen_invD(7) [OF g, of ?b] f by metis
  moreover have "w \<noteq> ?b" using t f by auto
  ultimately have "gen_inv s0 w l' s'"
    using g l'(2,5) kept_trans [OF k k'] chx_toD(2) [OF l'(4)] by (auto simp: gen_inv_def)
  then show thesis using that l'(1,3) k by (simp add: kept_def)
qed

text \<open>The entries after the words from the \<open>k\<close>'th on have been inserted, each with its number.\<close>

fun sort_in :: "(string \<Rightarrow> string \<Rightarrow> int) \<Rightarrow> int \<Rightarrow> string list \<Rightarrow> (string \<times> int) list \<Rightarrow> (string \<times> int) list" where
  "sort_in cmp k [] es = es"
| "sort_in cmp k (w # ws) es = sort_in cmp (k + 1) ws (ins cmp (w, wrap16 k) es)"

lemma gen_loop_ok:
  assumes "gen_inv s0 w l s" and i0: "chx_inv s0" and a: "sview s0 a = Some x" and bl: "blanks s0 \<noteq> None"
  defines "ws \<equiv> map snd (words_at (token_blanks s0) 0 x)"
  shows "\<exists>l' s'. gen_loop w (Some a) (int k + 1) l s = Some (l', s') \<and> gen_inv s0 w l' s' \<and>
    entries l' s' = sort_in (compare_str (rules s0)) (int k) (drop k ws) (entries l s)"
  using assms(1)
proof (induction "length ws - k" arbitrary: k l s)
  case 0
  then have k: "drop k ws = []" "length (words_at (token_blanks s0) 0 x) \<le> k" by (simp_all add: ws_def)
  obtain st t s1 where s1: "(st, t) = pick (words_at (token_blanks s0) 0 x) (nat (int k + 1) - 1)"
    "chxtoken (Some w) nullchix (int k + 1) (Some a) s = Some (st, s1)" "gen_inv s0 w l s1" "entries l s1 = entries l s"
    by (rule gen_token_ok [OF 0(2) i0 a bl, of "int k + 1"]) auto
  have "st = -1" using s1(1) k(2) by (simp add: pick_def nat_add_distrib)
  then show ?case using s1 k(1) by (subst gen_loop.simps) simp
next
  case (Suc m)
  then have k: "k < length ws" by simp
  have d: "drop k ws = ws ! k # drop (Suc k) ws" using k by (simp add: Cons_nth_drop_Suc)
  obtain st t s1 where s1: "(st, t) = pick (words_at (token_blanks s0) 0 x) (nat (int k + 1) - 1)"
    "chxtoken (Some w) nullchix (int k + 1) (Some a) s = Some (st, s1)" "gen_inv s0 w l s1" "sview s1 w = Some t" "entries l s1 = entries l s"
    by (rule gen_token_ok [OF Suc.prems i0 a bl, of "int k + 1"]) auto
  have t: "t = ws ! k" "st \<ge> 0" using s1(1) k by (simp_all add: pick_def nat_add_distrib ws_def)
  obtain l2 s2 where l2: "nladd l (Some w) (int k) s1 = Some (1, l2, s2)" "gen_inv s0 w l2 s2"
    "entries l2 s2 = ins (compare_str (rules s0)) (t, wrap16 (int k)) (entries l s1)"
    by (rule gen_add_ok [OF s1(3,4) i0])
  have m: "m = length ws - Suc k" using Suc.hyps(2) by simp
  obtain l3 s3 where "gen_loop w (Some a) (int (Suc k) + 1) l2 s2 = Some (l3, s3)" "gen_inv s0 w l3 s3"
    "entries l3 s3 = sort_in (compare_str (rules s0)) (int (Suc k)) (drop (Suc k) ws) (entries l2 s2)"
    using Suc.hyps(1) [OF m l2(2)] by blast
  then show ?case using s1(2,5) l2(1,3) t d by (subst gen_loop.simps) (auto simp: algebra_simps)
qed

lemma gen_print_ok:
  assumes "chx_inv s" and "ctab s ! 0 = Some q" and "sview s q = Some y" and "sview s w = Some u" and "w \<noteq> q"
  shows "\<exists>s' y'. gen_print d w l s = Some s' \<and> chx_to s ((sview s)(q \<mapsto> y', w \<mapsto>
    (if d > 0 then u @ concat (map (dec_text \<circ> nl_num) l) else concat (rev (map (dec_text \<circ> nl_num) l)) @ u))) s'"
  using assms
proof (induction l arbitrary: s y u)
  case Nil
  have "(sview s)(q \<mapsto> y, w \<mapsto> u) = sview s" using Nil.prems by (auto simp: fun_eq_iff)
  then have "chx_to s ((sview s)(q \<mapsto> y, w \<mapsto> u)) s" using chx_to_refl [OF Nil.prems(1)] by simp
  then show ?case by (intro exI [of _ s] exI [of _ y]) (simp del: fun_upd_apply)
next
  case (Cons n l)
  let ?t = "dec_text (nl_num n)"
  let ?u = "if d > 0 then u @ ?t else ?t @ u"
  obtain s1 where s1: "chxquick (Some ?t) 0 s = Some (Some q, s1)" "chx_to s ((sview s)(q \<mapsto> ?t)) s1"
    by (rule chxquick_ok [OF Cons.prems(1), of 0 q y ?t]) (use Cons.prems dec_text_no_NUL in auto)
  note t1 = chx_toD [OF s1(2)]
  have v1: "sview s1 w = Some u" "sview s1 q = Some ?t" using t1(2) Cons.prems by simp_all
  obtain s2 where s2: "(if d > 0 then chxcat (Some w) (Some q) s1 else chxconc (Some w) (Some q) (Some w) s1) = Some (1, s2)"
    "chx_to s1 ((sview s1)(w \<mapsto> ?u)) s2"
  proof (cases "d > 0")
    case True
    show thesis by (rule chxcat_ok [OF t1(1) v1(1,2) Cons.prems(5)]) (use True that in simp)
  next
    case False
    show thesis by (rule chxconc_ok [OF t1(1) v1(1,2,1)]) (use False that in simp)
  qed
  note t2 = chx_toD [OF s2(2)]
  have v2: "sview s2 q = Some ?t" "sview s2 w = Some ?u" "ctab s2 ! 0 = Some q"
    using t2(2) v1 Cons.prems(2,5) globs_tabs [OF t2(3)] globs_tabs [OF t1(3)] by simp_all
  obtain s3 y' where s3: "gen_print d w l s2 = Some s3" "chx_to s2 ((sview s2)(q \<mapsto> y', w \<mapsto>
    (if d > 0 then ?u @ concat (map (dec_text \<circ> nl_num) l) else concat (rev (map (dec_text \<circ> nl_num) l)) @ ?u))) s3"
    using Cons.IH [OF t2(1) v2(3,1,2) Cons.prems(5)] by blast
  have "(sview s2)(q \<mapsto> y', w \<mapsto> (if d > 0 then ?u @ concat (map (dec_text \<circ> nl_num) l) else concat (rev (map (dec_text \<circ> nl_num) l)) @ ?u)) =
      (sview s)(q \<mapsto> y', w \<mapsto> (if d > 0 then u @ concat (map (dec_text \<circ> nl_num) (n # l)) else concat (rev (map (dec_text \<circ> nl_num) (n # l))) @ u))"
    using t2(2) t1(2) Cons.prems(5) by (auto simp: fun_eq_iff)
  then have "chx_to s ((sview s)(q \<mapsto> y', w \<mapsto> (if d > 0 then u @ concat (map (dec_text \<circ> nl_num) (n # l)) else concat (rev (map (dec_text \<circ> nl_num) (n # l))) @ u))) s3"
    using chx_to_trans [OF s1(2) chx_to_trans [OF s2(2) s3(2)]] by simp
  moreover have "gen_print d w (n # l) s = Some s3" using s1(1) s2(1) s3(1) by (auto simp: CQ_def)
  ultimately show ?case by blast
qed

text \<open>The first part of \<open>gen_sort\<close>: an empty list, the work chix and the direction.\<close>

definition direction_of :: "chx_state \<Rightarrow> string \<Rightarrow> int" where
  "direction_of s x = (case read_int (int4_blanks s) x 0 of None \<Rightarrow> 0 | Some (v, _) \<Rightarrow> v)"

lemma gen_start_ok:
  assumes inv: "chx_inv s" and bl: "blanks s \<noteq> None" and nul: "NUL \<notin> set (int4_blanks s)" and a: "sview s a = Some x"
  obtains l w p s1 s2 s3 where "nlnode 1 s = (l, s1)" "chxalloc 80 THIN nm s1 = (w, s2)"
    "chxint4 (Some a) (Some 0) s2 = Some (direction_of s x, p, s3)" "gen_inv s w l s3" "entries l s3 = []"
proof -
  let ?b = "next_adr s"
  have f: "sview s ?b = None" by (rule fresh_not_live [OF inv])
  obtain s1 where s1: "chxalloc 1 THIN ''nlnode str'' s = (?b, s1)" "chx_to s ((sview s)(?b \<mapsto> [])) s1" "next_adr s1 = Suc ?b"
    by (rule chxalloc_ok [OF inv])
  note t1 = chx_toD [OF s1(2)]
  have k1: "kept s s1" using live_blanks [OF inv] f by (intro kept_chx_to [OF s1(2)]) auto
  let ?w = "next_adr s1"
  have f1: "sview s1 ?w = None" by (rule fresh_not_live [OF t1(1)])
  obtain s2 where s2: "chxalloc 80 THIN nm s1 = (?w, s2)" "chx_to s1 ((sview s1)(?w \<mapsto> [])) s2" by (rule chxalloc_ok [OF t1(1)])
  note t2 = chx_toD [OF s2(2)]
  have k2: "kept s1 s2" using live_blanks [OF t1(1)] f1 by (intro kept_chx_to [OF s2(2)]) auto
  note k02 = kept_trans [OF k1 k2]
  have ne: "?w \<noteq> ?b" using s1(3) by simp
  have fw: "sview s ?w = None" using f1 t1(2) ne by simp
  have v2: "sview s2 = (sview s)(?b \<mapsto> [], ?w \<mapsto> [])" using t2(2) t1(2) by simp
  have a2: "sview s2 a = Some x" using v2 a f fw by auto
  have c: "blanks s2 \<noteq> None" "NUL \<notin> set (int4_blanks s2)" "int4_blanks s2 = int4_blanks s" using k02 bl nul by (simp_all add: kept_def)
  obtain s3 where s3: "chxint4 (Some a) (Some (int 0)) s2 =
      (case read_int (int4_blanks s2) x 0 of None \<Rightarrow> Some (0, Some (int 0), s3) | Some (v, e) \<Rightarrow> Some (v, Some (int e), s3))"
    "chx_inv s3" "sview s3 = sview s2" "globs s3 = globs (s2\<lparr>tab_int4 := Some (int4_blanks s2)\<rparr>)" "next_adr s2 \<le> next_adr s3"
    by (rule chxint4_keeps [OF t2(1) c(1) a2 le0 c(2)])
  have k3: "kept s2 s3" by (rule kept_I) (use s3 int4_globs [OF s3(4)] in auto)
  obtain p where p: "chxint4 (Some a) (Some 0) s2 = Some (direction_of s x, p, s3)"
    using s3(1) c(3) by (auto simp: direction_of_def split: option.splits)
  let ?l = "[\<lparr>nl_str = Some ?b, nl_num = 0\<rparr>]"
  have "gen_inv s ?w ?l s3" using s3(2,3) v2 f fw ne kept_trans [OF k02 k3] by (auto simp: gen_inv_def nl_ok_def)
  then show thesis using that [of ?l s1 ?w s2 p s3] s1(1) s2(1) p by (simp add: nlnode_def entries_def)
qed

lemma gen_finish_ok:
  assumes g: "gen_inv s w l s1" and inv: "chx_inv s" and q: "ctab s ! 0 = Some q" "sview s q = Some y" and r: "sview s r = Some x" "r \<noteq> q"
  defines "ts \<equiv> map (dec_text \<circ> snd) (entries l s1)"
  obtains s2 s3 s4 s5 s6 y' where "chxclear (Some w) s1 = Some (1, s2)" "gen_print d w (tl l) s2 = Some s3" "chxcat (Some r) (Some w) s3 = Some (1, s4)"
    "chxfree (Some w) s4 = Some (1, s5)" "nlfree l s5 = Some (1, s6)" "chx_inv s6"
    "sview s6 = (sview s)(q \<mapsto> y', r \<mapsto> x @ concat (if d > 0 then ts else rev ts))"
proof -
  have k: "kept s s1" by (rule gen_invD(3) [OF g])
  have w: "sview s w = None" "sview s1 w \<noteq> None" using gen_invD(4,5) [OF g] by simp_all
  have qr: "sview s1 q = Some y" "sview s1 r = Some x" "q \<noteq> w" "r \<noteq> w" "Some q \<notin> nl_str ` set l" "Some r \<notin> nl_str ` set l"
    using gen_invD(7) [OF g, of q] gen_invD(7) [OF g, of r] q r by auto
  obtain s2 where s2: "chxclear (Some w) s1 = Some (1, s2)" "chx_to s1 ((sview s1)(w \<mapsto> [])) s2"
    using chxclear_ok [OF gen_invD(1) [OF g]] w(2) by blast
  note t2 = chx_toD [OF s2(2)]
  have v2: "ctab s2 ! 0 = Some q" "sview s2 q = Some y" "sview s2 w = Some []"
    using globs_tabs [OF t2(3)] k q t2(2) qr by (simp_all add: kept_def)
  have ts: "map (dec_text \<circ> nl_num) (tl l) = ts" by (simp add: ts_def entries_def entry_def comp_def)
  let ?u = "concat (if d > 0 then ts else rev ts)"
  obtain s3 y' where s3: "gen_print d w (tl l) s2 = Some s3" "chx_to s2 ((sview s2)(q \<mapsto> y', w \<mapsto> ?u)) s3"
    using gen_print_ok [OF t2(1) v2 qr(3) [symmetric], of d "tl l"] unfolding ts by (auto simp del: fun_upd_apply split: if_splits)
  note t3 = chx_toD [OF s3(2)]
  have v3: "sview s3 r = Some x" "sview s3 w = Some ?u" using t3(2) t2(2) qr r(2) by simp_all
  obtain s4 where s4: "chxcat (Some r) (Some w) s3 = Some (1, s4)" "chx_to s3 ((sview s3)(r \<mapsto> x @ ?u)) s4"
    by (rule chxcat_ok [OF t3(1) v3 qr(4)])
  note t4 = chx_toD [OF s4(2)]
  have gb: "blanks s4 = blanks s" using globs_tabs [OF t4(3)] globs_tabs [OF t3(3)] globs_tabs [OF t2(3)] k by (simp add: kept_def)
  have nb: "blanks s \<noteq> Some c" if "sview s c = None" for c using live_blanks [OF inv] that by blast
  have w4: "sview s4 w = Some ?u" "blanks s4 \<noteq> Some w" using t4(2) v3 qr(4) gb nb [OF w(1)] by simp_all
  obtain s5 where s5: "chxfree (Some w) s4 = Some (1, s5)" "chx_to s4 ((sview s4)(w := None)) s5" by (rule chxfree_ok [OF t4(1) w4])
  note t5 = chx_toD [OF s5(2)]
  have v5: "sview s5 = (sview s1)(q \<mapsto> y', r \<mapsto> x @ ?u, w := None)"
    using t5(2) t4(2) t3(2) t2(2) qr(3,4) r(2) by (auto simp: fun_eq_iff)
  have at: "\<exists>c z. nl_str n = Some c \<and> sview s5 c = Some z" if "n \<in> set l" for n
  proof -
    have "nl_live l s1" using gen_invD(2) [OF g] by (simp add: nl_ok_def)
    from bspec [OF this [unfolded nl_live_def] that] obtain c z where c: "nl_str n = Some c" "sview s1 c = Some z" by (elim exE conjE)
    have "Some c \<in> nl_str ` set l" by (rule image_eqI [of _ _ n]) (use c(1) that in simp_all)
    then have "c \<noteq> w" "c \<noteq> q" "c \<noteq> r" using gen_invD(6) [OF g] qr(5,6) by blast+
    then show ?thesis using c v5 by simp
  qed
  then have live: "nl_live l s5" unfolding nl_live_def by blast
  have bl5: "blanks s5 = blanks s" using gb globs_tabs [OF t5(3)] by simp
  have "blanks s5 \<notin> nl_str ` set l"
  proof
    assume b: "blanks s5 \<in> nl_str ` set l"
    then obtain n where n: "n \<in> set l" "blanks s5 = nl_str n" by blast
    then obtain c where c: "blanks s5 = Some c" using at [OF n(1)] by auto
    have "Some c \<in> nl_str ` set l" using b unfolding c .
    then have "sview s c = None" using g unfolding gen_inv_def by blast
    then show False using nb [of c] c bl5 by simp
  qed
  moreover have "distinct (map nl_str l)" using gen_invD(2) [OF g] by (simp add: nl_ok_def)
  ultimately obtain s6 where s6: "nlfree l s5 = Some (1, s6)" "chx_inv s6"
    "sview s6 = (\<lambda>c. if Some c \<in> nl_str ` set l then None else sview s5 c)"
    using nlfree_ok [OF t5(1) live] by blast
  have "sview s6 c = ((sview s)(q \<mapsto> y', r \<mapsto> x @ ?u)) c" for c
  proof (cases "Some c \<in> nl_str ` set l")
    case True
    then have "sview s c = None" "c \<noteq> q" "c \<noteq> r" using g qr(5,6) unfolding gen_inv_def by blast+
    then show ?thesis using s6(3) True by simp
  next
    case False
    then have "c \<noteq> w \<Longrightarrow> sview s1 c = sview s c" using g unfolding gen_inv_def by blast
    then show ?thesis using s6(3) False v5 w(1) qr(3,4) by simp
  qed
  then have "sview s6 = (sview s)(q \<mapsto> y', r \<mapsto> x @ ?u)" by blast
  then show thesis using that s2(1) s3(1) s4(1) s5(1) s6(1,2) by blast
qed

text \<open>The words come out in the order of the collating rules, equal words in the order of their numbers.\<close>

definition before :: "(string \<Rightarrow> string \<Rightarrow> int) \<Rightarrow> string \<times> int \<Rightarrow> string \<times> int \<Rightarrow> bool" where
  "before cmp e f \<longleftrightarrow> cmp (fst e) (fst f) < 0 \<or> fst e = fst f \<and> snd e < snd f"

context name_order
begin

lemma before_ins:
  assumes "sorted_wrt (before cmp) es" and "\<forall>f \<in> set es. snd f < snd e" and "fst ` set (e # es) \<subseteq> carrier"
  shows "sorted_wrt (before cmp) (ins cmp e es)"
  using assms
proof (induction es)
  case Nil
  then show ?case by simp
next
  case (Cons f fs)
  have c: "fst e \<in> carrier" "fst f \<in> carrier" "\<And>g. g \<in> set fs \<Longrightarrow> fst g \<in> carrier" using Cons.prems(3) by auto
  show ?case
  proof (cases "cmp (fst e) (fst f) < 0")
    case True
    have "before cmp e g" if g: "g \<in> set fs" for g
    proof -
      have fg: "cmp (fst f) (fst g) \<le> 0" using Cons.prems(1) g cmp_refl [of "fst f"] by (auto simp: before_def)
      have "cmp (fst e) (fst g) \<le> 0" using cmp_trans [OF c(1,2) c(3) [OF g]] True fg by simp
      moreover have "cmp (fst e) (fst g) \<noteq> 0"
      proof
        assume "cmp (fst e) (fst g) = 0"
        then have "fst e = fst g" by (rule cmp_zero [OF c(1) c(3) [OF g]])
        then show False using True fg cmp_flip [of "fst e" "fst f"] by simp
      qed
      ultimately show ?thesis by (simp add: before_def)
    qed
    then show ?thesis using Cons.prems(1) True by (auto simp: before_def)
  next
    case False
    have "before cmp f e"
    proof (cases "cmp (fst e) (fst f) = 0")
      case True
      then show ?thesis using cmp_zero [OF c(1,2)] Cons.prems(2) by (simp add: before_def)
    next
      case neq: False
      then show ?thesis using False cmp_flip [of "fst e" "fst f"] by (simp add: before_def)
    qed
    moreover have "sorted_wrt (before cmp) (ins cmp e fs)" using Cons.IH Cons.prems by simp
    ultimately show ?thesis using False Cons.prems(1) by (auto simp: set_ins)
  qed
qed

end

lemma mset_ins: "mset (ins cmp e es) = add_mset e (mset es)"
  by (induction es) auto

lemma sort_in_ok:
  assumes "sorted_wrt (before (compare_str init_rules)) es" and "\<forall>e \<in> set es. snd e < k \<and> NUL \<notin> set (fst e)" and "\<forall>w \<in> set ws. NUL \<notin> set w"
    and "0 \<le> k" and "k + int (length ws) \<le> 2 ^ 15"
  shows "sorted_wrt (before (compare_str init_rules)) (sort_in (compare_str init_rules) k ws es)"
    and "mset (sort_in (compare_str init_rules) k ws es) = mset es + mset (zip ws [k..k + int (length ws) - 1])"
proof -
  have "sorted_wrt (before (compare_str init_rules)) (sort_in (compare_str init_rules) k ws es) \<and>
      mset (sort_in (compare_str init_rules) k ws es) = mset es + mset (zip ws [k..k + int (length ws) - 1])"
    using assms
  proof (induction ws arbitrary: k es)
    case Nil
    then show ?case by simp
  next
    case (Cons w ws)
    let ?es = "ins (compare_str init_rules) (w, k) es"
    have k: "wrap16 k = k" using Cons.prems(4,5) by (intro wrap16_id) auto
    have "sorted_wrt (before (compare_str init_rules)) ?es"
      by (rule init_order.before_ins [OF Cons.prems(1)]) (use Cons.prems(2,3) in auto)
    moreover have "\<forall>e \<in> set ?es. snd e < k + 1 \<and> NUL \<notin> set (fst e)"
      using Cons.prems(2,3) by (fastforce simp: init_order.set_ins)
    ultimately have "sorted_wrt (before (compare_str init_rules)) (sort_in (compare_str init_rules) (k + 1) ws ?es) \<and>
        mset (sort_in (compare_str init_rules) (k + 1) ws ?es) = mset ?es + mset (zip ws [k + 1..k + 1 + int (length ws) - 1])"
      by (rule Cons.IH) (use Cons.prems(3-5) in auto)
    moreover have "[k..k + int (length ws)] = k # [k + 1..k + int (length ws)]" by (simp add: upto_rec1)
    ultimately show ?case by (simp add: k mset_ins)
  qed
  then show "sorted_wrt (before (compare_str init_rules)) (sort_in (compare_str init_rules) k ws es)"
    and "mset (sort_in (compare_str init_rules) k ws es) = mset es + mset (zip ws [k..k + int (length ws) - 1])" by simp_all
qed

lemma words_at_chars: "(i, w) \<in> set (words_at bl k x) \<Longrightarrow> set w \<subseteq> set x"
proof (induction bl k x rule: words_at.induct)
  case (1 bl i)
  then show ?case by simp
next
  case (2 bl j c x)
  show ?case
  proof (cases "in_tab bl c")
    case True
    then show ?thesis using 2 by auto
  next
    case False
    have "set (takeWhile (\<lambda>d. \<not> in_tab bl d) x) \<subseteq> set x" by (auto dest: set_takeWhileD)
    moreover have "set (drop n x) \<subseteq> set x" for n by (rule set_drop_subset)
    ultimately show ?thesis using 2 False by (fastforce simp: Let_def)
  qed
qed

lemma gen_sort_ok:
  assumes inv: "chx_inv s" and ru: "rules s = init_rules" and bl: "blanks s \<noteq> None" and nul: "NUL \<notin> set (int4_blanks s)"
    and a: "sview s a = Some x" and q: "ctab s ! 0 = Some q" "sview s q = Some y" and r: "sview s r = Some z" "r \<noteq> q"
  defines "ws \<equiv> tl (map snd (words_at (token_blanks s) 0 x))"
  assumes n: "length ws < 2 ^ 15"
  obtains es y' s' where "gen_sort (Some r) (Some a) s = Some (1, s')" "chx_inv s'"
    "sview s' = (sview s)(q \<mapsto> y', r \<mapsto> z @ concat (if direction_of s x > 0 then map (dec_text \<circ> snd) es else rev (map (dec_text \<circ> snd) es)))"
    "mset es = mset (zip ws [1..int (length ws)])" "sorted_wrt (before (compare_str init_rules)) es"
proof -
  let ?d = "direction_of s x"
  obtain l w p s1 s2 s3 where g: "nlnode 1 s = (l, s1)" "chxalloc 80 THIN ''gen_sort word'' s1 = (w, s2)"
    "chxint4 (Some a) (Some 0) s2 = Some (?d, p, s3)" "gen_inv s w l s3" "entries l s3 = []"
    by (rule gen_start_ok [OF inv bl nul a])
  obtain l' s4 where l': "gen_loop w (Some a) (int 1 + 1) l s3 = Some (l', s4)" "gen_inv s w l' s4"
    "entries l' s4 = sort_in (compare_str (rules s)) (int 1) (drop 1 (map snd (words_at (token_blanks s) 0 x))) (entries l s3)"
    using gen_loop_ok [OF g(4) inv a bl, of 1] by blast
  have e: "entries l' s4 = sort_in (compare_str init_rules) 1 ws []" using l'(3) g(5) ru by (simp add: ws_def drop_Suc)
  have "NUL \<notin> set v" if "v \<in> set ws" for v
  proof -
    have "v \<in> snd ` set (tl (words_at (token_blanks s) 0 x))" using that by (simp add: ws_def flip: map_tl)
    moreover have "set (tl W) \<subseteq> set W" for W :: "(nat \<times> string) list" by (cases W) auto
    ultimately obtain i where "(i, v) \<in> set (words_at (token_blanks s) 0 x)" by force
    then show ?thesis using words_at_chars live_no_NUL [OF a] by blast
  qed
  then have srt: "sorted_wrt (before (compare_str init_rules)) (sort_in (compare_str init_rules) 1 ws [])"
    "mset (sort_in (compare_str init_rules) 1 ws []) = mset [] + mset (zip ws [1..1 + int (length ws) - 1])"
    using sort_in_ok [of "[]" 1 ws] n by simp_all
  obtain s5 s6 s7 s8 s9 y' where f: "chxclear (Some w) s4 = Some (1, s5)" "gen_print ?d w (tl l') s5 = Some s6" "chxcat (Some r) (Some w) s6 = Some (1, s7)"
    "chxfree (Some w) s7 = Some (1, s8)" "nlfree l' s8 = Some (1, s9)" "chx_inv s9"
    "sview s9 = (sview s)(q \<mapsto> y', r \<mapsto> z @ concat (if ?d > 0 then map (dec_text \<circ> snd) (entries l' s4) else rev (map (dec_text \<circ> snd) (entries l' s4))))"
    by (rule gen_finish_ok [OF l'(2) inv q r])
  have "gen_sort (Some r) (Some a) s = Some (1, s9)" using g(1-3) l'(1) f(1-5) by (simp add: gen_sort_def)
  then show thesis using that f(6,7) e srt by simp
qed

section \<open>Properties\<close>

lemma dir_sorted: "sorted_wrt (dir_le d) ws \<Longrightarrow> d > 0 \<Longrightarrow> sorted ws" "sorted_wrt (dir_le d) ws \<Longrightarrow> d < 0 \<Longrightarrow> sorted (rev ws)"
  by (auto simp: dir_le_def out_of_order_def sorted_wrt_rev elim!: sorted_wrt_mono_rel [rotated])

lemma trip_sorted: "sorted_wrt (trip_le d) ws \<Longrightarrow> (if d > 0 then sorted (map trip_key ws) else sorted (rev (map trip_key ws)))"
  by (auto simp: trip_le_key sorted_wrt_rev sorted_wrt_map elim!: sorted_wrt_mono_rel [rotated])

lemma started_sort_ready:
  assumes "\<forall>t \<in> set ts. NUL \<notin> set t"
  shows "sort_ready (started_store ts)"
proof -
  have "tab_nextw (started_store ts) = None" by (simp add: started_store_def store_of_def init_state_def)
  then have "nextw_blanks (started_store ts) = [CHR '' '', CHR 0x0A, CHR 0x09, newline, CHR 0x09]"
    using started_sview [OF assms, of 1] by (simp add: nextw_blanks_def blank_chars_def)
  then show ?thesis using started_inv [OF assms] started_blanks [OF assms]
    by (auto simp: sort_ready_def num_blanks_def is_digit_def digit_def bval_def)
qed

text \<open>
  C27. \<open>num_sort\<close> sorts: given the direction and the numbers as decimal words of \<open>arg\<close>, it appends to \<open>result\<close> a
  permutation of the numbers, ascending for a positive direction, descending for a negative one, and in the
  given order for direction 0. It always returns, the work chix is released, and apart from the first
  temporary no other string of the store is changed.
\<close>

theorem num_sort_sorts:
  assumes "sort_ready s" and "sview s a = Some (num_arg d vs)" and "- (2 ^ 31) \<le> d" "d < 2 ^ 31"
    and "\<forall>v \<in> set vs. - (2 ^ 31) \<le> v \<and> v < 2 ^ 31"
    and "ctab s ! 0 = Some q" "sview s q = Some y" and "sview s r = Some x" "r \<noteq> q"
  shows "\<exists>ws y' s'. num_sort (Some r) (Some a) s = Some (1, s') \<and> mset ws = mset vs \<and>
    (if d > 0 then sorted ws else if d < 0 then sorted (rev ws) else ws = vs) \<and> chx_inv s' \<and>
    sview s' = (sview s)(q \<mapsto> y', r \<mapsto> x @ concat (map dec_text ws))"
proof -
  obtain ws y' s' where w: "num_sort (Some r) (Some a) s = Some (1, s')" "mset ws = mset vs" "sorted_wrt (dir_le d) ws" "d = 0 \<longrightarrow> ws = vs"
    "chx_inv s'" "sview s' = (sview s)(q \<mapsto> y', r \<mapsto> x @ concat (map dec_text ws))"
    by (rule num_sort_ok [OF assms])
  have "if d > 0 then sorted ws else if d < 0 then sorted (rev ws) else ws = vs" using dir_sorted [OF w(3)] w(4) by auto
  then show ?thesis using w by blast
qed

theorem num_sort_sorts_witness:
  "\<exists>ws y' s'. num_sort (Some 13) (Some 12) (started_store [num_arg (-1) [30, -7, 1996, 30], ''> '']) = Some (1, s') \<and>
    mset ws = mset [30, -7, 1996, 30] \<and> (if (-1::int) > 0 then sorted ws else if (-1::int) < 0 then sorted (rev ws) else ws = [30, -7, 1996, 30]) \<and>
    chx_inv s' \<and> sview s' = (sview (started_store [num_arg (-1) [30, -7, 1996, 30], ''> '']))(2 \<mapsto> y', 13 \<mapsto> ''> '' @ concat (map dec_text ws))"
proof -
  have n: "\<forall>t \<in> set [num_arg (-1) [30, -7, 1996, 30], ''> '']. NUL \<notin> set t" by code_simp
  show ?thesis
    by (rule num_sort_sorts [where y = "[]"]) (use started_sort_ready [OF n] started_sview [OF n] in simp_all)
qed

text \<open>
  \<open>trip_sort\<close> sorts triples (conference, item, response): it appends a permutation of the given triples in
  lexicographic order, ascending for a positive direction and descending otherwise; one or two numbers left
  over at the end are dropped.
\<close>

theorem trip_sort_sorts:
  assumes "sort_ready s" and "sview s a = Some (num_arg d (flat ts @ rest))" and "- (2 ^ 31) \<le> d" "d < 2 ^ 31"
    and "\<forall>v \<in> set (flat ts). - (2 ^ 31) \<le> v \<and> v < 2 ^ 31" and "length rest < 3"
    and "ctab s ! 0 = Some q" "sview s q = Some y" and "sview s r = Some x" "r \<noteq> q"
  shows "\<exists>ws y' s'. trip_sort (Some r) (Some a) s = Some (1, s') \<and> mset ws = mset ts \<and>
    (if d > 0 then sorted (map trip_key ws) else sorted (rev (map trip_key ws))) \<and> chx_inv s' \<and>
    sview s' = (sview s)(q \<mapsto> y', r \<mapsto> x @ concat (map trip_text ws))"
proof -
  obtain ws y' s' where w: "trip_sort (Some r) (Some a) s = Some (1, s')" "mset ws = mset ts" "sorted_wrt (trip_le d) ws"
    "chx_inv s'" "sview s' = (sview s)(q \<mapsto> y', r \<mapsto> x @ concat (map trip_text ws))"
    by (rule trip_sort_ok [OF assms])
  then show ?thesis using trip_sorted [OF w(3)] by blast
qed

theorem trip_sort_sorts_witness:
  "\<exists>ws y' s'. trip_sort (Some 13) (Some 12) (started_store [num_arg 1 (flat [\<lparr>cnum = 2, inum = 1, rnum = 4\<rparr>, \<lparr>cnum = 1, inum = 7, rnum = 0\<rparr>] @ [9]), [] ]) = Some (1, s') \<and>
    mset ws = mset [\<lparr>cnum = 2, inum = 1, rnum = 4\<rparr>, \<lparr>cnum = 1, inum = 7, rnum = 0\<rparr>] \<and>
    (if (1::int) > 0 then sorted (map trip_key ws) else sorted (rev (map trip_key ws))) \<and> chx_inv s' \<and>
    sview s' = (sview (started_store [num_arg 1 (flat [\<lparr>cnum = 2, inum = 1, rnum = 4\<rparr>, \<lparr>cnum = 1, inum = 7, rnum = 0\<rparr>] @ [9]), [] ]))
      (2 \<mapsto> y', 13 \<mapsto> [] @ concat (map trip_text ws))"
proof -
  let ?t = "num_arg 1 (flat [\<lparr>cnum = 2, inum = 1, rnum = 4\<rparr>, \<lparr>cnum = 1, inum = 7, rnum = 0\<rparr>] @ [9])"
  have n: "\<forall>t \<in> set [?t, [] ]. NUL \<notin> set t" by code_simp
  show ?thesis
    by (rule trip_sort_sorts [where y = "[]" and rest = "[9]"], rule started_sort_ready [OF n])
       (simp_all add: flat_def started_sview [OF n, unfolded flat_def, simplified])
qed

text \<open>
  C28. \<open>gen_sort\<close> ranks: the words of \<open>arg\<close> after the first are numbered from 1, and the numbers are appended to
  \<open>result\<close> in the order of the words under the collating rules, equal words in the order given; for a direction
  that is not positive the whole sequence is reversed. The name list and the work chix are released: apart from
  the result and the first temporary, the strings in use are the ones before the call.
\<close>

theorem gen_sort_orders:
  assumes "chx_inv s" and "rules s = init_rules" and "blanks s \<noteq> None" and "NUL \<notin> set (int4_blanks s)"
    and "sview s a = Some x" and "ctab s ! 0 = Some q" "sview s q = Some y" and "sview s r = Some z" "r \<noteq> q"
    and "ws = tl (map snd (words_at (token_blanks s) 0 x))" and "length ws < 2 ^ 15"
  shows "\<exists>es y' s'. gen_sort (Some r) (Some a) s = Some (1, s') \<and> mset es = mset (zip ws [1..int (length ws)]) \<and>
    sorted_wrt (before (compare_str init_rules)) es \<and> chx_inv s' \<and>
    sview s' = (sview s)(q \<mapsto> y', r \<mapsto> z @ concat (if direction_of s x > 0 then map (dec_text \<circ> snd) es else rev (map (dec_text \<circ> snd) es)))"
  using gen_sort_ok [OF assms(1-9)] assms(10,11) by metis

theorem gen_sort_orders_witness:
  "\<exists>es y' s'. gen_sort (Some 13) (Some 12) (started_store [''1 pear Fig apple fig'', [] ]) = Some (1, s') \<and>
    mset es = mset (zip [''pear'', ''Fig'', ''apple'', ''fig''] [1..int (length [''pear'', ''Fig'', ''apple'', ''fig''])]) \<and>
    sorted_wrt (before (compare_str init_rules)) es \<and> chx_inv s' \<and>
    sview s' = (sview (started_store [''1 pear Fig apple fig'', [] ]))(2 \<mapsto> y', 13 \<mapsto> [] @
      concat (if direction_of (started_store [''1 pear Fig apple fig'', [] ]) ''1 pear Fig apple fig'' > 0 then map (dec_text \<circ> snd) es else rev (map (dec_text \<circ> snd) es)))"
proof -
  have n: "\<forall>t \<in> set [''1 pear Fig apple fig'', [] ]. NUL \<notin> set t" by code_simp
  show ?thesis
    by (rule gen_sort_orders [where y = "[]"])
       (use started_inv [OF n] started_sview [OF n] in \<open>simp_all add: started_blanks [OF n] in_tab_def Let_def\<close>)
qed

end
