(* ===== verification/Tokens.thy ===== *)
theory Tokens
  imports ChixKept Rlist "HOL-Library.Sublist"
begin

text \<open>
  The selection language of the command line (\<open>CV2/gen\<close>): \<open>parse2_tokens\<close> takes a text such as
  \<open>1-5:3-last, author "smith"\<close> apart into an array of tokens, \<open>collapse_range\<close> turns numbers, dashes and the words
  for all, last and this into numeric ranges, and \<open>merge_tokens\<close> joins the two halves of an \<open>item:response\<close> pair and
  names with their data. Keywords are looked up by \<open>tablematch\<close> of \<open>CV2/glyph\<close>.
\<close>

section \<open>Keyword tables\<close>

datatype match_state = STARTWORD | CHECKWORD | NEXTPART | NEXTWORD

text \<open>One round of the loop with the characters \<open>c\<close> of the table and \<open>w\<close> of the word: \<open>RETURN (r)\<close> is \<open>Inl r\<close>.\<close>

definition match_step ::
  "int \<Rightarrow> int \<Rightarrow> int \<Rightarrow> int \<Rightarrow> match_state \<Rightarrow> int \<Rightarrow> int \<Rightarrow> chx_state \<Rightarrow>
   ((int + int \<times> int \<times> match_state \<times> int \<times> int) \<times> chx_state) option" where
  "match_step c w sp wp state which res s = (case state of
     STARTWORD \<Rightarrow> do {
       (b, s) \<leftarrow> chxblank c s;
       Some (Inr (if b = 0 then (sp, 0, CHECKWORD, which, res) else (sp + 1, wp, STARTWORD, which, res)), s) }
   | CHECKWORD \<Rightarrow> Some (if w = 0 \<and> res \<ge> 0 then Inl (-2)
       else if w = 0 then Inr (sp, wp, NEXTWORD, which, which)
       else if w = c then Inr (sp + 1, wp + 1, CHECKWORD, which, res)
       else Inr (sp, wp, NEXTPART, which, res), s)
   | NEXTPART \<Rightarrow>
       if c = bval (CHR ''/'') then Some (Inr (sp + 1, 0, CHECKWORD, which, res), s)
       else do {
         (b, s) \<leftarrow> chxblank c s;
         Some (Inr (if b \<noteq> 0 then (sp, wp, STARTWORD, which + 1, res) else (sp + 1, wp, NEXTPART, which, res)), s) }
   | NEXTWORD \<Rightarrow> do {
       (b, s) \<leftarrow> chxblank c s;
       Some (Inr (if b \<noteq> 0 then (sp, wp, STARTWORD, which + 1, res) else (sp + 1, wp, NEXTWORD, which, res)), s) })"

partial_function (option) match_scan ::
  "Chix \<Rightarrow> Chix \<Rightarrow> int \<Rightarrow> int \<Rightarrow> int \<Rightarrow> match_state \<Rightarrow> int \<Rightarrow> int \<Rightarrow> chx_state \<Rightarrow> (int \<times> chx_state) option" where
  "match_scan table word stop sp wp state which res s =
     (if sp = stop then Some (res, s)
      else do {
        (c, s) \<leftarrow> chxvalue table sp s;
        (w, s) \<leftarrow> chxvalue word wp s;
        (next, s) \<leftarrow> match_step c w sp wp state which res s;
        case next of Inl r \<Rightarrow> Some (r, s)
        | Inr (sp, wp, state, which, res) \<Rightarrow> match_scan table word stop sp wp state which res s })"

definition tablematch :: "Chix \<Rightarrow> Chix \<Rightarrow> chx_state \<Rightarrow> (int \<times> chx_state) option" where
  "tablematch table word s =
     (if table = nullchix \<or> word = nullchix then Some (-1, s)
      else do {
        (e, s) \<leftarrow> EMPTYCHX table s;
        if e then Some (-1, s)
        else do {
          (e, s) \<leftarrow> EMPTYCHX word s;
          if e then Some (-1, s)
          else do {
            (len, s) \<leftarrow> chxlen table s;
            match_scan table word (len + 1) 0 0 STARTWORD 0 (-1) s } } })"

section \<open>What a keyword stands for\<close>

text \<open>
  A table is a text of entries separated by blanks; an entry lists the names of one keyword, separated by
  slashes. A word stands for an entry when it is a prefix of one of the names. \<open>verdict\<close> is the outcome: the only
  entry the word stands for, \<open>-1\<close> if there is none, \<open>-2\<close> if there are several.
\<close>

fun slash_parts :: "string \<Rightarrow> string list" where
  "slash_parts [] = [[]]"
| "slash_parts (c # x) = (if c = CHR ''/'' then [] # slash_parts x else (c # hd (slash_parts x)) # tl (slash_parts x))"

definition abbreviates :: "string \<Rightarrow> string \<Rightarrow> bool" where
  "abbreviates w e \<longleftrightarrow> (\<exists>p \<in> set (slash_parts e). prefix w p)"

definition entry_words :: "string \<Rightarrow> string \<Rightarrow> string list" where
  "entry_words bl x = map snd (words_at bl 0 x)"

definition match_result :: "string \<Rightarrow> string list \<Rightarrow> int" where
  "match_result w es = (case filter (\<lambda>i. abbreviates w (es ! i)) [0..<length es] of [] \<Rightarrow> -1 | [i] \<Rightarrow> int i | _ \<Rightarrow> -2)"

fun verdict :: "string \<Rightarrow> int \<Rightarrow> int \<Rightarrow> string list \<Rightarrow> int" where
  "verdict w res k [] = res"
| "verdict w res k (e # es) =
     (if abbreviates w e then if res \<ge> 0 then -2 else verdict w k (k + 1) es else verdict w res (k + 1) es)"

lemma verdict_set: "0 \<le> r \<Longrightarrow> verdict w r k es = (if \<exists>e \<in> set es. abbreviates w e then -2 else r)"
  by (induction es arbitrary: k) auto

lemma verdict_result: "verdict w (-1) 0 es = match_result w es"
proof -
  have "verdict w (-1) (int k) es =
      (case filter (\<lambda>i. abbreviates w (es ! i)) [0..<length es] of [] \<Rightarrow> -1 | [i] \<Rightarrow> int k + int i | _ \<Rightarrow> -2)" for k
  proof (induction es arbitrary: k)
    case Nil
    then show ?case by simp
  next
    case (Cons e es)
    let ?f = "filter (\<lambda>i. abbreviates w (es ! i)) [0..<length es]"
    have u: "[0..<length (e # es)] = 0 # map Suc [0..<length es]" by (simp add: upt_conv_Cons map_Suc_upt del: upt_Suc)
    have f: "filter (\<lambda>i. abbreviates w ((e # es) ! i)) [0..<length (e # es)] =
        (if abbreviates w e then [0] else []) @ map Suc ?f"
      unfolding u by (simp add: filter_map comp_def)
    have "?f = [] \<longleftrightarrow> \<not> (\<exists>e \<in> set es. abbreviates w e)" by (auto simp: filter_empty_conv set_conv_nth)
    moreover have "verdict w (-1) (int k + 1) es = verdict w (-1) (int (Suc k)) es" by (simp add: add.commute)
    ultimately show ?case using Cons.IH [of "Suc k"] unfolding f
      by (auto simp: verdict_set split: list.splits)
  qed
  from this [of 0] show ?thesis by (simp add: match_result_def split: list.splits)
qed

text \<open>A word without slashes that is matched from the middle: \<open>v\<close> is what is left of it, \<open>y\<close> the rest of the entry.\<close>

definition hit :: "string \<Rightarrow> string \<Rightarrow> string \<Rightarrow> bool" where
  "hit w v y \<longleftrightarrow> prefix v (hd (slash_parts y)) \<or> (\<exists>p \<in> set (tl (slash_parts y)). prefix w p)"

lemma slash_parts_not_Nil [simp]: "slash_parts y \<noteq> []"
  by (cases y) auto

lemma hit_abbreviates: "hit w w y = abbreviates w y"
  by (cases "slash_parts y") (auto simp: hit_def abbreviates_def)

lemma hit_Nil [simp]: "hit w [] y"
  by (simp add: hit_def)

lemma hit_end: "hit w (d # v) [] = False"
  by (simp add: hit_def)

lemma hit_same: "c \<noteq> CHR ''/'' \<Longrightarrow> hit w (c # v) (c # y) = hit w v y"
  by (simp add: hit_def)

definition later :: "string \<Rightarrow> string \<Rightarrow> bool" where
  "later w y \<longleftrightarrow> (\<exists>p \<in> set (tl (slash_parts y)). prefix w p)"

lemma hit_differs: "c \<noteq> d \<Longrightarrow> hit w (d # v) (c # y) = later w (c # y)"
  by (auto simp: hit_def later_def)

lemma later_simps: "later w [] = False" "later w (CHR ''/'' # y) = abbreviates w y" "c \<noteq> CHR ''/'' \<Longrightarrow> later w (c # y) = later w y"
  by (auto simp: later_def abbreviates_def)

section \<open>The scan finds the entry\<close>

definition scan_ready :: "nat \<Rightarrow> string \<Rightarrow> nat \<Rightarrow> string \<Rightarrow> chx_state \<Rightarrow> bool" where
  "scan_ready t x w v s \<longleftrightarrow> chx_inv s \<and> blanks s \<noteq> None \<and> NUL \<notin> set (blank_blanks s) \<and> sview s t = Some x \<and> sview s w = Some v"

lemma scan_ready_reads: "scan_ready t x w v s \<Longrightarrow> reads s s' \<Longrightarrow> scan_ready t x w v s'"
  by (simp add: scan_ready_def reads_def kept_def)

lemma char_at_range: "0 \<le> char_at x n" "char_at x n < 256"
  using bval_range by (auto simp: char_at_def)

lemma match_step_ok:
  assumes "chx_inv s" and "blanks s \<noteq> None" and "0 \<le> c" "c < 256"
  obtains s' where "reads s s'" "match_step c w sp wp state which res s =
    (let b = in_tab (blank_blanks s) (byte c) in Some (case state of
       STARTWORD \<Rightarrow> Inr (if \<not> b then (sp, 0, CHECKWORD, which, res) else (sp + 1, wp, STARTWORD, which, res))
     | CHECKWORD \<Rightarrow> if w = 0 \<and> res \<ge> 0 then Inl (-2) else if w = 0 then Inr (sp, wp, NEXTWORD, which, which)
         else if w = c then Inr (sp + 1, wp + 1, CHECKWORD, which, res) else Inr (sp, wp, NEXTPART, which, res)
     | NEXTPART \<Rightarrow> Inr (if c = bval (CHR ''/'') then (sp + 1, 0, CHECKWORD, which, res)
         else if b then (sp, wp, STARTWORD, which + 1, res) else (sp + 1, wp, NEXTPART, which, res))
     | NEXTWORD \<Rightarrow> Inr (if b then (sp, wp, STARTWORD, which + 1, res) else (sp + 1, wp, NEXTWORD, which, res)), s'))"
proof -
  obtain s1 where s1: "chxblank c s = Some (if in_tab (blank_blanks s) (byte c) then 1 else 0, s1)" "reads s s1"
    by (rule chxblank_reads [OF assms])
  let ?s = "if state = CHECKWORD \<or> state = NEXTPART \<and> c = bval (CHR ''/'') then s else s1"
  show thesis
    by (rule that [of ?s]) (use s1 reads_refl [OF assms(1)] in \<open>cases state; auto simp: match_step_def Let_def\<close>)+
qed

abbreviation scan :: "nat \<Rightarrow> nat \<Rightarrow> string \<Rightarrow> nat \<Rightarrow> nat \<Rightarrow> match_state \<Rightarrow> int \<Rightarrow> int \<Rightarrow> chx_state \<Rightarrow> (int \<times> chx_state) option" where
  "scan t w x k j \<equiv> match_scan (Some t) (Some w) (int (length x) + 1) (int k) (int j)"

lemma scan_round:
  assumes "scan_ready t x w v s" and "k \<le> length x"
  obtains s' where "reads s s'" "scan t w x k j state which res s =
    (let c = char_at x (int k); d = char_at v (int j); b = in_tab (blank_blanks s) (byte c) in case state of
       STARTWORD \<Rightarrow> if \<not> b then scan t w x k 0 CHECKWORD which res s'
         else scan t w x (Suc k) j STARTWORD which res s'
     | CHECKWORD \<Rightarrow> if d = 0 \<and> res \<ge> 0 then Some (-2, s')
         else if d = 0 then scan t w x k j NEXTWORD which which s'
         else if d = c then scan t w x (Suc k) (Suc j) CHECKWORD which res s'
         else scan t w x k j NEXTPART which res s'
     | NEXTPART \<Rightarrow> if c = bval (CHR ''/'') then scan t w x (Suc k) 0 CHECKWORD which res s'
         else if b then scan t w x k j STARTWORD (which + 1) res s'
         else scan t w x (Suc k) j NEXTPART which res s'
     | NEXTWORD \<Rightarrow> if b then scan t w x k j STARTWORD (which + 1) res s'
         else scan t w x (Suc k) j NEXTWORD which res s')"
proof -
  have r: "chx_inv s" "blanks s \<noteq> None" "sview s t = Some x" "sview s w = Some v" using assms(1) by (simp_all add: scan_ready_def)
  obtain s1 where s1: "chxvalue (Some t) (int k) s = Some (char_at x (int k), s1)" "reads s s1"
    by (rule chxvalue_reads [OF r(1,3) of_nat_0_le_iff])
  note r1 = readsD [OF s1(2)]
  have "sview s1 w = Some v" using r(4) r1(2) by simp
  then obtain s2 where s2: "chxvalue (Some w) (int j) s1 = Some (char_at v (int j), s2)" "reads s1 s2"
    by (rule chxvalue_reads [OF r1(1) _ of_nat_0_le_iff])
  note r2 = readsD [OF s2(2)]
  have b2: "blanks s2 \<noteq> None" using r(2) r1(3) r2(3) by simp
  obtain s3 where s3: "reads s2 s3" "match_step (char_at x (int k)) (char_at v (int j)) (int k) (int j) state which res s2 =
    (let b = in_tab (blank_blanks s2) (byte (char_at x (int k))) in Some (case state of
       STARTWORD \<Rightarrow> Inr (if \<not> b then (int k, 0, CHECKWORD, which, res) else (int k + 1, int j, STARTWORD, which, res))
     | CHECKWORD \<Rightarrow> if char_at v (int j) = 0 \<and> res \<ge> 0 then Inl (-2) else if char_at v (int j) = 0 then Inr (int k, int j, NEXTWORD, which, which)
         else if char_at v (int j) = char_at x (int k) then Inr (int k + 1, int j + 1, CHECKWORD, which, res) else Inr (int k, int j, NEXTPART, which, res)
     | NEXTPART \<Rightarrow> Inr (if char_at x (int k) = bval (CHR ''/'') then (int k + 1, 0, CHECKWORD, which, res)
         else if b then (int k, int j, STARTWORD, which + 1, res) else (int k + 1, int j, NEXTPART, which, res))
     | NEXTWORD \<Rightarrow> Inr (if b then (int k, int j, STARTWORD, which + 1, res) else (int k + 1, int j, NEXTWORD, which, res)), s3))"
    by (rule match_step_ok [OF r2(1) b2 char_at_range])
  have nk: "int k \<noteq> int (length x) + 1" using assms(2) by simp
  have sc: "int k + 1 = int (Suc k)" "int j + 1 = int (Suc j)" by simp_all
  have bb: "blank_blanks s2 = blank_blanks s" using r1(6) r2(6) by simp
  have "scan t w x k j state which res s = do {
      (next, s) \<leftarrow> match_step (char_at x (int k)) (char_at v (int j)) (int k) (int j) state which res s2;
      case next of Inl r \<Rightarrow> Some (r, s) | Inr (sp, wp, state, which, res) \<Rightarrow> match_scan (Some t) (Some w) (int (length x) + 1) sp wp state which res s }"
    by (subst match_scan.simps) (simp add: nk s1(1) s2(1))
  then show thesis unfolding s3(2) Let_def bb
    by (intro that [OF reads_trans [OF s1(2) reads_trans [OF s2(2) s3(1)]]]) (cases state; simp add: Let_def sc del: of_nat_Suc)
qed

lemma scan_stop: "scan t w x (Suc (length x)) j state which res s = Some (res, s)"
  by (subst match_scan.simps) simp

lemma words_at_shift: "map snd (words_at bl i x) = map snd (words_at bl j x)"
proof (induction bl i x arbitrary: j rule: words_at.induct)
  case (1 bl i)
  then show ?case by simp
next
  case (2 bl i c x)
  show ?case
  proof (cases "in_tab bl c")
    case True
    then show ?thesis using "2.IH"(1) by simp
  next
    case False
    then show ?thesis using "2.IH"(2) [OF False refl] by (simp add: Let_def)
  qed
qed

lemma entry_words_simps [simp]:
  "entry_words bl [] = []"
  "in_tab bl c \<Longrightarrow> entry_words bl (c # x) = entry_words bl x"
  "\<not> in_tab bl c \<Longrightarrow> entry_words bl (c # x) =
     (c # takeWhile (\<lambda>d. \<not> in_tab bl d) x) # entry_words bl (dropWhile (\<lambda>d. \<not> in_tab bl d) x)"
  using words_at_shift [of bl _ _ 0] by (simp_all add: entry_words_def Let_def dropWhile_eq_drop)

definition outcome :: "string \<Rightarrow> bool \<Rightarrow> int \<Rightarrow> int \<Rightarrow> string list \<Rightarrow> int" where
  "outcome w h res k es = (if h then if res \<ge> 0 then -2 else verdict w k (k + 1) es else verdict w res (k + 1) es)"

text \<open>The four states, at the rest \<open>drop k x\<close> of the table.\<close>

definition scans :: "nat \<Rightarrow> nat \<Rightarrow> string \<Rightarrow> nat \<Rightarrow> nat \<Rightarrow> match_state \<Rightarrow> int \<Rightarrow> int \<Rightarrow> chx_state \<Rightarrow> int \<Rightarrow> bool" where
  "scans t w x k j state which res s r \<longleftrightarrow> (\<exists>s'. reads s s' \<and> scan t w x k j state which res s = Some (r, s'))"

lemma scans_step:
  assumes "reads s s'" and "scan t w x k j state which res s = scan t w x k' j' state' which' res' s'"
    and "scans t w x k' j' state' which' res' s' r"
  shows "scans t w x k j state which res s r"
  using assms reads_trans unfolding scans_def by metis

lemma scans_stop:
  assumes "reads s s'" and "scan t w x k j state which res s = scan t w x (Suc (length x)) j' state' which' res' s'"
  shows "scans t w x k j state which res s res'"
  using assms scan_stop unfolding scans_def by metis

text \<open>
  The rest of the table starts with a slash-free blank, with another character, or is empty. In each case the
  states are settled in the order in which they hand over to each other.
\<close>

definition scan_at :: "nat \<Rightarrow> nat \<Rightarrow> string \<Rightarrow> string \<Rightarrow> string \<Rightarrow> chx_state \<Rightarrow> bool" where
  "scan_at t w x v bl s \<longleftrightarrow> scan_ready t x w v s \<and> blank_blanks s = bl"

lemma scan_at_reads: "scan_at t w x v bl s \<Longrightarrow> reads s s' \<Longrightarrow> scan_at t w x v bl s'"
  using scan_ready_reads readsD(6) by (metis scan_at_def)

definition word_ok :: "string \<Rightarrow> string \<Rightarrow> bool" where
  "word_ok bl v \<longleftrightarrow> v \<noteq> [] \<and> (\<forall>c \<in> set v. \<not> in_tab bl c \<and> c \<noteq> CHR ''/'' \<and> c \<noteq> NUL)"

definition scans_all :: "nat \<Rightarrow> nat \<Rightarrow> string \<Rightarrow> string \<Rightarrow> string \<Rightarrow> nat \<Rightarrow> bool" where
  "scans_all t w x v bl k \<longleftrightarrow> (\<forall>s j which res. scan_at t w x v bl s \<longrightarrow>
     (let e = takeWhile (\<lambda>d. \<not> in_tab bl d) (drop k x); es = entry_words bl (dropWhile (\<lambda>d. \<not> in_tab bl d) (drop k x)) in
       scans t w x k j STARTWORD which res s (verdict v res which (entry_words bl (drop k x))) \<and>
       scans t w x k j NEXTWORD which res s (verdict v res (which + 1) es) \<and>
       scans t w x k j NEXTPART which res s (outcome v (later v e) res which es) \<and>
       (j \<le> length v \<longrightarrow> scans t w x k j CHECKWORD which res s (outcome v (hit v (drop j v) e) res which es))))"

lemma scans_allD:
  assumes "scans_all t w x v bl k" and "scan_at t w x v bl s"
  defines "e \<equiv> takeWhile (\<lambda>d. \<not> in_tab bl d) (drop k x)" and "es \<equiv> entry_words bl (dropWhile (\<lambda>d. \<not> in_tab bl d) (drop k x))"
  shows "scans t w x k j STARTWORD which res s (verdict v res which (entry_words bl (drop k x)))"
    and "scans t w x k j NEXTWORD which res s (verdict v res (which + 1) es)"
    and "scans t w x k j NEXTPART which res s (outcome v (later v e) res which es)"
    and "j \<le> length v \<Longrightarrow> scans t w x k j CHECKWORD which res s (outcome v (hit v (drop j v) e) res which es)"
  using assms(1,2) unfolding scans_all_def Let_def e_def es_def by blast+

lemma scans_allI:
  fixes k x bl
  defines "e \<equiv> takeWhile (\<lambda>d. \<not> in_tab bl d) (drop k x)" and "es \<equiv> entry_words bl (dropWhile (\<lambda>d. \<not> in_tab bl d) (drop k x))"
  assumes "\<And>s j which res. scan_at t w x v bl s \<Longrightarrow> scans t w x k j STARTWORD which res s (verdict v res which (entry_words bl (drop k x)))"
    and "\<And>s j which res. scan_at t w x v bl s \<Longrightarrow> scans t w x k j NEXTWORD which res s (verdict v res (which + 1) es)"
    and "\<And>s j which res. scan_at t w x v bl s \<Longrightarrow> scans t w x k j NEXTPART which res s (outcome v (later v e) res which es)"
    and "\<And>s j which res. scan_at t w x v bl s \<Longrightarrow> j \<le> length v \<Longrightarrow>
      scans t w x k j CHECKWORD which res s (outcome v (hit v (drop j v) e) res which es)"
  shows "scans_all t w x v bl k"
  using assms(3-6) unfolding scans_all_def Let_def e_def es_def by blast

text \<open>The word in hand is used up, agrees with the table, or differs from it.\<close>

lemma scans_check:
  assumes r: "scan_at t w x v bl s" and k: "k \<le> length x" and j: "j \<le> length v" and v: "word_ok bl v"
    and e: "e = takeWhile (\<lambda>d. \<not> in_tab bl d) (drop k x)"
    and nw: "\<And>s j which res. scan_at t w x v bl s \<Longrightarrow> scans t w x k j NEXTWORD which res s (verdict v res (which + 1) es)"
    and np: "\<And>s j which res. scan_at t w x v bl s \<Longrightarrow> scans t w x k j NEXTPART which res s (outcome v (later v e) res which es)"
    and more: "\<And>s which res. scan_at t w x v bl s \<Longrightarrow> j < length v \<Longrightarrow> k < length x \<Longrightarrow> v ! j = x ! k \<Longrightarrow>
      scans t w x (Suc k) (Suc j) CHECKWORD which res s (outcome v (hit v (drop j v) e) res which es)"
  shows "scans t w x k j CHECKWORD which res s (outcome v (hit v (drop j v) e) res which es)"
proof -
  have rd: "scan_ready t x w v s" using r by (simp add: scan_at_def)
  obtain s' where s': "reads s s'" "scan t w x k j CHECKWORD which res s =
      (if char_at v (int j) = 0 \<and> res \<ge> 0 then Some (-2, s')
       else if char_at v (int j) = 0 then scan t w x k j NEXTWORD which which s'
       else if char_at v (int j) = char_at x (int k) then scan t w x (Suc k) (Suc j) CHECKWORD which res s'
       else scan t w x k j NEXTPART which res s')"
    by (rule scan_round [OF rd k, of j CHECKWORD which res]) (simp add: Let_def)
  note r' = scan_at_reads [OF r s'(1)]
  have n: "NUL \<notin> set v" "NUL \<notin> set x" using rd live_no_NUL unfolding scan_ready_def by blast+
  have nz: "v ! j \<noteq> NUL" if "j < length v" using n(1) nth_mem [OF that] by metis
  consider (all) "j = length v" "res \<ge> 0" | (one) "j = length v" "res < 0" | (same) "j < length v" "k < length x" "v ! j = x ! k"
    | (differs) "j < length v" "k = length x \<or> v ! j \<noteq> x ! k" using k j by linarith
  then show ?thesis
  proof cases
    case all
    then show ?thesis using s' by (auto simp: scans_def outcome_def char_at_def)
  next
    case one
    then have "scan t w x k j CHECKWORD which res s = scan t w x k j NEXTWORD which which s'" using s'(2) by (simp add: char_at_def)
    from scans_step [OF s'(1) this nw [OF r']] show ?thesis using one by (simp add: outcome_def)
  next
    case same
    then have "scan t w x k j CHECKWORD which res s = scan t w x (Suc k) (Suc j) CHECKWORD which res s'"
      using s'(2) nz by (auto simp: char_at_def)
    from scans_step [OF s'(1) this more [OF r' same]] show ?thesis .
  next
    case differs
    then have "scan t w x k j CHECKWORD which res s = scan t w x k j NEXTPART which res s'"
      using s'(2) nz by (auto simp: char_at_def)
    moreover have "hit v (drop j v) e = later v e"
    proof (cases e)
      case Nil
      then show ?thesis using differs(1) by (simp add: Cons_nth_drop_Suc [symmetric] hit_end later_simps)
    next
      case (Cons c y)
      have kx: "k < length x" using e Cons k by (cases "k = length x") auto
      then have "x ! k = c" using e Cons by (simp add: Cons_nth_drop_Suc [symmetric] split: if_splits)
      then show ?thesis using differs Cons kx by (simp add: Cons_nth_drop_Suc [symmetric] hit_differs)
    qed
    ultimately show ?thesis using scans_step [OF s'(1) _ np [OF r']] by simp
  qed
qed

lemma scans_end:
  assumes v: "word_ok bl v" and n: "NUL \<notin> set bl"
  shows "scans_all t w x v bl (length x)"
proof (rule scans_allI)
  let ?k = "length x"
  have c: "char_at x (int ?k) = 0" "\<not> in_tab bl (byte 0)" using n bval_NUL byte_bval [of NUL] by (simp_all add: char_at_def in_tab_def)
  have nw: "scans t w x ?k j NEXTWORD which res s (verdict v res (which + 1) [])" if r: "scan_at t w x v bl s" for s j which res
  proof -
    have rd: "scan_ready t x w v s" "blank_blanks s = bl" using r by (simp_all add: scan_at_def)
    obtain s' where "reads s s'" "scan t w x ?k j NEXTWORD which res s = scan t w x (Suc ?k) j NEXTWORD which res s'"
      by (rule scan_round [OF rd(1) order.refl, of j NEXTWORD which res]) (use c rd(2) in \<open>simp add: Let_def\<close>)
    from scans_stop [OF this] show ?thesis by simp
  qed
  have np: "scans t w x ?k j NEXTPART which res s (outcome v (later v []) res which [])" if r: "scan_at t w x v bl s" for s j which res
  proof -
    have rd: "scan_ready t x w v s" "blank_blanks s = bl" using r by (simp_all add: scan_at_def)
    obtain s' where "reads s s'" "scan t w x ?k j NEXTPART which res s = scan t w x (Suc ?k) j NEXTPART which res s'"
      by (rule scan_round [OF rd(1) order.refl, of j NEXTPART which res]) (use c rd(2) in \<open>simp add: Let_def\<close>)
    from scans_stop [OF this] show ?thesis by (simp add: outcome_def later_simps)
  qed
  have ck: "scans t w x ?k j CHECKWORD which res s (outcome v (hit v (drop j v) []) res which [])"
    if r: "scan_at t w x v bl s" "j \<le> length v" for s j which res
    by (rule scans_check [OF r(1) order.refl r(2) v _ nw np]) simp_all
  have st: "scans t w x ?k j STARTWORD which res s (verdict v res which [])" if r: "scan_at t w x v bl s" for s j which res
  proof -
    have rd: "scan_ready t x w v s" "blank_blanks s = bl" using r by (simp_all add: scan_at_def)
    obtain s' where s': "reads s s'" "scan t w x ?k j STARTWORD which res s = scan t w x ?k 0 CHECKWORD which res s'"
      by (rule scan_round [OF rd(1) order.refl, of j STARTWORD which res]) (use c rd(2) in \<open>simp add: Let_def\<close>)
    have "\<not> hit v v []" using v by (cases v) (simp_all add: word_ok_def hit_end)
    then show ?thesis using scans_step [OF s' ck [OF scan_at_reads [OF r s'(1)]]] by (simp add: outcome_def)
  qed
  show "scans t w x ?k j STARTWORD which res s (verdict v res which (entry_words bl (drop ?k x)))"
    "scans t w x ?k j NEXTWORD which res s (verdict v res (which + 1) (entry_words bl (dropWhile (\<lambda>d. \<not> in_tab bl d) (drop ?k x))))"
    "scans t w x ?k j NEXTPART which res s (outcome v (later v (takeWhile (\<lambda>d. \<not> in_tab bl d) (drop ?k x))) res which (entry_words bl (dropWhile (\<lambda>d. \<not> in_tab bl d) (drop ?k x))))"
    if "scan_at t w x v bl s" for s j which res using st [OF that] nw [OF that] np [OF that] by simp_all
  show "scans t w x ?k j CHECKWORD which res s (outcome v (hit v (drop j v) (takeWhile (\<lambda>d. \<not> in_tab bl d) (drop ?k x))) res which
      (entry_words bl (dropWhile (\<lambda>d. \<not> in_tab bl d) (drop ?k x))))"
    if "scan_at t w x v bl s" "j \<le> length v" for s j which res using ck [OF that] by simp
qed

text \<open>A blank ends the entry.\<close>

lemma scans_blank:
  assumes v: "word_ok bl v" and k: "k < length x" and b: "in_tab bl (x ! k)" "x ! k \<noteq> CHR ''/''" and ih: "scans_all t w x v bl (Suc k)"
  shows "scans_all t w x v bl k"
proof (rule scans_allI)
  have d: "drop k x = x ! k # drop (Suc k) x" using k by (simp add: Cons_nth_drop_Suc)
  have c: "char_at x (int k) = bval (x ! k)" using k by (simp add: char_at_def)
  have c': "bval (x ! k) \<noteq> bval (CHR ''/'')" using b(2) by simp
  have kl: "k \<le> length x" using k by simp
  let ?es = "entry_words bl (drop (Suc k) x)"
  have st: "scans t w x k j STARTWORD which res s (verdict v res which ?es)" if r: "scan_at t w x v bl s" for s j which res
  proof -
    have rd: "scan_ready t x w v s" "blank_blanks s = bl" using r by (simp_all add: scan_at_def)
    obtain s' where s': "reads s s'" "scan t w x k j STARTWORD which res s = scan t w x (Suc k) j STARTWORD which res s'"
      by (rule scan_round [OF rd(1) kl, of j STARTWORD which res]) (use c b(1) rd(2) in \<open>simp add: Let_def\<close>)
    show ?thesis by (rule scans_step [OF s' scans_allD(1) [OF ih scan_at_reads [OF r s'(1)]]])
  qed
  have nw: "scans t w x k j NEXTWORD which res s (verdict v res (which + 1) ?es)" if r: "scan_at t w x v bl s" for s j which res
  proof -
    have rd: "scan_ready t x w v s" "blank_blanks s = bl" using r by (simp_all add: scan_at_def)
    obtain s' where s': "reads s s'" "scan t w x k j NEXTWORD which res s = scan t w x k j STARTWORD (which + 1) res s'"
      by (rule scan_round [OF rd(1) kl, of j NEXTWORD which res]) (use c b(1) rd(2) in \<open>simp add: Let_def\<close>)
    show ?thesis by (rule scans_step [OF s' st [OF scan_at_reads [OF r s'(1)]]])
  qed
  have np: "scans t w x k j NEXTPART which res s (outcome v (later v []) res which ?es)" if r: "scan_at t w x v bl s" for s j which res
  proof -
    have rd: "scan_ready t x w v s" "blank_blanks s = bl" using r by (simp_all add: scan_at_def)
    obtain s' where s': "reads s s'" "scan t w x k j NEXTPART which res s = scan t w x k j STARTWORD (which + 1) res s'"
      by (rule scan_round [OF rd(1) kl, of j NEXTPART which res]) (use c c' b(1) rd(2) in \<open>simp add: Let_def\<close>)
    show ?thesis using scans_step [OF s' st [OF scan_at_reads [OF r s'(1)]]] by (simp add: outcome_def later_simps)
  qed
  have ck: "scans t w x k j CHECKWORD which res s (outcome v (hit v (drop j v) []) res which ?es)"
    if r: "scan_at t w x v bl s" "j \<le> length v" for s j which res
  proof (rule scans_check [OF r(1) kl r(2) v _ nw np])
    show "[] = takeWhile (\<lambda>d. \<not> in_tab bl d) (drop k x)" using b(1) by (simp add: d)
    fix s which res assume a: "j < length v" "v ! j = x ! k"
    have "v ! j \<in> set v" using a(1) by simp
    then show "scans t w x (Suc k) (Suc j) CHECKWORD which res s (outcome v (hit v (drop j v) []) res which ?es)"
      using v b(1) a(2) unfolding word_ok_def by auto
  qed
  show "scans t w x k j STARTWORD which res s (verdict v res which (entry_words bl (drop k x)))"
    "scans t w x k j NEXTWORD which res s (verdict v res (which + 1) (entry_words bl (dropWhile (\<lambda>d. \<not> in_tab bl d) (drop k x))))"
    "scans t w x k j NEXTPART which res s (outcome v (later v (takeWhile (\<lambda>d. \<not> in_tab bl d) (drop k x))) res which (entry_words bl (dropWhile (\<lambda>d. \<not> in_tab bl d) (drop k x))))"
    if "scan_at t w x v bl s" for s j which res using st [OF that] nw [OF that] np [OF that] b(1) by (simp_all add: d)
  show "scans t w x k j CHECKWORD which res s (outcome v (hit v (drop j v) (takeWhile (\<lambda>d. \<not> in_tab bl d) (drop k x))) res which
      (entry_words bl (dropWhile (\<lambda>d. \<not> in_tab bl d) (drop k x))))"
    if "scan_at t w x v bl s" "j \<le> length v" for s j which res using ck [OF that] b(1) by (simp add: d)
qed

lemma scans_char:
  assumes v: "word_ok bl v" and k: "k < length x" and b: "\<not> in_tab bl (x ! k)" and ih: "scans_all t w x v bl (Suc k)"
  shows "scans_all t w x v bl k"
proof (rule scans_allI)
  let ?c = "x ! k" and ?e = "takeWhile (\<lambda>d. \<not> in_tab bl d) (drop (Suc k) x)"
  let ?es = "entry_words bl (dropWhile (\<lambda>d. \<not> in_tab bl d) (drop (Suc k) x))"
  have d: "drop k x = ?c # drop (Suc k) x" using k by (simp add: Cons_nth_drop_Suc)
  have c: "char_at x (int k) = bval ?c" using k by (simp add: char_at_def)
  have kl: "k \<le> length x" using k by simp
  have nw: "scans t w x k j NEXTWORD which res s (verdict v res (which + 1) ?es)" if r: "scan_at t w x v bl s" for s j which res
  proof -
    have rd: "scan_ready t x w v s" "blank_blanks s = bl" using r by (simp_all add: scan_at_def)
    obtain s' where s': "reads s s'" "scan t w x k j NEXTWORD which res s = scan t w x (Suc k) j NEXTWORD which res s'"
      by (rule scan_round [OF rd(1) kl, of j NEXTWORD which res]) (use c b rd(2) in \<open>simp add: Let_def\<close>)
    show ?thesis by (rule scans_step [OF s' scans_allD(2) [OF ih scan_at_reads [OF r s'(1)]]])
  qed
  have np: "scans t w x k j NEXTPART which res s (outcome v (later v (?c # ?e)) res which ?es)" if r: "scan_at t w x v bl s" for s j which res
  proof (cases "?c = CHR ''/''")
    case True
    have rd: "scan_ready t x w v s" "blank_blanks s = bl" using r by (simp_all add: scan_at_def)
    obtain s' where s': "reads s s'" "scan t w x k j NEXTPART which res s = scan t w x (Suc k) 0 CHECKWORD which res s'"
      by (rule scan_round [OF rd(1) kl, of j NEXTPART which res]) (use c True rd(2) in \<open>simp add: Let_def\<close>)
    have "scans t w x (Suc k) 0 CHECKWORD which res s' (outcome v (hit v (drop 0 v) ?e) res which ?es)"
      by (rule scans_allD(4) [OF ih scan_at_reads [OF r s'(1)] le0])
    then show ?thesis using scans_step [OF s'] True by (simp add: later_simps hit_abbreviates)
  next
    case False
    have rd: "scan_ready t x w v s" "blank_blanks s = bl" using r by (simp_all add: scan_at_def)
    obtain s' where s': "reads s s'" "scan t w x k j NEXTPART which res s = scan t w x (Suc k) j NEXTPART which res s'"
      by (rule scan_round [OF rd(1) kl, of j NEXTPART which res]) (use c b False rd(2) in \<open>simp add: Let_def\<close>)
    from scans_step [OF s' scans_allD(3) [OF ih scan_at_reads [OF r s'(1)]]] show ?thesis using False by (simp add: later_simps)
  qed
  have ck: "scans t w x k j CHECKWORD which res s (outcome v (hit v (drop j v) (?c # ?e)) res which ?es)"
    if r: "scan_at t w x v bl s" "j \<le> length v" for s j which res
  proof (rule scans_check [OF r(1) kl r(2) v _ nw np])
    show "?c # ?e = takeWhile (\<lambda>d. \<not> in_tab bl d) (drop k x)" using b by (simp add: d)
    fix s which res assume a: "scan_at t w x v bl s" "j < length v" "k < length x" "v ! j = x ! k"
    have "v ! j \<in> set v" using a(2) by simp
    then have "v ! j \<noteq> CHR ''/''" using v unfolding word_ok_def by blast
    then have "hit v (v ! j # drop (Suc j) v) (?c # ?e) = hit v (drop (Suc j) v) ?e" using a(4) hit_same by metis
    moreover have "v ! j # drop (Suc j) v = drop j v" using a(2) by (rule Cons_nth_drop_Suc)
    moreover have "Suc j \<le> length v" using a(2) by simp
    ultimately show "scans t w x (Suc k) (Suc j) CHECKWORD which res s (outcome v (hit v (drop j v) (?c # ?e)) res which ?es)"
      using scans_allD(4) [OF ih a(1), of "Suc j" which res] by simp
  qed
  have st: "scans t w x k j STARTWORD which res s (verdict v res which ((?c # ?e) # ?es))" if r: "scan_at t w x v bl s" for s j which res
  proof -
    have rd: "scan_ready t x w v s" "blank_blanks s = bl" using r by (simp_all add: scan_at_def)
    obtain s' where s': "reads s s'" "scan t w x k j STARTWORD which res s = scan t w x k 0 CHECKWORD which res s'"
      by (rule scan_round [OF rd(1) kl, of j STARTWORD which res]) (use c b rd(2) in \<open>simp add: Let_def\<close>)
    from scans_step [OF s' ck [OF scan_at_reads [OF r s'(1)] le0]] show ?thesis
      by (simp add: outcome_def hit_abbreviates)
  qed
  show "scans t w x k j STARTWORD which res s (verdict v res which (entry_words bl (drop k x)))"
    "scans t w x k j NEXTWORD which res s (verdict v res (which + 1) (entry_words bl (dropWhile (\<lambda>d. \<not> in_tab bl d) (drop k x))))"
    "scans t w x k j NEXTPART which res s (outcome v (later v (takeWhile (\<lambda>d. \<not> in_tab bl d) (drop k x))) res which (entry_words bl (dropWhile (\<lambda>d. \<not> in_tab bl d) (drop k x))))"
    if "scan_at t w x v bl s" for s j which res using st [OF that] nw [OF that] np [OF that] b by (simp_all add: d)
  show "scans t w x k j CHECKWORD which res s (outcome v (hit v (drop j v) (takeWhile (\<lambda>d. \<not> in_tab bl d) (drop k x))) res which
      (entry_words bl (dropWhile (\<lambda>d. \<not> in_tab bl d) (drop k x))))"
    if "scan_at t w x v bl s" "j \<le> length v" for s j which res using ck [OF that] b by (simp add: d)
qed

lemma scans_table:
  assumes v: "word_ok bl v" and n: "NUL \<notin> set bl" "CHR ''/'' \<notin> set bl" and "k \<le> length x"
  shows "scans_all t w x v bl k"
  using assms(4)
proof (induction "length x - k" arbitrary: k)
  case 0
  then have "k = length x" by simp
  then show ?case using scans_end [OF v n(1)] by simp
next
  case (Suc m)
  then have k: "k < length x" and ih: "scans_all t w x v bl (Suc k)" by simp_all
  show ?case
  proof (cases "in_tab bl (x ! k)")
    case True
    moreover have "x ! k \<noteq> CHR ''/''" using True n(2) by (auto simp: in_tab_def)
    ultimately show ?thesis by (rule scans_blank [OF v k _ _ ih])
  next
    case False
    then show ?thesis by (rule scans_char [OF v k _ ih])
  qed
qed

text \<open>\<open>tablematch\<close> returns the only entry that the word stands for.\<close>

lemma tablematch_ok:
  assumes inv: "chx_inv s" and bl: "blanks s \<noteq> None" and n: "NUL \<notin> set (blank_blanks s)" "CHR ''/'' \<notin> set (blank_blanks s)"
    and t: "sview s t = Some x" and w: "sview s w = Some v" and v: "\<forall>c \<in> set v. \<not> in_tab (blank_blanks s) c \<and> c \<noteq> CHR ''/''"
  obtains s' where "tablematch (Some t) (Some w) s =
    Some (if v = [] then -1 else match_result v (entry_words (blank_blanks s) x), s')" "reads s s'"
proof -
  obtain s1 where s1: "EMPTYCHX (Some t) s = Some (x = [], s1)" "reads s s1" by (rule EMPTYCHX_reads [OF inv t])
  note r1 = readsD [OF s1(2)]
  show thesis
  proof (cases "x = []")
    case True
    then have "tablematch (Some t) (Some w) s = Some (-1, s1)" using s1(1) by (simp add: tablematch_def)
    then show thesis using that s1(2) True by (simp add: match_result_def)
  next
    case False
    have "sview s1 w = Some v" using w r1(2) by simp
    then obtain s2 where s2: "EMPTYCHX (Some w) s1 = Some (v = [], s2)" "reads s1 s2" by (rule EMPTYCHX_reads [OF r1(1)])
    note r2 = readsD [OF s2(2)]
    have "sview s2 t = Some x" using t r1(2) r2(2) by simp
    then obtain s3 where s3: "chxlen (Some t) s2 = Some (int (length x), s3)" "reads s2 s3" by (rule chxlen_reads [OF r2(1)])
    note r03 = reads_trans [OF s1(2) reads_trans [OF s2(2) s3(2)]]
    show thesis
    proof (cases "v = []")
      case True
      then have "tablematch (Some t) (Some w) s = Some (-1, s2)" using s1(1) s2(1) False by (simp add: tablematch_def)
      then show thesis using that reads_trans [OF s1(2) s2(2)] True by simp
    next
      case ne: False
      have "scan_at t w x v (blank_blanks s) s" using assms by (simp add: scan_at_def scan_ready_def)
      then have a3: "scan_at t w x v (blank_blanks s) s3" using scan_at_reads [OF _ r03] by blast
      have ok: "word_ok (blank_blanks s) v" using ne v live_no_NUL [OF w] by (auto simp: word_ok_def)
      have "scans t w x 0 0 STARTWORD 0 (-1) s3 (verdict v (-1) 0 (entry_words (blank_blanks s) (drop 0 x)))"
        by (rule scans_allD(1) [OF scans_table [OF ok n le0] a3])
      then obtain s4 where s4: "reads s3 s4" "scan t w x 0 0 STARTWORD 0 (-1) s3 = Some (match_result v (entry_words (blank_blanks s) x), s4)"
        unfolding scans_def verdict_result by auto
      have "tablematch (Some t) (Some w) s = Some (match_result v (entry_words (blank_blanks s) x), s4)"
        using s1(1) s2(1) s3(1) s4(2) False ne by (simp add: tablematch_def)
      then show thesis using that reads_trans [OF r03 s4(1)] ne by simp
    qed
  qed
qed

end
