(* ===== verification/Select.thy ===== *)
theory Select
  imports Tokens
begin

text \<open>
  The passes of the selection language over the token array (\<open>CV2/gen\<close>: \<open>parse2to.c\<close>, \<open>deleteto.c\<close>, \<open>collapse.c\<close>,
  \<open>mergetok.c\<close>, and the part of \<open>newparse.c\<close> that calls them).
\<close>

section \<open>Tokens\<close>

datatype token_type = T_END | T_NUM | T_DASH | T_COLON | T_WORD | T_DATA | T_NAME

record 'a Token_t =
  t_str :: "'a option"
  t_type :: token_type
  num0 :: int
  num1 :: int
  hascolon :: int
  t_pos :: int

text \<open>In the program the string of a token is a chix; in the specifications below it is the text itself.\<close>

type_synonym Token = "nat Token_t"

text \<open>\<open>token[i].field = ...\<close>, with the bounds of the array.\<close>

definition tok_upd :: "(Token \<Rightarrow> Token) \<Rightarrow> int \<Rightarrow> Token list \<Rightarrow> Token list option" where
  "tok_upd f i token = do { t \<leftarrow> idx token i; upd_idx token i (f t) }"

definition MAXTOKEN :: nat where "MAXTOKEN = 200"

text \<open>The array \<open>new_parse\<close> starts with; \<open>num1\<close> is not initialised there, so its old contents are given.\<close>

definition clear_tokens :: "int list \<Rightarrow> Token list" where
  "clear_tokens old = map (\<lambda>n. \<lparr>t_str = nullchix, t_type = T_END, num0 = 0, num1 = n, hascolon = 0, t_pos = -1\<rparr>) old"

section \<open>\<open>parse2_tokens\<close>\<close>

datatype parse_state = ST_NEW | ST_NUM | ST_QUOTED | ST_WORD | ST_REST

partial_function (option) space_loop :: "Chix \<Rightarrow> int \<Rightarrow> int \<Rightarrow> chx_state \<Rightarrow> (bool \<times> chx_state) option" where
  "space_loop blankstr val b s = do {
     (blank, s) \<leftarrow> chxvalue blankstr b s;
     if blank = 0 then Some (False, s)
     else if val = blank then Some (True, s)
     else space_loop blankstr val (b + 1) s }"

text \<open>A new token of the given kind, without and with a string.\<close>

definition new_mark :: "token_type \<Rightarrow> int \<Rightarrow> int \<Rightarrow> Token list \<Rightarrow> Token list option" where
  "new_mark ty this pos token = tok_upd (\<lambda>t. t\<lparr>t_type := ty, t_pos := pos\<rparr>) this token"

definition new_text :: "token_type \<Rightarrow> int \<Rightarrow> int \<Rightarrow> int \<Rightarrow> int \<Rightarrow> Token list \<Rightarrow> chx_state \<Rightarrow> (Token list \<times> chx_state) option" where
  "new_text ty room valtype this pos token s =
     (let (a, s) = chxalloc room valtype ''parse2to token'' s in do {
        token \<leftarrow> tok_upd (\<lambda>t. t\<lparr>t_type := ty, t_str := Some a, t_pos := pos\<rparr>) this token;
        Some (token, s) })"

definition add_char :: "int \<Rightarrow> int \<Rightarrow> int \<Rightarrow> Token list \<Rightarrow> chx_state \<Rightarrow> chx_state option" where
  "add_char valtype val this token s = do {
     t \<leftarrow> idx token this;
     (_, s) \<leftarrow> chxcatval (t_str t) valtype val s;
     Some s }"

text \<open>
  One character. The result is the position the loop continues behind, the state, the index of the current
  token, the array, and whether the loop is left by \<open>break\<close>.
\<close>

definition st_new :: "int \<Rightarrow> int \<Rightarrow> int \<Rightarrow> bool \<Rightarrow> int \<Rightarrow> Token list \<Rightarrow> chx_state \<Rightarrow>
    ((int \<times> parse_state \<times> int \<times> Token list \<times> bool) \<times> chx_state) option" where
  "st_new valtype pos val space this token s =
     (if val = bval (CHR '','') \<or> space then Some ((pos, ST_NEW, this, token, False), s)
      else if val = bval (CHR ''-'') then do {
        token \<leftarrow> new_mark T_DASH (this + 1) pos token;
        Some ((pos, ST_NEW, this + 1, token, False), s) }
      else if val = bval (CHR '':'') then do {
        token \<leftarrow> new_mark T_COLON (this + 1) pos token;
        Some ((pos, ST_NEW, this + 1, token, False), s) }
      else if val \<ge> bval (CHR ''0'') \<and> val \<le> bval (CHR ''9'') then do {
        token \<leftarrow> tok_upd (\<lambda>t. t\<lparr>t_type := T_NUM, num0 := val - bval (CHR ''0''), t_pos := pos\<rparr>) (this + 1) token;
        Some ((pos, ST_NUM, this + 1, token, False), s) }
      else if val = bval (CHR 0x22) then do {
        (token, s) \<leftarrow> new_text T_DATA 40 valtype (this + 1) (pos + 1) token s;
        Some ((pos, ST_QUOTED, this + 1, token, False), s) }
      else do {
        (token, s) \<leftarrow> new_text T_WORD 40 valtype (this + 1) pos token s;
        s \<leftarrow> add_char valtype val (this + 1) token s;
        Some ((pos, ST_WORD, this + 1, token, False), s) })"

definition st_num :: "int \<Rightarrow> int \<Rightarrow> bool \<Rightarrow> int \<Rightarrow> Token list \<Rightarrow> (int \<times> parse_state \<times> int \<times> Token list \<times> bool) option" where
  "st_num pos val space this token =
     (if val = bval (CHR '','') \<or> space then Some (pos, ST_NEW, this, token, False)
      else if val \<ge> bval (CHR ''0'') \<and> val \<le> bval (CHR ''9'') then do {
        token \<leftarrow> tok_upd (\<lambda>t. t\<lparr>num0 := wrap32 (10 * num0 t + val - bval (CHR ''0''))\<rparr>) this token;
        Some (pos, ST_NUM, this, token, False) }
      else Some (pos - 1, ST_NEW, this, token, False))"

definition st_quoted :: "int \<Rightarrow> int \<Rightarrow> int \<Rightarrow> int \<Rightarrow> Token list \<Rightarrow> chx_state \<Rightarrow>
    ((int \<times> parse_state \<times> int \<times> Token list \<times> bool) \<times> chx_state) option" where
  "st_quoted valtype pos val this token s =
     (if val = bval (CHR 0x22) then Some ((pos, ST_NEW, this, token, False), s)
      else do {
        s \<leftarrow> add_char valtype val this token s;
        Some ((pos, ST_QUOTED, this, token, False), s) })"

definition st_word :: "int \<Rightarrow> int \<Rightarrow> int \<Rightarrow> bool \<Rightarrow> int \<Rightarrow> Token list \<Rightarrow> chx_state \<Rightarrow>
    ((int \<times> parse_state \<times> int \<times> Token list \<times> bool) \<times> chx_state) option" where
  "st_word valtype pos val space this token s =
     (if val = bval (CHR '','') \<or> space \<or> val = bval (CHR '':'') \<or> val = bval (CHR ''-'')
      then Some ((pos - 1, ST_REST, this, token, False), s)
      else if val = bval (CHR 0x22) then Some ((pos - 1, ST_NEW, this, token, False), s)
      else do {
        s \<leftarrow> add_char valtype val this token s;
        Some ((pos, ST_WORD, this, token, False), s) })"

definition st_rest :: "Chix \<Rightarrow> Chix \<Rightarrow> int \<Rightarrow> int \<Rightarrow> int \<Rightarrow> bool \<Rightarrow> int \<Rightarrow> Token list \<Rightarrow> chx_state \<Rightarrow>
    ((int \<times> parse_state \<times> int \<times> Token list \<times> bool) \<times> chx_state) option" where
  "st_rest line rangewords valtype pos val space this token s =
     (if val = bval (CHR '','') \<or> space then Some ((pos, ST_REST, this, token, False), s)
      else if val = bval (CHR 0x22) then Some ((pos - 1, ST_NEW, this, token, False), s)
      else do {
        t \<leftarrow> idx token this;
        (which, s) \<leftarrow> tablematch rangewords (t_str t) s;
        if which < 0 then Some ((pos - 1, ST_NEW, this, token, False), s)
        else do {
          (token, s) \<leftarrow> new_text T_DATA 80 valtype (this + 1) pos token s;
          t \<leftarrow> idx token (this + 1);
          (_, s) \<leftarrow> chxcatsub (t_str t) line pos ALLCHARS s;
          Some ((pos, ST_REST, this + 1, token, True), s) } })"

definition parse_char :: "Chix \<Rightarrow> Chix \<Rightarrow> int \<Rightarrow> int \<Rightarrow> int \<Rightarrow> bool \<Rightarrow> parse_state \<Rightarrow> int \<Rightarrow> Token list \<Rightarrow> chx_state \<Rightarrow>
    ((int \<times> parse_state \<times> int \<times> Token list \<times> bool) \<times> chx_state) option" where
  "parse_char line rangewords valtype pos val space state this token s = (case state of
     ST_NEW \<Rightarrow> st_new valtype pos val space this token s
   | ST_NUM \<Rightarrow> do { r \<leftarrow> st_num pos val space this token; Some (r, s) }
   | ST_QUOTED \<Rightarrow> st_quoted valtype pos val this token s
   | ST_WORD \<Rightarrow> st_word valtype pos val space this token s
   | ST_REST \<Rightarrow> st_rest line rangewords valtype pos val space this token s)"

partial_function (option) parse_loop :: "Chix \<Rightarrow> Chix \<Rightarrow> Chix \<Rightarrow> int \<Rightarrow> int \<Rightarrow> parse_state \<Rightarrow> int \<Rightarrow> Token list \<Rightarrow> chx_state \<Rightarrow>
    (int \<times> Token list \<times> chx_state) option" where
  "parse_loop line rangewords blankstr valtype pos state this token s = do {
     (val, s) \<leftarrow> chxvalue line pos s;
     if val = 0 then Some (this, token, s)
     else do {
       (space, s) \<leftarrow> space_loop blankstr val 0 s;
       ((pos, state, this, token, done), s) \<leftarrow> parse_char line rangewords valtype pos val space state this token s;
       if done then Some (this, token, s)
       else parse_loop line rangewords blankstr valtype (pos + 1) state this token s } }"

function copy_num1 :: "int \<Rightarrow> Token list \<Rightarrow> Token list option" where
  "copy_num1 this token = (case idx token this of
     None \<Rightarrow> None
   | Some t \<Rightarrow> if t_type t = T_END then Some token
       else copy_num1 (this + 1) (token[nat this := t\<lparr>num1 := num0 t\<rparr>]))"
  by pat_completeness auto
termination
  by (relation "measure (\<lambda>(this, token). nat (int (length token) - this))") (auto simp: idx_def split: if_splits)

declare copy_num1.simps [simp del]

definition parse2_tokens :: "Chix \<Rightarrow> Token list \<Rightarrow> Chix \<Rightarrow> chx_state \<Rightarrow> (int \<times> Token list \<times> chx_state) option" where
  "parse2_tokens line token rangewords s =
     (let (blankstr, s) = chxalloc 20 THIN ''parse2to blankstr'' s in do {
        (_, s) \<leftarrow> chxspecial SC_GET SC_BLANK (Some blankstr) s;
        (valtype, s) \<leftarrow> chxtype line s;
        (this, token, s) \<leftarrow> parse_loop line rangewords (Some blankstr) valtype 0 ST_NEW (-1) token s;
        token \<leftarrow> tok_upd (\<lambda>t. t\<lparr>t_type := T_END\<rparr>) (this + 1) token;
        token \<leftarrow> (if this + 1 \<ge> 1 then do { t \<leftarrow> idx token this; tok_upd (\<lambda>e. e\<lparr>t_pos := t_pos t + 1\<rparr>) (this + 1) token }
                  else Some token);
        token \<leftarrow> copy_num1 0 token;
        (_, s) \<leftarrow> chxfree (Some blankstr) s;
        Some (1, token, s) })"

section \<open>\<open>delete_token\<close>, \<open>collapse_range\<close>, \<open>merge_tokens\<close>\<close>

function shift_loop :: "int \<Rightarrow> Token list \<Rightarrow> Token list option" where
  "shift_loop this token = (case idx token this of
     None \<Rightarrow> None
   | Some t \<Rightarrow> if t_type t = T_END then Some token
       else (case idx token (this + 1) of None \<Rightarrow> None
             | Some u \<Rightarrow> shift_loop (this + 1) (token[nat this := u])))"
  by pat_completeness auto
termination
  by (relation "measure (\<lambda>(this, token). nat (int (length token) - this))") (auto simp: idx_def split: if_splits)

declare shift_loop.simps [simp del]

definition delete_token :: "Token list \<Rightarrow> int \<Rightarrow> chx_state \<Rightarrow> (int \<times> Token list \<times> chx_state) option" where
  "delete_token token this s = do {
     t \<leftarrow> idx token this;
     (_, s) \<leftarrow> (if t_str t \<noteq> nullchix then chxfree (t_str t) s else Some (1, s));
     token \<leftarrow> shift_loop this token;
     Some (1, token, s) }"

text \<open>The words for this, all and last. Other entries of the table keep the numbers of the token.\<close>

definition special_nums :: "int \<Rightarrow> 'a Token_t \<Rightarrow> 'a Token_t" where
  "special_nums which t =
     (if which = 0 then t\<lparr>num0 := -999, num1 := -999\<rparr>
      else if which = 1 then t\<lparr>num0 := 0, num1 := -1\<rparr>
      else if which = 2 then t\<lparr>num0 := -1, num1 := -1\<rparr>
      else t)"

partial_function (option) subst_loop :: "Chix \<Rightarrow> int \<Rightarrow> Token list \<Rightarrow> chx_state \<Rightarrow> (Token list \<times> chx_state) option" where
  "subst_loop psuedonum this token s = do {
     t \<leftarrow> idx token this;
     if t_type t = T_END then Some (token, s)
     else if t_type t \<noteq> T_WORD then subst_loop psuedonum (this + 1) token s
     else do {
       (which, s) \<leftarrow> tablematch psuedonum (t_str t) s;
       if which < 0 then subst_loop psuedonum (this + 1) token s
       else do {
         (_, s) \<leftarrow> chxfree (t_str t) s;
         token \<leftarrow> tok_upd (\<lambda>t. (special_nums which t)\<lparr>t_type := T_NUM, t_str := nullchix\<rparr>) this token;
         subst_loop psuedonum (this + 1) token s } } }"

text \<open>The condition of the two other loops; the second and third token are looked at only when needed.\<close>

definition dash_num :: "(token_type \<Rightarrow> bool) \<Rightarrow> int \<Rightarrow> Token list \<Rightarrow> bool option" where
  "dash_num fst_ok this token = do {
     t \<leftarrow> idx token this;
     if \<not> fst_ok (t_type t) then Some False
     else do {
       u \<leftarrow> idx token (this + 1);
       if t_type u \<noteq> T_DASH then Some False
       else do { v \<leftarrow> idx token (this + 2); Some (t_type v = T_NUM) } } }"

partial_function (option) minus_loop :: "int \<Rightarrow> Token list \<Rightarrow> chx_state \<Rightarrow> (Token list \<times> chx_state) option" where
  "minus_loop this token s = do {
     t \<leftarrow> idx token this;
     if t_type t = T_END then Some (token, s)
     else do {
       found \<leftarrow> dash_num (\<lambda>ty. ty \<noteq> T_NUM) this token;
       if \<not> found then minus_loop (this + 1) token s
       else do {
         u \<leftarrow> idx token (this + 1);
         token \<leftarrow> tok_upd (\<lambda>v. v\<lparr>t_pos := t_pos u, num0 := wrap32 (- num0 v), num1 := wrap32 (- num0 v)\<rparr>) (this + 2) token;
         (_, token, s) \<leftarrow> delete_token token (this + 1) s;
         minus_loop (this + 1) token s } } }"

text \<open>Results of the passes: return code, \<open>*errpos\<close>, the array and the store.\<close>

partial_function (option) range_loop :: "bool \<Rightarrow> int \<Rightarrow> Token list \<Rightarrow> chx_state \<Rightarrow> (int \<times> int \<times> Token list \<times> chx_state) option" where
  "range_loop errchk this token s = do {
     t \<leftarrow> idx token this;
     if t_type t = T_END then Some (1, -1, token, s)
     else do {
       found \<leftarrow> dash_num (\<lambda>ty. ty = T_NUM) this token;
       if \<not> found then range_loop errchk (this + 1) token s
       else do {
         u \<leftarrow> idx token (this + 1);
         v \<leftarrow> idx token (this + 2);
         if errchk \<and> num0 t \<noteq> num1 t then Some (0, t_pos u, token, s)
         else do {
           token \<leftarrow> tok_upd (\<lambda>t. t\<lparr>num1 := num1 v\<rparr>) this token;
           (_, token, s) \<leftarrow> delete_token token (this + 1) s;
           (_, token, s) \<leftarrow> delete_token token (this + 1) s;
           range_loop errchk this token s } } } }"

definition collapse_range :: "Token list \<Rightarrow> Chix \<Rightarrow> bool \<Rightarrow> chx_state \<Rightarrow> (int \<times> int \<times> Token list \<times> chx_state) option" where
  "collapse_range token psuedonum errchk s = do {
     (token, s) \<leftarrow> subst_loop psuedonum 0 token s;
     (token, s) \<leftarrow> minus_loop 0 token s;
     range_loop errchk 0 token s }"

partial_function (option) merge_loop :: "bool \<Rightarrow> int \<Rightarrow> Token list \<Rightarrow> chx_state \<Rightarrow> (int \<times> int \<times> Token list \<times> chx_state) option" where
  "merge_loop errchk this token s = do {
     t \<leftarrow> idx token this;
     if t_type t = T_END then Some (1, -1, token, s)
     else if t_type t = T_COLON then do {
       p \<leftarrow> idx token (this - 1);
       if errchk \<and> hascolon p \<noteq> 0 then Some (0, t_pos t, token, s)
       else do {
         token \<leftarrow> tok_upd (\<lambda>p. p\<lparr>hascolon := 1\<rparr>) (this - 1) token;
         (_, token, s) \<leftarrow> delete_token token this s;
         merge_loop errchk this token s } }
     else if t_type t = T_DATA then do {
       p \<leftarrow> idx token (this - 1);
       if t_type p \<noteq> T_WORD \<and> errchk then Some (0, t_pos p, token, s)
       else do {
         (token, s) \<leftarrow>
           (if t_type p = T_WORD then do {
              (_, s) \<leftarrow> chxcatval (t_str p) THIN (bval (CHR '' '')) s;
              (_, s) \<leftarrow> chxcat (t_str p) (t_str t) s;
              token \<leftarrow> tok_upd (\<lambda>p. p\<lparr>t_type := T_NAME\<rparr>) (this - 1) token;
              Some (token, s) }
            else Some (token, s));
         (_, token, s) \<leftarrow> delete_token token this s;
         merge_loop errchk this token s } }
     else merge_loop errchk (this + 1) token s }"

definition merge_tokens :: "Token list \<Rightarrow> bool \<Rightarrow> chx_state \<Rightarrow> (int \<times> int \<times> Token list \<times> chx_state) option" where
  "merge_tokens token errchk s = do {
     t \<leftarrow> idx token 0;
     if t_type t = T_END then Some (1, -1, token, s)
     else if t_type t = T_COLON \<and> errchk then Some (0, t_pos t, token, s)
     else do {
       token \<leftarrow> (if t_type t = T_COLON
                  then tok_upd (\<lambda>t. t\<lparr>t_type := T_NUM, num0 := 1, num1 := -1, hascolon := 1\<rparr>) 0 token
                  else Some token);
       merge_loop errchk 1 token s } }"

text \<open>Passes 1 to 3 of \<open>new_parse\<close>: the tokens, with the return code 0 for a syntax error at \<open>*errpos\<close>.\<close>

definition np_tokens :: "Chix \<Rightarrow> Chix \<Rightarrow> Chix \<Rightarrow> bool \<Rightarrow> int list \<Rightarrow> chx_state \<Rightarrow> (int \<times> int \<times> Token list \<times> chx_state) option" where
  "np_tokens line data_fields repl_fields errchk old s = do {
     (_, token, s) \<leftarrow> parse2_tokens line (clear_tokens old) data_fields s;
     (ok, errpos, token, s) \<leftarrow> collapse_range token repl_fields errchk s;
     if ok = 0 then Some (0, errpos, token, s)
     else merge_tokens token errchk s }"

section \<open>Who owns which string\<close>

text \<open>
  Relative to the store \<open>s0\<close> at the start, a routine owns the strings \<open>own\<close> lists: they are new, distinct and in use;
  every other string is as it was.
\<close>

definition own :: "chx_state \<Rightarrow> chx_state \<Rightarrow> nat list \<Rightarrow> bool" where
  "own s0 s l \<longleftrightarrow> chx_inv s0 \<and> kept s0 s \<and> distinct l \<and> (\<forall>a \<in> set l. sview s0 a = None \<and> sview s a \<noteq> None) \<and>
     (\<forall>c. c \<notin> set l \<longrightarrow> sview s c = sview s0 c)"

lemma own_start: "chx_inv s \<Longrightarrow> own s s []"
  by (simp add: own_def kept_def)

lemma own_inv: "own s0 s l \<Longrightarrow> chx_inv s"
  by (simp add: own_def kept_def)

lemma own_cong: "own s0 s l \<Longrightarrow> distinct l' \<Longrightarrow> set l' = set l \<Longrightarrow> own s0 s l'"
  by (simp add: own_def)

lemma own_reads: "own s0 s l \<Longrightarrow> reads s s' \<Longrightarrow> own s0 s' l"
  by (auto simp: own_def reads_def intro: kept_trans)

lemma own_not_blanks: "own s0 s l \<Longrightarrow> a \<in> set l \<Longrightarrow> blanks s \<noteq> Some a"
  using live_blanks [of s0 a] by (auto simp: own_def kept_def)

lemma own_other: "own s0 s l \<Longrightarrow> sview s0 c \<noteq> None \<Longrightarrow> sview s c = sview s0 c \<and> c \<notin> set l"
  unfolding own_def by metis

lemma own_alloc:
  assumes o: "own s0 s l"
  obtains a s' where "chxalloc m ty nm s = (a, s')" "own s0 s' (a # l)" "sview s' = (sview s)(a \<mapsto> [])" "a \<notin> set l"
proof -
  note inv = own_inv [OF o]
  let ?a = "next_adr s"
  obtain s' where s': "chxalloc m ty nm s = (?a, s')" "chx_to s ((sview s)(?a \<mapsto> [])) s'" by (rule chxalloc_ok [OF inv])
  note t = chx_toD [OF s'(2)]
  have f: "sview s ?a = None" by (rule fresh_not_live [OF inv])
  then have n: "?a \<notin> set l" "sview s0 ?a = None" using o unfolding own_def by metis+
  have "kept s s'" using live_blanks [OF inv] f by (intro kept_chx_to [OF s'(2)]) auto
  then have "own s0 s' (?a # l)" using o n t(2) kept_trans [of s0 s s'] unfolding own_def by auto
  then show thesis using that s'(1) t(2) n(1) by blast
qed

lemma own_write:
  assumes o: "own s0 s l" and a: "a \<in> set l" and t: "chx_to s ((sview s)(a \<mapsto> x)) s'"
  shows "own s0 s' l"
proof -
  have "kept s s'" using own_not_blanks [OF o a] by (intro kept_chx_to [OF t]) auto
  then show ?thesis using o a chx_toD(2) [OF t] kept_trans [of s0 s s'] unfolding own_def by auto
qed

lemma own_free:
  assumes o: "own s0 s l" and a: "a \<in> set l"
  obtains s' where "chxfree (Some a) s = Some (1, s')" "own s0 s' (remove1 a l)" "sview s' = (sview s)(a := None)"
proof -
  note inv = own_inv [OF o] and nb = own_not_blanks [OF o a]
  obtain x where x: "sview s a = Some x" using o a unfolding own_def by blast
  obtain s' where s': "chxfree (Some a) s = Some (1, s')" "chx_to s ((sview s)(a := None)) s'" by (rule chxfree_ok [OF inv x nb])
  note t = chx_toD [OF s'(2)]
  have "kept s s'" using nb by (intro kept_chx_to [OF s'(2)]) auto
  then have "own s0 s' (remove1 a l)" using o a t(2) kept_trans [of s0 s s'] unfolding own_def by auto
  then show thesis using that s'(1) t(2) by blast
qed

section \<open>The array of tokens\<close>

definition owned :: "Token list \<Rightarrow> nat list" where
  "owned ts = List.map_filter t_str ts"

lemma owned_simps [simp]: "owned [] = []" "owned (ts @ us) = owned ts @ owned us"
    "owned (t # ts) = (case t_str t of None \<Rightarrow> owned ts | Some a \<Rightarrow> a # owned ts)"
  by (simp_all add: owned_def map_filter_def split: option.splits)

lemma set_owned: "set (owned ts) = {a. \<exists>t \<in> set ts. t_str t = Some a}"
  by (induction ts) (auto split: option.splits)

definition tview :: "(nat \<Rightarrow> string option) \<Rightarrow> Token \<Rightarrow> string Token_t" where
  "tview m t = \<lparr>t_str = (case t_str t of None \<Rightarrow> None | Some a \<Rightarrow> m a), t_type = t_type t, num0 = num0 t, num1 = num1 t,
     hascolon = hascolon t, t_pos = t_pos t\<rparr>"

lemma tview_simps [simp]:
  "t_type (tview m t) = t_type t" "num0 (tview m t) = num0 t" "num1 (tview m t) = num1 t"
  "hascolon (tview m t) = hascolon t" "t_pos (tview m t) = t_pos t"
  by (simp_all add: tview_def)

lemma tview_type: "tview m (t\<lparr>t_type := ty\<rparr>) = (tview m t)\<lparr>t_type := ty\<rparr>"
  by (simp add: tview_def)

lemma tview_keep: "\<forall>a. t_str t = Some a \<longrightarrow> m' a = m a \<Longrightarrow> tview m' t = tview m t"
  by (auto simp: tview_def split: option.splits)

lemma map_tview_keep: "\<forall>a \<in> set (owned ts). m' a = m a \<Longrightarrow> map (tview m') ts = map (tview m) ts"
  by (auto simp: set_owned intro!: tview_keep)

text \<open>
  The array holds the tokens \<open>as\<close>, closed by \<open>T_END\<close>, and owns their strings; the routine owns the strings \<open>xs\<close> besides.
\<close>

definition held :: "nat list \<Rightarrow> chx_state \<Rightarrow> chx_state \<Rightarrow> Token list \<Rightarrow> string Token_t list \<Rightarrow> bool" where
  "held xs s0 s ts as \<longleftrightarrow> (\<exists>us e rest. ts = us @ e # rest \<and> t_type e = T_END \<and> as = map (tview (sview s)) us \<and>
     own s0 s (xs @ owned us) \<and> (\<forall>a \<in> set as. t_type a \<noteq> T_END))"

abbreviation tinv :: "chx_state \<Rightarrow> chx_state \<Rightarrow> Token list \<Rightarrow> string Token_t list \<Rightarrow> bool" where
  "tinv \<equiv> held []"

lemma tinv_reads: "held xs s0 s ts as \<Longrightarrow> reads s s' \<Longrightarrow> held xs s0 s' ts as"
  unfolding held_def using own_reads readsD(2) by metis

lemma tinv_at:
  assumes "held xs s0 s ts (as @ a # bs)"
  obtains us t vs e rest where "ts = us @ t # vs @ e # rest" "t_type e = T_END" "as = map (tview (sview s)) us" "a = tview (sview s) t"
    "bs = map (tview (sview s)) vs" "own s0 s (xs @ owned (us @ t # vs))" "length us = length as"
    "\<forall>x \<in> set (as @ a # bs). t_type x \<noteq> T_END"
proof -
  obtain ws e rest where w: "ts = ws @ e # rest" "t_type e = T_END" "as @ a # bs = map (tview (sview s)) ws" "own s0 s (xs @ owned ws)"
      "\<forall>x \<in> set (as @ a # bs). t_type x \<noteq> T_END"
    using assms unfolding held_def by blast
  from w(3) [symmetric] obtain us t vs where "ws = us @ t # vs" "as = map (tview (sview s)) us" "a = tview (sview s) t" "bs = map (tview (sview s)) vs"
    by (auto simp: map_eq_append_conv map_eq_Cons_conv)
  then show thesis using that [of us t vs e rest] w by simp
qed

lemma shift_loop_end: "t_type e = T_END \<Longrightarrow> shift_loop (int (length us)) (us @ e # rest) = Some (us @ e # rest)"
  by (subst shift_loop.simps) simp

lemma shift_loop_next:
  assumes "t_type t \<noteq> T_END"
  shows "shift_loop (int (length us)) (us @ t # v # rest) = shift_loop (int (length (us @ [v]))) ((us @ [v]) @ v # rest)"
proof -
  have "nat (int (length us) + 1) = Suc (length us)" by simp
  then show ?thesis using assms by (subst shift_loop.simps) (simp add: idx_def nth_append add.commute)
qed

lemma shift_loop_ok:
  assumes "t_type e = T_END" and "\<forall>t \<in> set vs. t_type t \<noteq> T_END"
  shows "t_type t \<noteq> T_END \<Longrightarrow> shift_loop (int (length us)) (us @ t # vs @ e # rest) = Some (us @ vs @ e # e # rest)"
  using assms(2)
proof (induction vs arbitrary: us t)
  case Nil
  then show ?case using shift_loop_next [OF Nil.prems(1), of us e rest] shift_loop_end [OF assms(1), of "us @ [e]" rest] by simp
next
  case (Cons v vs)
  have "shift_loop (int (length us)) (us @ t # (v # vs) @ e # rest) = shift_loop (int (length (us @ [v]))) ((us @ [v]) @ v # vs @ e # rest)"
    using shift_loop_next [OF Cons.prems(1)] by simp
  also have "\<dots> = Some ((us @ [v]) @ vs @ e # e # rest)" by (rule Cons.IH) (use Cons.prems in auto)
  finally show ?case by simp
qed

lemma idx_mid [simp]: "idx (us @ t # vs) (int (length us)) = Some t"
  by simp

lemma tok_upd_mid: "tok_upd f (int (length us)) (us @ t # vs) = Some (us @ f t # vs)"
  by (simp add: tok_upd_def)

lemma delete_token_ok:
  assumes "held xs s0 s ts (as @ a # bs)"
  obtains ts' s' where "delete_token ts (int (length as)) s = Some (1, ts', s')" "held xs s0 s' ts' (as @ bs)"
    "\<forall>c \<in> set xs. sview s' c = sview s c"
proof -
  obtain us t vs e rest where t: "ts = us @ t # vs @ e # rest" "t_type e = T_END" "as = map (tview (sview s)) us" "a = tview (sview s) t"
    "bs = map (tview (sview s)) vs" "own s0 s (xs @ owned (us @ t # vs))" "length us = length as"
    "\<forall>x \<in> set (as @ a # bs). t_type x \<noteq> T_END" by (rule tinv_at [OF assms])
  have sh: "shift_loop (int (length us)) ts = Some (us @ vs @ e # e # rest)" unfolding t(1)
    by (rule shift_loop_ok [OF t(2)]) (use t(3-5,8) in \<open>simp_all add: ball_Un\<close>)
  have i: "idx ts (int (length us)) = Some t" unfolding t(1) by (rule idx_mid)
  show thesis
  proof (cases "t_str t")
    case None
    then have "delete_token ts (int (length as)) s = Some (1, us @ vs @ e # e # rest, s)"
      using i sh t(7) by (simp add: delete_token_def)
    moreover have "held xs s0 s (us @ vs @ e # e # rest) (as @ bs)" unfolding held_def
      by (intro exI [of _ "us @ vs"] exI [of _ e] exI [of _ "e # rest"]) (use t None in auto)
    ultimately show thesis using that by blast
  next
    case (Some c)
    then have c: "c \<in> set (xs @ owned (us @ t # vs))" "distinct (xs @ owned (us @ t # vs))" using t(6) by (simp_all add: own_def)
    obtain s' where s': "chxfree (Some c) s = Some (1, s')" "own s0 s' (remove1 c (xs @ owned (us @ t # vs)))" "sview s' = (sview s)(c := None)"
      by (rule own_free [OF t(6) c(1)])
    have r: "remove1 c (xs @ owned (us @ t # vs)) = xs @ owned (us @ vs)" "c \<notin> set (owned us)" "c \<notin> set (owned vs)" "c \<notin> set xs"
      using c(2) Some by (auto simp: remove1_append)
    have "delete_token ts (int (length as)) s = Some (1, us @ vs @ e # e # rest, s')"
      using i sh t(7) Some s'(1) by (simp add: delete_token_def)
    moreover have "map (tview (sview s')) us = as" "map (tview (sview s')) vs = bs"
      using t(3,5) r(2,3) s'(3) map_tview_keep [of us "sview s'" "sview s"] map_tview_keep [of vs "sview s'" "sview s"] by auto
    then have "held xs s0 s' (us @ vs @ e # e # rest) (as @ bs)" unfolding held_def
      by (intro exI [of _ "us @ vs"] exI [of _ e] exI [of _ "e # rest"]) (use t(2,8) s'(2) r(1) in auto)
    moreover have "\<forall>d \<in> set xs. sview s' d = sview s d" using r(4) s'(3) by auto
    ultimately show thesis using that by blast
  qed
qed

lemma tinv_idx:
  assumes "held xs s0 s ts (as @ a # bs)"
  obtains t where "idx ts (int (length as)) = Some t" "a = tview (sview s) t" "t_type a \<noteq> T_END"
proof -
  obtain us t vs e rest where t: "ts = us @ t # vs @ e # rest" "t_type e = T_END" "as = map (tview (sview s)) us" "a = tview (sview s) t"
    "bs = map (tview (sview s)) vs" "own s0 s (xs @ owned (us @ t # vs))" "length us = length as"
    "\<forall>x \<in> set (as @ a # bs). t_type x \<noteq> T_END" by (rule tinv_at [OF assms])
  have "idx ts (int (length as)) = Some t" unfolding t(1) t(7) [symmetric] by (rule idx_mid)
  then show thesis using that t(4,8) by simp
qed

lemma tinv_end:
  assumes "held xs s0 s ts as"
  obtains e where "idx ts (int (length as)) = Some e" "t_type e = T_END"
proof -
  obtain us e rest where u: "ts = us @ e # rest" "t_type e = T_END" "as = map (tview (sview s)) us" using assms unfolding held_def by blast
  then have "length as = length us" by simp
  then show thesis using that u(1,2) idx_mid by metis
qed

text \<open>Changing the numbers and marks of a token, but not its string.\<close>

lemma tinv_upd:
  assumes "held xs s0 s ts (as @ a # bs)" and "\<And>t. t_str (f t) = t_str t" and "\<And>t. tview (sview s) t = a \<Longrightarrow> tview (sview s) (f t) = b"
    and "t_type b \<noteq> T_END"
  obtains ts' where "tok_upd f (int (length as)) ts = Some ts'" "held xs s0 s ts' (as @ b # bs)"
proof -
  obtain us t vs e rest where t: "ts = us @ t # vs @ e # rest" "t_type e = T_END" "as = map (tview (sview s)) us" "a = tview (sview s) t"
    "bs = map (tview (sview s)) vs" "own s0 s (xs @ owned (us @ t # vs))" "length us = length as"
    "\<forall>x \<in> set (as @ a # bs). t_type x \<noteq> T_END" by (rule tinv_at [OF assms(1)])
  have "tok_upd f (int (length as)) ts = Some (us @ f t # vs @ e # rest)" unfolding t(1) t(7) [symmetric] by (rule tok_upd_mid)
  moreover have "held xs s0 s (us @ f t # vs @ e # rest) (as @ b # bs)" unfolding held_def
    by (intro exI [of _ "us @ f t # vs"] exI [of _ e] exI [of _ rest]) (use t assms(2-4) in auto)
  ultimately show thesis using that by blast
qed

section \<open>The passes as functions on lists\<close>

definition dash_at :: "(token_type \<Rightarrow> bool) \<Rightarrow> 'a Token_t \<Rightarrow> 'a Token_t list \<Rightarrow> bool" where
  "dash_at P a r = (case r of d # v # _ \<Rightarrow> P (t_type a) \<and> t_type d = T_DASH \<and> t_type v = T_NUM | _ \<Rightarrow> False)"

lemma dash_atE:
  assumes "dash_at P a r"
  obtains d v q where "r = d # v # q" "P (t_type a)" "t_type d = T_DASH" "t_type v = T_NUM"
  using assms by (auto simp: dash_at_def split: list.splits)

definition negated :: "'a Token_t \<Rightarrow> 'a Token_t \<Rightarrow> 'a Token_t" where
  "negated d v = v\<lparr>t_pos := t_pos d, num0 := wrap32 (- num0 v), num1 := wrap32 (- num0 v)\<rparr>"

function minus_list :: "'a Token_t list \<Rightarrow> 'a Token_t list" where
  "minus_list [] = []"
| "minus_list (a # r) =
     (if dash_at (\<lambda>ty. ty \<noteq> T_NUM) a r then a # minus_list (negated (r ! 0) (r ! 1) # drop 2 r) else a # minus_list r)"
  by pat_completeness auto
termination
  by (relation "measure length") (auto elim: dash_atE)

function range_list :: "bool \<Rightarrow> 'a Token_t list \<Rightarrow> int + 'a Token_t list" where
  "range_list errchk [] = Inr []"
| "range_list errchk (a # r) =
     (if dash_at (\<lambda>ty. ty = T_NUM) a r
      then if errchk \<and> num0 a \<noteq> num1 a then Inl (t_pos (r ! 0)) else range_list errchk (a\<lparr>num1 := num1 (r ! 1)\<rparr> # drop 2 r)
      else map_sum id ((#) a) (range_list errchk r))"
  by pat_completeness auto
termination
  by (relation "measure (length \<circ> snd)") (auto elim: dash_atE)

declare minus_list.simps(2) [simp del] range_list.simps(2) [simp del]

lemma dash_num_ok:
  assumes "tinv s0 s ts (as @ a # bs)"
  shows "dash_num P (int (length as)) ts = Some (dash_at P a bs)"
proof -
  obtain us t vs e rest where t: "ts = us @ t # vs @ e # rest" "t_type e = T_END" "as = map (tview (sview s)) us" "a = tview (sview s) t"
    "bs = map (tview (sview s)) vs" "own s0 s (owned (us @ t # vs))" "length us = length as"
    "\<forall>x \<in> set (as @ a # bs). t_type x \<noteq> T_END" by (rule tinv_at [OF assms, unfolded append_Nil])
  have n: "int (length us) + 1 = int (Suc (length us))" "int (length us) + 2 = int (Suc (Suc (length us)))" by simp_all
  consider "vs = []" | d where "vs = [d]" | d v r where "vs = d # v # r" by (metis list.exhaust)
  then show ?thesis
    by cases (use t in \<open>auto simp: dash_num_def dash_at_def t(7) [symmetric] n nth_append simp del: of_nat_Suc\<close>)
qed

lemma minus_loop_ok:
  assumes "tinv s0 s ts (as @ bs)"
  shows "\<exists>ts' s'. minus_loop (int (length as)) ts s = Some (ts', s') \<and> tinv s0 s' ts' (as @ minus_list bs)"
  using assms
proof (induction bs arbitrary: as ts s rule: minus_list.induct)
  case 1
  then obtain e where "idx ts (int (length as)) = Some e" "t_type e = T_END" using tinv_end by (metis append_Nil2)
  then show ?case using 1 by (subst minus_loop.simps) simp
next
  case (2 a r)
  obtain t where t: "idx ts (int (length as)) = Some t" "a = tview (sview s) t" "t_type a \<noteq> T_END" by (rule tinv_idx [OF "2.prems"])
  note dn = dash_num_ok [OF "2.prems", of "\<lambda>ty. ty \<noteq> T_NUM"]
  have n: "int (length as) + 1 = int (length (as @ [a]))" by simp
  show ?case
  proof (cases "dash_at (\<lambda>ty. ty \<noteq> T_NUM) a r")
    case True
    then obtain d v q where dv: "r = d # v # q" "t_type d = T_DASH" "t_type v = T_NUM" by (rule dash_atE)
    have p1: "tinv s0 s ts ((as @ [a]) @ d # v # q)" using "2.prems" dv by simp
    obtain u where u: "idx ts (int (length as) + 1) = Some u" "d = tview (sview s) u" unfolding n by (rule tinv_idx [OF p1])
    let ?f = "\<lambda>v. v\<lparr>t_pos := t_pos u, num0 := wrap32 (- num0 v), num1 := wrap32 (- num0 v)\<rparr>"
    have p2: "tinv s0 s ts ((as @ [a, d]) @ v # q)" using p1 by simp
    obtain ts1 where ts1: "tok_upd ?f (int (length (as @ [a, d]))) ts = Some ts1" "tinv s0 s ts1 ((as @ [a, d]) @ negated d v # q)"
      by (rule tinv_upd [OF p2, of ?f "negated d v"]) (use dv u(2) in \<open>auto simp: tview_def negated_def\<close>)
    have "tinv s0 s ts1 ((as @ [a]) @ d # negated d v # q)" using ts1(2) by simp
    then obtain ts2 s2 where ts2: "delete_token ts1 (int (length (as @ [a]))) s = Some (1, ts2, s2)" "tinv s0 s2 ts2 ((as @ [a]) @ negated d v # q)"
      by (rule delete_token_ok)
    have eq: "negated (r ! 0) (r ! 1) # drop 2 r = negated d v # q" using dv(1) by simp
    obtain ts' s' where r: "minus_loop (int (length (as @ [a]))) ts2 s2 = Some (ts', s')" "tinv s0 s' ts' ((as @ [a]) @ minus_list (negated d v # q))"
      using "2.IH"(1) [OF True, unfolded eq, OF ts2(2)] by blast
    have n2: "int (length as) + 2 = int (length (as @ [a, d]))" by simp
    have "minus_loop (int (length as)) ts s = Some (ts', s')"
      using t(1-3) dn True u(1) ts1(1) ts2(1) r(1) by (subst minus_loop.simps) (simp add: n2 n del: length_append of_nat_add)
    moreover have "minus_list (a # r) = a # minus_list (negated d v # q)" using True eq by (subst minus_list.simps(2)) simp
    ultimately show ?thesis using r(2) by (intro exI [of _ ts'] exI [of _ s']) simp
  next
    case False
    have p1: "tinv s0 s ts ((as @ [a]) @ r)" using "2.prems" by simp
    obtain ts' s' where r: "minus_loop (int (length (as @ [a]))) ts s = Some (ts', s')" "tinv s0 s' ts' ((as @ [a]) @ minus_list r)"
      using "2.IH"(2) [OF False p1] by blast
    have "minus_loop (int (length as)) ts s = Some (ts', s')"
      using t(1-3) dn False r(1) by (subst minus_loop.simps) (simp add: add.commute)
    moreover have "minus_list (a # r) = a # minus_list r" using False by (subst minus_list.simps(2)) simp
    ultimately show ?thesis using r(2) by (intro exI [of _ ts'] exI [of _ s']) simp
  qed
qed

text \<open>The result of a pass: the tokens, or the error position with some tokens that the caller still owns.\<close>

definition pass_ok :: "chx_state \<Rightarrow> string Token_t list \<Rightarrow> int + string Token_t list \<Rightarrow> (int \<times> int \<times> Token list \<times> chx_state) option \<Rightarrow> bool" where
  "pass_ok s0 as r q \<longleftrightarrow> (\<exists>ts s. case r of
      Inl e \<Rightarrow> q = Some (0, e, ts, s) \<and> (\<exists>bs. tinv s0 s ts bs)
    | Inr bs \<Rightarrow> q = Some (1, -1, ts, s) \<and> tinv s0 s ts (as @ bs))"

lemma pass_ok_step: "pass_ok s0 (as @ [a]) r q \<Longrightarrow> pass_ok s0 as (map_sum id ((#) a) r) q"
  by (cases r) (auto simp: pass_ok_def)

lemma range_loop_ok:
  assumes "tinv s0 s ts (as @ bs)"
  shows "pass_ok s0 as (range_list errchk bs) (range_loop errchk (int (length as)) ts s)"
  using assms
proof (induction errchk bs arbitrary: as ts s rule: range_list.induct)
  case (1 errchk)
  then obtain e where "idx ts (int (length as)) = Some e" "t_type e = T_END" using tinv_end by (metis append_Nil2)
  then have "range_loop errchk (int (length as)) ts s = Some (1, -1, ts, s)" by (subst range_loop.simps) simp
  then show ?case using 1 by (auto simp: pass_ok_def)
next
  case (2 errchk a r)
  obtain t where t: "idx ts (int (length as)) = Some t" "a = tview (sview s) t" "t_type a \<noteq> T_END" by (rule tinv_idx [OF "2.prems"])
  note dn = dash_num_ok [OF "2.prems", of "\<lambda>ty. ty = T_NUM"]
  have n: "int (length as) + 1 = int (length (as @ [a]))" by simp
  show ?case
  proof (cases "dash_at (\<lambda>ty. ty = T_NUM) a r")
    case True
    then obtain d v q where dv: "r = d # v # q" "t_type a = T_NUM" "t_type d = T_DASH" "t_type v = T_NUM" by (rule dash_atE)
    have p1: "tinv s0 s ts ((as @ [a]) @ d # v # q)" and p2: "tinv s0 s ts ((as @ [a, d]) @ v # q)" using "2.prems" dv(1) by simp_all
    have n2: "int (length as) + 2 = int (length (as @ [a, d]))" by simp
    obtain u where u: "idx ts (int (length as) + 1) = Some u" "d = tview (sview s) u" unfolding n by (rule tinv_idx [OF p1])
    obtain w where w: "idx ts (int (length as) + 2) = Some w" "v = tview (sview s) w" unfolding n2 by (rule tinv_idx [OF p2])
    show ?thesis
    proof (cases "errchk \<and> num0 a \<noteq> num1 a")
      case err: True
      have "range_loop errchk (int (length as)) ts s = Some (0, t_pos d, ts, s)"
        using t dn True u w err by (subst range_loop.simps) auto
      moreover have "range_list errchk (a # r) = Inl (t_pos d)" using True err dv(1) by (simp add: range_list.simps(2))
      ultimately show ?thesis using "2.prems" by (auto simp: pass_ok_def)
    next
      case ok: False
      let ?a = "a\<lparr>num1 := num1 v\<rparr>" and ?f = "\<lambda>t. t\<lparr>num1 := num1 w\<rparr>"
      obtain ts1 where ts1: "tok_upd ?f (int (length as)) ts = Some ts1" "tinv s0 s ts1 (as @ ?a # r)"
        by (rule tinv_upd [OF "2.prems", of ?f ?a]) (use dv w(2) in \<open>auto simp: tview_def\<close>)
      have "tinv s0 s ts1 ((as @ [?a]) @ d # v # q)" using ts1(2) dv(1) by simp
      then obtain ts2 s2 where ts2: "delete_token ts1 (int (length (as @ [?a]))) s = Some (1, ts2, s2)" "tinv s0 s2 ts2 ((as @ [?a]) @ v # q)"
        by (rule delete_token_ok)
      obtain ts3 s3 where ts3: "delete_token ts2 (int (length (as @ [?a]))) s2 = Some (1, ts3, s3)" "tinv s0 s3 ts3 ((as @ [?a]) @ q)"
        by (rule delete_token_ok [OF ts2(2)])
      have "a\<lparr>num1 := num1 (r ! 1)\<rparr> # drop 2 r = ?a # q" using dv(1) by simp
      moreover from this have p3: "tinv s0 s3 ts3 (as @ a\<lparr>num1 := num1 (r ! 1)\<rparr> # drop 2 r)" using ts3(2) by simp
      ultimately have "pass_ok s0 as (range_list errchk (?a # q)) (range_loop errchk (int (length as)) ts3 s3)"
        using "2.IH"(1) [OF True ok p3] by simp
      moreover have "range_loop errchk (int (length as)) ts s = range_loop errchk (int (length as)) ts3 s3"
        using t dn True u w ok ts1(1) ts2(1) ts3(1) by (subst range_loop.simps) (auto simp: add.commute)
      moreover have "range_list errchk (a # r) = range_list errchk (?a # q)" using True ok dv(1)
        by (subst range_list.simps(2)) (simp only: if_True if_False simp_thms, simp)
      ultimately show ?thesis by simp
    qed
  next
    case False
    have p1: "tinv s0 s ts ((as @ [a]) @ r)" using "2.prems" by simp
    have "range_loop errchk (int (length as)) ts s = range_loop errchk (int (length (as @ [a]))) ts s"
      using t(1-3) dn False by (subst range_loop.simps) (simp add: add.commute)
    then show ?thesis using pass_ok_step [OF "2.IH"(2) [OF False p1]] False by (simp add: range_list.simps(2))
  qed
qed

section \<open>Words for numbers\<close>

text \<open>The string of a token: its chix is owned, and no other token shares it.\<close>

lemma tinv_str:
  assumes "held xs s0 s ts (as @ a # bs)" and "t_str a = Some x"
  obtains us t vs e rest c where "ts = us @ t # vs @ e # rest" "t_type e = T_END" "as = map (tview (sview s)) us" "a = tview (sview s) t"
    "bs = map (tview (sview s)) vs" "own s0 s (xs @ owned (us @ t # vs))" "length us = length as"
    "\<forall>x \<in> set (as @ a # bs). t_type x \<noteq> T_END" "t_str t = Some c" "sview s c = Some x"
    "c \<in> set (xs @ owned (us @ t # vs))" "c \<notin> set (owned us)" "c \<notin> set (owned vs)" "remove1 c (xs @ owned (us @ t # vs)) = xs @ owned (us @ vs)"
proof -
  obtain us t vs e rest where t: "ts = us @ t # vs @ e # rest" "t_type e = T_END" "as = map (tview (sview s)) us" "a = tview (sview s) t"
    "bs = map (tview (sview s)) vs" "own s0 s (xs @ owned (us @ t # vs))" "length us = length as"
    "\<forall>x \<in> set (as @ a # bs). t_type x \<noteq> T_END" by (rule tinv_at [OF assms(1)])
  obtain c where c: "t_str t = Some c" "sview s c = Some x" using assms(2) t(4) by (auto simp: tview_def split: option.splits)
  have d: "distinct (xs @ owned (us @ t # vs))" using t(6) by (simp add: own_def)
  have "c \<in> set (xs @ owned (us @ t # vs))" "c \<notin> set (owned us)" "c \<notin> set (owned vs)" "remove1 c (xs @ owned (us @ t # vs)) = xs @ owned (us @ vs)"
    using d c(1) by (auto simp: remove1_append)
  then show thesis using that [OF t c] by blast
qed

lemma tinv_write:
  assumes "held xs s0 s ts (as @ a # bs)" and "t_str a = Some x"
  obtains t c where "idx ts (int (length as)) = Some t" "a = tview (sview s) t" "t_str t = Some c" "sview s c = Some x"
    "\<forall>y s'. chx_to s ((sview s)(c \<mapsto> y)) s' \<longrightarrow> held xs s0 s' ts (as @ a\<lparr>t_str := Some y\<rparr> # bs)"
proof -
  obtain us t vs e rest c where t: "ts = us @ t # vs @ e # rest" "t_type e = T_END" "as = map (tview (sview s)) us" "a = tview (sview s) t"
    "bs = map (tview (sview s)) vs" "own s0 s (xs @ owned (us @ t # vs))" "length us = length as"
    "\<forall>x \<in> set (as @ a # bs). t_type x \<noteq> T_END" "t_str t = Some c" "sview s c = Some x"
    "c \<in> set (xs @ owned (us @ t # vs))" "c \<notin> set (owned us)" "c \<notin> set (owned vs)" "remove1 c (xs @ owned (us @ t # vs)) = xs @ owned (us @ vs)"
    by (rule tinv_str [OF assms])
  have i: "idx ts (int (length as)) = Some t" unfolding t(1) t(7) [symmetric] by (rule idx_mid)
  have "held xs s0 s' ts (as @ a\<lparr>t_str := Some y\<rparr> # bs)" if w: "chx_to s ((sview s)(c \<mapsto> y)) s'" for y s'
  proof -
    have v: "sview s' = (sview s)(c \<mapsto> y)" by (rule chx_toD(2) [OF w])
    have "map (tview (sview s')) us = as" "map (tview (sview s')) vs = bs" using t(3,5,12,13) v
      map_tview_keep [of us "sview s'" "sview s"] map_tview_keep [of vs "sview s'" "sview s"] by auto
    moreover have "tview (sview s') t = a\<lparr>t_str := Some y\<rparr>" using t(4,9) v by (simp add: tview_def)
    ultimately show ?thesis unfolding held_def
      by (intro exI [of _ "us @ t # vs"] exI [of _ e] exI [of _ rest]) (use t(1,2,8) own_write [OF t(6,11) w] in auto)
  qed
  then show thesis using that [OF i t(4,9,10)] by blast
qed

lemma tinv_release:
  assumes "held xs s0 s ts (as @ a # bs)" and "t_str a = Some x"
    and f: "\<And>t. t_str (f t) = None" "\<And>t m. tview (sview s) t = a \<Longrightarrow> tview m (f t) = b" "t_type b \<noteq> T_END"
  obtains t c s' ts' where "idx ts (int (length as)) = Some t" "t_str t = Some c" "chxfree (Some c) s = Some (1, s')"
    "tok_upd f (int (length as)) ts = Some ts'" "held xs s0 s' ts' (as @ b # bs)"
proof -
  obtain us t vs e rest c where t: "ts = us @ t # vs @ e # rest" "t_type e = T_END" "as = map (tview (sview s)) us" "a = tview (sview s) t"
    "bs = map (tview (sview s)) vs" "own s0 s (xs @ owned (us @ t # vs))" "length us = length as"
    "\<forall>x \<in> set (as @ a # bs). t_type x \<noteq> T_END" "t_str t = Some c" "sview s c = Some x"
    "c \<in> set (xs @ owned (us @ t # vs))" "c \<notin> set (owned us)" "c \<notin> set (owned vs)" "remove1 c (xs @ owned (us @ t # vs)) = xs @ owned (us @ vs)"
    by (rule tinv_str [OF assms(1,2)])
  obtain s' where s': "chxfree (Some c) s = Some (1, s')" "own s0 s' (remove1 c (xs @ owned (us @ t # vs)))" "sview s' = (sview s)(c := None)"
    by (rule own_free [OF t(6,11)])
  have i: "idx ts (int (length as)) = Some t" "tok_upd f (int (length as)) ts = Some (us @ f t # vs @ e # rest)"
    unfolding t(1) t(7) [symmetric] by (simp_all add: tok_upd_mid)
  have "map (tview (sview s')) us = as" "map (tview (sview s')) vs = bs" using t(3,5,12,13) s'(3)
      map_tview_keep [of us "sview s'" "sview s"] map_tview_keep [of vs "sview s'" "sview s"] by auto
  moreover have "owned (us @ f t # vs) = owned (us @ vs)" using f(1) by simp
  ultimately have "held xs s0 s' (us @ f t # vs @ e # rest) (as @ b # bs)" unfolding held_def
    by (intro exI [of _ "us @ f t # vs"] exI [of _ e] exI [of _ rest]) (use t(2,4,8,14) s'(2) f(2) [OF t(4) [symmetric]] f(3) in auto)
  then show thesis using that i t(9) s'(1) by blast
qed

definition look_up :: "string \<Rightarrow> string \<Rightarrow> string \<Rightarrow> int" where
  "look_up bl table w = (if w = [] then -1 else match_result w (entry_words bl table))"

definition subst_tok :: "(string \<Rightarrow> int) \<Rightarrow> string Token_t \<Rightarrow> string Token_t" where
  "subst_tok lk t = (if t_type t = T_WORD \<and> lk (the (t_str t)) \<ge> 0
     then (special_nums (lk (the (t_str t))) t)\<lparr>t_type := T_NUM, t_str := None\<rparr> else t)"

definition words_ok :: "string \<Rightarrow> string Token_t list \<Rightarrow> bool" where
  "words_ok bl as \<longleftrightarrow> (\<forall>t \<in> set as. t_type t = T_WORD \<longrightarrow> (\<exists>w. t_str t = Some w \<and> (\<forall>c \<in> set w. \<not> in_tab bl c \<and> c \<noteq> CHR ''/'')))"

text \<open>The tables of blanks that keyword look-up works with.\<close>

definition table_ready :: "chx_state \<Rightarrow> bool" where
  "table_ready s \<longleftrightarrow> blanks s \<noteq> None \<and> NUL \<notin> set (blank_blanks s) \<and> CHR ''/'' \<notin> set (blank_blanks s)"

lemma tinv_own: "held xs s0 s ts as \<Longrightarrow> \<exists>l. own s0 s l"
  by (auto simp: held_def)

lemma tinv_look_up:
  assumes i: "held xs s0 s ts as" and r: "table_ready s0" and p: "sview s0 p = Some y" and w: "sview s c = Some w"
    and ok: "\<forall>d \<in> set w. \<not> in_tab (blank_blanks s0) d \<and> d \<noteq> CHR ''/''"
  obtains s' where "tablematch (Some p) (Some c) s = Some (look_up (blank_blanks s0) y w, s')" "reads s s'"
proof -
  obtain l where o: "own s0 s l" using tinv_own [OF i] by blast
  have k: "blanks s = blanks s0" "blank_blanks s = blank_blanks s0" using o by (simp_all add: own_def kept_def)
  have "sview s p = Some y" using own_other [OF o, of p] p by simp
  then obtain s' where "tablematch (Some p) (Some c) s = Some (if w = [] then -1 else match_result w (entry_words (blank_blanks s) y), s')" "reads s s'"
    using tablematch_ok [OF own_inv [OF o]] r w ok k unfolding table_ready_def by metis
  then show thesis using that k by (simp add: look_up_def)
qed

lemma subst_loop_ok:
  assumes "tinv s0 s ts (as @ bs)" and r: "table_ready s0" and p: "sview s0 p = Some y" and "words_ok (blank_blanks s0) bs"
  shows "\<exists>ts' s'. subst_loop (Some p) (int (length as)) ts s = Some (ts', s') \<and>
    tinv s0 s' ts' (as @ map (subst_tok (look_up (blank_blanks s0) y)) bs)"
  using assms(1,4)
proof (induction bs arbitrary: as ts s)
  case Nil
  then obtain e where "idx ts (int (length as)) = Some e" "t_type e = T_END" using tinv_end by (metis append_Nil2)
  then show ?case using Nil.prems by (subst subst_loop.simps) simp
next
  case (Cons a bs)
  let ?lk = "look_up (blank_blanks s0) y"
  have go: ?case if i: "tinv s0 s1 ts1 (as @ subst_tok ?lk a # bs)"
      and e: "subst_loop (Some p) (int (length as)) ts s = subst_loop (Some p) (int (length as) + 1) ts1 s1" for ts1 s1
  proof -
    have "tinv s0 s1 ts1 ((as @ [subst_tok ?lk a]) @ bs)" "words_ok (blank_blanks s0) bs" using i Cons.prems(2) by (simp_all add: words_ok_def)
    from Cons.IH [OF this] show ?thesis using e by (simp add: add.commute)
  qed
  show ?case
  proof (cases "t_type a = T_WORD")
    case False
    obtain t where t: "idx ts (int (length as)) = Some t" "a = tview (sview s) t" "t_type a \<noteq> T_END" by (rule tinv_idx [OF Cons.prems(1)])
    show ?thesis by (rule go [of s ts]) (use Cons.prems(1) t False in \<open>simp add: subst_tok_def, subst subst_loop.simps, simp\<close>)+
  next
    case True
    then obtain w where w: "t_str a = Some w" "\<forall>d \<in> set w. \<not> in_tab (blank_blanks s0) d \<and> d \<noteq> CHR ''/''"
      using Cons.prems(2) by (auto simp: words_ok_def)
    obtain t c where t: "idx ts (int (length as)) = Some t" "a = tview (sview s) t" "t_str t = Some c" "sview s c = Some w"
      by (rule tinv_write [OF Cons.prems(1) w(1)])
    obtain s1 where s1: "tablematch (Some p) (Some c) s = Some (?lk w, s1)" "reads s s1"
      by (rule tinv_look_up [OF Cons.prems(1) r p t(4) w(2)])
    note i1 = tinv_reads [OF Cons.prems(1) s1(2)]
    show ?thesis
    proof (cases "?lk w < 0")
      case neg: True
      show ?thesis by (rule go [of s1 ts]) (use i1 t True neg s1(1) w(1) in \<open>simp add: subst_tok_def, subst subst_loop.simps, simp\<close>)+
    next
      case pos: False
      let ?f = "\<lambda>t. (special_nums (?lk w) t)\<lparr>t_type := T_NUM, t_str := nullchix\<rparr>"
      have f: "tview m (?f u) = subst_tok ?lk a" if "tview (sview s1) u = a" for u m
        using that True pos w(1) by (auto simp: tview_def subst_tok_def special_nums_def)
      obtain t' c' s2 ts' where t': "idx ts (int (length as)) = Some t'" "t_str t' = Some c'" "chxfree (Some c') s1 = Some (1, s2)"
          "tok_upd ?f (int (length as)) ts = Some ts'" "tinv s0 s2 ts' (as @ subst_tok ?lk a # bs)"
        by (rule tinv_release [OF i1 w(1), of ?f "subst_tok ?lk a"]) (use f True pos w(1) in \<open>auto simp: subst_tok_def\<close>)
      have "subst_loop (Some p) (int (length as)) ts s = subst_loop (Some p) (int (length as) + 1) ts' s2"
        using t t' True pos s1(1) by (subst subst_loop.simps) simp
      then show ?thesis by (rule go [OF t'(5)])
    qed
  qed
qed

text \<open>\<open>collapse_range\<close> is the three passes one after the other.\<close>

definition collapse_list :: "(string \<Rightarrow> int) \<Rightarrow> bool \<Rightarrow> string Token_t list \<Rightarrow> int + string Token_t list" where
  "collapse_list lk errchk as = range_list errchk (minus_list (map (subst_tok lk) as))"

lemma collapse_range_ok:
  assumes "tinv s0 s ts as" and "table_ready s0" and "sview s0 p = Some y" and "words_ok (blank_blanks s0) as"
  shows "pass_ok s0 [] (collapse_list (look_up (blank_blanks s0) y) errchk as) (collapse_range ts (Some p) errchk s)"
proof -
  let ?as = "map (subst_tok (look_up (blank_blanks s0) y)) as"
  obtain ts1 s1 where 1: "subst_loop (Some p) 0 ts s = Some (ts1, s1)" "tinv s0 s1 ts1 ?as"
    using subst_loop_ok [of s0 s ts "[]" as, OF _ assms(2,3,4)] assms(1) by auto
  obtain ts2 s2 where 2: "minus_loop 0 ts1 s1 = Some (ts2, s2)" "tinv s0 s2 ts2 (minus_list ?as)"
    using minus_loop_ok [of s0 s1 ts1 "[]" ?as] 1(2) by auto
  have "pass_ok s0 [] (range_list errchk (minus_list ?as)) (range_loop errchk 0 ts2 s2)"
    using range_loop_ok [of s0 s2 ts2 "[]" "minus_list ?as"] 2(2) by simp
  then show ?thesis using 1(1) 2(1) by (simp add: collapse_range_def collapse_list_def)
qed

section \<open>Joining pairs and names\<close>

definition joined :: "string Token_t \<Rightarrow> string Token_t \<Rightarrow> string Token_t" where
  "joined p t = p\<lparr>t_type := T_NAME, t_str := Some (the (t_str p) @ '' '' @ the (t_str t))\<rparr>"

fun merge_from :: "bool \<Rightarrow> string Token_t \<Rightarrow> string Token_t list \<Rightarrow> int + string Token_t list" where
  "merge_from errchk p [] = Inr [p]"
| "merge_from errchk p (t # r) =
     (if t_type t = T_COLON
      then if errchk \<and> hascolon p \<noteq> 0 then Inl (t_pos t) else merge_from errchk (p\<lparr>hascolon := 1\<rparr>) r
      else if t_type t = T_DATA
      then if t_type p = T_WORD then merge_from errchk (joined p t) r
           else if errchk then Inl (t_pos p) else merge_from errchk p r
      else map_sum id ((#) p) (merge_from errchk t r))"

fun merge_list :: "bool \<Rightarrow> string Token_t list \<Rightarrow> int + string Token_t list" where
  "merge_list errchk [] = Inr []"
| "merge_list errchk (t # r) =
     (if t_type t = T_COLON
      then if errchk then Inl (t_pos t) else merge_from errchk (t\<lparr>t_type := T_NUM, num0 := 1, num1 := -1, hascolon := 1\<rparr>) r
      else merge_from errchk t r)"

definition texts_ok :: "string Token_t list \<Rightarrow> bool" where
  "texts_ok as \<longleftrightarrow> (\<forall>t \<in> set as. t_type t = T_WORD \<or> t_type t = T_DATA \<longrightarrow> t_str t \<noteq> None)"

text \<open>The text of a data token goes behind the word before it.\<close>

lemma join_ok:
  assumes i: "tinv s0 s ts (as @ p # t # r)" and p: "t_type p = T_WORD" "t_str p = Some x" and t: "t_str t = Some y"
  obtains u v s1 s2 ts1 where "idx ts (int (length as)) = Some u" "p = tview (sview s) u" "idx ts (int (length as) + 1) = Some v" "t = tview (sview s) v"
    "chxcatval (t_str u) THIN (bval (CHR '' '')) s = Some (1, s1)" "chxcat (t_str u) (t_str v) s1 = Some (1, s2)"
    "tok_upd (\<lambda>p. p\<lparr>t_type := T_NAME\<rparr>) (int (length as)) ts = Some ts1" "tinv s0 s2 ts1 (as @ joined p t # t # r)"
proof -
  have n: "int (length as) + 1 = int (length (as @ [q]))" for q :: "string Token_t" by simp
  have i': "tinv s0 s ts ((as @ [p]) @ t # r)" using i by simp
  obtain u c where u: "idx ts (int (length as)) = Some u" "p = tview (sview s) u" "t_str u = Some c" "sview s c = Some x"
    "\<forall>y s'. chx_to s ((sview s)(c \<mapsto> y)) s' \<longrightarrow> tinv s0 s' ts (as @ p\<lparr>t_str := Some y\<rparr> # t # r)"
    by (rule tinv_write [OF i p(2)])
  obtain v d where v: "idx ts (int (length (as @ [p]))) = Some v" "t = tview (sview s) v" "t_str v = Some d" "sview s d = Some y"
    by (rule tinv_write [OF i' t])
  have inv: "chx_inv s" using tinv_own [OF i] own_inv by blast
  have nz: "byte (bval (CHR '' '')) \<noteq> NUL" by simp
  obtain s1 where s1: "chxcatval (Some c) THIN (bval (CHR '' '')) s = Some (1, s1)" "chx_to s ((sview s)(c \<mapsto> x @ [byte (bval (CHR '' ''))])) s1"
    by (rule chxcatval_ok [OF inv u(4) nz])
  let ?p1 = "p\<lparr>t_str := Some (x @ '' '')\<rparr>"
  have i1: "tinv s0 s1 ts (as @ ?p1 # t # r)" using u(5) [rule_format, OF s1(2)] by simp
  have i1': "tinv s0 s1 ts ((as @ [?p1]) @ t # r)" using i1 by simp
  obtain u' c' where u': "idx ts (int (length as)) = Some u'" "?p1 = tview (sview s1) u'" "t_str u' = Some c'" "sview s1 c' = Some (x @ '' '')"
    "\<forall>y s'. chx_to s1 ((sview s1)(c' \<mapsto> y)) s' \<longrightarrow> tinv s0 s' ts (as @ ?p1\<lparr>t_str := Some y\<rparr> # t # r)"
    by (rule tinv_write [OF i1, of "x @ '' ''"]) simp_all
  obtain v' d' where v': "idx ts (int (length (as @ [?p1]))) = Some v'" "t = tview (sview s1) v'" "t_str v' = Some d'" "sview s1 d' = Some y"
    by (rule tinv_write [OF i1' t])
  have same: "c' = c" "d' = d" "v' = v" using u(1,3) u'(1,3) v(1,3) v'(1,3) by simp_all
  have "c \<noteq> d"
  proof -
    obtain us t' vs e rest c1 where w0: "ts = us @ t' # vs @ e # rest" "t_type e = T_END" "as = map (tview (sview s)) us" "p = tview (sview s) t'"
        "t # r = map (tview (sview s)) vs" "own s0 s (owned (us @ t' # vs))" "length us = length as"
        "\<forall>x \<in> set (as @ p # t # r). t_type x \<noteq> T_END" "t_str t' = Some c1" "sview s c1 = Some x"
        "c1 \<in> set (owned (us @ t' # vs))" "c1 \<notin> set (owned us)" "c1 \<notin> set (owned vs)" "remove1 c1 (owned (us @ t' # vs)) = owned (us @ vs)"
      by (rule tinv_str [OF i p(2), unfolded append_Nil])
    note w = w0(1,1,5,7,9,13)
    have "idx ts (int (length us)) = Some t'" unfolding w(1) by (rule idx_mid)
    then have "c1 = c" using u(1,3) w(4,5) by simp
    moreover obtain v1 vs' where "vs = v1 # vs'" using w(3) by (cases vs) auto
    moreover from this have "idx ts (int (length (us @ [t']))) = Some v1" unfolding w(1) using idx_mid [of "us @ [t']" v1] by simp
    then have "v1 = v" using v(1) w(4) by simp
    ultimately show ?thesis using w(6) v(3) by auto
  qed
  then obtain s2 where s2: "chxcat (Some c) (Some d) s1 = Some (1, s2)" "chx_to s1 ((sview s1)(c \<mapsto> (x @ '' '') @ y)) s2"
    using chxcat_ok [OF chx_toD(1) [OF s1(2)]] u'(4) v'(4) unfolding same by metis
  have i2: "tinv s0 s2 ts (as @ p\<lparr>t_str := Some (x @ '' '' @ y)\<rparr> # t # r)" using u'(5) [unfolded same, rule_format, OF s2(2)] by simp
  obtain ts1 where ts1: "tok_upd (\<lambda>p. p\<lparr>t_type := T_NAME\<rparr>) (int (length as)) ts = Some ts1" "tinv s0 s2 ts1 (as @ joined p t # t # r)"
    by (rule tinv_upd [OF i2, of "\<lambda>p. p\<lparr>t_type := T_NAME\<rparr>" "joined p t"]) (use p t in \<open>simp_all add: tview_type joined_def\<close>)
  show thesis using that [OF u(1,2) _ v(2) _ _ ts1] v(1) s1(1) s2(1) u(3) v(3) by (simp add: add.commute)
qed

lemma merge_loop_ok:
  assumes "tinv s0 s ts (as @ p # r)" and "texts_ok (p # r)"
  shows "pass_ok s0 as (merge_from errchk p r) (merge_loop errchk (int (length as) + 1) ts s)"
  using assms
proof (induction errchk p r arbitrary: as ts s rule: merge_from.induct)
  case (1 errchk p)
  obtain e where "idx ts (int (length (as @ [p]))) = Some e" "t_type e = T_END" by (rule tinv_end [OF "1.prems"(1)])
  then have "merge_loop errchk (int (length as) + 1) ts s = Some (1, -1, ts, s)" by (subst merge_loop.simps) (simp add: add.commute)
  then show ?case using "1.prems"(1) by (auto simp: pass_ok_def)
next
  case (2 errchk p t r)
  let ?i = "int (length as) + 1"
  have n: "?i = int (length (as @ [q]))" for q :: "string Token_t" by simp
  have i': "tinv s0 s ts ((as @ [p]) @ t # r)" using "2.prems"(1) by simp
  obtain u where u: "idx ts (int (length as)) = Some u" "p = tview (sview s) u" by (rule tinv_idx [OF "2.prems"(1)])
  obtain v where v: "idx ts (int (length (as @ [p]))) = Some v" "t = tview (sview s) v" "t_type t \<noteq> T_END" by (rule tinv_idx [OF i'])
  have v': "idx ts ?i = Some v" using v(1) by (simp add: add.commute)
  have rm: thesis if j: "tinv s0 s1 ts1 (as @ q # t # r)" and k: "\<And>ts2 s2. delete_token ts1 ?i s1 = Some (1, ts2, s2) \<Longrightarrow> tinv s0 s2 ts2 (as @ q # r) \<Longrightarrow> thesis"
    for q ts1 s1 thesis
  proof -
    have "tinv s0 s1 ts1 ((as @ [q]) @ t # r)" using j by simp
    then obtain ts2 s2 where "delete_token ts1 (int (length (as @ [q]))) s1 = Some (1, ts2, s2)" "tinv s0 s2 ts2 ((as @ [q]) @ r)" by (rule delete_token_ok)
    then show thesis using k [of ts2 s2] by (simp add: add.commute)
  qed
  consider (colon) "t_type t = T_COLON" | (data) "t_type t = T_DATA" | (other) "t_type t \<noteq> T_COLON" "t_type t \<noteq> T_DATA" by blast
  then show ?case
  proof cases
    case colon
    show ?thesis
    proof (cases "errchk \<and> hascolon p \<noteq> 0")
      case True
      then have "merge_loop errchk ?i ts s = Some (0, t_pos t, ts, s)" using colon u v v' by (subst merge_loop.simps) auto
      then show ?thesis using colon True "2.prems"(1) by (auto simp: pass_ok_def)
    next
      case False
      let ?p = "p\<lparr>hascolon := 1\<rparr>" and ?f = "\<lambda>p. p\<lparr>hascolon := 1\<rparr>"
      have ne: "t_type p \<noteq> T_END" using "2.prems"(1) by (auto simp: held_def)
      obtain ts1 where ts1: "tok_upd ?f (int (length as)) ts = Some ts1" "tinv s0 s ts1 (as @ ?p # t # r)"
        by (rule tinv_upd [OF "2.prems"(1), of ?f ?p]) (use ne in \<open>auto simp: tview_def\<close>)
      obtain ts2 s2 where ts2: "delete_token ts1 ?i s = Some (1, ts2, s2)" "tinv s0 s2 ts2 (as @ ?p # r)" by (rule rm [OF ts1(2)])
      have "merge_loop errchk ?i ts s = merge_loop errchk ?i ts2 s2"
        using colon u v v' False ts1(1) ts2(1) by (subst merge_loop.simps) auto
      moreover have "texts_ok (?p # r)" using "2.prems"(2) by (simp add: texts_ok_def)
      ultimately show ?thesis using "2.IH"(1) [OF colon False ts2(2)] colon False by auto
    qed
  next
    case data
    have nc: "t_type t \<noteq> T_COLON" using data by simp
    show ?thesis
    proof (cases "t_type p = T_WORD")
      case True
      obtain x y where xy: "t_str p = Some x" "t_str t = Some y" using "2.prems"(2) True data by (auto simp: texts_ok_def)
      obtain u1 v1 s1 s2 ts1 where j: "idx ts (int (length as)) = Some u1" "p = tview (sview s) u1" "idx ts ?i = Some v1" "t = tview (sview s) v1"
        "chxcatval (t_str u1) THIN (bval (CHR '' '')) s = Some (1, s1)" "chxcat (t_str u1) (t_str v1) s1 = Some (1, s2)"
        "tok_upd (\<lambda>p. p\<lparr>t_type := T_NAME\<rparr>) (int (length as)) ts = Some ts1" "tinv s0 s2 ts1 (as @ joined p t # t # r)"
        by (rule join_ok [OF "2.prems"(1) True xy])
      obtain ts2 s3 where ts2: "delete_token ts1 ?i s2 = Some (1, ts2, s3)" "tinv s0 s3 ts2 (as @ joined p t # r)" by (rule rm [OF j(8)])
      have "merge_loop errchk ?i ts s = merge_loop errchk ?i ts2 s3"
        using data nc True u v v' j(1,3,5-7) ts2(1) by (subst merge_loop.simps) auto
      moreover have "texts_ok (joined p t # r)" using "2.prems"(2) by (simp add: texts_ok_def joined_def)
      ultimately show ?thesis using "2.IH"(2) [OF nc data True ts2(2)] data nc True by auto
    next
      case False
      show ?thesis
      proof (cases errchk)
        case err: True
        then have "merge_loop errchk ?i ts s = Some (0, t_pos p, ts, s)" using data nc u v v' False by (subst merge_loop.simps) auto
        then show ?thesis using data nc False err "2.prems"(1) by (auto simp: pass_ok_def)
      next
        case ok: False
        obtain ts2 s2 where ts2: "delete_token ts ?i s = Some (1, ts2, s2)" "tinv s0 s2 ts2 (as @ p # r)" by (rule rm [OF "2.prems"(1)])
        have "merge_loop errchk ?i ts s = merge_loop errchk ?i ts2 s2"
          using data nc u v v' False ok ts2(1) by (subst merge_loop.simps) auto
        moreover have "texts_ok (p # r)" using "2.prems"(2) by (simp add: texts_ok_def)
        ultimately show ?thesis using "2.IH"(3) [OF nc data False ok ts2(2)] data nc False ok by auto
      qed
    qed
  next
    case other
    have "merge_loop errchk ?i ts s = merge_loop errchk (int (length (as @ [p])) + 1) ts s"
      using other v v' by (subst merge_loop.simps) (auto simp: add.commute)
    moreover have "texts_ok (t # r)" using "2.prems"(2) by (simp add: texts_ok_def)
    ultimately show ?thesis using pass_ok_step [OF "2.IH"(4) [OF other i']] other by auto
  qed
qed

lemma merge_tokens_ok:
  assumes "tinv s0 s ts as" and "texts_ok as"
  shows "pass_ok s0 [] (merge_list errchk as) (merge_tokens ts errchk s)"
proof (cases as)
  case Nil
  obtain e where "idx ts (int (length as)) = Some e" "t_type e = T_END" by (rule tinv_end [OF assms(1)])
  then have "merge_tokens ts errchk s = Some (1, -1, ts, s)" using Nil by (simp add: merge_tokens_def)
  then show ?thesis using assms(1) Nil by (auto simp: pass_ok_def)
next
  case (Cons t r)
  have i: "tinv s0 s ts ([] @ t # r)" using assms(1) Cons by simp
  obtain u where u: "idx ts (int (length ([] :: string Token_t list))) = Some u" "t = tview (sview s) u" "t_type t \<noteq> T_END" by (rule tinv_idx [OF i])
  show ?thesis
  proof (cases "t_type t = T_COLON")
    case False
    have "merge_tokens ts errchk s = merge_loop errchk 1 ts s" using u False by (simp add: merge_tokens_def)
    then show ?thesis using merge_loop_ok [OF i] assms(2) Cons False by simp
  next
    case True
    show ?thesis
    proof (cases errchk)
      case err: True
      then have "merge_tokens ts errchk s = Some (0, t_pos t, ts, s)" using u True by (simp add: merge_tokens_def)
      then show ?thesis using assms(1) Cons True err by (auto simp: pass_ok_def)
    next
      case ok: False
      let ?f = "\<lambda>t. t\<lparr>t_type := T_NUM, num0 := 1, num1 := -1, hascolon := 1\<rparr>"
      let ?t = "t\<lparr>t_type := T_NUM, num0 := 1, num1 := -1, hascolon := 1\<rparr>"
      obtain ts1 where ts1: "tok_upd ?f (int (length ([] :: string Token_t list))) ts = Some ts1" "tinv s0 s ts1 ([] @ ?t # r)"
        by (rule tinv_upd [OF i, of ?f ?t]) (auto simp: tview_def)
      have "merge_tokens ts errchk s = merge_loop errchk 1 ts1 s" using u True ok ts1(1) by (simp add: merge_tokens_def)
      moreover have "texts_ok (?t # r)" using assms(2) Cons by (simp add: texts_ok_def)
      ultimately show ?thesis using merge_loop_ok [OF ts1(2)] Cons True ok by simp
    qed
  qed
qed

end
