(* ===== verification/Parse2.thy ===== *)
theory Parse2
  imports Select
begin

text \<open>
  What \<open>parse2_tokens\<close> makes of a line: the function \<open>toks\<close> describes the tokens on plain strings, and the state
  machine of the program is shown to fill the array with exactly these.
\<close>

section \<open>The tokens of a line\<close>

definition gap :: "string \<Rightarrow> char \<Rightarrow> bool" where
  "gap bl c \<longleftrightarrow> c = CHR '','' \<or> in_tab bl c"

definition word_char :: "string \<Rightarrow> char \<Rightarrow> bool" where
  "word_char bl c \<longleftrightarrow> \<not> gap bl c \<and> c \<noteq> CHR '':'' \<and> c \<noteq> CHR ''-'' \<and> c \<noteq> CHR 0x22"

definition tok :: "token_type \<Rightarrow> string option \<Rightarrow> int \<Rightarrow> int \<Rightarrow> string Token_t" where
  "tok ty str n pos = \<lparr>t_str = str, t_type = ty, num0 = n, num1 = n, hascolon = 0, t_pos = pos\<rparr>"

function toks :: "(string \<Rightarrow> int) \<Rightarrow> string \<Rightarrow> int \<Rightarrow> string \<Rightarrow> string Token_t list" where
  "toks lk bl pos [] = []"
| "toks lk bl pos (c # y) =
     (if gap bl c then toks lk bl (pos + 1) y
      else if c = CHR ''-'' then tok T_DASH None 0 pos # toks lk bl (pos + 1) y
      else if c = CHR '':'' then tok T_COLON None 0 pos # toks lk bl (pos + 1) y
      else if is_digit c then
        let ds = takeWhile is_digit y
        in tok T_NUM None (wrap32 (dval (c # ds))) pos # toks lk bl (pos + 1 + int (length ds)) (drop (length ds) y)
      else if c = CHR 0x22 then
        let q = takeWhile (\<lambda>d. d \<noteq> CHR 0x22) y
        in tok T_DATA (Some q) 0 (pos + 1) # toks lk bl (pos + 2 + int (length q)) (drop (Suc (length q)) y)
      else
        let w = takeWhile (word_char bl) y; z = drop (length w) y; g = takeWhile (gap bl) z; z' = drop (length g) z;
            p = pos + 1 + int (length w) + int (length g)
        in tok T_WORD (Some (c # w)) 0 pos #
           (if z' \<noteq> [] \<and> hd z' \<noteq> CHR 0x22 \<and> 0 \<le> lk (c # w) then [tok T_DATA (Some z') 0 p] else toks lk bl p z'))"
  by pat_completeness auto
termination
  by (relation "measure (\<lambda>(lk, bl, pos, y). length y)") (auto intro: le_imp_less_Suc)

declare toks.simps(2) [simp del]

section \<open>The loop\<close>

record parse_env =
  pe_s0 :: chx_state
  pe_line :: nat
  pe_text :: string
  pe_rw :: nat
  pe_table :: string
  pe_blank :: nat
  pe_max :: nat

abbreviation pe_bl :: "parse_env \<Rightarrow> string" where
  "pe_bl E \<equiv> blank_blanks (pe_s0 E)"

definition blanks_sane :: "string \<Rightarrow> bool" where
  "blanks_sane bl \<longleftrightarrow> (\<forall>c \<in> set bl. \<not> is_digit c \<and> c \<noteq> CHR ''-'' \<and> c \<noteq> CHR '':'' \<and> c \<noteq> CHR 0x22)"

definition env_ok :: "parse_env \<Rightarrow> bool" where
  "env_ok E \<longleftrightarrow> chx_inv (pe_s0 E) \<and> table_ready (pe_s0 E) \<and> blanks_sane (pe_bl E) \<and>
     sview (pe_s0 E) (pe_line E) = Some (pe_text E) \<and> sview (pe_s0 E) (pe_rw E) = Some (pe_table E) \<and> CHR ''/'' \<notin> set (pe_text E)"

text \<open>The array during the scan: the tokens so far, then unused ones. The second number is filled in at the end.\<close>

definition clear_tok :: "Token \<Rightarrow> bool" where
  "clear_tok t \<longleftrightarrow> t_str t = None \<and> t_type t = T_END \<and> num0 t = 0 \<and> hascolon t = 0"

definition scan_view :: "(nat \<Rightarrow> string option) \<Rightarrow> Token \<Rightarrow> string Token_t" where
  "scan_view m t = (tview m t)\<lparr>num1 := num0 t\<rparr>"

definition pinv :: "parse_env \<Rightarrow> chx_state \<Rightarrow> Token list \<Rightarrow> string Token_t list \<Rightarrow> bool" where
  "pinv E s ts as \<longleftrightarrow> (\<exists>us rest. ts = us @ rest \<and> length ts = pe_max E \<and> as = map (scan_view (sview s)) us \<and>
     own (pe_s0 E) s (pe_blank E # owned us) \<and> sview s (pe_blank E) = Some (pe_bl E) \<and> (\<forall>t \<in> set rest. clear_tok t))"

lemma pinv_reads: "pinv E s ts as \<Longrightarrow> reads s s' \<Longrightarrow> pinv E s' ts as"
  unfolding pinv_def using own_reads readsD(2) by metis

lemma scan_view_keep: "\<forall>a \<in> set (owned ts). m' a = m a \<Longrightarrow> map (scan_view m') ts = map (scan_view m) ts"
  using map_tview_keep [of ts m' m] by (auto simp: scan_view_def)

lemma pinv_snoc:
  assumes i: "pinv E s ts as" and n: "length as < pe_max E"
    and f: "\<And>t. clear_tok t \<Longrightarrow> t_str (f t) = None" "\<And>t. clear_tok t \<Longrightarrow> scan_view (sview s) (f t) = a"
  obtains ts' where "tok_upd f (int (length as)) ts = Some ts'" "pinv E s ts' (as @ [a])"
proof -
  obtain us rest where u: "ts = us @ rest" "length ts = pe_max E" "as = map (scan_view (sview s)) us"
     "own (pe_s0 E) s (pe_blank E # owned us)" "sview s (pe_blank E) = Some (pe_bl E)" "\<forall>t \<in> set rest. clear_tok t"
    using i unfolding pinv_def by blast
  obtain t r where r: "rest = t # r" using n u(1-3) by (cases rest) auto
  have l: "length as = length us" using u(3) by simp
  have "tok_upd f (int (length as)) ts = Some (us @ f t # r)" unfolding u(1) r l by (rule tok_upd_mid)
  moreover have "pinv E s (us @ f t # r) (as @ [a])" unfolding pinv_def
    by (intro exI [of _ "us @ [f t]"] exI [of _ r]) (use u r f in auto)
  ultimately show thesis using that by blast
qed

lemma new_text_ok:
  assumes i: "pinv E s ts as" and n: "length as < pe_max E"
  obtains ts' s' where "new_text ty room THIN (int (length as)) pos ts s = Some (ts', s')" "pinv E s' ts' (as @ [tok ty (Some []) 0 pos])"
proof -
  obtain us rest where u: "ts = us @ rest" "length ts = pe_max E" "as = map (scan_view (sview s)) us"
     "own (pe_s0 E) s (pe_blank E # owned us)" "sview s (pe_blank E) = Some (pe_bl E)" "\<forall>t \<in> set rest. clear_tok t"
    using i unfolding pinv_def by blast
  obtain t r where r: "rest = t # r" using n u(1-3) by (cases rest) auto
  have l: "length as = length us" using u(3) by simp
  obtain a s' where a: "chxalloc room THIN ''parse2to token'' s = (a, s')" "own (pe_s0 E) s' (a # pe_blank E # owned us)"
      "sview s' = (sview s)(a \<mapsto> [])" "a \<notin> set (pe_blank E # owned us)"
    by (rule own_alloc [OF u(4)])
  let ?f = "\<lambda>t :: Token. t\<lparr>t_type := ty, t_str := Some a, t_pos := pos\<rparr>"
  have "new_text ty room THIN (int (length as)) pos ts s = Some (us @ ?f t # r, s')"
    using tok_upd_mid [of ?f us t r] a(1) unfolding u(1) r l by (simp add: new_text_def)
  moreover have "pinv E s' (us @ ?f t # r) (as @ [tok ty (Some []) 0 pos])" unfolding pinv_def
  proof (rule exI [of _ "us @ [?f t]"], rule exI [of _ r], intro conjI)
    show "as @ [tok ty (Some []) 0 pos] = map (scan_view (sview s')) (us @ [?f t])"
      using scan_view_keep [of us "sview s'" "sview s"] a(3,4) u(3,6) r by (auto simp: scan_view_def tview_def tok_def clear_tok_def)
    have "distinct (pe_blank E # owned (us @ [?f t]))" "set (pe_blank E # owned (us @ [?f t])) = set (a # pe_blank E # owned us)"
      using a(2,4) by (auto simp: own_def)
    from own_cong [OF a(2) this] show "own (pe_s0 E) s' (pe_blank E # owned (us @ [?f t]))" .
  qed (use u r a(3,4) in auto)
  ultimately show thesis using that by blast
qed

text \<open>The last token: its chix and its number.\<close>

lemma pinv_last:
  assumes i: "pinv E s ts (as @ [a])"
  obtains t where "idx ts (int (length as)) = Some t" "scan_view (sview s) t = a"
    "\<forall>f b. t_str (f t) = t_str t \<and> scan_view (sview s) (f t) = b \<longrightarrow> (\<exists>ts'. tok_upd f (int (length as)) ts = Some ts' \<and> pinv E s ts' (as @ [b]))"
    "\<forall>c y s'. t_str t = Some c \<and> chx_to s ((sview s)(c \<mapsto> y)) s' \<longrightarrow> pinv E s' ts (as @ [a\<lparr>t_str := Some y\<rparr>])"
    "\<forall>c. t_str t = Some c \<longrightarrow> sview s c = t_str a \<and> sview (pe_s0 E) c = None"
proof -
  obtain ws rest where w: "ts = ws @ rest" "length ts = pe_max E" "as @ [a] = map (scan_view (sview s)) ws"
     "own (pe_s0 E) s (pe_blank E # owned ws)" "sview s (pe_blank E) = Some (pe_bl E)" "\<forall>t \<in> set rest. clear_tok t"
    using i unfolding pinv_def by blast
  from w(3) [symmetric] obtain us t where u: "ws = us @ [t]" "as = map (scan_view (sview s)) us" "a = scan_view (sview s) t"
    by (auto simp: map_eq_append_conv)
  have l: "length as = length us" and ts: "ts = us @ t # rest" using u w(1) by simp_all
  have 1: "idx ts (int (length as)) = Some t" unfolding ts l by (rule idx_mid)
  have 2: "\<exists>ts'. tok_upd f (int (length as)) ts = Some ts' \<and> pinv E s ts' (as @ [b])"
    if "t_str (f t) = t_str t" "scan_view (sview s) (f t) = b" for f b
  proof -
    have "tok_upd f (int (length as)) ts = Some (us @ f t # rest)" unfolding ts l by (rule tok_upd_mid)
    moreover have "pinv E s (us @ f t # rest) (as @ [b])" unfolding pinv_def
      by (intro exI [of _ "us @ [f t]"] exI [of _ rest]) (use w u that ts in auto)
    ultimately show ?thesis by blast
  qed
  have 3: "pinv E s' ts (as @ [a\<lparr>t_str := Some y\<rparr>])" if c: "t_str t = Some c" and x: "chx_to s ((sview s)(c \<mapsto> y)) s'" for c y s'
  proof -
    have v: "sview s' = (sview s)(c \<mapsto> y)" by (rule chx_toD(2) [OF x])
    have d: "c \<in> set (pe_blank E # owned ws)" "c \<notin> set (owned us)" "c \<noteq> pe_blank E" using w(4) u(1) c by (auto simp: own_def)
    show ?thesis unfolding pinv_def
    proof (rule exI [of _ ws], rule exI [of _ rest], intro conjI)
      show "as @ [a\<lparr>t_str := Some y\<rparr>] = map (scan_view (sview s')) ws"
        using scan_view_keep [of us "sview s'" "sview s"] u v d(2) c by (auto simp: scan_view_def tview_def)
      show "own (pe_s0 E) s' (pe_blank E # owned ws)" by (rule own_write [OF w(4) d(1) x])
    qed (use w v d(3) in auto)
  qed
  have 4: "sview s c = t_str a \<and> sview (pe_s0 E) c = None" if "t_str t = Some c" for c
    using u(1,3) w(4) that by (auto simp: own_def scan_view_def tview_def)
  show thesis using that [OF 1 u(3) [symmetric]] 2 3 4 by blast
qed

lemma space_loop_ok:
  assumes "chx_inv s" and "sview s b = Some bl" and "k \<le> length bl" and "NUL \<notin> set bl"
  shows "\<exists>s'. space_loop (Some b) (bval c) (int k) s = Some (c \<in> set (drop k bl), s') \<and> reads s s'"
  using assms(1-3)
proof (induction "length bl - k" arbitrary: k s)
  case 0
  obtain s' where s': "chxvalue (Some b) (int k) s = Some (char_at bl (int k), s')" "reads s s'"
    by (rule chxvalue_reads [OF 0(2,3) of_nat_0_le_iff])
  have "k = length bl" using 0 by simp
  then show ?case using s' by (subst space_loop.simps) (simp add: char_at_def)
next
  case (Suc m)
  obtain s1 where s1: "chxvalue (Some b) (int k) s = Some (char_at bl (int k), s1)" "reads s s1"
    by (rule chxvalue_reads [OF Suc(3,4) of_nat_0_le_iff])
  have k: "k < length bl" using Suc(2) by simp
  have d: "drop k bl = bl ! k # drop (Suc k) bl" using k by (simp add: Cons_nth_drop_Suc)
  have nz: "bl ! k \<noteq> NUL" using assms(4) nth_mem [OF k] by metis
  show ?case
  proof (cases "c = bl ! k")
    case True
    then show ?thesis using s1 k nz d by (subst space_loop.simps) (simp add: char_at_def)
  next
    case False
    have "m = length bl - Suc k" using Suc(2) by simp
    then obtain s2 where s2: "space_loop (Some b) (bval c) (int (Suc k)) s1 = Some (c \<in> set (drop (Suc k) bl), s2)" "reads s1 s2"
      using Suc(1) [of "Suc k" s1] Suc(2,4) k readsD(1,2) [OF s1(2)] by auto
    have "space_loop (Some b) (bval c) (int k) s = Some (c \<in> set (drop k bl), s2)"
      using s1(1) s2(1) k nz False d by (subst space_loop.simps) (simp add: char_at_def add.commute)
    then show ?thesis using reads_trans [OF s1(2) s2(2)] by blast
  qed
qed

abbreviation pl :: "parse_env \<Rightarrow> nat \<Rightarrow> parse_state \<Rightarrow> int \<Rightarrow> Token list \<Rightarrow> chx_state \<Rightarrow> (int \<times> Token list \<times> chx_state) option" where
  "pl E k \<equiv> parse_loop (Some (pe_line E)) (Some (pe_rw E)) (Some (pe_blank E)) THIN (int k)"

abbreviation pc :: "parse_env \<Rightarrow> nat \<Rightarrow> parse_state \<Rightarrow> int \<Rightarrow> Token list \<Rightarrow> chx_state \<Rightarrow>
    ((int \<times> parse_state \<times> int \<times> Token list \<times> bool) \<times> chx_state) option" where
  "pc E k \<equiv> parse_char (Some (pe_line E)) (Some (pe_rw E)) THIN (int k) (bval (pe_text E ! k)) (in_tab (pe_bl E) (pe_text E ! k))"

definition proceed :: "parse_env \<Rightarrow> ((int \<times> parse_state \<times> int \<times> Token list \<times> bool) \<times> chx_state) option \<Rightarrow>
    (int \<times> Token list \<times> chx_state) option" where
  "proceed E r = do { ((pos, state, this, token, done), s) \<leftarrow> r;
     if done then Some (this, token, s)
     else parse_loop (Some (pe_line E)) (Some (pe_rw E)) (Some (pe_blank E)) THIN (pos + 1) state this token s }"

lemma proceed_Some: "proceed E (Some ((pos, state, this, token, done), s)) =
    (if done then Some (this, token, s)
     else parse_loop (Some (pe_line E)) (Some (pe_rw E)) (Some (pe_blank E)) THIN (pos + 1) state this token s)"
  by (simp add: proceed_def)

lemma pinv_own: "pinv E s ts as \<Longrightarrow> \<exists>us. own (pe_s0 E) s (pe_blank E # owned us)"
  by (auto simp: pinv_def)

lemma pinv_facts:
  assumes "pinv E s ts as" and "env_ok E"
  shows "chx_inv s" "sview s (pe_line E) = Some (pe_text E)" "sview s (pe_rw E) = Some (pe_table E)" "sview s (pe_blank E) = Some (pe_bl E)"
    "NUL \<notin> set (pe_bl E)" "blanks s = blanks (pe_s0 E)" "blank_blanks s = pe_bl E" "NUL \<notin> set (pe_text E)"
proof -
  obtain us where o: "own (pe_s0 E) s (pe_blank E # owned us)" using pinv_own [OF assms(1)] by blast
  show "chx_inv s" by (rule own_inv [OF o])
  show "sview s (pe_line E) = Some (pe_text E)" "sview s (pe_rw E) = Some (pe_table E)"
    using own_other [OF o, of "pe_line E"] own_other [OF o, of "pe_rw E"] assms(2) by (simp_all add: env_ok_def)
  then show "NUL \<notin> set (pe_text E)" using live_no_NUL by blast
  show "sview s (pe_blank E) = Some (pe_bl E)" using assms(1) by (auto simp: pinv_def)
  show "NUL \<notin> set (pe_bl E)" using assms(2) by (simp add: env_ok_def table_ready_def)
  show "blanks s = blanks (pe_s0 E)" "blank_blanks s = pe_bl E" using o by (simp_all add: own_def kept_def)
qed

lemma loop_char:
  assumes i: "pinv E s ts as" and e: "env_ok E" and k: "k < length (pe_text E)"
  obtains s1 where "reads s s1" "\<forall>st this. pl E k st this ts s = proceed E (pc E k st this ts s1)"
proof -
  note f = pinv_facts [OF i e]
  let ?c = "pe_text E ! k"
  obtain s1 where s1: "chxvalue (Some (pe_line E)) (int k) s = Some (char_at (pe_text E) (int k), s1)" "reads s s1"
    by (rule chxvalue_reads [OF f(1,2) of_nat_0_le_iff])
  note r1 = readsD [OF s1(2)]
  have "sview s1 (pe_blank E) = Some (pe_bl E)" using f(4) r1(2) by simp
  then obtain s2 where s2: "space_loop (Some (pe_blank E)) (bval ?c) 0 s1 = Some (in_tab (pe_bl E) ?c, s2)" "reads s1 s2"
    using space_loop_ok [OF r1(1), of "pe_blank E" "pe_bl E" 0 ?c] f(5) by (auto simp: in_tab_def)
  have nz: "?c \<noteq> NUL" using f(8) nth_mem [OF k] by metis
  have "pl E k st this ts s = proceed E (pc E k st this ts s2)" for st this
    using s1(1) s2(1) k nz unfolding proceed_def by (subst parse_loop.simps) (simp add: char_at_def)
  then show thesis using that reads_trans [OF s1(2) s2(2)] by blast
qed

lemma loop_end:
  assumes i: "pinv E s ts as" and e: "env_ok E" and k: "length (pe_text E) \<le> k"
  obtains s1 where "reads s s1" "\<forall>st this. pl E k st this ts s = Some (this, ts, s1)"
proof -
  note f = pinv_facts [OF i e]
  obtain s1 where s1: "chxvalue (Some (pe_line E)) (int k) s = Some (char_at (pe_text E) (int k), s1)" "reads s s1"
    by (rule chxvalue_reads [OF f(1,2) of_nat_0_le_iff])
  have "pl E k st this ts s = Some (this, ts, s1)" for st this using s1(1) k by (subst parse_loop.simps) (simp add: char_at_def)
  then show thesis using that s1(2) by blast
qed

definition parsed :: "parse_env \<Rightarrow> nat \<Rightarrow> parse_state \<Rightarrow> chx_state \<Rightarrow> Token list \<Rightarrow> string Token_t list \<Rightarrow> string Token_t list \<Rightarrow> bool" where
  "parsed E k st s ts as res \<longleftrightarrow> (\<exists>ts' s'. pl E k st (int (length as) - 1) ts s = Some (int (length res) - 1, ts', s') \<and> pinv E s' ts' res)"

text \<open>\<open>leads\<close>: from here on, whatever array and store hold the tokens so far, the result is \<open>res\<close>.\<close>

definition leads :: "parse_env \<Rightarrow> nat \<Rightarrow> parse_state \<Rightarrow> string Token_t list \<Rightarrow> string Token_t list \<Rightarrow> bool" where
  "leads E k st as res \<longleftrightarrow> (\<forall>s ts. pinv E s ts as \<longrightarrow> parsed E k st s ts as res)"

lemma leads_end:
  assumes "env_ok E" and "length (pe_text E) \<le> k"
  shows "leads E k st as as"
  unfolding leads_def
proof (intro allI impI)
  fix s ts assume i: "pinv E s ts as"
  obtain s1 where s1: "reads s s1" "\<forall>st this. pl E k st this ts s = Some (this, ts, s1)" by (rule loop_end [OF i assms])
  then show "parsed E k st s ts as as" using pinv_reads [OF i s1(1)] by (auto simp: parsed_def)
qed

lemma leads_char:
  assumes e: "env_ok E" and k: "k < length (pe_text E)"
    and step: "\<And>s ts. pinv E s ts as \<Longrightarrow> \<exists>k' st' as' ts' s'. pc E k st (int (length as) - 1) ts s =
      Some ((int k' - 1, st', int (length as') - 1, ts', False), s') \<and> pinv E s' ts' as' \<and> leads E k' st' as' res"
  shows "leads E k st as res"
  unfolding leads_def
proof (intro allI impI)
  fix s ts assume i: "pinv E s ts as"
  obtain s1 where s1: "reads s s1" "\<forall>st this. pl E k st this ts s = proceed E (pc E k st this ts s1)" by (rule loop_char [OF i e k])
  obtain k' st' as' ts' s' where n: "pc E k st (int (length as) - 1) ts s1 = Some ((int k' - 1, st', int (length as') - 1, ts', False), s')"
      "pinv E s' ts' as'" "leads E k' st' as' res" using step [OF pinv_reads [OF i s1(1)]] by blast
  then show "parsed E k st s ts as res" using s1(2) unfolding leads_def parsed_def by (simp add: proceed_Some)
qed

text \<open>Single characters in \<open>ST_NEW\<close>.\<close>

lemma new_gap:
  assumes "env_ok E" and "k < length (pe_text E)" and "gap (pe_bl E) (pe_text E ! k)" and "leads E (Suc k) ST_NEW as res"
  shows "leads E k ST_NEW as res"
proof (rule leads_char [OF assms(1,2)])
  fix s ts assume i: "pinv E s ts as"
  have "pc E k ST_NEW (int (length as) - 1) ts s = Some ((int (Suc k) - 1, ST_NEW, int (length as) - 1, ts, False), s)"
    using assms(3) by (auto simp: parse_char_def st_new_def gap_def)
  then show "\<exists>k' st' as' ts' s'. pc E k ST_NEW (int (length as) - 1) ts s =
      Some ((int k' - 1, st', int (length as') - 1, ts', False), s') \<and> pinv E s' ts' as' \<and> leads E k' st' as' res"
    using i assms(4) by blast
qed

lemma new_mark_leads:
  assumes "env_ok E" and "k < length (pe_text E)" and "\<not> gap (pe_bl E) (pe_text E ! k)" and n: "length as < pe_max E"
    and c: "pe_text E ! k = CHR ''-'' \<and> ty = T_DASH \<or> pe_text E ! k = CHR '':'' \<and> ty = T_COLON"
    and l: "leads E (Suc k) ST_NEW (as @ [tok ty None 0 (int k)]) res"
  shows "leads E k ST_NEW as res"
proof (rule leads_char [OF assms(1,2)])
  fix s ts assume i: "pinv E s ts as"
  obtain ts' where ts': "tok_upd (\<lambda>t. t\<lparr>t_type := ty, t_pos := int k\<rparr>) (int (length as)) ts = Some ts'" "pinv E s ts' (as @ [tok ty None 0 (int k)])"
    by (rule pinv_snoc [OF i n, of "\<lambda>t. t\<lparr>t_type := ty, t_pos := int k\<rparr>"]) (auto simp: clear_tok_def scan_view_def tview_def tok_def)
  have "pc E k ST_NEW (int (length as) - 1) ts s = Some ((int (Suc k) - 1, ST_NEW, int (length (as @ [tok ty None 0 (int k)])) - 1, ts', False), s)"
    using assms(3) c ts'(1) by (auto simp: parse_char_def st_new_def gap_def new_mark_def)
  then show "\<exists>k' st' as' ts' s'. pc E k ST_NEW (int (length as) - 1) ts s =
      Some ((int k' - 1, st', int (length as') - 1, ts', False), s') \<and> pinv E s' ts' as' \<and> leads E k' st' as' res"
    using ts'(2) l by blast
qed

lemma digit_range: "is_digit c \<longleftrightarrow> bval (CHR ''0'') \<le> bval c \<and> bval c \<le> bval (CHR ''9'')"
  by (simp add: is_digit_def digit_def bval_def)

lemma digit_not: "is_digit c \<Longrightarrow> c \<noteq> CHR ''-'' \<and> c \<noteq> CHR '':'' \<and> c \<noteq> CHR 0x22 \<and> c \<noteq> CHR '',''"
  by (auto simp: is_digit_def digit_def bval_def)

lemma new_digit:
  assumes "env_ok E" and "k < length (pe_text E)" and "\<not> gap (pe_bl E) (pe_text E ! k)" and n: "length as < pe_max E"
    and d: "is_digit (pe_text E ! k)" and l: "leads E (Suc k) ST_NUM (as @ [tok T_NUM None (wrap32 (dval [pe_text E ! k])) (int k)]) res"
  shows "leads E k ST_NEW as res"
proof (rule leads_char [OF assms(1,2)])
  fix s ts assume i: "pinv E s ts as"
  let ?c = "pe_text E ! k" and ?v = "bval (pe_text E ! k) - bval (CHR ''0'')"
  let ?f = "\<lambda>t. t\<lparr>t_type := T_NUM, num0 := ?v, t_pos := int k\<rparr>"
  have "wrap32 (dval [?c]) = dval [?c]" using d by (intro wrap32_id) (auto simp: dval_def is_digit_def digit_def)
  then have v: "wrap32 (dval [?c]) = ?v" by (simp add: dval_def bval_def)
  obtain ts' where ts': "tok_upd ?f (int (length as)) ts = Some ts'" "pinv E s ts' (as @ [tok T_NUM None (wrap32 (dval [?c])) (int k)])"
    by (rule pinv_snoc [OF i n, of ?f]) (auto simp: clear_tok_def scan_view_def tview_def tok_def v)
  have "pc E k ST_NEW (int (length as) - 1) ts s =
      Some ((int (Suc k) - 1, ST_NUM, int (length (as @ [tok T_NUM None (wrap32 (dval [?c])) (int k)])) - 1, ts', False), s)"
    using assms(3) d [unfolded digit_range] digit_not [OF d] ts'(1) by (auto simp: parse_char_def st_new_def gap_def)
  then show "\<exists>k' st' as' ts' s'. pc E k ST_NEW (int (length as) - 1) ts s =
      Some ((int k' - 1, st', int (length as') - 1, ts', False), s') \<and> pinv E s' ts' as' \<and> leads E k' st' as' res"
    using ts'(2) l by blast
qed

lemma new_quote:
  assumes "env_ok E" and "k < length (pe_text E)" and "\<not> gap (pe_bl E) (pe_text E ! k)" and n: "length as < pe_max E"
    and q: "pe_text E ! k = CHR 0x22" and l: "leads E (Suc k) ST_QUOTED (as @ [tok T_DATA (Some []) 0 (int k + 1)]) res"
  shows "leads E k ST_NEW as res"
proof (rule leads_char [OF assms(1,2)])
  fix s ts assume i: "pinv E s ts as"
  obtain ts' s' where s': "new_text T_DATA 40 THIN (int (length as)) (int k + 1) ts s = Some (ts', s')"
      "pinv E s' ts' (as @ [tok T_DATA (Some []) 0 (int k + 1)])" by (rule new_text_ok [OF i n])
  have "\<not> is_digit (CHR 0x22)" by (simp add: is_digit_def digit_def bval_def)
  then have "pc E k ST_NEW (int (length as) - 1) ts s =
      Some ((int (Suc k) - 1, ST_QUOTED, int (length (as @ [tok T_DATA (Some []) 0 (int k + 1)])) - 1, ts', False), s')"
    using assms(3) q s'(1) by (auto simp: parse_char_def st_new_def gap_def digit_range)
  then show "\<exists>k' st' as' ts' s'. pc E k ST_NEW (int (length as) - 1) ts s =
      Some ((int k' - 1, st', int (length as') - 1, ts', False), s') \<and> pinv E s' ts' as' \<and> leads E k' st' as' res"
    using s'(2) l by blast
qed

lemma add_char_ok:
  assumes i: "pinv E s ts (as @ [a])" and a: "t_str a = Some x" and c: "c \<noteq> NUL"
  obtains s' where "add_char THIN (bval c) (int (length as)) ts s = Some s'" "pinv E s' ts (as @ [a\<lparr>t_str := Some (x @ [c])\<rparr>])"
proof -
  obtain t where t: "idx ts (int (length as)) = Some t" "scan_view (sview s) t = a"
    "\<forall>f b. t_str (f t) = t_str t \<and> scan_view (sview s) (f t) = b \<longrightarrow> (\<exists>ts'. tok_upd f (int (length as)) ts = Some ts' \<and> pinv E s ts' (as @ [b]))"
    "\<forall>c y s'. t_str t = Some c \<and> chx_to s ((sview s)(c \<mapsto> y)) s' \<longrightarrow> pinv E s' ts (as @ [a\<lparr>t_str := Some y\<rparr>])"
    "\<forall>c. t_str t = Some c \<longrightarrow> sview s c = t_str a \<and> sview (pe_s0 E) c = None" by (rule pinv_last [OF i])
  obtain d where d: "t_str t = Some d" using t(2) a by (auto simp: scan_view_def tview_def split: option.splits)
  have x: "sview s d = Some x" using t(5) d a by simp
  have inv: "chx_inv s" using pinv_own [OF i] own_inv by blast
  have nz: "byte (bval c) \<noteq> NUL" using c by simp
  obtain s' where s': "chxcatval (Some d) THIN (bval c) s = Some (1, s')" "chx_to s ((sview s)(d \<mapsto> x @ [byte (bval c)])) s'"
    by (rule chxcatval_ok [OF inv x nz])
  have "add_char THIN (bval c) (int (length as)) ts s = Some s'" using t(1) d s'(1) by (simp add: add_char_def)
  then show thesis using that t(4) d s'(2) by simp
qed

lemma new_word:
  assumes e: "env_ok E" and k: "k < length (pe_text E)" and n: "length as < pe_max E"
    and w: "word_char (pe_bl E) (pe_text E ! k)" "\<not> is_digit (pe_text E ! k)"
    and l: "leads E (Suc k) ST_WORD (as @ [tok T_WORD (Some [pe_text E ! k]) 0 (int k)]) res"
  shows "leads E k ST_NEW as res"
proof (rule leads_char [OF e k])
  fix s ts assume i: "pinv E s ts as"
  let ?c = "pe_text E ! k"
  obtain ts' s1 where s1: "new_text T_WORD 40 THIN (int (length as)) (int k) ts s = Some (ts', s1)"
      "pinv E s1 ts' (as @ [tok T_WORD (Some []) 0 (int k)])" by (rule new_text_ok [OF i n])
  have nz: "?c \<noteq> NUL" using pinv_facts(8) [OF i e] nth_mem [OF k] by metis
  obtain s' where s': "add_char THIN (bval ?c) (int (length as)) ts' s1 = Some s'"
      "pinv E s' ts' (as @ [(tok T_WORD (Some []) 0 (int k))\<lparr>t_str := Some ([] @ [?c])\<rparr>])"
    by (rule add_char_ok [OF s1(2) _ nz, of "[]"]) (simp add: tok_def)
  have "pc E k ST_NEW (int (length as) - 1) ts s =
      Some ((int (Suc k) - 1, ST_WORD, int (length (as @ [tok T_WORD (Some [?c]) 0 (int k)])) - 1, ts', False), s')"
    using w s1(1) s'(1) by (auto simp: parse_char_def st_new_def word_char_def gap_def digit_range)
  moreover have "pinv E s' ts' (as @ [tok T_WORD (Some [?c]) 0 (int k)])" using s'(2) by (simp add: tok_def)
  ultimately show "\<exists>k' st' as' ts' s'. pc E k ST_NEW (int (length as) - 1) ts s =
      Some ((int k' - 1, st', int (length as') - 1, ts', False), s') \<and> pinv E s' ts' as' \<and> leads E k' st' as' res"
    using l by blast
qed

text \<open>At the end of the line the state does not matter.\<close>

lemma pinv_unique: "pinv E s ts as \<Longrightarrow> pinv E s ts bs \<Longrightarrow> length as = length bs \<Longrightarrow> as = bs"
  by (auto simp: pinv_def append_eq_append_conv)

lemma leads_past:
  assumes e: "env_ok E" and k: "length (pe_text E) \<le> k" "length (pe_text E) \<le> k'" and l: "leads E k st as res"
  shows "leads E k' st' as res"
  unfolding leads_def
proof (intro allI impI)
  fix s ts assume i: "pinv E s ts as"
  obtain s1 where s1: "reads s s1" "\<forall>st this. pl E k st this ts s = Some (this, ts, s1)" by (rule loop_end [OF i e k(1)])
  obtain ts2 s2 where r: "pl E k st (int (length as) - 1) ts s = Some (int (length res) - 1, ts2, s2)" "pinv E s2 ts2 res"
    using l i unfolding leads_def parsed_def by blast
  have "res = as" using pinv_unique [OF _ pinv_reads [OF i s1(1)], of res] r s1(2) by simp
  then show "parsed E k' st' s ts as res" using leads_end [OF e k(2), of st' as] i unfolding leads_def by blast
qed

lemma leads_same:
  assumes e: "env_ok E" and k: "k < length (pe_text E)" and "\<And>this ts s. pc E k st' this ts s = pc E k st this ts s" and l: "leads E k st as res"
  shows "leads E k st' as res"
  unfolding leads_def
proof (intro allI impI)
  fix s ts assume i: "pinv E s ts as"
  obtain s1 where s1: "\<forall>st this. pl E k st this ts s = proceed E (pc E k st this ts s1)" by (rule loop_char [OF i e k])
  then have "pl E k st' this ts s = pl E k st this ts s" for this using assms(3) by simp
  then show "parsed E k st' s ts as res" using l i unfolding leads_def parsed_def by simp
qed

text \<open>Handing the same character over to another state.\<close>

lemma leads_back:
  assumes "env_ok E" and "k < length (pe_text E)" and "\<And>this ts s. pc E k st this ts s = Some ((int k - 1, st', this, ts, False), s)"
    and "leads E k st' as res"
  shows "leads E k st as res"
  by (rule leads_char [OF assms(1,2)]) (use assms(3,4) in blast)

lemma leads_next:
  assumes "env_ok E" and "k < length (pe_text E)" and "\<And>this ts s. pc E k st this ts s = Some ((int k, st', this, ts, False), s)"
    and "leads E (Suc k) st' as res"
  shows "leads E k st as res"
proof (rule leads_char [OF assms(1,2)])
  fix s ts assume i: "pinv E s ts as"
  have "pc E k st (int (length as) - 1) ts s = Some ((int (Suc k) - 1, st', int (length as) - 1, ts, False), s)" using assms(3) by simp
  then show "\<exists>k' st' as' ts' s'. pc E k st (int (length as) - 1) ts s =
      Some ((int k' - 1, st', int (length as') - 1, ts', False), s') \<and> pinv E s' ts' as' \<and> leads E k' st' as' res"
    using i assms(4) by blast
qed

lemma env_digit: "env_ok E \<Longrightarrow> is_digit c \<Longrightarrow> \<not> gap (pe_bl E) c"
  using digit_not [of c] by (auto simp: env_ok_def blanks_sane_def gap_def in_tab_def)

lemma num_run:
  assumes e: "env_ok E"
    and "leads E (k + length (takeWhile is_digit (drop k (pe_text E)))) ST_NEW
      (as @ [tok T_NUM None (wrap32 (dval (p @ takeWhile is_digit (drop k (pe_text E))))) pos]) res"
  shows "leads E k ST_NUM (as @ [tok T_NUM None (wrap32 (dval p)) pos]) res"
  using assms(2)
proof (induction "length (pe_text E) - k" arbitrary: k p)
  case 0
  then show ?case using leads_past [OF e, of k k] by simp
next
  case (Suc m)
  let ?x = "pe_text E"
  have k: "k < length ?x" using Suc(2) by simp
  have d: "drop k ?x = ?x ! k # drop (Suc k) ?x" using k by (simp add: Cons_nth_drop_Suc)
  consider "is_digit (?x ! k)" | "gap (pe_bl E) (?x ! k)" "\<not> is_digit (?x ! k)" | "\<not> gap (pe_bl E) (?x ! k)" "\<not> is_digit (?x ! k)" by blast
  then show ?case
  proof cases
    case 1
    let ?a = "tok T_NUM None (wrap32 (dval p)) pos" and ?b = "tok T_NUM None (wrap32 (dval (p @ [?x ! k]))) pos"
    let ?f = "\<lambda>t :: Token. t\<lparr>num0 := wrap32 (10 * num0 t + bval (?x ! k) - bval (CHR ''0''))\<rparr>"
    have l: "leads E (Suc k) ST_NUM (as @ [?b]) res"
      by (rule Suc(1)) (use Suc(2,3) 1 d in simp_all)
    show ?thesis
    proof (rule leads_char [OF e k])
      fix s ts assume i: "pinv E s ts (as @ [?a])"
      obtain t where t: "idx ts (int (length as)) = Some t" "scan_view (sview s) t = ?a"
        "\<forall>f b. t_str (f t) = t_str t \<and> scan_view (sview s) (f t) = b \<longrightarrow> (\<exists>ts'. tok_upd f (int (length as)) ts = Some ts' \<and> pinv E s ts' (as @ [b]))"
        "\<forall>c y s'. t_str t = Some c \<and> chx_to s ((sview s)(c \<mapsto> y)) s' \<longrightarrow> pinv E s' ts (as @ [?a\<lparr>t_str := Some y\<rparr>])"
        "\<forall>c. t_str t = Some c \<longrightarrow> sview s c = t_str ?a \<and> sview (pe_s0 E) c = None" by (rule pinv_last [OF i])
      have "wrap32 (10 * wrap32 (dval p) + bval (?x ! k) - bval (CHR ''0'')) = wrap32 (dval (p @ [?x ! k]))"
        using wrap32_mod [of "dval p" 10 "bval (?x ! k) - 48"] by (simp add: dval_snoc mult.commute bval_def algebra_simps)
      then have "scan_view (sview s) (?f t) = ?b" using t(2) by (auto simp: scan_view_def tview_def tok_def)
      then obtain ts' where ts': "tok_upd ?f (int (length as)) ts = Some ts'" "pinv E s ts' (as @ [?b])"
        using t(3) [rule_format, of ?f ?b] by auto
      have "pc E k ST_NUM (int (length (as @ [?a])) - 1) ts s = Some ((int (Suc k) - 1, ST_NUM, int (length (as @ [?b])) - 1, ts', False), s)"
        using 1 env_digit [OF e 1] ts'(1) by (auto simp: parse_char_def st_num_def gap_def digit_range)
      then show "\<exists>k' st' as' ts' s'. pc E k ST_NUM (int (length (as @ [?a])) - 1) ts s =
          Some ((int k' - 1, st', int (length as') - 1, ts', False), s') \<and> pinv E s' ts' as' \<and> leads E k' st' as' res"
        using ts'(2) l by blast
    qed
  next
    case 2
    then show ?thesis using Suc(3) d
      by (intro leads_same [OF e k, of ST_NUM ST_NEW]) (auto simp: parse_char_def st_num_def st_new_def gap_def)
  next
    case 3
    then show ?thesis using Suc(3) d
      by (intro leads_back [OF e k, of ST_NUM ST_NEW]) (auto simp: parse_char_def st_num_def gap_def digit_range)
  qed
qed

lemma quoted_run:
  assumes e: "env_ok E"
    and "leads E (Suc (k + length (takeWhile (\<lambda>d. d \<noteq> CHR 0x22) (drop k (pe_text E))))) ST_NEW
      (as @ [tok T_DATA (Some (u @ takeWhile (\<lambda>d. d \<noteq> CHR 0x22) (drop k (pe_text E)))) 0 pos]) res"
  shows "leads E k ST_QUOTED (as @ [tok T_DATA (Some u) 0 pos]) res"
  using assms(2)
proof (induction "length (pe_text E) - k" arbitrary: k u)
  case 0
  then show ?case using leads_past [OF e, of "Suc k" k] by simp
next
  case (Suc m)
  let ?x = "pe_text E" and ?a = "tok T_DATA (Some u) 0 pos" and ?b = "tok T_DATA (Some (u @ [pe_text E ! k])) 0 pos"
  have k: "k < length ?x" using Suc(2) by simp
  have d: "drop k ?x = ?x ! k # drop (Suc k) ?x" using k by (simp add: Cons_nth_drop_Suc)
  show ?case
  proof (cases "?x ! k = CHR 0x22")
    case True
    then show ?thesis using Suc(3) d by (intro leads_next [OF e k, of ST_QUOTED ST_NEW]) (auto simp: parse_char_def st_quoted_def)
  next
    case False
    have l: "leads E (Suc k) ST_QUOTED (as @ [?b]) res" by (rule Suc(1)) (use Suc(2,3) False d in simp_all)
    show ?thesis
    proof (rule leads_char [OF e k])
      fix s ts assume i: "pinv E s ts (as @ [?a])"
      have nz: "?x ! k \<noteq> NUL" using pinv_facts(8) [OF i e] nth_mem [OF k] by metis
      obtain s' where s': "add_char THIN (bval (?x ! k)) (int (length as)) ts s = Some s'" "pinv E s' ts (as @ [?a\<lparr>t_str := Some (u @ [?x ! k])\<rparr>])"
        by (rule add_char_ok [OF i _ nz, of u]) (simp add: tok_def)
      have "pc E k ST_QUOTED (int (length (as @ [?a])) - 1) ts s = Some ((int (Suc k) - 1, ST_QUOTED, int (length (as @ [?b])) - 1, ts, False), s')"
        using False s'(1) by (simp add: parse_char_def st_quoted_def)
      moreover have "pinv E s' ts (as @ [?b])" using s'(2) by (simp add: tok_def)
      ultimately show "\<exists>k' st' as' ts' s'. pc E k ST_QUOTED (int (length (as @ [?a])) - 1) ts s =
          Some ((int k' - 1, st', int (length as') - 1, ts', False), s') \<and> pinv E s' ts' as' \<and> leads E k' st' as' res"
        using l by blast
    qed
  qed
qed

lemma word_run:
  assumes e: "env_ok E"
    and "k' = k + length (takeWhile (word_char (pe_bl E)) (drop k (pe_text E)))"
    and "leads E k' (if k' < length (pe_text E) \<and> pe_text E ! k' = CHR 0x22 then ST_NEW else ST_REST)
      (as @ [tok T_WORD (Some (u @ takeWhile (word_char (pe_bl E)) (drop k (pe_text E)))) 0 pos]) res"
  shows "leads E k ST_WORD (as @ [tok T_WORD (Some u) 0 pos]) res"
  using assms(2,3)
proof (induction "length (pe_text E) - k" arbitrary: k u)
  case 0
  then show ?case using leads_past [OF e, of k k] by simp
next
  case (Suc m)
  let ?x = "pe_text E" and ?a = "tok T_WORD (Some u) 0 pos" and ?b = "tok T_WORD (Some (u @ [pe_text E ! k])) 0 pos"
  have k: "k < length ?x" using Suc(2) by simp
  have d: "drop k ?x = ?x ! k # drop (Suc k) ?x" using k by (simp add: Cons_nth_drop_Suc)
  show ?case
  proof (cases "word_char (pe_bl E) (?x ! k)")
    case False
    then have k': "k' = k" and l: "leads E k (if ?x ! k = CHR 0x22 then ST_NEW else ST_REST) (as @ [?a]) res" using Suc(3,4) d k by simp_all
    show ?thesis
    proof (cases "?x ! k = CHR 0x22 \<and> \<not> gap (pe_bl E) (?x ! k)")
      case True
      then show ?thesis using l by (intro leads_back [OF e k, of ST_WORD ST_NEW]) (auto simp: parse_char_def st_word_def gap_def)
    next
      case nq: False
      have "\<not> gap (pe_bl E) (CHR 0x22)" using e by (auto simp: env_ok_def blanks_sane_def gap_def in_tab_def)
      then have "?x ! k \<noteq> CHR 0x22" using nq by metis
      then show ?thesis using l False by (intro leads_back [OF e k, of ST_WORD ST_REST]) (auto simp: parse_char_def st_word_def word_char_def gap_def)
    qed
  next
    case True
    have l: "leads E (Suc k) ST_WORD (as @ [?b]) res" by (rule Suc(1)) (use Suc(2-4) True d in simp_all)
    show ?thesis
    proof (rule leads_char [OF e k])
      fix s ts assume i: "pinv E s ts (as @ [?a])"
      have nz: "?x ! k \<noteq> NUL" using pinv_facts(8) [OF i e] nth_mem [OF k] by metis
      obtain s' where s': "add_char THIN (bval (?x ! k)) (int (length as)) ts s = Some s'" "pinv E s' ts (as @ [?a\<lparr>t_str := Some (u @ [?x ! k])\<rparr>])"
        by (rule add_char_ok [OF i _ nz, of u]) (simp add: tok_def)
      have "pc E k ST_WORD (int (length (as @ [?a])) - 1) ts s = Some ((int (Suc k) - 1, ST_WORD, int (length (as @ [?b])) - 1, ts, False), s')"
        using True s'(1) by (auto simp: parse_char_def st_word_def word_char_def gap_def)
      moreover have "pinv E s' ts (as @ [?b])" using s'(2) by (simp add: tok_def)
      ultimately show "\<exists>k' st' as' ts' s'. pc E k ST_WORD (int (length (as @ [?a])) - 1) ts s =
          Some ((int k' - 1, st', int (length as') - 1, ts', False), s') \<and> pinv E s' ts' as' \<and> leads E k' st' as' res"
        using l by blast
    qed
  qed
qed

definition clean :: "string \<Rightarrow> string \<Rightarrow> bool" where
  "clean bl w \<longleftrightarrow> (\<forall>d \<in> set w. \<not> in_tab bl d \<and> d \<noteq> CHR ''/'')"

abbreviation pe_lk :: "parse_env \<Rightarrow> string \<Rightarrow> int" where
  "pe_lk E \<equiv> look_up (pe_bl E) (pe_table E)"

lemma rest_look_up:
  assumes i: "pinv E s ts (as @ [tok T_WORD (Some w) 0 pos])" and e: "env_ok E" and w: "clean (pe_bl E) w"
  obtains t s' where "idx ts (int (length as)) = Some t" "tablematch (Some (pe_rw E)) (t_str t) s = Some (pe_lk E w, s')" "reads s s'"
proof -
  let ?a = "tok T_WORD (Some w) 0 pos"
  obtain t where t: "idx ts (int (length as)) = Some t" "scan_view (sview s) t = ?a"
    "\<forall>f b. t_str (f t) = t_str t \<and> scan_view (sview s) (f t) = b \<longrightarrow> (\<exists>ts'. tok_upd f (int (length as)) ts = Some ts' \<and> pinv E s ts' (as @ [b]))"
    "\<forall>c y s'. t_str t = Some c \<and> chx_to s ((sview s)(c \<mapsto> y)) s' \<longrightarrow> pinv E s' ts (as @ [?a\<lparr>t_str := Some y\<rparr>])"
    "\<forall>c. t_str t = Some c \<longrightarrow> sview s c = t_str ?a \<and> sview (pe_s0 E) c = None" by (rule pinv_last [OF i])
  obtain c where c: "t_str t = Some c" using t(2) by (auto simp: scan_view_def tview_def tok_def split: option.splits)
  have x: "sview s c = Some w" using t(5) c by (simp add: tok_def)
  note f = pinv_facts [OF i e]
  have b: "blanks s \<noteq> None" "NUL \<notin> set (blank_blanks s)" "CHR ''/'' \<notin> set (blank_blanks s)"
    using f(6,7) e by (simp_all add: env_ok_def table_ready_def)
  have "\<forall>d \<in> set w. \<not> in_tab (blank_blanks s) d \<and> d \<noteq> CHR ''/''" using w f(7) by (simp add: clean_def)
  then obtain s' where "tablematch (Some (pe_rw E)) (Some c) s =
      Some (if w = [] then -1 else match_result w (entry_words (blank_blanks s) (pe_table E)), s')" "reads s s'"
    by (rule tablematch_ok [OF f(1) b f(3) x])
  then show thesis using that t(1) c f(7) by (simp add: look_up_def)
qed

lemma rest_data:
  assumes e: "env_ok E" and k: "k < length (pe_text E)" and c: "\<not> gap (pe_bl E) (pe_text E ! k)" "pe_text E ! k \<noteq> CHR 0x22"
    and w: "clean (pe_bl E) w" "0 \<le> pe_lk E w" and n: "Suc (length as) < pe_max E"
  shows "leads E k ST_REST (as @ [tok T_WORD (Some w) 0 pos]) (as @ [tok T_WORD (Some w) 0 pos, tok T_DATA (Some (drop k (pe_text E))) 0 (int k)])"
  unfolding leads_def
proof (intro allI impI)
  let ?x = "pe_text E" and ?a = "tok T_WORD (Some w) 0 pos" and ?d = "tok T_DATA (Some []) 0 (int k)"
  fix s ts assume i: "pinv E s ts (as @ [?a])"
  obtain s1 where s1: "reads s s1" "\<forall>st this. pl E k st this ts s = proceed E (pc E k st this ts s1)" by (rule loop_char [OF i e k])
  note i1 = pinv_reads [OF i s1(1)]
  obtain t s2 where s2: "idx ts (int (length as)) = Some t" "tablematch (Some (pe_rw E)) (t_str t) s1 = Some (pe_lk E w, s2)" "reads s1 s2"
    by (rule rest_look_up [OF i1 e w(1)])
  note i2 = pinv_reads [OF i1 s2(3)]
  have n': "length (as @ [?a]) < pe_max E" using n by simp
  obtain ts' s3 where s3: "new_text T_DATA 80 THIN (int (length (as @ [?a]))) (int k) ts s2 = Some (ts', s3)" "pinv E s3 ts' ((as @ [?a]) @ [?d])"
    by (rule new_text_ok [OF i2 n'])
  obtain u where u: "idx ts' (int (length (as @ [?a]))) = Some u" "scan_view (sview s3) u = ?d"
    "\<forall>f b. t_str (f u) = t_str u \<and> scan_view (sview s3) (f u) = b \<longrightarrow> (\<exists>ts''. tok_upd f (int (length (as @ [?a]))) ts' = Some ts'' \<and> pinv E s3 ts'' ((as @ [?a]) @ [b]))"
    "\<forall>c y s'. t_str u = Some c \<and> chx_to s3 ((sview s3)(c \<mapsto> y)) s' \<longrightarrow> pinv E s' ts' ((as @ [?a]) @ [?d\<lparr>t_str := Some y\<rparr>])"
    "\<forall>c. t_str u = Some c \<longrightarrow> sview s3 c = t_str ?d \<and> sview (pe_s0 E) c = None" by (rule pinv_last [OF s3(2)])
  obtain c' where c': "t_str u = Some c'" using u(2) by (auto simp: scan_view_def tview_def tok_def split: option.splits)
  note f = pinv_facts [OF s3(2) e]
  have x: "sview s3 c' = Some []" "c' \<noteq> pe_line E" using u(5) c' e by (auto simp: tok_def env_ok_def)
  obtain s4 where s4: "chxcatsub (Some c') (Some (pe_line E)) (int k) ALLCHARS s3 = Some (1, s4)"
      "chx_to s3 ((sview s3)(c' \<mapsto> [] @ sub_of ?x (int k) ALLCHARS)) s4"
    by (rule chxcatsub_ok [OF f(1) x(1) f(2) x(2)])
  have "pinv E s4 ts' (as @ [?a, tok T_DATA (Some (drop k ?x)) 0 (int k)])"
    using u(4) c' s4(2) by (simp add: sub_of_def tok_def)
  moreover have "pl E k ST_REST (int (length (as @ [?a])) - 1) ts s = Some (int (length (as @ [?a, tok T_DATA (Some (drop k ?x)) 0 (int k)])) - 1, ts', s4)"
    using s1(2) c s2(1,2) w(2) s3(1) u(1) c' s4(1) by (auto simp: parse_char_def st_rest_def gap_def proceed_Some add.commute)
  ultimately show "parsed E k ST_REST s ts (as @ [?a]) (as @ [?a, tok T_DATA (Some (drop k ?x)) 0 (int k)])"
    unfolding parsed_def by blast
qed

lemma rest_run:
  assumes e: "env_ok E" and w: "clean (pe_bl E) w"
    and "k' = k + length (takeWhile (gap (pe_bl E)) (drop k (pe_text E)))"
    and "k' < length (pe_text E) \<Longrightarrow> pe_text E ! k' \<noteq> CHR 0x22 \<Longrightarrow> 0 \<le> pe_lk E w \<Longrightarrow>
      Suc (length as) < pe_max E \<and> res = as @ [tok T_WORD (Some w) 0 pos, tok T_DATA (Some (drop k' (pe_text E))) 0 (int k')]"
    and "\<not> (k' < length (pe_text E) \<and> pe_text E ! k' \<noteq> CHR 0x22 \<and> 0 \<le> pe_lk E w) \<Longrightarrow> leads E k' ST_NEW (as @ [tok T_WORD (Some w) 0 pos]) res"
  shows "leads E k ST_REST (as @ [tok T_WORD (Some w) 0 pos]) res"
  using assms(3-5)
proof (induction "length (pe_text E) - k" arbitrary: k)
  case 0
  have k: "length (pe_text E) \<le> k" and k': "k' = k" using 0(1,2) by simp_all
  have "leads E k ST_NEW (as @ [tok T_WORD (Some w) 0 pos]) res" using 0(4) k k' by simp
  then show ?case by (rule leads_past [OF e k k])
next
  case (Suc m)
  let ?x = "pe_text E" and ?a = "tok T_WORD (Some w) 0 pos"
  have k: "k < length ?x" using Suc(2) by simp
  have d: "drop k ?x = ?x ! k # drop (Suc k) ?x" using k by (simp add: Cons_nth_drop_Suc)
  show ?case
  proof (cases "gap (pe_bl E) (?x ! k)")
    case True
    have "leads E (Suc k) ST_REST (as @ [?a]) res" by (rule Suc(1)) (use Suc(2-5) True d in simp_all)
    then show ?thesis using True by (intro leads_next [OF e k, of ST_REST ST_REST]) (auto simp: parse_char_def st_rest_def gap_def)
  next
    case False
    then have k': "k' = k" using Suc(3) d by simp
    show ?thesis
    proof (cases "?x ! k = CHR 0x22")
      case True
      then have "leads E k ST_NEW (as @ [?a]) res" using Suc(5) k' by simp
      then show ?thesis using True False by (intro leads_back [OF e k, of ST_REST ST_NEW]) (auto simp: parse_char_def st_rest_def gap_def)
    next
      case nq: False
      show ?thesis
      proof (cases "0 \<le> pe_lk E w")
        case True
        then have r: "Suc (length as) < pe_max E" "res = as @ [?a, tok T_DATA (Some (drop k ?x)) 0 (int k)]" using Suc(4) k' k nq by simp_all
        then show ?thesis using rest_data [OF e k False nq w True r(1)] by simp
      next
        case neg: False
        have l: "leads E k ST_NEW (as @ [?a]) res" using Suc(5) k' neg by simp
        show ?thesis
        proof (rule leads_char [OF e k])
          fix s ts assume i: "pinv E s ts (as @ [?a])"
          obtain t s' where s': "idx ts (int (length as)) = Some t" "tablematch (Some (pe_rw E)) (t_str t) s = Some (pe_lk E w, s')" "reads s s'"
            by (rule rest_look_up [OF i e w])
          have g: "\<not> (bval (?x ! k) = bval (CHR '','') \<or> in_tab (pe_bl E) (?x ! k))" "bval (?x ! k) \<noteq> bval (CHR 0x22)"
            using False nq by (simp_all add: gap_def)
          have "pc E k ST_REST (int (length (as @ [?a])) - 1) ts s = Some ((int k - 1, ST_NEW, int (length (as @ [?a])) - 1, ts, False), s')"
            using s'(1,2) neg unfolding parse_char_def parse_state.case st_rest_def if_not_P [OF g(1)] if_not_P [OF g(2)] by simp
          then show "\<exists>k' st' as' ts' s'. pc E k ST_REST (int (length (as @ [?a])) - 1) ts s =
              Some ((int k' - 1, st', int (length as') - 1, ts', False), s') \<and> pinv E s' ts' as' \<and> leads E k' st' as' res"
            using l pinv_reads [OF i s'(3)] by blast
        qed
      qed
    qed
  qed
qed

text \<open>From a new token on, the machine produces \<open>toks\<close>.\<close>

lemma word_leads:
  assumes e: "env_ok E" and k: "k < length (pe_text E)" and n: "length as < pe_max E"
    and c: "word_char (pe_bl E) (pe_text E ! k)" "\<not> is_digit (pe_text E ! k)"
    and w: "w = takeWhile (word_char (pe_bl E)) (drop (Suc k) (pe_text E))"
    and k': "k' = Suc k + length w + length (takeWhile (gap (pe_bl E)) (drop (Suc k + length w) (pe_text E)))"
    and data: "k' < length (pe_text E) \<Longrightarrow> pe_text E ! k' \<noteq> CHR 0x22 \<Longrightarrow> 0 \<le> pe_lk E (pe_text E ! k # w) \<Longrightarrow>
      Suc (length as) < pe_max E \<and> res = as @ [tok T_WORD (Some (pe_text E ! k # w)) 0 (int k), tok T_DATA (Some (drop k' (pe_text E))) 0 (int k')]"
    and more: "\<not> (k' < length (pe_text E) \<and> pe_text E ! k' \<noteq> CHR 0x22 \<and> 0 \<le> pe_lk E (pe_text E ! k # w)) \<Longrightarrow>
      leads E k' ST_NEW (as @ [tok T_WORD (Some (pe_text E ! k # w)) 0 (int k)]) res"
  shows "leads E k ST_NEW as res"
proof -
  let ?x = "pe_text E" and ?c = "pe_text E ! k" and ?k1 = "Suc k + length w"
  have nq: "\<not> gap (pe_bl E) (CHR 0x22)" using e by (auto simp: env_ok_def blanks_sane_def gap_def in_tab_def)
  have "set (?c # w) \<subseteq> set ?x" using k unfolding w by (auto dest!: set_takeWhileD in_set_dropD)
  moreover have "word_char (pe_bl E) d" if "d \<in> set (?c # w)" for d using that c(1) unfolding w by (auto dest: set_takeWhileD)
  ultimately have cl: "clean (pe_bl E) (?c # w)" using e unfolding clean_def env_ok_def word_char_def gap_def by blast
  have "leads E ?k1 (if ?k1 < length ?x \<and> ?x ! ?k1 = CHR 0x22 then ST_NEW else ST_REST) (as @ [tok T_WORD (Some ([?c] @ w)) 0 (int k)]) res"
  proof (cases "?k1 < length ?x \<and> ?x ! ?k1 = CHR 0x22")
    case True
    then have "drop ?k1 ?x = CHR 0x22 # drop (Suc ?k1) ?x" by (metis Cons_nth_drop_Suc)
    then have "k' = ?k1" using k' nq by simp
    then show ?thesis using more True by simp
  next
    case False
    have "leads E ?k1 ST_REST (as @ [tok T_WORD (Some (?c # w)) 0 (int k)]) res"
      by (rule rest_run [OF e cl k' data more])
    then show ?thesis unfolding if_not_P [OF False] by simp
  qed
  then have "leads E (Suc k) ST_WORD (as @ [tok T_WORD (Some [?c]) 0 (int k)]) res"
    by (intro word_run [OF e, of ?k1]) (simp_all add: w)
  then show ?thesis by (rule new_word [OF e k n c])
qed

lemma toks_leads:
  assumes e: "env_ok E" and "k \<le> length (pe_text E)"
    and "length as + length (toks (pe_lk E) (pe_bl E) (int k) (drop k (pe_text E))) < pe_max E"
  shows "leads E k ST_NEW as (as @ toks (pe_lk E) (pe_bl E) (int k) (drop k (pe_text E)))"
  using assms(2,3)
proof (induction "length (pe_text E) - k" arbitrary: k as rule: less_induct)
  case less
  let ?x = "pe_text E" and ?c = "pe_text E ! k" and ?bl = "pe_bl E" and ?T = "\<lambda>k. toks (pe_lk E) (pe_bl E) (int k) (drop k (pe_text E))"
  show ?case
  proof (cases "k = length ?x")
    case True
    then show ?thesis using leads_end [OF e] by simp
  next
    case False
    then have k: "k < length ?x" using less.prems by simp
    have d: "drop k ?x = ?c # drop (Suc k) ?x" using k by (simp add: Cons_nth_drop_Suc)
    have ih: "leads E k1 ST_NEW bs (bs @ ?T k1)" if "k < k1" "length bs + length (?T k1) < pe_max E" for k1 bs
    proof (cases "k1 \<le> length ?x")
      case True
      show ?thesis by (rule less.hyps [OF _ True that(2)]) (use k that(1) True in simp)
    next
      case False
      then show ?thesis using leads_end [OF e, of k1] by simp
    qed
    consider (gap) "gap ?bl ?c" | (mark) ty where "\<not> gap ?bl ?c" "?c = CHR ''-'' \<and> ty = T_DASH \<or> ?c = CHR '':'' \<and> ty = T_COLON"
      | (digit) "\<not> gap ?bl ?c" "is_digit ?c" | (quote) "\<not> gap ?bl ?c" "?c = CHR 0x22" | (word) "word_char ?bl ?c" "\<not> is_digit ?c"
      unfolding word_char_def by blast
    then show ?thesis
    proof cases
      case gap
      then have t: "?T k = ?T (Suc k)" by (simp add: d toks.simps(2) add.commute)
      have "leads E (Suc k) ST_NEW as (as @ ?T (Suc k))" using ih [of "Suc k" as] less.prems(2) t by simp
      then show ?thesis unfolding t by (rule new_gap [OF e k gap])
    next
      case (mark ty)
      then have t: "?T k = tok ty None 0 (int k) # ?T (Suc k)" unfolding d toks.simps(2) by (elim disjE conjE) (simp_all add: add.commute)
      have "leads E (Suc k) ST_NEW (as @ [tok ty None 0 (int k)]) ((as @ [tok ty None 0 (int k)]) @ ?T (Suc k))"
        using ih [of "Suc k" "as @ [tok ty None 0 (int k)]"] less.prems(2) t by simp
      then show ?thesis unfolding t using new_mark_leads [OF e k mark(1) _ mark(2)] less.prems(2) t by simp
    next
      case digit
      let ?ds = "takeWhile is_digit (drop (Suc k) ?x)"
      let ?a = "tok T_NUM None (wrap32 (dval (?c # ?ds))) (int k)" and ?k1 = "Suc k + length ?ds"
      have t: "?T k = ?a # ?T ?k1" using digit digit_not [OF digit(2)] by (simp add: d toks.simps(2) Let_def add.commute add.left_commute)
      have "leads E ?k1 ST_NEW (as @ [?a]) ((as @ [?a]) @ ?T ?k1)" using ih [of ?k1 "as @ [?a]"] less.prems(2) t by simp
      then have "leads E (Suc k) ST_NUM (as @ [tok T_NUM None (wrap32 (dval [?c])) (int k)]) (as @ ?T k)" unfolding t
        by (intro num_run [OF e, of _ _ "[?c]"]) simp
      then show ?thesis using new_digit [OF e k digit(1) _ digit(2)] less.prems(2) t by simp
    next
      case quote
      let ?q = "takeWhile (\<lambda>d. d \<noteq> CHR 0x22) (drop (Suc k) ?x)"
      let ?a = "tok T_DATA (Some ?q) 0 (int k + 1)" and ?k1 = "Suc (Suc k + length ?q)"
      have "\<not> is_digit (CHR 0x22)" by (simp add: is_digit_def digit_def bval_def)
      then have t: "?T k = ?a # ?T ?k1" using quote by (simp add: d toks.simps(2) Let_def add.commute add.left_commute)
      have "leads E ?k1 ST_NEW (as @ [?a]) ((as @ [?a]) @ ?T ?k1)" using ih [of ?k1 "as @ [?a]"] less.prems(2) t by simp
      then have "leads E (Suc k) ST_QUOTED (as @ [tok T_DATA (Some []) 0 (int k + 1)]) (as @ ?T k)" unfolding t
        by (intro quoted_run [OF e]) simp
      then show ?thesis using new_quote [OF e k quote(1) _ quote(2)] less.prems(2) t by simp
    next
      case word
      define w where "w = takeWhile (word_char ?bl) (drop (Suc k) ?x)"
      define k' where "k' = Suc k + length w + length (takeWhile (gap ?bl) (drop (Suc k + length w) ?x))"
      let ?a = "tok T_WORD (Some (?c # w)) 0 (int k)"
      have t: "?T k = ?a # (if drop k' ?x \<noteq> [] \<and> hd (drop k' ?x) \<noteq> CHR 0x22 \<and> 0 \<le> pe_lk E (?c # w)
          then [tok T_DATA (Some (drop k' ?x)) 0 (int k')] else ?T k')"
      proof -
        have z: "drop (length (takeWhile (gap ?bl) (drop (length w) (drop (Suc k) ?x)))) (drop (length w) (drop (Suc k) ?x)) = drop k' ?x"
          by (simp add: k'_def add.commute add.left_commute)
        have p: "int k + 1 + int (length w) + int (length (takeWhile (gap ?bl) (drop (length w) (drop (Suc k) ?x)))) = int k'"
          by (simp add: k'_def add.commute)
        have f: "gap ?bl ?c = False" "(?c = CHR ''-'') = False" "(?c = CHR '':'') = False" "is_digit ?c = False" "(?c = CHR 0x22) = False"
          using word by (simp_all add: word_char_def)
        show ?thesis unfolding d toks.simps(2) Let_def w_def [symmetric] z p f if_False by (rule refl)
      qed
      have h: "k' < length ?x \<Longrightarrow> hd (drop k' ?x) = ?x ! k'" by (rule hd_drop_conv_nth)
      show ?thesis
      proof (rule word_leads [OF e k _ word w_def k'_def])
        show "length as < pe_max E" using less.prems(2) t by simp
        show "Suc (length as) < pe_max E \<and> as @ ?T k = as @ [?a, tok T_DATA (Some (drop k' ?x)) 0 (int k')]"
          if "k' < length ?x" "?x ! k' \<noteq> CHR 0x22" "0 \<le> pe_lk E (?c # w)" using less.prems(2) t h that by simp
        show "leads E k' ST_NEW (as @ [?a]) (as @ ?T k)" if "\<not> (k' < length ?x \<and> ?x ! k' \<noteq> CHR 0x22 \<and> 0 \<le> pe_lk E (?c # w))"
        proof -
          have t': "?T k = ?a # ?T k'" using t h that by auto
          have "k < k'" by (simp add: k'_def)
          then show ?thesis using ih [of k' "as @ [?a]"] less.prems(2) t' by simp
        qed
      qed
    qed
  qed
qed

section \<open>The whole routine\<close>

lemma copy_num1_ok:
  assumes "t_type e = T_END"
  shows "\<forall>t \<in> set us. t_type t \<noteq> T_END \<Longrightarrow>
    copy_num1 (int (length pre)) (pre @ us @ e # rest) = Some (pre @ map (\<lambda>t. t\<lparr>num1 := num0 t\<rparr>) us @ e # rest)"
proof (induction us arbitrary: pre)
  case Nil
  then show ?case using assms by (subst copy_num1.simps) simp
next
  case (Cons t us)
  have "copy_num1 (int (length pre)) (pre @ (t # us) @ e # rest) =
      copy_num1 (int (length (pre @ [t\<lparr>num1 := num0 t\<rparr>]))) ((pre @ [t\<lparr>num1 := num0 t\<rparr>]) @ us @ e # rest)"
    using Cons.prems by (subst copy_num1.simps) (simp add: add.commute)
  also have "\<dots> = Some ((pre @ [t\<lparr>num1 := num0 t\<rparr>]) @ map (\<lambda>t. t\<lparr>num1 := num0 t\<rparr>) us @ e # rest)"
    by (rule Cons.IH) (use Cons.prems in simp)
  finally show ?case by simp
qed

lemma scan_view_num1: "scan_view m t = tview m (t\<lparr>num1 := num0 t\<rparr>)"
  by (simp add: scan_view_def tview_def)

lemma owned_num1: "owned (map (\<lambda>t. t\<lparr>num1 := num0 t\<rparr>) us) = owned us"
  by (induction us) (auto split: option.splits)

lemma tok_fields [simp]: "t_type (tok ty x n p) = ty" "t_str (tok ty x n p) = x" "num0 (tok ty x n p) = n" "num1 (tok ty x n p) = n"
    "hascolon (tok ty x n p) = 0" "t_pos (tok ty x n p) = p"
  by (simp_all add: tok_def)

text \<open>What every token of a line satisfies.\<close>

lemma toks_all:
  assumes "\<And>p. P (tok T_DASH None 0 p)" and "\<And>p. P (tok T_COLON None 0 p)" and "\<And>n p. P (tok T_NUM None n p)"
    and "\<And>x p. P (tok T_DATA (Some x) 0 p)" and "\<And>w p. w \<noteq> [] \<Longrightarrow> \<forall>c \<in> set w. \<not> gap bl c \<and> c \<in> set y \<Longrightarrow> P (tok T_WORD (Some w) 0 p)"
  shows "t \<in> set (toks lk bl pos y) \<Longrightarrow> P t"
  using assms(5)
proof (induction lk bl pos y rule: toks.induct)
  case (1 lk bl pos)
  then show ?case by simp
next
  case (2 lk bl pos c y)
  have sub: "set (drop n y) \<subseteq> set (c # y)" for n using set_drop_subset [of n y] by auto
  have tw: "set (takeWhile Q y) \<subseteq> set (c # y)" for Q by (auto dest: set_takeWhileD)
  have word: "\<forall>d \<in> set (c # takeWhile (word_char bl) y). \<not> gap bl d \<and> d \<in> set (c # y)" if "\<not> gap bl c"
    using that tw by (auto simp: word_char_def dest: set_takeWhileD)
  have mono: "P (tok T_WORD (Some w) 0 p)" if "w \<noteq> []" "\<forall>d \<in> set w. \<not> gap bl d \<and> d \<in> set (drop n y)" for w p n
    using that sub [of n] "2.prems"(2) [of w p] by blast
  have mono0: "P (tok T_WORD (Some w) 0 p)" if "w \<noteq> []" "\<forall>d \<in> set w. \<not> gap bl d \<and> d \<in> set y" for w p
    using mono [of w 0 p] that by simp
  show ?case
  proof (cases "gap bl c")
    case True
    then show ?thesis using "2.IH"(1) "2.prems"(1) mono0 by (simp add: toks.simps(2))
  next
    case g: False
    show ?thesis
    proof (cases "c = CHR ''-'' \<or> c = CHR '':''")
      case True
      then show ?thesis using g "2.IH"(2,3) "2.prems"(1) mono0 assms(1,2) by (auto simp: toks.simps(2))
    next
      case m: False
      show ?thesis
      proof (cases "is_digit c")
        case True
        then show ?thesis using g m "2.IH"(4) [OF g _ _ True refl] "2.prems"(1) mono assms(3) by (auto simp: toks.simps(2) Let_def)
      next
        case d: False
        show ?thesis
        proof (cases "c = CHR 0x22")
          case True
          then show ?thesis using g m d "2.IH"(5) [OF g _ _ d True refl] "2.prems"(1) mono assms(4) by (auto simp: toks.simps(2) Let_def)
        next
          case q: False
          let ?w = "takeWhile (word_char bl) y" and ?z = "drop (length (takeWhile (word_char bl) y)) y"
          let ?z' = "drop (length (takeWhile (gap bl) ?z)) ?z" and ?p = "pos + 1 + int (length ?w) + int (length (takeWhile (gap bl) ?z))"
          have "t = tok T_WORD (Some (c # ?w)) 0 pos \<or> t = tok T_DATA (Some ?z') 0 ?p \<or>
              \<not> (?z' \<noteq> [] \<and> hd ?z' \<noteq> CHR 0x22 \<and> 0 \<le> lk (c # ?w)) \<and> t \<in> set (toks lk bl ?p ?z')"
            using "2.prems"(1) g m d q by (auto simp: toks.simps(2) Let_def split: if_splits)
          then show ?thesis
          proof (elim disjE conjE)
            assume "t = tok T_WORD (Some (c # ?w)) 0 pos" then show ?thesis using "2.prems"(2) [OF _ word [OF g]] by simp
          next
            assume "t = tok T_DATA (Some ?z') 0 ?p" then show ?thesis using assms(4) by simp
          next
            assume a: "\<not> (?z' \<noteq> [] \<and> hd ?z' \<noteq> CHR 0x22 \<and> 0 \<le> lk (c # ?w))" "t \<in> set (toks lk bl ?p ?z')"
            show ?thesis
              by (rule "2.IH"(6) [OF g _ _ d q refl refl refl refl refl a])
                 (use m mono [of _ "length ?w + length (takeWhile (gap bl) ?z)"] in \<open>auto simp: add.commute\<close>)
          qed
        qed
      qed
    qed
  qed
qed

lemma toks_types: "t \<in> set (toks lk bl pos y) \<Longrightarrow> t_type t \<noteq> T_END"
  by (rule toks_all [where P = "\<lambda>t. t_type t \<noteq> T_END"]) auto

lemma toks_texts: "texts_ok (toks lk bl pos y)"
  unfolding texts_ok_def
proof
  fix t assume t: "t \<in> set (toks lk bl pos y)"
  show "t_type t = T_WORD \<or> t_type t = T_DATA \<longrightarrow> t_str t \<noteq> None"
    by (rule toks_all [where P = "\<lambda>t. t_type t = T_WORD \<or> t_type t = T_DATA \<longrightarrow> t_str t \<noteq> None", OF _ _ _ _ _ t]) auto
qed

lemma toks_words:
  assumes "CHR ''/'' \<notin> set y"
  shows "words_ok bl (toks lk bl pos y)"
  unfolding words_ok_def
proof
  fix t assume t: "t \<in> set (toks lk bl pos y)"
  show "t_type t = T_WORD \<longrightarrow> (\<exists>w. t_str t = Some w \<and> (\<forall>c \<in> set w. \<not> in_tab bl c \<and> c \<noteq> CHR ''/''))"
    by (rule toks_all [where P = "\<lambda>t. t_type t = T_WORD \<longrightarrow> (\<exists>w. t_str t = Some w \<and> (\<forall>c \<in> set w. \<not> in_tab bl c \<and> c \<noteq> CHR ''/''))", OF _ _ _ _ _ t])
       (use assms in \<open>auto simp: gap_def\<close>)
qed

text \<open>What the selection language needs of the store: registered blanks that do not clash with its characters.\<close>

definition select_ready :: "chx_state \<Rightarrow> bool" where
  "select_ready s \<longleftrightarrow> chx_inv s \<and> table_ready s \<and> blanks_sane (blank_blanks s) \<and>
     (\<exists>z. blanks s = Some z \<and> sview s z = Some (blank_blanks s))"

definition env_of :: "chx_state \<Rightarrow> nat \<Rightarrow> string \<Rightarrow> nat \<Rightarrow> string \<Rightarrow> nat \<Rightarrow> nat \<Rightarrow> parse_env" where
  "env_of s l x rw y b n = \<lparr>pe_s0 = s, pe_line = l, pe_text = x, pe_rw = rw, pe_table = y, pe_blank = b, pe_max = n\<rparr>"

lemma env_of_simps [simp]:
  "pe_s0 (env_of s l x rw y b n) = s" "pe_line (env_of s l x rw y b n) = l" "pe_text (env_of s l x rw y b n) = x"
  "pe_rw (env_of s l x rw y b n) = rw" "pe_table (env_of s l x rw y b n) = y" "pe_blank (env_of s l x rw y b n) = b"
  "pe_max (env_of s l x rw y b n) = n"
  by (simp_all add: env_of_def)

text \<open>The first lines of \<open>parse2_tokens\<close>.\<close>

lemma parse_start:
  assumes r: "select_ready s" and l: "sview s l = Some x" and w: "sview s rw = Some y" and sl: "CHR ''/'' \<notin> set x"
  obtains b s1 s2 where "chxalloc 20 THIN ''parse2to blankstr'' s = (b, s1)" "chxspecial SC_GET SC_BLANK (Some b) s1 = Some (1, s2)"
    "chxtype (Some l) s2 = Some (THIN, s2)" "env_ok (env_of s l x rw y b (length old))" "pinv (env_of s l x rw y b (length old)) s2 (clear_tokens old) []"
proof -
  obtain z where z: "blanks s = Some z" "sview s z = Some (blank_blanks s)" and inv: "chx_inv s" using r by (auto simp: select_ready_def)
  obtain b s1 where s1: "chxalloc 20 THIN ''parse2to blankstr'' s = (b, s1)" "own s s1 [b]" "sview s1 = (sview s)(b \<mapsto> [])" "b \<notin> set []"
    by (rule own_alloc [OF own_start [OF inv]])
  have bz: "b \<noteq> z" "b \<noteq> l" using s1(2) z(2) l by (auto simp: own_def)
  have k1: "blanks s1 = Some z" using s1(2) z(1) by (simp add: own_def kept_def)
  have v1: "sview s1 z = Some (blank_blanks s)" "sview s1 b = Some []" using s1(3) z(2) bz by simp_all
  obtain s2 where s2: "chxspecial SC_GET SC_BLANK (Some b) s1 = Some (1, s2)" "chx_to s1 ((sview s1)(b \<mapsto> blank_blanks s)) s2"
    by (rule chxspecial_get [OF own_inv [OF s1(2)] k1 v1])
  have o2: "own s s2 [b]" by (rule own_write [OF s1(2) _ s2(2)]) simp
  have v2: "sview s2 b = Some (blank_blanks s)" "sview s2 l = Some x" using chx_toD(2) [OF s2(2)] s1(3) l bz by simp_all
  have ty: "chxtype (Some l) s2 = Some (THIN, s2)" by (rule chxtype_live [OF own_inv [OF o2] v2(2)])
  have e: "env_ok (env_of s l x rw y b (length old))" using r l w sl by (simp add: env_ok_def select_ready_def)
  have "pinv (env_of s l x rw y b (length old)) s2 (clear_tokens old) []" unfolding pinv_def
    by (intro exI [of _ "[]"] exI [of _ "clear_tokens old"]) (use o2 v2 in \<open>auto simp: clear_tokens_def clear_tok_def\<close>)
  then show thesis using that s1(1) s2(1) ty e by blast
qed

lemma parse2_tokens_ok:
  assumes r: "select_ready s" and l: "sview s l = Some x" and w: "sview s rw = Some y" and sl: "CHR ''/'' \<notin> set x"
    and n: "length (toks (look_up (blank_blanks s) y) (blank_blanks s) 0 x) < length old"
  obtains ts' s' where "parse2_tokens (Some l) (clear_tokens old) (Some rw) s = Some (1, ts', s')"
    "tinv s s' ts' (toks (look_up (blank_blanks s) y) (blank_blanks s) 0 x)"
proof -
  let ?as = "toks (look_up (blank_blanks s) y) (blank_blanks s) 0 x"
  obtain b s1 s2 where st: "chxalloc 20 THIN ''parse2to blankstr'' s = (b, s1)" "chxspecial SC_GET SC_BLANK (Some b) s1 = Some (1, s2)"
    "chxtype (Some l) s2 = Some (THIN, s2)" "env_ok (env_of s l x rw y b (length old))" "pinv (env_of s l x rw y b (length old)) s2 (clear_tokens old) []"
    by (rule parse_start [OF r l w sl])
  define E where "E = env_of s l x rw y b (length old)"
  have E: "pe_s0 E = s" "pe_line E = l" "pe_text E = x" "pe_rw E = rw" "pe_table E = y" "pe_blank E = b" "pe_max E = length old"
    by (simp_all add: E_def)
  have e: "env_ok E" and i2: "pinv E s2 (clear_tokens old) []" using st(4,5) by (simp_all add: E_def)
  have "leads E 0 ST_NEW [] ([] @ toks (pe_lk E) (pe_bl E) (int 0) (drop 0 (pe_text E)))"
    by (rule toks_leads [OF e]) (use n in \<open>simp_all add: E\<close>)
  then obtain ts3 s3 where p: "parse_loop (Some l) (Some rw) (Some b) THIN 0 ST_NEW (-1) (clear_tokens old) s2 = Some (int (length ?as) - 1, ts3, s3)"
      "pinv E s3 ts3 ?as" using i2 unfolding leads_def parsed_def by (simp add: E) blast
  obtain us rest where u: "ts3 = us @ rest" "length ts3 = length old" "?as = map (scan_view (sview s3)) us"
      "own s s3 (b # owned us)" "sview s3 b = Some (blank_blanks s)" "\<forall>t \<in> set rest. clear_tok t"
    using p(2) unfolding pinv_def E by blast
  have lu: "length ?as = length us" using arg_cong [OF u(3), of length] by simp
  obtain t0 rest' where t0: "rest = t0 # rest'" using n u(1,2) lu by (cases rest) auto
  let ?e = "t0\<lparr>t_type := T_END\<rparr>"
  obtain e1 where e1: "us = [] \<longrightarrow> e1 = ?e" "us \<noteq> [] \<longrightarrow> (\<exists>v. idx (us @ ?e # rest') (int (length us) - 1) = Some v \<and>
      tok_upd (\<lambda>e. e\<lparr>t_pos := t_pos v + 1\<rparr>) (int (length us)) (us @ ?e # rest') = Some (us @ e1 # rest'))" "t_type e1 = T_END"
  proof (cases us rule: rev_cases)
    case Nil
    then show thesis using that [of ?e] by simp
  next
    case (snoc vs v)
    have "idx (us @ ?e # rest') (int (length us) - 1) = Some v" using snoc idx_mid [of vs v "?e # rest'"] by simp
    then show thesis using that [of "?e\<lparr>t_pos := t_pos v + 1\<rparr>"] snoc tok_upd_mid [of "\<lambda>e. e\<lparr>t_pos := t_pos v + 1\<rparr>" us ?e rest'] by simp
  qed
  have ne: "\<forall>t \<in> set us. t_type t \<noteq> T_END"
  proof
    fix t assume "t \<in> set us"
    then have "scan_view (sview s3) t \<in> set ?as" unfolding u(3) by simp
    then show "t_type t \<noteq> T_END" using toks_types by (fastforce simp: scan_view_def)
  qed
  let ?us = "map (\<lambda>t. t\<lparr>num1 := num0 t\<rparr>) us"
  have cp: "copy_num1 0 (us @ e1 # rest') = Some (?us @ e1 # rest')" using copy_num1_ok [OF e1(3) ne, of "[]"] by simp
  obtain s4 where s4: "chxfree (Some b) s3 = Some (1, s4)" "own s s4 (remove1 b (b # owned us))" "sview s4 = (sview s3)(b := None)"
    by (rule own_free [OF u(4) list.set_intros(1)])
  have "tok_upd (\<lambda>t. t\<lparr>t_type := T_END\<rparr>) (int (length us)) ts3 = Some (us @ ?e # rest')" unfolding u(1) t0 by (rule tok_upd_mid)
  then have "parse2_tokens (Some l) (clear_tokens old) (Some rw) s = Some (1, ?us @ e1 # rest', s4)"
    using st(1-3) p(1) e1(1,2) cp s4(1) lu by (cases "us = []") (auto simp: parse2_tokens_def Suc_le_eq)
  moreover have "tinv s s4 (?us @ e1 # rest') ?as" unfolding held_def
  proof (rule exI [of _ ?us], rule exI [of _ e1], rule exI [of _ rest'], intro conjI)
    have "b \<notin> set (owned us)" using u(4) by (simp add: own_def)
    then show "?as = map (tview (sview s4)) ?us" using u(3) s4(3) map_tview_keep [of ?us "sview s4" "sview s3"] by (simp add: owned_num1 scan_view_num1)
    show "own s s4 ([] @ owned ?us)" using s4(2) by (simp add: owned_num1)
  qed (use e1(3) toks_types in auto)
  ultimately show thesis using that by blast
qed

text \<open>Passes 1 to 3: the line as a list of tokens, or the place of the first error.\<close>

definition select_list :: "string \<Rightarrow> string \<Rightarrow> string \<Rightarrow> bool \<Rightarrow> string \<Rightarrow> int + string Token_t list" where
  "select_list bl data_words repl_words errchk x =
     (case collapse_list (look_up bl repl_words) errchk (toks (look_up bl data_words) bl 0 x) of
        Inl e \<Rightarrow> Inl e | Inr as \<Rightarrow> merge_list errchk as)"

lemma texts_ok_Cons: "texts_ok (a # as) \<longleftrightarrow> (t_type a = T_WORD \<or> t_type a = T_DATA \<longrightarrow> t_str a \<noteq> None) \<and> texts_ok as"
  by (simp add: texts_ok_def)

lemma minus_texts: "texts_ok as \<Longrightarrow> texts_ok (minus_list as)"
proof (induction as rule: minus_list.induct)
  case 1
  then show ?case by simp
next
  case (2 a r)
  show ?case
  proof (cases "dash_at (\<lambda>ty. ty \<noteq> T_NUM) a r")
    case True
    then obtain d v q where "r = d # v # q" "t_type v = T_NUM" by (rule dash_atE)
    then show ?thesis using 2 True by (subst minus_list.simps(2)) (simp add: texts_ok_Cons negated_def)
  next
    case False
    then show ?thesis using 2 by (subst minus_list.simps(2)) (simp add: texts_ok_Cons)
  qed
qed

lemma range_texts: "texts_ok as \<Longrightarrow> range_list errchk as = Inr bs \<Longrightarrow> texts_ok bs"
proof (induction errchk as arbitrary: bs rule: range_list.induct)
  case (1 errchk)
  then show ?case by simp
next
  case (2 errchk a r)
  show ?case
  proof (cases "dash_at (\<lambda>ty. ty = T_NUM) a r")
    case True
    then obtain d v q where q: "r = d # v # q" "t_type a = T_NUM" by (rule dash_atE)
    note eq = 2(4) [unfolded range_list.simps(2) [of errchk a r] if_P [OF True]]
    have ok: "\<not> (errchk \<and> num0 a \<noteq> num1 a)" using eq by (cases "errchk \<and> num0 a \<noteq> num1 a") auto
    then have "range_list errchk (a\<lparr>num1 := num1 (r ! 1)\<rparr> # drop 2 r) = Inr bs" using eq unfolding if_not_P [OF ok] by simp
    moreover have "texts_ok (a\<lparr>num1 := num1 (r ! 1)\<rparr> # drop 2 r)" using 2(3) q by (simp add: texts_ok_Cons)
    ultimately show ?thesis using 2(1) [OF True ok] by blast
  next
    case False
    then obtain cs where cs: "range_list errchk r = Inr cs" "bs = a # cs" using 2(4) by (cases "range_list errchk r") (auto simp: range_list.simps(2))
    then show ?thesis using 2(2) [OF False _ cs(1)] 2(3) by (simp add: texts_ok_Cons)
  qed
qed

lemma collapse_texts: "texts_ok as \<Longrightarrow> collapse_list lk errchk as = Inr bs \<Longrightarrow> texts_ok bs"
  unfolding collapse_list_def
  by (rule range_texts [OF minus_texts]) (auto simp: texts_ok_def subst_tok_def special_nums_def)

lemma np_tokens_ok:
  assumes r: "select_ready s" and l: "sview s l = Some x" and d: "sview s dw = Some y" and p: "sview s rp = Some z" and sl: "CHR ''/'' \<notin> set x"
    and n: "length (toks (look_up (blank_blanks s) y) (blank_blanks s) 0 x) < length old"
  shows "pass_ok s [] (select_list (blank_blanks s) y z errchk x) (np_tokens (Some l) (Some dw) (Some rp) errchk old s)"
proof -
  let ?as = "toks (look_up (blank_blanks s) y) (blank_blanks s) 0 x" and ?c = "collapse_list (look_up (blank_blanks s) z) errchk"
  obtain ts1 s1 where 1: "parse2_tokens (Some l) (clear_tokens old) (Some dw) s = Some (1, ts1, s1)" "tinv s s1 ts1 ?as"
    by (rule parse2_tokens_ok [OF r l d sl n])
  have tr: "table_ready s" using r by (simp add: select_ready_def)
  have 2: "pass_ok s [] (?c ?as) (collapse_range ts1 (Some rp) errchk s1)"
    by (rule collapse_range_ok [OF 1(2) tr p toks_words [OF sl]])
  show ?thesis
  proof (cases "?c ?as")
    case (Inl e)
    then show ?thesis using 1(1) 2 by (auto simp: pass_ok_def np_tokens_def select_list_def)
  next
    case (Inr bs)
    then obtain ts2 s2 where s2: "collapse_range ts1 (Some rp) errchk s1 = Some (1, -1, ts2, s2)" "tinv s s2 ts2 bs"
      using 2 by (auto simp: pass_ok_def)
    have "pass_ok s [] (merge_list errchk bs) (merge_tokens ts2 errchk s2)"
      by (rule merge_tokens_ok [OF s2(2) collapse_texts [OF toks_texts Inr]])
    then show ?thesis using 1(1) s2(1) Inr by (simp add: np_tokens_def select_list_def)
  qed
qed

end
