(* ===== verification/Selection.thy ===== *)
theory Selection
  imports Parse2
begin

text \<open>
  Properties of the selection language as a whole: the passes refine functions on lists, what is left after them,
  written selections are read back, and what happens to lines with too many tokens.
\<close>

section \<open>What the passes leave\<close>

definition joined_types :: "string Token_t list \<Rightarrow> bool" where
  "joined_types cs \<longleftrightarrow> (\<forall>t \<in> set cs. t_type t \<noteq> T_COLON \<and> t_type t \<noteq> T_DATA)"

lemma merge_from_types:
  "merge_from errchk p r = Inr bs \<Longrightarrow> \<exists>h cs. bs = h # cs \<and> (t_type h = t_type p \<or> t_type h = T_NAME) \<and> joined_types cs"
proof (induction errchk p r arbitrary: bs rule: merge_from.induct)
  case (1 errchk p)
  then show ?case by (auto simp: joined_types_def)
next
  case (2 errchk p t r)
  consider (colon) "t_type t = T_COLON" | (data) "t_type t = T_DATA" | (other) "t_type t \<noteq> T_COLON" "t_type t \<noteq> T_DATA" by blast
  then show ?case
  proof cases
    case colon
    then have ok: "\<not> (errchk \<and> hascolon p \<noteq> 0)" and e: "merge_from errchk (p\<lparr>hascolon := 1\<rparr>) r = Inr bs"
      using "2.prems" by (auto split: if_splits)
    show ?thesis using "2.IH"(1) [OF colon ok e] by simp
  next
    case data
    then have nc: "t_type t \<noteq> T_COLON" by simp
    show ?thesis
    proof (cases "t_type p = T_WORD")
      case True
      then have "merge_from errchk (joined p t) r = Inr bs" using "2.prems" data nc by simp
      from "2.IH"(2) [OF nc data True this] show ?thesis by (auto simp: joined_def)
    next
      case False
      then have ok: "\<not> errchk" and e: "merge_from errchk p r = Inr bs" using "2.prems" data nc by (auto split: if_splits)
      show ?thesis by (rule "2.IH"(3) [OF nc data False ok e])
    qed
  next
    case other
    then obtain cs where cs: "merge_from errchk t r = Inr cs" "bs = p # cs" using "2.prems" by (cases "merge_from errchk t r") auto
    from "2.IH"(4) [OF other cs(1)] show ?thesis using cs(2) other by (auto simp: joined_types_def)
  qed
qed

lemma merge_list_types:
  assumes "merge_list errchk as = Inr bs"
  shows "joined_types (tl bs) \<and> (\<forall>t \<in> set bs. t_type t \<noteq> T_COLON)"
proof (cases as)
  case Nil
  then show ?thesis using assms by (simp add: joined_types_def)
next
  case (Cons t r)
  obtain p where "merge_from errchk p r = Inr bs" "t_type p \<noteq> T_COLON"
    using assms Cons by (auto split: if_splits)
  from merge_from_types [OF this(1)] this(2) show ?thesis by (auto simp: joined_types_def)
qed

section \<open>Reading back what was written\<close>

text \<open>A selection: a range of items, and perhaps a range of responses of each.\<close>

type_synonym selection = "(nat \<times> nat) \<times> (nat \<times> nat) option"

definition range_text :: "nat \<times> nat \<Rightarrow> string" where
  "range_text r = show_nat (fst r) @ ''-'' @ show_nat (snd r)"

definition selection_text :: "selection \<Rightarrow> string" where
  "selection_text p = range_text (fst p) @ (case snd p of None \<Rightarrow> '''' | Some r \<Rightarrow> '':'' @ range_text r) @ '', ''"

definition plain :: "'a Token_t \<Rightarrow> token_type \<times> int \<times> int \<times> int" where
  "plain t = (t_type t, num0 t, num1 t, hascolon t)"

definition sel_view :: "selection \<Rightarrow> (token_type \<times> int \<times> int \<times> int) list" where
  "sel_view p = (case p of ((a, b), None) \<Rightarrow> [(T_NUM, int a, int b, 0)]
     | ((a, b), Some (c, d)) \<Rightarrow> [(T_NUM, int a, int b, 1), (T_NUM, int c, int d, 0)])"

lemma sel_view_simps:
  "snd p = None \<Longrightarrow> sel_view p = [(T_NUM, int (fst (fst p)), int (snd (fst p)), 0)]"
  "snd p = Some q \<Longrightarrow> sel_view p = [(T_NUM, int (fst (fst p)), int (snd (fst p)), 1), (T_NUM, int (fst q), int (snd q), 0)]"
  by (cases p; cases q; auto simp: sel_view_def)+

definition small :: "nat \<times> nat \<Rightarrow> bool" where
  "small r \<longleftrightarrow> fst r < 2 ^ 31 \<and> snd r < 2 ^ 31"

definition sel_small :: "selection \<Rightarrow> bool" where
  "sel_small p \<longleftrightarrow> small (fst p) \<and> (case snd p of None \<Rightarrow> True | Some r \<Rightarrow> small r)"

text \<open>The tokens of one selection after each pass; the positions are left open.\<close>

definition low_range :: "nat \<times> nat \<Rightarrow> string Token_t list \<Rightarrow> bool" where
  "low_range r l \<longleftrightarrow> (\<exists>p q u. l = [tok T_NUM None (int (fst r)) p, tok T_DASH None 0 q, tok T_NUM None (int (snd r)) u])"

definition mid_tok :: "nat \<times> nat \<Rightarrow> string Token_t \<Rightarrow> bool" where
  "mid_tok r t \<longleftrightarrow> (\<exists>p. t = (tok T_NUM None (int (fst r)) p)\<lparr>num1 := int (snd r)\<rparr>)"

definition low_sel :: "selection \<Rightarrow> string Token_t list \<Rightarrow> bool" where
  "low_sel s l \<longleftrightarrow> (case snd s of None \<Rightarrow> low_range (fst s) l
     | Some r \<Rightarrow> \<exists>l1 l2 p. l = l1 @ tok T_COLON None 0 p # l2 \<and> low_range (fst s) l1 \<and> low_range r l2)"

definition mid_sel :: "selection \<Rightarrow> string Token_t list \<Rightarrow> bool" where
  "mid_sel s l \<longleftrightarrow> (case snd s of None \<Rightarrow> \<exists>t. l = [t] \<and> mid_tok (fst s) t
     | Some r \<Rightarrow> \<exists>t u p. l = [t, tok T_COLON None 0 p, u] \<and> mid_tok (fst s) t \<and> mid_tok r u)"

lemma toks_number:
  assumes bl: "blanks_sane bl" and n: "n < 2 ^ 31" and y: "y = [] \<or> \<not> is_digit (hd y)"
  shows "toks lk bl p (show_nat n @ y) = tok T_NUM None (int n) p # toks lk bl (p + int (length (show_nat n))) y"
proof -
  obtain c ds where c: "show_nat n = c # ds" using show_nat_not_Nil by (cases "show_nat n") auto
  have d: "is_digit c" "\<forall>e \<in> set ds. is_digit e" using is_digit_show [of _ n] c by auto
  have t: "takeWhile is_digit (ds @ y) = ds" using d(2) y by (cases y) (auto simp: takeWhile_append)
  have g: "\<not> gap bl c" using bl d(1) digit_not [OF d(1)] by (auto simp: blanks_sane_def gap_def in_tab_def)
  have "wrap32 (dval (c # ds)) = int n" using dval_show [of n] n wrap32_id [of "int n"] c by simp
  then show ?thesis using c d(1) digit_not [OF d(1)] g t by (simp add: toks.simps(2) Let_def algebra_simps)
qed

lemma toks_range:
  assumes bl: "blanks_sane bl" and r: "small r" and y: "y = [] \<or> \<not> is_digit (hd y)"
  shows "\<exists>l q. toks lk bl p (range_text r @ y) = l @ toks lk bl q y \<and> low_range r l"
proof -
  let ?n = "show_nat (fst r)" and ?m = "show_nat (snd r)"
  have nd: "\<not> is_digit (CHR ''-'')" "\<not> gap bl (CHR ''-'')"
    using bl by (auto simp: is_digit_def digit_def bval_def blanks_sane_def gap_def in_tab_def)
  have "toks lk bl p (range_text r @ y) = tok T_NUM None (int (fst r)) p # toks lk bl (p + int (length ?n)) (CHR ''-'' # ?m @ y)"
    using toks_number [OF bl, of "fst r" "CHR ''-'' # ?m @ y"] r nd by (simp add: range_text_def small_def)
  also have "toks lk bl (p + int (length ?n)) (CHR ''-'' # ?m @ y) =
      tok T_DASH None 0 (p + int (length ?n)) # toks lk bl (p + int (length ?n) + 1) (?m @ y)" using nd by (simp add: toks.simps(2))
  also have "toks lk bl (p + int (length ?n) + 1) (?m @ y) =
      tok T_NUM None (int (snd r)) (p + int (length ?n) + 1) # toks lk bl (p + int (length ?n) + 1 + int (length ?m)) y"
    using toks_number [OF bl _ y, of "snd r"] r by (simp add: small_def)
  finally show ?thesis unfolding low_range_def by (metis append_Cons append_Nil)
qed

lemma toks_sel:
  assumes bl: "blanks_sane bl" "in_tab bl (CHR '' '')" and s: "sel_small s"
  shows "\<exists>l q. toks lk bl p (selection_text s @ y) = l @ toks lk bl q y \<and> low_sel s l"
proof -
  have gap2: "toks lk bl q ('', '' @ y) = toks lk bl (q + 2) y" for q
    using bl(2) by (simp add: toks.simps(2) gap_def add.commute)
  have nd: "\<not> is_digit (CHR '','')" "\<not> is_digit (CHR '':'')" by (simp_all add: is_digit_def digit_def bval_def)
  have ng: "\<not> gap bl (CHR '':'')" using bl(1) by (auto simp: blanks_sane_def gap_def in_tab_def)
  have colon: "toks lk bl q ('':'' @ z) = tok T_COLON None 0 q # toks lk bl (q + 1) z" for q z
    using ng by (simp add: toks.simps(2))
  have sm: "small (fst s)" using s by (simp add: sel_small_def)
  show ?thesis
  proof (cases "snd s")
    case None
    obtain l q where "toks lk bl p (range_text (fst s) @ '', '' @ y) = l @ toks lk bl q ('', '' @ y)" "low_range (fst s) l"
      using toks_range [OF bl(1) sm, of "'', '' @ y"] nd(1) by (simp del: append_Cons) blast
    then show ?thesis using None unfolding gap2 by (auto simp: selection_text_def low_sel_def)
  next
    case (Some r)
    have sr: "small r" using s Some by (simp add: sel_small_def)
    obtain l1 q1 where 1: "toks lk bl p (range_text (fst s) @ '':'' @ range_text r @ '', '' @ y) = l1 @ toks lk bl q1 ('':'' @ range_text r @ '', '' @ y)" "low_range (fst s) l1"
      using toks_range [OF bl(1) sm, of "'':'' @ range_text r @ '', '' @ y"] nd(2) by (simp del: append_Cons) blast
    obtain l2 q2 where 2: "toks lk bl (q1 + 1) (range_text r @ '', '' @ y) = l2 @ toks lk bl q2 ('', '' @ y)" "low_range r l2"
      using toks_range [OF bl(1) sr, of "'', '' @ y"] nd(1) by (simp del: append_Cons) blast
    have "toks lk bl p (selection_text s @ y) = (l1 @ tok T_COLON None 0 q1 # l2) @ toks lk bl (q2 + 2) y"
      using 1(1) 2(1) colon [of q1 "range_text r @ '', '' @ y"] gap2 [of q2] Some by (simp add: selection_text_def)
    moreover have "low_sel s (l1 @ tok T_COLON None 0 q1 # l2)" using 1(2) 2(2) Some by (auto simp: low_sel_def)
    ultimately show ?thesis by blast
  qed
qed

lemma toks_sels:
  assumes "blanks_sane bl" "in_tab bl (CHR '' '')" and "\<forall>s \<in> set sels. sel_small s"
  shows "\<exists>ls. toks lk bl p (concat (map selection_text sels)) = concat ls \<and> list_all2 low_sel sels ls"
  using assms(3)
proof (induction sels arbitrary: p)
  case Nil
  then show ?case by (auto intro: exI [of _ "[]"])
next
  case (Cons s sels)
  obtain l q where 1: "toks lk bl p (selection_text s @ concat (map selection_text sels)) = l @ toks lk bl q (concat (map selection_text sels))" "low_sel s l"
    using toks_sel [OF assms(1,2), of s] Cons.prems by (metis list.set_intros(1))
  obtain ls where "toks lk bl q (concat (map selection_text sels)) = concat ls" "list_all2 low_sel sels ls" using Cons.IH [of q] Cons.prems by auto
  then show ?case using 1 by (intro exI [of _ "l # ls"]) simp
qed

definition no_dash :: "'a Token_t list \<Rightarrow> bool" where
  "no_dash r \<longleftrightarrow> (case r of [] \<Rightarrow> True | t # _ \<Rightarrow> t_type t \<noteq> T_DASH)"

lemma no_dash_simps [simp]: "no_dash []" "no_dash (t # r) \<longleftrightarrow> t_type t \<noteq> T_DASH"
  by (simp_all add: no_dash_def)

lemma not_dash_at: "no_dash r \<Longrightarrow> \<not> dash_at P a r"
  by (auto simp: no_dash_def dash_at_def split: list.splits)

lemma minus_skip: "no_dash r \<or> t_type a = T_NUM \<Longrightarrow> minus_list (a # r) = a # minus_list r"
  using not_dash_at [of r] by (subst minus_list.simps(2)) (auto simp: dash_at_def split: list.splits)

lemma minus_low: "low_sel s l \<Longrightarrow> minus_list (l @ r) = l @ minus_list r"
  by (auto simp: low_sel_def low_range_def minus_skip split: option.splits)

lemma minus_lows: "list_all2 low_sel sels ls \<Longrightarrow> minus_list (concat ls) = concat ls"
  by (induction rule: list_all2_induct) (simp_all add: minus_low)

lemma range_skip: "no_dash r \<or> t_type a \<noteq> T_NUM \<Longrightarrow> range_list errchk (a # r) = map_sum id ((#) a) (range_list errchk r)"
  using not_dash_at [of r] by (subst range_list.simps(2)) (auto simp: dash_at_def split: list.splits)

lemma range_low:
  assumes "low_range p l" and "no_dash r"
  obtains t where "range_list errchk (l @ r) = map_sum id ((#) t) (range_list errchk r)" "mid_tok p t"
proof -
  obtain a b c where l: "l = [tok T_NUM None (int (fst p)) a, tok T_DASH None 0 b, tok T_NUM None (int (snd p)) c]"
    using assms(1) by (auto simp: low_range_def)
  let ?t = "(tok T_NUM None (int (fst p)) a)\<lparr>num1 := int (snd p)\<rparr>"
  have "dash_at (\<lambda>ty. ty = T_NUM) (tok T_NUM None (int (fst p)) a) (tok T_DASH None 0 b # tok T_NUM None (int (snd p)) c # r)"
    by (simp add: dash_at_def)
  then have "range_list errchk (l @ r) = range_list errchk (?t # r)"
    using range_list.simps(2) [of errchk "tok T_NUM None (int (fst p)) a" "tok T_DASH None 0 b # tok T_NUM None (int (snd p)) c # r"]
    unfolding l by simp
  also have "\<dots> = map_sum id ((#) ?t) (range_list errchk r)" using assms(2) by (simp add: range_skip)
  finally show thesis using that by (auto simp: mid_tok_def)
qed

lemma low_no_dash: "low_sel s l \<Longrightarrow> no_dash (l @ r)"
  by (auto simp: low_sel_def low_range_def no_dash_def split: option.splits)

lemma map_sum_Cons: "map_sum id ((#) t) (map_sum id ((@) l) x) = map_sum id ((@) (t # l)) x"
  by (cases x) simp_all

lemma range_low_sel:
  assumes "low_sel s l" and "no_dash r"
  obtains m where "range_list errchk (l @ r) = map_sum id ((@) m) (range_list errchk r)" "mid_sel s m"
proof (cases "snd s")
  case None
  then have "low_range (fst s) l" using assms(1) by (simp add: low_sel_def)
  then obtain t where t: "range_list errchk (l @ r) = map_sum id ((#) t) (range_list errchk r)" "mid_tok (fst s) t"
    by (rule range_low [OF _ assms(2)])
  show thesis by (rule that [of "[t]"]) (use t None in \<open>cases "range_list errchk r"; simp add: mid_sel_def\<close>)+
next
  case (Some q)
  then obtain l1 l2 p where l: "l = l1 @ tok T_COLON None 0 p # l2" "low_range (fst s) l1" "low_range q l2"
    using assms(1) by (auto simp: low_sel_def)
  obtain u where u: "range_list errchk (l2 @ r) = map_sum id ((#) u) (range_list errchk r)" "mid_tok q u" by (rule range_low [OF l(3) assms(2)])
  have c: "range_list errchk (tok T_COLON None 0 p # l2 @ r) = map_sum id ((#) (tok T_COLON None 0 p)) (range_list errchk (l2 @ r))"
    by (rule range_skip) simp
  obtain t where t: "range_list errchk (l1 @ tok T_COLON None 0 p # l2 @ r) = map_sum id ((#) t) (range_list errchk (tok T_COLON None 0 p # l2 @ r))" "mid_tok (fst s) t"
    by (rule range_low [OF l(2), of "tok T_COLON None 0 p # l2 @ r"]) (simp add: no_dash_def)
  show thesis
  proof (rule that [of "[t, tok T_COLON None 0 p, u]"])
    show "range_list errchk (l @ r) = map_sum id ((@) [t, tok T_COLON None 0 p, u]) (range_list errchk r)"
      using t(1) c u(1) l(1) by (cases "range_list errchk r") simp_all
    show "mid_sel s [t, tok T_COLON None 0 p, u]" using Some t(2) u(2) by (auto simp: mid_sel_def)
  qed
qed

lemma range_lows:
  "list_all2 low_sel sels ls \<Longrightarrow> \<exists>ms. range_list errchk (concat ls) = Inr (concat ms) \<and> list_all2 mid_sel sels ms"
proof (induction rule: list_all2_induct)
  case Nil
  then show ?case by (auto intro: exI [of _ "[]"])
next
  case (Cons s sels l ls)
  obtain ms where ms: "range_list errchk (concat ls) = Inr (concat ms)" "list_all2 mid_sel sels ms" using Cons.IH by blast
  have "no_dash (concat ls)" using Cons(2) low_no_dash by (cases sels; cases ls) auto
  then obtain m where "range_list errchk (l @ concat ls) = map_sum id ((@) m) (range_list errchk (concat ls))" "mid_sel s m"
    by (rule range_low_sel [OF Cons(1)])
  then show ?case using ms by (intro exI [of _ "m # ms"]) simp
qed

text \<open>Merging does not change numbers, it only marks the item of a pair.\<close>

lemma merge_mid:
  assumes "list_all2 mid_sel sels ms" and "t_type p = T_NUM" and "hascolon p = 0"
  shows "\<exists>bs. merge_from errchk p (concat ms) = Inr (p # bs) \<and> map plain bs = concat (map sel_view sels)"
  using assms
proof (induction arbitrary: p rule: list_all2_induct)
  case Nil
  then show ?case by simp
next
  case (Cons s sels m ms)
  show ?case
  proof (cases "snd s")
    case None
    then obtain t where m: "m = [t]" "mid_tok (fst s) t" using Cons(1) by (auto simp: mid_sel_def)
    then have t: "t_type t = T_NUM" "hascolon t = 0" "plain t = (T_NUM, int (fst (fst s)), int (snd (fst s)), 0)" by (auto simp: mid_tok_def plain_def)
    obtain bs where "merge_from errchk t (concat ms) = Inr (t # bs)" "map plain bs = concat (map sel_view sels)" using Cons.IH [OF t(1,2)] by blast
    then show ?thesis using m(1) t Cons.prems by (simp add: sel_view_simps(1) [OF None])
  next
    case (Some q)
    then obtain t u c where m: "m = [t, tok T_COLON None 0 c, u]" "mid_tok (fst s) t" "mid_tok q u" using Cons(1) by (auto simp: mid_sel_def)
    then have t: "t_type t = T_NUM" "hascolon t = 0" "plain (t\<lparr>hascolon := 1\<rparr>) = (T_NUM, int (fst (fst s)), int (snd (fst s)), 1)"
      and u: "t_type u = T_NUM" "hascolon u = 0" "plain u = (T_NUM, int (fst q), int (snd q), 0)" by (auto simp: mid_tok_def plain_def)
    obtain bs where "merge_from errchk u (concat ms) = Inr (u # bs)" "map plain bs = concat (map sel_view sels)" using Cons.IH [OF u(1,2)] by blast
    then show ?thesis using m(1) t u Cons.prems by (simp add: sel_view_simps(2) [OF Some])
  qed
qed

lemma select_list_sels:
  assumes "blanks_sane bl" "in_tab bl (CHR '' '')" and "\<forall>s \<in> set sels. sel_small s"
  shows "\<exists>bs. select_list bl dw rp errchk (concat (map selection_text sels)) = Inr bs \<and> map plain bs = concat (map sel_view sels)"
    and "length (toks (look_up bl dw) bl 0 (concat (map selection_text sels))) \<le> 7 * length sels"
proof -
  obtain ls where ls: "toks (look_up bl dw) bl 0 (concat (map selection_text sels)) = concat ls" "list_all2 low_sel sels ls"
    using toks_sels [OF assms] by blast
  have "length (concat ls) \<le> 7 * length sels" using ls(2)
    by (induction rule: list_all2_induct) (auto simp: low_sel_def low_range_def split: option.splits)
  then show "length (toks (look_up bl dw) bl 0 (concat (map selection_text sels))) \<le> 7 * length sels" using ls(1) by simp
  have "\<forall>t \<in> set (concat ls). t_type t \<noteq> T_WORD" using ls(2)
    by (induction rule: list_all2_induct) (auto simp: low_sel_def low_range_def split: option.splits)
  then have "map (subst_tok lk) (concat ls) = concat ls" for lk by (intro map_idI) (auto simp: subst_tok_def)
  then have c: "collapse_list (look_up bl rp) errchk (concat ls) = range_list errchk (concat ls)"
    using minus_lows [OF ls(2)] by (simp add: collapse_list_def)
  obtain ms where ms: "range_list errchk (concat ls) = Inr (concat ms)" "list_all2 mid_sel sels ms" using range_lows [OF ls(2)] by blast
  have "\<exists>bs. merge_list errchk (concat ms) = Inr bs \<and> map plain bs = concat (map sel_view sels)"
  proof -
    define p :: "string Token_t" where "p = tok T_NUM None 0 0"
    obtain bs where bs: "merge_from errchk p (concat ms) = Inr (p # bs)" "map plain bs = concat (map sel_view sels)"
      using merge_mid [OF ms(2), of p] by (auto simp: p_def)
    show ?thesis
    proof (cases "concat ms")
      case Nil
      then show ?thesis using bs unfolding Nil by simp
    next
      case (Cons t r)
      have "t_type t = T_NUM"
        using ms(2) Cons by (cases ms; cases sels) (auto simp: mid_sel_def mid_tok_def split: option.splits)
      then show ?thesis using bs Cons by (cases "merge_from errchk t r") auto
    qed
  qed
  then show "\<exists>bs. select_list bl dw rp errchk (concat (map selection_text sels)) = Inr bs \<and> map plain bs = concat (map sel_view sels)"
    using c ms(1) ls(1) by (simp add: select_list_def)
qed

section \<open>Too many tokens\<close>

lemma dashes_overrun:
  assumes e: "env_ok E" and x: "pe_text E = replicate n (CHR ''-'')" and n: "pe_max E \<le> n"
    and "pinv E s ts as" and "length as = k" and "k \<le> pe_max E"
  shows "pl E k ST_NEW (int k - 1) ts s = None \<or>
    (\<exists>ts' s'. n = pe_max E \<and> pl E k ST_NEW (int k - 1) ts s = Some (int n - 1, ts', s') \<and> length ts' = n)"
  using assms(4-6)
proof (induction "pe_max E - k" arbitrary: k s ts as)
  case 0
  then have k: "k = pe_max E" by simp
  have len: "length ts = pe_max E" using 0(2) by (auto simp: pinv_def)
  show ?case
  proof (cases "k < n")
    case True
    obtain s1 where s1: "reads s s1" "\<forall>st this. pl E k st this ts s = proceed E (pc E k st this ts s1)"
      by (rule loop_char [OF 0(2) e]) (use True x in simp)
    have "\<not> in_tab (pe_bl E) (CHR ''-'')" using e by (auto simp: env_ok_def blanks_sane_def in_tab_def)
    then have "pc E k ST_NEW (int k - 1) ts s1 = None" using True x k len by (simp add: parse_char_def st_new_def new_mark_def tok_upd_def)
    then show ?thesis using s1(2) by (simp add: proceed_def)
  next
    case False
    then have kn: "k = n" using k n by simp
    have kl: "length (pe_text E) \<le> k" using kn x by simp
    obtain s1 where "reads s s1" "\<forall>st this. pl E k st this ts s = Some (this, ts, s1)" by (rule loop_end [OF 0(2) e kl])
    then show ?thesis using kn k len by simp
  qed
next
  case (Suc m)
  then have k: "k < pe_max E" "k < length (pe_text E)" using n x by simp_all
  have g: "\<not> in_tab (pe_bl E) (CHR ''-'')" using e by (auto simp: env_ok_def blanks_sane_def in_tab_def)
  obtain s1 where s1: "reads s s1" "\<forall>st this. pl E k st this ts s = proceed E (pc E k st this ts s1)" by (rule loop_char [OF Suc(3) e k(2)])
  note i1 = pinv_reads [OF Suc(3) s1(1)]
  let ?f = "\<lambda>t. t\<lparr>t_type := T_DASH, t_pos := int k\<rparr>"
  obtain ts' where ts': "tok_upd ?f (int (length as)) ts = Some ts'" "pinv E s1 ts' (as @ [tok T_DASH None 0 (int k)])"
    by (rule pinv_snoc [OF i1, of ?f]) (use k Suc(4) in \<open>auto simp: clear_tok_def scan_view_def tview_def tok_def\<close>)
  have "pl E k ST_NEW (int k - 1) ts s = pl E (Suc k) ST_NEW (int (Suc k) - 1) ts' s1"
    using s1(2) ts'(1) Suc(4) g k(2) x by (simp add: parse_char_def st_new_def new_mark_def proceed_Some add.commute)
  moreover have "pl E (Suc k) ST_NEW (int (Suc k) - 1) ts' s1 = None \<or>
    (\<exists>ts'' s'. n = pe_max E \<and> pl E (Suc k) ST_NEW (int (Suc k) - 1) ts' s1 = Some (int n - 1, ts'', s') \<and> length ts'' = n)"
    by (rule Suc(1) [OF _ ts'(2)]) (use Suc(2,4) k in simp_all)
  ultimately show ?case by simp
qed

section \<open>Properties\<close>

lemma started_select_ready:
  assumes "\<forall>t \<in> set ts. NUL \<notin> set t"
  shows "select_ready (started_store ts)" and "blank_blanks (started_store ts) = [CHR '' '', CHR 0x0A, CHR 0x09]"
proof -
  have "tab_blank (started_store ts) = None" by (simp add: started_store_def store_of_def init_state_def)
  then show b: "blank_blanks (started_store ts) = [CHR '' '', CHR 0x0A, CHR 0x09]"
    using started_sview [OF assms, of 1] by (simp add: blank_blanks_def blank_chars_def)
  show "select_ready (started_store ts)" using started_inv [OF assms] started_sview [OF assms, of 1] b
    by (auto simp: select_ready_def table_ready_def blanks_sane_def is_digit_def digit_def bval_def)
qed

text \<open>
  C24. \<open>tablematch\<close> looks a word up in a table of keywords: it returns the number of the only entry one of whose names the
  word is a prefix of, \<open>-1\<close> if there is no such entry and \<open>-2\<close> if there are several; nothing in the store changes.
\<close>

theorem tablematch_keyword:
  assumes "chx_inv s" and "blanks s \<noteq> None" and "NUL \<notin> set (blank_blanks s)" and "CHR ''/'' \<notin> set (blank_blanks s)"
    and "sview s t = Some x" and "sview s w = Some v" and "v \<noteq> []" and "\<forall>c \<in> set v. \<not> in_tab (blank_blanks s) c \<and> c \<noteq> CHR ''/''"
    and "es = entry_words (blank_blanks s) x" and "hits = filter (\<lambda>i. abbreviates v (es ! i)) [0..<length es]"
  shows "\<exists>s'. tablematch (Some t) (Some w) s = Some (if length hits = 0 then -1 else if length hits = 1 then int (hd hits) else -2, s') \<and> reads s s'"
proof -
  obtain s' where "tablematch (Some t) (Some w) s = Some (if v = [] then -1 else match_result v (entry_words (blank_blanks s) x), s')" "reads s s'"
    by (rule tablematch_ok [OF assms(1-6,8)])
  moreover have "match_result v es = (if length hits = 0 then -1 else if length hits = 1 then int (hd hits) else -2)"
    using assms(10) by (auto simp: match_result_def split: list.splits)
  ultimately show ?thesis using assms(7,9) by auto
qed

theorem tablematch_keyword_witness:
  "\<exists>s'. tablematch (Some 12) (Some 13) (started_store [''this/current all last/final'', ''fin'']) =
    Some (if length [2::nat] = 0 then -1 else if length [2::nat] = 1 then int (hd [2]) else -2, s') \<and> reads (started_store [''this/current all last/final'', ''fin'']) s'"
proof -
  have n: "\<forall>t \<in> set [''this/current all last/final'', ''fin'']. NUL \<notin> set t" by code_simp
  have r: "select_ready (started_store [''this/current all last/final'', ''fin''])" by (rule started_select_ready [OF n])
  have b: "blank_blanks (started_store [''this/current all last/final'', ''fin'']) = [CHR '' '', CHR 0x0A, CHR 0x09]"
    by (rule started_select_ready [OF n])
  have c: "chx_inv (started_store [''this/current all last/final'', ''fin''])" "blanks (started_store [''this/current all last/final'', ''fin'']) \<noteq> None"
    "NUL \<notin> set (blank_blanks (started_store [''this/current all last/final'', ''fin'']))"
    "CHR ''/'' \<notin> set (blank_blanks (started_store [''this/current all last/final'', ''fin'']))"
    using r by (simp_all add: select_ready_def table_ready_def)
  have v: "sview (started_store [''this/current all last/final'', ''fin'']) 12 = Some ''this/current all last/final''"
    "sview (started_store [''this/current all last/final'', ''fin'']) 13 = Some ''fin''" using started_sview [OF n] by simp_all
  have e: "[''this/current'', ''all'', ''last/final''] = entry_words [CHR '' '', CHR 0x0A, CHR 0x09] ''this/current all last/final''"
    by code_simp
  have h: "[2] = filter (\<lambda>i. abbreviates ''fin'' ([''this/current'', ''all'', ''last/final''] ! i)) [0..<length [''this/current'', ''all'', ''last/final'']]"
    by code_simp
  have w: "''fin'' \<noteq> []" "\<forall>c \<in> set ''fin''. \<not> in_tab [CHR '' '', CHR 0x0A, CHR 0x09] c \<and> c \<noteq> CHR ''/''" by code_simp+
  show ?thesis by (rule tablematch_keyword [OF c v w(1) _ _ h, unfolded b, OF w(2) e])
qed

text \<open>
  C23. The first three passes of \<open>new_parse\<close> refine functions on lists. For every line without slashes whose tokens fit the
  array, they stay inside the array and return either the place of the first syntax error or exactly the tokens
  of \<open>select_list\<close>; the array owns the strings of its tokens and every other string of the store is as before. After
  success no colon is left, and text in quotes without a word before it only at the very front.
\<close>

theorem np_tokens_refine:
  assumes "select_ready s" and "sview s l = Some x" and "sview s dw = Some y" and "sview s rp = Some z" and "CHR ''/'' \<notin> set x"
    and "length (toks (look_up (blank_blanks s) y) (blank_blanks s) 0 x) < length old"
  shows "\<exists>ok errpos ts s' bs. np_tokens (Some l) (Some dw) (Some rp) errchk old s = Some (ok, errpos, ts, s') \<and> tinv s s' ts bs \<and>
    (case select_list (blank_blanks s) y z errchk x of
       Inl e \<Rightarrow> ok = 0 \<and> errpos = e
     | Inr cs \<Rightarrow> ok = 1 \<and> errpos = -1 \<and> bs = cs \<and> joined_types (tl bs) \<and> (\<forall>t \<in> set bs. t_type t \<noteq> T_COLON))"
proof -
  have p: "pass_ok s [] (select_list (blank_blanks s) y z errchk x) (np_tokens (Some l) (Some dw) (Some rp) errchk old s)"
    by (rule np_tokens_ok [OF assms])
  show ?thesis
  proof (cases "select_list (blank_blanks s) y z errchk x")
    case (Inl e)
    then show ?thesis using p by (auto simp: pass_ok_def)
  next
    case (Inr cs)
    then obtain as where "merge_list errchk as = Inr cs" by (auto simp: select_list_def split: sum.splits)
    from merge_list_types [OF this] show ?thesis using p Inr by (auto simp: pass_ok_def)
  qed
qed

theorem np_tokens_refine_witness:
  "\<exists>ok errpos ts s' bs. np_tokens (Some 12) (Some 13) (Some 14) True (replicate 200 7) (started_store [''1-2-3'', ''author'', ''this all last'']) =
      Some (ok, errpos, ts, s') \<and> tinv (started_store [''1-2-3'', ''author'', ''this all last'']) s' ts bs \<and>
    (case select_list [CHR '' '', CHR 0x0A, CHR 0x09] ''author'' ''this all last'' True ''1-2-3'' of
       Inl e \<Rightarrow> ok = 0 \<and> errpos = e
     | Inr cs \<Rightarrow> ok = 1 \<and> errpos = -1 \<and> bs = cs \<and> joined_types (tl bs) \<and> (\<forall>t \<in> set bs. t_type t \<noteq> T_COLON))"
proof -
  have n: "\<forall>t \<in> set [''1-2-3'', ''author'', ''this all last'']. NUL \<notin> set t" by code_simp
  note r = started_select_ready [OF n]
  have v: "sview (started_store [''1-2-3'', ''author'', ''this all last'']) 12 = Some ''1-2-3''"
    "sview (started_store [''1-2-3'', ''author'', ''this all last'']) 13 = Some ''author''"
    "sview (started_store [''1-2-3'', ''author'', ''this all last'']) 14 = Some ''this all last''" using started_sview [OF n] by simp_all
  have t: "length (toks lk [CHR '' '', CHR 0x0A, CHR 0x09] 0 ''1-2-3'') < length (replicate 200 (7::int))" for lk
    by (simp add: toks.simps(2) gap_def in_tab_def is_digit_def digit_def bval_def)
  show ?thesis
    using np_tokens_refine [OF r(1) v, of "replicate 200 7" True] t unfolding r(2) by simp
qed

text \<open>
  Selections are read back as they were written. For a list of selections \<open>items\<close> or \<open>items:responses\<close>, each a range of
  numbers below \<open>2\<^sup>3\<^sup>1\<close>, written in decimal with dashes, colons and commas, the first three passes of \<open>new_parse\<close> succeed,
  with and without error checking, and leave one token per range with its two bounds, the item ranges marked as
  having a colon where a range of responses follows.
\<close>

theorem np_tokens_round_trip:
  assumes "select_ready s" and "in_tab (blank_blanks s) (CHR '' '')" and "\<forall>p \<in> set sels. sel_small p" and "7 * length sels < length old"
    and "sview s l = Some (concat (map selection_text sels))" and "sview s dw = Some y" and "sview s rp = Some z"
  shows "\<exists>ts s' bs. np_tokens (Some l) (Some dw) (Some rp) errchk old s = Some (1, -1, ts, s') \<and> tinv s s' ts bs \<and>
    map plain bs = concat (map sel_view sels)"
proof -
  have bl: "blanks_sane (blank_blanks s)" using assms(1) by (simp add: select_ready_def)
  obtain bs where bs: "select_list (blank_blanks s) y z errchk (concat (map selection_text sels)) = Inr bs" "map plain bs = concat (map sel_view sels)"
    using select_list_sels(1) [OF bl assms(2,3)] by blast
  have n: "length (toks (look_up (blank_blanks s) y) (blank_blanks s) 0 (concat (map selection_text sels))) < length old"
    using select_list_sels(2) [OF bl assms(2,3), of y] assms(4) by simp
  have "CHR ''/'' \<notin> set (show_nat m)" for m using show_nat_range [of "CHR ''/''" m] by (auto simp: bval_def)
  then have "CHR ''/'' \<notin> set (concat (map selection_text sels))"
    by (auto simp: selection_text_def range_text_def split: option.splits)
  then have "pass_ok s [] (Inr bs) (np_tokens (Some l) (Some dw) (Some rp) errchk old s)"
    using np_tokens_ok [OF assms(1,5-7) _ n, of errchk] bs(1) by simp
  then show ?thesis using bs(2) by (auto simp: pass_ok_def)
qed

theorem np_tokens_round_trip_witness:
  "\<exists>ts s' bs. np_tokens (Some 12) (Some 13) (Some 14) True (replicate 200 0)
      (started_store [concat (map selection_text [((1, 3), None), ((7, 7), Some (2, 500))]), ''author'', ''this all last'']) = Some (1, -1, ts, s') \<and>
    tinv (started_store [concat (map selection_text [((1, 3), None), ((7, 7), Some (2, 500))]), ''author'', ''this all last'']) s' ts bs \<and>
    map plain bs = concat (map sel_view [((1, 3), None), ((7, 7), Some (2, 500))])"
proof -
  let ?ts = "[concat (map selection_text [((1, 3), None), ((7, 7), Some (2, 500))]), ''author'', ''this all last'']"
  have n: "\<forall>t \<in> set ?ts. NUL \<notin> set t" by code_simp
  note r = started_select_ready [OF n]
  have v: "sview (started_store ?ts) 12 = Some (concat (map selection_text [((1, 3), None), ((7, 7), Some (2, 500))]))"
    "sview (started_store ?ts) 13 = Some ''author''" "sview (started_store ?ts) 14 = Some ''this all last''"
    using started_sview [OF n] by simp_all
  have b: "in_tab (blank_blanks (started_store ?ts)) (CHR '' '')" unfolding r(2) by (simp add: in_tab_def)
  show ?thesis
    by (rule np_tokens_round_trip [OF r(1) b _ _ v]) (simp_all add: sel_small_def small_def)
qed

text \<open>
  \<open>parse2_tokens\<close> does not look at the size of the array: a line of at least as many dashes as the array has
  elements makes it write behind the end.
\<close>

theorem parse2_tokens_overrun:
  assumes "select_ready s" and "sview s l = Some (replicate n (CHR ''-''))" and "sview s rw = Some y" and "length old \<le> n"
  shows "parse2_tokens (Some l) (clear_tokens old) (Some rw) s = None"
proof -
  have sl: "CHR ''/'' \<notin> set (replicate n (CHR ''-''))" by simp
  obtain b s1 s2 where st: "chxalloc 20 THIN ''parse2to blankstr'' s = (b, s1)" "chxspecial SC_GET SC_BLANK (Some b) s1 = Some (1, s2)"
    "chxtype (Some l) s2 = Some (THIN, s2)" "env_ok (env_of s l (replicate n (CHR ''-'')) rw y b (length old))"
    "pinv (env_of s l (replicate n (CHR ''-'')) rw y b (length old)) s2 (clear_tokens old) []"
    by (rule parse_start [OF assms(1-3) sl])
  have "parse_loop (Some l) (Some rw) (Some b) THIN 0 ST_NEW (-1) (clear_tokens old) s2 = None \<or>
      (\<exists>ts' s'. n = length old \<and> parse_loop (Some l) (Some rw) (Some b) THIN 0 ST_NEW (-1) (clear_tokens old) s2 = Some (int n - 1, ts', s') \<and> length ts' = n)"
    using dashes_overrun [OF st(4) _ _ st(5), of n 0] assms(4) by simp
  then show ?thesis using st(1-3) by (auto simp: parse2_tokens_def tok_upd_def)
qed

theorem parse2_tokens_overrun_witness:
  "parse2_tokens (Some 12) (clear_tokens (replicate MAXTOKEN 0)) (Some 13) (started_store [replicate 200 (CHR ''-''), ''author'']) = None"
proof -
  have n: "\<forall>t \<in> set [replicate 200 (CHR ''-''), ''author'']. NUL \<notin> set t" by simp
  have v: "sview (started_store [replicate 200 (CHR ''-''), ''author'']) 12 = Some (replicate 200 (CHR ''-''))"
    "sview (started_store [replicate 200 (CHR ''-''), ''author'']) 13 = Some ''author''"
    using started_sview [OF n] by simp_all
  show ?thesis by (rule parse2_tokens_overrun [OF started_select_ready(1) [OF n] v]) (simp add: MAXTOKEN_def)
qed

end
