(* ===== verification/Passes.thy ===== *)
theory Passes
  imports Ranges
begin

text \<open>
  The passes of \<open>new_parse\<close> (\<open>CV2/gen/newparse.c\<close>) that work on response lists: the lists for new, fresh, unseen
  and forgotten items, the list of everything that was selected, and the filters of the modifiers. The tables of the
  conference (\<open>master\<close>), of what the user has seen (\<open>thisconf\<close>) and of what was seen at the start of the session (\<open>fresh\<close>)
  are arrays indexed by item; an access outside of one is \<open>None\<close>.
\<close>

section \<open>Data\<close>

record master_template =
  m_items     :: int
  m_responses :: "int list"

text \<open>The fields of \<open>struct partic_t\<close> used here; \<open>struct fresh_template\<close> has the same three.\<close>

record partic_t =
  pt_items     :: int
  pt_responses :: "int list"
  pt_backresp  :: "int list"

type_synonym fresh_template = partic_t

record np_tables =
  np_master :: master_template
  np_part   :: partic_t
  np_fresh  :: fresh_template

definition M_ITEMS :: int where "M_ITEMS = 0"
definition M_RESPONSES :: int where "M_RESPONSES = 1"
definition M_NEW :: int where "M_NEW = 2"
definition M_UNSEEN :: int where "M_UNSEEN = 3"
definition M_NOFORGET :: int where "M_NOFORGET = 4"
definition M_FORGOTTEN :: int where "M_FORGOTTEN = 5"
definition M_FRESH :: int where "M_FRESH = 6"
definition M_FROZEN :: int where "M_FROZEN = 7"
definition M_SINCE :: int where "M_SINCE = 11"
definition M_ATTACH :: int where "M_ATTACH = 12"
definition M_NOATTACH :: int where "M_NOATTACH = 13"
definition M_WAIT :: int where "M_WAIT = 14"
definition M_NOWAIT :: int where "M_NOWAIT = 15"
definition MODIFIERS :: nat where "MODIFIERS = 19"

lemmas modifier_slots = M_ITEMS_def M_RESPONSES_def M_NEW_def M_UNSEEN_def M_NOFORGET_def M_FORGOTTEN_def M_FRESH_def M_FROZEN_def
  M_SINCE_def M_ATTACH_def M_NOATTACH_def M_WAIT_def M_NOWAIT_def

section \<open>The loops\<close>

text \<open>
  Several passes have the shape \<open>for (rl = ...; rl; rl = rl->next) for (i = rl->i0; i <= rl->i1; ++i)\<close>. The body is an
  argument here; a \<open>continue\<close> returns the list under construction unchanged.
\<close>

function items_loop :: "(int \<Rightarrow> 'a \<Rightarrow> 'a option) \<Rightarrow> int \<Rightarrow> int \<Rightarrow> 'a \<Rightarrow> 'a option" where
  "items_loop body i hi acc =
     (if i > hi then Some acc
      else case body i acc of None \<Rightarrow> None | Some acc' \<Rightarrow> items_loop body (i + 1) hi acc')"
  by pat_completeness auto
termination
  by (relation "measure (\<lambda>(body, i, hi, acc). nat (hi + 1 - i))") auto

declare items_loop.simps [simp del]

fun nodes_loop :: "(Rlist_t \<Rightarrow> int \<Rightarrow> 'a \<Rightarrow> 'a option) \<Rightarrow> Rlist \<Rightarrow> 'a \<Rightarrow> 'a option" where
  "nodes_loop body [] acc = Some acc"
| "nodes_loop body (p # ps) acc = do { acc \<leftarrow> items_loop (body p) (i0 p) (i1 p) acc; nodes_loop body ps acc }"

text \<open>
  A list under construction with the place of \<open>rlptr\<close> in it, and
  \<open>rlptr = add_to_rlist (rlptr, item, r0, r1)\<close>.
\<close>

type_synonym growing = "Rlist \<times> nat"

definition rl_push :: "int \<Rightarrow> int \<Rightarrow> int \<Rightarrow> growing \<Rightarrow> growing option" where
  "rl_push item a b g = do {
     (k, ps) \<leftarrow> add_to_rlist (drop (snd g) (fst g)) item a b;
     Some (take (snd g) (fst g) @ ps, snd g + k) }"

text \<open>Item part NEW or FRESH: the items behind those already seen.\<close>

definition item_new :: "master_template \<Rightarrow> partic_t \<Rightarrow> int \<Rightarrow> Rlist" where
  "item_new master seen first =
     (if m_items master > pt_items seen then [a_mak_rlist, set_node (pt_items seen + 1) (m_items master) first (-1)]
      else [a_mak_rlist])"

text \<open>Response part NEW or FRESH: of each item selected before, the responses behind those already seen.\<close>

definition resp_new_item :: "master_template \<Rightarrow> partic_t \<Rightarrow> int \<Rightarrow> growing \<Rightarrow> growing option" where
  "resp_new_item master seen i g = do {
     n \<leftarrow> idx (pt_responses seen) i;
     if n < 0 then Some g
     else do {
       m \<leftarrow> idx (m_responses master) i;
       if n \<ge> m then Some g
       else do { b \<leftarrow> idx (pt_backresp seen) i; rl_push i (n - b + 1) m g } } }"

definition resp_new :: "master_template \<Rightarrow> partic_t \<Rightarrow> Rlist \<Rightarrow> Rlist option" where
  "resp_new master seen rlthis = do {
     (rlnew, _) \<leftarrow> nodes_loop (\<lambda>rl. resp_new_item master seen) (tl rlthis) ([a_mak_rlist], 0);
     Some rlnew }"

text \<open>Item part UNSEEN (\<open>code\<close> -1) and FORGOTTEN (\<open>code\<close> -2).\<close>

definition item_coded :: "partic_t \<Rightarrow> int \<Rightarrow> int \<Rightarrow> Rlist option" where
  "item_coded seen code first = do {
     (rl, _) \<leftarrow> items_loop (\<lambda>i g. do {
         n \<leftarrow> idx (pt_responses seen) i;
         if n = code then rl_push i first (-1) g else Some g }) 1 (pt_items seen) ([a_mak_rlist], 0);
     Some rl }"

section \<open>Assembling and filtering\<close>

definition assemble_item :: "master_template \<Rightarrow> Rlist_t \<Rightarrow> int \<Rightarrow> growing \<Rightarrow> growing option" where
  "assemble_item master rl i g =
     (if i = 0 then Some g
      else if i > m_items master then Some g
      else do {
        n \<leftarrow> idx (m_responses master) i;
        if n \<ge> 0 then rl_push i (r0 rl) (r1 rl) g else Some g })"

fun assemble_sets :: "master_template \<Rightarrow> Rlist list \<Rightarrow> growing \<Rightarrow> growing option" where
  "assemble_sets master [] g = Some g"
| "assemble_sets master (rl # rls) g = do {
     g \<leftarrow> nodes_loop (assemble_item master) (tl rl) g;
     assemble_sets master rls g }"

definition np_assemble :: "master_template \<Rightarrow> Rlist list \<Rightarrow> Rlist option" where
  "np_assemble master rlset = do { (rlnew, _) \<leftarrow> assemble_sets master rlset ([a_mak_rlist], 0); Some rlnew }"

text \<open>
  The body of pass 7. The modifiers are given as a predicate on the slots of the array. Each filter returns \<open>None\<close> where the code says
  \<open>continue\<close>; the outer option is the one of the array accesses.
\<close>

definition forget_filter :: "(int \<Rightarrow> bool) \<Rightarrow> partic_t \<Rightarrow> int \<Rightarrow> bool option" where
  "forget_filter on thisconf i = do {
     n \<leftarrow> idx (pt_responses thisconf) i;
     if n = -2 then Some (\<not> (\<not> on M_NOFORGET \<and> \<not> on M_FORGOTTEN))
     else Some (\<not> on M_FORGOTTEN) }"

definition unseen_filter :: "(int \<Rightarrow> bool) \<Rightarrow> partic_t \<Rightarrow> int \<Rightarrow> bool option" where
  "unseen_filter on thisconf i =
     (if \<not> on M_UNSEEN then Some True
      else if i > pt_items thisconf then Some False
      else do { n \<leftarrow> idx (pt_responses thisconf) i; Some (n = -1) })"

text \<open>The filters NEW ITEMS and NEW RESPS, and with the table \<open>fresh\<close> the filters FRESH ITEMS and FRESH RESPS.\<close>

definition new_filter :: "(int \<Rightarrow> bool) \<Rightarrow> int \<Rightarrow> master_template \<Rightarrow> partic_t \<Rightarrow> int \<Rightarrow> int \<times> int \<Rightarrow> (int \<times> int) option option" where
  "new_filter on slot master seen i rs =
     (if \<not> on slot then Some (Some rs)
      else if \<not> on M_RESPONSES then Some (if i \<le> pt_items seen then None else Some rs)
      else do {
        n \<leftarrow> idx (pt_responses seen) i;
        if n < 0 then Some None
        else if pt_items seen < i then Some None
        else do {
          m \<leftarrow> idx (m_responses master) i;
          if n \<ge> m then Some None
          else do {
            b \<leftarrow> idx (pt_backresp seen) i;
            let lo = max_c (fst rs) (n - b + 1);
                hi = min_c (snd rs) m
            in Some (if lo > hi \<and> hi \<noteq> -1 then None else Some (lo, hi)) } } })"

definition filter_item :: "(int \<Rightarrow> bool) \<Rightarrow> np_tables \<Rightarrow> Rlist_t \<Rightarrow> int \<Rightarrow> growing \<Rightarrow> growing option" where
  "filter_item on tabs rl i g =
     (if i = 0 then Some g
      else do {
        ok \<leftarrow> forget_filter on (np_part tabs) i;
        if \<not> ok then Some g
        else do {
          ok \<leftarrow> unseen_filter on (np_part tabs) i;
          if \<not> ok then Some g
          else do {
            r \<leftarrow> new_filter on M_NEW (np_master tabs) (np_part tabs) i (r0 rl, r1 rl);
            case r of None \<Rightarrow> Some g
            | Some rs \<Rightarrow> do {
                r \<leftarrow> new_filter on M_FRESH (np_master tabs) (np_fresh tabs) i rs;
                case r of None \<Rightarrow> Some g
                | Some (lo, hi) \<Rightarrow> rl_push i lo hi g } } } })"

definition np_filter :: "(int \<Rightarrow> bool) \<Rightarrow> np_tables \<Rightarrow> Rlist \<Rightarrow> Rlist option" where
  "np_filter on tabs rlnew = do {
     (result, _) \<leftarrow> nodes_loop (filter_item on tabs) (tl rlnew) ([a_mak_rlist], 0);
     Some result }"

section \<open>Lists under construction\<close>

text \<open>
  All nodes lie between item 0 and item \<open>hi\<close>, and their responses satisfy \<open>R\<close>. A node may be empty, but only just: the next
  item extends it.
\<close>

definition wf_node :: "int \<Rightarrow> (int \<Rightarrow> int \<Rightarrow> bool) \<Rightarrow> Rlist_t \<Rightarrow> bool" where
  "wf_node hi R p \<longleftrightarrow> 0 \<le> i0 p \<and> i0 p \<le> i1 p + 1 \<and> i1 p \<le> hi \<and> R (r0 p) (r1 p)"

definition grown :: "int \<Rightarrow> (int \<Rightarrow> int \<Rightarrow> bool) \<Rightarrow> growing \<Rightarrow> bool" where
  "grown hi R g \<longleftrightarrow> (\<exists>ps. fst g = a_mak_rlist # ps \<and> snd g \<le> length ps \<and> (\<forall>p \<in> set ps. wf_node hi R p))"

definition short :: "int \<Rightarrow> bool" where
  "short v \<longleftrightarrow> - (2 ^ 15) \<le> v \<and> v < 2 ^ 15"

lemma grown_start: "grown hi R ([a_mak_rlist], 0)"
  by (simp add: grown_def)

lemma add_to_rlist_wf:
  assumes "\<forall>p \<in> set ps. wf_node hi R p" and "add_to_rlist ps item a b = Some (k, ps')"
    and "0 \<le> item" "item \<le> hi" "hi < 2 ^ 15" "short a" "short b" "R a b"
  shows "\<forall>p \<in> set ps'. wf_node hi R p"
  using assms(1,2)
proof (induction ps arbitrary: k ps')
  case Nil
  then show ?case by simp
next
  case (Cons p ps)
  have n: "wf_node hi R (set_node item item a b)"
    using assms(3-8) set_node_fields [of item item a b] by (simp add: wf_node_def short_def)
  have e: "wf_node hi R (p\<lparr>i1 := wrap16 item\<rparr>)" if "item = i1 p + 1"
    using Cons.prems(1) that assms(3-5) wrap16_id [of item] by (auto simp: wf_node_def)
  show ?case
  proof (cases "item = i1 p + 1 \<and> a = r0 p \<and> b = r1 p")
    case True
    then have "ps' = p\<lparr>i1 := wrap16 item\<rparr> # ps" using Cons.prems(2) by (auto split: if_splits)
    then show ?thesis using Cons.prems(1) e True by simp
  next
    case False
    then show ?thesis using Cons n by (auto split: if_splits bind_splits)
  qed
qed

lemma rl_push_ok:
  assumes "grown hi R g" and "0 \<le> item" "item \<le> hi" "hi < 2 ^ 15" "short a" "short b" "R a b"
  obtains g' where "rl_push item a b g = Some g'" "grown hi R g'" "den (fst g') = den (fst g) \<union> {item} \<times> {high a .. high b}"
proof -
  obtain ps n where g: "g = (a_mak_rlist # ps, n)" "n \<le> length ps" "\<forall>p \<in> set ps. wf_node hi R p"
    using assms(1) by (cases g) (auto simp: grown_def)
  have w: "\<forall>p \<in> set ps. i0 p \<le> i1 p + 1" using g(3) by (simp add: wf_node_def)
  have s: "0 \<le> item" "item < 2 ^ 15" "- (2 ^ 15) \<le> a" "a < 2 ^ 15" "- (2 ^ 15) \<le> b" "b < 2 ^ 15" using assms(2-6) by (auto simp: short_def)
  show thesis
  proof (cases n)
    case 0
    obtain k ps' where k: "add_to_rlist (a_mak_rlist # ps) item a b = Some (Suc k, a_mak_rlist # ps')"
      "den (a_mak_rlist # ps') = den (a_mak_rlist # ps) \<union> {item} \<times> {high a .. high b}" "k < length ps'"
      by (rule add_to_head_den [OF w s])
    have "\<forall>p \<in> set ps'. wf_node hi R p"
    proof (cases "ps = []")
      case True
      then have "ps' = [set_node item item a b]" using k(1) assms(2) by (auto simp: a_mak_rlist_def split: if_splits)
      then show ?thesis using assms(2-7) set_node_fields [of item item a b] by (simp add: wf_node_def short_def)
    next
      case False
      then have "add_to_rlist ps item a b = Some (k, ps')" using k(1) assms(2) by (auto simp: a_mak_rlist_def split: if_splits bind_splits)
      then show ?thesis by (rule add_to_rlist_wf [OF g(3) _ assms(2-7)])
    qed
    then show thesis using that [of "(a_mak_rlist # ps', Suc k)"] k g(1) 0 by (simp add: rl_push_def grown_def)
  next
    case (Suc m)
    have ne: "drop m ps \<noteq> []" using g(2) Suc by simp
    have d: "\<forall>p \<in> set (drop m ps). wf_node hi R p" using g(3) by (meson in_set_dropD)
    then have "\<forall>p \<in> set (drop m ps). i0 p \<le> i1 p + 1" by (simp add: wf_node_def)
    from add_to_rlist_den [OF ne this s] obtain k qs where k: "add_to_rlist (drop m ps) item a b = Some (k, qs)" "k < length qs"
      "(\<Union>p \<in> set qs. cells p) = (\<Union>p \<in> set (drop m ps). cells p) \<union> {item} \<times> {high a .. high b}" by blast
    have q: "\<forall>p \<in> set qs. wf_node hi R p" by (rule add_to_rlist_wf [OF d k(1) assms(2-7)])
    have t: "\<forall>p \<in> set (take m ps). wf_node hi R p" using g(3) by (meson in_set_takeD)
    have "(\<Union>p \<in> set ps. cells p) = (\<Union>p \<in> set (take m ps). cells p) \<union> (\<Union>p \<in> set (drop m ps). cells p)"
      by (metis UN_Un append_take_drop_id set_append)
    then have "(\<Union>p \<in> set (take m ps @ qs). cells p) = (\<Union>p \<in> set ps. cells p) \<union> {item} \<times> {high a .. high b}"
      by (simp only: set_append UN_Un k(3) Un_assoc)
    moreover have "m \<le> length ps" using g(2) Suc by simp
    ultimately show thesis using that [of "(a_mak_rlist # take m ps @ qs, n + k)"] k(1,2) g(1) Suc q t
      by (simp add: rl_push_def grown_def ball_Un)
  qed
qed

section \<open>What a loop over items collects\<close>

locale cell_scan =
  fixes body :: "Rlist_t \<Rightarrow> int \<Rightarrow> growing \<Rightarrow> growing option"
    and cell :: "Rlist_t \<Rightarrow> int \<Rightarrow> (int \<times> int) set"
    and fits :: "Rlist_t \<Rightarrow> int \<Rightarrow> bool"
    and growth :: "growing \<Rightarrow> bool"
  assumes body_ok: "fits p i \<Longrightarrow> growth g \<Longrightarrow> \<exists>g'. body p i g = Some g' \<and> growth g' \<and> den (fst g') = den (fst g) \<union> cell p i"
begin

lemma items_ok:
  assumes "\<forall>i \<in> {lo .. hi}. fits p i" and "growth g"
  shows "\<exists>g'. items_loop (body p) lo hi g = Some g' \<and> growth g' \<and> den (fst g') = den (fst g) \<union> (\<Union>i \<in> {lo .. hi}. cell p i)"
  using assms
proof (induction "nat (hi + 1 - lo)" arbitrary: lo g)
  case 0
  then show ?case by (subst items_loop.simps) simp
next
  case (Suc n)
  then have le: "lo \<le> hi" by simp
  have n: "n = nat (hi + 1 - (lo + 1))" using Suc.hyps(2) by simp
  have "fits p lo" using le Suc.prems(1) by simp
  then obtain g1 where g1: "body p lo g = Some g1" "growth g1" "den (fst g1) = den (fst g) \<union> cell p lo" using body_ok [OF _ Suc.prems(2)] by blast
  obtain g2 where g2: "items_loop (body p) (lo + 1) hi g1 = Some g2" "growth g2"
      "den (fst g2) = den (fst g1) \<union> (\<Union>i \<in> {lo + 1 .. hi}. cell p i)"
    using Suc.hyps(1) [of "lo + 1" g1, OF n _ g1(2)] Suc.prems(1) by auto
  have "{lo .. hi} = insert lo {lo + 1 .. hi}" using le by auto
  then have "den (fst g2) = den (fst g) \<union> (\<Union>i \<in> {lo .. hi}. cell p i)" using g1(3) g2(3) by auto
  moreover have "items_loop (body p) lo hi g = Some g2" using le g1(1) g2(1) by (subst items_loop.simps) simp
  ultimately show ?case using g2(2) by blast
qed

lemma nodes_ok:
  assumes "\<forall>p \<in> set ps. \<forall>i \<in> {i0 p .. i1 p}. fits p i" and "growth g"
  shows "\<exists>g'. nodes_loop body ps g = Some g' \<and> growth g' \<and>
    den (fst g') = den (fst g) \<union> (\<Union>p \<in> set ps. \<Union>i \<in> {i0 p .. i1 p}. cell p i)"
  using assms
proof (induction ps arbitrary: g)
  case Nil
  then show ?case by simp
next
  case (Cons p ps)
  have f: "\<forall>i \<in> {i0 p .. i1 p}. fits p i" using Cons.prems(1) by simp
  obtain g1 where g1: "items_loop (body p) (i0 p) (i1 p) g = Some g1" "growth g1"
      "den (fst g1) = den (fst g) \<union> (\<Union>i \<in> {i0 p .. i1 p}. cell p i)" using items_ok [OF f Cons.prems(2)] by blast
  obtain g2 where g2: "nodes_loop body ps g1 = Some g2" "growth g2"
      "den (fst g2) = den (fst g1) \<union> (\<Union>p \<in> set ps. \<Union>i \<in> {i0 p .. i1 p}. cell p i)" using Cons.IH [OF _ g1(2)] Cons.prems(1) by auto
  then show ?case using g1 by auto
qed

end

section \<open>The tables\<close>

definition master_ok :: "master_template \<Rightarrow> bool" where
  "master_ok master \<longleftrightarrow> 0 \<le> m_items master \<and> m_items master < 2 ^ 15 \<and> m_items master < int (length (m_responses master)) \<and>
     (\<forall>v \<in> set (m_responses master). short v)"

definition seen_ok :: "master_template \<Rightarrow> partic_t \<Rightarrow> bool" where
  "seen_ok master seen \<longleftrightarrow> m_items master < int (length (pt_responses seen)) \<and> m_items master < int (length (pt_backresp seen)) \<and>
     (\<forall>v \<in> set (pt_responses seen). short v) \<and> (\<forall>v \<in> set (pt_backresp seen). 0 \<le> v)"

definition tables_ok :: "np_tables \<Rightarrow> bool" where
  "tables_ok tabs \<longleftrightarrow> master_ok (np_master tabs) \<and> seen_ok (np_master tabs) (np_part tabs) \<and> seen_ok (np_master tabs) (np_fresh tabs)"

text \<open>Explicit responses: the first one is not the last one by name.\<close>

definition resp_range :: "int \<Rightarrow> int \<Rightarrow> bool" where
  "resp_range a b \<longleftrightarrow> 0 \<le> a \<and> a < 2 ^ 15 \<and> -1 \<le> b \<and> b < 2 ^ 15"

lemma resp_range_short: "resp_range a b \<Longrightarrow> short a \<and> short b"
  by (simp add: resp_range_def short_def)

definition there :: "master_template \<Rightarrow> int \<Rightarrow> bool" where
  "there master i \<longleftrightarrow> 1 \<le> i \<and> i \<le> m_items master \<and> 0 \<le> m_responses master ! nat i"

definition assemble_cells :: "master_template \<Rightarrow> Rlist_t \<Rightarrow> int \<Rightarrow> (int \<times> int) set" where
  "assemble_cells master p i = (if there master i then {i} \<times> {high (r0 p) .. high (r1 p)} else {})"

definition assemble_fits :: "master_template \<Rightarrow> Rlist_t \<Rightarrow> int \<Rightarrow> bool" where
  "assemble_fits master p i \<longleftrightarrow> master_ok master \<and> 0 \<le> i \<and> resp_range (r0 p) (r1 p)"

lemma assemble_item_ok:
  assumes f: "assemble_fits master p i" and g: "grown (m_items master) resp_range g"
  shows "\<exists>g'. assemble_item master p i g = Some g' \<and> grown (m_items master) resp_range g' \<and> den (fst g') = den (fst g) \<union> assemble_cells master p i"
proof -
  have m: "master_ok master" "0 \<le> i" "resp_range (r0 p) (r1 p)" using f by (simp_all add: assemble_fits_def)
  show ?thesis
  proof (cases "there master i")
    case True
    then have i: "0 \<le> i" "i \<le> m_items master" "m_items master < 2 ^ 15" "idx (m_responses master) i = Some (m_responses master ! nat i)"
      using m(1) by (auto simp: there_def master_ok_def idx_def)
    obtain g' where "rl_push i (r0 p) (r1 p) g = Some g'" "grown (m_items master) resp_range g'" "den (fst g') = den (fst g) \<union> {i} \<times> {high (r0 p) .. high (r1 p)}"
      using rl_push_ok [OF g i(1-3)] resp_range_short [OF m(3)] m(3) by blast
    moreover have "assemble_item master p i g = rl_push i (r0 p) (r1 p) g" using i True by (simp add: assemble_item_def there_def)
    ultimately show ?thesis using True by (simp add: assemble_cells_def)
  next
    case False
    then have "assemble_item master p i g = Some g" using m(1,2) by (auto simp: assemble_item_def there_def master_ok_def idx_def)
    then show ?thesis using False g by (simp add: assemble_cells_def)
  qed
qed

interpretation assem: cell_scan "assemble_item master" "assemble_cells master" "assemble_fits master" "grown (m_items master) resp_range"
  by unfold_locales (rule assemble_item_ok)

lemma assemble_cells_node:
  "(\<Union>i \<in> {i0 p .. i1 p}. assemble_cells master p i) = cells p \<inter> {(i, r). there master i}"
  by (auto simp: assemble_cells_def cells_def split: if_splits)

definition items_ok :: "Rlist_t \<Rightarrow> bool" where
  "items_ok p \<longleftrightarrow> 0 \<le> i0 p \<and> resp_range (r0 p) (r1 p)"

lemma assemble_sets_ok:
  assumes "master_ok master" and "\<forall>rl \<in> set rls. \<forall>p \<in> set (tl rl). items_ok p" and "grown (m_items master) resp_range g"
  shows "\<exists>g'. assemble_sets master rls g = Some g' \<and> grown (m_items master) resp_range g' \<and>
    den (fst g') = den (fst g) \<union> (\<Union>rl \<in> set rls. den rl) \<inter> {(i, r). there master i}"
  using assms(2,3)
proof (induction rls arbitrary: g)
  case Nil
  then show ?case by simp
next
  case (Cons rl rls)
  have "\<forall>p \<in> set (tl rl). \<forall>i \<in> {i0 p .. i1 p}. assemble_fits master p i"
    using assms(1) Cons.prems(1) by (auto simp: assemble_fits_def items_ok_def)
  from assem.nodes_ok [OF this Cons.prems(2)] obtain g1 where g1: "nodes_loop (assemble_item master) (tl rl) g = Some g1"
    "grown (m_items master) resp_range g1" "den (fst g1) = den (fst g) \<union> (\<Union>p \<in> set (tl rl). cells p \<inter> {(i, r). there master i})"
    by (auto simp: assemble_cells_node)
  obtain g2 where g2: "assemble_sets master rls g1 = Some g2" "grown (m_items master) resp_range g2"
    "den (fst g2) = den (fst g1) \<union> (\<Union>rl \<in> set rls. den rl) \<inter> {(i, r). there master i}" using Cons.IH [OF _ g1(2)] Cons.prems(1) by auto
  have "den (fst g2) = den (fst g) \<union> (\<Union>rl \<in> set (rl # rls). den rl) \<inter> {(i, r). there master i}"
    unfolding g2(3) g1(3) by (auto simp: den_def [of rl])
  then show ?case using g1(1) g2(1,2) by auto
qed

lemma np_assemble_ok:
  assumes "master_ok master" and "\<forall>rl \<in> set rls. \<forall>p \<in> set (tl rl). items_ok p"
  obtains rl where "np_assemble master rls = Some rl" "\<forall>p \<in> set (tl rl). wf_node (m_items master) resp_range p"
    "den rl = (\<Union>rl \<in> set rls. den rl) \<inter> {(i, r). there master i}"
proof -
  obtain g where g: "assemble_sets master rls ([a_mak_rlist], 0) = Some g" "grown (m_items master) resp_range g"
    "den (fst g) = (\<Union>rl \<in> set rls. den rl) \<inter> {(i, r). there master i}"
    using assemble_sets_ok [OF assms grown_start] by auto
  show thesis by (rule that [of "fst g"]) (use g in \<open>auto simp: np_assemble_def grown_def split: prod.splits\<close>)
qed

section \<open>The filters\<close>

definition filter_range :: "(int \<Rightarrow> bool) \<Rightarrow> np_tables \<Rightarrow> int \<Rightarrow> int \<times> int \<Rightarrow> (int \<times> int) option option" where
  "filter_range on tabs i rs = do {
     ok \<leftarrow> forget_filter on (np_part tabs) i;
     if \<not> ok then Some None
     else do {
       ok \<leftarrow> unseen_filter on (np_part tabs) i;
       if \<not> ok then Some None
       else do {
         r \<leftarrow> new_filter on M_NEW (np_master tabs) (np_part tabs) i rs;
         case r of None \<Rightarrow> Some None | Some rs \<Rightarrow> new_filter on M_FRESH (np_master tabs) (np_fresh tabs) i rs } } }"

lemma filter_item_range:
  "i \<noteq> 0 \<Longrightarrow> filter_item on tabs rl i g =
     do { r \<leftarrow> filter_range on tabs i (r0 rl, r1 rl); case r of None \<Rightarrow> Some g | Some (lo, hi) \<Rightarrow> rl_push i lo hi g }"
  by (auto simp: filter_item_def filter_range_def split: bind_splits option.splits)

text \<open>What the modifiers ask of a response that exists.\<close>

definition new_pair :: "(int \<Rightarrow> bool) \<Rightarrow> int \<Rightarrow> master_template \<Rightarrow> partic_t \<Rightarrow> int \<Rightarrow> int \<Rightarrow> bool" where
  "new_pair on slot master seen i r \<longleftrightarrow>
     (on slot \<longrightarrow>
      (if on M_RESPONSES
       then i \<le> pt_items seen \<and> 0 \<le> pt_responses seen ! nat i \<and> pt_responses seen ! nat i < m_responses master ! nat i \<and>
         pt_responses seen ! nat i - pt_backresp seen ! nat i < r
       else pt_items seen < i))"

definition wanted :: "(int \<Rightarrow> bool) \<Rightarrow> np_tables \<Rightarrow> int \<Rightarrow> int \<Rightarrow> bool" where
  "wanted on tabs i r \<longleftrightarrow>
     (let n = pt_responses (np_part tabs) ! nat i in
       (n = -2 \<longrightarrow> on M_NOFORGET \<or> on M_FORGOTTEN) \<and> (on M_FORGOTTEN \<longrightarrow> n = -2) \<and>
       (on M_UNSEEN \<longrightarrow> i \<le> pt_items (np_part tabs) \<and> n = -1)) \<and>
     new_pair on M_NEW (np_master tabs) (np_part tabs) i r \<and> new_pair on M_FRESH (np_master tabs) (np_fresh tabs) i r"

lemma idx_in: "0 \<le> i \<Longrightarrow> i < int (length xs) \<Longrightarrow> idx xs i = Some (xs ! nat i)"
  by (simp add: idx_def)

lemma new_filter_ok:
  assumes "master_ok master" "seen_ok master seen" and "1 \<le> i" "i \<le> m_items master" and "resp_range lo hi"
  obtains q where "new_filter on slot master seen i (lo, hi) = Some q"
    "\<And>a b. q = Some (a, b) \<Longrightarrow> resp_range a b"
    "\<And>r. r \<le> m_responses master ! nat i \<Longrightarrow>
       (case q of None \<Rightarrow> False | Some (a, b) \<Rightarrow> high a \<le> r \<and> r \<le> high b) \<longleftrightarrow> high lo \<le> r \<and> r \<le> high hi \<and> new_pair on slot master seen i r"
proof -
  let ?n = "pt_responses seen ! nat i" and ?b = "pt_backresp seen ! nat i" and ?m = "m_responses master ! nat i"
  have x: "idx (pt_responses seen) i = Some ?n" "idx (pt_backresp seen) i = Some ?b" "idx (m_responses master) i = Some ?m"
    by (rule idx_in; use assms in \<open>simp add: master_ok_def seen_ok_def\<close>)+
  have v: "short ?m" "short ?n" "0 \<le> ?b" using assms by (auto simp: master_ok_def seen_ok_def)
  show thesis
  proof (cases "on slot \<and> on M_RESPONSES")
    case False
    then have "new_filter on slot master seen i (lo, hi) = Some (if on slot \<and> i \<le> pt_items seen then None else Some (lo, hi))"
      by (auto simp: new_filter_def)
    then show thesis by (rule that) (use False assms(5) in \<open>auto simp: new_pair_def split: if_splits\<close>)
  next
    case True
    show thesis
    proof (cases "?n < 0 \<or> pt_items seen < i \<or> ?n \<ge> ?m")
      case out: True
      then show thesis using that [of None] True x by (auto simp: new_filter_def new_pair_def)
    next
      case False
      let ?lo = "max_c lo (?n - ?b + 1)" and ?hi = "min_c hi ?m"
      have e: "new_filter on slot master seen i (lo, hi) = Some (if ?lo > ?hi \<and> ?hi \<noteq> -1 then None else Some (?lo, ?hi))"
        using True False x by (simp add: new_filter_def Let_def)
      have r: "resp_range ?lo ?hi" using assms(5) v False by (auto simp: resp_range_def short_def max_c_def min_c_def)
      have s: "high ?lo \<le> r \<and> r \<le> high ?hi \<longleftrightarrow> high lo \<le> r \<and> r \<le> high hi \<and> new_pair on slot master seen i r" if "r \<le> ?m" for r
        using that assms(5) r v False True
        by (auto simp: high_def HIGHBOUND_def max_c_def min_c_def new_pair_def resp_range_def short_def)
      have em: "\<not> (high ?lo \<le> x \<and> x \<le> high ?hi)" if "?lo > ?hi" "?hi \<noteq> -1" for x
        using that r by (auto simp: high_def resp_range_def)
      show thesis
      proof (rule that [OF e])
        show "resp_range a b" if "(if ?lo > ?hi \<and> ?hi \<noteq> -1 then None else Some (?lo, ?hi)) = Some (a, b)" for a b
          using that r by (auto split: if_splits)
        show "(case if ?lo > ?hi \<and> ?hi \<noteq> -1 then None else Some (?lo, ?hi) of None \<Rightarrow> False | Some (a, b) \<Rightarrow> high a \<le> x \<and> x \<le> high b) \<longleftrightarrow>
            high lo \<le> x \<and> x \<le> high hi \<and> new_pair on slot master seen i x" if "x \<le> ?m" for x
          using s [OF that] em [of x] by (cases "?lo > ?hi \<and> ?hi \<noteq> -1") auto
      qed
    qed
  qed
qed

lemma filter_range_ok:
  assumes t: "tables_ok tabs" and i: "1 \<le> i" "i \<le> m_items (np_master tabs)" and "resp_range lo hi"
  obtains q where "filter_range on tabs i (lo, hi) = Some q"
    "\<And>a b. q = Some (a, b) \<Longrightarrow> resp_range a b"
    "\<And>r. r \<le> m_responses (np_master tabs) ! nat i \<Longrightarrow>
       (case q of None \<Rightarrow> False | Some (a, b) \<Rightarrow> high a \<le> r \<and> r \<le> high b) \<longleftrightarrow> high lo \<le> r \<and> r \<le> high hi \<and> wanted on tabs i r"
proof -
  have k: "master_ok (np_master tabs)" "seen_ok (np_master tabs) (np_part tabs)" "seen_ok (np_master tabs) (np_fresh tabs)"
    using t by (simp_all add: tables_ok_def)
  let ?n = "pt_responses (np_part tabs) ! nat i"
  have x: "idx (pt_responses (np_part tabs)) i = Some ?n" by (rule idx_in) (use i k(2) in \<open>simp_all add: seen_ok_def\<close>)
  define ok where "ok \<longleftrightarrow> (?n = -2 \<longrightarrow> on M_NOFORGET \<or> on M_FORGOTTEN) \<and> (on M_FORGOTTEN \<longrightarrow> ?n = -2) \<and>
    (on M_UNSEEN \<longrightarrow> i \<le> pt_items (np_part tabs) \<and> ?n = -1)"
  have start: "filter_range on tabs i (lo, hi) =
     (if \<not> ok then Some None
      else do { r \<leftarrow> new_filter on M_NEW (np_master tabs) (np_part tabs) i (lo, hi);
         case r of None \<Rightarrow> Some None | Some rs \<Rightarrow> new_filter on M_FRESH (np_master tabs) (np_fresh tabs) i rs })"
    using x by (auto simp: filter_range_def forget_filter_def unseen_filter_def ok_def)
  have w: "wanted on tabs i r \<longleftrightarrow> ok \<and> new_pair on M_NEW (np_master tabs) (np_part tabs) i r \<and> new_pair on M_FRESH (np_master tabs) (np_fresh tabs) i r" for r
    by (simp add: wanted_def ok_def Let_def)
  show thesis
  proof (cases ok)
    case False
    show thesis by (rule that [of None]) (use start w False in auto)
  next
    case True
    obtain q where q: "new_filter on M_NEW (np_master tabs) (np_part tabs) i (lo, hi) = Some q" "\<And>a b. q = Some (a, b) \<Longrightarrow> resp_range a b"
      "\<And>r. r \<le> m_responses (np_master tabs) ! nat i \<Longrightarrow> (case q of None \<Rightarrow> False | Some (a, b) \<Rightarrow> high a \<le> r \<and> r \<le> high b) \<longleftrightarrow>
         high lo \<le> r \<and> r \<le> high hi \<and> new_pair on M_NEW (np_master tabs) (np_part tabs) i r"
      by (rule new_filter_ok [OF k(1,2) i assms(4)]) blast
    show thesis
    proof (cases q)
      case None
      show thesis by (rule that [of None]) (use start w True q None in auto)
    next
      case (Some rs)
      then obtain a b where ab: "q = Some (a, b)" "rs = (a, b)" by (cases rs) simp
      obtain q' where q': "new_filter on M_FRESH (np_master tabs) (np_fresh tabs) i (a, b) = Some q'" "\<And>a b. q' = Some (a, b) \<Longrightarrow> resp_range a b"
        "\<And>r. r \<le> m_responses (np_master tabs) ! nat i \<Longrightarrow> (case q' of None \<Rightarrow> False | Some (a, b) \<Rightarrow> high a \<le> r \<and> r \<le> high b) \<longleftrightarrow>
           high a \<le> r \<and> r \<le> high b \<and> new_pair on M_FRESH (np_master tabs) (np_fresh tabs) i r"
        by (rule new_filter_ok [OF k(1,3) i q(2) [OF ab(1)]]) blast
      have "filter_range on tabs i (lo, hi) = Some q'" using start True q(1) q'(1) ab by simp
      then show thesis by (rule that [OF _ q'(2)]) (use w True q(3) q'(3) ab in auto)
    qed
  qed
qed

definition filter_cells :: "(int \<Rightarrow> bool) \<Rightarrow> np_tables \<Rightarrow> Rlist_t \<Rightarrow> int \<Rightarrow> (int \<times> int) set" where
  "filter_cells on tabs p i = (if i = 0 then {} else case filter_range on tabs i (r0 p, r1 p) of
     Some (Some (a, b)) \<Rightarrow> {i} \<times> {high a .. high b} | _ \<Rightarrow> {})"

definition filter_fits :: "np_tables \<Rightarrow> Rlist_t \<Rightarrow> int \<Rightarrow> bool" where
  "filter_fits tabs p i \<longleftrightarrow> tables_ok tabs \<and> 0 \<le> i \<and> i \<le> m_items (np_master tabs) \<and> resp_range (r0 p) (r1 p)"

lemma filter_item_ok:
  assumes f: "filter_fits tabs p i" and g: "grown (m_items (np_master tabs)) resp_range g"
  shows "\<exists>g'. filter_item on tabs p i g = Some g' \<and> grown (m_items (np_master tabs)) resp_range g' \<and> den (fst g') = den (fst g) \<union> filter_cells on tabs p i"
proof (cases "i = 0")
  case True
  then show ?thesis using g by (simp add: filter_item_def filter_cells_def)
next
  case nz: False
  have t: "tables_ok tabs" "1 \<le> i" "i \<le> m_items (np_master tabs)" "resp_range (r0 p) (r1 p)" using f nz by (simp_all add: filter_fits_def)
  have h: "m_items (np_master tabs) < 2 ^ 15" using t(1) by (simp add: tables_ok_def master_ok_def)
  obtain q where q: "filter_range on tabs i (r0 p, r1 p) = Some q" "\<And>a b. q = Some (a, b) \<Longrightarrow> resp_range a b"
    by (rule filter_range_ok [OF t]) blast
  have e: "filter_item on tabs p i g = (case q of None \<Rightarrow> Some g | Some (lo, hi) \<Rightarrow> rl_push i lo hi g)"
    using filter_item_range [of i on tabs p g] t(2) q(1) by simp
  show ?thesis
  proof (cases q)
    case None
    then show ?thesis using e g q(1) nz by (simp add: filter_cells_def)
  next
    case (Some rs)
    then obtain a b where ab: "q = Some (a, b)" by (cases rs) simp
    have "0 \<le> i" using t(2) by simp
    from rl_push_ok [OF g this t(3) h] resp_range_short [OF q(2) [OF ab]] q(2) [OF ab]
    obtain g' where "rl_push i a b g = Some g'" "grown (m_items (np_master tabs)) resp_range g'" "den (fst g') = den (fst g) \<union> {i} \<times> {high a .. high b}" by blast
    then show ?thesis using e q(1) ab nz by (simp add: filter_cells_def)
  qed
qed

interpretation filt: cell_scan "filter_item on tabs" "filter_cells on tabs" "filter_fits tabs" "grown (m_items (np_master tabs)) resp_range"
  by unfold_locales (rule filter_item_ok)

lemma filter_cells_in:
  assumes "filter_fits tabs p i" and "r \<le> m_responses (np_master tabs) ! nat i"
  shows "(j, r) \<in> filter_cells on tabs p i \<longleftrightarrow> j = i \<and> i \<noteq> 0 \<and> high (r0 p) \<le> r \<and> r \<le> high (r1 p) \<and> wanted on tabs i r"
proof (cases "i = 0")
  case True
  then show ?thesis by (simp add: filter_cells_def)
next
  case nz: False
  have t: "tables_ok tabs" "1 \<le> i" "i \<le> m_items (np_master tabs)" "resp_range (r0 p) (r1 p)" using assms(1) nz by (simp_all add: filter_fits_def)
  obtain q where q: "filter_range on tabs i (r0 p, r1 p) = Some q"
    "(case q of None \<Rightarrow> False | Some (a, b) \<Rightarrow> high a \<le> r \<and> r \<le> high b) \<longleftrightarrow> high (r0 p) \<le> r \<and> r \<le> high (r1 p) \<and> wanted on tabs i r"
    by (rule filter_range_ok [OF t, of on]) (use assms(2) in blast)
  then show ?thesis using nz by (auto simp: filter_cells_def split: option.splits)
qed

lemma np_filter_ok:
  assumes t: "tables_ok tabs" and w: "\<forall>p \<in> set (tl rl). wf_node (m_items (np_master tabs)) resp_range p"
  obtains res where "np_filter on tabs rl = Some res" "\<forall>p \<in> set (tl res). wf_node (m_items (np_master tabs)) resp_range p"
    "hd res = a_mak_rlist" "res \<noteq> []"
    "\<And>i r. r \<le> m_responses (np_master tabs) ! nat i \<Longrightarrow> (i, r) \<in> den res \<longleftrightarrow> (i, r) \<in> den rl \<and> i \<noteq> 0 \<and> wanted on tabs i r"
proof -
  have f: "\<forall>p \<in> set (tl rl). \<forall>i \<in> {i0 p .. i1 p}. filter_fits tabs p i" using t w by (auto simp: filter_fits_def wf_node_def)
  obtain g where g: "nodes_loop (filter_item on tabs) (tl rl) ([a_mak_rlist], 0) = Some g" "grown (m_items (np_master tabs)) resp_range g"
    "den (fst g) = (\<Union>p \<in> set (tl rl). \<Union>i \<in> {i0 p .. i1 p}. filter_cells on tabs p i)"
    using filt.nodes_ok [OF f grown_start, of on] by auto
  show thesis
  proof (rule that [of "fst g"])
    show "np_filter on tabs rl = Some (fst g)" using g(1) by (simp add: np_filter_def split: prod.splits)
    show "\<forall>p \<in> set (tl (fst g)). wf_node (m_items (np_master tabs)) resp_range p" "hd (fst g) = a_mak_rlist" "fst g \<noteq> []"
      using g(2) by (auto simp: grown_def)
    fix i r
    assume r: "r \<le> m_responses (np_master tabs) ! nat i"
    have "(i, r) \<in> filter_cells on tabs p j \<longleftrightarrow> i = j \<and> i \<noteq> 0 \<and> high (r0 p) \<le> r \<and> r \<le> high (r1 p) \<and> wanted on tabs i r"
      if "p \<in> set (tl rl)" "j \<in> {i0 p .. i1 p}" for p j
    proof (cases "i = j")
      case True
      then show ?thesis using filter_cells_in [of tabs p i r i on] f that r by blast
    next
      case False
      then show ?thesis by (auto simp: filter_cells_def split: option.splits if_splits)
    qed
    then show "(i, r) \<in> den (fst g) \<longleftrightarrow> (i, r) \<in> den rl \<and> i \<noteq> 0 \<and> wanted on tabs i r"
      unfolding g(3) den_def [of rl] cells_def by fastforce
  qed
qed

section \<open>New and fresh responses\<close>

definition back_ok :: "partic_t \<Rightarrow> bool" where
  "back_ok seen \<longleftrightarrow> (\<forall>i < length (pt_responses seen). i < length (pt_backresp seen) \<longrightarrow> 0 \<le> pt_responses seen ! i \<longrightarrow>
     pt_backresp seen ! i \<le> pt_responses seen ! i + 1)"

definition resp_new_cells :: "master_template \<Rightarrow> partic_t \<Rightarrow> int \<Rightarrow> (int \<times> int) set" where
  "resp_new_cells master seen i =
     (let n = pt_responses seen ! nat i; m = m_responses master ! nat i
      in if 0 \<le> n \<and> n < m then {i} \<times> {n - pt_backresp seen ! nat i + 1 .. m} else {})"

definition resp_new_fits :: "master_template \<Rightarrow> partic_t \<Rightarrow> int \<Rightarrow> bool" where
  "resp_new_fits master seen i \<longleftrightarrow> master_ok master \<and> seen_ok master seen \<and> back_ok seen \<and> 0 \<le> i \<and> i \<le> m_items master"

lemma resp_new_item_ok:
  assumes f: "resp_new_fits master seen i" and g: "grown (m_items master) resp_range g"
  shows "\<exists>g'. resp_new_item master seen i g = Some g' \<and> grown (m_items master) resp_range g' \<and> den (fst g') = den (fst g) \<union> resp_new_cells master seen i"
proof -
  let ?n = "pt_responses seen ! nat i" and ?b = "pt_backresp seen ! nat i" and ?m = "m_responses master ! nat i"
  have k: "master_ok master" "seen_ok master seen" "back_ok seen" "0 \<le> i" "i \<le> m_items master" "m_items master < 2 ^ 15"
    using f by (simp_all add: resp_new_fits_def master_ok_def)
  have x: "idx (pt_responses seen) i = Some ?n" "idx (pt_backresp seen) i = Some ?b" "idx (m_responses master) i = Some ?m"
    by (rule idx_in; use k in \<open>simp add: master_ok_def seen_ok_def\<close>)+
  show ?thesis
  proof (cases "0 \<le> ?n \<and> ?n < ?m")
    case False
    then have "resp_new_item master seen i g = Some g" using x by (auto simp: resp_new_item_def)
    then show ?thesis using False g by (auto simp: resp_new_cells_def Let_def)
  next
    case True
    have v: "short ?m" "0 \<le> ?b" using k by (auto simp: master_ok_def seen_ok_def)
    have "nat i < length (pt_responses seen)" "nat i < length (pt_backresp seen)" using k(2,4,5) by (simp_all add: seen_ok_def nat_less_iff)
    then have "?b \<le> ?n + 1" using k(3) True by (simp add: back_ok_def)
    then have r: "resp_range (?n - ?b + 1) ?m" using True v by (simp add: resp_range_def short_def)
    from rl_push_ok [OF g k(4-6)] resp_range_short [OF r] r obtain g' where
      "rl_push i (?n - ?b + 1) ?m g = Some g'" "grown (m_items master) resp_range g'" "den (fst g') = den (fst g) \<union> {i} \<times> {high (?n - ?b + 1) .. high ?m}" by blast
    moreover have "high (?n - ?b + 1) = ?n - ?b + 1" "high ?m = ?m" using r True by (simp_all add: high_def resp_range_def)
    ultimately show ?thesis using True x by (simp add: resp_new_item_def resp_new_cells_def Let_def)
  qed
qed

interpretation fresh: cell_scan "\<lambda>rl. resp_new_item master seen" "\<lambda>rl. resp_new_cells master seen" "\<lambda>rl. resp_new_fits master seen"
    "grown (m_items master) resp_range"
  by unfold_locales (rule resp_new_item_ok)

lemma resp_new_ok:
  assumes "master_ok master" "seen_ok master seen" "back_ok seen" and "\<forall>p \<in> set (tl rl). 0 \<le> i0 p \<and> i1 p \<le> m_items master"
  obtains rl' where "resp_new master seen rl = Some rl'" "\<forall>p \<in> set (tl rl'). wf_node (m_items master) resp_range p"
    "den rl' = (\<Union>p \<in> set (tl rl). \<Union>i \<in> {i0 p .. i1 p}. resp_new_cells master seen i)"
proof -
  have f: "\<forall>p \<in> set (tl rl). \<forall>i \<in> {i0 p .. i1 p}. resp_new_fits master seen i" using assms by (auto simp: resp_new_fits_def)
  obtain g where g: "nodes_loop (\<lambda>rl. resp_new_item master seen) (tl rl) ([a_mak_rlist], 0) = Some g" "grown (m_items master) resp_range g"
    "den (fst g) = (\<Union>p \<in> set (tl rl). \<Union>i \<in> {i0 p .. i1 p}. resp_new_cells master seen i)"
    using fresh.nodes_ok [OF f grown_start] by auto
  show thesis by (rule that [of "fst g"]) (use g in \<open>auto simp: resp_new_def grown_def split: prod.splits\<close>)
qed

lemma items_loop_fails:
  assumes "\<And>g. body k g = None" and "lo \<le> k" "k \<le> n"
  shows "items_loop body lo n g = None"
  using assms(2)
proof (induction "nat (k - lo)" arbitrary: lo g)
  case 0
  then show ?case using assms by (subst items_loop.simps) simp
next
  case (Suc d)
  then have lt: "lo < k" by simp
  have "items_loop body (lo + 1) n g' = None" for g' by (rule Suc.hyps(1)) (use Suc.hyps(2) lt in simp_all)
  then show ?case using lt assms(3) by (subst items_loop.simps) (simp split: option.splits)
qed

lemma nodes_loop_fails:
  assumes "p \<in> set ps" and "\<And>g. body p k g = None" and "i0 p \<le> k" "k \<le> i1 p"
  shows "nodes_loop body ps g = None"
  using assms(1)
proof (induction ps arbitrary: g)
  case (Cons q ps)
  then show ?case using items_loop_fails [of "body p" k "i0 p" "i1 p" g] assms(2-4)
    by (cases "q = p"; cases "items_loop (body q) (i0 q) (i1 q) g") auto
qed simp

section \<open>Properties\<close>

text \<open>
  C20. The list that \<open>new_parse\<close> assembles from the selections stands for exactly the selected responses of the items that exist:
  items beyond the last one, item 0 and deleted items are left out, and nothing is lost or added, however the lists overlap.
\<close>

theorem np_assemble_exact:
  assumes "master_ok master" and "\<forall>rl \<in> set rlset. \<forall>p \<in> set (tl rl). 0 \<le> i0 p \<and> resp_range (r0 p) (r1 p)"
  shows "\<exists>rl. np_assemble master rlset = Some rl \<and>
    den rl = {(i, r). (\<exists>s \<in> set rlset. (i, r) \<in> den s) \<and> 1 \<le> i \<and> i \<le> m_items master \<and> 0 \<le> m_responses master ! nat i}"
proof -
  have k: "\<forall>rl \<in> set rlset. \<forall>p \<in> set (tl rl). items_ok p" using assms(2) by (simp add: items_ok_def)
  obtain rl where "np_assemble master rlset = Some rl" "den rl = (\<Union>rl \<in> set rlset. den rl) \<inter> {(i, r). there master i}"
    by (rule np_assemble_ok [OF assms(1) k])
  moreover have "(\<Union>rl \<in> set rlset. den rl) \<inter> {(i, r). there master i} =
      {(i, r). (\<exists>s \<in> set rlset. (i, r) \<in> den s) \<and> 1 \<le> i \<and> i \<le> m_items master \<and> 0 \<le> m_responses master ! nat i}"
    by (auto simp: there_def)
  ultimately show ?thesis by simp
qed

theorem np_assemble_exact_witness:
  "\<exists>rl. np_assemble \<lparr>m_items = 3, m_responses = [0, 4, -1, 2]\<rparr> [[a_mak_rlist, set_node 1 9 0 (-1)], [a_mak_rlist, set_node 3 3 1 2]] = Some rl \<and>
    den rl = {(i, r). (\<exists>s \<in> set [[a_mak_rlist, set_node 1 9 0 (-1)], [a_mak_rlist, set_node 3 3 1 2]]. (i, r) \<in> den s) \<and> 1 \<le> i \<and> i \<le> 3 \<and> 0 \<le> [0 :: int, 4, -1, 2] ! nat i}"
proof -
  let ?m = "\<lparr>m_items = 3, m_responses = [0, 4, -1, 2]\<rparr>" and ?rls = "[[a_mak_rlist, set_node 1 9 0 (-1)], [a_mak_rlist, set_node 3 3 1 2]]"
  have m: "master_ok ?m" by (simp add: master_ok_def short_def)
  have r: "\<forall>rl \<in> set ?rls. \<forall>p \<in> set (tl rl). 0 \<le> i0 p \<and> resp_range (r0 p) (r1 p)" by (simp add: set_node_fields resp_range_def)
  show ?thesis using np_assemble_exact [OF m r] by simp
qed

text \<open>
  C19. Pass 7 of \<open>new_parse\<close> filters exactly by the modifiers. Of the responses that exist, the result has those of the list that are
  not on item 0 and that every modifier given asks for: forgotten items only with NOFORGET or FORGOTTEN and nothing else
  with FORGOTTEN; with UNSEEN only items never looked at; with NEW or FRESH without RESPONSES only items behind those seen, with
  RESPONSES only the responses behind those seen, or the given number before, of items already seen.
\<close>

theorem np_filter_exact:
  assumes "tables_ok tabs" and "\<forall>p \<in> set (tl rl). wf_node (m_items (np_master tabs)) resp_range p"
  shows "\<exists>res. np_filter on tabs rl = Some res \<and>
    (\<forall>i r. r \<le> m_responses (np_master tabs) ! nat i \<longrightarrow>
      ((i, r) \<in> den res \<longleftrightarrow> (i, r) \<in> den rl \<and> i \<noteq> 0 \<and> wanted on tabs i r))"
  by (rule np_filter_ok [OF assms, of on]) blast

theorem np_filter_exact_witness:
  "\<exists>res. np_filter (\<lambda>k. k = M_NEW \<or> k = M_RESPONSES)
      \<lparr>np_master = \<lparr>m_items = 2, m_responses = [0, 4, 3]\<rparr>, np_part = \<lparr>pt_items = 2, pt_responses = [0, 2, 3], pt_backresp = [0, 1, 0]\<rparr>,
       np_fresh = \<lparr>pt_items = 2, pt_responses = [0, 2, 3], pt_backresp = [0, 0, 0]\<rparr>\<rparr> [a_mak_rlist, set_node 1 2 0 (-1)] = Some res \<and>
    (1, 2) \<in> den res \<and> (1, 4) \<in> den res \<and> (1, 1) \<notin> den res \<and> (2, 3) \<notin> den res"
proof -
  let ?on = "\<lambda>k. k = M_NEW \<or> k = M_RESPONSES" and ?rl = "[a_mak_rlist, set_node 1 2 0 (-1)]"
  let ?t = "\<lparr>np_master = \<lparr>m_items = 2, m_responses = [0, 4, 3]\<rparr>, np_part = \<lparr>pt_items = 2, pt_responses = [0, 2, 3], pt_backresp = [0, 1, 0]\<rparr>,
       np_fresh = \<lparr>pt_items = 2, pt_responses = [0, 2, 3], pt_backresp = [0, 0, 0]\<rparr>\<rparr>"
  have t: "tables_ok ?t" by (simp add: tables_ok_def master_ok_def seen_ok_def short_def)
  have w: "\<forall>p \<in> set (tl ?rl). wf_node (m_items (np_master ?t)) resp_range p" by (simp add: set_node_fields resp_range_def wf_node_def)
  obtain res where res: "np_filter ?on ?t ?rl = Some res"
    "\<forall>i r. r \<le> m_responses (np_master ?t) ! nat i \<longrightarrow> ((i, r) \<in> den res \<longleftrightarrow> (i, r) \<in> den ?rl \<and> i \<noteq> 0 \<and> wanted ?on ?t i r)"
    using np_filter_exact [OF t w] by blast
  show ?thesis using res(1) res(2) [rule_format, of 2 1] res(2) [rule_format, of 4 1] res(2) [rule_format, of 1 1] res(2) [rule_format, of 3 2]
    by (simp add: cells_def set_node_fields high_def HIGHBOUND_def wanted_def new_pair_def modifier_slots)
qed

text \<open>
  A response part NEW or FRESH replaces the selection by the responses that the user has not seen: for each selected item,
  deleted or never seen ones left out, those behind the last one seen, going back the number of responses the user asked for.
\<close>

theorem resp_new_exact:
  assumes "master_ok master" and "seen_ok master seen" and "back_ok seen" and "\<forall>p \<in> set (tl rl). 0 \<le> i0 p \<and> i1 p \<le> m_items master"
  shows "\<exists>rl'. resp_new master seen rl = Some rl' \<and>
    den rl' = {(i, r). (\<exists>p \<in> set (tl rl). i0 p \<le> i \<and> i \<le> i1 p) \<and> 0 \<le> pt_responses seen ! nat i \<and>
      pt_responses seen ! nat i < m_responses master ! nat i \<and>
      pt_responses seen ! nat i - pt_backresp seen ! nat i < r \<and> r \<le> m_responses master ! nat i}"
proof -
  obtain rl' where r: "resp_new master seen rl = Some rl'" "den rl' = (\<Union>p \<in> set (tl rl). \<Union>i \<in> {i0 p .. i1 p}. resp_new_cells master seen i)"
    by (rule resp_new_ok [OF assms])
  have "(\<Union>p \<in> set (tl rl). \<Union>i \<in> {i0 p .. i1 p}. resp_new_cells master seen i) =
      {(i, r). (\<exists>p \<in> set (tl rl). i0 p \<le> i \<and> i \<le> i1 p) \<and> 0 \<le> pt_responses seen ! nat i \<and> pt_responses seen ! nat i < m_responses master ! nat i \<and>
        pt_responses seen ! nat i - pt_backresp seen ! nat i < r \<and> r \<le> m_responses master ! nat i}"
    by (auto simp: resp_new_cells_def Let_def split: if_splits)
  then show ?thesis using r by simp
qed

theorem resp_new_exact_witness:
  "\<exists>rl'. resp_new \<lparr>m_items = 2, m_responses = [0, 4, 3]\<rparr> \<lparr>pt_items = 2, pt_responses = [0, 2, 3], pt_backresp = [0, 1, 0]\<rparr>
      [a_mak_rlist, set_node 1 2 0 (-1)] = Some rl' \<and> (1, 2) \<in> den rl' \<and> (1, 1) \<notin> den rl' \<and> (2, 3) \<notin> den rl'"
proof -
  let ?m = "\<lparr>m_items = 2, m_responses = [0, 4, 3]\<rparr>" and ?s = "\<lparr>pt_items = 2, pt_responses = [0, 2, 3], pt_backresp = [0, 1, 0]\<rparr>"
  let ?rl = "[a_mak_rlist, set_node 1 2 0 (-1)]"
  have h: "master_ok ?m" "seen_ok ?m ?s" "back_ok ?s" "\<forall>p \<in> set (tl ?rl). 0 \<le> i0 p \<and> i1 p \<le> m_items ?m"
    by (auto simp: master_ok_def seen_ok_def back_ok_def short_def set_node_fields less_Suc_eq numeral_3_eq_3)
  show ?thesis using resp_new_exact [OF h] by (auto simp: set_node_fields)
qed

text \<open>
  The same loop does not look at the number of items: if the selection names an item behind the end of the table of what the
  user has seen, the code reads outside of the table.
\<close>

theorem resp_new_overrun:
  assumes "p \<in> set (tl rl)" and "i0 p \<le> i1 p" and "int (length (pt_responses seen)) \<le> i1 p"
  shows "resp_new master seen rl = None"
proof -
  have "resp_new_item master seen (i1 p) g = None" for g using assms(3) by (simp add: resp_new_item_def idx_def nat_less_iff)
  then have "nodes_loop (\<lambda>rl. resp_new_item master seen) (tl rl) ([a_mak_rlist], 0) = None"
    using nodes_loop_fails [OF assms(1), of "\<lambda>rl. resp_new_item master seen" "i1 p"] assms(2) by simp
  then show ?thesis by (simp add: resp_new_def)
qed

theorem resp_new_overrun_witness:
  "resp_new \<lparr>m_items = 2, m_responses = replicate 9953 0\<rparr> \<lparr>pt_items = 2, pt_responses = replicate 9953 0, pt_backresp = replicate 9953 0\<rparr>
     [a_mak_rlist, set_node 1 30000 0 (-1)] = None"
  by (rule resp_new_overrun [of "set_node 1 30000 0 (-1)"]) (simp_all add: set_node_fields)

end
