(* ===== verification/NewParse.thy ===== *)
theory NewParse
  imports Selection Passes
begin

text \<open>
  \<open>new_parse\<close> (\<open>CV2/gen/newparse.c\<close>) as a whole: the line is split into tokens (passes 1 to 3, theory \<open>Select\<close>), the words for this and last become
  item numbers (pass 4), modifiers are taken out (pass 5), the remaining tokens become response lists (pass 6), and
  these are assembled and filtered (theory \<open>Passes\<close>). The routines that read the data base of the conference, \<open>nr_to_rlist\<close>,
  \<open>and_frozen\<close>, \<open>and_isince\<close> and \<open>and_rsince\<close>, are arguments, and so are the three tables of words of the dictionary.
\<close>

section \<open>Data\<close>

record this_template =
  th_number :: int
  th_rnum   :: int

text \<open>The routines on the data base. \<open>None\<close> inside of a result is the null list.\<close>

record np_base =
  b_named  :: "Chix \<Rightarrow> int \<Rightarrow> int \<Rightarrow> int \<Rightarrow> chx_state \<Rightarrow> (Rlist option \<times> chx_state) option"
  b_frozen :: "int \<Rightarrow> Rlist \<Rightarrow> chx_state \<Rightarrow> (Rlist \<times> chx_state) option"
  b_isince :: "Rlist \<Rightarrow> Chix \<Rightarrow> int \<Rightarrow> chx_state \<Rightarrow> (Rlist option \<times> chx_state) option"
  b_rsince :: "Rlist \<Rightarrow> Chix \<Rightarrow> int \<Rightarrow> chx_state \<Rightarrow> (Rlist option \<times> chx_state) option"

definition RLSET :: nat where "RLSET = 100"

section \<open>Pass 4: words for items\<close>

function last_item :: "int list \<Rightarrow> int \<Rightarrow> int option" where
  "last_item responses lastitem =
     (if lastitem > 0
      then case idx responses lastitem of None \<Rightarrow> None
        | Some n \<Rightarrow> if n < 0 then last_item responses (lastitem - 1) else Some lastitem
      else Some lastitem)"
  by pat_completeness auto
termination
  by (relation "measure (\<lambda>(responses, lastitem). nat lastitem)") auto

declare last_item.simps [simp del]

definition after_colon :: "int \<Rightarrow> Token list \<Rightarrow> bool option" where
  "after_colon this token = (if this > 0 then do { p \<leftarrow> idx token (this - 1); Some (hascolon p \<noteq> 0) } else Some False)"

definition item_nums :: "int \<Rightarrow> int \<Rightarrow> 'a Token_t \<Rightarrow> 'a Token_t" where
  "item_nums lastitem number t =
     (let t = (if num0 t = -1 then t\<lparr>num0 := lastitem\<rparr> else t);
          t = (if num1 t = -1 then t\<lparr>num1 := lastitem\<rparr> else t);
          t = (if num0 t = -999 then t\<lparr>num0 := number\<rparr> else t)
      in if num1 t = -999 then t\<lparr>num1 := number\<rparr> else t)"

partial_function (option) item_loop :: "int \<Rightarrow> int \<Rightarrow> int \<Rightarrow> Token list \<Rightarrow> Token list option" where
  "item_loop lastitem number this token = do {
     t \<leftarrow> idx token this;
     if t_type t = T_END then Some token
     else if t_type t \<noteq> T_NUM then item_loop lastitem number (this + 1) token
     else do {
       c \<leftarrow> after_colon this token;
       if c then item_loop lastitem number (this + 1) token
       else do {
         token \<leftarrow> tok_upd (item_nums lastitem number) this token;
         item_loop lastitem number (this + 1) token } } }"

section \<open>Pass 5: modifiers\<close>

text \<open>The slot of the modifier a token stands for, negative where the code says \<open>continue\<close>.\<close>

definition mod_field :: "Chix \<Rightarrow> Chix \<Rightarrow> int \<Rightarrow> Token list \<Rightarrow> chx_state \<Rightarrow> (int \<times> chx_state) option" where
  "mod_field mod_fields word1 this token s = do {
     t \<leftarrow> idx token this;
     if t_type t \<noteq> T_WORD \<and> t_type t \<noteq> T_NAME then Some (-1, s)
     else if hascolon t \<noteq> 0 then Some (-1, s)
     else do {
       c \<leftarrow> after_colon this token;
       if c then Some (-1, s)
       else do {
         (_, s) \<leftarrow> chxtoken word1 nullchix 1 (t_str t) s;
         tablematch mod_fields word1 s } } }"

definition mod_mark :: "Chix \<Rightarrow> Chix \<Rightarrow> Chix \<Rightarrow> int \<Rightarrow> Token \<Rightarrow> int list \<Rightarrow> int \<Rightarrow> chx_state \<Rightarrow> (int list \<times> int \<times> chx_state) option" where
  "mod_mark word1 since attach field t modifier sincepos s = do {
     modifier \<leftarrow> upd_idx modifier field 1;
     (sincepos, s) \<leftarrow>
       (if field = M_SINCE then do {
          (_, s) \<leftarrow> chxcpy since (t_str t) s;
          (n, s) \<leftarrow> chxlen word1 s;
          Some (wrap32 (t_pos t + n + 1), s) }
        else Some (sincepos, s));
     (_, s) \<leftarrow> (if field = M_ATTACH \<and> attach \<noteq> nullchix then chxtoken nullchix attach 2 (t_str t) s else Some (0, s));
     Some (modifier, sincepos, s) }"

partial_function (option) mod_loop ::
  "Chix \<Rightarrow> Chix \<Rightarrow> Chix \<Rightarrow> Chix \<Rightarrow> int \<Rightarrow> int list \<Rightarrow> int \<Rightarrow> Token list \<Rightarrow> chx_state \<Rightarrow> (int list \<times> int \<times> Token list \<times> chx_state) option" where
  "mod_loop mod_fields word1 since attach this modifier sincepos token s = do {
     t \<leftarrow> idx token this;
     if t_type t = T_END then Some (modifier, sincepos, token, s)
     else do {
       (field, s) \<leftarrow> mod_field mod_fields word1 this token s;
       if field < 0 then mod_loop mod_fields word1 since attach (this + 1) modifier sincepos token s
       else do {
         (modifier, sincepos, s) \<leftarrow> mod_mark word1 since attach field t modifier sincepos s;
         (_, token, s) \<leftarrow> delete_token token this s;
         mod_loop mod_fields word1 since attach this modifier sincepos token s } } }"

definition set_if :: "int \<Rightarrow> bool \<Rightarrow> int \<Rightarrow> int \<Rightarrow> int list \<Rightarrow> int list option" where
  "set_if given sense slot v modifier = do {
     m \<leftarrow> idx modifier given;
     if (m \<noteq> 0) = sense then upd_idx modifier slot v else Some modifier }"

definition mod_rules :: "int list \<Rightarrow> int list option" where
  "mod_rules modifier = do {
     modifier \<leftarrow> set_if M_NOATTACH True M_ATTACH 0 modifier;
     modifier \<leftarrow> set_if M_NOWAIT False M_WAIT 1 modifier;
     modifier \<leftarrow> set_if M_WAIT True M_NOWAIT 0 modifier;
     set_if M_ITEMS True M_RESPONSES 0 modifier }"

text \<open>The array of modifiers at the start: with \<open>clearmod\<close> its first \<open>MODIFIERS\<close> entries are set to 0.\<close>

definition clear_mods :: "bool \<Rightarrow> int list \<Rightarrow> int list option" where
  "clear_mods clearmod modifier =
     (if \<not> clearmod then Some modifier
      else if MODIFIERS \<le> length modifier then Some (replicate MODIFIERS 0 @ drop MODIFIERS modifier) else None)"

section \<open>Pass 6: response lists\<close>

text \<open>
  The lists built so far are \<open>rlset\<close>; \<open>rlthis\<close> is the last of them, or null while there is none. The array has \<open>RLSET\<close> places
  and the code does not check that. The outcome of a step is the place of an error, if any, and what \<open>new_parse\<close> carries on with.
\<close>

type_synonym np_step = "int option \<times> Rlist list \<times> int list \<times> chx_state"

definition rl_add :: "Rlist list \<Rightarrow> Rlist \<Rightarrow> Rlist list option" where
  "rl_add rlset rl = (if length rlset < RLSET then Some (rlset @ [rl]) else None)"

definition rl_replace :: "Rlist list \<Rightarrow> Rlist \<Rightarrow> Rlist list" where
  "rl_replace rlset rl = butlast rlset @ [rl]"

definition item_num :: "int \<Rightarrow> 'a Token_t \<Rightarrow> Rlist" where
  "item_num first t =
     (let p = set_node (num0 t) (num1 t) first (-1);
          p = (if i0 p < 0 then p\<lparr>i0 := 0\<rparr> else p);
          p = (if i1 p < 0 then p\<lparr>i1 := 0\<rparr> else p)
      in [a_mak_rlist, p])"

definition RESP_NUM :: "int \<Rightarrow> int \<Rightarrow> int" where
  "RESP_NUM rnum x = (if x = -999 then rnum else x)"

definition resp_num :: "int \<Rightarrow> 'a Token_t \<Rightarrow> Rlist \<Rightarrow> Rlist" where
  "resp_num rnum t rl =
     take 1 rl @ map (\<lambda>p. p\<lparr>r0 := wrap16 (RESP_NUM rnum (num0 t)), r1 := wrap16 (RESP_NUM rnum (num1 t))\<rparr>) (tl rl)"

definition np_instance ::
  "np_base \<Rightarrow> np_tables \<Rightarrow> int \<Rightarrow> int \<Rightarrow> int \<Rightarrow> bool \<Rightarrow> int \<Rightarrow> bool \<Rightarrow> int \<Rightarrow> Token \<Rightarrow> Rlist list \<Rightarrow> int list \<Rightarrow> chx_state \<Rightarrow> np_step option" where
  "np_instance base tabs cnum rnum first errchk sincepos ipart field t rlset modifier s =
     (let master = np_master tabs; go = (\<lambda>rlset modifier s. Some (None, rlset, modifier, s))
      in if ipart \<and> t_type t = T_NUM then do {
           rlset \<leftarrow> rl_add rlset (item_num first t); go rlset modifier s }
         else if \<not> ipart \<and> t_type t = T_NUM then go (rl_replace rlset (resp_num rnum t (last rlset))) modifier s
         else if ipart \<and> t_type t = T_NAME then do {
           (rl, s) \<leftarrow> b_named base (t_str t) cnum first (m_items master) s;
           case rl of
             None \<Rightarrow> if errchk then Some (Some (t_pos t), rlset, modifier, s) else go rlset modifier s
           | Some rl \<Rightarrow> do { rlset \<leftarrow> rl_add rlset rl; go rlset modifier s } }
         else if ipart \<and> field = 2 then do {
           rlset \<leftarrow> rl_add rlset (item_new master (np_part tabs) first); go rlset modifier s }
         else if \<not> ipart \<and> field = 2 then do {
           rlnew \<leftarrow> resp_new master (np_part tabs) (last rlset); go (rl_replace rlset rlnew) modifier s }
         else if ipart \<and> field = 6 then do {
           rlset \<leftarrow> rl_add rlset (item_new master (np_fresh tabs) first); go rlset modifier s }
         else if \<not> ipart \<and> field = 6 then do {
           rlnew \<leftarrow> resp_new master (np_fresh tabs) (last rlset); go (rl_replace rlset rlnew) modifier s }
         else if ipart \<and> field = 3 then do {
           rl \<leftarrow> item_coded (np_part tabs) (-1) first;
           rlset \<leftarrow> rl_add rlset rl; go rlset modifier s }
         else if ipart \<and> field = 5 then do {
           rl \<leftarrow> item_coded (np_part tabs) (-2) first;
           rlset \<leftarrow> rl_add rlset rl;
           modifier \<leftarrow> upd_idx modifier M_NOFORGET 1;
           go rlset modifier s }
         else if ipart \<and> field = 7 then do {
           (rl, s) \<leftarrow> b_frozen base cnum (rl_all (m_items master)) s;
           rlset \<leftarrow> rl_add rlset rl; go rlset modifier s }
         else if \<not> ipart \<and> field = 11 then do {
           (rlnew, s) \<leftarrow> b_rsince base (last rlset) (t_str t) cnum s;
           case rlnew of
             None \<Rightarrow> Some (Some sincepos, butlast rlset, modifier, s)
           | Some rlnew \<Rightarrow> go (rl_replace rlset rlnew) modifier s }
         else if errchk then Some (Some (t_pos t), rlset, modifier, s)
         else go rlset modifier s)"

definition word_field :: "Chix \<Rightarrow> Chix \<Rightarrow> Token \<Rightarrow> chx_state \<Rightarrow> (int \<times> chx_state) option" where
  "word_field mod_fields word1 t s =
     (if t_type t = T_WORD \<or> t_type t = T_NAME
      then do { (_, s) \<leftarrow> chxtoken word1 nullchix 1 (t_str t) s; tablematch mod_fields word1 s }
      else Some (-1, s))"

definition np_token ::
  "np_base \<Rightarrow> np_tables \<Rightarrow> int \<Rightarrow> int \<Rightarrow> int \<Rightarrow> bool \<Rightarrow> int \<Rightarrow> Chix \<Rightarrow> Chix \<Rightarrow> int \<Rightarrow> Token list \<Rightarrow> Rlist list \<Rightarrow> int list \<Rightarrow> chx_state \<Rightarrow> np_step option" where
  "np_token base tabs cnum rnum first errchk sincepos mod_fields word1 this token rlset modifier s = do {
     t \<leftarrow> idx token this;
     c \<leftarrow> after_colon this token;
     if c \<and> errchk \<and> hascolon t \<noteq> 0 then do { u \<leftarrow> idx token (this + 1); Some (Some (t_pos u), rlset, modifier, s) }
     else do {
       (field, s) \<leftarrow> word_field mod_fields word1 t s;
       if c \<and> rlset = [] then Some (if errchk then Some (t_pos t) else None, rlset, modifier, s)
       else np_instance base tabs cnum rnum first errchk sincepos (\<not> c) field t rlset modifier s } }"

partial_function (option) np_loop ::
  "np_base \<Rightarrow> np_tables \<Rightarrow> int \<Rightarrow> int \<Rightarrow> int \<Rightarrow> bool \<Rightarrow> int \<Rightarrow> Chix \<Rightarrow> Chix \<Rightarrow> int \<Rightarrow> Token list \<Rightarrow> Rlist list \<Rightarrow> int list \<Rightarrow> chx_state \<Rightarrow> np_step option" where
  "np_loop base tabs cnum rnum first errchk sincepos mod_fields word1 this token rlset modifier s = do {
     t \<leftarrow> idx token this;
     if t_type t = T_END then Some (None, rlset, modifier, s)
     else do {
       (e, rlset, modifier, s) \<leftarrow> np_token base tabs cnum rnum first errchk sincepos mod_fields word1 this token rlset modifier s;
       if e \<noteq> None then Some (e, rlset, modifier, s)
       else np_loop base tabs cnum rnum first errchk sincepos mod_fields word1 (this + 1) token rlset modifier s } }"

section \<open>The rest of \<open>new_parse\<close>\<close>

definition is_on :: "int list \<Rightarrow> int \<Rightarrow> bool" where
  "is_on modifier slot = (case idx modifier slot of None \<Rightarrow> False | Some v \<Rightarrow> v \<noteq> 0)"

text \<open>No list at all: everything, if a modifier like NEW was given, otherwise item 0, which stands for nothing, and failure.\<close>

definition np_default :: "master_template \<Rightarrow> int list \<Rightarrow> Rlist list \<Rightarrow> int \<times> Rlist list" where
  "np_default master modifier rlset =
     (if rlset \<noteq> [] then (1, rlset)
      else let rl = rl_all (m_items master)
           in if \<not> (is_on modifier M_UNSEEN \<or> is_on modifier M_FRESH \<or> is_on modifier M_FROZEN \<or> is_on modifier M_NEW \<or>
                    is_on modifier M_SINCE \<or> is_on modifier M_FORGOTTEN)
              then (0, [[rl ! 0, (rl ! 1)\<lparr>i0 := 0, i1 := 0\<rparr>]])
              else (1, [rl]))"

text \<open>Passes 8 and 9. The result is the place of an error, if any, and \<open>*result\<close>.\<close>

definition np_last :: "np_base \<Rightarrow> int \<Rightarrow> int list \<Rightarrow> Chix \<Rightarrow> int \<Rightarrow> Rlist \<Rightarrow> chx_state \<Rightarrow> (int option \<times> Rlist option \<times> chx_state) option" where
  "np_last base cnum modifier since sincepos result s = do {
     (result, s) \<leftarrow> (if is_on modifier M_FROZEN then b_frozen base cnum result s else Some (result, s));
     if \<not> is_on modifier M_SINCE then Some (None, Some result, s)
     else do {
       (none, s) \<leftarrow> EMPTYCHX since s;
       if none then Some (None, Some result, s)
       else do {
         (rlnew, s) \<leftarrow> (if is_on modifier M_RESPONSES then b_rsince base result since cnum s else b_isince base result since cnum s);
         Some (if rlnew = None then Some sincepos else None, rlnew, s) } } }"

partial_function (option) free_tokens :: "Token list \<Rightarrow> chx_state \<Rightarrow> (Token list \<times> chx_state) option" where
  "free_tokens token s = do {
     t \<leftarrow> idx token 0;
     if t_type t = T_END then Some (token, s)
     else do { (_, token, s) \<leftarrow> delete_token token 0 s; free_tokens token s } }"

text \<open>What follows the label \<open>done\<close>; the response lists are values here, so that there is nothing to free of them.\<close>

definition np_done :: "Token list \<Rightarrow> Chix \<Rightarrow> Chix \<Rightarrow> Chix \<Rightarrow> chx_state \<Rightarrow> chx_state option" where
  "np_done token itemstr word1 since s = do {
     (_, s) \<leftarrow> free_tokens token s;
     (_, s) \<leftarrow> chxfree itemstr s;
     (_, s) \<leftarrow> chxfree word1 s;
     (_, s) \<leftarrow> chxfree since s;
     Some s }"

text \<open>
  Passes 4 to 9, for tokens that passes 1 to 3 have accepted: \<open>success\<close>, \<open>*errpos\<close>, \<open>*result\<close> (\<open>None\<close> is null), the modifiers, and the array of tokens.
\<close>

definition np_body ::
  "np_base \<Rightarrow> np_tables \<Rightarrow> int \<Rightarrow> this_template \<Rightarrow> Chix \<Rightarrow> Chix \<Rightarrow> Chix \<Rightarrow> Chix \<Rightarrow> bool \<Rightarrow> bool \<Rightarrow> bool \<Rightarrow> int \<Rightarrow> int list \<Rightarrow> Token list \<Rightarrow> chx_state \<Rightarrow>
    (int \<times> int \<times> Rlist option \<times> int list \<times> Token list \<times> chx_state) option" where
  "np_body base tabs cnum thisitem mod_fields word1 since attach clearmod mod1st errchk sincepos modifier token s = do {
     lastitem \<leftarrow> last_item (m_responses (np_master tabs)) (m_items (np_master tabs));
     token \<leftarrow> item_loop lastitem (th_number thisitem) 0 token;
     modifier \<leftarrow> clear_mods clearmod modifier;
     (modifier, sincepos, token, s) \<leftarrow> mod_loop mod_fields word1 since attach 0 modifier sincepos token s;
     modifier \<leftarrow> mod_rules modifier;
     let first = (if is_on modifier M_RESPONSES \<and> mod1st then 1 else 0) in do {
       (e, rlset, modifier, s) \<leftarrow> np_loop base tabs cnum (th_rnum thisitem) first errchk sincepos mod_fields word1 0 token [] modifier s;
       case e of
         Some pos \<Rightarrow> Some (0, pos, Some [a_mak_rlist], modifier, token, s)
       | None \<Rightarrow>
           let (success, rlset) = np_default (np_master tabs) modifier rlset in do {
             rlnew \<leftarrow> np_assemble (np_master tabs) rlset;
             result \<leftarrow> np_filter (is_on modifier) tabs rlnew;
             (e, result, s) \<leftarrow> np_last base cnum modifier since sincepos result s;
             Some (case e of Some pos \<Rightarrow> (0, pos, result, modifier, token, s) | None \<Rightarrow> (success, -1, result, modifier, token, s)) } } }"

text \<open>
  The whole function. \<open>old\<close> is what the local array of tokens holds in the fields \<open>num1\<close>, which are not initialised, and \<open>sincepos\<close> the first value of that
  local. The result is \<open>success\<close>, \<open>*errpos\<close>, \<open>*result\<close>, the modifiers and the store.
\<close>

definition new_parse ::
  "np_base \<Rightarrow> np_tables \<Rightarrow> Chix \<Rightarrow> Chix \<Rightarrow> Chix \<Rightarrow> int list \<Rightarrow> int \<Rightarrow> Chix \<Rightarrow> int list \<Rightarrow> Chix \<Rightarrow> int \<Rightarrow> this_template \<Rightarrow> bool \<Rightarrow> bool \<Rightarrow> bool \<Rightarrow> chx_state \<Rightarrow>
    (int \<times> int \<times> Rlist option \<times> int list \<times> chx_state) option" where
  "new_parse base tabs data_fields mod_fields repl_fields old sincepos line modifier attach cnum thisitem clearmod mod1st errchk s =
     (let (itemstr, s) = chxalloc 20 THIN ''newparse itemstr'' s;
          (word1, s) = chxalloc 20 THIN ''newparse word1'' s;
          (since, s) = chxalloc 40 THIN ''newparse since'' s
      in do {
        (ok, errpos, token, s) \<leftarrow> np_tokens line data_fields repl_fields errchk old s;
        (success, errpos, result, modifier, token, s) \<leftarrow>
          (if ok = 0 then Some (0, errpos, Some [a_mak_rlist], modifier, token, s)
           else np_body base tabs cnum thisitem mod_fields (Some word1) (Some since) attach clearmod mod1st errchk sincepos modifier token s);
        s \<leftarrow> np_done token (Some itemstr) (Some word1) (Some since) s;
        Some (success, errpos, result, modifier, s) })"

section \<open>Strings of the routine and of the tokens\<close>

lemma own_app:
  assumes a: "own s0 s1 xs" and b: "own s1 s l"
  shows "own s0 s (xs @ l)"
proof -
  have n: "a \<notin> set l \<and> sview s a = sview s1 a" if "sview s1 a \<noteq> None" for a using b that unfolding own_def by metis
  have "set xs \<inter> set l = {}" using n a unfolding own_def by blast
  then have "distinct (xs @ l)" using a b by (simp add: own_def)
  moreover have "\<forall>a \<in> set (xs @ l). sview s0 a = None \<and> sview s a \<noteq> None"
  proof
    fix c assume "c \<in> set (xs @ l)"
    then show "sview s0 c = None \<and> sview s c \<noteq> None" using a b n [of c] unfolding own_def by (cases "c \<in> set xs") auto
  qed
  moreover have "kept s0 s" using a b kept_trans unfolding own_def by blast
  ultimately show ?thesis using a b unfolding own_def by simp
qed

lemma held_base: "own s0 s1 xs \<Longrightarrow> tinv s1 s ts as \<Longrightarrow> held xs s0 s ts as"
  unfolding held_def using own_app by fastforce

lemma own_ready:
  assumes r: "select_ready s0" and o: "own s0 s l"
  shows "select_ready s" "blank_blanks s = blank_blanks s0" "token_blanks s = token_blanks s0" "blanks s = blanks s0"
proof -
  show k: "blank_blanks s = blank_blanks s0" "token_blanks s = token_blanks s0" "blanks s = blanks s0" using o by (simp_all add: own_def kept_def)
  obtain z where z: "blanks s0 = Some z" "sview s0 z = Some (blank_blanks s0)" using r by (auto simp: select_ready_def)
  then have "sview s z = Some (blank_blanks s0)" using own_other [OF o, of z] by simp
  then show "select_ready s" using r k z own_inv [OF o] by (auto simp: select_ready_def table_ready_def)
qed

text \<open>Writing a string of the routine, as \<open>chxcpy\<close> and \<open>chxtoken\<close> do.\<close>

definition sets :: "chx_state \<Rightarrow> nat \<Rightarrow> string \<Rightarrow> chx_state \<Rightarrow> bool" where
  "sets s w x s' \<longleftrightarrow> kept s s' \<and> sview s' = (sview s)(w \<mapsto> x)"

lemma sets_chx_to: "chx_to s ((sview s)(w \<mapsto> x)) s' \<Longrightarrow> blanks s \<noteq> Some w \<Longrightarrow> sets s w x s'"
  by (auto simp: sets_def chx_to_def intro: kept_chx_to [unfolded chx_to_def])

lemma held_sets:
  assumes h: "held xs s0 s ts as" and w: "w \<in> set xs" and t: "sets s w x s'"
  shows "held xs s0 s' ts as"
proof -
  obtain us e rest where u: "ts = us @ e # rest" "t_type e = T_END" "as = map (tview (sview s)) us" "own s0 s (xs @ owned us)"
    "\<forall>a \<in> set as. t_type a \<noteq> T_END" using h unfolding held_def by blast
  have n: "w \<notin> set (owned us)" using u(4) w by (auto simp: own_def)
  have v: "sview s' = (sview s)(w \<mapsto> x)" "kept s s'" using t by (simp_all add: sets_def)
  have "own s0 s' (xs @ owned us)" using u(4) w v kept_trans [of s0 s s'] unfolding own_def by auto
  moreover have "map (tview (sview s')) us = as" unfolding u(3) by (rule map_tview_keep) (use n v(1) in auto)
  ultimately show ?thesis using u unfolding held_def by metis
qed

lemma held_own:
  assumes "held xs s0 s ts as" and "w \<in> set xs"
  shows "sview s w \<noteq> None" "sview s0 w = None" "blanks s \<noteq> Some w" "chx_inv s"
proof -
  obtain us where o: "own s0 s (xs @ owned us)" using assms(1) unfolding held_def by blast
  show "sview s w \<noteq> None" "sview s0 w = None" using o assms(2) by (auto simp: own_def)
  show "blanks s \<noteq> Some w" using own_not_blanks [OF o] assms(2) by simp
  show "chx_inv s" by (rule own_inv [OF o])
qed

lemma held_old:
  assumes "held xs s0 s ts as" and "sview s0 c \<noteq> None"
  shows "sview s c = sview s0 c"
  using assms own_other unfolding held_def by blast

lemma chxtoken_sets:
  assumes inv: "chx_inv s" and bl: "blanks s \<noteq> None" and l: "sview s l = Some x" and w: "sview s w \<noteq> None" "w \<noteq> l" "blanks s \<noteq> Some w"
  obtains st s' where "chxtoken (Some w) nullchix 1 (Some l) s = Some (st, s')" "sets s w (snd (pick (words_at (token_blanks s) 0 x) 0)) s'"
proof -
  have ne: "Some w \<noteq> Some l" "(None :: Chix) \<noteq> Some l" "Some w = None \<Longrightarrow> Some w = None" "\<forall>a. Some w = Some a \<longrightarrow> sview s a \<noteq> None"
    "\<forall>a. (None :: Chix) = Some a \<longrightarrow> sview s a \<noteq> None" using w by auto
  obtain st t s' where s': "(st, t) = pick (words_at (token_blanks s) 0 x) (nat 1 - 1)"
    "chxtoken (Some w) None 1 (Some l) s = Some (st, s')" "chx_inv s'"
    "sview s' = upd None (if st < 0 then [] else drop (nat st) x) (upd (Some w) t (sview s))"
    "globs s' = globs (s\<lparr>tab_token := Some (token_blanks s)\<rparr>)" "next_adr s \<le> next_adr s'"
    by (rule chxtoken_keeps [OF inv bl l ne(4,5,1,2,3)]) auto
  have v: "sview s' = (sview s)(w \<mapsto> t)" using s'(4) by simp
  have "kept s s'" by (rule kept_I) (use s' v w(3) token_globs [OF s'(5)] in auto)
  then show thesis using that s'(1,2) v by (metis diff_self_eq_0 nat_one_as_int of_nat_1 sets_def snd_conv)
qed

section \<open>Words\<close>

definition first_word :: "string \<Rightarrow> string \<Rightarrow> string" where
  "first_word bl x = snd (pick (words_at bl 0 x) 0)"

definition bare :: "string \<Rightarrow> string \<Rightarrow> bool" where
  "bare bl w \<longleftrightarrow> w \<noteq> [] \<and> (\<forall>c \<in> set w. \<not> in_tab bl c \<and> c \<noteq> CHR ''/'')"

lemma first_word_bare: "bare bl w \<Longrightarrow> first_word bl w = w"
  by (cases w) (auto simp: bare_def first_word_def pick_def Let_def takeWhile_eq_all_conv)

lemma first_word_joined:
  assumes "bare bl w" and "in_tab bl c"
  shows "first_word bl (w @ c # d) = w"
  using assms by (cases w) (auto simp: bare_def first_word_def pick_def Let_def takeWhile_append)

text \<open>The tokens that the later passes work on: a word, or a word with its data.\<close>

definition lexed :: "string \<Rightarrow> string Token_t \<Rightarrow> bool" where
  "lexed bl t \<longleftrightarrow> (t_type t = T_WORD \<longrightarrow> (\<exists>w. t_str t = Some w \<and> bare bl w)) \<and>
     (t_type t = T_NAME \<longrightarrow> (\<exists>w d. t_str t = Some (w @ '' '' @ d) \<and> bare bl w))"

lemma lexed_word:
  assumes "lexed bl t" and "t_type t = T_WORD \<or> t_type t = T_NAME" and "in_tab bl (CHR '' '')"
  obtains x where "t_str t = Some x" "bare bl (first_word bl x)"
  using assms first_word_bare first_word_joined [of bl _ "CHR '' ''"] unfolding lexed_def by force

lemma minus_all: "\<forall>t \<in> set as. lexed bl t \<Longrightarrow> t \<in> set (minus_list as) \<Longrightarrow> lexed bl t"
proof (induction as rule: minus_list.induct)
  case 1
  then show ?case by simp
next
  case (2 a r)
  show ?case
  proof (cases "dash_at (\<lambda>ty. ty \<noteq> T_NUM) a r")
    case True
    then obtain d v q where q: "r = d # v # q" "t_type v = T_NUM" by (rule dash_atE)
    have "\<forall>u \<in> set (negated (r ! 0) (r ! 1) # drop 2 r). lexed bl u" using q "2.prems"(1) by (simp add: lexed_def negated_def)
    then have "t \<in> set (minus_list (negated (r ! 0) (r ! 1) # drop 2 r)) \<Longrightarrow> lexed bl t" by (rule "2.IH"(1) [OF True])
    moreover have "t = a \<or> t \<in> set (minus_list (negated (r ! 0) (r ! 1) # drop 2 r))"
      using "2.prems"(2) [unfolded minus_list.simps(2) [of a r] if_P [OF True]] by simp
    ultimately show ?thesis using "2.prems"(1) by auto
  next
    case False
    have "t = a \<or> t \<in> set (minus_list r)" using "2.prems"(2) [unfolded minus_list.simps(2) [of a r] if_not_P [OF False]] by simp
    then show ?thesis using "2.IH"(2) [OF False] "2.prems"(1) by auto
  qed
qed

lemma range_all: "\<forall>t \<in> set as. lexed bl t \<Longrightarrow> range_list errchk as = Inr bs \<Longrightarrow> t \<in> set bs \<Longrightarrow> lexed bl t"
proof (induction errchk as arbitrary: bs rule: range_list.induct)
  case (1 errchk)
  then show ?case by simp
next
  case (2 errchk a r)
  show ?case
  proof (cases "dash_at (\<lambda>ty. ty = T_NUM) a r")
    case True
    then obtain d v q where q: "r = d # v # q" "t_type a = T_NUM" by (rule dash_atE)
    note eq = "2.prems"(2) [unfolded range_list.simps(2) [of errchk a r] if_P [OF True]]
    have ok: "\<not> (errchk \<and> num0 a \<noteq> num1 a)" using eq by (cases "errchk \<and> num0 a \<noteq> num1 a") auto
    then have "range_list errchk (a\<lparr>num1 := num1 (r ! 1)\<rparr> # drop 2 r) = Inr bs" using eq unfolding if_not_P [OF ok] by simp
    then show ?thesis by (rule "2.IH"(1) [OF True ok _ _ "2.prems"(3), rotated]) (use "2.prems"(1) q in \<open>auto simp: lexed_def\<close>)
  next
    case False
    then obtain cs where cs: "range_list errchk r = Inr cs" "bs = a # cs" using "2.prems"(2) by (cases "range_list errchk r") (auto simp: range_list.simps(2))
    then show ?thesis using "2.IH"(2) [OF False _ cs(1)] "2.prems" by auto
  qed
qed

lemma merge_all:
  "merge_from errchk p r = Inr bs \<Longrightarrow> \<forall>t \<in> set (p # r). lexed bl t \<Longrightarrow> t \<in> set bs \<Longrightarrow> lexed bl t"
proof (induction errchk p r arbitrary: bs rule: merge_from.induct)
  case (1 errchk p)
  then show ?case by auto
next
  case (2 errchk p t' r)
  consider (colon) "t_type t' = T_COLON" | (data) "t_type t' = T_DATA" | (other) "t_type t' \<noteq> T_COLON" "t_type t' \<noteq> T_DATA" by blast
  then show ?case
  proof cases
    case colon
    then have ok: "\<not> (errchk \<and> hascolon p \<noteq> 0)" and e: "merge_from errchk (p\<lparr>hascolon := 1\<rparr>) r = Inr bs"
      using "2.prems"(1) by (auto split: if_splits)
    show ?thesis by (rule "2.IH"(1) [OF colon ok e _ "2.prems"(3)]) (use "2.prems"(2) in \<open>auto simp: lexed_def\<close>)
  next
    case data
    then have nc: "t_type t' \<noteq> T_COLON" by simp
    show ?thesis
    proof (cases "t_type p = T_WORD")
      case True
      then have e: "merge_from errchk (joined p t') r = Inr bs" using "2.prems"(1) data nc by simp
      have "lexed bl (joined p t')" using "2.prems"(2) True by (auto simp: lexed_def joined_def)
      then show ?thesis using "2.IH"(2) [OF nc data True e _ "2.prems"(3)] "2.prems"(2) by simp
    next
      case False
      then have ok: "\<not> errchk" and e: "merge_from errchk p r = Inr bs" using "2.prems"(1) data nc by (auto split: if_splits)
      show ?thesis by (rule "2.IH"(3) [OF nc data False ok e _ "2.prems"(3)]) (use "2.prems"(2) in auto)
    qed
  next
    case other
    then obtain cs where cs: "merge_from errchk t' r = Inr cs" "bs = p # cs" using "2.prems"(1) by (cases "merge_from errchk t' r") auto
    show ?thesis using "2.IH"(4) [OF other cs(1)] "2.prems"(2,3) cs(2) by auto
  qed
qed

lemma select_lexed:
  assumes "select_list bl dw rp errchk x = Inr bs" and "CHR ''/'' \<notin> set x" and "t \<in> set bs"
  shows "lexed bl t"
proof -
  obtain as where as: "collapse_list (look_up bl rp) errchk (toks (look_up bl dw) bl 0 x) = Inr as" "merge_list errchk as = Inr bs"
    using assms(1) by (auto simp: select_list_def split: sum.splits)
  have 1: "lexed bl u" if u: "u \<in> set (toks (look_up bl dw) bl 0 x)" for u
    by (rule toks_all [where P = "lexed bl", OF _ _ _ _ _ u]) (use assms(2) in \<open>auto simp: lexed_def bare_def gap_def\<close>)
  have "\<forall>u \<in> set (map (subst_tok (look_up bl rp)) (toks (look_up bl dw) bl 0 x)). lexed bl u"
    using 1 by (auto simp: subst_tok_def special_nums_def lexed_def)
  then have "\<forall>u \<in> set (minus_list (map (subst_tok (look_up bl rp)) (toks (look_up bl dw) bl 0 x))). lexed bl u" using minus_all by blast
  then have 2: "\<forall>u \<in> set as. lexed bl u" using range_all as(1) unfolding collapse_list_def by blast
  obtain u r where u: "as = u # r" using as(2) assms(3) by (cases as) auto
  let ?u = "u\<lparr>t_type := T_NUM, num0 := 1, num1 := -1, hascolon := 1\<rparr>"
  have "merge_from errchk (if t_type u = T_COLON then ?u else u) r = Inr bs" using as(2) u by (auto split: if_splits)
  moreover have "\<forall>v \<in> set ((if t_type u = T_COLON then ?u else u) # r). lexed bl v" using 2 u by (auto simp: lexed_def)
  ultimately show ?thesis by (rule merge_all [OF _ _ assms(3)])
qed

section \<open>Pass 4\<close>

text \<open>Whether the last of the tokens so far has a colon.\<close>

definition colon_end :: "'a Token_t list \<Rightarrow> bool" where
  "colon_end as \<longleftrightarrow> as \<noteq> [] \<and> hascolon (last as) \<noteq> 0"

lemma colon_end_simps [simp]: "\<not> colon_end []" "colon_end (as @ [a]) \<longleftrightarrow> hascolon a \<noteq> 0"
  by (simp_all add: colon_end_def)

lemma after_colon_ok:
  assumes "held xs s0 s ts (as @ bs)"
  shows "after_colon (int (length as)) ts = Some (colon_end as)"
proof (cases as rule: rev_cases)
  case Nil
  then show ?thesis by (simp add: after_colon_def)
next
  case (snoc cs p)
  have "held xs s0 s ts (cs @ p # bs)" using assms snoc by simp
  then obtain t where "idx ts (int (length cs)) = Some t" "p = tview (sview s) t" by (rule tinv_idx)
  then show ?thesis using snoc by (simp add: after_colon_def)
qed

fun item_list :: "int \<Rightarrow> int \<Rightarrow> bool \<Rightarrow> 'a Token_t list \<Rightarrow> 'a Token_t list" where
  "item_list lastitem number prev [] = []"
| "item_list lastitem number prev (t # r) =
     (if t_type t = T_NUM \<and> \<not> prev then item_nums lastitem number t else t) # item_list lastitem number (hascolon t \<noteq> 0) r"

lemma item_nums_fields [simp]:
  "t_type (item_nums l n t) = t_type t" "hascolon (item_nums l n t) = hascolon t" "t_str (item_nums l n t) = t_str t" "t_pos (item_nums l n t) = t_pos t"
  by (simp_all add: item_nums_def Let_def)

lemma item_nums_view: "tview m (item_nums l n t) = item_nums l n (tview m t)"
  by (simp add: item_nums_def tview_def Let_def)

lemma item_loop_ok:
  assumes "held xs s0 s ts (as @ bs)"
  shows "\<exists>ts'. item_loop l n (int (length as)) ts = Some ts' \<and> held xs s0 s ts' (as @ item_list l n (colon_end as) bs)"
  using assms
proof (induction bs arbitrary: as ts)
  case Nil
  then obtain e where "idx ts (int (length as)) = Some e" "t_type e = T_END" using tinv_end by (metis append_Nil2)
  then show ?case using Nil by (subst item_loop.simps) simp
next
  case (Cons a bs)
  let ?b = "if t_type a = T_NUM \<and> \<not> colon_end as then item_nums l n a else a"
  obtain t where t: "idx ts (int (length as)) = Some t" "a = tview (sview s) t" "t_type a \<noteq> T_END" by (rule tinv_idx [OF Cons.prems])
  have c: "after_colon (int (length as)) ts = Some (colon_end as)" by (rule after_colon_ok [OF Cons.prems])
  have go: ?case if h: "held xs s0 s ts1 (as @ ?b # bs)" and e: "item_loop l n (int (length as)) ts = item_loop l n (int (length as) + 1) ts1" for ts1
  proof -
    have "held xs s0 s ts1 ((as @ [?b]) @ bs)" using h by simp
    from Cons.IH [OF this] show ?thesis using e by (cases "t_type a = T_NUM \<and> \<not> colon_end as") (auto simp: add.commute)
  qed
  show ?case
  proof (cases "t_type a = T_NUM \<and> \<not> colon_end as")
    case False
    then have "item_loop l n (int (length as)) ts = item_loop l n (int (length as) + 1) ts" using t c by (subst item_loop.simps) auto
    then show ?thesis by (rule go [rotated]) (use Cons.prems False in auto)
  next
    case True
    obtain ts1 where ts1: "tok_upd (item_nums l n) (int (length as)) ts = Some ts1" "held xs s0 s ts1 (as @ item_nums l n a # bs)"
      by (rule tinv_upd [OF Cons.prems, of "item_nums l n" "item_nums l n a"]) (use t(3) in \<open>auto simp: item_nums_view\<close>)
    have "item_loop l n (int (length as)) ts = item_loop l n (int (length as) + 1) ts1" using t c True ts1(1) by (subst item_loop.simps) auto
    then show ?thesis by (rule go [rotated]) (use ts1(2) True in simp)
  qed
qed

lemma item_list_lexed: "\<forall>t \<in> set as. lexed bl t \<Longrightarrow> t \<in> set (item_list l n prev as) \<Longrightarrow> lexed bl t"
  by (induction as arbitrary: prev) (auto simp: lexed_def split: if_splits)

lemma last_item_ok:
  assumes "n < int (length rs)"
  obtains k where "last_item rs n = Some k" "k \<le> n" "\<forall>i. k < i \<and> i \<le> n \<longrightarrow> rs ! nat i < 0" "0 < k \<Longrightarrow> 0 \<le> rs ! nat k" "0 \<le> n \<Longrightarrow> 0 \<le> k"
  using assms
proof (induction rs n arbitrary: thesis rule: last_item.induct)
  case (1 rs n)
  show ?case
  proof (cases "0 < n \<and> rs ! nat n < 0")
    case False
    then have "last_item rs n = Some n" using "1.prems"(2) by (subst last_item.simps) (auto simp: idx_def nat_less_iff)
    then show ?thesis using "1.prems"(1) [of n] False by auto
  next
    case True
    then have x: "idx rs n = Some (rs ! nat n)" using "1.prems"(2) by (simp add: idx_def nat_less_iff)
    obtain k where k: "last_item rs (n - 1) = Some k" "k \<le> n - 1" "\<forall>i. k < i \<and> i \<le> n - 1 \<longrightarrow> rs ! nat i < 0" "0 < k \<Longrightarrow> 0 \<le> rs ! nat k"
      "0 \<le> n - 1 \<Longrightarrow> 0 \<le> k"
      by (rule "1.IH" [OF _ x]) (use True "1.prems"(2) in auto)
    have "\<forall>i. k < i \<and> i \<le> n \<longrightarrow> rs ! nat i < 0"
    proof (intro allI impI)
      fix i assume "k < i \<and> i \<le> n"
      then show "rs ! nat i < 0" using k(3) True by (cases "i = n") auto
    qed
    moreover have "last_item rs n = Some k" using k(1) x True by (subst last_item.simps) simp
    ultimately show ?thesis using "1.prems"(1) [of k] k True by auto
  qed
qed

section \<open>Pass 5\<close>

definition mod_slot :: "string \<Rightarrow> string \<Rightarrow> string Token_t \<Rightarrow> int" where
  "mod_slot bl table t = look_up bl table (first_word bl (the (t_str t)))"

definition is_mod :: "(string Token_t \<Rightarrow> int) \<Rightarrow> bool \<Rightarrow> string Token_t \<Rightarrow> bool" where
  "is_mod lk prev t \<longleftrightarrow> (t_type t = T_WORD \<or> t_type t = T_NAME) \<and> hascolon t = 0 \<and> \<not> prev \<and> 0 \<le> lk t"

text \<open>The tokens that are taken out as modifiers, and those that are left.\<close>

fun taken :: "(string Token_t \<Rightarrow> int) \<Rightarrow> bool \<Rightarrow> string Token_t list \<Rightarrow> string Token_t list" where
  "taken lk prev [] = []"
| "taken lk prev (t # r) = (if is_mod lk prev t then [t] else []) @ taken lk (hascolon t \<noteq> 0) r"

fun left_over :: "(string Token_t \<Rightarrow> int) \<Rightarrow> bool \<Rightarrow> string Token_t list \<Rightarrow> string Token_t list" where
  "left_over lk prev [] = []"
| "left_over lk prev (t # r) = (if is_mod lk prev t then [] else [t]) @ left_over lk (hascolon t \<noteq> 0) r"

fun since_of :: "(string Token_t \<Rightarrow> int) \<Rightarrow> string Token_t list \<Rightarrow> string Token_t option" where
  "since_of lk [] = None"
| "since_of lk (t # r) = (case since_of lk r of Some u \<Rightarrow> Some u | None \<Rightarrow> if lk t = M_SINCE then Some t else None)"

fun marked :: "(string Token_t \<Rightarrow> int) \<Rightarrow> string Token_t list \<Rightarrow> int list \<Rightarrow> int list" where
  "marked lk [] modifier = modifier"
| "marked lk (t # r) modifier = marked lk r (modifier[nat (lk t) := 1])"

lemma marked_length [simp]: "length (marked lk r modifier) = length modifier"
  by (induction r arbitrary: modifier) auto

text \<open>What is fixed while \<open>new_parse\<close> looks at its tokens.\<close>

definition np_ready :: "chx_state \<Rightarrow> nat list \<Rightarrow> nat \<Rightarrow> nat \<Rightarrow> nat \<Rightarrow> string \<Rightarrow> bool" where
  "np_ready s0 xs w si mf y \<longleftrightarrow> select_ready s0 \<and> token_blanks s0 = blank_blanks s0 \<and> in_tab (blank_blanks s0) (CHR '' '') \<and>
     w \<in> set xs \<and> si \<in> set xs \<and> w \<noteq> si \<and> sview s0 mf = Some y"

lemma word_match:
  assumes r: "np_ready s0 xs w si mf y" and h: "held xs s0 s ts (as @ a # bs)" and l: "lexed (blank_blanks s0) a"
    and ty: "t_type a = T_WORD \<or> t_type a = T_NAME"
  obtains t st s1 s2 where "idx ts (int (length as)) = Some t" "a = tview (sview s) t"
    "chxtoken (Some w) nullchix 1 (t_str t) s = Some (st, s1)" "tablematch (Some mf) (Some w) s1 = Some (mod_slot (blank_blanks s0) y a, s2)"
    "held xs s0 s2 ts (as @ a # bs)" "sview s2 = (sview s)(w \<mapsto> first_word (blank_blanks s0) (the (t_str a)))"
proof -
  let ?bl = "blank_blanks s0"
  have k: "select_ready s0" "token_blanks s0 = ?bl" "in_tab ?bl (CHR '' '')" "w \<in> set xs" "sview s0 mf = Some y" using r by (simp_all add: np_ready_def)
  obtain x where x: "t_str a = Some x" "bare ?bl (first_word ?bl x)" by (rule lexed_word [OF l ty k(3)])
  obtain us t vs e rest c where t: "ts = us @ t # vs @ e # rest" "t_type e = T_END" "as = map (tview (sview s)) us" "a = tview (sview s) t"
    "bs = map (tview (sview s)) vs" "own s0 s (xs @ owned (us @ t # vs))" "length us = length as"
    "\<forall>x \<in> set (as @ a # bs). t_type x \<noteq> T_END" "t_str t = Some c" "sview s c = Some x"
    "c \<in> set (xs @ owned (us @ t # vs))" "c \<notin> set (owned us)" "c \<notin> set (owned vs)" "remove1 c (xs @ owned (us @ t # vs)) = xs @ owned (us @ vs)"
    by (rule tinv_str [OF h x(1)])
  have i: "idx ts (int (length as)) = Some t" unfolding t(1) t(7) [symmetric] by (rule idx_mid)
  have "w \<noteq> c" using t(6,9) k(4) by (auto simp: own_def)
  moreover note o = held_own [OF h k(4)] and ow = own_ready [OF k(1) t(6)]
  moreover have "blanks s \<noteq> None" using ow(4) k(1) by (auto simp: select_ready_def)
  ultimately obtain st s1 where s1: "chxtoken (Some w) nullchix 1 (Some c) s = Some (st, s1)" "sets s w (first_word ?bl x) s1"
    using chxtoken_sets [OF o(4) _ t(10) o(1), of thesis] ow(3) k(2) o(3) unfolding first_word_def by metis
  have h1: "held xs s0 s1 ts (as @ a # bs)" by (rule held_sets [OF h k(4) s1(2)])
  have v1: "sview s1 w = Some (first_word ?bl x)" using s1(2) by (simp add: sets_def)
  have "table_ready s0" using k(1) by (simp add: select_ready_def)
  from tinv_look_up [OF h1 this k(5) v1] x(2)
  obtain s2 where s2: "tablematch (Some mf) (Some w) s1 = Some (look_up ?bl y (first_word ?bl x), s2)" "reads s1 s2" unfolding bare_def by metis
  show thesis by (rule that [OF i t(4)])
    (use s1 s2 t(9) x(1) tinv_reads [OF h1 s2(2)] readsD(2) [OF s2(2)] in \<open>simp_all add: mod_slot_def sets_def\<close>)
qed

definition since_pos :: "string \<Rightarrow> string Token_t \<Rightarrow> int" where
  "since_pos bl t = wrap32 (t_pos t + int (length (first_word bl (the (t_str t)))) + 1)"

text \<open>One modifier: the array is marked, and SINCE keeps its text and place.\<close>

lemma mod_mark_ok:
  assumes r: "np_ready s0 xs w si mf y" and h: "held xs s0 s ts (as @ a # bs)" and x: "t_str a = Some x"
    and t: "idx ts (int (length as)) = Some t" "a = tview (sview s) t" and w: "sview s w = Some (first_word (blank_blanks s0) x)"
    and f: "0 \<le> field" "nat field < length modifier"
  obtains s' where "mod_mark (Some w) (Some si) nullchix field t modifier sincepos s =
      Some (modifier[nat field := 1], if field = M_SINCE then since_pos (blank_blanks s0) a else sincepos, s')"
    "held xs s0 s' ts (as @ a # bs)" "sview s' si = (if field = M_SINCE then Some x else sview s si)"
proof -
  have k: "w \<in> set xs" "si \<in> set xs" "w \<noteq> si" using r by (simp_all add: np_ready_def)
  have u: "upd_idx modifier field 1 = Some (modifier[nat field := 1])" using f by (simp add: upd_idx_def)
  show thesis
  proof (cases "field = M_SINCE")
    case False
    then show thesis using that [of s] h u by (simp add: mod_mark_def)
  next
    case True
    obtain c where c: "t_str t = Some c" "sview s c = Some x" using x t(2) by (auto simp: tview_def split: option.splits)
    note o = held_own [OF h k(2)]
    obtain z where z: "sview s si = Some z" using o(1) by blast
    obtain s1 where s1: "chxcpy (Some si) (Some c) s = Some (1, s1)" "chx_to s ((sview s)(si \<mapsto> x)) s1" by (rule chxcpy_ok [OF o(4) z c(2)])
    have h1: "held xs s0 s1 ts (as @ a # bs)" by (rule held_sets [OF h k(2) sets_chx_to [OF s1(2) o(3)]])
    have v1: "sview s1 w = Some (first_word (blank_blanks s0) x)" "sview s1 si = Some x" using chx_toD(2) [OF s1(2)] w k(3) by simp_all
    obtain s2 where s2: "chxlen (Some w) s1 = Some (int (length (first_word (blank_blanks s0) x)), s2)" "reads s1 s2"
      by (rule chxlen_reads [OF chx_toD(1) [OF s1(2)] v1(1)])
    show thesis by (rule that [of s2])
      (use True u c s1(1) s2 t(2) x v1(2) tinv_reads [OF h1 s2(2)] readsD(2) [OF s2(2)] in
        \<open>simp_all add: mod_mark_def M_SINCE_def M_ATTACH_def since_pos_def\<close>)
  qed
qed

lemma mod_field_ok:
  assumes r: "np_ready s0 xs w si mf y" and h: "held xs s0 s ts (as @ a # bs)" and l: "lexed (blank_blanks s0) a"
  obtains s' where
    "mod_field (Some mf) (Some w) (int (length as)) ts s =
       Some (if (t_type a = T_WORD \<or> t_type a = T_NAME) \<and> hascolon a = 0 \<and> \<not> colon_end as then mod_slot (blank_blanks s0) y a else -1, s')"
    "held xs s0 s' ts (as @ a # bs)" "sview s' si = sview s si"
    "is_mod (mod_slot (blank_blanks s0) y) (colon_end as) a \<Longrightarrow> \<exists>x. t_str a = Some x \<and> sview s' w = Some (first_word (blank_blanks s0) x)"
proof -
  have k: "w \<noteq> si" "in_tab (blank_blanks s0) (CHR '' '')" using r by (simp_all add: np_ready_def)
  have c: "after_colon (int (length as)) ts = Some (colon_end as)" by (rule after_colon_ok [OF h])
  show thesis
  proof (cases "(t_type a = T_WORD \<or> t_type a = T_NAME) \<and> hascolon a = 0 \<and> \<not> colon_end as")
    case False
    obtain t where t: "idx ts (int (length as)) = Some t" "a = tview (sview s) t" by (rule tinv_idx [OF h])
    have "mod_field (Some mf) (Some w) (int (length as)) ts s = Some (-1, s)" using False t c by (auto simp: mod_field_def)
    then show thesis using that [of s] False h by (auto simp: is_mod_def)
  next
    case True
    then have ty: "t_type a = T_WORD \<or> t_type a = T_NAME" by blast
    obtain t st s1 s2 where m: "idx ts (int (length as)) = Some t" "a = tview (sview s) t"
      "chxtoken (Some w) nullchix 1 (t_str t) s = Some (st, s1)" "tablematch (Some mf) (Some w) s1 = Some (mod_slot (blank_blanks s0) y a, s2)"
      "held xs s0 s2 ts (as @ a # bs)" "sview s2 = (sview s)(w \<mapsto> first_word (blank_blanks s0) (the (t_str a)))"
      by (rule word_match [OF r h l ty])
    obtain x where x: "t_str a = Some x" by (rule lexed_word [OF l ty k(2)])
    have "mod_field (Some mf) (Some w) (int (length as)) ts s = Some (mod_slot (blank_blanks s0) y a, s2)"
      using True m(1-4) c by (auto simp: mod_field_def)
    then show thesis using that [of s2] True m(5,6) k(1) x by simp
  qed
qed

lemma mod_loop_ok:
  assumes r: "np_ready s0 xs w si mf y" and "held xs s0 s ts (as @ bs)" and "\<forall>t \<in> set bs. lexed (blank_blanks s0) t"
    and "lk = mod_slot (blank_blanks s0) y" and "\<forall>t \<in> set (taken lk (colon_end as) bs). nat (lk t) < length modifier"
  shows "\<exists>ts' s'. mod_loop (Some mf) (Some w) (Some si) nullchix (int (length as)) modifier sincepos ts s =
      Some (marked lk (taken lk (colon_end as) bs) modifier,
        case since_of lk (taken lk (colon_end as) bs) of None \<Rightarrow> sincepos | Some t \<Rightarrow> since_pos (blank_blanks s0) t, ts', s') \<and>
    held xs s0 s' ts' (as @ left_over lk (colon_end as) bs) \<and>
    sview s' si = (case since_of lk (taken lk (colon_end as) bs) of None \<Rightarrow> sview s si | Some t \<Rightarrow> t_str t)"
  using assms(2,3,5)
proof (induction bs arbitrary: as ts s modifier sincepos)
  case Nil
  then obtain e where "idx ts (int (length as)) = Some e" "t_type e = T_END" using tinv_end by (metis append_Nil2)
  then show ?case using Nil.prems by (subst mod_loop.simps) simp
next
  case (Cons a bs)
  let ?bl = "blank_blanks s0"
  have l: "lexed ?bl a" "\<forall>t \<in> set bs. lexed ?bl t" using Cons.prems(2) by simp_all
  obtain t where t: "idx ts (int (length as)) = Some t" "a = tview (sview s) t" "t_type a \<noteq> T_END" by (rule tinv_idx [OF Cons.prems(1)])
  obtain s1 where s1: "mod_field (Some mf) (Some w) (int (length as)) ts s =
       Some (if (t_type a = T_WORD \<or> t_type a = T_NAME) \<and> hascolon a = 0 \<and> \<not> colon_end as then mod_slot ?bl y a else -1, s1)"
    "held xs s0 s1 ts (as @ a # bs)" "sview s1 si = sview s si"
    "is_mod (mod_slot ?bl y) (colon_end as) a \<Longrightarrow> \<exists>x. t_str a = Some x \<and> sview s1 w = Some (first_word ?bl x)"
    by (rule mod_field_ok [OF r Cons.prems(1) l(1)]) blast
  obtain t1 where t1: "idx ts (int (length as)) = Some t1" "a = tview (sview s1) t1" by (rule tinv_idx [OF s1(2)])
  then have tt: "t1 = t" using t(1) by simp
  show ?case
  proof (cases "is_mod lk (colon_end as) a")
    case False
    then have "mod_loop (Some mf) (Some w) (Some si) nullchix (int (length as)) modifier sincepos ts s =
        mod_loop (Some mf) (Some w) (Some si) nullchix (int (length (as @ [a]))) modifier sincepos ts s1"
      using t s1(1) assms(4) by (subst mod_loop.simps) (auto simp: is_mod_def add.commute)
    moreover have "held xs s0 s1 ts ((as @ [a]) @ bs)" using s1(2) by simp
    moreover have "\<forall>t \<in> set (taken lk (colon_end (as @ [a])) bs). nat (lk t) < length modifier" using Cons.prems(3) False by simp
    ultimately show ?thesis unfolding s1(3) [symmetric] using Cons.IH [of s1 ts "as @ [a]" modifier sincepos] l(2) False by simp
  next
    case True
    then have m: "0 \<le> lk a" "\<not> colon_end as" "hascolon a = 0" "t_type a = T_WORD \<or> t_type a = T_NAME" by (auto simp: is_mod_def)
    obtain x where x: "t_str a = Some x" "sview s1 w = Some (first_word ?bl x)" using s1(4) True assms(4) by blast
    have n: "nat (lk a) < length modifier" using Cons.prems(3) True by simp
    obtain s2 where s2: "mod_mark (Some w) (Some si) nullchix (lk a) t modifier sincepos s1 =
        Some (modifier[nat (lk a) := 1], if lk a = M_SINCE then since_pos ?bl a else sincepos, s2)"
      "held xs s0 s2 ts (as @ a # bs)" "sview s2 si = (if lk a = M_SINCE then Some x else sview s1 si)"
      by (rule mod_mark_ok [OF r s1(2) x(1) t1 x(2) m(1) n, unfolded tt])
    obtain ts3 s3 where s3: "delete_token ts (int (length as)) s2 = Some (1, ts3, s3)" "held xs s0 s3 ts3 (as @ bs)" "\<forall>c \<in> set xs. sview s3 c = sview s2 c"
      by (rule delete_token_ok [OF s2(2)])
    have si: "sview s3 si = (if lk a = M_SINCE then Some x else sview s si)" using s3(3) s2(3) s1(3) r by (simp add: np_ready_def)
    have e: "mod_loop (Some mf) (Some w) (Some si) nullchix (int (length as)) modifier sincepos ts s =
        mod_loop (Some mf) (Some w) (Some si) nullchix (int (length as)) (modifier[nat (lk a) := 1]) (if lk a = M_SINCE then since_pos ?bl a else sincepos) ts3 s3"
      using t s1(1) m assms(4) s2(1) s3(1) by (subst mod_loop.simps) auto
    have tk: "\<forall>t \<in> set (taken lk (colon_end as) bs). nat (lk t) < length (modifier[nat (lk a) := 1])" using Cons.prems(3) True m(2,3) by simp
    show ?thesis using Cons.IH [OF s3(2) l(2) tk, of "if lk a = M_SINCE then since_pos ?bl a else sincepos"] e True m(2,3) si x(1)
      by (auto split: option.splits)
  qed
qed

lemma set_if_ok:
  assumes "0 \<le> g" "nat g < length m" "0 \<le> k" "nat k < length m"
  shows "set_if g sense k v m = Some (if (m ! nat g \<noteq> 0) = sense then m[nat k := v] else m)"
  using assms by (simp add: set_if_def idx_def upd_idx_def)

definition ruled :: "int list \<Rightarrow> int list" where
  "ruled m =
     (let m = (if m ! 13 \<noteq> 0 then m[12 := 0] else m);
          m = (if m ! 15 \<noteq> 0 then m else m[14 := 1]);
          m = (if m ! 14 \<noteq> 0 then m[15 := 0] else m)
      in if m ! 0 \<noteq> 0 then m[1 := 0] else m)"

lemma mod_rules_ok:
  assumes "MODIFIERS \<le> length m"
  shows "mod_rules m = Some (ruled m)"
proof -
  have "0 < length m" "Suc 0 < length m" "19 \<le> length m" using assms unfolding MODIFIERS_def by linarith+
  then show ?thesis by (simp add: mod_rules_def ruled_def set_if_ok modifier_slots Let_def del: length_greater_0_conv)
qed

lemma is_on_nth: "0 \<le> k \<Longrightarrow> nat k < length m \<Longrightarrow> is_on m k \<longleftrightarrow> m ! nat k \<noteq> 0"
  by (simp add: is_on_def idx_def)

end
