(* ===== verification/ParseLine.thy ===== *)
theory ParseLine
  imports NewParse
begin

text \<open>
  \<open>new_parse\<close> from the line to the response list: pass 6 on numbers, the end of the function, and what the whole of it does with lines of
  numbers and modifiers, with lines that have a syntax error and with lines that are too long for its arrays.
\<close>

section \<open>Pass 6 on numbers\<close>

fun np_nums :: "int \<Rightarrow> int \<Rightarrow> bool \<Rightarrow> 'a Token_t list \<Rightarrow> Rlist list \<Rightarrow> Rlist list" where
  "np_nums first rnum prev [] rls = rls"
| "np_nums first rnum prev (t # r) rls =
     np_nums first rnum (hascolon t \<noteq> 0) r (if prev then rl_replace rls (resp_num rnum t (last rls)) else rls @ [item_num first t])"

lemma np_nums_length: "prev \<longrightarrow> rls \<noteq> [] \<Longrightarrow> length rls \<le> length (np_nums first rnum prev as rls)"
proof (induction as arbitrary: prev rls)
  case (Cons a as)
  let ?rls = "if prev then rl_replace rls (resp_num rnum a (last rls)) else rls @ [item_num first a]"
  have "length rls \<le> length ?rls" "?rls \<noteq> []" using Cons.prems by (auto simp: rl_replace_def)
  then show ?case using Cons.IH [of "hascolon a \<noteq> 0" ?rls] by auto
qed simp

text \<open>No selection has the form \<open>a:b:c\<close>.\<close>

fun single_colons :: "bool \<Rightarrow> 'a Token_t list \<Rightarrow> bool" where
  "single_colons prev [] \<longleftrightarrow> True"
| "single_colons prev (t # r) \<longleftrightarrow> \<not> (prev \<and> hascolon t \<noteq> 0) \<and> single_colons (hascolon t \<noteq> 0) r"

lemma np_token_num:
  assumes h: "held xs s0 s ts (as @ a # bs)" and n: "t_type a = T_NUM" and e: "errchk \<longrightarrow> \<not> (colon_end as \<and> hascolon a \<noteq> 0)"
    and c: "colon_end as \<longrightarrow> rls \<noteq> []"
  shows "np_token base tabs cnum rnum first errchk sp mf w (int (length as)) ts rls m s =
    (if colon_end as then Some (None, rl_replace rls (resp_num rnum a (last rls)), m, s)
     else do { rls \<leftarrow> rl_add rls (item_num first a); Some (None, rls, m, s) })"
proof -
  obtain t where t: "idx ts (int (length as)) = Some t" "a = tview (sview s) t" by (rule tinv_idx [OF h])
  have "item_num first t = item_num first a" "resp_num rnum t = resp_num rnum a" using t(2) by (simp_all add: item_num_def resp_num_def fun_eq_iff)
  then show ?thesis using t n e c after_colon_ok [OF h]
    by (auto simp: np_token_def word_field_def np_instance_def Let_def)
qed

lemma np_loop_nums:
  assumes "held xs s0 s ts (as @ bs)" and "\<forall>t \<in> set bs. t_type t = T_NUM" and "errchk \<longrightarrow> single_colons (colon_end as) bs"
    and "colon_end as \<longrightarrow> rls \<noteq> []" and "length rls \<le> RLSET"
  shows "np_loop base tabs cnum rnum first errchk sp mf w (int (length as)) ts rls m s =
    (if length (np_nums first rnum (colon_end as) bs rls) \<le> RLSET then Some (None, np_nums first rnum (colon_end as) bs rls, m, s) else None)"
  using assms
proof (induction bs arbitrary: as rls)
  case Nil
  then obtain e where "idx ts (int (length as)) = Some e" "t_type e = T_END" using tinv_end by (metis append_Nil2)
  then show ?case using Nil.prems by (subst np_loop.simps) simp
next
  case (Cons a bs)
  have n: "t_type a = T_NUM" "\<forall>t \<in> set bs. t_type t = T_NUM" using Cons.prems(2) by simp_all
  have h: "held xs s0 s ts ((as @ [a]) @ bs)" using Cons.prems(1) by simp
  have e: "errchk \<longrightarrow> single_colons (colon_end (as @ [a])) bs" using Cons.prems(3) by simp
  obtain t where t: "idx ts (int (length as)) = Some t" "a = tview (sview s) t" "t_type a \<noteq> T_END" by (rule tinv_idx [OF Cons.prems(1)])
  have e0: "errchk \<longrightarrow> \<not> (colon_end as \<and> hascolon a \<noteq> 0)" using Cons.prems(3) by simp
  note tok = np_token_num [OF Cons.prems(1) n(1) e0 Cons.prems(4), of base tabs cnum rnum first sp mf w m]
  let ?rls = "if colon_end as then rl_replace rls (resp_num rnum a (last rls)) else rls @ [item_num first a]"
  show ?case
  proof (cases "colon_end as \<or> length rls < RLSET")
    case True
    then have "np_loop base tabs cnum rnum first errchk sp mf w (int (length as)) ts rls m s =
        np_loop base tabs cnum rnum first errchk sp mf w (int (length (as @ [a]))) ts ?rls m s"
      using t tok by (subst np_loop.simps) (auto simp: rl_add_def add.commute)
    moreover have "?rls \<noteq> []" "length ?rls \<le> RLSET" using True Cons.prems(4,5) by (auto simp: rl_replace_def)
    ultimately show ?thesis using Cons.IH [OF h n(2) e, of ?rls] by simp
  next
    case False
    then have "np_loop base tabs cnum rnum first errchk sp mf w (int (length as)) ts rls m s = None"
      using t tok by (subst np_loop.simps) (simp add: rl_add_def)
    moreover have "length (rls @ [item_num first a]) \<le> length (np_nums first rnum (hascolon a \<noteq> 0) bs (rls @ [item_num first a]))"
      by (rule np_nums_length) simp
    then have "\<not> length (np_nums first rnum (colon_end as) (a # bs) rls) \<le> RLSET" using False Cons.prems(5) by simp
    ultimately show ?thesis by simp
  qed
qed

section \<open>Errors in pass 6\<close>

text \<open>
  A token that pass 6 does not know: neither a number nor a named range, and not a word that names items, or behind a colon responses.
\<close>

definition unknown_tok :: "(string Token_t \<Rightarrow> int) \<Rightarrow> bool \<Rightarrow> string Token_t \<Rightarrow> bool" where
  "unknown_tok lk prev t \<longleftrightarrow> t_type t \<noteq> T_NUM \<and> (t_type t = T_NAME \<longrightarrow> prev) \<and>
     (t_type t = T_WORD \<or> t_type t = T_NAME \<longrightarrow> lk t \<notin> (if prev then {2, 6, 11} else {2, 3, 5, 6, 7}))"

text \<open>The place of the first error behind tokens that are numbers: the part after the second colon of \<open>a:b:c\<close>, or an unknown token.\<close>

fun late_error :: "(string Token_t \<Rightarrow> int) \<Rightarrow> bool \<Rightarrow> string Token_t list \<Rightarrow> int option" where
  "late_error lk prev [] = None"
| "late_error lk prev (t # r) =
     (if prev \<and> hascolon t \<noteq> 0 then (case r of [] \<Rightarrow> None | u # _ \<Rightarrow> Some (t_pos u))
      else if t_type t = T_NUM then late_error lk (hascolon t \<noteq> 0) r
      else if unknown_tok lk prev t then Some (t_pos t) else None)"

lemma np_token_unknown:
  assumes r: "np_ready s0 xs w si mf y" and h: "held xs s0 s ts (as @ a # bs)" and l: "lexed (blank_blanks s0) a"
    and u: "unknown_tok (mod_slot (blank_blanks s0) y) (colon_end as) a" and e: "\<not> (colon_end as \<and> hascolon a \<noteq> 0)"
  shows "\<exists>s'. np_token base tabs cnum rnum first True sp (Some mf) (Some w) (int (length as)) ts rls m s =
      Some (Some (t_pos a), rls, m, s') \<and> held xs s0 s' ts (as @ a # bs)"
proof (cases "t_type a = T_WORD \<or> t_type a = T_NAME")
  case True
  obtain t st s1 s2 where t: "idx ts (int (length as)) = Some t" "a = tview (sview s) t"
    "chxtoken (Some w) nullchix 1 (t_str t) s = Some (st, s1)" "tablematch (Some mf) (Some w) s1 = Some (mod_slot (blank_blanks s0) y a, s2)"
    "held xs s0 s2 ts (as @ a # bs)" by (rule word_match [OF r h l True])
  have "t_type t = t_type a" "t_pos t = t_pos a" "hascolon t = hascolon a" using t(2) by simp_all
  then have "word_field (Some mf) (Some w) t s = Some (mod_slot (blank_blanks s0) y a, s2)" using True t(3,4) by (auto simp: word_field_def)
  moreover have "mod_slot (blank_blanks s0) y a \<notin> (if colon_end as then {2, 6, 11} else {2, 3, 5, 6, 7})"
    "t_type a \<noteq> T_NUM" "t_type a = T_NAME \<longrightarrow> colon_end as" using u True by (auto simp: unknown_tok_def split: if_splits)
  ultimately show ?thesis using t(1,5) \<open>t_type t = t_type a\<close> \<open>t_pos t = t_pos a\<close> \<open>hascolon t = hascolon a\<close> e after_colon_ok [OF h]
    by (cases "colon_end as") (simp_all add: np_token_def np_instance_def Let_def)
next
  case False
  obtain t where t: "idx ts (int (length as)) = Some t" "a = tview (sview s) t" by (rule tinv_idx [OF h])
  have "t_type t = t_type a" "t_pos t = t_pos a" "hascolon t = hascolon a" using t(2) by simp_all
  then show ?thesis using t(1) False u e h after_colon_ok [OF h]
    by (auto simp: np_token_def word_field_def np_instance_def unknown_tok_def Let_def)
qed

lemma np_loop_error:
  assumes r: "np_ready s0 xs w si mf y" and "held xs s0 s ts (as @ bs)" and "\<forall>t \<in> set bs. lexed (blank_blanks s0) t"
    and "late_error (mod_slot (blank_blanks s0) y) (colon_end as) bs = Some e"
    and "colon_end as \<longrightarrow> rls \<noteq> []" and "length rls + length bs \<le> RLSET"
  shows "\<exists>rls' s'. np_loop base tabs cnum rnum first True sp (Some mf) (Some w) (int (length as)) ts rls m s = Some (Some e, rls', m, s') \<and>
    held xs s0 s' ts (as @ bs)"
  using assms(2-6)
proof (induction bs arbitrary: as rls)
  case (Cons a bs)
  let ?lk = "mod_slot (blank_blanks s0) y"
  obtain t where t: "idx ts (int (length as)) = Some t" "a = tview (sview s) t" "t_type a \<noteq> T_END" by (rule tinv_idx [OF Cons.prems(1)])
  have ty: "t_type t \<noteq> T_END" "hascolon t = hascolon a" using t(2,3) by simp_all
  consider "colon_end as" "hascolon a \<noteq> 0" | "\<not> (colon_end as \<and> hascolon a \<noteq> 0)" "t_type a = T_NUM"
    | "\<not> (colon_end as \<and> hascolon a \<noteq> 0)" "t_type a \<noteq> T_NUM" by blast
  then show ?case
  proof cases
    case 1
    obtain b bs' where b: "bs = b # bs'" "e = t_pos b" using Cons.prems(3) 1 by (cases bs) auto
    have "held xs s0 s ts ((as @ [a]) @ b # bs')" using Cons.prems(1) b(1) by simp
    then obtain u where "idx ts (int (length (as @ [a]))) = Some u" "b = tview (sview s) u" by (rule tinv_idx)
    then have u: "idx ts (int (length as) + 1) = Some u" "t_pos u = e" using b(2) by (simp_all add: add.commute)
    have "np_token base tabs cnum rnum first True sp (Some mf) (Some w) (int (length as)) ts rls m s = Some (Some e, rls, m, s)"
      using t(1) ty(2) 1 u after_colon_ok [OF Cons.prems(1)] by (simp add: np_token_def)
    then show ?thesis using t(1) ty(1) Cons.prems(1) by (subst np_loop.simps) simp
  next
    case 2
    let ?rls = "if colon_end as then rl_replace rls (resp_num rnum a (last rls)) else rls @ [item_num first a]"
    note tok = np_token_num [OF Cons.prems(1) 2(2) _ Cons.prems(4), of True base tabs cnum rnum first sp "Some mf" "Some w" m]
    have "np_loop base tabs cnum rnum first True sp (Some mf) (Some w) (int (length as)) ts rls m s =
        np_loop base tabs cnum rnum first True sp (Some mf) (Some w) (int (length (as @ [a]))) ts ?rls m s"
      using t(1) ty(1) tok 2(1) Cons.prems(5) by (subst np_loop.simps) (auto simp: rl_add_def add.commute)
    moreover have "?rls \<noteq> []" "length ?rls + length bs \<le> RLSET" using Cons.prems(4,5) by (auto simp: rl_replace_def)
    moreover have "held xs s0 s ts ((as @ [a]) @ bs)" using Cons.prems(1) by simp
    moreover have "late_error ?lk (colon_end (as @ [a])) bs = Some e" using Cons.prems(3) 2 by (simp split: if_splits)
    ultimately show ?thesis using Cons.IH [of "as @ [a]" ?rls] Cons.prems(2) by simp
  next
    case 3
    then have u: "unknown_tok ?lk (colon_end as) a" "e = t_pos a" using Cons.prems(3) by (auto split: if_splits)
    obtain s' where s': "np_token base tabs cnum rnum first True sp (Some mf) (Some w) (int (length as)) ts rls m s = Some (Some (t_pos a), rls, m, s')"
        "held xs s0 s' ts (as @ a # bs)"
      using np_token_unknown [OF r Cons.prems(1) _ u(1) 3(1), of base tabs cnum rnum first sp rls m] Cons.prems(2) by auto
    then show ?thesis using t(1) ty(1) u(2) by (subst np_loop.simps) simp
  qed
qed simp

section \<open>The end of \<open>new_parse\<close>\<close>

lemma free_tokens_ok:
  assumes "held xs s0 s ts as"
  shows "\<exists>ts' s'. free_tokens ts s = Some (ts', s') \<and> own s0 s' xs"
  using assms
proof (induction as arbitrary: ts s)
  case Nil
  obtain e where e: "idx ts 0 = Some e" "t_type e = T_END" using tinv_end [OF Nil] by auto
  have "own s0 s xs" using Nil by (auto simp: held_def)
  then show ?case using e by (subst free_tokens.simps) simp
next
  case (Cons a as)
  have h: "held xs s0 s ts ([] @ a # as)" using Cons.prems by simp
  obtain t where t: "idx ts 0 = Some t" "t_type t \<noteq> T_END" by (rule tinv_idx [OF h]) auto
  obtain ts1 s1 where s1: "delete_token ts (int (length ([] :: string Token_t list))) s = Some (1, ts1, s1)" "held xs s0 s1 ts1 ([] @ as)"
    by (rule delete_token_ok [OF h])
  then have "held xs s0 s1 ts1 as" by simp
  from Cons.IH [OF this] show ?case using t s1(1) by (subst free_tokens.simps) simp
qed

lemma np_done_ok:
  assumes h: "held [c, b, a] s0 s ts as"
  obtains s' where "np_done ts (Some a) (Some b) (Some c) s = Some s'" "own s0 s' []"
proof -
  obtain ts1 s1 where s1: "free_tokens ts s = Some (ts1, s1)" "own s0 s1 [c, b, a]" using free_tokens_ok [OF h] by blast
  have d: "distinct [c, b, a]" using s1(2) by (simp add: own_def)
  obtain s2 where s2: "chxfree (Some a) s1 = Some (1, s2)" "own s0 s2 (remove1 a [c, b, a])" by (rule own_free [OF s1(2), of a]) auto
  have o2: "own s0 s2 [c, b]" using s2(2) d by (auto split: if_splits)
  obtain s3 where s3: "chxfree (Some b) s2 = Some (1, s3)" "own s0 s3 (remove1 b [c, b])" by (rule own_free [OF o2, of b]) auto
  have o3: "own s0 s3 [c]" using s3(2) d by (auto split: if_splits)
  obtain s4 where s4: "chxfree (Some c) s3 = Some (1, s4)" "own s0 s4 (remove1 c [c])" by (rule own_free [OF o3, of c]) auto
  show thesis by (rule that [of s4]) (use s1(1) s2(1) s3(1) s4 in \<open>simp_all add: np_done_def\<close>)
qed

text \<open>The first lines of \<open>new_parse\<close>.\<close>

lemma np_start:
  assumes "chx_inv s"
  obtains a b c s1 s2 s3 where "chxalloc 20 THIN ''newparse itemstr'' s = (a, s1)" "chxalloc 20 THIN ''newparse word1'' s1 = (b, s2)"
    "chxalloc 40 THIN ''newparse since'' s2 = (c, s3)" "own s s3 [c, b, a]"
proof -
  obtain a s1 where 1: "chxalloc 20 THIN ''newparse itemstr'' s = (a, s1)" "own s s1 [a]" by (rule own_alloc [OF own_start [OF assms]])
  obtain b s2 where 2: "chxalloc 20 THIN ''newparse word1'' s1 = (b, s2)" "own s s2 [b, a]" by (rule own_alloc [OF 1(2)])
  obtain c s3 where 3: "chxalloc 40 THIN ''newparse since'' s2 = (c, s3)" "own s s3 [c, b, a]" by (rule own_alloc [OF 2(2)])
  show thesis by (rule that [OF 1(1) 2(1) 3])
qed

definition any_instance :: "int list \<Rightarrow> bool" where
  "any_instance m \<longleftrightarrow> is_on m M_UNSEEN \<or> is_on m M_FRESH \<or> is_on m M_FROZEN \<or> is_on m M_NEW \<or> is_on m M_SINCE \<or> is_on m M_FORGOTTEN"

lemma np_default_ok:
  assumes "master_ok master" and "\<forall>rl \<in> set rls. \<forall>p \<in> set (tl rl). items_ok p"
  obtains rls' where "np_default master m rls = (if rls = [] \<and> \<not> any_instance m then 0 else 1, rls')"
    "\<forall>rl \<in> set rls'. \<forall>p \<in> set (tl rl). items_ok p"
    "\<And>i r. there master i \<Longrightarrow> (\<exists>rl \<in> set rls'. (i, r) \<in> den rl) \<longleftrightarrow>
       (if rls = [] then any_instance m \<and> 0 \<le> r \<and> r \<le> HIGHBOUND else \<exists>rl \<in> set rls. (i, r) \<in> den rl)"
proof (cases "rls = []")
  case False
  then show thesis using that [of rls] assms(2) by (simp add: np_default_def)
next
  case True
  have f: "i0 (set_node 1 (m_items master) 0 (-1)) = 1" "i1 (set_node 1 (m_items master) 0 (-1)) = m_items master"
    "r0 (set_node 1 (m_items master) 0 (-1)) = 0" "r1 (set_node 1 (m_items master) 0 (-1)) = -1"
    using assms(1) set_node_fields [of 1 "m_items master" 0 "-1"] by (auto simp: master_ok_def)
  let ?n = "set_node 1 (m_items master) 0 (-1)"
  let ?rls = "if any_instance m then [[a_mak_rlist, ?n]] else [[a_mak_rlist, ?n\<lparr>i0 := 0, i1 := 0\<rparr>]]"
  have "np_default master m rls = (if rls = [] \<and> \<not> any_instance m then 0 else 1, ?rls)"
    using True by (simp add: np_default_def rl_all_def any_instance_def Let_def)
  moreover have "\<forall>rl \<in> set ?rls. \<forall>p \<in> set (tl rl). items_ok p" using f by (simp add: items_ok_def resp_range_def)
  moreover have "(\<exists>rl \<in> set ?rls. (i, r) \<in> den rl) \<longleftrightarrow> any_instance m \<and> 0 \<le> r \<and> r \<le> HIGHBOUND" if "there master i" for i r
    using that f by (auto simp: cells_def there_def high_def)
  ultimately show thesis using that [of ?rls] True by simp
qed

text \<open>What follows pass 6, when neither FROZEN nor SINCE is given.\<close>

lemma np_rest_ok:
  assumes t: "tables_ok tabs" and "\<forall>rl \<in> set rls. \<forall>p \<in> set (tl rl). items_ok p" and off: "\<not> is_on m M_FROZEN" "\<not> is_on m M_SINCE"
  obtains rls' rl res where "np_default (np_master tabs) m rls = (if rls = [] \<and> \<not> any_instance m then 0 else 1, rls')"
    "np_assemble (np_master tabs) rls' = Some rl" "np_filter (is_on m) tabs rl = Some res" "np_last base cnum m si sp res s = Some (None, Some res, s)"
    "\<And>i r. r \<le> m_responses (np_master tabs) ! nat i \<Longrightarrow> (i, r) \<in> den res \<longleftrightarrow> there (np_master tabs) i \<and> wanted (is_on m) tabs i r \<and>
       (if rls = [] then any_instance m \<and> 0 \<le> r \<and> r \<le> HIGHBOUND else \<exists>rl \<in> set rls. (i, r) \<in> den rl)"
proof -
  have k: "master_ok (np_master tabs)" using t by (simp add: tables_ok_def)
  obtain rls' where d: "np_default (np_master tabs) m rls = (if rls = [] \<and> \<not> any_instance m then 0 else 1, rls')"
    "\<forall>rl \<in> set rls'. \<forall>p \<in> set (tl rl). items_ok p"
    "\<And>i r. there (np_master tabs) i \<Longrightarrow> (\<exists>rl \<in> set rls'. (i, r) \<in> den rl) \<longleftrightarrow>
       (if rls = [] then any_instance m \<and> 0 \<le> r \<and> r \<le> HIGHBOUND else \<exists>rl \<in> set rls. (i, r) \<in> den rl)"
    by (rule np_default_ok [OF k assms(2), of m]) blast
  obtain rl where a: "np_assemble (np_master tabs) rls' = Some rl" "\<forall>p \<in> set (tl rl). wf_node (m_items (np_master tabs)) resp_range p"
    "den rl = (\<Union>rl \<in> set rls'. den rl) \<inter> {(i, r). there (np_master tabs) i}" by (rule np_assemble_ok [OF k d(2)])
  obtain res where f: "np_filter (is_on m) tabs rl = Some res"
    "\<And>i r. r \<le> m_responses (np_master tabs) ! nat i \<Longrightarrow> (i, r) \<in> den res \<longleftrightarrow> (i, r) \<in> den rl \<and> i \<noteq> 0 \<and> wanted (is_on m) tabs i r"
    by (rule np_filter_ok [OF t a(2), of "is_on m"]) blast
  have l: "np_last base cnum m si sp res s = Some (None, Some res, s)" using off by (simp add: np_last_def)
  have dr: "(i, r) \<in> den rl \<longleftrightarrow> there (np_master tabs) i \<and> (\<exists>rl \<in> set rls'. (i, r) \<in> den rl)" for i r unfolding a(3) by auto
  show thesis
  proof (rule that [OF d(1) a(1) f(1) l])
    fix i r
    assume r: "r \<le> m_responses (np_master tabs) ! nat i"
    show "(i, r) \<in> den res \<longleftrightarrow> there (np_master tabs) i \<and> wanted (is_on m) tabs i r \<and>
       (if rls = [] then any_instance m \<and> 0 \<le> r \<and> r \<le> HIGHBOUND else \<exists>rl \<in> set rls. (i, r) \<in> den rl)"
    proof (cases "there (np_master tabs) i")
      case True
      then have "i \<noteq> 0" by (simp add: there_def)
      then show ?thesis unfolding f(2) [OF r] dr d(3) [OF True] using True by blast
    next
      case False
      then show ?thesis unfolding f(2) [OF r] dr by blast
    qed
  qed
qed

lemma item_num_ok: "first = 0 \<or> first = 1 \<Longrightarrow> \<forall>p \<in> set (tl (item_num first t)). items_ok p"
  by (auto simp: item_num_def items_ok_def resp_range_def Let_def set_node_def wrap16_id a_mak_rlist_def)

text \<open>In every list of pass 6 the items are not negative.\<close>

lemma np_nums_items:
  assumes "\<forall>rl \<in> set rls. \<forall>p \<in> set (tl rl). 0 \<le> i0 p" and "prev \<longrightarrow> rls \<noteq> []"
  shows "\<forall>rl \<in> set (np_nums first rnum prev as rls). \<forall>p \<in> set (tl rl). 0 \<le> i0 p"
  using assms
proof (induction as arbitrary: prev rls)
  case (Cons a as)
  let ?rls = "if prev then rl_replace rls (resp_num rnum a (last rls)) else rls @ [item_num first a]"
  have 1: "\<forall>p \<in> set (tl (item_num first a)). 0 \<le> i0 p" by (simp add: item_num_def Let_def)
  have 2: "\<forall>p \<in> set (tl (resp_num rnum a rl)). 0 \<le> i0 p" if "\<forall>p \<in> set (tl rl). 0 \<le> i0 p" for rl
    using that by (cases rl) (auto simp: resp_num_def)
  have 3: "\<forall>p \<in> set (tl (resp_num rnum a (last rls))). 0 \<le> i0 p" if prev
    by (rule 2) (use Cons.prems that last_in_set in blast)
  have "\<forall>rl \<in> set (butlast rls). \<forall>p \<in> set (tl rl). 0 \<le> i0 p" using Cons.prems(1) in_set_butlastD by fast
  then have "\<forall>rl \<in> set ?rls. \<forall>p \<in> set (tl rl). 0 \<le> i0 p"
    using Cons.prems(1) 1 3 by (cases prev) (simp_all add: rl_replace_def ball_Un)
  moreover have "hascolon a \<noteq> 0 \<longrightarrow> ?rls \<noteq> []" by (simp add: rl_replace_def)
  ultimately show ?case unfolding np_nums.simps by (rule Cons.IH)
qed simp

section \<open>Lines of numbers and modifiers\<close>

text \<open>The modifiers and the lists that a line of accepted tokens \<open>bs\<close> stands for.\<close>

definition line_items :: "np_tables \<Rightarrow> this_template \<Rightarrow> string Token_t list \<Rightarrow> string Token_t list" where
  "line_items tabs thisitem bs =
     item_list (the (last_item (m_responses (np_master tabs)) (m_items (np_master tabs)))) (th_number thisitem) False bs"

definition line_mods :: "(string Token_t \<Rightarrow> int) \<Rightarrow> bool \<Rightarrow> int list \<Rightarrow> string Token_t list \<Rightarrow> int list" where
  "line_mods lk clearmod modifier as =
     ruled (marked lk (taken lk False as) (if clearmod then replicate MODIFIERS 0 @ drop MODIFIERS modifier else modifier))"

definition line_first :: "bool \<Rightarrow> int list \<Rightarrow> int" where
  "line_first mod1st m = (if is_on m M_RESPONSES \<and> mod1st then 1 else 0)"

definition line_lists :: "(string Token_t \<Rightarrow> int) \<Rightarrow> int \<Rightarrow> int \<Rightarrow> string Token_t list \<Rightarrow> Rlist list" where
  "line_lists lk first rnum as = np_nums first rnum False (left_over lk False as) []"

text \<open>Every word is a modifier, and every modifier has a place in the array; no pair has two colons if errors are checked.\<close>

definition line_plain :: "(string Token_t \<Rightarrow> int) \<Rightarrow> bool \<Rightarrow> int list \<Rightarrow> string Token_t list \<Rightarrow> bool" where
  "line_plain lk errchk modifier as \<longleftrightarrow>
     MODIFIERS \<le> length modifier \<and> (\<forall>t \<in> set (taken lk False as). nat (lk t) < length modifier) \<and>
     (\<forall>t \<in> set (left_over lk False as). t_type t = T_NUM) \<and> (errchk \<longrightarrow> single_colons False (left_over lk False as))"

lemma ruled_length [simp]: "length (ruled m) = length m"
  by (simp add: ruled_def Let_def)

definition line_room :: "(string Token_t \<Rightarrow> int) \<Rightarrow> int list \<Rightarrow> string Token_t list \<Rightarrow> bool" where
  "line_room lk modifier as \<longleftrightarrow> MODIFIERS \<le> length modifier \<and> (\<forall>t \<in> set (taken lk False as). nat (lk t) < length modifier)"

lemma line_plain_room: "line_plain lk errchk modifier as \<Longrightarrow> line_room lk modifier as"
  by (simp add: line_plain_def line_room_def)

lemma left_over_set: "set (left_over lk prev as) \<subseteq> set as"
  by (induction as arbitrary: prev) auto

text \<open>Passes 4 and 5.\<close>

lemma np_body_start:
  assumes r: "np_ready s0 xs w si mf y" and h: "held xs s0 s ts bs" and l: "\<forall>t \<in> set bs. lexed (blank_blanks s0) t" and t: "tables_ok tabs"
    and lk: "lk = mod_slot (blank_blanks s0) y" and as: "as = line_items tabs thisitem bs" and p: "line_room lk modifier as"
  obtains lastitem ts1 m0 m1 sp' ts2 s2 where
    "last_item (m_responses (np_master tabs)) (m_items (np_master tabs)) = Some lastitem"
    "item_loop lastitem (th_number thisitem) 0 ts = Some ts1" "clear_mods clearmod modifier = Some m0"
    "mod_loop (Some mf) (Some w) (Some si) nullchix 0 m0 sp ts1 s = Some (m1, sp', ts2, s2)"
    "mod_rules m1 = Some (line_mods lk clearmod modifier as)" "held xs s0 s2 ts2 (left_over lk False as)"
proof -
  have k: "m_items (np_master tabs) < int (length (m_responses (np_master tabs)))" using t by (simp add: tables_ok_def master_ok_def)
  obtain li where li: "last_item (m_responses (np_master tabs)) (m_items (np_master tabs)) = Some li" by (rule last_item_ok [OF k])
  have a: "as = item_list li (th_number thisitem) False bs" using as li by (simp add: line_items_def)
  have h0: "held xs s0 s ts ([] @ bs)" using h by simp
  from item_loop_ok [OF h0] obtain ts1 where ts1: "item_loop li (th_number thisitem) 0 ts = Some ts1" "held xs s0 s ts1 ([] @ as)" by (auto simp: a)
  let ?m = "if clearmod then replicate MODIFIERS 0 @ drop MODIFIERS modifier else modifier"
  have len: "length ?m = length modifier" "MODIFIERS \<le> length modifier" using p by (simp_all add: line_room_def)
  have c: "clear_mods clearmod modifier = Some ?m" using len by (simp add: clear_mods_def)
  have lx: "\<forall>t \<in> set as. lexed (blank_blanks s0) t" using l item_list_lexed unfolding a by blast
  have tk: "\<forall>t \<in> set (taken lk (colon_end ([] :: string Token_t list)) as). nat (lk t) < length ?m" using p len by (simp add: line_room_def)
  from mod_loop_ok [OF r ts1(2) lx lk tk, of sp] obtain sp' ts2 s2 where
    m: "mod_loop (Some mf) (Some w) (Some si) nullchix 0 ?m sp ts1 s = Some (marked lk (taken lk False as) ?m, sp', ts2, s2)"
      "held xs s0 s2 ts2 (left_over lk False as)" by auto
  have "mod_rules (marked lk (taken lk False as) ?m) = Some (line_mods lk clearmod modifier as)"
    unfolding line_mods_def by (rule mod_rules_ok) (use len in simp)
  then show thesis by (rule that [OF li ts1(1) c m(1) _ m(2)])
qed

lemma np_body_ok:
  assumes r: "np_ready s0 xs w si mf y" and h: "held xs s0 s ts bs" and l: "\<forall>t \<in> set bs. lexed (blank_blanks s0) t" and t: "tables_ok tabs"
    and lk: "lk = mod_slot (blank_blanks s0) y" and as: "as = line_items tabs thisitem bs" and p: "line_plain lk errchk modifier as"
    and m: "m = line_mods lk clearmod modifier as" "\<not> is_on m M_FROZEN" "\<not> is_on m M_SINCE"
    and rls: "rls = line_lists lk (line_first mod1st m) (th_rnum thisitem) as" "length rls \<le> RLSET"
      "\<forall>rl \<in> set rls. \<forall>p \<in> set (tl rl). resp_range (r0 p) (r1 p)"
  obtains res ts' s' where
    "np_body base tabs cnum thisitem (Some mf) (Some w) (Some si) nullchix clearmod mod1st errchk sp modifier ts s =
       Some (if rls = [] \<and> \<not> any_instance m then 0 else 1, -1, Some res, m, ts', s')"
    "held xs s0 s' ts' (left_over lk False as)"
    "\<And>i r. r \<le> m_responses (np_master tabs) ! nat i \<Longrightarrow> (i, r) \<in> den res \<longleftrightarrow> there (np_master tabs) i \<and> wanted (is_on m) tabs i r \<and>
       (if rls = [] then any_instance m \<and> 0 \<le> r \<and> r \<le> HIGHBOUND else \<exists>rl \<in> set rls. (i, r) \<in> den rl)"
proof -
  obtain li ts1 m0 m1 sp' ts2 s2 where b: "last_item (m_responses (np_master tabs)) (m_items (np_master tabs)) = Some li"
    "item_loop li (th_number thisitem) 0 ts = Some ts1" "clear_mods clearmod modifier = Some m0"
    "mod_loop (Some mf) (Some w) (Some si) nullchix 0 m0 sp ts1 s = Some (m1, sp', ts2, s2)"
    "mod_rules m1 = Some (line_mods lk clearmod modifier as)" "held xs s0 s2 ts2 (left_over lk False as)"
    by (rule np_body_start [OF r h l t lk as line_plain_room [OF p]])
  have h2: "held xs s0 s2 ts2 ([] @ left_over lk False as)" using b(6) by simp
  have n: "\<forall>t \<in> set (left_over lk False as). t_type t = T_NUM" "errchk \<longrightarrow> single_colons (colon_end ([] :: string Token_t list)) (left_over lk False as)"
    using p by (simp_all add: line_plain_def)
  have lp: "np_loop base tabs cnum (th_rnum thisitem) (line_first mod1st m) errchk sp' (Some mf) (Some w) 0 ts2 [] m s2 = Some (None, rls, m, s2)"
    using np_loop_nums [OF h2 n, of "[]"] rls(1,2) by (simp add: line_lists_def)
  have "\<forall>rl \<in> set rls. \<forall>p \<in> set (tl rl). 0 \<le> i0 p" unfolding rls(1) line_lists_def by (rule np_nums_items) simp_all
  then have it: "\<forall>rl \<in> set rls. \<forall>p \<in> set (tl rl). items_ok p" using rls(3) by (simp add: items_ok_def)
  obtain rls' rl res where e: "np_default (np_master tabs) m rls = (if rls = [] \<and> \<not> any_instance m then 0 else 1, rls')"
    "np_assemble (np_master tabs) rls' = Some rl" "np_filter (is_on m) tabs rl = Some res"
    "np_last base cnum m (Some si) sp' res s2 = Some (None, Some res, s2)"
    "\<And>i r. r \<le> m_responses (np_master tabs) ! nat i \<Longrightarrow> (i, r) \<in> den res \<longleftrightarrow> there (np_master tabs) i \<and> wanted (is_on m) tabs i r \<and>
       (if rls = [] then any_instance m \<and> 0 \<le> r \<and> r \<le> HIGHBOUND else \<exists>rl \<in> set rls. (i, r) \<in> den rl)"
    by (rule np_rest_ok [OF t it m(2,3), of base cnum "Some si" sp' s2]) blast
  have "np_body base tabs cnum thisitem (Some mf) (Some w) (Some si) nullchix clearmod mod1st errchk sp modifier ts s =
       Some (if rls = [] \<and> \<not> any_instance m then 0 else 1, -1, Some res, m, ts2, s2)"
    using b(1-5) lp e(1-4) by (simp add: np_body_def m(1) [symmetric] line_first_def [symmetric] Let_def del: One_nat_def)
  then show thesis by (rule that [OF _ b(6) e(5)])
qed

lemma np_body_overrun:
  assumes r: "np_ready s0 xs w si mf y" and h: "held xs s0 s ts bs" and l: "\<forall>t \<in> set bs. lexed (blank_blanks s0) t" and t: "tables_ok tabs"
    and lk: "lk = mod_slot (blank_blanks s0) y" and as: "as = line_items tabs thisitem bs" and p: "line_plain lk errchk modifier as"
    and m: "m = line_mods lk clearmod modifier as" and rls: "RLSET < length (line_lists lk (line_first mod1st m) (th_rnum thisitem) as)"
  shows "np_body base tabs cnum thisitem (Some mf) (Some w) (Some si) nullchix clearmod mod1st errchk sp modifier ts s = None"
proof -
  obtain li ts1 m0 m1 sp' ts2 s2 where b: "last_item (m_responses (np_master tabs)) (m_items (np_master tabs)) = Some li"
    "item_loop li (th_number thisitem) 0 ts = Some ts1" "clear_mods clearmod modifier = Some m0"
    "mod_loop (Some mf) (Some w) (Some si) nullchix 0 m0 sp ts1 s = Some (m1, sp', ts2, s2)"
    "mod_rules m1 = Some (line_mods lk clearmod modifier as)" "held xs s0 s2 ts2 (left_over lk False as)"
    by (rule np_body_start [OF r h l t lk as line_plain_room [OF p]])
  have h2: "held xs s0 s2 ts2 ([] @ left_over lk False as)" using b(6) by simp
  have n: "\<forall>t \<in> set (left_over lk False as). t_type t = T_NUM" "errchk \<longrightarrow> single_colons (colon_end ([] :: string Token_t list)) (left_over lk False as)"
    using p by (simp_all add: line_plain_def)
  have "np_loop base tabs cnum (th_rnum thisitem) (line_first mod1st m) errchk sp' (Some mf) (Some w) 0 ts2 [] m s2 = None"
    using np_loop_nums [OF h2 n, of "[]"] rls by (simp add: line_lists_def)
  then show ?thesis using b(1-5) by (simp add: np_body_def m [symmetric] line_first_def [symmetric])
qed

lemma np_body_error:
  assumes r: "np_ready s0 xs w si mf y" and h: "held xs s0 s ts bs" and l: "\<forall>t \<in> set bs. lexed (blank_blanks s0) t" and t: "tables_ok tabs"
    and lk: "lk = mod_slot (blank_blanks s0) y" and as: "as = line_items tabs thisitem bs" and p: "line_room lk modifier as"
    and e: "late_error lk False (left_over lk False as) = Some e" and len: "length (left_over lk False as) \<le> RLSET"
  obtains ts' s' where "np_body base tabs cnum thisitem (Some mf) (Some w) (Some si) nullchix clearmod mod1st True sp modifier ts s =
       Some (0, e, Some [a_mak_rlist], line_mods lk clearmod modifier as, ts', s')" "held xs s0 s' ts' (left_over lk False as)"
proof -
  let ?m = "line_mods lk clearmod modifier as"
  obtain li ts1 m0 m1 sp' ts2 s2 where b: "last_item (m_responses (np_master tabs)) (m_items (np_master tabs)) = Some li"
    "item_loop li (th_number thisitem) 0 ts = Some ts1" "clear_mods clearmod modifier = Some m0"
    "mod_loop (Some mf) (Some w) (Some si) nullchix 0 m0 sp ts1 s = Some (m1, sp', ts2, s2)"
    "mod_rules m1 = Some ?m" "held xs s0 s2 ts2 (left_over lk False as)"
    by (rule np_body_start [OF r h l t lk as p])
  have h2: "held xs s0 s2 ts2 ([] @ left_over lk False as)" using b(6) by simp
  have "\<forall>t \<in> set as. lexed (blank_blanks s0) t" using l item_list_lexed unfolding as line_items_def by blast
  then have l2: "\<forall>t \<in> set (left_over lk False as). lexed (blank_blanks s0) t" using left_over_set by blast
  obtain rls s' where lp: "np_loop base tabs cnum (th_rnum thisitem) (line_first mod1st ?m) True sp' (Some mf) (Some w) 0 ts2 [] ?m s2 = Some (Some e, rls, ?m, s')"
      "held xs s0 s' ts2 (left_over lk False as)"
    using np_loop_error [OF r h2 l2, of e "[]" base tabs cnum "th_rnum thisitem" "line_first mod1st ?m" sp' ?m] e len lk by auto
  show thesis by (rule that [OF _ lp(2)]) (use b(1-5) lp(1) in \<open>simp add: np_body_def line_first_def [symmetric]\<close>)
qed

section \<open>\<open>new_parse\<close>\<close>

definition parse_ready :: "chx_state \<Rightarrow> bool" where
  "parse_ready s \<longleftrightarrow> select_ready s \<and> token_blanks s = blank_blanks s \<and> in_tab (blank_blanks s) (CHR '' '')"

text \<open>The line, the three tables of words, and room for the tokens.\<close>

definition line_ready :: "chx_state \<Rightarrow> nat \<Rightarrow> string \<Rightarrow> nat \<Rightarrow> string \<Rightarrow> nat \<Rightarrow> string \<Rightarrow> nat \<Rightarrow> string \<Rightarrow> int list \<Rightarrow> bool" where
  "line_ready s l x dw y rp z mf v old \<longleftrightarrow> parse_ready s \<and> sview s l = Some x \<and> sview s dw = Some y \<and> sview s rp = Some z \<and> sview s mf = Some v \<and>
     CHR ''/'' \<notin> set x \<and> length (toks (look_up (blank_blanks s) y) (blank_blanks s) 0 x) < length old"

lemma new_parse_tokens:
  assumes r: "line_ready s l x dw y rp z mf v old"
  obtains a b c s1 s2 s3 where "chxalloc 20 THIN ''newparse itemstr'' s = (a, s1)" "chxalloc 20 THIN ''newparse word1'' s1 = (b, s2)"
    "chxalloc 40 THIN ''newparse since'' s2 = (c, s3)" "np_ready s [c, b, a] b c mf v"
    "\<And>bs. select_list (blank_blanks s) y z errchk x = Inr bs \<Longrightarrow>
       \<exists>ts s4. np_tokens (Some l) (Some dw) (Some rp) errchk old s3 = Some (1, -1, ts, s4) \<and> held [c, b, a] s s4 ts bs"
    "\<And>e. select_list (blank_blanks s) y z errchk x = Inl e \<Longrightarrow>
       \<exists>ts s4 bs. np_tokens (Some l) (Some dw) (Some rp) errchk old s3 = Some (0, e, ts, s4) \<and> held [c, b, a] s s4 ts bs"
proof -
  have k: "select_ready s" "parse_ready s" "sview s l = Some x" "sview s dw = Some y" "sview s rp = Some z" "sview s mf = Some v" "CHR ''/'' \<notin> set x"
    "length (toks (look_up (blank_blanks s) y) (blank_blanks s) 0 x) < length old" using r by (simp_all add: line_ready_def parse_ready_def)
  have inv: "chx_inv s" using k(1) by (simp add: select_ready_def)
  obtain a b c s1 s2 s3 where a: "chxalloc 20 THIN ''newparse itemstr'' s = (a, s1)" "chxalloc 20 THIN ''newparse word1'' s1 = (b, s2)"
    "chxalloc 40 THIN ''newparse since'' s2 = (c, s3)" "own s s3 [c, b, a]" by (rule np_start [OF inv])
  note o = own_ready [OF k(1) a(4)]
  have v3: "sview s3 l = Some x" "sview s3 dw = Some y" "sview s3 rp = Some z" using own_other [OF a(4)] k(3-5) by auto
  have p: "pass_ok s3 [] (select_list (blank_blanks s) y z errchk x) (np_tokens (Some l) (Some dw) (Some rp) errchk old s3)"
    using np_tokens_ok [OF o(1) v3 k(7), of old errchk] k(8) o(2) by simp
  have n: "np_ready s [c, b, a] b c mf v" using k(2,6) a(4) by (auto simp: np_ready_def parse_ready_def own_def)
  show thesis
  proof (rule that [OF a(1-3) n])
    show "\<exists>ts s4. np_tokens (Some l) (Some dw) (Some rp) errchk old s3 = Some (1, -1, ts, s4) \<and> held [c, b, a] s s4 ts bs"
      if "select_list (blank_blanks s) y z errchk x = Inr bs" for bs
      using p that held_base [OF a(4)] by (auto simp: pass_ok_def)
    show "\<exists>ts s4 bs. np_tokens (Some l) (Some dw) (Some rp) errchk old s3 = Some (0, e, ts, s4) \<and> held [c, b, a] s s4 ts bs"
      if "select_list (blank_blanks s) y z errchk x = Inl e" for e
      using p that held_base [OF a(4)] by (fastforce simp: pass_ok_def)
  qed
qed

lemma own_none: "own s s' [] \<Longrightarrow> reads s s'"
  by (auto simp: own_def reads_def)

text \<open>An error in pass 2 or 3: nothing is selected, the place is returned and nothing else changes.\<close>

lemma new_parse_error:
  assumes r: "line_ready s l x dw y rp z mf v old" and e: "select_list (blank_blanks s) y z errchk x = Inl e"
  obtains s' where
    "new_parse base tabs (Some dw) (Some mf) (Some rp) old sp (Some l) modifier attach cnum thisitem clearmod mod1st errchk s =
       Some (0, e, Some [a_mak_rlist], modifier, s')" "reads s s'"
proof -
  obtain a b c s1 s2 s3 where a: "chxalloc 20 THIN ''newparse itemstr'' s = (a, s1)" "chxalloc 20 THIN ''newparse word1'' s1 = (b, s2)"
    "chxalloc 40 THIN ''newparse since'' s2 = (c, s3)"
    "\<exists>ts s4 bs. np_tokens (Some l) (Some dw) (Some rp) errchk old s3 = Some (0, e, ts, s4) \<and> held [c, b, a] s s4 ts bs"
    by (rule new_parse_tokens [OF r, of errchk]) (use e in blast)
  then obtain ts s4 bs where t: "np_tokens (Some l) (Some dw) (Some rp) errchk old s3 = Some (0, e, ts, s4)" "held [c, b, a] s s4 ts bs" by blast
  obtain s' where d: "np_done ts (Some a) (Some b) (Some c) s4 = Some s'" "own s s' []" by (rule np_done_ok [OF t(2)])
  have "new_parse base tabs (Some dw) (Some mf) (Some rp) old sp (Some l) modifier attach cnum thisitem clearmod mod1st errchk s =
       Some (0, e, Some [a_mak_rlist], modifier, s')" using a(1-3) t(1) d(1) by (simp add: new_parse_def)
  then show thesis by (rule that [OF _ own_none [OF d(2)]])
qed

lemma new_parse_late:
  assumes r: "line_ready s l x dw y rp z mf v old" and sl: "select_list (blank_blanks s) y z True x = Inr bs" and t: "tables_ok tabs"
    and lk: "lk = mod_slot (blank_blanks s) v" and as: "as = line_items tabs thisitem bs" and p: "line_room lk modifier as"
    and e: "late_error lk False (left_over lk False as) = Some e" "length (left_over lk False as) \<le> RLSET"
  obtains s' where
    "new_parse base tabs (Some dw) (Some mf) (Some rp) old sp (Some l) modifier nullchix cnum thisitem clearmod mod1st True s =
       Some (0, e, Some [a_mak_rlist], line_mods lk clearmod modifier as, s')" "reads s s'"
proof -
  obtain a b c s1 s2 s3 where a: "chxalloc 20 THIN ''newparse itemstr'' s = (a, s1)" "chxalloc 20 THIN ''newparse word1'' s1 = (b, s2)"
    "chxalloc 40 THIN ''newparse since'' s2 = (c, s3)" "np_ready s [c, b, a] b c mf v"
    "\<exists>ts s4. np_tokens (Some l) (Some dw) (Some rp) True old s3 = Some (1, -1, ts, s4) \<and> held [c, b, a] s s4 ts bs"
    by (rule new_parse_tokens [OF r, of True]) (use sl in blast)
  then obtain ts s4 where t4: "np_tokens (Some l) (Some dw) (Some rp) True old s3 = Some (1, -1, ts, s4)" "held [c, b, a] s s4 ts bs" by blast
  have lx: "\<forall>t \<in> set bs. lexed (blank_blanks s) t" using select_lexed [OF sl] r by (simp add: line_ready_def)
  obtain ts' s5 where b: "np_body base tabs cnum thisitem (Some mf) (Some b) (Some c) nullchix clearmod mod1st True sp modifier ts s4 =
       Some (0, e, Some [a_mak_rlist], line_mods lk clearmod modifier as, ts', s5)" "held [c, b, a] s s5 ts' (left_over lk False as)"
    by (rule np_body_error [OF a(4) t4(2) lx t lk as p e])
  obtain s' where d: "np_done ts' (Some a) (Some b) (Some c) s5 = Some s'" "own s s' []" by (rule np_done_ok [OF b(2)])
  show thesis by (rule that [OF _ own_none [OF d(2)]]) (use a(1-3) t4(1) b(1) d(1) in \<open>simp add: new_parse_def\<close>)
qed

lemma new_parse_nums:
  assumes r: "line_ready s l x dw y rp z mf v old" and sl: "select_list (blank_blanks s) y z errchk x = Inr bs" and t: "tables_ok tabs"
    and lk: "lk = mod_slot (blank_blanks s) v" and as: "as = line_items tabs thisitem bs" and p: "line_plain lk errchk modifier as"
    and m: "m = line_mods lk clearmod modifier as" "\<not> is_on m M_FROZEN" "\<not> is_on m M_SINCE"
    and rls: "rls = line_lists lk (line_first mod1st m) (th_rnum thisitem) as" "length rls \<le> RLSET"
      "\<forall>rl \<in> set rls. \<forall>p \<in> set (tl rl). resp_range (r0 p) (r1 p)"
  obtains res s' where
    "new_parse base tabs (Some dw) (Some mf) (Some rp) old sp (Some l) modifier nullchix cnum thisitem clearmod mod1st errchk s =
       Some (if rls = [] \<and> \<not> any_instance m then 0 else 1, -1, Some res, m, s')" "reads s s'"
    "\<And>i r. r \<le> m_responses (np_master tabs) ! nat i \<Longrightarrow> (i, r) \<in> den res \<longleftrightarrow> there (np_master tabs) i \<and> wanted (is_on m) tabs i r \<and>
       (if rls = [] then any_instance m \<and> 0 \<le> r \<and> r \<le> HIGHBOUND else \<exists>rl \<in> set rls. (i, r) \<in> den rl)"
proof -
  obtain a b c s1 s2 s3 where a: "chxalloc 20 THIN ''newparse itemstr'' s = (a, s1)" "chxalloc 20 THIN ''newparse word1'' s1 = (b, s2)"
    "chxalloc 40 THIN ''newparse since'' s2 = (c, s3)" "np_ready s [c, b, a] b c mf v"
    "\<exists>ts s4. np_tokens (Some l) (Some dw) (Some rp) errchk old s3 = Some (1, -1, ts, s4) \<and> held [c, b, a] s s4 ts bs"
    by (rule new_parse_tokens [OF r, of errchk]) (use sl in blast)
  then obtain ts s4 where t4: "np_tokens (Some l) (Some dw) (Some rp) errchk old s3 = Some (1, -1, ts, s4)" "held [c, b, a] s s4 ts bs" by blast
  have lx: "\<forall>t \<in> set bs. lexed (blank_blanks s) t" using select_lexed [OF sl] r by (simp add: line_ready_def)
  obtain res ts' s5 where b: "np_body base tabs cnum thisitem (Some mf) (Some b) (Some c) nullchix clearmod mod1st errchk sp modifier ts s4 =
       Some (if rls = [] \<and> \<not> any_instance m then 0 else 1, -1, Some res, m, ts', s5)" "held [c, b, a] s s5 ts' (left_over lk False as)"
    "\<And>i r. r \<le> m_responses (np_master tabs) ! nat i \<Longrightarrow> (i, r) \<in> den res \<longleftrightarrow> there (np_master tabs) i \<and> wanted (is_on m) tabs i r \<and>
       (if rls = [] then any_instance m \<and> 0 \<le> r \<and> r \<le> HIGHBOUND else \<exists>rl \<in> set rls. (i, r) \<in> den rl)"
    by (rule np_body_ok [OF a(4) t4(2) lx t lk as p m rls, of base cnum sp]) blast
  obtain s' where d: "np_done ts' (Some a) (Some b) (Some c) s5 = Some s'" "own s s' []" by (rule np_done_ok [OF b(2)])
  have "new_parse base tabs (Some dw) (Some mf) (Some rp) old sp (Some l) modifier nullchix cnum thisitem clearmod mod1st errchk s =
       Some (if rls = [] \<and> \<not> any_instance m then 0 else 1, -1, Some res, m, s')" using a(1-3) t4(1) b(1) d(1) by (simp add: new_parse_def)
  then show thesis by (rule that [OF _ own_none [OF d(2)] b(3)])
qed

lemma new_parse_overrun_ok:
  assumes r: "line_ready s l x dw y rp z mf v old" and sl: "select_list (blank_blanks s) y z errchk x = Inr bs" and t: "tables_ok tabs"
    and lk: "lk = mod_slot (blank_blanks s) v" and as: "as = line_items tabs thisitem bs" and p: "line_plain lk errchk modifier as"
    and m: "m = line_mods lk clearmod modifier as" and rls: "RLSET < length (line_lists lk (line_first mod1st m) (th_rnum thisitem) as)"
  shows "new_parse base tabs (Some dw) (Some mf) (Some rp) old sp (Some l) modifier nullchix cnum thisitem clearmod mod1st errchk s = None"
proof -
  obtain a b c s1 s2 s3 where a: "chxalloc 20 THIN ''newparse itemstr'' s = (a, s1)" "chxalloc 20 THIN ''newparse word1'' s1 = (b, s2)"
    "chxalloc 40 THIN ''newparse since'' s2 = (c, s3)" "np_ready s [c, b, a] b c mf v"
    "\<exists>ts s4. np_tokens (Some l) (Some dw) (Some rp) errchk old s3 = Some (1, -1, ts, s4) \<and> held [c, b, a] s s4 ts bs"
    by (rule new_parse_tokens [OF r, of errchk]) (use sl in blast)
  then obtain ts s4 where t4: "np_tokens (Some l) (Some dw) (Some rp) errchk old s3 = Some (1, -1, ts, s4)" "held [c, b, a] s s4 ts bs" by blast
  have lx: "\<forall>t \<in> set bs. lexed (blank_blanks s) t" using select_lexed [OF sl] r by (simp add: line_ready_def)
  have "np_body base tabs cnum thisitem (Some mf) (Some b) (Some c) nullchix clearmod mod1st errchk sp modifier ts s4 = None"
    by (rule np_body_overrun [OF a(4) t4(2) lx t lk as p m rls])
  then show ?thesis using a(1-3) t4(1) by (simp add: new_parse_def)
qed

section \<open>Lines of numbers\<close>

definition num_tok :: "'a Token_t \<Rightarrow> bool" where
  "num_tok t \<longleftrightarrow> t_type t = T_NUM \<and> 0 \<le> num0 t \<and> 0 \<le> num1 t"

lemma nums_line:
  assumes "\<forall>t \<in> set as. num_tok t"
  shows "item_list l n prev as = as" "taken lk prev as = []" "left_over lk prev as = as"
  using assms by (induction as arbitrary: prev) (auto simp: num_tok_def item_nums_def is_mod_def)

lemma nums_plain:
  assumes "\<forall>t \<in> set bs. num_tok t" and "MODIFIERS \<le> length modifier" and "errchk \<longrightarrow> single_colons False bs"
  shows "line_items tabs thisitem bs = bs" "line_plain lk errchk modifier bs"
    "line_mods lk clearmod modifier bs = ruled (if clearmod then replicate MODIFIERS 0 @ drop MODIFIERS modifier else modifier)"
    "line_lists lk first rnum bs = np_nums first rnum False bs []"
  using assms(2,3) nums_line [OF assms(1)] assms(1)
  by (simp_all add: line_items_def line_plain_def line_mods_def line_lists_def num_tok_def)

text \<open>The list that one selection becomes.\<close>

definition clamped :: "Rlist_t \<Rightarrow> Rlist_t" where
  "clamped p = (let p = (if i0 p < 0 then p\<lparr>i0 := 0\<rparr> else p) in if i1 p < 0 then p\<lparr>i1 := 0\<rparr> else p)"

definition sel_rl :: "int \<Rightarrow> selection \<Rightarrow> Rlist" where
  "sel_rl first p =
     (let n = clamped (set_node (int (fst (fst p))) (int (snd (fst p))) first (-1))
      in case snd p of None \<Rightarrow> [a_mak_rlist, n]
         | Some q \<Rightarrow> [a_mak_rlist, n\<lparr>r0 := wrap16 (int (fst q)), r1 := wrap16 (int (snd q))\<rparr>])"

lemma plain_num: "plain t = (T_NUM, int a, int b, c) \<Longrightarrow> num_tok t \<and> num0 t = int a \<and> num1 t = int b \<and> hascolon t = c"
  by (simp add: plain_def num_tok_def)

lemma sel_item: "plain t = (T_NUM, int a, int b, c) \<Longrightarrow> item_num first t = sel_rl first ((a, b), None)"
  by (simp add: plain_def item_num_def sel_rl_def clamped_def Let_def)

lemma sels_nums:
  assumes "map plain bs = concat (map sel_view sels)"
  shows "(\<forall>t \<in> set bs. num_tok t) \<and> single_colons False bs \<and> np_nums first rnum False bs rls = rls @ map (sel_rl first) sels"
  using assms
proof (induction sels arbitrary: bs rls)
  case Nil
  then show ?case by simp
next
  case (Cons p sels)
  obtain a b where ab: "fst p = (a, b)" by force
  show ?case
  proof (cases "snd p")
    case None
    then have p: "p = ((a, b), None)" using ab by (cases p) simp
    obtain t bs' where t: "bs = t # bs'" "plain t = (T_NUM, int a, int b, 0)" "map plain bs' = concat (map sel_view sels)"
      using Cons.prems sel_view_simps(1) [OF None] ab by (cases bs) auto
    show ?thesis using Cons.IH [OF t(3), of "rls @ [item_num first t]"] t(1) plain_num [OF t(2)] sel_item [OF t(2), of first] p by simp
  next
    case (Some q)
    obtain c d where q: "q = (c, d)" by force
    then have p: "p = ((a, b), Some (c, d))" using ab Some by (cases p) simp
    obtain t u bs' where t: "bs = t # u # bs'" "plain t = (T_NUM, int a, int b, 1)" "plain u = (T_NUM, int c, int d, 0)"
        "map plain bs' = concat (map sel_view sels)"
      using Cons.prems sel_view_simps(2) [OF Some] ab q by (cases bs; cases "tl bs") auto
    have "RESP_NUM rnum (num0 u) = int c" "RESP_NUM rnum (num1 u) = int d" using plain_num [OF t(3)] by (simp_all add: RESP_NUM_def)
    then have "resp_num rnum u (item_num first t) = sel_rl first p"
      unfolding sel_item [OF t(2), of first] p by (simp add: resp_num_def sel_rl_def Let_def)
    then show ?thesis using Cons.IH [OF t(4), of "rls @ [sel_rl first p]"] t(1) plain_num [OF t(2)] plain_num [OF t(3)]
      by (simp add: rl_replace_def)
  qed
qed

text \<open>Which responses a selection names.\<close>

definition sel_has :: "int \<Rightarrow> selection \<Rightarrow> int \<Rightarrow> int \<Rightarrow> bool" where
  "sel_has first p i r \<longleftrightarrow> int (fst (fst p)) \<le> i \<and> i \<le> int (snd (fst p)) \<and>
     (case snd p of None \<Rightarrow> first \<le> r \<and> r \<le> HIGHBOUND | Some q \<Rightarrow> int (fst q) \<le> r \<and> r \<le> int (snd q))"

definition sel_short :: "selection \<Rightarrow> bool" where
  "sel_short p \<longleftrightarrow> fst (fst p) < 2 ^ 15 \<and> snd (fst p) < 2 ^ 15 \<and> (case snd p of None \<Rightarrow> True | Some q \<Rightarrow> fst q < 2 ^ 15 \<and> snd q < 2 ^ 15)"

lemma clamped_id: "0 \<le> i0 p \<Longrightarrow> 0 \<le> i1 p \<Longrightarrow> clamped p = p"
  by (simp add: clamped_def)

lemma sel_rl_short:
  assumes "sel_short p" and "first = 0 \<or> first = 1"
  shows "\<forall>q \<in> set (tl (sel_rl first p)). resp_range (r0 q) (r1 q)" and "(i, r) \<in> den (sel_rl first p) \<longleftrightarrow> sel_has first p i r"
proof -
  let ?n = "set_node (int (fst (fst p))) (int (snd (fst p))) first (-1)"
  have b: "int (fst (fst p)) < 2 ^ 15" "int (snd (fst p)) < 2 ^ 15" using assms(1) by (simp_all add: sel_short_def)
  have n: "i0 ?n = int (fst (fst p))" "i1 ?n = int (snd (fst p))" "r0 ?n = first" "r1 ?n = -1"
    using set_node_fields [of "int (fst (fst p))" "int (snd (fst p))" first "-1"] b assms(2) by auto
  have c: "clamped ?n = ?n" using n by (intro clamped_id) simp_all
  have w: "wrap16 (int k) = int k" if "k < 2 ^ 15" for k using that by (intro wrap16_id) simp_all
  show "\<forall>q \<in> set (tl (sel_rl first p)). resp_range (r0 q) (r1 q)"
    using assms n w by (auto simp: sel_rl_def c Let_def resp_range_def sel_short_def split: option.splits)
  show "(i, r) \<in> den (sel_rl first p) \<longleftrightarrow> sel_has first p i r"
    using assms n w by (auto simp: sel_rl_def c Let_def sel_has_def sel_short_def cells_def high_def split: option.splits)
qed

lemma sels_ready:
  assumes "parse_ready s" and "sview s l = Some (concat (map selection_text sels))" "sview s dw = Some y" "sview s rp = Some z" "sview s mf = Some v"
    and "\<forall>p \<in> set sels. sel_small p" and "7 * length sels < length old"
  obtains bs where "line_ready s l (concat (map selection_text sels)) dw y rp z mf v old"
    "select_list (blank_blanks s) y z errchk (concat (map selection_text sels)) = Inr bs" "map plain bs = concat (map sel_view sels)"
proof -
  have k: "blanks_sane (blank_blanks s)" "in_tab (blank_blanks s) (CHR '' '')" using assms(1) by (simp_all add: parse_ready_def select_ready_def)
  obtain bs where bs: "select_list (blank_blanks s) y z errchk (concat (map selection_text sels)) = Inr bs" "map plain bs = concat (map sel_view sels)"
    using select_list_sels(1) [OF k assms(6)] by blast
  have "length (toks (look_up (blank_blanks s) y) (blank_blanks s) 0 (concat (map selection_text sels))) < length old"
    using select_list_sels(2) [OF k assms(6), of y] assms(7) by simp
  moreover have "CHR ''/'' \<notin> set (show_nat m)" for m using show_nat_range [of "CHR ''/''" m] by (auto simp: bval_def)
  then have "CHR ''/'' \<notin> set (concat (map selection_text sels))" by (auto simp: selection_text_def range_text_def split: option.splits)
  ultimately show thesis using that [OF _ bs] assms(1-5) by (simp add: line_ready_def)
qed

text \<open>The modifiers without words in the line.\<close>

abbreviation start_mods :: "bool \<Rightarrow> int list \<Rightarrow> int list" where
  "start_mods clearmod modifier \<equiv> ruled (if clearmod then replicate MODIFIERS 0 @ drop MODIFIERS modifier else modifier)"

lemma new_parse_sels:
  assumes "parse_ready s" and "sview s l = Some (concat (map selection_text sels))" "sview s dw = Some y" "sview s rp = Some z" "sview s mf = Some v"
    and "\<forall>p \<in> set sels. sel_small p" and "7 * length sels < length old" and "length sels \<le> RLSET"
    and t: "tables_ok tabs" and n: "MODIFIERS \<le> length modifier" and m: "m = start_mods clearmod modifier" "\<not> is_on m M_FROZEN" "\<not> is_on m M_SINCE"
    and f: "first = line_first mod1st m" and rr: "\<forall>p \<in> set sels. \<forall>q \<in> set (tl (sel_rl first p)). resp_range (r0 q) (r1 q)"
  obtains res s' where
    "new_parse base tabs (Some dw) (Some mf) (Some rp) old sp (Some l) modifier nullchix cnum thisitem clearmod mod1st errchk s =
       Some (if sels = [] \<and> \<not> any_instance m then 0 else 1, -1, Some res, m, s')" "reads s s'"
    "\<And>i r. r \<le> m_responses (np_master tabs) ! nat i \<Longrightarrow> (i, r) \<in> den res \<longleftrightarrow> there (np_master tabs) i \<and> wanted (is_on m) tabs i r \<and>
       (if sels = [] then any_instance m \<and> 0 \<le> r \<and> r \<le> HIGHBOUND else \<exists>p \<in> set sels. (i, r) \<in> den (sel_rl first p))"
proof -
  obtain bs where bs: "line_ready s l (concat (map selection_text sels)) dw y rp z mf v old"
    "select_list (blank_blanks s) y z errchk (concat (map selection_text sels)) = Inr bs" "map plain bs = concat (map sel_view sels)"
    by (rule sels_ready [OF assms(1-7)])
  note num = sels_nums [OF bs(3)]
  have np: "\<forall>t \<in> set bs. num_tok t" "errchk \<longrightarrow> single_colons False bs" using num by simp_all
  let ?lk = "mod_slot (blank_blanks s) v"
  note pl = nums_plain [OF np(1) n np(2)]
  have L: "map (sel_rl first) sels = line_lists ?lk (line_first mod1st m) (th_rnum thisitem) bs" using num [of first "th_rnum thisitem" "[]"] pl(4) f by simp
  have len: "length (map (sel_rl first) sels) \<le> RLSET" using assms(8) by simp
  have rr': "\<forall>rl \<in> set (map (sel_rl first) sels). \<forall>p \<in> set (tl rl). resp_range (r0 p) (r1 p)" using rr by simp
  have m': "m = line_mods ?lk clearmod modifier bs" using m(1) pl(3) by simp
  obtain res s' where res:
    "new_parse base tabs (Some dw) (Some mf) (Some rp) old sp (Some l) modifier nullchix cnum thisitem clearmod mod1st errchk s =
       Some (if map (sel_rl first) sels = [] \<and> \<not> any_instance m then 0 else 1, -1, Some res, m, s')" "reads s s'"
    "\<And>i r. r \<le> m_responses (np_master tabs) ! nat i \<Longrightarrow> (i, r) \<in> den res \<longleftrightarrow> there (np_master tabs) i \<and> wanted (is_on m) tabs i r \<and>
       (if map (sel_rl first) sels = [] then any_instance m \<and> 0 \<le> r \<and> r \<le> HIGHBOUND else \<exists>rl \<in> set (map (sel_rl first) sels). (i, r) \<in> den rl)"
    by (rule new_parse_nums [OF bs(1,2) t refl pl(1) [symmetric] pl(2) m' m(2,3) L len rr', of base sp cnum]) blast
  show thesis by (rule that [of res s']) (use res in simp_all)
qed

section \<open>Too many selections\<close>

definition numbers_text :: "nat list \<Rightarrow> string" where
  "numbers_text ns = concat (map (\<lambda>n. show_nat n @ '' '') ns)"

lemma toks_numbers:
  assumes bl: "blanks_sane bl" "in_tab bl (CHR '' '')" and "\<forall>n \<in> set ns. n < 2 ^ 31"
  shows "map plain (toks lk bl p (numbers_text ns)) = map (\<lambda>n. (T_NUM, int n, int n, 0)) ns"
  using assms(3)
proof (induction ns arbitrary: p)
  case Nil
  then show ?case by (simp add: numbers_text_def)
next
  case (Cons n ns)
  let ?q = "p + int (length (show_nat n))"
  have sp: "\<not> is_digit (CHR '' '')" "gap bl (CHR '' '')" using bl(2) by (simp_all add: is_digit_def digit_def bval_def gap_def)
  have "toks lk bl p (numbers_text (n # ns)) = tok T_NUM None (int n) p # toks lk bl ?q (CHR '' '' # numbers_text ns)"
    using toks_number [OF bl(1), of n "CHR '' '' # numbers_text ns" lk p] Cons.prems sp(1) by (simp add: numbers_text_def)
  also have "toks lk bl ?q (CHR '' '' # numbers_text ns) = toks lk bl (?q + 1) (numbers_text ns)" using sp(2) by (simp add: toks.simps(2))
  finally show ?case using Cons by (simp add: plain_def)
qed

lemma nums_pass:
  assumes "\<forall>t \<in> set ts. t_type t = T_NUM"
  shows "collapse_list lk errchk ts = Inr ts" "merge_list errchk ts = Inr ts"
proof -
  have s: "map (subst_tok lk) ts = ts" using assms by (intro map_idI) (auto simp: subst_tok_def)
  have d: "no_dash us" if "\<forall>t \<in> set us. t_type t = T_NUM" for us :: "string Token_t list" using that by (cases us) auto
  have "minus_list ts = ts" using assms by (induction ts) (auto simp: minus_skip)
  moreover have "range_list errchk ts = Inr ts" using assms by (induction ts) (auto simp: range_skip d)
  ultimately show "collapse_list lk errchk ts = Inr ts" using s by (simp add: collapse_list_def)
  have "merge_from errchk t us = Inr (t # us)" if "\<forall>u \<in> set us. t_type u = T_NUM" for t us using that by (induction us arbitrary: t) auto
  then show "merge_list errchk ts = Inr ts" using assms by (cases ts) auto
qed

lemma np_nums_flat: "\<forall>t \<in> set ts. hascolon t = 0 \<Longrightarrow> length (np_nums first rnum False ts rls) = length rls + length ts"
  by (induction ts arbitrary: rls) simp_all

lemma new_parse_crowded:
  assumes r: "parse_ready s" and v: "sview s l = Some (numbers_text ns)" "sview s dw = Some y" "sview s rp = Some z" "sview s mf = Some v"
    and n: "\<forall>n \<in> set ns. n < 2 ^ 31" "RLSET < length ns" "length ns < length old" and t: "tables_ok tabs" and m: "MODIFIERS \<le> length modifier"
  shows "new_parse base tabs (Some dw) (Some mf) (Some rp) old sp (Some l) modifier nullchix cnum thisitem clearmod mod1st errchk s = None"
proof -
  have k: "blanks_sane (blank_blanks s)" "in_tab (blank_blanks s) (CHR '' '')" using r by (simp_all add: parse_ready_def select_ready_def)
  let ?ts = "toks (look_up (blank_blanks s) y) (blank_blanks s) 0 (numbers_text ns)"
  have p: "map plain ?ts = map (\<lambda>n. (T_NUM, int n, int n, 0)) ns" by (rule toks_numbers [OF k n(1)])
  have "length (map plain ?ts) = length ns" unfolding p by simp
  then have len: "length ?ts = length ns" by simp
  have "plain u \<in> set (map (\<lambda>n. (T_NUM, int n, int n, 0)) ns)" if "u \<in> set ?ts" for u using that unfolding p [symmetric] by simp
  then have nt: "\<forall>u \<in> set ?ts. num_tok u \<and> hascolon u = 0" by (fastforce simp: plain_def num_tok_def)
  then have sl: "select_list (blank_blanks s) y z errchk (numbers_text ns) = Inr ?ts"
    using nums_pass [of ?ts] by (simp add: select_list_def num_tok_def)
  have "CHR ''/'' \<notin> set (show_nat m)" for m using show_nat_range [of "CHR ''/''" m] by (auto simp: bval_def)
  then have "CHR ''/'' \<notin> set (numbers_text ns)" by (auto simp: numbers_text_def)
  then have lr: "line_ready s l (numbers_text ns) dw y rp z mf v old" using r v n(3) len by (simp add: line_ready_def)
  have sc: "single_colons False ?ts"
  proof -
    have "single_colons prev us" if "\<forall>u \<in> set us. hascolon u = 0" for prev and us :: "string Token_t list"
      using that by (induction us arbitrary: prev) auto
    then show ?thesis using nt by blast
  qed
  have nt': "\<forall>u \<in> set ?ts. num_tok u" using nt by blast
  note pl = nums_plain [OF nt' m, of errchk]
  show ?thesis
    by (rule new_parse_overrun_ok [OF lr sl t refl pl(1) [symmetric] pl(2) refl]) (use sc pl(4) np_nums_flat [of ?ts] nt n(2) len in simp_all)
qed

section \<open>Properties\<close>

lemma started_parse_ready:
  assumes "\<forall>t \<in> set ts. NUL \<notin> set t"
  shows "parse_ready (started_store ts)"
proof -
  note r = started_select_ready [OF assms]
  show ?thesis using r(1) started_blanks(1) [OF assms] unfolding parse_ready_def r(2) by (simp add: in_tab_def)
qed

text \<open>A data base that finds nothing, a small conference and its words, for the instances below.\<close>

definition empty_base :: np_base where
  "empty_base = \<lparr>b_named = \<lambda>_ _ _ _ s. Some (None, s), b_frozen = \<lambda>_ rl s. Some (rl, s), b_isince = \<lambda>_ _ _ s. Some (None, s), b_rsince = \<lambda>_ _ _ s. Some (None, s)\<rparr>"

definition small_tabs :: np_tables where
  "small_tabs = \<lparr>np_master = \<lparr>m_items = 3, m_responses = [0, 4, -1, 2]\<rparr>, np_part = \<lparr>pt_items = 3, pt_responses = [0, 4, 0, -2], pt_backresp = [0, 0, 0, 0]\<rparr>,
     np_fresh = \<lparr>pt_items = 3, pt_responses = [0, 4, 0, -2], pt_backresp = [0, 0, 0, 0]\<rparr>\<rparr>"

definition small_store :: "string \<Rightarrow> chx_state" where
  "small_store x = started_store [x, ''author'', ''this all last'', ''items responses new'']"

lemma small_ready:
  assumes "NUL \<notin> set x"
  shows "parse_ready (small_store x)" "sview (small_store x) 12 = Some x" "sview (small_store x) 13 = Some ''author''"
    "sview (small_store x) 14 = Some ''this all last''" "sview (small_store x) 15 = Some ''items responses new''" "tables_ok small_tabs"
    "blank_blanks (small_store x) = [CHR '' '', CHR 0x0A, CHR 0x09]"
proof -
  let ?ts = "[x, ''author'', ''this all last'', ''items responses new'']"
  have n: "\<forall>t \<in> set ?ts. NUL \<notin> set t" using assms by simp
  show "parse_ready (small_store x)" unfolding small_store_def by (rule started_parse_ready [OF n])
  show "sview (small_store x) 12 = Some x" "sview (small_store x) 13 = Some ''author''"
    "sview (small_store x) 14 = Some ''this all last''" "sview (small_store x) 15 = Some ''items responses new''"
    unfolding small_store_def using started_sview [OF n] by simp_all
  show "tables_ok small_tabs" by (simp add: small_tabs_def tables_ok_def master_ok_def seen_ok_def short_def)
  show "blank_blanks (small_store x) = [CHR '' '', CHR 0x0A, CHR 0x09]" unfolding small_store_def by (rule started_select_ready(2) [OF n])
qed

lemma small_mods: "start_mods True (replicate MODIFIERS 0) = [0, 0, 0, 0, 0, 0, 0, 0, 0, 0, 0, 0, 0, 0, 1, 0, 0, 0, 0]"
  by code_simp

lemma small_off: "\<not> is_on (start_mods True (replicate MODIFIERS 0)) M_FROZEN" "\<not> is_on (start_mods True (replicate MODIFIERS 0)) M_SINCE"
  unfolding small_mods by (simp_all add: is_on_def idx_def modifier_slots)

text \<open>
  C3. From the text to the set of responses. For selections \<open>items\<close> or \<open>items:responses\<close>, written in decimal with dashes, colons
  and commas, \<open>new_parse\<close> succeeds whatever the data base says, and of the responses that exist its list stands for exactly those that one of the selections
  names, on items that are there, and that the modifiers in force ask for. The modifiers are those given by the caller, or none, with the rules between
  them applied. Every string the parser made is freed again and no other string has changed.
\<close>

theorem new_parse_selects:
  assumes "parse_ready s" and "sview s l = Some (concat (map selection_text sels))" and "sview s dw = Some y" and "sview s rp = Some z" and "sview s mf = Some v"
    and "sels \<noteq> []" and "\<forall>p \<in> set sels. sel_short p" and "7 * length sels < length old" and "length sels \<le> RLSET"
    and "tables_ok tabs" and "MODIFIERS \<le> length modifier" and "m = start_mods clearmod modifier" and "\<not> is_on m M_FROZEN" and "\<not> is_on m M_SINCE"
  shows "\<exists>res s'. new_parse base tabs (Some dw) (Some mf) (Some rp) old sp (Some l) modifier nullchix cnum thisitem clearmod mod1st errchk s =
      Some (1, -1, Some res, m, s') \<and> reads s s' \<and>
    (\<forall>i r. r \<le> m_responses (np_master tabs) ! nat i \<longrightarrow>
      ((i, r) \<in> den res \<longleftrightarrow>
        (\<exists>p \<in> set sels. sel_has (if is_on m M_RESPONSES \<and> mod1st then 1 else 0) p i r) \<and> there (np_master tabs) i \<and> wanted (is_on m) tabs i r))"
proof -
  let ?f = "if is_on m M_RESPONSES \<and> mod1st then 1 else 0"
  have f: "?f = line_first mod1st m" "?f = 0 \<or> ?f = 1" by (simp_all add: line_first_def)
  have sm: "\<forall>p \<in> set sels. sel_small p" using assms(7) by (auto simp: sel_short_def sel_small_def small_def split: option.splits)
  have rr: "\<forall>p \<in> set sels. \<forall>q \<in> set (tl (sel_rl ?f p)). resp_range (r0 q) (r1 q)" using sel_rl_short(1) [OF _ f(2)] assms(7) by blast
  obtain res s' where res:
    "new_parse base tabs (Some dw) (Some mf) (Some rp) old sp (Some l) modifier nullchix cnum thisitem clearmod mod1st errchk s =
       Some (if sels = [] \<and> \<not> any_instance m then 0 else 1, -1, Some res, m, s')" "reads s s'"
    "\<And>i r. r \<le> m_responses (np_master tabs) ! nat i \<Longrightarrow> (i, r) \<in> den res \<longleftrightarrow> there (np_master tabs) i \<and> wanted (is_on m) tabs i r \<and>
       (if sels = [] then any_instance m \<and> 0 \<le> r \<and> r \<le> HIGHBOUND else \<exists>p \<in> set sels. (i, r) \<in> den (sel_rl ?f p))"
    by (rule new_parse_sels [OF assms(1-5) sm assms(8-14) f(1) rr, of base sp cnum thisitem errchk]) blast
  have "(\<exists>p \<in> set sels. (i, r) \<in> den (sel_rl ?f p)) \<longleftrightarrow> (\<exists>p \<in> set sels. sel_has ?f p i r)" for i r
    using sel_rl_short(2) [OF _ f(2)] assms(7) by blast
  then show ?thesis using res assms(6) by auto
qed

theorem new_parse_selects_witness:
  "\<exists>res s'. new_parse empty_base small_tabs (Some 13) (Some 15) (Some 14) (replicate MAXTOKEN 7) 0 (Some 12) (replicate MODIFIERS 0) nullchix 1
      \<lparr>th_number = 1, th_rnum = 0\<rparr> True True True (small_store (concat (map selection_text [((1, 3), Some (2, 9))]))) =
        Some (1, -1, Some res, start_mods True (replicate MODIFIERS 0), s') \<and>
    (1, 4) \<in> den res \<and> (1, 1) \<notin> den res \<and> (2, -1) \<notin> den res \<and> (3, 2) \<notin> den res"
proof -
  let ?sels = "[((1, 3), Some (2, 9))] :: selection list" and ?m = "start_mods True (replicate MODIFIERS 0)"
  have n: "NUL \<notin> set (concat (map selection_text ?sels))" by code_simp
  note r = small_ready [OF n]
  have h: "?sels \<noteq> []" "\<forall>p \<in> set ?sels. sel_short p" "7 * length ?sels < length (replicate MAXTOKEN (7 :: int))" "length ?sels \<le> RLSET"
    "MODIFIERS \<le> length (replicate MODIFIERS (0 :: int))"
    by (simp_all add: sel_short_def MAXTOKEN_def RLSET_def)
  obtain res s' where q: "new_parse empty_base small_tabs (Some 13) (Some 15) (Some 14) (replicate MAXTOKEN 7) 0 (Some 12) (replicate MODIFIERS 0) nullchix 1
      \<lparr>th_number = 1, th_rnum = 0\<rparr> True True True (small_store (concat (map selection_text ?sels))) = Some (1, -1, Some res, ?m, s')"
    "\<forall>i r. r \<le> m_responses (np_master small_tabs) ! nat i \<longrightarrow> ((i, r) \<in> den res \<longleftrightarrow>
        (\<exists>p \<in> set ?sels. sel_has (if is_on ?m M_RESPONSES \<and> True then 1 else 0) p i r) \<and> there (np_master small_tabs) i \<and> wanted (is_on ?m) small_tabs i r)"
    using new_parse_selects [OF r(1-5) h(1-4) r(6) h(5) refl small_off, of empty_base 0 1 "\<lparr>th_number = 1, th_rnum = 0\<rparr>" True True] by blast
  note q' = q(2) [rule_format, unfolded small_mods small_tabs_def]
  show ?thesis using q(1) q' [of 4 1] q' [of 1 1] q' [of "-1" 2] q' [of 2 3]
    by (auto simp: sel_has_def there_def wanted_def new_pair_def is_on_def idx_def modifier_slots)
qed

text \<open>
  C4. Every line of numbers and modifiers. If all words of an accepted line are modifiers, \<open>new_parse\<close> sets exactly their slots, under the
  rules between them, and its list stands for exactly the responses that the numbers name, with this and last replaced, that exist and
  that the modifiers ask for. A line without numbers means everything if it has a modifier like NEW; otherwise nothing is selected and 0 is returned.
\<close>

theorem new_parse_refine:
  assumes "line_ready s l x dw y rp z mf v old" and "select_list (blank_blanks s) y z errchk x = Inr bs" and "tables_ok tabs"
    and "lk = mod_slot (blank_blanks s) v" and "as = line_items tabs thisitem bs" and "line_plain lk errchk modifier as"
    and "m = line_mods lk clearmod modifier as" and "\<not> is_on m M_FROZEN" and "\<not> is_on m M_SINCE"
    and "rls = line_lists lk (line_first mod1st m) (th_rnum thisitem) as" and "length rls \<le> RLSET"
    and "\<forall>rl \<in> set rls. \<forall>p \<in> set (tl rl). resp_range (r0 p) (r1 p)"
  shows "\<exists>res s'. new_parse base tabs (Some dw) (Some mf) (Some rp) old sp (Some l) modifier nullchix cnum thisitem clearmod mod1st errchk s =
      Some (if rls = [] \<and> \<not> any_instance m then 0 else 1, -1, Some res, m, s') \<and> reads s s' \<and>
    (\<forall>i r. r \<le> m_responses (np_master tabs) ! nat i \<longrightarrow> ((i, r) \<in> den res \<longleftrightarrow> there (np_master tabs) i \<and> wanted (is_on m) tabs i r \<and>
       (if rls = [] then any_instance m \<and> 0 \<le> r \<and> r \<le> HIGHBOUND else \<exists>rl \<in> set rls. (i, r) \<in> den rl)))"
  by (rule new_parse_nums [OF assms, of base sp cnum]) blast

theorem new_parse_refine_witness:
  "\<exists>res s'. new_parse empty_base small_tabs (Some 13) (Some 15) (Some 14) (replicate MAXTOKEN 7) 0 (Some 12) (replicate MODIFIERS 0) nullchix 1
      \<lparr>th_number = 1, th_rnum = 0\<rparr> True True True (small_store ''this-last:2 resp'') =
        Some (1, -1, Some res, [0, 1, 0, 0, 0, 0, 0, 0, 0, 0, 0, 0, 0, 0, 1, 0, 0, 0, 0], s') \<and> (1, 2) \<in> den res \<and> (1, 1) \<notin> den res"
proof -
  let ?x = "''this-last:2 resp''" and ?th = "\<lparr>th_number = 1, th_rnum = 0\<rparr>" and ?bl = "[CHR '' '', CHR 0x0A, CHR 0x09]"
  let ?bs = "projr (select_list ?bl ''author'' ''this all last'' True ?x)" and ?lk = "mod_slot ?bl ''items responses new''"
  let ?as = "line_items small_tabs ?th ?bs" and ?m = "[0, 1, 0, 0, 0, 0, 0, 0, 0, 0, 0, 0, 0, 0, 1, 0, 0, 0, 0]"
  let ?rls = "[[a_mak_rlist, \<lparr>i0 = 1, i1 = 3, r0 = 2, r1 = 2\<rparr>]]"
  have n: "NUL \<notin> set ?x" by code_simp
  note r = small_ready [OF n]
  have "length (toks (look_up ?bl ''author'') ?bl 0 ?x) < length (replicate MAXTOKEN (7 :: int))" by code_simp
  moreover have "CHR ''/'' \<notin> set ?x" by code_simp
  ultimately have lr: "line_ready (small_store ?x) 12 ?x 13 ''author'' 14 ''this all last'' 15 ''items responses new'' (replicate MAXTOKEN 7)"
    using r by (simp add: line_ready_def)
  have sl: "select_list ?bl ''author'' ''this all last'' True ?x = Inr ?bs" by code_simp
  have p: "line_plain ?lk True (replicate MODIFIERS 0) ?as" by code_simp
  have m: "?m = line_mods ?lk True (replicate MODIFIERS 0) ?as" "\<not> is_on ?m M_FROZEN" "\<not> is_on ?m M_SINCE" by code_simp+
  have l: "?rls = line_lists ?lk (line_first True ?m) (th_rnum ?th) ?as" "length ?rls \<le> RLSET" by code_simp+
  have rr: "\<forall>rl \<in> set ?rls. \<forall>p \<in> set (tl rl). resp_range (r0 p) (r1 p)" by (simp add: resp_range_def)
  obtain res s' where q: "new_parse empty_base small_tabs (Some 13) (Some 15) (Some 14) (replicate MAXTOKEN 7) 0 (Some 12) (replicate MODIFIERS 0) nullchix 1
      ?th True True True (small_store ?x) = Some (if ?rls = [] \<and> \<not> any_instance ?m then 0 else 1, -1, Some res, ?m, s')"
    "\<forall>i r. r \<le> m_responses (np_master small_tabs) ! nat i \<longrightarrow> ((i, r) \<in> den res \<longleftrightarrow> there (np_master small_tabs) i \<and> wanted (is_on ?m) small_tabs i r \<and>
       (if ?rls = [] then any_instance ?m \<and> 0 \<le> r \<and> r \<le> HIGHBOUND else \<exists>rl \<in> set ?rls. (i, r) \<in> den rl))"
    using new_parse_refine [OF lr sl [folded r(7)] r(6) refl refl p [folded r(7)] m(1) [folded r(7)] m(2,3) l(1) [folded r(7)] l(2) rr, of empty_base 0 1] by blast
  note q' = q(2) [rule_format, unfolded small_tabs_def]
  show ?thesis using q(1) q' [of 2 1] q' [of 1 1]
    by (auto simp: there_def wanted_def new_pair_def is_on_def idx_def modifier_slots cells_def high_def)
qed

text \<open>
  C17. A line that pass 2 or 3 rejects (\<open>1-2-3\<close>, a colon at the start, two colons in a row, a data part that is not behind a word) selects nothing: \<open>new_parse\<close> returns 0 with the
  place of the error and an empty list, has not touched the modifiers yet, and frees all its strings.
\<close>

theorem new_parse_rejects:
  assumes "line_ready s l x dw y rp z mf v old" and "select_list (blank_blanks s) y z errchk x = Inl e"
  shows "\<exists>s'. new_parse base tabs (Some dw) (Some mf) (Some rp) old sp (Some l) modifier attach cnum thisitem clearmod mod1st errchk s =
      Some (0, e, Some [a_mak_rlist], modifier, s') \<and> reads s s'"
  by (rule new_parse_error [OF assms, of base tabs sp modifier attach cnum thisitem clearmod mod1st]) blast

theorem new_parse_rejects_witness:
  "\<exists>s'. new_parse empty_base small_tabs (Some 13) (Some 15) (Some 14) (replicate MAXTOKEN 7) 0 (Some 12) (replicate MODIFIERS 0) nullchix 1
      \<lparr>th_number = 1, th_rnum = 0\<rparr> True True True (small_store ''1-2-3'') = Some (0, 3, Some [a_mak_rlist], replicate MODIFIERS 0, s') \<and>
    reads (small_store ''1-2-3'') s'"
proof -
  let ?bl = "[CHR '' '', CHR 0x0A, CHR 0x09]"
  have n: "NUL \<notin> set ''1-2-3''" by code_simp
  note r = small_ready [OF n]
  have "length (toks (look_up ?bl ''author'') ?bl 0 ''1-2-3'') < length (replicate MAXTOKEN (7 :: int))" by code_simp
  moreover have "CHR ''/'' \<notin> set ''1-2-3''" by code_simp
  ultimately have lr: "line_ready (small_store ''1-2-3'') 12 ''1-2-3'' 13 ''author'' 14 ''this all last'' 15 ''items responses new'' (replicate MAXTOKEN 7)"
    using r by (simp add: line_ready_def)
  have sl: "select_list ?bl ''author'' ''this all last'' True ''1-2-3'' = Inl 3" by code_simp
  show ?thesis by (rule new_parse_rejects [OF lr sl [folded r(7)]])
qed

text \<open>
  C18. Errors that pass 6 finds. Passes 1 to 3 accept the line; among the tokens that are left when the modifiers are taken out, the first that is
  not a number or has a colon on both sides is unknown (\<open>newparse.c:411\<close>), or it is the \<open>b\<close> of \<open>a:b:c\<close> (\<open>newparse.c:260\<close>). Then \<open>new_parse\<close> with error
  checking returns 0, an empty list and the place of that token, or of \<open>c\<close>, and frees all its strings; but the modifiers are not what they were:
  they are cleared if asked for, those of the line are on, and the rules about WAIT, ATTACH and ITEMS are applied.
\<close>

theorem new_parse_rejects_late:
  assumes "line_ready s l x dw y rp z mf v old" and "select_list (blank_blanks s) y z True x = Inr bs" and "tables_ok tabs"
    and "lk = mod_slot (blank_blanks s) v" and "as = line_items tabs thisitem bs" and "line_room lk modifier as"
    and "late_error lk False (left_over lk False as) = Some e" and "length (left_over lk False as) \<le> RLSET"
  shows "\<exists>s'. new_parse base tabs (Some dw) (Some mf) (Some rp) old sp (Some l) modifier nullchix cnum thisitem clearmod mod1st True s =
      Some (0, e, Some [a_mak_rlist], line_mods lk clearmod modifier as, s') \<and> reads s s'"
  by (rule new_parse_late [OF assms, of base sp cnum clearmod mod1st]) blast

theorem new_parse_rejects_late_witness:
  "(\<exists>s'. new_parse empty_base small_tabs (Some 13) (Some 15) (Some 14) (replicate MAXTOKEN 7) 0 (Some 12) (replicate MODIFIERS 0) nullchix 1
      \<lparr>th_number = 1, th_rnum = 0\<rparr> True True True (small_store ''resp 1:2:3'') =
        Some (0, 9, Some [a_mak_rlist], [0, 1, 0, 0, 0, 0, 0, 0, 0, 0, 0, 0, 0, 0, 1, 0, 0, 0, 0], s')) \<and>
   (\<exists>s'. new_parse empty_base small_tabs (Some 13) (Some 15) (Some 14) (replicate MAXTOKEN 7) 0 (Some 12) (replicate MODIFIERS 0) nullchix 1
      \<lparr>th_number = 1, th_rnum = 0\<rparr> True True True (small_store ''1:2 bogus'') =
        Some (0, 4, Some [a_mak_rlist], [0, 0, 0, 0, 0, 0, 0, 0, 0, 0, 0, 0, 0, 0, 1, 0, 0, 0, 0], s'))"
proof -
  let ?bl = "[CHR '' '', CHR 0x0A, CHR 0x09]" and ?th = "\<lparr>th_number = 1, th_rnum = 0\<rparr>"
  let ?lk = "mod_slot ?bl ''items responses new''" and ?bs = "\<lambda>x. projr (select_list ?bl ''author'' ''this all last'' True x)"
  let ?x = "''resp 1:2:3''" and ?y = "''1:2 bogus''"
  have n: "NUL \<notin> set ?x" "NUL \<notin> set ?y" by code_simp+
  note r = small_ready [OF n(1)] and q = small_ready [OF n(2)]
  have "length (toks (look_up ?bl ''author'') ?bl 0 ?x) < length (replicate MAXTOKEN (7 :: int))" "CHR ''/'' \<notin> set ?x" by code_simp+
  then have lx: "line_ready (small_store ?x) 12 ?x 13 ''author'' 14 ''this all last'' 15 ''items responses new'' (replicate MAXTOKEN 7)"
    using r by (simp add: line_ready_def)
  have "length (toks (look_up ?bl ''author'') ?bl 0 ?y) < length (replicate MAXTOKEN (7 :: int))" "CHR ''/'' \<notin> set ?y" by code_simp+
  then have ly: "line_ready (small_store ?y) 12 ?y 13 ''author'' 14 ''this all last'' 15 ''items responses new'' (replicate MAXTOKEN 7)"
    using q by (simp add: line_ready_def)
  have x: "select_list ?bl ''author'' ''this all last'' True ?x = Inr (?bs ?x)" "line_room ?lk (replicate MODIFIERS 0) (line_items small_tabs ?th (?bs ?x))"
    "late_error ?lk False (left_over ?lk False (line_items small_tabs ?th (?bs ?x))) = Some 9"
    "length (left_over ?lk False (line_items small_tabs ?th (?bs ?x))) \<le> RLSET"
    "line_mods ?lk True (replicate MODIFIERS 0) (line_items small_tabs ?th (?bs ?x)) = [0, 1, 0, 0, 0, 0, 0, 0, 0, 0, 0, 0, 0, 0, 1, 0, 0, 0, 0]" by code_simp+
  have y: "select_list ?bl ''author'' ''this all last'' True ?y = Inr (?bs ?y)" "line_room ?lk (replicate MODIFIERS 0) (line_items small_tabs ?th (?bs ?y))"
    "late_error ?lk False (left_over ?lk False (line_items small_tabs ?th (?bs ?y))) = Some 4"
    "length (left_over ?lk False (line_items small_tabs ?th (?bs ?y))) \<le> RLSET"
    "line_mods ?lk True (replicate MODIFIERS 0) (line_items small_tabs ?th (?bs ?y)) = [0, 0, 0, 0, 0, 0, 0, 0, 0, 0, 0, 0, 0, 0, 1, 0, 0, 0, 0]" by code_simp+
  show ?thesis
    using new_parse_rejects_late [OF lx x(1) [folded r(7)] r(6) refl refl x(2-4) [folded r(7)], of empty_base 0 1 True True]
      new_parse_rejects_late [OF ly y(1) [folded q(7)] q(6) refl refl y(2-4) [folded q(7)], of empty_base 0 1 True True]
    unfolding r(7) q(7) x(5) y(5) by blast
qed

text \<open>
  C21. Item numbers are cut to 16 bits. A line that asks for item \<open>65536 + n\<close> is accepted and selects item \<open>n\<close>.
\<close>

theorem new_parse_wraps:
  assumes "parse_ready s" and "sview s l = Some (selection_text ((65536 + n, 65536 + n), None))" and "sview s dw = Some y" and "sview s rp = Some z" and "sview s mf = Some v"
    and "n < 2 ^ 15" and "7 < length old" and "tables_ok tabs" and "MODIFIERS \<le> length modifier" and "m = start_mods clearmod modifier"
    and "\<not> is_on m M_FROZEN" and "\<not> is_on m M_SINCE"
  shows "\<exists>res s'. new_parse base tabs (Some dw) (Some mf) (Some rp) old sp (Some l) modifier nullchix cnum thisitem clearmod False errchk s =
      Some (1, -1, Some res, m, s') \<and>
    (\<forall>i r. 0 \<le> r \<and> r \<le> HIGHBOUND \<and> r \<le> m_responses (np_master tabs) ! nat i \<longrightarrow>
      ((i, r) \<in> den res \<longleftrightarrow> i = int n \<and> there (np_master tabs) i \<and> wanted (is_on m) tabs i r))"
proof -
  let ?p = "((65536 + n, 65536 + n), None) :: selection" and ?q = "((n, n), None) :: selection"
  have "(98304 + int n) mod 65536 = (32768 + int n) mod 65536" using mod_add_self2 [of "32768 + int n" 65536] by (simp add: algebra_simps)
  also have "\<dots> = 32768 + int n" using assms(6) by (intro mod_pos_pos_trivial) simp_all
  finally have w: "wrap16 (int (65536 + n)) = int n" unfolding wrap16_def int_word_sint by simp
  then have e: "sel_rl 0 ?p = sel_rl 0 ?q" using assms(6) wrap16_id [of "int n"] by (simp add: sel_rl_def set_node_def)
  have q: "sel_short ?q" using assms(6) by (simp add: sel_short_def)
  have f: "0 = line_first False m" by (simp add: line_first_def)
  have h: "sview s l = Some (concat (map selection_text [?p]))" "\<forall>p \<in> set [?p]. sel_small p" "7 * length [?p] < length old" "length [?p] \<le> RLSET"
    using assms(2,6,7) by (simp_all add: sel_small_def small_def RLSET_def)
  have rr: "\<forall>p \<in> set [?p]. \<forall>q \<in> set (tl (sel_rl 0 p)). resp_range (r0 q) (r1 q)" using sel_rl_short(1) [OF q, of 0] e by simp
  obtain res s' where res:
    "new_parse base tabs (Some dw) (Some mf) (Some rp) old sp (Some l) modifier nullchix cnum thisitem clearmod False errchk s =
       Some (if [?p] = [] \<and> \<not> any_instance m then 0 else 1, -1, Some res, m, s')" "reads s s'"
    "\<And>i r. r \<le> m_responses (np_master tabs) ! nat i \<Longrightarrow> (i, r) \<in> den res \<longleftrightarrow> there (np_master tabs) i \<and> wanted (is_on m) tabs i r \<and>
       (if [?p] = [] then any_instance m \<and> 0 \<le> r \<and> r \<le> HIGHBOUND else \<exists>p \<in> set [?p]. (i, r) \<in> den (sel_rl 0 p))"
    by (rule new_parse_sels [OF assms(1) h(1) assms(3-5) h(2-4) assms(8-12) f rr, of base sp cnum thisitem errchk]) blast
  have d: "(i, r) \<in> den (sel_rl 0 ?p) \<longleftrightarrow> i = int n \<and> 0 \<le> r \<and> r \<le> HIGHBOUND" for i r
    unfolding e sel_rl_short(2) [OF q, of 0, simplified] by (auto simp: sel_has_def)
  show ?thesis using res(1) res(3) d by auto
qed

theorem new_parse_wraps_witness:
  "\<exists>res s'. new_parse empty_base small_tabs (Some 13) (Some 15) (Some 14) (replicate MAXTOKEN 7) 0 (Some 12) (replicate MODIFIERS 0) nullchix 1
      \<lparr>th_number = 1, th_rnum = 0\<rparr> True False True (small_store (selection_text ((65536 + 1, 65536 + 1), None))) =
        Some (1, -1, Some res, start_mods True (replicate MODIFIERS 0), s') \<and> (1, 4) \<in> den res"
proof -
  let ?x = "selection_text ((65536 + 1, 65536 + 1), None)" and ?m = "start_mods True (replicate MODIFIERS 0)"
  have "NUL \<notin> set (show_nat k)" for k using show_nat_range [of NUL k] by auto
  then have n: "NUL \<notin> set ?x" by (simp add: selection_text_def range_text_def)
  note r = small_ready [OF n]
  obtain res s' where q: "new_parse empty_base small_tabs (Some 13) (Some 15) (Some 14) (replicate MAXTOKEN 7) 0 (Some 12) (replicate MODIFIERS 0) nullchix 1
      \<lparr>th_number = 1, th_rnum = 0\<rparr> True False True (small_store ?x) = Some (1, -1, Some res, ?m, s')"
    "\<forall>i r. 0 \<le> r \<and> r \<le> HIGHBOUND \<and> r \<le> m_responses (np_master small_tabs) ! nat i \<longrightarrow>
      ((i, r) \<in> den res \<longleftrightarrow> i = int 1 \<and> there (np_master small_tabs) i \<and> wanted (is_on ?m) small_tabs i r)"
    using new_parse_wraps [OF r(1-5) _ _ r(6) _ refl small_off, of "replicate MAXTOKEN 7" empty_base 0 1 "\<lparr>th_number = 1, th_rnum = 0\<rparr>" True]
    by (auto simp: MAXTOKEN_def)
  note q' = q(2) [rule_format, unfolded small_mods small_tabs_def]
  show ?thesis using q(1) q' [of 4 1]
    by (auto simp: there_def wanted_def new_pair_def is_on_def idx_def modifier_slots HIGHBOUND_def)
qed

text \<open>
  C22. Pass 6 does not look at the size of its array of lists: a line of more than 100 numbers, few enough for the array of tokens, makes \<open>new_parse\<close> write behind
  the end of the array.
\<close>

theorem new_parse_overrun:
  assumes "parse_ready s" and "sview s l = Some (numbers_text ns)" and "sview s dw = Some y" and "sview s rp = Some z" and "sview s mf = Some v"
    and "\<forall>n \<in> set ns. n < 2 ^ 31" and "100 < length ns" and "length ns < MAXTOKEN" and "length old = MAXTOKEN" and "tables_ok tabs" and "MODIFIERS \<le> length modifier"
  shows "new_parse base tabs (Some dw) (Some mf) (Some rp) old sp (Some l) modifier nullchix cnum thisitem clearmod mod1st errchk s = None"
  by (rule new_parse_crowded [OF assms(1-6) _ _ assms(10,11)]) (use assms(7-9) in \<open>simp_all add: RLSET_def\<close>)

theorem new_parse_overrun_witness:
  "new_parse empty_base small_tabs (Some 13) (Some 15) (Some 14) (replicate MAXTOKEN 7) 0 (Some 12) (replicate MODIFIERS 0) nullchix 1
      \<lparr>th_number = 1, th_rnum = 0\<rparr> True False True (small_store (numbers_text (replicate 101 1))) = None"
proof -
  have "NUL \<notin> set (show_nat 1)" by code_simp
  then have n: "NUL \<notin> set (numbers_text (replicate 101 1))" by (auto simp: numbers_text_def)
  note r = small_ready [OF n]
  show ?thesis by (rule new_parse_overrun [OF r(1-5) _ _ _ _ r(6)]) (simp_all add: MAXTOKEN_def)
qed

end
