(* ===== verification/Wrap.thy ===== *)
theory Wrap
  imports ChixKept
begin

text \<open>
  Wrapping of a text (\<open>CV2/sweb/wraptext.c\<close>): the argument is a width and the text; lines longer than the width are
  broken behind their last blank, or inside a word that does not fit. The columns of a character come from \<open>CV2/chx/jixwidth.c\<close>.
  The variables \<open>pos\<close>, \<open>start\<close>, \<open>width\<close> and \<open>blank\<close> of the C function are integers without bounds: they stay below the length of the
  text, or the width given, plus two.
\<close>

unbundle bit_operations_syntax

section \<open>The function\<close>

definition jixwidth :: "int \<Rightarrow> int" where
  "jixwidth val =
     (if val < 0x80 then 1
      else let highbyte = val AND 0xFF00
           in if highbyte = 0x8E00 \<or> highbyte = 0x8F00 then 1 else 2)"

text \<open>The variables of the loop of \<open>wrap_text\<close>.\<close>

record wrap_t =
  w_start :: int
  w_pos :: int
  w_width :: int
  w_blank :: int

definition wrap_from :: "int \<Rightarrow> wrap_t" where
  "wrap_from pos = \<lparr>w_start = pos, w_pos = pos, w_width = 0, w_blank = -1\<rparr>"

text \<open>The line is cut behind \<open>blank\<close>.\<close>

definition wrap_break :: "Chix \<Rightarrow> Chix \<Rightarrow> int \<Rightarrow> int \<Rightarrow> chx_state \<Rightarrow> (wrap_t option \<times> chx_state) option" where
  "wrap_break result arg start blank s = do {
     (_, s) \<leftarrow> chxcatsub result arg start (blank - start + 1) s;
     (_, s) \<leftarrow> chxcatval result THIN 10 s;
     Some (Some (wrap_from (blank + 1)), s) }"

text \<open>One pass of the loop with \<open>++pos\<close> at its end; no new variables when the text is read.\<close>

definition wrap_step :: "Chix \<Rightarrow> Chix \<Rightarrow> int \<Rightarrow> wrap_t \<Rightarrow> chx_state \<Rightarrow> (wrap_t option \<times> chx_state) option" where
  "wrap_step result arg wrap l s = do {
     (cval, s) \<leftarrow> chxvalue arg (w_pos l) s;
     if cval = 0 then Some (None, s)
     else if cval = 10 then do {
       (_, s) \<leftarrow> chxcatsub result arg (w_start l) (w_pos l - w_start l + 1) s;
       Some (Some (wrap_from (w_pos l + 1)), s) }
     else if w_width l + jixwidth cval > wrap then
       wrap_break result arg (w_start l) (if w_blank l < 0 then w_start l + w_width l div 2 - 3 else w_blank l) s
     else
       Some (Some (l\<lparr>w_blank := (if cval = 32 \<or> cval = 41377 \<or> cval = 9 then w_pos l else w_blank l),
                     w_width := w_width l + jixwidth cval, w_pos := w_pos l + 1\<rparr>), s) }"

partial_function (option) wrap_loop :: "Chix \<Rightarrow> Chix \<Rightarrow> int \<Rightarrow> wrap_t \<Rightarrow> chx_state \<Rightarrow> (wrap_t \<times> chx_state) option" where
  "wrap_loop result arg wrap l s = do {
     (r, s) \<leftarrow> wrap_step result arg wrap l s;
     (case r of None \<Rightarrow> Some (l, s) | Some l \<Rightarrow> wrap_loop result arg wrap l s) }"

definition wrap_text :: "Chix \<Rightarrow> Chix \<Rightarrow> chx_state \<Rightarrow> (int \<times> chx_state) option" where
  "wrap_text result arg s = do {
     (wrap, pos, s) \<leftarrow> chxint4 arg (Some 0) s;
     (l, s) \<leftarrow> wrap_loop result arg (if wrap < 5 then 5 else wrap) (wrap_from (the pos + 1)) s;
     (_, s) \<leftarrow> chxcatsub result arg (w_start l) (w_pos l - w_start l) s;
     Some (1, s) }"

section \<open>Wrapped text\<close>

text \<open>The columns of a text, its blanks, and the characters of its words.\<close>

definition columns :: "string \<Rightarrow> int" where
  "columns x = (\<Sum>c\<leftarrow>x. jixwidth (bval c))"

definition break_char :: "char \<Rightarrow> bool" where
  "break_char c \<longleftrightarrow> c = CHR '' '' \<or> c = CHR 0x09"

definition inner_char :: "char \<Rightarrow> bool" where
  "inner_char c \<longleftrightarrow> \<not> break_char c \<and> c \<noteq> CHR 0x0A"

text \<open>
  The next word of a text together with one blank behind it, if a blank is what follows.
\<close>

definition word_blank :: "string \<Rightarrow> string" where
  "word_blank r = takeWhile inner_char r @ takeWhile break_char (take 1 (dropWhile inner_char r))"

text \<open>
  A line: at most \<open>w\<close> columns and a newline at its end only. A line broken by the program ends in a blank, or it has
  none; and the next word with the blank behind it does not fit on it. The blank counts: a word that would fill
  the line exactly stays there when a newline or the end of the text follows it, and goes to the next line otherwise.
\<close>

definition line_ok :: "int \<Rightarrow> string \<Rightarrow> string \<Rightarrow> bool" where
  "line_ok w p r \<longleftrightarrow> p \<noteq> [] \<and> CHR 0x0A \<notin> set (butlast p) \<and>
     (if last p = CHR 0x0A then columns (butlast p) \<le> w
      else columns p \<le> w \<and> (break_char (last p) \<or> (\<forall>c \<in> set p. \<not> break_char c)) \<and> w < columns (p @ word_blank r))"

fun wrapped :: "int \<Rightarrow> string list \<Rightarrow> string \<Rightarrow> bool" where
  "wrapped w [] q \<longleftrightarrow> CHR 0x0A \<notin> set q \<and> columns q \<le> w"
| "wrapped w (p # ps) q \<longleftrightarrow> line_ok w p (concat ps @ q) \<and> wrapped w ps q"

definition ended :: "string \<Rightarrow> string" where
  "ended p = (if last p = CHR 0x0A then p else p @ [CHR 0x0A])"

lemma jixwidth_pos: "1 \<le> jixwidth v" "jixwidth v \<le> 2"
  by (simp_all add: jixwidth_def Let_def)

lemma columns_simps [simp]:
  "columns [] = 0" "columns (c # x) = jixwidth (bval c) + columns x" "columns (x @ y) = columns x + columns y"
  by (simp_all add: columns_def)

lemma columns_ge: "int (length x) \<le> columns x" "columns x \<le> 2 * int (length x)"
proof (induction x)
  case (Cons c x)
  { case 1 show ?case using Cons jixwidth_pos [of "bval c"] by simp }
  { case 2 show ?case using Cons jixwidth_pos [of "bval c"] by simp }
qed simp_all

text \<open>The part of a text between two places.\<close>

definition between :: "string \<Rightarrow> nat \<Rightarrow> nat \<Rightarrow> string" where
  "between x i j = take (j - i) (drop i x)"

lemma between_Suc: "i \<le> j \<Longrightarrow> j < length x \<Longrightarrow> between x i (Suc j) = between x i j @ [x ! j]"
  by (simp add: between_def Suc_diff_le take_Suc_conv_app_nth)

lemma between_same [simp]: "between x i i = []"
  by (simp add: between_def)

lemma between_split: "i \<le> k \<Longrightarrow> k \<le> j \<Longrightarrow> between x i j = between x i k @ between x k j"
proof -
  assume "i \<le> k" "k \<le> j"
  then obtain m n where "k = i + m" "j = i + (m + n)" by (metis add.assoc le_Suc_ex)
  then show ?thesis by (simp add: between_def take_add add.commute)
qed

lemma between_rest: "i \<le> j \<Longrightarrow> drop i x = between x i j @ drop j x"
  by (simp add: between_def) (metis append_take_drop_id drop_drop le_add_diff_inverse2)

lemma length_between: "i \<le> j \<Longrightarrow> j \<le> length x \<Longrightarrow> length (between x i j) = j - i"
  by (simp add: between_def)

section \<open>One pass\<close>

lemma sub_between: "i \<le> k \<Longrightarrow> sub_of x (int i) (int k - int i) = between x i k"
proof -
  assume "i \<le> k"
  then obtain n where "k = i + n" by (metis le_Suc_ex)
  then show ?thesis by (simp add: sub_of_def between_def ALLCHARS_def)
qed

text \<open>The strings of a pass: the text \<open>x\<close> in the argument, \<open>z\<close> so far in the result.\<close>

definition wrapping :: "nat \<Rightarrow> nat \<Rightarrow> string \<Rightarrow> string \<Rightarrow> chx_state \<Rightarrow> bool" where
  "wrapping r a x z s \<longleftrightarrow> chx_inv s \<and> sview s r = Some z \<and> sview s a = Some x \<and> r \<noteq> a"

lemma wrapping_to: "wrapping r a x z s \<Longrightarrow> chx_to s ((sview s)(r \<mapsto> z')) s' \<Longrightarrow> wrapping r a x z' s'"
  by (auto simp: wrapping_def chx_to_def)

lemma wrap_value:
  assumes "wrapping r a x z s" and "j \<le> length x"
  obtains s' where "chxvalue (Some a) (int j) s = Some (char_at x (int j), s')" "chx_to s ((sview s)(r \<mapsto> z)) s'"
    "char_at x (int j) = 0 \<longleftrightarrow> j = length x"
proof -
  have w: "chx_inv s" "sview s a = Some x" "sview s r = Some z" using assms(1) by (simp_all add: wrapping_def)
  obtain s' where s': "chxvalue (Some a) (int j) s = Some (char_at x (int j), s')" "chx_to s (sview s) s'"
    by (rule chxvalue_ok [OF w(1,2), of "int j"]) simp
  have "char_at x (int j) = 0 \<longleftrightarrow> j = length x"
    using char_at_eq_0 [OF live_no_NUL [OF w(2)], of "int j"] assms(2) by auto
  then show thesis using that s' w(3) by (simp add: map_upd_triv)
qed

lemma wrap_step_end:
  assumes w: "wrapping r a x z s" and l: "w_pos l = int (length x)"
  obtains s' where "wrap_step (Some r) (Some a) w l s = Some (None, s')" "chx_to s ((sview s)(r \<mapsto> z)) s'"
proof -
  obtain s' where s': "chxvalue (Some a) (int (length x)) s = Some (char_at x (int (length x)), s')"
    "chx_to s ((sview s)(r \<mapsto> z)) s'"
    by (rule wrap_value [OF w order.refl])
  then show thesis using that l by (simp add: wrap_step_def char_at_def)
qed

lemma wrap_step_line:
  assumes w: "wrapping r a x z s" and l: "w_start l = int i" "w_pos l = int j" and j: "j < length x" "x ! j = CHR 0x0A" and i: "i \<le> j"
  obtains s' where "wrap_step (Some r) (Some a) w l s = Some (Some (wrap_from (int (Suc j))), s')"
    "chx_to s ((sview s)(r \<mapsto> z @ between x i (Suc j))) s'"
proof -
  obtain s1 where s1: "chxvalue (Some a) (int j) s = Some (char_at x (int j), s1)" "chx_to s ((sview s)(r \<mapsto> z)) s1"
    by (rule wrap_value [OF w less_imp_le [OF j(1)]]) blast
  have w1: "chx_inv s1" "sview s1 r = Some z" "sview s1 a = Some x" "r \<noteq> a" using wrapping_to [OF w s1(2)] by (simp_all add: wrapping_def)
  obtain s2 where s2: "chxcatsub (Some r) (Some a) (int i) (int (Suc j) - int i) s1 = Some (1, s2)"
      "chx_to s1 ((sview s1)(r \<mapsto> z @ sub_of x (int i) (int (Suc j) - int i))) s2"
    by (rule chxcatsub_ok [OF w1])
  have e: "(sview s1)(r \<mapsto> z @ sub_of x (int i) (int (Suc j) - int i)) = (sview s)(r \<mapsto> z @ between x i (Suc j))"
    using chx_toD(2) [OF s1(2)] sub_between [OF le_SucI [OF i]] by (simp del: of_nat_Suc)
  have c: "char_at x (int j) = 10" using j by (simp add: char_at_def bval_def)
  have n: "int j - int i + 1 = int (Suc j) - int i" by simp
  have "wrap_step (Some r) (Some a) w l s = Some (Some (wrap_from (int (Suc j))), s2)"
    using s1(1) s2(1) [folded n] c l by (simp add: wrap_step_def add.commute)
  moreover have "chx_to s ((sview s)(r \<mapsto> z @ between x i (Suc j))) s2"
    using chx_to_trans [OF s1(2) s2(2)] unfolding e .
  ultimately show thesis by (rule that)
qed

text \<open>A line is broken behind the place \<open>k - 1\<close>.\<close>

lemma wrap_step_break:
  assumes w: "wrapping r a x z s" and l: "w_start l = int i" "w_pos l = int j"
    and j: "j < length x" "x ! j \<noteq> CHR 0x0A" and full: "w_width l + jixwidth (bval (x ! j)) > wd"
    and k: "int k = (if w_blank l < 0 then int i + w_width l div 2 - 3 else w_blank l) + 1" and i: "i \<le> k"
  obtains s' where "wrap_step (Some r) (Some a) wd l s = Some (Some (wrap_from (int k)), s')"
    "chx_to s ((sview s)(r \<mapsto> z @ between x i k @ [CHR 0x0A])) s'"
proof -
  define bl where "bl = (if w_blank l < 0 then int i + w_width l div 2 - 3 else w_blank l)"
  have bk: "bl + 1 = int k" using k by (simp add: bl_def)
  obtain s1 where s1: "chxvalue (Some a) (int j) s = Some (char_at x (int j), s1)" "chx_to s ((sview s)(r \<mapsto> z)) s1"
      "char_at x (int j) = 0 \<longleftrightarrow> j = length x"
    by (rule wrap_value [OF w less_imp_le [OF j(1)]]) blast
  have w1: "chx_inv s1" "sview s1 r = Some z" "sview s1 a = Some x" "r \<noteq> a" using wrapping_to [OF w s1(2)] by (simp_all add: wrapping_def)
  obtain s2 where s2: "chxcatsub (Some r) (Some a) (int i) (int k - int i) s1 = Some (1, s2)"
      "chx_to s1 ((sview s1)(r \<mapsto> z @ sub_of x (int i) (int k - int i))) s2"
    by (rule chxcatsub_ok [OF w1])
  note s2b = s2(2) [unfolded sub_between [OF i]]
  have w2: "chx_inv s2" "sview s2 r = Some (z @ between x i k)" using chx_toD(1,2) [OF s2b] by simp_all
  have b10: "byte 10 = CHR 0x0A" using byte_bval [of "CHR 0x0A"] by (simp add: bval_def)
  obtain s3 where s3: "chxcatval (Some r) THIN 10 s2 = Some (1, s3)"
      "chx_to s2 ((sview s2)(r \<mapsto> (z @ between x i k) @ [byte 10])) s3"
    by (rule chxcatval_ok [OF w2, of 10 THIN]) (use b10 in auto)
  have e: "(sview s2)(r \<mapsto> (z @ between x i k) @ [byte 10]) = (sview s)(r \<mapsto> z @ between x i k @ [CHR 0x0A])"
    using chx_toD(2) [OF s1(2)] chx_toD(2) [OF s2b] b10 by (simp add: fun_eq_iff)
  have c: "char_at x (int j) = bval (x ! j)" "bval (x ! j) \<noteq> 0" "bval (x ! j) \<noteq> 10"
    using j s1(3) bval_inject [of "x ! j" "CHR 0x0A"] by (auto simp: char_at_def bval_def)
  have n: "bl - int i + 1 = int k - int i" using bk by simp
  have br: "wrap_break (Some r) (Some a) (int i) bl s1 = Some (Some (wrap_from (int k)), s3)"
    unfolding wrap_break_def n bk using s2(1) s3(1) by simp
  have "wrap_step (Some r) (Some a) wd l s = Some (Some (wrap_from (int k)), s3)"
    using s1(1) c l full br by (cases "w_blank l < 0") (simp_all add: wrap_step_def bl_def)
  moreover have "chx_to s ((sview s)(r \<mapsto> z @ between x i k @ [CHR 0x0A])) s3"
    using chx_to_trans [OF s1(2) chx_to_trans [OF s2(2) s3(2)]] unfolding e .
  ultimately show thesis by (rule that)
qed

text \<open>A character that still fits.\<close>

definition wrap_next :: "string \<Rightarrow> nat \<Rightarrow> wrap_t \<Rightarrow> wrap_t" where
  "wrap_next x j l = l\<lparr>w_blank := (if break_char (x ! j) then int j else w_blank l),
     w_width := w_width l + jixwidth (bval (x ! j)), w_pos := int (Suc j)\<rparr>"

lemma wrap_step_fits:
  assumes w: "wrapping r a x z s" and l: "w_pos l = int j"
    and j: "j < length x" "x ! j \<noteq> CHR 0x0A" and fits: "w_width l + jixwidth (bval (x ! j)) \<le> wd"
  obtains s' where "wrap_step (Some r) (Some a) wd l s = Some (Some (wrap_next x j l), s')" "chx_to s ((sview s)(r \<mapsto> z)) s'"
proof -
  obtain s1 where s1: "chxvalue (Some a) (int j) s = Some (char_at x (int j), s1)" "chx_to s ((sview s)(r \<mapsto> z)) s1"
      "char_at x (int j) = 0 \<longleftrightarrow> j = length x"
    by (rule wrap_value [OF w less_imp_le [OF j(1)]]) blast
  have c: "char_at x (int j) = bval (x ! j)" "bval (x ! j) \<noteq> 0" "bval (x ! j) \<noteq> 10" "bval (x ! j) \<noteq> 41377"
    using j s1(3) bval_inject [of "x ! j" "CHR 0x0A"] bval_range(2) [of "x ! j"] by (auto simp: char_at_def bval_def)
  have b: "bval (x ! j) = 32 \<or> bval (x ! j) = 9 \<longleftrightarrow> break_char (x ! j)"
    using bval_inject [of "x ! j" "CHR 0x09"] bval_inject [of "x ! j" "CHR '' ''"]
    by (auto simp: break_char_def bval_def)
  have "wrap_step (Some r) (Some a) wd l s = Some (Some (wrap_next x j l), s1)"
    using s1(1) c b l fits by (simp add: wrap_step_def wrap_next_def add.commute)
  then show thesis using s1(2) by (rule that)
qed

section \<open>The loop\<close>

text \<open>The variables while the line that starts at \<open>i\<close> has been read up to \<open>j\<close>.\<close>

definition wrap_at :: "string \<Rightarrow> int \<Rightarrow> nat \<Rightarrow> nat \<Rightarrow> wrap_t \<Rightarrow> bool" where
  "wrap_at x w i j l \<longleftrightarrow> i \<le> j \<and> j \<le> length x \<and> w_start l = int i \<and> w_pos l = int j \<and>
     w_width l = columns (between x i j) \<and> w_width l \<le> w \<and> CHR 0x0A \<notin> set (between x i j) \<and>
     (if w_blank l < 0 then \<forall>c \<in> set (between x i j). \<not> break_char c
      else \<exists>k. w_blank l = int k \<and> i \<le> k \<and> k < j \<and> break_char (x ! k) \<and> (\<forall>c \<in> set (between x (Suc k) j). \<not> break_char c))"

lemma wrap_at_from: "i \<le> length x \<Longrightarrow> 0 \<le> w \<Longrightarrow> wrap_at x w i i (wrap_from (int i))"
  by (simp add: wrap_at_def wrap_from_def)

lemma wrap_at_next:
  assumes at: "wrap_at x w i j l" and j: "j < length x" "x ! j \<noteq> CHR 0x0A" and fits: "w_width l + jixwidth (bval (x ! j)) \<le> w"
  shows "wrap_at x w i (Suc j) (wrap_next x j l)"
proof -
  have ij: "i \<le> j" using at by (simp add: wrap_at_def)
  note S = between_Suc [OF ij j(1)]
  have B: "\<exists>k. w_blank (wrap_next x j l) = int k \<and> i \<le> k \<and> k < Suc j \<and> break_char (x ! k) \<and>
      (\<forall>c \<in> set (between x (Suc k) (Suc j)). \<not> break_char c)" if b: "\<not> w_blank (wrap_next x j l) < 0"
  proof (cases "break_char (x ! j)")
    case True
    then show ?thesis using ij by (intro exI [of _ j]) (simp add: wrap_next_def)
  next
    case False
    then obtain k where k: "w_blank l = int k" "i \<le> k" "k < j" "break_char (x ! k)" "\<forall>c \<in> set (between x (Suc k) j). \<not> break_char c"
      using at b by (auto simp: wrap_at_def wrap_next_def split: if_splits)
    then show ?thesis using False between_Suc [of "Suc k" j x] j(1)
      by (intro exI [of _ k]) (simp add: wrap_next_def)
  qed
  have A: "\<forall>c \<in> set (between x i (Suc j)). \<not> break_char c" if b: "w_blank (wrap_next x j l) < 0"
    using at b S by (auto simp: wrap_at_def wrap_next_def split: if_splits)
  have "w_start (wrap_next x j l) = int i" "w_pos (wrap_next x j l) = int (Suc j)"
    "w_width (wrap_next x j l) = columns (between x i (Suc j))" "w_width (wrap_next x j l) \<le> w"
    "CHR 0x0A \<notin> set (between x i (Suc j))" "i \<le> Suc j" "Suc j \<le> length x"
    using at ij j fits S by (simp_all add: wrap_at_def wrap_next_def)
  moreover have "if w_blank (wrap_next x j l) < 0 then \<forall>c \<in> set (between x i (Suc j)). \<not> break_char c
      else \<exists>k. w_blank (wrap_next x j l) = int k \<and> i \<le> k \<and> k < Suc j \<and> break_char (x ! k) \<and>
        (\<forall>c \<in> set (between x (Suc k) (Suc j)). \<not> break_char c)"
    using A B by (rule if_bool_eq_conj [THEN iffD2, OF conjI, OF impI impI])
  ultimately show ?thesis unfolding wrap_at_def by blast
qed

lemma between_sub: "i \<le> k \<Longrightarrow> k \<le> j \<Longrightarrow> set (between x i k) \<subseteq> set (between x i j)" "i \<le> k \<Longrightarrow> k \<le> j \<Longrightarrow> set (between x k j) \<subseteq> set (between x i j)"
  using between_split [of i k j x] by auto

lemma columns_mono: "i \<le> k \<Longrightarrow> k \<le> j \<Longrightarrow> columns (between x i k) \<le> columns (between x i j)"
  using between_split [of i k j x] columns_ge(1) [of "between x k j"] by simp

text \<open>A cut behind a blank, or in a line without one, is right.\<close>

lemma break_line_ok:
  assumes k: "i < k" "k \<le> j" and j: "j < length x" "x ! j \<noteq> CHR 0x0A"
    and at: "columns (between x i j) \<le> w" "CHR 0x0A \<notin> set (between x i j)" and full: "columns (between x i j) + jixwidth (bval (x ! j)) > w"
    and word: "\<forall>c \<in> set (between x k j). \<not> break_char c"
    and cut: "break_char (last (between x i k)) \<or> (\<forall>c \<in> set (between x i k). \<not> break_char c)"
  shows "line_ok w (between x i k) (drop k x)"
proof -
  let ?p = "between x i k"
  have ne: "?p \<noteq> []" using k j length_between [of i k x] by auto
  have nl: "CHR 0x0A \<notin> set ?p" using between_sub(1) [of i k j x] k at(2) by auto
  have "\<forall>c \<in> set (between x k j). inner_char c" using word between_sub(2) [of i k j x] k at(2) by (auto simp: inner_char_def)
  then have nw: "word_blank (drop k x) = between x k j @ word_blank (drop j x)"
    using between_rest [OF k(2), of x] by (auto simp: word_blank_def takeWhile_append dropWhile_append)
  have d: "drop j x = x ! j # drop (Suc j) x" using j(1) by (simp add: Cons_nth_drop_Suc)
  have "\<exists>y. word_blank (drop j x) = x ! j # y" using j(2) by (auto simp: d word_blank_def inner_char_def)
  then obtain y where "word_blank (drop j x) = x ! j # y" ..
  then have "w < columns (between x i j) + columns (word_blank (drop j x))" using full columns_ge(1) [of y] by simp
  then have "w < columns (?p @ word_blank (drop k x))" using between_split [of i k j x] k nw by simp
  moreover have "last ?p \<noteq> CHR 0x0A" using nl ne by (metis last_in_set)
  moreover have "columns ?p \<le> w" using columns_mono [of i k j x] k at(1) by simp
  moreover have "CHR 0x0A \<notin> set (butlast ?p)" using nl by (meson in_set_butlastD)
  ultimately show ?thesis using ne cut by (simp add: line_ok_def)
qed

text \<open>Where the program cuts a line that is full.\<close>

lemma wrap_cut:
  assumes at: "wrap_at x w i j l" and j: "j < length x" "x ! j \<noteq> CHR 0x0A" and full: "w_width l + jixwidth (bval (x ! j)) > w"
    and room: "5 + jixwidth (bval (x ! j)) \<le> w"
  obtains k where "int k = (if w_blank l < 0 then int i + w_width l div 2 - 3 else w_blank l) + 1" "i < k" "k \<le> j"
    "line_ok w (between x i k) (drop k x)"
proof -
  have ij: "i \<le> j" and wd: "w_width l = columns (between x i j)" "columns (between x i j) \<le> w" and nl: "CHR 0x0A \<notin> set (between x i j)"
    using at by (simp_all add: wrap_at_def)
  note ok = break_line_ok [OF _ _ j wd(2) nl full [unfolded wd(1)]]
  show thesis
  proof (cases "w_blank l < 0")
    case True
    have b: "\<forall>c \<in> set (between x i j). \<not> break_char c" using at True by (simp add: wrap_at_def)
    have six: "6 \<le> w_width l" using full room by simp
    define k where "k = i + nat (w_width l div 2 - 2)"
    have "w_width l \<le> 2 * (int j - int i)"
      using columns_ge(2) [of "between x i j"] length_between [OF ij, of x] j(1) ij wd(1) by (simp add: of_nat_diff)
    then have k: "i < k" "k \<le> j" "int k = int i + w_width l div 2 - 3 + 1" using six ij by (simp_all add: k_def)
    have "\<forall>c \<in> set (between x k j). \<not> break_char c" "\<forall>c \<in> set (between x i k). \<not> break_char c"
      using b between_sub [of i k j x] k by auto
    then show thesis using that [of k] ok [OF k(1,2)] k True by simp
  next
    case False
    obtain k where k: "w_blank l = int k" "i \<le> k" "k < j" "break_char (x ! k)" "\<forall>c \<in> set (between x (Suc k) j). \<not> break_char c"
      using at False by (auto simp: wrap_at_def)
    have "last (between x i (Suc k)) = x ! k" using between_Suc [of i k x] k(2,3) j(1) by simp
    then show thesis using that [of "Suc k"] ok [of "Suc k"] k False by simp
  qed
qed

text \<open>What the loop leaves: the lines put into the result and the place of the rest.\<close>

definition loop_result :: "nat \<Rightarrow> nat \<Rightarrow> int \<Rightarrow> string \<Rightarrow> string \<Rightarrow> nat \<Rightarrow> wrap_t \<Rightarrow> chx_state \<Rightarrow> bool" where
  "loop_result r a w x z i l s \<longleftrightarrow> (\<exists>ps m l' s'. wrap_loop (Some r) (Some a) w l s = Some (l', s') \<and>
     chx_to s ((sview s)(r \<mapsto> z @ concat (map ended ps))) s' \<and> w_start l' = int m \<and> w_pos l' = int (length x) \<and> m \<le> length x \<and>
     drop i x = concat ps @ drop m x \<and> wrapped w ps (drop m x))"

lemma loop_result_step:
  assumes step: "wrap_step (Some r) (Some a) w l s = Some (Some l1, s1)" and to: "chx_to s ((sview s)(r \<mapsto> z @ ended p)) s1"
    and ok: "line_ok w p (drop k x)" and d: "drop i x = p @ drop k x" and rest: "loop_result r a w x (z @ ended p) k l1 s1"
  shows "loop_result r a w x z i l s"
proof -
  obtain ps m l' s' where *: "wrap_loop (Some r) (Some a) w l1 s1 = Some (l', s')"
      "chx_to s1 ((sview s1)(r \<mapsto> (z @ ended p) @ concat (map ended ps))) s'" "w_start l' = int m" "w_pos l' = int (length x)" "m \<le> length x"
      "drop k x = concat ps @ drop m x" "wrapped w ps (drop m x)"
    using rest by (auto simp: loop_result_def)
  have "wrap_loop (Some r) (Some a) w l s = Some (l', s')" using step *(1) by (subst wrap_loop.simps) simp
  moreover have "(sview s1)(r \<mapsto> (z @ ended p) @ concat (map ended ps)) = (sview s)(r \<mapsto> z @ concat (map ended (p # ps)))"
    using chx_toD(2) [OF to] by simp
  with *(2) have "chx_to s ((sview s)(r \<mapsto> z @ concat (map ended (p # ps)))) s'" using chx_to_trans [OF to] by metis
  moreover have "drop i x = concat (p # ps) @ drop m x" "wrapped w (p # ps) (drop m x)" using d ok *(6,7) by simp_all
  ultimately show ?thesis unfolding loop_result_def using *(3-5) by blast
qed

lemma loop_result_read:
  assumes step: "wrap_step (Some r) (Some a) w l s = Some (Some l1, s1)" and to: "chx_to s ((sview s)(r \<mapsto> z)) s1"
    and rest: "loop_result r a w x z i l1 s1"
  shows "loop_result r a w x z i l s"
proof -
  obtain ps m l' s' where *: "wrap_loop (Some r) (Some a) w l1 s1 = Some (l', s')"
      "chx_to s1 ((sview s1)(r \<mapsto> z @ concat (map ended ps))) s'" "w_start l' = int m" "w_pos l' = int (length x)" "m \<le> length x"
      "drop i x = concat ps @ drop m x" "wrapped w ps (drop m x)"
    using rest by (auto simp: loop_result_def)
  have "wrap_loop (Some r) (Some a) w l s = Some (l', s')" using step *(1) by (subst wrap_loop.simps) simp
  moreover have "(sview s1)(r \<mapsto> z @ concat (map ended ps)) = (sview s)(r \<mapsto> z @ concat (map ended ps))"
    using chx_toD(2) [OF to] by simp
  with *(2) have "chx_to s ((sview s)(r \<mapsto> z @ concat (map ended ps))) s'" using chx_to_trans [OF to] by metis
  ultimately show ?thesis unfolding loop_result_def using *(3-7) by blast
qed

lemma loop_result_end:
  assumes w: "wrapping r a x z s" and at: "wrap_at x w i (length x) l"
  shows "loop_result r a w x z i l s"
proof -
  have l: "w_pos l = int (length x)" "w_start l = int i" "i \<le> length x" using at by (simp_all add: wrap_at_def)
  obtain s' where s': "wrap_step (Some r) (Some a) w l s = Some (None, s')" "chx_to s ((sview s)(r \<mapsto> z)) s'"
    by (rule wrap_step_end [OF w l(1)])
  have "between x i (length x) = drop i x" by (simp add: between_def)
  then have "wrapped w [] (drop i x)" using at by (simp add: wrap_at_def)
  moreover have "wrap_loop (Some r) (Some a) w l s = Some (l, s')" using s'(1) by (subst wrap_loop.simps) simp
  ultimately show ?thesis unfolding loop_result_def using s'(2) l
    by (intro exI [of _ "[]"] exI [of _ i] exI [of _ l] exI [of _ s']) simp
qed

lemma wrap_loop_ok:
  assumes "wrapping r a x z s" and "wrap_at x w i j l" and "\<forall>c \<in> set (drop i x). 5 + jixwidth (bval c) \<le> w" and "0 \<le> w"
  shows "loop_result r a w x z i l s"
  using assms
proof (induction "(length x + 1) * (length x - i) + (length x - j)" arbitrary: i j l z s rule: less_induct)
  case less
  note w = less.prems(1) and at = less.prems(2) and room = less.prems(3)
  have ij: "i \<le> j" "j \<le> length x" "w_start l = int i" "w_pos l = int j" using at by (simp_all add: wrap_at_def)
  have far: "(length x + 1) * (length x - k) + (length x - k) < (length x + 1) * (length x - i) + (length x - j)"
    if "i < k" "k \<le> length x" for k
  proof -
    have "length x - i = Suc (length x - k) + (k - Suc i)" using that by simp
    then have "(length x + 1) * Suc (length x - k) \<le> (length x + 1) * (length x - i)" by (simp only: mult_le_mono2 le_add1)
    moreover have "(length x + 1) * Suc (length x - k) = (length x + 1) * (length x - k) + (length x + 1)" by (simp only: mult_Suc_right add.commute)
    ultimately show ?thesis by linarith
  qed
  show ?case
  proof (cases "j = length x")
    case True
    then show ?thesis using loop_result_end [OF w] at by simp
  next
    case False
    then have j: "j < length x" using ij by simp
    have inx: "x ! j \<in> set (drop i x)" using between_rest [OF ij(1), of x] j by (simp add: Cons_nth_drop_Suc [OF j, symmetric])
    consider "x ! j = CHR 0x0A" | "x ! j \<noteq> CHR 0x0A" "w_width l + jixwidth (bval (x ! j)) > w"
      | "x ! j \<noteq> CHR 0x0A" "w_width l + jixwidth (bval (x ! j)) \<le> w" by linarith
    then show ?thesis
    proof cases
      case 1
      let ?p = "between x i (Suc j)"
      have p: "?p = between x i j @ [CHR 0x0A]" using between_Suc [OF ij(1) j] 1 by simp
      then have e: "ended ?p = ?p" by (simp add: ended_def)
      obtain s' where s': "wrap_step (Some r) (Some a) w l s = Some (Some (wrap_from (int (Suc j))), s')"
          "chx_to s ((sview s)(r \<mapsto> z @ ?p)) s'"
        by (rule wrap_step_line [OF w ij(3,4) j 1 ij(1)])
      have ok: "line_ok w ?p (drop (Suc j) x)" using at p by (simp add: line_ok_def wrap_at_def)
      have d: "drop i x = ?p @ drop (Suc j) x" using between_rest [of i "Suc j" x] ij(1) by simp
      have "loop_result r a w x (z @ ended ?p) (Suc j) (wrap_from (int (Suc j))) s'"
        by (rule less.hyps [OF far _ wrap_at_from])
          (use j ij(1) d room less.prems(4) wrapping_to [OF w s'(2)] e in auto)
      moreover have "chx_to s ((sview s)(r \<mapsto> z @ ended ?p)) s'" using s'(2) e by simp
      ultimately show ?thesis using loop_result_step [OF s'(1) _ ok d] by blast
    next
      case 2
      obtain k where k: "int k = (if w_blank l < 0 then int i + w_width l div 2 - 3 else w_blank l) + 1" "i < k" "k \<le> j"
          "line_ok w (between x i k) (drop k x)"
        by (rule wrap_cut [OF at j 2]) (use room inx in auto)
      let ?p = "between x i k"
      have d: "drop i x = ?p @ drop k x" using between_rest [of i k x] k(2) by simp
      have "set ?p \<subseteq> set (between x i j)" using between_sub(1) [of i k j x] k by simp
      moreover have "?p \<noteq> []" using k(4) by (simp add: line_ok_def)
      ultimately have "last ?p \<noteq> CHR 0x0A" using at by (metis last_in_set subsetD wrap_at_def)
      then have e: "ended ?p = ?p @ [CHR 0x0A]" by (simp add: ended_def)
      obtain s' where s': "wrap_step (Some r) (Some a) w l s = Some (Some (wrap_from (int k)), s')"
          "chx_to s ((sview s)(r \<mapsto> z @ ?p @ [CHR 0x0A])) s'"
        by (rule wrap_step_break [OF w ij(3,4) j 2 k(1) less_imp_le [OF k(2)]])
      have "loop_result r a w x (z @ ended ?p) k (wrap_from (int k)) s'"
        by (rule less.hyps [OF far _ wrap_at_from])
          (use j k d room less.prems(4) wrapping_to [OF w s'(2)] e in auto)
      moreover have "chx_to s ((sview s)(r \<mapsto> z @ ended ?p)) s'" using s'(2) e by simp
      ultimately show ?thesis using loop_result_step [OF s'(1) _ k(4) d] by blast
    next
      case 3
      obtain s' where s': "wrap_step (Some r) (Some a) w l s = Some (Some (wrap_next x j l), s')" "chx_to s ((sview s)(r \<mapsto> z)) s'"
        by (rule wrap_step_fits [OF w ij(4) j 3])
      have "loop_result r a w x z i (wrap_next x j l) s'"
        by (rule less.hyps [OF _ wrapping_to [OF w s'(2)] wrap_at_next [OF at j 3] room less.prems(4)]) (use j in simp)
      then show ?thesis by (rule loop_result_read [OF s'])
    qed
  qed
qed

section \<open>Properties\<close>

text \<open>The call of \<open>chxint4\<close> at the start of \<open>wrap_text\<close>.\<close>

lemma wrap_width:
  assumes "chx_inv s" "blanks s \<noteq> None" "NUL \<notin> set (int4_blanks s)" and "sview s r = Some z" "sview s a = Some x" "r \<noteq> a"
    and rd: "read_int (int4_blanks s) x 0 = Some (v, e)"
  obtains s1 where "chxint4 (Some a) (Some 0) s = Some (v, Some (int e), s1)" "wrapping r a x z s1" "sview s1 = sview s"
proof -
  obtain s1 where s1: "chxint4 (Some a) (Some (int 0)) s =
      (case read_int (int4_blanks s) x 0 of None \<Rightarrow> Some (0, Some (int 0), s1) | Some (v, e) \<Rightarrow> Some (v, Some (int e), s1))"
    "chx_inv s1" "sview s1 = sview s"
    by (rule chxint4_ok [OF assms(1,2,5) le0 assms(3)])
  then show thesis using that [of s1] rd assms(4-6) by (simp add: wrapping_def)
qed

text \<open>
  C29. \<open>wrap_text\<close> ends and wraps: the text behind the width is cut into lines of at most that many columns, none
  empty and no character lost; a line that the program broke ends in a blank or has none, and the next word
  together with the blank behind it does not fit on it. It holds for a width of at least 5 columns more than the widest character.
\<close>

theorem wrap_text_wraps:
  assumes "chx_inv s" "blanks s \<noteq> None" "NUL \<notin> set (int4_blanks s)" and "sview s r = Some z" "sview s a = Some x" "r \<noteq> a"
    and "read_int (int4_blanks s) x 0 = Some (v, e)" and "e < length x" and "6 \<le> v"
    and "\<forall>c \<in> set (drop (Suc e) x). 5 + jixwidth (bval c) \<le> v"
  shows "\<exists>ps q s'. wrap_text (Some r) (Some a) s = Some (1, s') \<and> chx_inv s' \<and>
    sview s' = (sview s)(r \<mapsto> z @ concat (map ended ps) @ q) \<and> drop (Suc e) x = concat ps @ q \<and> wrapped v ps q"
proof -
  obtain s1 where s1: "chxint4 (Some a) (Some 0) s = Some (v, Some (int e), s1)" "wrapping r a x z s1" "sview s1 = sview s"
    by (rule wrap_width [OF assms(1-7)])
  have "loop_result r a v x z (Suc e) (wrap_from (int (Suc e))) s1"
    by (rule wrap_loop_ok [OF s1(2) wrap_at_from assms(10)]) (use assms(8,9) in simp_all)
  then obtain ps m l s2 where l: "wrap_loop (Some r) (Some a) v (wrap_from (int (Suc e))) s1 = Some (l, s2)"
      "chx_to s1 ((sview s1)(r \<mapsto> z @ concat (map ended ps))) s2" "w_start l = int m" "w_pos l = int (length x)" "m \<le> length x"
      "drop (Suc e) x = concat ps @ drop m x" "wrapped v ps (drop m x)"
    by (auto simp: loop_result_def)
  have w2: "chx_inv s2" "sview s2 r = Some (z @ concat (map ended ps))" "sview s2 a = Some x"
    using wrapping_to [OF s1(2) l(2)] by (simp_all add: wrapping_def)
  obtain s3 where s3: "chxcatsub (Some r) (Some a) (int m) (int (length x) - int m) s2 = Some (1, s3)"
      "chx_to s2 ((sview s2)(r \<mapsto> (z @ concat (map ended ps)) @ sub_of x (int m) (int (length x) - int m))) s3"
    by (rule chxcatsub_ok [OF w2 assms(6)])
  have "sub_of x (int m) (int (length x) - int m) = drop m x" using sub_between [OF l(5), of x] by (simp add: between_def)
  then have v: "sview s3 = (sview s)(r \<mapsto> z @ concat (map ended ps) @ drop m x)"
    using chx_toD(2) [OF s3(2)] chx_toD(2) [OF l(2)] s1(3) by simp
  have "wrap_text (Some r) (Some a) s = Some (1, s3)"
    using s1(1) l(1,3,4) s3(1) assms(9) by (simp add: wrap_text_def add.commute)
  then show ?thesis using v chx_toD(1) [OF s3(2)] l(6,7) by blast
qed

theorem wrap_text_wraps_witness:
  "\<exists>ps q s'. wrap_text (Some 12) (Some 13) (started_store [[], ''8 hello you all'']) = Some (1, s') \<and> chx_inv s' \<and>
    sview s' = (sview (started_store [[], ''8 hello you all'']))(12 \<mapsto> [] @ concat (map ended ps) @ q) \<and>
    drop (Suc 1) ''8 hello you all'' = concat ps @ q \<and> wrapped 8 ps q"
  by (rule wrap_text_wraps)
    (simp_all add: started_inv started_sview started_blanks read_int_def in_tab_def is_digit_def digit_def dval_def char_at_def
      bval_def wrap32_def jixwidth_def)

text \<open>The passes of the loop, as many as are asked for.\<close>

fun wrap_steps :: "nat \<Rightarrow> Chix \<Rightarrow> Chix \<Rightarrow> int \<Rightarrow> wrap_t \<Rightarrow> chx_state \<Rightarrow> (wrap_t option \<times> chx_state) option" where
  "wrap_steps 0 result arg w l s = Some (Some l, s)"
| "wrap_steps (Suc n) result arg w l s = do {
     (l, s) \<leftarrow> wrap_step result arg w l s;
     (case l of None \<Rightarrow> Some (None, s) | Some l \<Rightarrow> wrap_steps n result arg w l s) }"

lemma wrap_steps_add:
  "wrap_steps m r a w l s = Some (Some l1, s1) \<Longrightarrow> wrap_steps (m + n) r a w l s = wrap_steps n r a w l1 s1"
  by (induction m arbitrary: l s) (auto simp: bind_eq_Some_conv split: option.splits)

lemma wrap_steps_done: "wrap_steps n r a w l s = Some (None, s1) \<Longrightarrow> n \<le> m \<Longrightarrow> wrap_steps m r a w l s = Some (None, s1)"
proof (induction n arbitrary: l s m)
  case (Suc n)
  then obtain k where "m = Suc k" "n \<le> k" by (metis Suc_le_D Suc_le_mono)
  moreover obtain l1 s2 where "wrap_step r a w l s = Some (l1, s2)" using Suc.prems(1) by (auto simp: bind_eq_Some_conv)
  ultimately show ?case using Suc by (cases l1) simp_all
qed simp

lemma wrap_loop_steps:
  assumes "wrap_loop r a w l s = Some y"
  shows "\<exists>n s'. wrap_steps n r a w l s = Some (None, s')"
proof (rule wrap_loop.raw_induct [OF _ assms])
  fix loop r a w l s and y :: "wrap_t \<times> chx_state"
  assume IH: "\<And>r a w l s y. loop r a w l s = Some y \<Longrightarrow> \<exists>n s'. wrap_steps n r a w l s = Some (None, s')"
    and y: "do { (r', s) \<leftarrow> wrap_step r a w l s; (case r' of None \<Rightarrow> Some (l, s) | Some l \<Rightarrow> loop r a w l s) } = Some y"
  obtain l1 s1 where s1: "wrap_step r a w l s = Some (l1, s1)" using y by (auto simp: bind_eq_Some_conv)
  show "\<exists>n s'. wrap_steps n r a w l s = Some (None, s')"
  proof (cases l1)
    case None
    then show ?thesis using s1 by (intro exI [of _ 1]) simp
  next
    case (Some l2)
    then have "loop r a w l2 s1 = Some y" using y s1 by simp
    then obtain n s' where "wrap_steps n r a w l2 s1 = Some (None, s')" using IH by blast
    then show ?thesis using s1 Some by (intro exI [of _ "Suc n"]) simp
  qed
qed

text \<open>With a width of five the first five characters of a longer word are read, then the line is cut before the first.\<close>

lemma wrap_reads:
  assumes "wrapping r a x z s" and "i + 5 < length x" and "\<forall>k < 6. inner_char (x ! (i + k)) \<and> jixwidth (bval (x ! (i + k))) = 1" and "n \<le> 5"
  shows "\<exists>s'. wrap_steps n (Some r) (Some a) 5 (wrap_from (int i)) s =
      Some (Some \<lparr>w_start = int i, w_pos = int (i + n), w_width = int n, w_blank = -1\<rparr>, s') \<and> chx_to s ((sview s)(r \<mapsto> z)) s'"
  using assms(4)
proof (induction n)
  case 0
  have "(sview s)(r \<mapsto> z) = sview s" "chx_inv s" using assms(1) by (simp_all add: wrapping_def map_upd_triv)
  then show ?case using chx_to_refl [of s] by (simp add: wrap_from_def)
next
  case (Suc n)
  let ?l = "\<lparr>w_start = int i, w_pos = int (i + n), w_width = int n, w_blank = -1\<rparr>"
  obtain s1 where s1: "wrap_steps n (Some r) (Some a) 5 (wrap_from (int i)) s = Some (Some ?l, s1)" "chx_to s ((sview s)(r \<mapsto> z)) s1"
    using Suc.IH [OF Suc_leD [OF Suc.prems]] by blast
  have c: "inner_char (x ! (i + n))" "jixwidth (bval (x ! (i + n))) = 1" using assms(3) Suc.prems by auto
  obtain s2 where s2: "wrap_step (Some r) (Some a) 5 ?l s1 = Some (Some (wrap_next x (i + n) ?l), s2)" "chx_to s1 ((sview s1)(r \<mapsto> z)) s2"
    by (rule wrap_step_fits [OF wrapping_to [OF assms(1) s1(2)], of ?l "i + n" 5])
      (use assms(2) Suc.prems c in \<open>auto simp: inner_char_def\<close>)
  have "wrap_next x (i + n) ?l = \<lparr>w_start = int i, w_pos = int (i + Suc n), w_width = int (Suc n), w_blank = -1\<rparr>"
    using c by (simp add: wrap_next_def inner_char_def)
  moreover have "(sview s1)(r \<mapsto> z) = (sview s)(r \<mapsto> z)" using chx_toD(2) [OF s1(2)] by simp
  moreover from this have "chx_to s ((sview s)(r \<mapsto> z)) s2" using chx_to_trans [OF s1(2) s2(2)] by simp
  moreover have "wrap_steps (n + 1) (Some r) (Some a) 5 (wrap_from (int i)) s = Some (Some (wrap_next x (i + n) ?l), s2)"
    using wrap_steps_add [OF s1(1), of 1] s2(1) by simp
  ultimately show ?case by (metis Suc_eq_plus1)
qed

lemma wrap_spins:
  assumes "wrapping r a x z s" and "i + 5 < length x" and "\<forall>k < 6. inner_char (x ! (i + k)) \<and> jixwidth (bval (x ! (i + k))) = 1"
  shows "\<exists>s'. wrap_steps (6 * n) (Some r) (Some a) 5 (wrap_from (int i)) s = Some (Some (wrap_from (int i)), s') \<and>
    chx_to s ((sview s)(r \<mapsto> z @ replicate n (CHR 0x0A))) s'"
proof (induction n)
  case 0
  have "(sview s)(r \<mapsto> z) = sview s" "chx_inv s" using assms(1) by (simp_all add: wrapping_def map_upd_triv)
  then show ?case using chx_to_refl [of s] by simp
next
  case (Suc n)
  let ?z = "z @ replicate n (CHR 0x0A)"
  let ?l = "\<lparr>w_start = int i, w_pos = int (i + 5), w_width = 5, w_blank = -1\<rparr>"
  obtain s1 where s1: "wrap_steps (6 * n) (Some r) (Some a) 5 (wrap_from (int i)) s = Some (Some (wrap_from (int i)), s1)"
      "chx_to s ((sview s)(r \<mapsto> ?z)) s1"
    using Suc by blast
  note w1 = wrapping_to [OF assms(1) s1(2)]
  obtain s2 where s2: "wrap_steps 5 (Some r) (Some a) 5 (wrap_from (int i)) s1 = Some (Some ?l, s2)" "chx_to s1 ((sview s1)(r \<mapsto> ?z)) s2"
    using wrap_reads [OF w1 assms(2,3) order.refl] by (metis of_nat_numeral)
  note w2 = wrapping_to [OF w1 s2(2)]
  have c: "inner_char (x ! (i + 5))" "jixwidth (bval (x ! (i + 5))) = 1" using assms(3) by auto
  obtain s3 where s3: "wrap_step (Some r) (Some a) 5 ?l s2 = Some (Some (wrap_from (int i)), s3)"
      "chx_to s2 ((sview s2)(r \<mapsto> ?z @ between x i i @ [CHR 0x0A])) s3"
    by (rule wrap_step_break [OF w2, of ?l i "i + 5" 5 i]) (use assms(2) c in \<open>auto simp: inner_char_def\<close>)
  have "wrap_steps (6 * n + (5 + 1)) (Some r) (Some a) 5 (wrap_from (int i)) s = Some (Some (wrap_from (int i)), s3)"
    using wrap_steps_add [OF s1(1), of "5 + 1"] wrap_steps_add [OF s2(1), of 1] s3(1) by simp
  moreover have "(sview s2)(r \<mapsto> ?z @ between x i i @ [CHR 0x0A]) = (sview s)(r \<mapsto> z @ replicate (Suc n) (CHR 0x0A))"
    using chx_toD(2) [OF s1(2)] chx_toD(2) [OF s2(2)] by (simp add: replicate_append_same)
  then have "chx_to s ((sview s)(r \<mapsto> z @ replicate (Suc n) (CHR 0x0A))) s3"
    using chx_to_trans [OF s1(2) chx_to_trans [OF s2(2) s3(2)]] by simp
  moreover have "6 * Suc n = 6 * n + (5 + 1)" by simp
  ultimately show ?case by metis
qed

text \<open>
  C30. With a width of five columns or less \<open>wrap_text\<close> does not end on a word of more than five characters: the line
  is cut before its first character, so that every sixth pass is back at the start of the word with one more
  newline in the result, without end.
\<close>

theorem wrap_text_spins:
  assumes "chx_inv s" "blanks s \<noteq> None" "NUL \<notin> set (int4_blanks s)" and "sview s r = Some z" "sview s a = Some x" "r \<noteq> a"
    and "read_int (int4_blanks s) x 0 = Some (v, e)" and "v \<le> 5" and "e + 6 < length x"
    and "\<forall>k < 6. inner_char (x ! (Suc e + k)) \<and> jixwidth (bval (x ! (Suc e + k))) = 1"
  shows "\<exists>s1. chxint4 (Some a) (Some 0) s = Some (v, Some (int e), s1) \<and>
    (\<forall>n. \<exists>s'. wrap_steps (6 * n) (Some r) (Some a) 5 (wrap_from (int (Suc e))) s1 = Some (Some (wrap_from (int (Suc e))), s') \<and>
      sview s' = (sview s)(r \<mapsto> z @ replicate n (CHR 0x0A))) \<and>
    wrap_text (Some r) (Some a) s = None"
proof -
  obtain s1 where s1: "chxint4 (Some a) (Some 0) s = Some (v, Some (int e), s1)" "wrapping r a x z s1" "sview s1 = sview s"
    by (rule wrap_width [OF assms(1-7)])
  have sp: "\<exists>s'. wrap_steps (6 * n) (Some r) (Some a) 5 (wrap_from (int (Suc e))) s1 = Some (Some (wrap_from (int (Suc e))), s') \<and>
      chx_to s1 ((sview s1)(r \<mapsto> z @ replicate n (CHR 0x0A))) s'" for n
    by (rule wrap_spins [OF s1(2) _ assms(10)]) (use assms(9) in simp)
  have "wrap_loop (Some r) (Some a) 5 (wrap_from (int (Suc e))) s1 = None"
  proof (rule ccontr)
    assume "\<not> ?thesis"
    then obtain n s' where "wrap_steps n (Some r) (Some a) 5 (wrap_from (int (Suc e))) s1 = Some (None, s')"
      using wrap_loop_steps by blast
    then have "wrap_steps (6 * n) (Some r) (Some a) 5 (wrap_from (int (Suc e))) s1 = Some (None, s')" by (rule wrap_steps_done) simp
    then show False using sp [of n] by auto
  qed
  moreover have "(if v < 5 then 5 else v) = 5" using assms(8) by simp
  ultimately have "wrap_text (Some r) (Some a) s = None" using s1(1) by (simp add: wrap_text_def add.commute)
  moreover have "\<exists>s'. wrap_steps (6 * n) (Some r) (Some a) 5 (wrap_from (int (Suc e))) s1 = Some (Some (wrap_from (int (Suc e))), s') \<and>
      sview s' = (sview s)(r \<mapsto> z @ replicate n (CHR 0x0A))" for n
    using sp [of n] s1(3) chx_toD(2) by metis
  ultimately show ?thesis using s1(1) by blast
qed

theorem wrap_text_spins_witness:
  "\<exists>s1. chxint4 (Some 13) (Some 0) (started_store [[], ''5 member'']) = Some (5, Some (int 1), s1) \<and>
    (\<forall>n. \<exists>s'. wrap_steps (6 * n) (Some 12) (Some 13) 5 (wrap_from (int (Suc 1))) s1 = Some (Some (wrap_from (int (Suc 1))), s') \<and>
      sview s' = (sview (started_store [[], ''5 member'']))(12 \<mapsto> [] @ replicate n (CHR 0x0A))) \<and>
    wrap_text (Some 12) (Some 13) (started_store [[], ''5 member'']) = None"
  by (rule wrap_text_spins [where x = "''5 member''"])
    (simp_all add: started_inv started_sview started_blanks read_int_def in_tab_def is_digit_def digit_def dval_def char_at_def
      bval_def wrap32_def jixwidth_def inner_char_def break_char_def numeral_eq_Suc less_Suc_eq)

end
