(* ===== verification/Filters.thy ===== *)
theory Filters
  imports Namelist Str
begin

text \<open>
  The output filters of the page language (\<open>CV2/sweb\<close>): functions that append a text to the result with some of its
  characters written in another way. \<open>func_t2hbr\<close>, \<open>func_xmlesc\<close>, \<open>cencode\<close> and \<open>urlEncode\<close> read the text value by value; they
  are instances of one contract, the locale \<open>text_filter\<close>. The inverse of \<open>urlEncode\<close> is \<open>strunescape\<close> of \<open>CV2/str\<close>.

  The static chix of a function are a record that is passed in and returned; \<open>nullchix\<close> in its first field means that
  the function has not been called yet.
\<close>

section \<open>The functions\<close>

text \<open>\<open>for (pos=0; (v = chxvalue (arg, pos)); ++pos)\<close> with the condition on \<open>v\<close> and the body as parameters.\<close>

partial_function (option) each_value ::
  "(int \<Rightarrow> bool) \<Rightarrow> (int \<Rightarrow> chx_state \<Rightarrow> chx_state option) \<Rightarrow> Chix \<Rightarrow> int \<Rightarrow> chx_state \<Rightarrow> chx_state option" where
  "each_value go body arg pos s = do {
     (v, s) \<leftarrow> chxvalue arg pos s;
     if go v then do { s \<leftarrow> body v s; each_value go body arg (pos + 1) s } else Some s }"

text \<open>\<open>chxcat (result, c)\<close>, \<open>chxcat (result, CQ(t))\<close> and \<open>chxcatval (result, type, v)\<close> as statements.\<close>

definition cat_chix :: "Chix \<Rightarrow> Chix \<Rightarrow> chx_state \<Rightarrow> chx_state option" where
  "cat_chix result c s = do { (_, s) \<leftarrow> chxcat result c s; Some s }"

definition cat_text :: "Chix \<Rightarrow> string \<Rightarrow> chx_state \<Rightarrow> chx_state option" where
  "cat_text result t s = do { (q, s) \<leftarrow> CQ t s; cat_chix result q s }"

definition cat_value :: "Chix \<Rightarrow> int \<Rightarrow> int \<Rightarrow> chx_state \<Rightarrow> chx_state option" where
  "cat_value result type v s = do { (_, s) \<leftarrow> chxcatval result type v s; Some s }"

text \<open>\<open>chxalsub (CQ(t), 0, n)\<close>, and a row of such assignments to statics.\<close>

definition static_str :: "string \<Rightarrow> int \<Rightarrow> chx_state \<Rightarrow> (Chix \<times> chx_state) option" where
  "static_str t n s = do { (q, s) \<leftarrow> CQ t s; chxalsub q 0 n s }"

fun static_strs :: "string list \<Rightarrow> int \<Rightarrow> chx_state \<Rightarrow> (Chix list \<times> chx_state) option" where
  "static_strs [] n s = Some ([], s)"
| "static_strs (t # ts) n s = do {
     (c, s) \<leftarrow> static_str t n s;
     (cs, s) \<leftarrow> static_strs ts n s;
     Some (c # cs, s) }"

record hbr_t =
  h_br :: Chix
  h_lt :: Chix
  h_gt :: Chix
  h_amp :: Chix
  h_quot :: Chix
  h_bold1 :: Chix
  h_bold0 :: Chix

definition hbr_init :: "hbr_t \<Rightarrow> chx_state \<Rightarrow> (hbr_t \<times> chx_state) option" where
  "hbr_init h s =
     (if h_br h \<noteq> nullchix then Some (h, s)
      else do {
        (cs, s) \<leftarrow> static_strs [''<BR>'' @ [CHR 0x0A], ''&lt;'', ''&gt;'', ''&amp;'', ''&quot;'', ''<B>'', ''</B>''] 10 s;
        Some (\<lparr>h_br = cs ! 0, h_lt = cs ! 1, h_gt = cs ! 2, h_amp = cs ! 3, h_quot = cs ! 4, h_bold1 = cs ! 5, h_bold0 = cs ! 6\<rparr>, s) })"

definition hbr_value :: "hbr_t \<Rightarrow> Chix \<Rightarrow> int \<Rightarrow> int \<Rightarrow> chx_state \<Rightarrow> chx_state option" where
  "hbr_value h result type v s =
     (if v = 10 then cat_chix result (h_br h) s
      else if v = 60 then cat_chix result (h_lt h) s
      else if v = 62 then cat_chix result (h_gt h) s
      else if v = 38 then cat_chix result (h_amp h) s
      else if v = 34 then cat_chix result (h_quot h) s
      else if v = 1 then cat_chix result (h_bold1 h) s
      else if v = 2 then cat_chix result (h_bold0 h) s
      else cat_value result type v s)"

definition func_t2hbr :: "Chix \<Rightarrow> Chix \<Rightarrow> hbr_t \<Rightarrow> chx_state \<Rightarrow> (int \<times> hbr_t \<times> chx_state) option" where
  "func_t2hbr result arg h s = do {
     (h, s) \<leftarrow> hbr_init h s;
     (type, s) \<leftarrow> chxtype arg s;
     s \<leftarrow> each_value (\<lambda>v. v \<noteq> 0) (hbr_value h result type) arg 0 s;
     Some (1, h, s) }"

text \<open>\<open>sprintf\<close> with \<open>%x\<close> and \<open>%02x\<close>: an \<open>int\<close> is printed as an unsigned 32-bit number.\<close>

definition hex_char :: "nat \<Rightarrow> char" where
  "hex_char d = ''0123456789abcdef'' ! d"

fun show_hex :: "nat \<Rightarrow> string" where
  "show_hex n = (if n < 16 then [hex_char n] else show_hex (n div 16) @ [hex_char (n mod 16)])"

declare show_hex.simps [simp del]

definition hex_text :: "int \<Rightarrow> string" where
  "hex_text v = show_hex (nat (v mod 2 ^ 32))"

definition hex2_text :: "int \<Rightarrow> string" where
  "hex2_text v = (let t = hex_text v in if length t < 2 then CHR ''0'' # t else t)"

record xml_t =
  x_amp :: Chix
  x_lt :: Chix
  x_gt :: Chix

definition xml_init :: "xml_t \<Rightarrow> chx_state \<Rightarrow> (xml_t \<times> chx_state) option" where
  "xml_init h s =
     (if x_amp h \<noteq> nullchix then Some (h, s)
      else do {
        (cs, s) \<leftarrow> static_strs [''&amp;'', ''&lt;'', ''&gt;''] 10 s;
        Some (\<lparr>x_amp = cs ! 0, x_lt = cs ! 1, x_gt = cs ! 2\<rparr>, s) })"

definition xml_value :: "xml_t \<Rightarrow> Chix \<Rightarrow> int \<Rightarrow> int \<Rightarrow> chx_state \<Rightarrow> chx_state option" where
  "xml_value h result type v s =
     (if v = 38 then cat_chix result (x_amp h) s
      else if v = 60 then cat_chix result (x_lt h) s
      else if v = 62 then cat_chix result (x_gt h) s
      else if v = 10 \<or> v = 9 then cat_value result type v s
      else if v < 32 then cat_text result (''&#xE0'' @ hex2_text v @ '';'') s
      else if v > 126 then cat_text result (''&#x'' @ hex_text v @ '';'') s
      else cat_value result type v s)"

definition func_xmlesc :: "Chix \<Rightarrow> Chix \<Rightarrow> xml_t \<Rightarrow> chx_state \<Rightarrow> (int \<times> xml_t \<times> chx_state) option" where
  "func_xmlesc result arg h s = do {
     (type, s) \<leftarrow> chxtype arg s;
     (h, s) \<leftarrow> xml_init h s;
     s \<leftarrow> each_value (\<lambda>v. v \<noteq> 0) (xml_value h result type) arg 0 s;
     Some (1, h, s) }"

text \<open>\<open>cencode\<close>: the static \<open>coded\<close> is built on the first call only.\<close>

definition cenc_value :: "Chix \<Rightarrow> int \<Rightarrow> Chix \<Rightarrow> int \<Rightarrow> int \<Rightarrow> chx_state \<Rightarrow> chx_state option" where
  "cenc_value coded cval result type v s = (if v = cval then cat_chix result coded s else cat_value result type v s)"

definition cencode :: "Chix \<Rightarrow> int \<Rightarrow> Chix \<Rightarrow> Chix \<Rightarrow> chx_state \<Rightarrow> (int \<times> Chix \<times> chx_state) option" where
  "cencode result cval arg coded s = do {
     (coded, s) \<leftarrow> (if coded = nullchix then static_str (CHR ''%'' # hex2_text cval) 10 s else Some (coded, s));
     (type, s) \<leftarrow> chxtype arg s;
     s \<leftarrow> each_value (\<lambda>v. v \<noteq> 0) (cenc_value coded cval result type) arg 0 s;
     Some (1, coded, s) }"

definition isalnum :: "int \<Rightarrow> bool" where
  "isalnum v \<longleftrightarrow> 48 \<le> v \<and> v \<le> 57 \<or> 65 \<le> v \<and> v \<le> 90 \<or> 97 \<le> v \<and> v \<le> 122"

definition url_value :: "Chix \<Rightarrow> int \<Rightarrow> int \<Rightarrow> chx_state \<Rightarrow> chx_state option" where
  "url_value outChix width v s =
     (if isalnum v \<or> v = 45 \<or> v = 95 \<or> v = 46 \<or> v = 126 then cat_value outChix width v s
      else cat_text outChix (CHR ''%'' # hex2_text v) s)"

definition urlEncode :: "Chix \<Rightarrow> Chix \<Rightarrow> chx_state \<Rightarrow> chx_state option" where
  "urlEncode inChix outChix s = do {
     (_, s) \<leftarrow> chxclear outChix s;
     (width, s) \<leftarrow> chxtype inChix s;
     each_value (\<lambda>v. v > 0) (url_value outChix width) inChix 0 s }"

section \<open>What a filter touches\<close>

text \<open>No string but those of \<open>R\<close> changes, and none is freed; new ones may appear.\<close>

definition touches :: "nat set \<Rightarrow> chx_state \<Rightarrow> chx_state \<Rightarrow> bool" where
  "touches R s s' \<longleftrightarrow> chx_inv s' \<and> globs s' = globs s \<and> next_adr s \<le> next_adr s' \<and>
     (\<forall>b x. sview s b = Some x \<longrightarrow> (\<exists>y. sview s' b = Some y \<and> (b \<notin> R \<longrightarrow> y = x)))"

lemma touches_refl: "chx_inv s \<Longrightarrow> touches R s s"
  by (simp add: touches_def)

lemma touches_trans:
  assumes "touches R s s1" and "touches R s1 s2"
  shows "touches R s s2"
  unfolding touches_def
proof (intro conjI allI impI)
  fix b x
  assume "sview s b = Some x"
  then obtain y where y: "sview s1 b = Some y" "b \<notin> R \<longrightarrow> y = x" using assms(1) by (auto simp: touches_def)
  then obtain z where "sview s2 b = Some z" "b \<notin> R \<longrightarrow> z = y" using assms(2) by (auto simp: touches_def)
  then show "\<exists>y. sview s2 b = Some y \<and> (b \<notin> R \<longrightarrow> y = x)" using y by auto
qed (use assms in \<open>auto simp: touches_def\<close>)

lemma touches_mono: "touches R s s' \<Longrightarrow> R \<subseteq> R' \<Longrightarrow> touches R' s s'"
  unfolding touches_def by (meson subsetD)

lemma touches_upd: "chx_to s ((sview s)(a \<mapsto> x)) s' \<Longrightarrow> a \<in> R \<Longrightarrow> touches R s s'"
  by (auto simp: touches_def chx_to_def)

lemma touches_new: "chx_inv s \<Longrightarrow> chx_to s ((sview s)(a \<mapsto> x)) s' \<Longrightarrow> next_adr s \<le> a \<Longrightarrow> touches R s s'"
  using live_less by (fastforce simp: touches_def chx_to_def)

lemma touches_read: "chx_to s (sview s) s' \<Longrightarrow> touches R s s'"
  by (auto simp: touches_def chx_to_def)

lemma touches_keeps: "touches R s s' \<Longrightarrow> sview s b = Some x \<Longrightarrow> b \<notin> R \<Longrightarrow> sview s' b = Some x"
  by (fastforce simp: touches_def)

lemma touches_inv: "touches R s s' \<Longrightarrow> chx_inv s'"
  by (simp add: touches_def)

text \<open>The slot of \<open>CQ\<close>.\<close>

definition quick :: "nat \<Rightarrow> chx_state \<Rightarrow> bool" where
  "quick q s \<longleftrightarrow> chx_inv s \<and> ctab s ! 0 = Some q \<and> sview s q \<noteq> None"

lemma quick_touches: "quick q s \<Longrightarrow> touches R s s' \<Longrightarrow> quick q s'"
  using globs_tabs [of s' s] by (fastforce simp: quick_def touches_def)

lemma quick_inv: "quick q s \<Longrightarrow> chx_inv s"
  by (simp add: quick_def)

lemma CQ_ok:
  assumes "quick q s" and "NUL \<notin> set t"
  obtains s' where "CQ t s = Some (Some q, s')" "sview s' q = Some t" "touches {q} s s'"
proof -
  obtain y where y: "sview s q = Some y" using assms(1) by (auto simp: quick_def)
  obtain s' where s': "chxquick (Some t) 0 s = Some (Some q, s')" "chx_to s ((sview s)(q \<mapsto> t)) s'"
    by (rule chxquick_ok [of s 0 q y t]) (use assms y in \<open>auto simp: quick_def\<close>)
  then show thesis using that touches_upd [OF s'(2), of "{q}"] chx_toD(2) [OF s'(2)] by (simp add: CQ_def)
qed

lemma static_str_ok:
  assumes q: "quick q s" and t: "NUL \<notin> set t" "int (length t) \<le> n"
  obtains a s' where "static_str t n s = Some (Some a, s')" "next_adr s \<le> a" "sview s' a = Some t" "touches {q} s s'"
proof -
  obtain s1 where s1: "CQ t s = Some (Some q, s1)" "sview s1 q = Some t" "touches {q} s s1" by (rule CQ_ok [OF q t(1)])
  obtain s2 where s2: "chxalsub (Some q) 0 n s1 = Some (Some (next_adr s1), s2)" "chx_to s1 ((sview s1)(next_adr s1 \<mapsto> sub_of t 0 n)) s2"
    by (rule chxalsub_ok [OF touches_inv [OF s1(3)] s1(2)])
  have "sub_of t 0 n = t" using t(2) by (simp add: sub_of_def) linarith
  then have "sview s2 (next_adr s1) = Some t" using chx_toD(2) [OF s2(2)] by simp
  moreover have "touches {q} s s2" using touches_trans [OF s1(3)] touches_new [OF touches_inv [OF s1(3)] s2(2)] by blast
  moreover have "next_adr s \<le> next_adr s1" using s1(3) by (simp add: touches_def)
  ultimately show thesis using that s1(1) s2(1) by (simp add: static_str_def)
qed

text \<open>The static strings of a filter: live, and outside what the filter writes.\<close>

definition stocked :: "nat set \<Rightarrow> (Chix \<times> string) list \<Rightarrow> chx_state \<Rightarrow> bool" where
  "stocked R ps s \<longleftrightarrow> (\<forall>(c, t) \<in> set ps. \<exists>a. c = Some a \<and> a \<notin> R \<and> sview s a = Some t)"

lemma stocked_Nil [simp]: "stocked R [] s"
  by (simp add: stocked_def)

lemma stocked_touches: "stocked R ps s \<Longrightarrow> touches R s s' \<Longrightarrow> stocked R ps s'"
  unfolding stocked_def using touches_keeps by fastforce

lemma stocked_get:
  assumes "stocked R ps s" and "(c, t) \<in> set ps"
  obtains a where "c = Some a" "a \<notin> R" "sview s a = Some t"
  using assms unfolding stocked_def by blast

text \<open>One more static string.\<close>

lemma stock_more:
  assumes q: "quick q s" "q \<in> R" and st: "stocked R ps s" and R: "\<forall>b \<in> R. b < next_adr s" and t: "NUL \<notin> set t" "int (length t) \<le> n"
  obtains c s' where "static_str t n s = Some (c, s')" "quick q s'" "stocked R ((c, t) # ps) s'" "touches {q} s s'" "\<forall>b \<in> R. b < next_adr s'" "c \<noteq> nullchix"
proof -
  obtain a s' where s': "static_str t n s = Some (Some a, s')" "next_adr s \<le> a" "sview s' a = Some t" "touches {q} s s'"
    by (rule static_str_ok [OF q(1) t])
  have "a \<notin> R" using s'(2) R by force
  then have "stocked R ((Some a, t) # ps) s'"
    using s'(3) stocked_touches [OF st touches_mono [OF s'(4)]] q(2) by (simp add: stocked_def)
  moreover have "\<forall>b \<in> R. b < next_adr s'" using R s'(4) by (auto simp: touches_def)
  ultimately show thesis using that s' quick_touches [OF q(1)] by simp
qed

lemma static_strs_ok:
  assumes "quick q s" and "q \<in> R" and "\<forall>b \<in> R. b < next_adr s" and "\<forall>t \<in> set ts. NUL \<notin> set t \<and> int (length t) \<le> n"
  shows "\<exists>cs s'. static_strs ts n s = Some (cs, s') \<and> length cs = length ts \<and> nullchix \<notin> set cs \<and> quick q s' \<and>
    stocked R (zip cs ts) s' \<and> touches {q} s s' \<and> (\<forall>b \<in> R. b < next_adr s')"
  using assms
proof (induction ts arbitrary: s)
  case Nil
  then show ?case using touches_refl [OF quick_inv [OF Nil(1)]] by simp
next
  case (Cons t ts)
  obtain c s1 where 1: "static_str t n s = Some (c, s1)" "quick q s1" "stocked R [(c, t)] s1" "touches {q} s s1"
      "\<forall>b \<in> R. b < next_adr s1" "c \<noteq> nullchix"
    by (rule stock_more [OF Cons.prems(1,2) stocked_Nil Cons.prems(3), of t n]) (use Cons.prems(4) in auto)
  obtain cs s2 where 2: "static_strs ts n s1 = Some (cs, s2)" "length cs = length ts" "nullchix \<notin> set cs" "quick q s2"
      "stocked R (zip cs ts) s2" "touches {q} s1 s2" "\<forall>b \<in> R. b < next_adr s2"
    using Cons.IH [OF 1(2) Cons.prems(2) 1(5)] Cons.prems(4) by auto
  have "stocked R [(c, t)] s2" using stocked_touches [OF 1(3) touches_mono [OF 2(6)]] Cons.prems(2) by simp
  then have "stocked R (zip (c # cs) (t # ts)) s2" using 2(5) by (simp add: stocked_def)
  then show ?case using 1 2 touches_trans [OF 1(4) 2(6)] by auto
qed

lemma quick_live: "quick q s \<Longrightarrow> sview s r = Some z \<Longrightarrow> \<forall>b \<in> {r, q}. b < next_adr s"
  using live_less [of s] by (auto simp: quick_def)

lemma cat_chix_ok:
  assumes "chx_inv s" and "sview s r = Some z" and "sview s a = Some t" and "a \<noteq> r"
  obtains s' where "cat_chix (Some r) (Some a) s = Some s'" "sview s' r = Some (z @ t)" "touches {r} s s'"
proof -
  obtain s' where s': "chxcat (Some r) (Some a) s = Some (1, s')" "chx_to s ((sview s)(r \<mapsto> z @ t)) s'"
    by (rule chxcat_ok [OF assms(1,2,3)]) (use assms(4) in auto)
  then show thesis using that chx_toD(2) [OF s'(2)] touches_upd [OF s'(2), of "{r}"] by (simp add: cat_chix_def)
qed

lemma cat_value_ok:
  assumes "chx_inv s" and "sview s r = Some z" and "c \<noteq> NUL"
  obtains s' where "cat_value (Some r) ty (bval c) s = Some s'" "sview s' r = Some (z @ [c])" "touches {r} s s'"
proof -
  obtain s' where s': "chxcatval (Some r) ty (bval c) s = Some (1, s')" "chx_to s ((sview s)(r \<mapsto> z @ [byte (bval c)])) s'"
    by (rule chxcatval_ok [OF assms(1,2), of "bval c" ty]) (use assms(3) in auto)
  then show thesis using that chx_toD(2) [OF s'(2)] touches_upd [OF s'(2), of "{r}"] by (simp add: cat_value_def)
qed

lemma cat_text_ok:
  assumes q: "quick q s" and r: "sview s r = Some z" "q \<noteq> r" and t: "NUL \<notin> set t"
  obtains s' where "cat_text (Some r) t s = Some s'" "sview s' r = Some (z @ t)" "touches {r, q} s s'"
proof -
  obtain s1 where s1: "CQ t s = Some (Some q, s1)" "sview s1 q = Some t" "touches {q} s s1" by (rule CQ_ok [OF q t])
  have r1: "sview s1 r = Some z" using touches_keeps [OF s1(3) r(1)] r(2) by simp
  obtain s2 where s2: "cat_chix (Some r) (Some q) s1 = Some s2" "sview s2 r = Some (z @ t)" "touches {r} s1 s2"
    by (rule cat_chix_ok [OF touches_inv [OF s1(3)] r1 s1(2) r(2)])
  have "touches {r, q} s s2" using touches_trans [OF touches_mono [OF s1(3)] touches_mono [OF s2(3)], of "{r, q}"] by simp
  then show thesis using that s1(1) s2 by (simp add: cat_text_def)
qed

section \<open>Filters value by value\<close>

text \<open>
  The contract of the body of a loop over the values: it appends the code of the value to the result \<open>r\<close> and
  writes nothing but the result and the slot \<open>q\<close> of \<open>CQ\<close>. The loop then appends the codes of the whole text.
\<close>

locale text_filter =
  fixes body :: "nat \<Rightarrow> int \<Rightarrow> chx_state \<Rightarrow> chx_state option" and code :: "char \<Rightarrow> string" and stock :: "(Chix \<times> string) list"
  assumes body_ok: "quick q s \<Longrightarrow> q \<noteq> r \<Longrightarrow> stocked {r, q} stock s \<Longrightarrow> sview s r = Some z \<Longrightarrow> c \<noteq> NUL \<Longrightarrow>
    \<exists>s'. body r (bval c) s = Some s' \<and> sview s' r = Some (z @ code c) \<and> touches {r, q} s s'"
begin

lemma each_from:
  assumes "quick q s" and "q \<noteq> r" and "stocked {r, q} stock s" and "sview s r = Some z" and "sview s a = Some x" and "a \<notin> {r, q}"
    and "k \<le> length x" and go: "\<not> go 0" "\<forall>v > 0. go v"
  shows "\<exists>s'. each_value go (body r) (Some a) (int k) s = Some s' \<and> sview s' r = Some (z @ concat (map code (drop k x))) \<and> touches {r, q} s s'"
  using assms(1-7)
proof (induction "length x - k" arbitrary: k z s)
  case 0
  obtain s' where s': "chxvalue (Some a) (int k) s = Some (char_at x (int k), s')" "chx_to s (sview s) s'"
    by (rule chxvalue_ok [OF quick_inv [OF 0(2)] 0(6), of "int k"]) simp
  have "char_at x (int k) = 0" using 0 by (simp add: char_at_def)
  then have "each_value go (body r) (Some a) (int k) s = Some s'" using s'(1) go(1) by (subst each_value.simps) simp
  moreover have "sview s' r = Some z" using chx_toD(2) [OF s'(2)] 0(5) by simp
  ultimately show ?case using touches_read [OF s'(2)] 0 by simp
next
  case (Suc n)
  then have k: "k < length x" by simp
  obtain s1 where s1: "chxvalue (Some a) (int k) s = Some (char_at x (int k), s1)" "chx_to s (sview s) s1"
    by (rule chxvalue_ok [OF quick_inv [OF Suc.prems(1)] Suc.prems(5), of "int k"]) simp
  have "x ! k \<noteq> NUL" using nth_mem [OF k] live_no_NUL [OF Suc.prems(5)] by force
  then have c: "char_at x (int k) = bval (x ! k)" "x ! k \<noteq> NUL" using k by (simp_all add: char_at_def)
  then have "0 < bval (x ! k)" using bval_range(1) [of "x ! k"] bval_eq_0 [of "x ! k"] by linarith
  then have g: "go (bval (x ! k))" using go(2) by blast
  note r1 = touches_read [OF s1(2), of "{r, q}"]
  obtain s2 where s2: "body r (bval (x ! k)) s1 = Some s2" "sview s2 r = Some (z @ code (x ! k))" "touches {r, q} s1 s2"
    using body_ok [OF quick_touches [OF Suc.prems(1) r1] Suc.prems(2) stocked_touches [OF Suc.prems(3) r1], of z "x ! k"]
      chx_toD(2) [OF s1(2)] Suc.prems(4) c(2) by auto
  note r2 = touches_trans [OF r1 s2(3)]
  have "\<exists>s'. each_value go (body r) (Some a) (int (Suc k)) s2 = Some s' \<and>
      sview s' r = Some ((z @ code (x ! k)) @ concat (map code (drop (Suc k) x))) \<and> touches {r, q} s2 s'"
    by (rule Suc.hyps(1) [OF _ quick_touches [OF Suc.prems(1) r2] Suc.prems(2) stocked_touches [OF Suc.prems(3) r2] s2(2)
          touches_keeps [OF r2 Suc.prems(5,6)] Suc.prems(6)]) (use Suc.hyps(2) k in auto)
  then obtain s3 where s3: "each_value go (body r) (Some a) (int (Suc k)) s2 = Some s3"
      "sview s3 r = Some ((z @ code (x ! k)) @ concat (map code (drop (Suc k) x)))" "touches {r, q} s2 s3"
    by blast
  have "each_value go (body r) (Some a) (int k) s = Some s3"
    using s1(1) c g s2(1) s3(1) by (subst each_value.simps) (simp add: add.commute)
  moreover have "drop k x = x ! k # drop (Suc k) x" using k by (simp add: Cons_nth_drop_Suc)
  ultimately show ?case using s3(2) touches_trans [OF r2 s3(3)] by auto
qed

lemma each_codes:
  assumes "quick q s" and "q \<noteq> r" and "stocked {r, q} stock s" and "sview s r = Some z" and "sview s a = Some x" and "a \<notin> {r, q}"
    and go: "\<not> go 0" "\<forall>v > 0. go v"
  obtains s' where "each_value go (body r) (Some a) 0 s = Some s'" "sview s' r = Some (z @ concat (map code x))" "touches {r, q} s s'"
  using each_from [OF assms(1-6) le0 go] by auto

end

text \<open>The bodies append a static string or the value itself.\<close>

lemma put_stock:
  assumes "quick q s" and "stocked {r, q} ps s" and "sview s r = Some z" and "(c, t) \<in> set ps"
  shows "\<exists>s'. cat_chix (Some r) c s = Some s' \<and> sview s' r = Some (z @ t) \<and> touches {r, q} s s'"
proof -
  obtain a where a: "c = Some a" "a \<notin> {r, q}" "sview s a = Some t" by (rule stocked_get [OF assms(2,4)])
  obtain s' where s': "cat_chix (Some r) (Some a) s = Some s'" "sview s' r = Some (z @ t)" "touches {r} s s'"
    by (rule cat_chix_ok [OF quick_inv [OF assms(1)] assms(3) a(3)]) (use a(2) in auto)
  then show ?thesis using a(1) touches_mono [OF s'(3), of "{r, q}"] by auto
qed

lemma put_value:
  assumes "quick q s" and "sview s r = Some z" and "c \<noteq> NUL"
  shows "\<exists>s'. cat_value (Some r) ty (bval c) s = Some s' \<and> sview s' r = Some (z @ [c]) \<and> touches {r, q} s s'"
proof -
  obtain s' where s': "cat_value (Some r) ty (bval c) s = Some s'" "sview s' r = Some (z @ [c])" "touches {r} s s'"
    by (rule cat_value_ok [OF quick_inv [OF assms(1)] assms(2,3)])
  then show ?thesis using touches_mono [OF s'(3), of "{r, q}"] by auto
qed

lemma put_text:
  assumes "quick q s" and "q \<noteq> r" and "sview s r = Some z" and "NUL \<notin> set t"
  shows "\<exists>s'. cat_text (Some r) t s = Some s' \<and> sview s' r = Some (z @ t) \<and> touches {r, q} s s'"
  using cat_text_ok [OF assms(1,3,2,4)] by metis

definition hbr_code :: "char \<Rightarrow> string" where
  "hbr_code c =
     (if c = CHR 0x0A then ''<BR>'' @ [CHR 0x0A] else if c = CHR ''<'' then ''&lt;'' else if c = CHR ''>'' then ''&gt;''
      else if c = CHR ''&'' then ''&amp;'' else if c = CHR 0x22 then ''&quot;''
      else if c = CHR 0x01 then ''<B>'' else if c = CHR 0x02 then ''</B>'' else [c])"

definition hbr_stock :: "hbr_t \<Rightarrow> (Chix \<times> string) list" where
  "hbr_stock h = zip [h_br h, h_lt h, h_gt h, h_amp h, h_quot h, h_bold1 h, h_bold0 h]
     [''<BR>'' @ [CHR 0x0A], ''&lt;'', ''&gt;'', ''&amp;'', ''&quot;'', ''<B>'', ''</B>'']"

lemma bval_is: "bval c = v \<longleftrightarrow> c = byte v" if "0 \<le> v" "v < 256"
  using that bval_byte by (metis byte_bval)

lemma byte_codes [simp]:
  "byte 10 = CHR 0x0A" "byte 60 = CHR ''<''" "byte 62 = CHR ''>''" "byte 38 = CHR ''&''" "byte 34 = CHR 0x22" "byte 1 = CHR 0x01" "byte 2 = CHR 0x02"
  "byte 9 = CHR 0x09" "byte 39 = CHR 0x27" "byte 13 = CHR 0x0D" "byte 92 = CHR 0x5C" "byte 45 = CHR ''-''" "byte 95 = CHR ''_''"
  "byte 46 = CHR ''.''" "byte 126 = CHR ''~''" "byte 110 = CHR ''n''" "byte 114 = CHR ''r''"
  by (simp_all add: bval_is [symmetric] eq_commute [of "byte _"] bval_def)

interpretation hbr: text_filter "\<lambda>r. hbr_value h (Some r) ty" hbr_code "hbr_stock h" for h ty
proof
  fix q s r z c
  assume *: "quick q s" "stocked {r, q} (hbr_stock h) s" "sview s r = Some z" "c \<noteq> NUL"
  note put = put_stock [OF *(1-3)] put_value [OF *(1,3,4)]
  show "\<exists>s'. hbr_value h (Some r) ty (bval c) s = Some s' \<and> sview s' r = Some (z @ hbr_code c) \<and> touches {r, q} s s'"
    by (simp add: hbr_value_def hbr_code_def bval_is put hbr_stock_def)
qed

text \<open>The first call stocks the static strings; every call finds them.\<close>

definition hbr_ready :: "nat \<Rightarrow> nat \<Rightarrow> hbr_t \<Rightarrow> chx_state \<Rightarrow> bool" where
  "hbr_ready r q h s \<longleftrightarrow> h_br h = nullchix \<or> stocked {r, q} (hbr_stock h) s"

lemma hbr_init_ok:
  assumes q: "quick q s" and r: "sview s r = Some z" and h: "hbr_ready r q h s"
  obtains h' s' where "hbr_init h s = Some (h', s')" "quick q s'" "stocked {r, q} (hbr_stock h') s'" "touches {q} s s'"
proof (cases "h_br h = nullchix")
  case False
  then show thesis using that [of h s] h q touches_refl [OF quick_inv [OF q]] by (auto simp: hbr_init_def hbr_ready_def)
next
  case True
  let ?ts = "[''<BR>'' @ [CHR 0x0A], ''&lt;'', ''&gt;'', ''&amp;'', ''&quot;'', ''<B>'', ''</B>'']"
  obtain cs s' where cs: "static_strs ?ts 10 s = Some (cs, s')" "length cs = length ?ts" "quick q s'"
      "stocked {r, q} (zip cs ?ts) s'" "touches {q} s s'"
    using static_strs_ok [OF q _ quick_live [OF q r], of ?ts 10] by auto
  let ?h = "\<lparr>h_br = cs ! 0, h_lt = cs ! 1, h_gt = cs ! 2, h_amp = cs ! 3, h_quot = cs ! 4, h_bold1 = cs ! 5, h_bold0 = cs ! 6\<rparr>"
  have "hbr_init h s = Some (?h, s')" using True cs(1) by (simp add: hbr_init_def del: static_strs.simps)
  moreover have "[cs ! 0, cs ! 1, cs ! 2, cs ! 3, cs ! 4, cs ! 5, cs ! 6] = cs"
    using cs(2) by (intro nth_equalityI) (auto simp: less_Suc_eq numeral_eq_Suc)
  then have "stocked {r, q} (hbr_stock ?h) s'" using cs(4) unfolding hbr_stock_def by simp
  ultimately show thesis using that cs(3,5) by blast
qed

lemma touches_pair: "touches {q} s s1 \<Longrightarrow> touches {r, q} s1 s2 \<Longrightarrow> touches {r, q} s s2"
  using touches_trans touches_mono [of "{q}" s s1 "{r, q}"] by blast

lemma func_t2hbr_ok:
  assumes q: "quick q s" "q \<noteq> r" and r: "sview s r = Some z" and a: "sview s a = Some x" "a \<notin> {r, q}" and h: "hbr_ready r q h s"
  obtains h' s' where "func_t2hbr (Some r) (Some a) h s = Some (1, h', s')" "sview s' r = Some (z @ concat (map hbr_code x))"
    "touches {r, q} s s'" "hbr_ready r q h' s'"
proof -
  obtain h' s1 where 1: "hbr_init h s = Some (h', s1)" "quick q s1" "stocked {r, q} (hbr_stock h') s1" "touches {q} s s1"
    by (rule hbr_init_ok [OF q(1) r h])
  have r1: "sview s1 r = Some z" and a1: "sview s1 a = Some x" using touches_keeps [OF 1(4)] r a q(2) by auto
  obtain s2 where 2: "each_value (\<lambda>v. v \<noteq> 0) (hbr_value h' (Some r) THIN) (Some a) 0 s1 = Some s2"
      "sview s2 r = Some (z @ concat (map hbr_code x))" "touches {r, q} s1 s2"
    by (rule hbr.each_codes [OF 1(2) q(2) 1(3) r1 a1 a(2), of "\<lambda>v. v \<noteq> 0" THIN]) auto
  have "func_t2hbr (Some r) (Some a) h s = Some (1, h', s2)"
    using 1(1) chxtype_live [OF quick_inv [OF 1(2)] a1] 2(1) by (simp add: func_t2hbr_def)
  then show thesis using that 2(2) touches_pair [OF 1(4) 2(3)] stocked_touches [OF 1(3) 2(3)] by (simp add: hbr_ready_def)
qed

text \<open>\<open>func_xmlesc\<close>\<close>

definition xml_code :: "char \<Rightarrow> string" where
  "xml_code c =
     (if c = CHR ''&'' then ''&amp;'' else if c = CHR ''<'' then ''&lt;'' else if c = CHR ''>'' then ''&gt;''
      else if c = CHR 0x0A \<or> c = CHR 0x09 then [c]
      else if bval c < 32 then ''&#xE0'' @ hex2_text (bval c) @ '';''
      else if bval c > 126 then ''&#x'' @ hex_text (bval c) @ '';'' else [c])"

definition xml_stock :: "xml_t \<Rightarrow> (Chix \<times> string) list" where
  "xml_stock h = zip [x_amp h, x_lt h, x_gt h] [''&amp;'', ''&lt;'', ''&gt;'']"

lemma hex_char_neq: "d < 16 \<Longrightarrow> hex_char d \<noteq> NUL"
  by (auto simp: hex_char_def less_Suc_eq numeral_eq_Suc)

lemma show_hex_NUL: "NUL \<notin> set (show_hex n)"
proof (induction n rule: show_hex.induct)
  case (1 n)
  then show ?case using hex_char_neq [of n] hex_char_neq [of "n mod 16"] by (subst show_hex.simps) auto
qed

lemma hex_text_NUL: "NUL \<notin> set (hex_text v)" "NUL \<notin> set (hex2_text v)"
  using show_hex_NUL by (simp_all add: hex_text_def hex2_text_def Let_def)

interpretation xml: text_filter "\<lambda>r. xml_value h (Some r) ty" xml_code "xml_stock h" for h ty
proof
  fix q s r z c
  assume *: "quick q s" "q \<noteq> r" "stocked {r, q} (xml_stock h) s" "sview s r = Some z" "c \<noteq> NUL"
  note put = put_stock [OF *(1,3,4)] put_value [OF *(1,4,5)] put_text [OF *(1,2,4)]
  show "\<exists>s'. xml_value h (Some r) ty (bval c) s = Some s' \<and> sview s' r = Some (z @ xml_code c) \<and> touches {r, q} s s'"
    by (simp add: xml_value_def xml_code_def bval_is put xml_stock_def hex_text_NUL)
qed

text \<open>\<open>cencode\<close>: the code of the value is whatever \<open>coded\<close> holds.\<close>

definition cenc_code :: "int \<Rightarrow> string \<Rightarrow> char \<Rightarrow> string" where
  "cenc_code cval t c = (if bval c = cval then t else [c])"

interpretation cenc: text_filter "\<lambda>r. cenc_value coded cval (Some r) ty" "cenc_code cval t" "[(coded, t)]" for coded cval t ty
proof
  fix q s r z c
  assume *: "quick q s" "stocked {r, q} [(coded, t)] s" "sview s r = Some z" "c \<noteq> NUL"
  note put = put_stock [OF *(1-3)] put_value [OF *(1,3,4)]
  show "\<exists>s'. cenc_value coded cval (Some r) ty (bval c) s = Some s' \<and> sview s' r = Some (z @ cenc_code cval t c) \<and> touches {r, q} s s'"
    using put(1) [of coded t] put(2) by (simp add: cenc_value_def cenc_code_def)
qed

text \<open>\<open>urlEncode\<close>\<close>

definition url_plain :: "char \<Rightarrow> bool" where
  "url_plain c \<longleftrightarrow> isalnum (bval c) \<or> c = CHR ''-'' \<or> c = CHR ''_'' \<or> c = CHR ''.'' \<or> c = CHR ''~''"

definition url_code :: "char \<Rightarrow> string" where
  "url_code c = (if url_plain c then [c] else CHR ''%'' # hex2_text (bval c))"

interpretation url: text_filter "\<lambda>r. url_value (Some r) ty" url_code "[]" for ty
proof
  fix q s r z c
  assume *: "quick q s" "q \<noteq> r" "sview s r = Some z" "c \<noteq> NUL"
  note put = put_value [OF *(1,3,4)] put_text [OF *(1,2,3)]
  show "\<exists>s'. url_value (Some r) ty (bval c) s = Some s' \<and> sview s' r = Some (z @ url_code c) \<and> touches {r, q} s s'"
    by (simp add: url_value_def url_code_def url_plain_def bval_is put hex_text_NUL)
qed

definition xml_ready :: "nat \<Rightarrow> nat \<Rightarrow> xml_t \<Rightarrow> chx_state \<Rightarrow> bool" where
  "xml_ready r q h s \<longleftrightarrow> x_amp h = nullchix \<or> stocked {r, q} (xml_stock h) s"

lemma xml_init_ok:
  assumes q: "quick q s" and r: "sview s r = Some z" and h: "xml_ready r q h s"
  obtains h' s' where "xml_init h s = Some (h', s')" "quick q s'" "stocked {r, q} (xml_stock h') s'" "touches {q} s s'"
proof (cases "x_amp h = nullchix")
  case False
  then show thesis using that [of h s] h q touches_refl [OF quick_inv [OF q]] by (auto simp: xml_init_def xml_ready_def)
next
  case True
  let ?ts = "[''&amp;'', ''&lt;'', ''&gt;'']"
  obtain cs s' where cs: "static_strs ?ts 10 s = Some (cs, s')" "length cs = length ?ts" "quick q s'"
      "stocked {r, q} (zip cs ?ts) s'" "touches {q} s s'"
    using static_strs_ok [OF q _ quick_live [OF q r], of ?ts 10] by auto
  let ?h = "\<lparr>x_amp = cs ! 0, x_lt = cs ! 1, x_gt = cs ! 2\<rparr>"
  have "xml_init h s = Some (?h, s')" using True cs(1) by (simp add: xml_init_def del: static_strs.simps)
  moreover have "[cs ! 0, cs ! 1, cs ! 2] = cs"
    using cs(2) by (intro nth_equalityI) (auto simp: less_Suc_eq numeral_eq_Suc)
  then have "stocked {r, q} (xml_stock ?h) s'" using cs(4) unfolding xml_stock_def by simp
  ultimately show thesis using that cs(3,5) by blast
qed

lemma func_xmlesc_ok:
  assumes q: "quick q s" "q \<noteq> r" and r: "sview s r = Some z" and a: "sview s a = Some x" "a \<notin> {r, q}" and h: "xml_ready r q h s"
  obtains h' s' where "func_xmlesc (Some r) (Some a) h s = Some (1, h', s')" "sview s' r = Some (z @ concat (map xml_code x))"
    "touches {r, q} s s'" "xml_ready r q h' s'"
proof -
  obtain h' s1 where 1: "xml_init h s = Some (h', s1)" "quick q s1" "stocked {r, q} (xml_stock h') s1" "touches {q} s s1"
    by (rule xml_init_ok [OF q(1) r h])
  have r1: "sview s1 r = Some z" and a1: "sview s1 a = Some x" using touches_keeps [OF 1(4)] r a q(2) by auto
  obtain s2 where 2: "each_value (\<lambda>v. v \<noteq> 0) (xml_value h' (Some r) THIN) (Some a) 0 s1 = Some s2"
      "sview s2 r = Some (z @ concat (map xml_code x))" "touches {r, q} s1 s2"
    by (rule xml.each_codes [OF 1(2) q(2) 1(3) r1 a1 a(2), of "\<lambda>v. v \<noteq> 0" THIN]) auto
  have "func_xmlesc (Some r) (Some a) h s = Some (1, h', s2)"
    using 1(1) chxtype_live [OF quick_inv [OF q(1)] a(1)] 2(1) by (simp add: func_xmlesc_def)
  then show thesis using that 2(2) touches_pair [OF 1(4) 2(3)] stocked_touches [OF 1(3) 2(3)] by (simp add: xml_ready_def)
qed

text \<open>A call of \<open>cencode\<close> when the static string is there, and the first call.\<close>

lemma cencode_later:
  assumes q: "quick q s" "q \<noteq> r" and r: "sview s r = Some z" and a: "sview s a = Some x" "a \<notin> {r, q}"
    and k: "stocked {r, q} [(Some k, t)] s"
  obtains s' where "cencode (Some r) v (Some a) (Some k) s = Some (1, Some k, s')" "sview s' r = Some (z @ concat (map (cenc_code v t) x))"
    "touches {r, q} s s'"
proof -
  obtain s2 where 2: "each_value (\<lambda>v. v \<noteq> 0) (cenc_value (Some k) v (Some r) THIN) (Some a) 0 s = Some s2"
      "sview s2 r = Some (z @ concat (map (cenc_code v t) x))" "touches {r, q} s s2"
    by (rule cenc.each_codes [OF q k r a, of "\<lambda>v. v \<noteq> 0" v THIN]) auto
  have "cencode (Some r) v (Some a) (Some k) s = Some (1, Some k, s2)"
    using chxtype_live [OF quick_inv [OF q(1)] a(1)] 2(1) by (simp add: cencode_def)
  then show thesis using that 2(2,3) by blast
qed

lemma hex2_byte: "0 \<le> v \<Longrightarrow> v < 256 \<Longrightarrow> hex2_text v = [hex_char (nat v div 16), hex_char (nat v mod 16)]"
proof -
  assume v: "0 \<le> v" "v < 256"
  then obtain n where n: "v = int n" "n < 256" by (metis nat_eq_iff2 nat_less_numeral_power_cancel_iff of_nat_less_numeral_iff zero_le_imp_eq_int)
  have m: "nat (v mod 2 ^ 32) = n" using v n by simp
  have "hex_char 0 = CHR ''0''" by (simp add: hex_char_def)
  then show ?thesis using n(2) by (cases "n < 16") (simp_all add: hex2_text_def hex_text_def m n(1) show_hex.simps [of n] show_hex.simps [of "n div 16"])
qed

lemma cencode_first:
  assumes q: "quick q s" "q \<noteq> r" and r: "sview s r = Some z" and a: "sview s a = Some x" "a \<notin> {r, q}" and v: "0 \<le> v" "v < 256"
  obtains k s' where "cencode (Some r) v (Some a) nullchix s = Some (1, Some k, s')"
    "sview s' r = Some (z @ concat (map (cenc_code v (CHR ''%'' # hex2_text v)) x))"
    "touches {r, q} s s'" "stocked {r, q} [(Some k, CHR ''%'' # hex2_text v)] s'"
proof -
  let ?t = "CHR ''%'' # hex2_text v"
  have t: "NUL \<notin> set ?t" "int (length ?t) \<le> 10" using hex2_byte [OF v] hex_text_NUL(2) [of v] by simp_all
  obtain c s1 where 1: "static_str ?t 10 s = Some (c, s1)" "quick q s1" "stocked {r, q} [(c, ?t)] s1" "touches {q} s s1" "c \<noteq> nullchix"
    by (rule stock_more [OF q(1) _ stocked_Nil quick_live [OF q(1) r] t]) auto
  obtain k where k: "c = Some k" using 1(5) by auto
  have r1: "sview s1 r = Some z" and a1: "sview s1 a = Some x" using touches_keeps [OF 1(4)] r a q(2) by auto
  obtain s2 where 2: "cencode (Some r) v (Some a) (Some k) s1 = Some (1, Some k, s2)" "sview s2 r = Some (z @ concat (map (cenc_code v ?t) x))"
      "touches {r, q} s1 s2"
    by (rule cencode_later [OF 1(2) q(2) r1 a1 a(2) 1(3) [unfolded k]])
  have "cencode (Some r) v (Some a) nullchix s = Some (1, Some k, s2)" using 1(1) k 2(1) by (simp add: cencode_def)
  then show thesis using that 2(2) touches_pair [OF 1(4) 2(3)] stocked_touches [OF 1(3) 2(3)] k by blast
qed

lemma urlEncode_ok:
  assumes q: "quick q s" "q \<noteq> r" and r: "sview s r = Some z" and a: "sview s a = Some x" "a \<notin> {r, q}"
  obtains s' where "urlEncode (Some a) (Some r) s = Some s'" "sview s' r = Some (concat (map url_code x))" "touches {r, q} s s'"
proof -
  obtain s1 where 1: "chxclear (Some r) s = Some (1, s1)" "chx_to s ((sview s)(r \<mapsto> [])) s1" by (rule chxclear_ok [OF quick_inv [OF q(1)] r])
  note t1 = touches_upd [OF 1(2), of "{r, q}", OF insertI1]
  have r1: "sview s1 r = Some []" and a1: "sview s1 a = Some x" and q1: "quick q s1"
    using chx_toD(2) [OF 1(2)] a quick_touches [OF q(1) t1] by simp_all
  obtain s2 where 2: "each_value (\<lambda>v. v > 0) (url_value (Some r) THIN) (Some a) 0 s1 = Some s2"
      "sview s2 r = Some ([] @ concat (map url_code x))" "touches {r, q} s1 s2"
    by (rule url.each_codes [OF q1 q(2) stocked_Nil r1 a1 a(2), of "\<lambda>v. v > 0" THIN]) auto
  have "urlEncode (Some a) (Some r) s = Some s2"
    using 1(1) chxtype_live [OF quick_inv [OF q1] a1] 2(1) by (simp add: urlEncode_def)
  then show thesis using that 2(2) touches_trans [OF t1 2(3)] by simp
qed

section \<open>Decoding\<close>

text \<open>What \<open>strunescape\<close> makes of a C string.\<close>

fun unesc :: "string \<Rightarrow> string" where
  "unesc [] = []"
| "unesc [c] = [c]"
| "unesc [c, d] = [c, d]"
| "unesc (c # d # e # x) = (if c = CHR ''%'' then byte (strtol16 [d, e]) # unesc x else c # unesc (d # e # x))"

lemma unesc_plain: "c \<noteq> CHR ''%'' \<or> length x < 2 \<Longrightarrow> unesc (c # x) = c # unesc x"
  by (cases "(c # x)" rule: unesc.cases) auto

lemma overwrite: "\<exists>m'. length m' = length m \<and> (m @ c # w)[0 := d] = d # m' @ w"
  by (cases m) (auto intro: exI [of _ "_ @ [c]"])

lemma unescape_step:
  assumes "b = d @ m @ c # y"
  obtains m' where "wr b (int (length d)) v = Some ((d @ [v]) @ m' @ y)" "length m' = length m"
proof -
  obtain m' where m': "length m' = length m" "(m @ c # y)[0 := v] = v # m' @ y" using overwrite [of m c y v] by blast
  have "b[length d := v] = d @ (m @ c # y)[0 := v]" by (simp add: assms list_update_append)
  then show thesis using that [of m'] m' by (simp add: assms)
qed

lemma unescape_loop_ok:
  assumes "NUL \<notin> set y"
  shows "\<exists>b'. unescape_loop (d @ m @ y @ NUL # w) (int (length d + length m)) (int (length d)) = Some b' \<and> prefix (d @ unesc y @ [NUL]) b'"
  using assms
proof (induction "length y" arbitrary: d m y rule: less_induct)
  case less
  let ?b = "d @ m @ y @ NUL # w"
  let ?n = "length d + length m"
  have at: "rd ?b (int (?n + k)) = Some ((y @ NUL # w) ! k)" if "k \<le> length y" for k
    unfolding rd_int using that by (simp add: nth_append)
  show ?case
  proof (cases y)
    case Nil
    obtain m' where "wr ?b (int (length d)) NUL = Some ((d @ [NUL]) @ m' @ w)"
      by (rule unescape_step [of ?b d m NUL w NUL]) (simp add: Nil)
    then show ?thesis using at [of 0] Nil by (subst unescape_loop.simps) simp
  next
    case (Cons c x)
    show ?thesis
    proof (cases "c = CHR ''%'' \<and> 2 \<le> length x")
      case True
      then obtain e f r where y: "y = c # e # f # r" using Cons by (cases x; cases "tl x") auto
      have ne: "c \<noteq> NUL" "e \<noteq> NUL" "f \<noteq> NUL" using less.prems y by auto
      obtain m1 where m1: "wr ?b (int (length d)) (byte (strtol16 [e, f])) = Some ((d @ [byte (strtol16 [e, f])]) @ m1 @ e # f # r @ NUL # w)"
          "length m1 = length m"
        by (rule unescape_step [of ?b d m c "e # f # r @ NUL # w" "byte (strtol16 [e, f])"]) (simp add: y)
      let ?d = "d @ [byte (strtol16 [e, f])]"
      have "length r < length y" "NUL \<notin> set r" using y less.prems by auto
      then obtain b' where b': "unescape_loop (?d @ (m1 @ [e, f]) @ r @ NUL # w) (int (length ?d + length (m1 @ [e, f]))) (int (length ?d)) = Some b'"
          "prefix (?d @ unesc r @ [NUL]) b'"
        using less.hyps by blast
      have "unescape_loop ?b (int ?n) (int (length d)) = Some b'"
        using at [of 0] at [of 1] at [of 2] y True ne m1 b'(1)
        by (subst unescape_loop.simps) (simp add: add.commute add.left_commute)
      then show ?thesis using b'(2) y True by simp
    next
      case False
      have ne: "c \<noteq> NUL" using less.prems Cons by auto
      obtain m1 where m1: "wr ?b (int (length d)) c = Some ((d @ [c]) @ m1 @ x @ NUL # w)" "length m1 = length m"
        by (rule unescape_step [of ?b d m c "x @ NUL # w" c]) (simp add: Cons)
      have "length x < length y" "NUL \<notin> set x" using Cons less.prems by auto
      then obtain b' where b': "unescape_loop ((d @ [c]) @ m1 @ x @ NUL # w) (int (length (d @ [c]) + length m1)) (int (length (d @ [c]))) = Some b'"
          "prefix ((d @ [c]) @ unesc x @ [NUL]) b'"
        using less.hyps by blast
      have go: "unescape_loop ((d @ [c]) @ m1 @ x @ NUL # w) (int ?n + 1) (int (length d) + 1) = Some b'"
        using b'(1) m1(2) by (simp add: add.commute add.left_commute)
      have "unescape_loop ?b (int ?n) (int (length d)) = Some b'"
      proof (cases "c = CHR ''%''")
        case True
        then have short: "x = [] \<or> (\<exists>e. x = [e])" using False by (cases x; cases "tl x") auto
        then show ?thesis
        proof
          assume "x = []"
          then show ?thesis using at [of 0] at [of 1] Cons ne m1(1) go True by (subst unescape_loop.simps) (simp add: add.commute)
        next
          assume "\<exists>e. x = [e]"
          then obtain e where e: "x = [e]" by blast
          moreover have "e \<noteq> NUL" using less.prems Cons e by auto
          ultimately show ?thesis using at [of 0] at [of 1] at [of 2] Cons ne m1(1) go True by (subst unescape_loop.simps) (simp add: add.commute)
        qed
      next
        case F: False
        then show ?thesis using at [of 0] Cons ne m1(1) go by (subst unescape_loop.simps) (simp add: add.commute)
      qed
      moreover have "unesc y = c # unesc x" using unesc_plain [of c x] False Cons by auto
      ultimately show ?thesis using b'(2) by simp
    qed
  qed
qed

lemma strunescape_ok:
  assumes "NUL \<notin> set y"
  obtains b' where "strunescape (y @ NUL # w) = Some (1, b')" "prefix (unesc y @ [NUL]) b'"
proof -
  obtain b' where "unescape_loop (y @ NUL # w) 0 0 = Some b'" "prefix (unesc y @ [NUL]) b'"
    using unescape_loop_ok [OF assms, of "[]" "[]" w] by auto
  then show thesis using that by (simp add: strunescape_def)
qed

text \<open>Two hexadecimal digits are read back.\<close>

lemma hex_digit_char: "d < 16 \<Longrightarrow> hex_digit (hex_char d) = Some (int d)" "d < 16 \<Longrightarrow> \<not> is_space (hex_char d)"
  "d < 16 \<Longrightarrow> hex_char d \<noteq> CHR ''-'' \<and> hex_char d \<noteq> CHR ''+''"
  by (auto simp: hex_char_def less_Suc_eq numeral_eq_Suc hex_digit_def bval_def is_space_def)

lemma bval_nat: "nat (bval c) < 256"
  using bval_range(2) [of c] by linarith

lemma strtol16_hex2: "strtol16 (hex2_text (bval c)) = bval c"
proof -
  define n where "n = nat (bval c)"
  have n: "n < 256" "bval c = int n" using bval_range(1) [of c] bval_nat [of c] by (simp_all add: n_def)
  have d: "n div 16 < 16" "n mod 16 < 16" using n(1) by auto
  have "strtol16 [hex_char (n div 16), hex_char (n mod 16)] = 16 * int (n div 16) + int (n mod 16)"
    using hex_digit_char(1) [OF d(1)] hex_digit_char(1) [OF d(2)] hex_digit_char(2,3) [OF d(1)] by (simp add: strtol16_def)
  also have "\<dots> = int n" by presburger
  finally show ?thesis using hex2_byte [of "bval c"] n by simp
qed

lemma unesc_url: "unesc (url_code c @ y) = c # unesc y"
proof (cases "url_plain c")
  case True
  then have "c \<noteq> CHR ''%''" by (auto simp: url_plain_def isalnum_def bval_def)
  then show ?thesis using True unesc_plain by (simp add: url_code_def)
next
  case False
  have "hex2_text (bval c) = [hex_char (nat (bval c) div 16), hex_char (nat (bval c) mod 16)]" by (rule hex2_byte) simp_all
  then show ?thesis using False strtol16_hex2 [of c] by (simp add: url_code_def)
qed

lemma unesc_url_text: "unesc (concat (map url_code x)) = x"
  by (induction x) (simp_all add: unesc_url)

lemma url_code_chars: "c \<in> set (url_code d) \<Longrightarrow> url_plain c \<or> c = CHR ''%''"
proof -
  assume c: "c \<in> set (url_code d)"
  have "url_plain (hex_char k)" if "k < 16" for k
    using that by (auto simp: hex_char_def less_Suc_eq numeral_eq_Suc url_plain_def isalnum_def bval_def)
  moreover have "nat (bval d) div 16 < 16" using bval_nat [of d] by linarith
  ultimately show ?thesis using c hex2_byte [of "bval d"] by (auto simp: url_code_def split: if_splits)
qed

lemma url_no_NUL: "NUL \<notin> set (concat (map url_code x))"
proof
  assume "NUL \<in> set (concat (map url_code x))"
  then obtain c where "NUL \<in> set (url_code c)" by auto
  then show False using url_code_chars by (fastforce simp: url_plain_def isalnum_def bval_def)
qed

section \<open>Properties\<close>

text \<open>
  C32. What \<open>urlEncode\<close> writes has letters, digits, \<open>- _ . ~\<close> and \<open>%\<close> only, and \<open>strunescape\<close> turns it back into the text, in whatever
  buffer it is put.
\<close>

theorem urlEncode_round_trip:
  assumes "quick q s" and "q \<noteq> r" and "sview s r = Some z" and "sview s a = Some x" and "a \<notin> {r, q}"
  shows "\<exists>y s'. urlEncode (Some a) (Some r) s = Some s' \<and> sview s' r = Some y \<and> touches {r, q} s s' \<and>
    (\<forall>c \<in> set y. url_plain c \<or> c = CHR ''%'') \<and> (\<forall>w. \<exists>b. strunescape (y @ NUL # w) = Some (1, b) \<and> cstr b = x)"
proof -
  obtain s' where s': "urlEncode (Some a) (Some r) s = Some s'" "sview s' r = Some (concat (map url_code x))" "touches {r, q} s s'"
    by (rule urlEncode_ok [OF assms])
  have "\<exists>b. strunescape (concat (map url_code x) @ NUL # w) = Some (1, b) \<and> cstr b = x" for w
  proof -
    obtain b where b: "strunescape (concat (map url_code x) @ NUL # w) = Some (1, b)" "prefix (unesc (concat (map url_code x)) @ [NUL]) b"
      by (rule strunescape_ok [OF url_no_NUL])
    moreover have "cstr b = x" using b(2) live_no_NUL [OF assms(4)] by (auto simp: unesc_url_text elim!: prefixE)
    ultimately show ?thesis by blast
  qed
  moreover have "\<forall>c \<in> set (concat (map url_code x)). url_plain c \<or> c = CHR ''%''" using url_code_chars by auto
  ultimately show ?thesis using s' by blast
qed

lemma started_quick: "\<forall>t \<in> set ts. NUL \<notin> set t \<Longrightarrow> quick 2 (started_store ts)"
  using started_inv [of ts] started_sview [of ts 2] by (simp add: quick_def nth_upt)

theorem urlEncode_round_trip_witness:
  "\<exists>y s'. urlEncode (Some 13) (Some 12) (started_store [''old'', ''a b&c'']) = Some s' \<and> sview s' 12 = Some y \<and>
    touches {12, 2} (started_store [''old'', ''a b&c'']) s' \<and>
    (\<forall>c \<in> set y. url_plain c \<or> c = CHR ''%'') \<and> (\<forall>w. \<exists>b. strunescape (y @ NUL # w) = Some (1, b) \<and> cstr b = ''a b&c'')"
  by (rule urlEncode_round_trip) (simp_all add: started_quick started_sview)

text \<open>
  C36. \<open>cencode\<close> keeps the code of the character it was first called for: a later call for another character puts the
  first one's code in its place.
\<close>

theorem cencode_stale:
  assumes "quick q s" and "q \<noteq> r" and "sview s r = Some z" and "sview s a = Some x" and "a \<notin> {r, q}" and "0 \<le> v0" "v0 < 256"
  shows "\<exists>k s1 s2 z1. cencode (Some r) v0 (Some a) nullchix s = Some (1, Some k, s1) \<and> sview s1 r = Some z1 \<and>
    z1 = z @ concat (map (\<lambda>c. if bval c = v0 then CHR ''%'' # hex2_text v0 else [c]) x) \<and>
    cencode (Some r) v (Some a) (Some k) s1 = Some (1, Some k, s2) \<and>
    sview s2 r = Some (z1 @ concat (map (\<lambda>c. if bval c = v then CHR ''%'' # hex2_text v0 else [c]) x)) \<and> touches {r, q} s s2"
proof -
  obtain k s1 where 1: "cencode (Some r) v0 (Some a) nullchix s = Some (1, Some k, s1)"
      "sview s1 r = Some (z @ concat (map (cenc_code v0 (CHR ''%'' # hex2_text v0)) x))"
      "touches {r, q} s s1" "stocked {r, q} [(Some k, CHR ''%'' # hex2_text v0)] s1"
    by (rule cencode_first [OF assms])
  obtain s2 where 2: "cencode (Some r) v (Some a) (Some k) s1 = Some (1, Some k, s2)"
      "sview s2 r = Some ((z @ concat (map (cenc_code v0 (CHR ''%'' # hex2_text v0)) x)) @ concat (map (cenc_code v (CHR ''%'' # hex2_text v0)) x))"
      "touches {r, q} s1 s2"
    by (rule cencode_later [OF quick_touches [OF assms(1) 1(3)] assms(2) 1(2) touches_keeps [OF 1(3) assms(4,5)] assms(5) 1(4)])
  then show ?thesis using 1 touches_trans [OF 1(3) 2(3)] unfolding cenc_code_def by blast
qed

theorem cencode_stale_witness:
  "\<exists>k s1 s2 z1. cencode (Some 12) 43 (Some 13) nullchix (started_store [[], ''1+2'']) = Some (1, Some k, s1) \<and> sview s1 12 = Some z1 \<and>
    z1 = [] @ concat (map (\<lambda>c. if bval c = 43 then CHR ''%'' # hex2_text 43 else [c]) ''1+2'') \<and>
    cencode (Some 12) 50 (Some 13) (Some k) s1 = Some (1, Some k, s2) \<and>
    sview s2 12 = Some (z1 @ concat (map (\<lambda>c. if bval c = 50 then CHR ''%'' # hex2_text 43 else [c]) ''1+2'')) \<and>
    touches {12, 2} (started_store [[], ''1+2'']) s2"
  by (rule cencode_stale) (simp_all add: started_quick started_sview)

end
