(* ===== verification/Escapes.thy ===== *)
theory Escapes
  imports Filters
begin

text \<open>
  The filters of \<open>CV2/sweb\<close> that do not read value by value: \<open>func_t2esc\<close>, \<open>func_escquote\<close> and \<open>clean_newlines\<close> call \<open>chxreplace\<close> on a
  copy or on the text itself; \<open>func_escsingle\<close> leaves alone what is escaped already.
\<close>

section \<open>The functions\<close>

record t2esc_t =
  e_amp :: Chix
  e_escamp :: Chix
  e_lt :: Chix
  e_esclt :: Chix
  e_gt :: Chix
  e_escgt :: Chix
  e_temp :: Chix

definition t2esc_init :: "int \<Rightarrow> t2esc_t \<Rightarrow> chx_state \<Rightarrow> (t2esc_t \<times> chx_state) option" where
  "t2esc_init type h s =
     (if e_amp h \<noteq> nullchix then Some (h, s)
      else do {
        (cs, s) \<leftarrow> static_strs [''&'', ''&amp;'', ''<'', ''&lt;'', ''>'', ''&gt;''] 10 s;
        let (temp, s) = chxalloc 512 type ''func_t2amp temp'' s;
        Some (\<lparr>e_amp = cs ! 0, e_escamp = cs ! 1, e_lt = cs ! 2, e_esclt = cs ! 3, e_gt = cs ! 4, e_escgt = cs ! 5, e_temp = Some temp\<rparr>, s) })"

definition func_t2esc :: "Chix \<Rightarrow> Chix \<Rightarrow> t2esc_t \<Rightarrow> chx_state \<Rightarrow> (int \<times> t2esc_t \<times> chx_state) option" where
  "func_t2esc result arg h s = do {
     (type, s) \<leftarrow> chxtype arg s;
     (h, s) \<leftarrow> t2esc_init type h s;
     (_, s) \<leftarrow> chxcpy (e_temp h) arg s;
     (_, s) \<leftarrow> chxreplace (e_temp h) 0 (e_amp h) (e_escamp h) s;
     (_, s) \<leftarrow> chxreplace (e_temp h) 0 (e_lt h) (e_esclt h) s;
     (_, s) \<leftarrow> chxreplace (e_temp h) 0 (e_gt h) (e_escgt h) s;
     s \<leftarrow> cat_chix result (e_temp h) s;
     Some (1, h, s) }"

record escq_t =
  q_quote :: Chix
  q_escqt :: Chix
  q_temp :: Chix

definition escq_init :: "int \<Rightarrow> escq_t \<Rightarrow> chx_state \<Rightarrow> (escq_t \<times> chx_state) option" where
  "escq_init type h s =
     (if q_quote h \<noteq> nullchix then Some (h, s)
      else do {
        (cs, s) \<leftarrow> static_strs [[CHR 0x22], ''&quot;''] 10 s;
        let (temp, s) = chxalloc 512 type ''func_escq temp'' s;
        Some (\<lparr>q_quote = cs ! 0, q_escqt = cs ! 1, q_temp = Some temp\<rparr>, s) })"

definition func_escquote :: "Chix \<Rightarrow> Chix \<Rightarrow> escq_t \<Rightarrow> chx_state \<Rightarrow> (int \<times> escq_t \<times> chx_state) option" where
  "func_escquote result arg h s = do {
     (type, s) \<leftarrow> chxtype arg s;
     (h, s) \<leftarrow> escq_init type h s;
     (_, s) \<leftarrow> chxcpy (q_temp h) arg s;
     (_, s) \<leftarrow> chxreplace (q_temp h) 0 (q_quote h) (q_escqt h) s;
     s \<leftarrow> cat_chix result (q_temp h) s;
     Some (1, h, s) }"

definition clean_newlines :: "Chix \<Rightarrow> Chix \<times> Chix \<Rightarrow> chx_state \<Rightarrow> ((Chix \<times> Chix) \<times> chx_state) option" where
  "clean_newlines x st s = do {
     ((newline_chx, blank), s) \<leftarrow>
       (if fst st \<noteq> nullchix then Some (st, s)
        else do {
          (cs, s) \<leftarrow> static_strs [[CHR 0x0A], '' ''] 4 s;
          Some ((cs ! 0, cs ! 1), s) });
     (_, s) \<leftarrow> chxreplace x 0 newline_chx blank s;
     Some ((newline_chx, blank), s) }"

text \<open>
  \<open>func_escsingle\<close>: \<open>c\<close> is an \<open>int\<close>. Behind a backslash the next value is appended as it is, without a look at whether it is the
  end of the text.
\<close>

partial_function (option) escsingle_loop :: "Chix \<Rightarrow> int \<Rightarrow> Chix \<Rightarrow> int \<Rightarrow> chx_state \<Rightarrow> chx_state option" where
  "escsingle_loop result type arg pos s = do {
     (c, s) \<leftarrow> chxvalue arg pos s;
     if c = 0 then Some s
     else do {
       s \<leftarrow> (if c = 39 \<or> c = 10 \<or> c = 13 \<or> c = 92 then cat_value result type 92 s else Some s);
       (d, pos, s) \<leftarrow> (if c = 92 then do { (d, s) \<leftarrow> chxvalue arg (pos + 1) s; Some (d, pos + 1, s) }
                       else Some (if c = 10 then 110 else if c = 13 then 114 else c, pos, s));
       s \<leftarrow> cat_value result type d s;
       escsingle_loop result type arg (pos + 1) s } }"

definition func_escsingle :: "Chix \<Rightarrow> Chix \<Rightarrow> chx_state \<Rightarrow> (int \<times> chx_state) option" where
  "func_escsingle result arg s = do {
     (type, s) \<leftarrow> chxtype arg s;
     s \<leftarrow> escsingle_loop result type arg 0 s;
     Some (1, s) }"

section \<open>Replacing one character\<close>

definition one :: "char \<Rightarrow> string \<Rightarrow> char \<Rightarrow> string" where
  "one c w d = (if d = c then w else [d])"

lemma rep_all_one: "rep_all [c] w x = concat (map (one c w) x)"
proof (induction x)
  case (Cons d x)
  then show ?case using rep_all_simps(2) [of "[c]" "d # x" w] rep_all_simps(3) [of "[c]" d x w] by (auto simp: one_def)
qed (simp add: rep_all_simps)

lemma concat_map_twice: "concat (map f (concat (map g x))) = concat (map (\<lambda>c. concat (map f (g c))) x)"
  by (induction x) simp_all

text \<open>A call of \<open>chxreplace\<close> on the string \<open>p\<close> with two static strings, the first a single character.\<close>

lemma replace_one:
  assumes q: "quick q s" and p: "sview s p = Some x" "p \<in> R" and st: "stocked R ps s" "(b, [c]) \<in> set ps" "(d, w) \<in> set ps"
  obtains k s' where "chxreplace (Some p) 0 b d s = Some (k, s')" "sview s' p = Some (concat (map (one c w) x))" "touches {p} s s'"
    "quick q s'" "stocked R ps s'"
proof -
  obtain a1 where a1: "b = Some a1" "sview s a1 = Some [c]" by (rule stocked_get [OF st(1,2)])
  obtain a2 where a2: "d = Some a2" "sview s a2 = Some w" by (rule stocked_get [OF st(1,3)])
  obtain s' where s': "chxreplace (Some p) 0 (Some a1) (Some a2) s = Some (if index_of x 0 [c] < 0 then 0 else 1, s')"
      "chx_to s ((sview s)(p \<mapsto> replace_str x 0 [c] w)) s'"
    by (rule chxreplace_ok [OF quick_inv [OF q] p(1) a1(2) a2(2) order.refl])
  have "replace_str x 0 [c] w = concat (map (one c w) x)" using replace_str_whole [of "[c]" x w] rep_all_one by simp
  then have v: "sview s' p = Some (concat (map (one c w) x))" using chx_toD(2) [OF s'(2)] by simp
  have t: "touches {p} s s'" using touches_upd [OF s'(2)] by simp
  show thesis
    by (rule that [OF _ v t quick_touches [OF q t] stocked_touches [OF st(1) touches_mono [OF t]]]) (use s'(1) a1(1) a2(1) p(2) in auto)
qed

text \<open>The first call: the static strings and the work chix.\<close>

lemma stock_and_temp:
  assumes q: "quick q s" and r: "sview s r = Some z" and ts: "\<forall>t \<in> set ts. NUL \<notin> set t \<and> int (length t) \<le> n"
  obtains cs s1 p s' where "static_strs ts n s = Some (cs, s1)" "chxalloc m ty nm s1 = (p, s')" "length cs = length ts" "quick q s'"
    "stocked {r, q, p} (zip cs ts) s'" "sview s' p = Some []" "touches {q} s s'" "next_adr s \<le> p"
proof -
  obtain cs s1 where 1: "static_strs ts n s = Some (cs, s1)" "length cs = length ts" "quick q s1" "stocked {r, q} (zip cs ts) s1"
      "touches {q} s s1"
    using static_strs_ok [OF q _ quick_live [OF q r] ts] by auto
  note inv = quick_inv [OF 1(3)]
  obtain s2 where 2: "chxalloc m ty nm s1 = (next_adr s1, s2)" "chx_to s1 ((sview s1)(next_adr s1 \<mapsto> [])) s2" by (rule chxalloc_ok [OF inv])
  have t2: "touches R s1 s2" for R by (rule touches_new [OF inv 2(2) order.refl])
  have "stocked {r, q, next_adr s1} (zip cs ts) s1" using 1(4) live_less [OF inv] unfolding stocked_def by fastforce
  then have "stocked {r, q, next_adr s1} (zip cs ts) s2" by (rule stocked_touches [OF _ t2])
  moreover have "sview s2 (next_adr s1) = Some []" using chx_toD(2) [OF 2(2)] by simp
  moreover have "next_adr s \<le> next_adr s1" using 1(5) by (simp add: touches_def)
  ultimately show thesis using that 1(1,2) 2(1) quick_touches [OF 1(3) t2] touches_trans [OF 1(5) t2] by blast
qed

lemma cs6: "length cs = 6 \<Longrightarrow> [cs ! 0, cs ! 1, cs ! 2, cs ! 3, cs ! 4, cs ! 5] = cs"
  by (intro nth_equalityI) (auto simp: less_Suc_eq numeral_eq_Suc)

lemma cs2: "length cs = 2 \<Longrightarrow> [cs ! 0, cs ! 1] = cs"
  by (intro nth_equalityI) (auto simp: less_Suc_eq numeral_eq_Suc)

section \<open>Escaping for HTML\<close>

definition t2esc_code :: "char \<Rightarrow> string" where
  "t2esc_code c = (if c = CHR ''&'' then ''&amp;'' else if c = CHR ''<'' then ''&lt;'' else if c = CHR ''>'' then ''&gt;'' else [c])"

definition t2esc_stock :: "t2esc_t \<Rightarrow> (Chix \<times> string) list" where
  "t2esc_stock h = zip [e_amp h, e_escamp h, e_lt h, e_esclt h, e_gt h, e_escgt h] [''&'', ''&amp;'', ''<'', ''&lt;'', ''>'', ''&gt;'']"

text \<open>The statics before the first call and after it: the work chix is live and none of the others.\<close>

definition t2esc_ready :: "nat \<Rightarrow> nat \<Rightarrow> nat \<Rightarrow> t2esc_t \<Rightarrow> chx_state \<Rightarrow> bool" where
  "t2esc_ready r a q h s \<longleftrightarrow> e_amp h = nullchix \<or>
     (\<exists>p. e_temp h = Some p \<and> p \<notin> {r, a, q} \<and> sview s p \<noteq> None \<and> stocked {r, q, p} (t2esc_stock h) s)"

lemma three_passes:
  "concat (map (one (CHR ''>'') ''&gt;'') (concat (map (one (CHR ''<'') ''&lt;'') (concat (map (one (CHR ''&'') ''&amp;'') x))))) =
   concat (map t2esc_code x)"
  by (simp only: concat_map_twice) (intro arg_cong [where f = concat] map_cong, simp_all add: one_def t2esc_code_def)

lemma t2esc_init_ok:
  assumes q: "quick q s" and r: "sview s r = Some z" and a: "sview s a = Some x" and h: "t2esc_ready r a q h s"
  obtains h' p y s' where "t2esc_init ty h s = Some (h', s')" "quick q s'" "stocked {r, q, p} (t2esc_stock h') s'" "touches {q} s s'"
    "e_temp h' = Some p" "p \<notin> {r, a, q}" "sview s' p = Some y"
proof (cases "e_amp h = nullchix")
  case False
  then obtain p where "e_temp h = Some p" "p \<notin> {r, a, q}" "sview s p \<noteq> None" "stocked {r, q, p} (t2esc_stock h) s"
    using h by (auto simp: t2esc_ready_def)
  moreover have "t2esc_init ty h s = Some (h, s)" using False by (simp add: t2esc_init_def)
  ultimately show thesis using that q touches_refl [OF quick_inv [OF q]] by blast
next
  case True
  let ?ts = "[''&'', ''&amp;'', ''<'', ''&lt;'', ''>'', ''&gt;'']"
  obtain cs s1 p s' where cs: "static_strs ?ts 10 s = Some (cs, s1)" "chxalloc 512 ty ''func_t2amp temp'' s1 = (p, s')" "length cs = length ?ts"
      "quick q s'" "stocked {r, q, p} (zip cs ?ts) s'" "sview s' p = Some []" "touches {q} s s'" "next_adr s \<le> p"
    by (rule stock_and_temp [OF q r, of ?ts 10]) auto
  let ?h = "\<lparr>e_amp = cs ! 0, e_escamp = cs ! 1, e_lt = cs ! 2, e_esclt = cs ! 3, e_gt = cs ! 4, e_escgt = cs ! 5, e_temp = Some p\<rparr>"
  have "t2esc_init ty h s = Some (?h, s')" using True cs(1,2) by (simp add: t2esc_init_def del: static_strs.simps)
  moreover have "stocked {r, q, p} (t2esc_stock ?h) s'" using cs6 [of cs] cs(3,5) unfolding t2esc_stock_def by simp
  moreover have "p \<notin> {r, a, q}" using cs(8) quick_live [OF q r] live_less [OF quick_inv [OF q] a] by auto
  ultimately show thesis using that [of ?h s' p "[]"] cs(4,6,7) by simp
qed

lemma func_t2esc_ok:
  assumes q: "quick q s" "q \<noteq> r" and r: "sview s r = Some z" and a: "sview s a = Some x" "a \<notin> {r, q}" and h: "t2esc_ready r a q h s"
  obtains h' s' p where "func_t2esc (Some r) (Some a) h s = Some (1, h', s')" "sview s' r = Some (z @ concat (map t2esc_code x))"
    "e_temp h' = Some p" "touches {r, q, p} s s'" "t2esc_ready r a q h' s'"
proof -
  obtain h' p y s1 where 1: "t2esc_init THIN h s = Some (h', s1)" "quick q s1" "stocked {r, q, p} (t2esc_stock h') s1" "touches {q} s s1"
      "e_temp h' = Some p" "p \<notin> {r, a, q}" "sview s1 p = Some y"
    by (rule t2esc_init_ok [OF q(1) r a(1) h])
  have a1: "sview s1 a = Some x" and r1: "sview s1 r = Some z" using touches_keeps [OF 1(4)] a r q(2) by auto
  obtain s2 where 2: "chxcpy (Some p) (Some a) s1 = Some (1, s2)" "chx_to s1 ((sview s1)(p \<mapsto> x)) s2"
    by (rule chxcpy_ok [OF quick_inv [OF 1(2)] 1(7) a1])
  have t2: "touches {p} s1 s2" using touches_upd [OF 2(2)] by simp
  have p2: "sview s2 p = Some x" using chx_toD(2) [OF 2(2)] by simp
  have st2: "stocked {r, q, p} (t2esc_stock h') s2" by (rule stocked_touches [OF 1(3) touches_mono [OF t2]]) auto
  note mem = t2esc_stock_def
  obtain k3 s3 where 3: "chxreplace (Some p) 0 (e_amp h') (e_escamp h') s2 = Some (k3, s3)" "sview s3 p = Some (concat (map (one (CHR ''&'') ''&amp;'') x))"
      "touches {p} s2 s3" "quick q s3" "stocked {r, q, p} (t2esc_stock h') s3"
    by (rule replace_one [OF quick_touches [OF 1(2) t2] p2 _ st2, where b = "e_amp h'" and c = "CHR ''&''" and d = "e_escamp h'" and w = "''&amp;''"]) (auto simp: mem)
  obtain k4 s4 where 4: "chxreplace (Some p) 0 (e_lt h') (e_esclt h') s3 = Some (k4, s4)"
      "sview s4 p = Some (concat (map (one (CHR ''<'') ''&lt;'') (concat (map (one (CHR ''&'') ''&amp;'') x))))"
      "touches {p} s3 s4" "quick q s4" "stocked {r, q, p} (t2esc_stock h') s4"
    by (rule replace_one [OF 3(4,2) _ 3(5), where b = "e_lt h'" and c = "CHR ''<''" and d = "e_esclt h'" and w = "''&lt;''"]) (auto simp: mem)
  obtain k5 s5 where 5: "chxreplace (Some p) 0 (e_gt h') (e_escgt h') s4 = Some (k5, s5)"
      "sview s5 p = Some (concat (map (one (CHR ''>'') ''&gt;'') (concat (map (one (CHR ''<'') ''&lt;'') (concat (map (one (CHR ''&'') ''&amp;'') x))))))"
      "touches {p} s4 s5" "quick q s5" "stocked {r, q, p} (t2esc_stock h') s5"
    by (rule replace_one [OF 4(4,2) _ 4(5), where b = "e_gt h'" and c = "CHR ''>''" and d = "e_escgt h'" and w = "''&gt;''"]) (auto simp: mem)
  have t5: "touches {p} s1 s5" using touches_trans [OF t2 touches_trans [OF 3(3) touches_trans [OF 4(3) 5(3)]]] .
  have r5: "sview s5 r = Some z" using touches_keeps [OF t5 r1] 1(6) by auto
  obtain s6 where 6: "cat_chix (Some r) (Some p) s5 = Some s6" "sview s6 r = Some (z @ concat (map t2esc_code x))" "touches {r} s5 s6"
    by (rule cat_chix_ok [OF quick_inv [OF 5(4)] r5 5(2) [unfolded three_passes]]) (use 1(6) in auto)
  have t6: "touches {r, q, p} s5 s6" by (rule touches_mono [OF 6(3)]) simp
  have t: "touches {r, q, p} s s6"
    using touches_trans [OF touches_mono [OF 1(4)] touches_trans [OF touches_mono [OF t5] t6]] by simp
  have "func_t2esc (Some r) (Some a) h s = Some (1, h', s6)"
    using chxtype_live [OF quick_inv [OF q(1)] a(1)] 1(1,5) 2(1) 3(1) 4(1) 5(1) 6(1) by (simp add: func_t2esc_def)
  moreover have "sview s6 p \<noteq> None" using touches_keeps [OF 6(3) 5(2)] 1(6) by auto
  then have "t2esc_ready r a q h' s6" using 1(5,6) stocked_touches [OF 5(5) t6] by (auto simp: t2esc_ready_def)
  ultimately show thesis using that 6(2) t 1(5) by blast
qed

text \<open>What a browser makes of the three entities.\<close>

fun html_unesc :: "string \<Rightarrow> string" where
  "html_unesc [] = []"
| "html_unesc (c # x) =
     (if c = CHR ''&'' \<and> prefix ''amp;'' x then CHR ''&'' # html_unesc (drop 4 x)
      else if c = CHR ''&'' \<and> prefix ''lt;'' x then CHR ''<'' # html_unesc (drop 3 x)
      else if c = CHR ''&'' \<and> prefix ''gt;'' x then CHR ''>'' # html_unesc (drop 3 x)
      else c # html_unesc x)"

lemma html_unesc_code: "html_unesc (t2esc_code c @ y) = c # html_unesc y"
  by (simp add: t2esc_code_def)

lemma html_unesc_text: "html_unesc (concat (map t2esc_code x)) = x"
  by (induction x) (simp_all add: html_unesc_code)

text \<open>
  \<open>func_escquote\<close> works like \<open>func_t2esc\<close> with one pass.
\<close>

definition escq_stock :: "escq_t \<Rightarrow> (Chix \<times> string) list" where
  "escq_stock h = zip [q_quote h, q_escqt h] [[CHR 0x22], ''&quot;'']"

definition escq_ready :: "nat \<Rightarrow> nat \<Rightarrow> nat \<Rightarrow> escq_t \<Rightarrow> chx_state \<Rightarrow> bool" where
  "escq_ready r a q h s \<longleftrightarrow> q_quote h = nullchix \<or>
     (\<exists>p. q_temp h = Some p \<and> p \<notin> {r, a, q} \<and> sview s p \<noteq> None \<and> stocked {r, q, p} (escq_stock h) s)"

lemma escq_init_ok:
  assumes q: "quick q s" and r: "sview s r = Some z" and a: "sview s a = Some x" and h: "escq_ready r a q h s"
  obtains h' p y s' where "escq_init ty h s = Some (h', s')" "quick q s'" "stocked {r, q, p} (escq_stock h') s'" "touches {q} s s'"
    "q_temp h' = Some p" "p \<notin> {r, a, q}" "sview s' p = Some y"
proof (cases "q_quote h = nullchix")
  case False
  then obtain p where "q_temp h = Some p" "p \<notin> {r, a, q}" "sview s p \<noteq> None" "stocked {r, q, p} (escq_stock h) s"
    using h by (auto simp: escq_ready_def)
  moreover have "escq_init ty h s = Some (h, s)" using False by (simp add: escq_init_def)
  ultimately show thesis using that q touches_refl [OF quick_inv [OF q]] by blast
next
  case True
  let ?ts = "[[CHR 0x22], ''&quot;'']"
  obtain cs s1 p s' where cs: "static_strs ?ts 10 s = Some (cs, s1)" "chxalloc 512 ty ''func_escq temp'' s1 = (p, s')" "length cs = length ?ts"
      "quick q s'" "stocked {r, q, p} (zip cs ?ts) s'" "sview s' p = Some []" "touches {q} s s'" "next_adr s \<le> p"
    by (rule stock_and_temp [OF q r, of ?ts 10]) auto
  let ?h = "\<lparr>q_quote = cs ! 0, q_escqt = cs ! 1, q_temp = Some p\<rparr>"
  have "escq_init ty h s = Some (?h, s')" using True cs(1,2) by (simp add: escq_init_def del: static_strs.simps)
  moreover have "stocked {r, q, p} (escq_stock ?h) s'" using cs2 [of cs] cs(3,5) unfolding escq_stock_def by simp
  moreover have "p \<notin> {r, a, q}" using cs(8) quick_live [OF q r] live_less [OF quick_inv [OF q] a] by auto
  ultimately show thesis using that [of ?h s' p "[]"] cs(4,6,7) by simp
qed

lemma func_escquote_ok:
  assumes q: "quick q s" "q \<noteq> r" and r: "sview s r = Some z" and a: "sview s a = Some x" "a \<notin> {r, q}" and h: "escq_ready r a q h s"
  obtains h' s' p where "func_escquote (Some r) (Some a) h s = Some (1, h', s')" "sview s' r = Some (z @ concat (map (one (CHR 0x22) ''&quot;'') x))"
    "q_temp h' = Some p" "touches {r, q, p} s s'" "escq_ready r a q h' s'"
proof -
  obtain h' p y s1 where 1: "escq_init THIN h s = Some (h', s1)" "quick q s1" "stocked {r, q, p} (escq_stock h') s1" "touches {q} s s1"
      "q_temp h' = Some p" "p \<notin> {r, a, q}" "sview s1 p = Some y"
    by (rule escq_init_ok [OF q(1) r a(1) h])
  have a1: "sview s1 a = Some x" and r1: "sview s1 r = Some z" using touches_keeps [OF 1(4)] a r q(2) by auto
  obtain s2 where 2: "chxcpy (Some p) (Some a) s1 = Some (1, s2)" "chx_to s1 ((sview s1)(p \<mapsto> x)) s2"
    by (rule chxcpy_ok [OF quick_inv [OF 1(2)] 1(7) a1])
  have t2: "touches {p} s1 s2" using touches_upd [OF 2(2)] by simp
  have p2: "sview s2 p = Some x" using chx_toD(2) [OF 2(2)] by simp
  have st2: "stocked {r, q, p} (escq_stock h') s2" by (rule stocked_touches [OF 1(3) touches_mono [OF t2]]) auto
  obtain k3 s3 where 3: "chxreplace (Some p) 0 (q_quote h') (q_escqt h') s2 = Some (k3, s3)" "sview s3 p = Some (concat (map (one (CHR 0x22) ''&quot;'') x))"
      "touches {p} s2 s3" "quick q s3" "stocked {r, q, p} (escq_stock h') s3"
    by (rule replace_one [OF quick_touches [OF 1(2) t2] p2 _ st2, where b = "q_quote h'" and c = "CHR 0x22" and d = "q_escqt h'" and w = "''&quot;''"])
      (auto simp: escq_stock_def)
  have t3: "touches {p} s1 s3" using touches_trans [OF t2 3(3)] .
  have r3: "sview s3 r = Some z" using touches_keeps [OF t3 r1] 1(6) by auto
  obtain s6 where 6: "cat_chix (Some r) (Some p) s3 = Some s6" "sview s6 r = Some (z @ concat (map (one (CHR 0x22) ''&quot;'') x))" "touches {r} s3 s6"
    by (rule cat_chix_ok [OF quick_inv [OF 3(4)] r3 3(2)]) (use 1(6) in auto)
  have t6: "touches {r, q, p} s3 s6" by (rule touches_mono [OF 6(3)]) simp
  have t: "touches {r, q, p} s s6"
    using touches_trans [OF touches_mono [OF 1(4)] touches_trans [OF touches_mono [OF t3] t6]] by simp
  have "func_escquote (Some r) (Some a) h s = Some (1, h', s6)"
    using chxtype_live [OF quick_inv [OF q(1)] a(1)] 1(1,5) 2(1) 3(1) 6(1) by (simp add: func_escquote_def)
  moreover have "sview s6 p \<noteq> None" using touches_keeps [OF 6(3) 3(2)] 1(6) by auto
  then have "escq_ready r a q h' s6" using 1(5,6) stocked_touches [OF 3(5) t6] by (auto simp: escq_ready_def)
  ultimately show thesis using that 6(2) t 1(5) by blast
qed

lemma clean_newlines_ok:
  assumes q: "quick q s" "q \<noteq> a" and a: "sview s a = Some x"
    and st: "fst st = nullchix \<or> stocked {a, q} [(fst st, [CHR 0x0A]), (snd st, '' '')] s"
  obtains st' s' where "clean_newlines (Some a) st s = Some (st', s')" "sview s' a = Some (map (\<lambda>c. if c = CHR 0x0A then CHR '' '' else c) x)"
    "touches {a, q} s s'" "stocked {a, q} [(fst st', [CHR 0x0A]), (snd st', '' '')] s'"
proof -
  let ?ps = "\<lambda>st. [(fst st, [CHR 0x0A]), (snd st, '' '')]"
  obtain st' s1 where 1: "(if fst st \<noteq> nullchix then Some (st, s)
        else do { (cs, s) \<leftarrow> static_strs [[CHR 0x0A], '' ''] 4 s; Some ((cs ! 0, cs ! 1), s) }) = Some (st', s1)"
      "quick q s1" "stocked {a, q} (?ps st') s1" "touches {q} s s1"
  proof (cases "fst st = nullchix")
    case False
    then show ?thesis using that [of st s] st q(1) touches_refl [OF quick_inv [OF q(1)]] by auto
  next
    case True
    obtain cs s1 where cs: "static_strs [[CHR 0x0A], '' ''] 4 s = Some (cs, s1)" "length cs = 2" "quick q s1"
        "stocked {a, q} (zip cs [[CHR 0x0A], '' '']) s1" "touches {q} s s1"
      using static_strs_ok [OF q(1) _ quick_live [OF q(1) a], of "[[CHR 0x0A], '' '']" 4] by auto
    have "stocked {a, q} (zip [cs ! 0, cs ! 1] [[CHR 0x0A], '' '']) s1" using cs(4) unfolding cs2 [OF cs(2)] .
    then show ?thesis using that [of "(cs ! 0, cs ! 1)" s1] True cs(1,3,5) by (simp del: static_strs.simps)
  qed
  have a1: "sview s1 a = Some x" using touches_keeps [OF 1(4) a] q(2) by auto
  obtain k s2 where 2: "chxreplace (Some a) 0 (fst st') (snd st') s1 = Some (k, s2)" "sview s2 a = Some (concat (map (one (CHR 0x0A) '' '') x))"
      "touches {a} s1 s2" "stocked {a, q} (?ps st') s2"
    by (rule replace_one [OF 1(2) a1 _ 1(3), where b = "fst st'" and c = "CHR 0x0A" and d = "snd st'" and w = "'' ''"]) auto
  have "concat (map (one (CHR 0x0A) '' '') x) = map (\<lambda>c. if c = CHR 0x0A then CHR '' '' else c) x" by (induction x) (simp_all add: one_def)
  moreover have "clean_newlines (Some a) st s = Some (st', s2)"
    unfolding clean_newlines_def 1(1) using 2(1) by (cases st') simp
  moreover have "touches {a, q} s s2" using touches_trans [OF touches_mono [OF 1(4)] touches_mono [OF 2(3)], of "{a, q}"] by simp
  ultimately show thesis using that 2(2,4) by simp
qed

section \<open>Escaping single quotes\<close>

text \<open>
  The text that is put between single quotes: \<open>quotable\<close> when every quote, newline and return in it stands behind a
  backslash and no backslash stands alone at its end; \<open>paired\<close> only asks for the latter.
\<close>

abbreviation backslash :: char where
  "backslash \<equiv> CHR 0x5C"

fun quotable :: "string \<Rightarrow> bool" where
  "quotable [] \<longleftrightarrow> True"
| "quotable [c] \<longleftrightarrow> c \<noteq> backslash \<and> c \<noteq> CHR 0x27 \<and> c \<noteq> CHR 0x0A \<and> c \<noteq> CHR 0x0D"
| "quotable (c # d # x) \<longleftrightarrow>
     (if c = backslash then quotable x else c \<noteq> CHR 0x27 \<and> c \<noteq> CHR 0x0A \<and> c \<noteq> CHR 0x0D \<and> quotable (d # x))"

fun paired :: "string \<Rightarrow> bool" where
  "paired [] \<longleftrightarrow> True"
| "paired [c] \<longleftrightarrow> c \<noteq> backslash"
| "paired (c # d # x) \<longleftrightarrow> (if c = backslash then paired x else paired (d # x))"

definition escs_code :: "char \<Rightarrow> string" where
  "escs_code c =
     (if c = CHR 0x27 then [backslash, c] else if c = CHR 0x0A then [backslash, CHR ''n''] else if c = CHR 0x0D then [backslash, CHR ''r''] else [c])"

fun escs :: "string \<Rightarrow> string" where
  "escs [] = []"
| "escs [c] = escs_code c"
| "escs (c # d # x) = (if c = backslash then c # d # escs x else escs_code c @ escs (d # x))"

lemma escs_Cons: "c \<noteq> backslash \<Longrightarrow> escs (c # x) = escs_code c @ escs x" "paired (c # x) \<Longrightarrow> c \<noteq> backslash \<Longrightarrow> paired x"
  "c \<noteq> backslash \<Longrightarrow> quotable (c # x) \<longleftrightarrow> c \<noteq> CHR 0x27 \<and> c \<noteq> CHR 0x0A \<and> c \<noteq> CHR 0x0D \<and> quotable x"
  by (cases x; simp)+

lemma quotable_code: "c \<noteq> backslash \<Longrightarrow> quotable y \<Longrightarrow> quotable (escs_code c @ y)"
  by (auto simp: escs_code_def escs_Cons(3))

lemma escs_quotable: "paired x \<Longrightarrow> quotable (escs x)"
proof (induction x rule: escs.induct)
  case (2 c)
  then show ?case using quotable_code [of c "[]"] by simp
next
  case (3 c d x)
  then show ?case using quotable_code [of c "escs (d # x)"] by (cases "c = backslash") simp_all
qed simp

lemma escs_id: "quotable x \<Longrightarrow> escs x = x"
  by (induction x rule: escs.induct) (auto simp: escs_code_def split: if_splits)

lemma quotable_paired: "quotable x \<Longrightarrow> paired x"
  by (induction x rule: paired.induct) (auto split: if_splits)

lemma live_nth: "sview s a = Some x \<Longrightarrow> k < length x \<Longrightarrow> x ! k \<noteq> NUL"
  using live_no_NUL nth_mem by metis

lemma bval_backslash [simp]: "bval backslash = 92"
  by (simp add: bval_def)

text \<open>A pass that begins at a backslash appends it and what is behind it.\<close>

lemma escsingle_pair:
  assumes "chx_inv s" and r: "sview s r = Some z" and a: "sview s a = Some x" "a \<noteq> r" and k: "Suc k < length x" "x ! k = backslash"
  obtains s' where "escsingle_loop (Some r) THIN (Some a) (int k) s = escsingle_loop (Some r) THIN (Some a) (int (k + 2)) s'"
    "sview s' r = Some (z @ [backslash, x ! Suc k])" "touches {r} s s'"
proof -
  obtain s1 where 1: "chxvalue (Some a) (int k) s = Some (char_at x (int k), s1)" "chx_to s (sview s) s1"
    by (rule chxvalue_ok [OF assms(1) a(1), of "int k"]) simp
  have t1: "touches {r} s s1" by (rule touches_read [OF 1(2)])
  have r1: "sview s1 r = Some z" and a1: "sview s1 a = Some x" using chx_toD(2) [OF 1(2)] r a by simp_all
  obtain s2 where 2: "cat_value (Some r) THIN (bval backslash) s1 = Some s2" "sview s2 r = Some (z @ [backslash])" "touches {r} s1 s2"
    by (rule cat_value_ok [OF touches_inv [OF t1] r1, of backslash THIN]) simp_all
  have a2: "sview s2 a = Some x" using touches_keeps [OF 2(3) a1] a(2) by simp
  obtain s3 where 3: "chxvalue (Some a) (int (Suc k)) s2 = Some (char_at x (int (Suc k)), s3)" "chx_to s2 (sview s2) s3"
    by (rule chxvalue_ok [OF touches_inv [OF 2(3)] a2, of "int (Suc k)"]) simp
  have t3: "touches {r} s s3" using touches_trans [OF t1 touches_trans [OF 2(3) touches_read [OF 3(2)]]] .
  have r3: "sview s3 r = Some (z @ [backslash])" using chx_toD(2) [OF 3(2)] 2(2) by simp
  obtain s4 where 4: "cat_value (Some r) THIN (bval (x ! Suc k)) s3 = Some s4" "sview s4 r = Some ((z @ [backslash]) @ [x ! Suc k])" "touches {r} s3 s4"
    by (rule cat_value_ok [OF touches_inv [OF t3] r3 live_nth [OF a(1) k(1)]])
  have n: "char_at x (int k) = 92" "char_at x (1 + int k) = bval (x ! Suc k)" using k by (simp_all add: char_at_def nat_add_distrib)
  have "escsingle_loop (Some r) THIN (Some a) (int k) s = escsingle_loop (Some r) THIN (Some a) (int (k + 2)) s4"
    using 1(1) n 2(1) 3(1) 4(1) by (subst escsingle_loop.simps) (simp add: add.commute)
  then show thesis using that 4(2) touches_trans [OF t3 4(3)] by simp
qed

text \<open>A pass at any other character appends its code.\<close>

definition escs_last :: "char \<Rightarrow> char" where
  "escs_last c = (if c = CHR 0x0A then CHR ''n'' else if c = CHR 0x0D then CHR ''r'' else c)"

lemma escsingle_head:
  assumes "chx_inv s" and r: "sview s r = Some z" and c: "c \<noteq> backslash"
  obtains s' z' where "(if bval c = 39 \<or> bval c = 10 \<or> bval c = 13 \<or> bval c = 92 then cat_value (Some r) THIN 92 s else Some s) = Some s'"
    "sview s' r = Some z'" "touches {r} s s'" "z' @ [escs_last c] = z @ escs_code c"
proof (cases "c = CHR 0x27 \<or> c = CHR 0x0A \<or> c = CHR 0x0D")
  case True
  obtain s2 where s2: "cat_value (Some r) THIN (bval backslash) s = Some s2" "sview s2 r = Some (z @ [backslash])" "touches {r} s s2"
    by (rule cat_value_ok [OF assms(1) r, of backslash THIN]) simp_all
  then show ?thesis using that [of s2 "z @ [backslash]"] True by (auto simp: bval_is escs_code_def escs_last_def)
next
  case False
  then show ?thesis using that [of s z] r touches_refl [OF assms(1)] c by (simp add: bval_is escs_code_def escs_last_def)
qed

lemma escsingle_one:
  assumes "chx_inv s" and r: "sview s r = Some z" and a: "sview s a = Some x" "a \<noteq> r" and k: "k < length x" "x ! k \<noteq> backslash"
  obtains s' where "escsingle_loop (Some r) THIN (Some a) (int k) s = escsingle_loop (Some r) THIN (Some a) (int (Suc k)) s'"
    "sview s' r = Some (z @ escs_code (x ! k))" "touches {r} s s'"
proof -
  define c where "c = x ! k"
  obtain s1 where 1: "chxvalue (Some a) (int k) s = Some (char_at x (int k), s1)" "chx_to s (sview s) s1"
    by (rule chxvalue_ok [OF assms(1) a(1), of "int k"]) simp
  have t1: "touches {r} s s1" by (rule touches_read [OF 1(2)])
  have r1: "sview s1 r = Some z" using chx_toD(2) [OF 1(2)] r by simp
  obtain s2 z2 where 2: "(if bval c = 39 \<or> bval c = 10 \<or> bval c = 13 \<or> bval c = 92 then cat_value (Some r) THIN 92 s1 else Some s1) = Some s2"
      "sview s2 r = Some z2" "touches {r} s1 s2" "z2 @ [escs_last c] = z @ escs_code c"
    by (rule escsingle_head [OF touches_inv [OF t1] r1, of c]) (use k in \<open>auto simp: c_def\<close>)
  have c: "c \<noteq> NUL" "c \<noteq> backslash" "char_at x (int k) = bval c" using live_nth [OF a(1) k(1)] k by (simp_all add: c_def char_at_def)
  have "bval (CHR ''n'') = 110" "bval (CHR ''r'') = 114" by (simp_all add: bval_def)
  then have w: "escs_last c \<noteq> NUL" "bval (escs_last c) = (if bval c = 10 then 110 else if bval c = 13 then 114 else bval c)"
    using c(1) by (auto simp: escs_last_def bval_is)
  obtain s3 where 3: "cat_value (Some r) THIN (bval (escs_last c)) s2 = Some s3" "sview s3 r = Some (z2 @ [escs_last c])" "touches {r} s2 s3"
    by (rule cat_value_ok [OF touches_inv [OF 2(3)] 2(2) w(1)])
  have n: "bval c \<noteq> 0" "bval c \<noteq> 92" using c by (simp_all add: bval_is)
  have "escsingle_loop (Some r) THIN (Some a) (int k) s = escsingle_loop (Some r) THIN (Some a) (int (Suc k)) s3"
    using 1(1) c(3) 2(1) 3(1) n by (subst escsingle_loop.simps) (simp add: w(2) add.commute)
  then show thesis using that 3(2) 2(4) touches_trans [OF t1 touches_trans [OF 2(3) 3(3)]] by (simp add: c_def)
qed

lemma escsingle_end:
  assumes "chx_inv s" and "sview s a = Some x"
  obtains s' where "escsingle_loop (Some r) THIN (Some a) (int (length x)) s = Some s'" "sview s' = sview s" "touches {r} s s'"
proof -
  obtain s1 where 1: "chxvalue (Some a) (int (length x)) s = Some (char_at x (int (length x)), s1)" "chx_to s (sview s) s1"
    by (rule chxvalue_ok [OF assms, of "int (length x)"]) simp
  then have "escsingle_loop (Some r) THIN (Some a) (int (length x)) s = Some s1" by (subst escsingle_loop.simps) (simp add: char_at_def)
  then show thesis using that chx_toD(2) [OF 1(2)] touches_read [OF 1(2)] by blast
qed

lemma escsingle_loop_ok:
  assumes "chx_inv s" and "sview s r = Some z" and "sview s a = Some x" and "a \<noteq> r" and "k \<le> length x" and "paired (drop k x)"
  shows "\<exists>s'. escsingle_loop (Some r) THIN (Some a) (int k) s = Some s' \<and> sview s' r = Some (z @ escs (drop k x)) \<and> touches {r} s s'"
  using assms
proof (induction "length x - k" arbitrary: k z s rule: less_induct)
  case less
  note inv = less.prems(1) and r = less.prems(2) and a = less.prems(3,4)
  consider "k = length x" | "k < length x" "x ! k = backslash" | "k < length x" "x ! k \<noteq> backslash" using less.prems(5) by linarith
  then show ?case
  proof cases
    case 1
    then show ?thesis using escsingle_end [OF inv a(1), of r] r by (metis append_Nil2 drop_all escs.simps(1) order.refl)
  next
    case 2
    have d: "drop k x = backslash # drop (Suc k) x" using 2 Cons_nth_drop_Suc [of k x] by simp
    have "drop (Suc k) x \<noteq> []" using less.prems(6) d by auto
    then have k1: "Suc k < length x" by simp
    then have d1: "drop (Suc k) x = x ! Suc k # drop (k + 2) x" using Cons_nth_drop_Suc [of "Suc k" x] by simp
    obtain s1 where 1: "escsingle_loop (Some r) THIN (Some a) (int k) s = escsingle_loop (Some r) THIN (Some a) (int (k + 2)) s1"
        "sview s1 r = Some (z @ [backslash, x ! Suc k])" "touches {r} s s1"
      by (rule escsingle_pair [OF inv r a k1 2(2)])
    have "\<exists>s'. escsingle_loop (Some r) THIN (Some a) (int (k + 2)) s1 = Some s' \<and>
        sview s' r = Some ((z @ [backslash, x ! Suc k]) @ escs (drop (k + 2) x)) \<and> touches {r} s1 s'"
      by (rule less.hyps [OF _ touches_inv [OF 1(3)] 1(2) touches_keeps [OF 1(3) a(1)] a(2)]) (use a k1 less.prems(6) d d1 in auto)
    then show ?thesis using 1(1) touches_trans [OF 1(3)] d d1 by auto
  next
    case 3
    have d: "drop k x = x ! k # drop (Suc k) x" using 3 Cons_nth_drop_Suc [of k x] by simp
    obtain s1 where 1: "escsingle_loop (Some r) THIN (Some a) (int k) s = escsingle_loop (Some r) THIN (Some a) (int (Suc k)) s1"
        "sview s1 r = Some (z @ escs_code (x ! k))" "touches {r} s s1"
      by (rule escsingle_one [OF inv r a 3])
    have "\<exists>s'. escsingle_loop (Some r) THIN (Some a) (int (Suc k)) s1 = Some s' \<and>
        sview s' r = Some ((z @ escs_code (x ! k)) @ escs (drop (Suc k) x)) \<and> touches {r} s1 s'"
      by (rule less.hyps [OF _ touches_inv [OF 1(3)] 1(2) touches_keeps [OF 1(3) a(1)] a(2)])
        (use a 3 less.prems(6) d escs_Cons(2) [of "x ! k" "drop (Suc k) x"] in auto)
    then show ?thesis using 1(1) touches_trans [OF 1(3)] d escs_Cons(1) [OF 3(2)] by auto
  qed
qed

section \<open>Properties\<close>

text \<open>
  C31. \<open>func_t2esc\<close> appends the text so that neither of the characters that open and close a tag is left in it, and
  unescaping it, as a browser does, gives the text back. It holds for the first call and for every later one.
\<close>

theorem func_t2esc_round_trip:
  assumes "quick q s" and "q \<noteq> r" and "sview s r = Some z" and "sview s a = Some x" and "a \<notin> {r, q}" and "t2esc_ready r a q h s"
  shows "\<exists>y h' s' p. func_t2esc (Some r) (Some a) h s = Some (1, h', s') \<and> sview s' r = Some (z @ y) \<and> html_unesc y = x \<and>
    CHR ''<'' \<notin> set y \<and> CHR ''>'' \<notin> set y \<and> e_temp h' = Some p \<and> touches {r, q, p} s s' \<and> t2esc_ready r a q h' s'"
proof -
  obtain h' s' p where "func_t2esc (Some r) (Some a) h s = Some (1, h', s')" "sview s' r = Some (z @ concat (map t2esc_code x))"
      "e_temp h' = Some p" "touches {r, q, p} s s'" "t2esc_ready r a q h' s'"
    by (rule func_t2esc_ok [OF assms])
  moreover have "CHR ''<'' \<notin> set (concat (map t2esc_code x))" "CHR ''>'' \<notin> set (concat (map t2esc_code x))"
    by (auto simp: t2esc_code_def split: if_splits)
  ultimately show ?thesis using html_unesc_text by blast
qed

definition t2esc_start :: t2esc_t where
  "t2esc_start = \<lparr>e_amp = nullchix, e_escamp = nullchix, e_lt = nullchix, e_esclt = nullchix, e_gt = nullchix, e_escgt = nullchix, e_temp = nullchix\<rparr>"

theorem func_t2esc_round_trip_witness:
  "\<exists>y h' s' p. func_t2esc (Some 12) (Some 13) t2esc_start (started_store [[], ''a<b&lt;'']) = Some (1, h', s') \<and> sview s' 12 = Some ([] @ y) \<and>
    html_unesc y = ''a<b&lt;'' \<and> CHR ''<'' \<notin> set y \<and> CHR ''>'' \<notin> set y \<and> e_temp h' = Some p \<and>
    touches {12, 2, p} (started_store [[], ''a<b&lt;'']) s' \<and> t2esc_ready 12 13 2 h' s'"
  by (rule func_t2esc_round_trip) (simp_all add: started_quick started_sview t2esc_ready_def t2esc_start_def)

text \<open>
  C34. \<open>func_escsingle\<close> appends a text that can stand between single quotes: no quote, newline or return in it without a
  backslash. Text that is fit for that already is appended as it is.
\<close>

theorem func_escsingle_quotable:
  assumes "chx_inv s" and "sview s r = Some z" and "sview s a = Some x" and "a \<noteq> r" and "paired x"
  shows "\<exists>y s'. func_escsingle (Some r) (Some a) s = Some (1, s') \<and> sview s' r = Some (z @ y) \<and> touches {r} s s' \<and> quotable y \<and>
    (quotable x \<longrightarrow> y = x)"
proof -
  obtain s' where "escsingle_loop (Some r) THIN (Some a) (int 0) s = Some s'" "sview s' r = Some (z @ escs (drop 0 x))" "touches {r} s s'"
    using escsingle_loop_ok [OF assms(1-4) le0] assms(5) by auto
  moreover from this(1) have "func_escsingle (Some r) (Some a) s = Some (1, s')"
    using chxtype_live [OF assms(1,3)] by (simp add: func_escsingle_def)
  ultimately show ?thesis using escs_quotable [OF assms(5)] escs_id [of x] by auto
qed

theorem func_escsingle_quotable_witness:
  "\<exists>y s'. func_escsingle (Some 12) (Some 13) (started_store [[], ''it'' @ [CHR 0x27] @ ''s'']) = Some (1, s') \<and> sview s' 12 = Some ([] @ y) \<and>
    touches {12} (started_store [[], ''it'' @ [CHR 0x27] @ ''s'']) s' \<and> quotable y \<and> (quotable (''it'' @ [CHR 0x27] @ ''s'') \<longrightarrow> y = ''it'' @ [CHR 0x27] @ ''s'')"
  by (rule func_escsingle_quotable) (simp_all add: started_inv started_sview)

text \<open>A value of zero: the string stays as it is, but one more character is recorded.\<close>

lemma cat_zero:
  assumes "chx_inv s" and "sview s r = Some z"
  obtains s' c where "cat_value (Some r) THIN 0 s = Some s'" "heap s' r = Some c" "ctext c = z" "c_actlen c = int (length z) + 1" "ISCHIX c"
    "\<And>b. b \<noteq> r \<Longrightarrow> sview s' b = sview s b" "\<And>b d. b \<noteq> r \<Longrightarrow> heap s' b = Some d \<Longrightarrow> ISCHIX d \<Longrightarrow> wf_chix d"
proof -
  obtain c' p s3 where *: "heap s3 r = Some c'" "wf_chix c'" "c_p c' = Some p" "cstr p = z" "chx_to s (sview s) s3"
      "int (length z) + 2 < c_maxlen c'" "c_maxlen c' + 1 \<le> int (length p)"
      "chxcatval (Some r) THIN 0 s =
        Some (1, put r (c'\<lparr>c_p := Some (bsplice p (length z) [byte 0, NUL]), c_actlen := int (length z + 1)\<rparr>) s3)"
    by (rule chxcatval_writes [OF assms])
  let ?c = "c'\<lparr>c_p := Some (bsplice p (length z) [byte 0, NUL]), c_actlen := int (length z + 1)\<rparr>"
  have "byte 0 = NUL" using byte_bval [of NUL] by simp
  then have "ctext ?c = z" using block_write(2) [OF *(2,3), of "length z" "[]" "[NUL]" "-1"] *(4,6,7) by (simp add: ctext_def)
  moreover have "ISCHIX c'" using *(2) by (simp add: wf_chix_def)
  then have "ISCHIX ?c" by (simp add: ISCHIX_def)
  moreover have "sview (put r ?c s3) b = sview s b" if "b \<noteq> r" for b
    using that chx_toD(2) [OF *(5)] by (simp add: sview_def put_simps fun_eq_iff)
  moreover have "wf_chix d" if "b \<noteq> r" "heap (put r ?c s3) b = Some d" "ISCHIX d" for b d
    using that chx_toD(1) [OF *(5)] by (auto simp: chx_inv_def heap_ok_def put_simps)
  ultimately show thesis using that [of "put r ?c s3" ?c] *(8) by (simp add: cat_value_def put_simps)
qed

text \<open>Behind the end of a sound chix \<open>chxvalue\<close> gives 0, whatever the other chix are like.\<close>

lemma chxvalue_behind:
  assumes "heap s a = Some c" and "wf_chix c" and "int (length (ctext c)) \<le> n"
  obtains d where "chxvalue (Some a) n s = Some (0, put a d s)"
proof -
  obtain b where b: "c_p c = Some b" "cstr b = ctext c" "ISCHIX c" "length (cstr b) < length b" "int (length (ctext c)) < c_maxlen c"
      "c_actlen c = -1 \<or> c_actlen c = int (length (ctext c))"
    by (rule wf_block [OF assms(2)]) blast
  have s: "sview s a = Some (ctext c)" using assms(1) b(3) by (simp add: sview_def)
  show thesis
  proof (cases "c_actlen c = -1")
    case True
    have "chxlen (Some a) s = Some (int (length (ctext c)), put a (c\<lparr>c_actlen := int (length (ctext c))\<rparr>) s)"
      using True assms(1) b cstr_has_NUL [OF b(4)] by (simp add: chxlen_def deref_simps strlen_of_def)
    then show thesis using that True s assms(1,3) by (simp add: chxvalue_def inline_check_simps deref_simps put_simps)
  next
    case False
    then show thesis using that [of c] b(6) s assms(1,3) by (simp add: chxvalue_def inline_check_simps deref_simps put_same)
  qed
qed

text \<open>The state a lone backslash leaves.\<close>

definition overlong :: "nat \<Rightarrow> string \<Rightarrow> chx_state \<Rightarrow> bool" where
  "overlong r z s \<longleftrightarrow> (\<exists>c. heap s r = Some c \<and> ISCHIX c \<and> ctext c = z \<and> c_actlen c = int (length z) + 1)"

lemma overlong_bad: "overlong r z s \<Longrightarrow> \<not> chx_inv s" "overlong r z s \<Longrightarrow> chxlen (Some r) s = Some (int (length z) + 1, s)"
proof -
  assume "overlong r z s"
  then obtain c where c: "heap s r = Some c" "ISCHIX c" "ctext c = z" "c_actlen c = int (length z) + 1" by (auto simp: overlong_def)
  have "\<not> wf_chix c" using c(3,4) by (auto simp: wf_chix_def ctext_def split: option.splits)
  then show "\<not> chx_inv s" using c(1,2) by (auto simp: chx_inv_def heap_ok_def)
  show "chxlen (Some r) s = Some (int (length z) + 1, s)" using c by (simp add: chxlen_def deref_simps)
qed

lemma escsingle_alone:
  assumes "chx_inv s" and r: "sview s r = Some z" and a: "sview s a = Some x" "a \<noteq> r" and k: "Suc k = length x" "x ! k = backslash"
  obtains s' where "escsingle_loop (Some r) THIN (Some a) (int k) s = Some s'" "overlong r (z @ [backslash]) s'"
proof -
  obtain s1 where 1: "chxvalue (Some a) (int k) s = Some (char_at x (int k), s1)" "chx_to s (sview s) s1"
    by (rule chxvalue_ok [OF assms(1) a(1), of "int k"]) simp
  have t1: "touches {r} s s1" by (rule touches_read [OF 1(2)])
  have r1: "sview s1 r = Some z" and a1: "sview s1 a = Some x" using chx_toD(2) [OF 1(2)] r a by simp_all
  obtain s2 where 2: "cat_value (Some r) THIN (bval backslash) s1 = Some s2" "sview s2 r = Some (z @ [backslash])" "touches {r} s1 s2"
    by (rule cat_value_ok [OF touches_inv [OF t1] r1, of backslash THIN]) simp_all
  have a2: "sview s2 a = Some x" using touches_keeps [OF 2(3) a1] a(2) by simp
  obtain s3 where 3: "chxvalue (Some a) (int (Suc k)) s2 = Some (char_at x (int (Suc k)), s3)" "chx_to s2 (sview s2) s3"
    by (rule chxvalue_ok [OF touches_inv [OF 2(3)] a2, of "int (Suc k)"]) simp
  have r3: "sview s3 r = Some (z @ [backslash])" and a3: "sview s3 a = Some x" using chx_toD(2) [OF 3(2)] 2(2) a2 by simp_all
  obtain s4 c where 4: "cat_value (Some r) THIN 0 s3 = Some s4" "heap s4 r = Some c" "ctext c = z @ [backslash]"
      "c_actlen c = int (length (z @ [backslash])) + 1" "ISCHIX c" "sview s4 a = sview s3 a" "\<And>d. heap s4 a = Some d \<Longrightarrow> ISCHIX d \<Longrightarrow> wf_chix d"
    by (rule cat_zero [OF chx_toD(1) [OF 3(2)] r3]) (use a(2) in blast)
  obtain d where d: "heap s4 a = Some d" "wf_chix d" "ctext d = x"
    using 4(6,7) a3 by (auto simp: sview_def split: option.splits if_splits)
  obtain e where e: "chxvalue (Some a) (int (k + 2)) s4 = Some (0, put a e s4)"
    by (rule chxvalue_behind [OF d(1,2), of "int (k + 2)"]) (use d(3) k(1) in auto)
  have n: "char_at x (int k) = 92" "char_at x (1 + int k) = 0" using k by (simp_all add: char_at_def)
  have "escsingle_loop (Some r) THIN (Some a) (int (k + 2)) s4 = Some (put a e s4)" using e by (subst escsingle_loop.simps) simp
  then have "escsingle_loop (Some r) THIN (Some a) (int k) s = Some (put a e s4)"
    using 1(1) n 2(1) 3(1) 4(1) by (subst escsingle_loop.simps) (simp add: add.commute)
  moreover have "overlong r (z @ [backslash]) (put a e s4)" using 4(2-5) a(2) by (simp add: overlong_def put_simps)
  ultimately show thesis by (rule that)
qed

lemma escsingle_loop_alone:
  assumes "chx_inv s" and "sview s r = Some z" and "sview s a = Some x" and "a \<noteq> r" and "k \<le> length x" and "\<not> paired (drop k x)"
  shows "\<exists>s'. escsingle_loop (Some r) THIN (Some a) (int k) s = Some s' \<and> overlong r (z @ escs (drop k x)) s'"
  using assms
proof (induction "length x - k" arbitrary: k z s rule: less_induct)
  case less
  note inv = less.prems(1) and r = less.prems(2) and a = less.prems(3,4)
  have k: "k < length x" using less.prems(5,6) by (cases "k = length x") auto
  then have d: "drop k x = x ! k # drop (Suc k) x" using Cons_nth_drop_Suc [of k x] by simp
  consider "Suc k = length x" "x ! k = backslash" | "Suc k < length x" "x ! k = backslash" | "x ! k \<noteq> backslash" using k by linarith
  then show ?case
  proof cases
    case 1
    have "escs (drop k x) = [backslash]" using d 1 by (simp add: escs_code_def)
    then show ?thesis using escsingle_alone [OF inv r a 1] by metis
  next
    case 2
    then have d1: "drop (Suc k) x = x ! Suc k # drop (k + 2) x" using Cons_nth_drop_Suc [of "Suc k" x] by simp
    obtain s1 where 1: "escsingle_loop (Some r) THIN (Some a) (int k) s = escsingle_loop (Some r) THIN (Some a) (int (k + 2)) s1"
        "sview s1 r = Some (z @ [backslash, x ! Suc k])" "touches {r} s s1"
      by (rule escsingle_pair [OF inv r a 2])
    have "\<exists>s'. escsingle_loop (Some r) THIN (Some a) (int (k + 2)) s1 = Some s' \<and>
        overlong r ((z @ [backslash, x ! Suc k]) @ escs (drop (k + 2) x)) s'"
      by (rule less.hyps [OF _ touches_inv [OF 1(3)] 1(2) touches_keeps [OF 1(3) a(1)] a(2)]) (use a 2 less.prems(6) d d1 in auto)
    then show ?thesis using 1(1) d d1 2(2) by auto
  next
    case 3
    obtain s1 where 1: "escsingle_loop (Some r) THIN (Some a) (int k) s = escsingle_loop (Some r) THIN (Some a) (int (Suc k)) s1"
        "sview s1 r = Some (z @ escs_code (x ! k))" "touches {r} s s1"
      by (rule escsingle_one [OF inv r a k 3])
    have "\<not> paired (drop (Suc k) x)" using less.prems(6) d 3 by (cases "drop (Suc k) x") auto
    then have "\<exists>s'. escsingle_loop (Some r) THIN (Some a) (int (Suc k)) s1 = Some s' \<and>
        overlong r ((z @ escs_code (x ! k)) @ escs (drop (Suc k) x)) s'"
      by (intro less.hyps [OF _ touches_inv [OF 1(3)] 1(2) touches_keeps [OF 1(3) a(1)] a(2)]) (use a k in auto)
    then show ?thesis using 1(1) d escs_Cons(1) [OF 3] by auto
  qed
qed

text \<open>
  C35. A backslash alone at the end of the text makes \<open>func_escsingle\<close> append the terminator as a character: the string of
  the result is the escaped text, but its recorded length is one too many. \<open>chxlen\<close> reports that length, and the
  invariant of the store is broken.
\<close>

theorem func_escsingle_lone_backslash:
  assumes "chx_inv s" and "sview s r = Some z" and "sview s a = Some x" and "a \<noteq> r" and "\<not> paired x"
  shows "\<exists>s' c. func_escsingle (Some r) (Some a) s = Some (1, s') \<and> heap s' r = Some c \<and> ctext c = z @ escs x \<and>
    chxlen (Some r) s' = Some (int (length (z @ escs x)) + 1, s') \<and> \<not> chx_inv s'"
proof -
  obtain s' where s': "escsingle_loop (Some r) THIN (Some a) (int 0) s = Some s'" "overlong r (z @ escs x) s'"
    using escsingle_loop_alone [OF assms(1-4) le0] assms(5) by auto
  have "func_escsingle (Some r) (Some a) s = Some (1, s')" using s'(1) chxtype_live [OF assms(1,3)] by (simp add: func_escsingle_def)
  moreover obtain c where "heap s' r = Some c" "ctext c = z @ escs x" using s'(2) by (auto simp: overlong_def)
  ultimately show ?thesis using overlong_bad [OF s'(2)] by blast
qed

theorem func_escsingle_lone_backslash_witness:
  "\<exists>s' c. func_escsingle (Some 12) (Some 13) (started_store [[], ''a'' @ [backslash]]) = Some (1, s') \<and> heap s' 12 = Some c \<and>
    ctext c = [] @ escs (''a'' @ [backslash]) \<and>
    chxlen (Some 12) s' = Some (int (length ([] @ escs (''a'' @ [backslash]))) + 1, s') \<and> \<not> chx_inv s'"
  by (rule func_escsingle_lone_backslash) (simp_all add: started_inv started_sview)

end
