(* ===== verification/Quoter.thy ===== *)
theory Quoter
  imports Filters
begin

text \<open>
  The functions \<open>$quote\<close> and \<open>$unquote\<close> of the page language (\<open>CV2/sweb/quoter.c\<close>): the blanks of a text are exchanged with
  internal codes, so that it becomes one word, and back.
\<close>

section \<open>The function\<close>

text \<open>The static arrays: \<open>ispace\<close> is constant, \<open>bspace\<close> is filled on the first call from the blanks in force.\<close>

definition ispace :: "int list" where
  "ispace = [1, 2, 3, 4, 5, 6, 15, 16, 17, 18, 19, 20, 21, 22, 23, 24, 25, 26, 0, 0]"

fun load_spaces :: "int list \<Rightarrow> Chix \<Rightarrow> int \<Rightarrow> int list \<Rightarrow> chx_state \<Rightarrow> (int \<times> int list \<times> chx_state) option" where
  "load_spaces [] bl num bspace s = None"
| "load_spaces (i # isp) bl num bspace s =
     (if i = 0 then Some (num, bspace, s)
      else do {
        (v, s) \<leftarrow> chxvalue bl num s;
        let bspace = bspace[nat num := v];
        if v \<le> 0 then Some (num, bspace, s) else load_spaces isp bl (num + 1) bspace s })"

definition quoter_init :: "int list \<Rightarrow> chx_state \<Rightarrow> (int list \<times> chx_state) option" where
  "quoter_init bspace s =
     (if bspace ! 0 \<noteq> 0 then Some (bspace, s)
      else
        let (bl, s) = chxalloc 8 THIN ''quoter blanks'' s in do {
          (_, s) \<leftarrow> chxspecial SC_GET SC_BLANK (Some bl) s;
          (num, bspace, s) \<leftarrow> load_spaces ispace (Some bl) 0 bspace s;
          (_, s) \<leftarrow> chxfree (Some bl) s;
          Some (bspace[nat num := 0], s) })"

text \<open>
  The two loops, which differ in the direction: as long as \<open>bspace[num]\<close> is not zero, one code is replaced. Running off
  the arrays is \<open>None\<close>.
\<close>

fun code_loop :: "bool \<Rightarrow> int list \<Rightarrow> int list \<Rightarrow> Chix \<Rightarrow> int \<Rightarrow> chx_state \<Rightarrow> chx_state option" where
  "code_loop hide (b # bspace) (i # isp) result type s =
     (if b = 0 then Some s
      else do {
        (_, s) \<leftarrow> (if hide then chxrepval result 0 type b i s else chxrepval result 0 type i b s);
        code_loop hide bspace isp result type s })"
| "code_loop hide _ _ result type s = None"

definition quoter :: "Chix \<Rightarrow> string \<Rightarrow> Chix \<Rightarrow> int list \<Rightarrow> chx_state \<Rightarrow> (int \<times> int list \<times> chx_state) option" where
  "quoter result what arg bspace s = do {
     (bspace, s) \<leftarrow> quoter_init bspace s;
     (type, s) \<leftarrow> chxtype arg s;
     s \<leftarrow> (if what = ''quote'' then do { (_, s) \<leftarrow> chxcpy result arg s; code_loop True bspace ispace result type s }
          else if what = ''unquote'' then do { (_, s) \<leftarrow> chxcpy result arg s; code_loop False bspace ispace result type s }
          else Some s);
     Some (1, bspace, s) }"

section \<open>Exchanging codes\<close>

text \<open>The codes used for \<open>n\<close> blanks.\<close>

definition codes :: "nat \<Rightarrow> char list" where
  "codes n = map byte (take n ispace)"

text \<open>Replacing characters one after the other, and all at once.\<close>

fun replace_each :: "(char \<times> char) list \<Rightarrow> string \<Rightarrow> string" where
  "replace_each [] x = x"
| "replace_each ((a, b) # ps) x = replace_each ps (map (\<lambda>c. if c = a then b else c) x)"

definition exchange :: "(char \<times> char) list \<Rightarrow> char \<Rightarrow> char" where
  "exchange ps c = (case map_of ps c of None \<Rightarrow> c | Some b \<Rightarrow> b)"

lemma replace_each_at_once: "fst ` set ps \<inter> snd ` set ps = {} \<Longrightarrow> replace_each ps x = map (exchange ps) x"
proof (induction ps arbitrary: x)
  case Nil
  then show ?case by (simp add: exchange_def)
next
  case (Cons p ps)
  obtain a b where p: "p = (a, b)" by (cases p)
  have b: "map_of ps b = None" using Cons.prems p by (auto simp: map_of_eq_None_iff)
  have "exchange ps (if c = a then b else c) = exchange (p # ps) c" for c using b by (simp add: exchange_def p)
  then show ?case using Cons p by (simp add: disjoint_iff comp_def)
qed

lemma exchange_back:
  assumes "distinct as" "distinct bs" "length as = length bs" and "c \<notin> set bs"
  shows "exchange (zip bs as) (exchange (zip as bs) c) = c"
proof (cases "c \<in> set as")
  case True
  then obtain k where k: "k < length as" "c = as ! k" by (metis in_set_conv_nth)
  then have "map_of (zip as bs) c = Some (bs ! k)" "map_of (zip bs as) (bs ! k) = Some (as ! k)"
    using assms by (simp_all add: map_of_zip_nth)
  then show ?thesis using k by (simp add: exchange_def)
next
  case False
  then have "map_of (zip as bs) c = None" "map_of (zip bs as) c = None"
    using assms by (simp_all add: map_of_zip_is_None)
  then show ?thesis by (simp add: exchange_def)
qed

lemma exchange_no: "set as \<inter> set bs = {} \<Longrightarrow> length as = length bs \<Longrightarrow> exchange (zip as bs) c \<notin> set as"
proof -
  assume a: "set as \<inter> set bs = {}" "length as = length bs"
  show ?thesis
  proof (cases "map_of (zip as bs) c")
    case None
    then have "c \<notin> set as" using a(2) by (simp add: map_of_zip_is_None)
    then show ?thesis using None by (simp add: exchange_def)
  next
    case (Some b)
    then have "b \<in> set bs" using map_of_SomeD set_zip_rightD by metis
    then show ?thesis using Some a by (auto simp: exchange_def)
  qed
qed

section \<open>The tables\<close>

definition spaces :: "string \<Rightarrow> int list" where
  "spaces t = map bval t @ replicate (20 - length t) 0"

lemma ispace_nth: "k < 18 \<Longrightarrow> ispace ! k \<noteq> 0" "ispace ! 18 = 0" "length ispace = 20"
  by (auto simp: ispace_def less_Suc_eq numeral_eq_Suc)

lemma ispace_drop: "k < 20 \<Longrightarrow> drop k ispace = ispace ! k # drop (Suc k) ispace"
  using ispace_nth(3) by (simp add: Cons_nth_drop_Suc)

lemma load_spaces_ok:
  assumes "chx_inv s" and "sview s b = Some t" and "length t \<le> 18" and "k \<le> length t"
    and "bspace = map bval (take k t) @ replicate (20 - k) 0"
  shows "\<exists>s'. load_spaces (drop k ispace) (Some b) (int k) bspace s = Some (int (length t), spaces t, s') \<and> chx_to s (sview s) s'"
  using assms
proof (induction "length t - k" arbitrary: k bspace s)
  case 0
  then have k: "k = length t" by simp
  have sp: "bspace = spaces t" using 0(6) k by (simp add: spaces_def)
  have same: "(spaces t)[k := 0] = spaces t" using k 0(4) by (simp add: spaces_def list_update_append list_update_same_conv)
  show ?case
  proof (cases "k = 18")
    case True
    then show ?thesis using ispace_drop [of 18] ispace_nth(2) sp k chx_to_refl [OF 0(2)] by simp
  next
    case False
    then have "k < 18" using k 0(4) by simp
    moreover obtain s' where s': "chxvalue (Some b) (int k) s = Some (char_at t (int k), s')" "chx_to s (sview s) s'"
      by (rule chxvalue_ok [OF 0(2,3), of "int k"]) simp
    moreover have "char_at t (int k) = 0" using k by (simp add: char_at_def)
    ultimately show ?thesis using ispace_drop [of k] ispace_nth(1) [of k] sp same k by simp
  qed
next
  case (Suc n)
  then have k: "k < length t" "k < 18" by simp_all
  obtain s1 where s1: "chxvalue (Some b) (int k) s = Some (char_at t (int k), s1)" "chx_to s (sview s) s1"
    by (rule chxvalue_ok [OF Suc.prems(1,2), of "int k"]) simp
  have "t ! k \<noteq> NUL" using nth_mem [OF k(1)] live_no_NUL [OF Suc.prems(2)] by force
  then have v: "char_at t (int k) = bval (t ! k)" "0 < bval (t ! k)"
    using k bval_range(1) [of "t ! k"] bval_eq_0 [of "t ! k"] by (simp_all add: char_at_def less_le)
  have "20 - k = Suc (19 - k)" using k by simp
  then have up: "bspace[k := bval (t ! k)] = map bval (take (Suc k) t) @ replicate (20 - Suc k) 0"
    using Suc.prems(5) k by (simp add: list_update_append take_Suc_conv_app_nth)
  have "\<exists>s'. load_spaces (drop (Suc k) ispace) (Some b) (int (Suc k)) (bspace[k := bval (t ! k)]) s1 = Some (int (length t), spaces t, s') \<and>
      chx_to s1 (sview s1) s'"
    by (rule Suc.hyps(1) [OF _ chx_toD(1) [OF s1(2)] _ Suc.prems(3) _ up]) (use Suc k chx_toD(2) [OF s1(2)] in auto)
  then show ?case using ispace_drop [of k] ispace_nth(1) [of k] k s1 v chx_to_read_trans [OF s1(2)] by (auto simp: add.commute)
qed

text \<open>The first call loads the table and frees its chix; later calls find it.\<close>

lemma quoter_init_ok:
  assumes inv: "chx_inv s" and bl: "blanks s = Some z" "sview s z = Some t" "length t \<le> 18" and b: "bspace = replicate 20 0 \<or> bspace = spaces t"
  obtains s' where "quoter_init bspace s = Some (spaces t, s')" "touches {} s s'"
proof (cases "bspace ! 0 = 0")
  case False
  then have "bspace = spaces t" using b by auto
  then show thesis using that [of s] False touches_refl [OF inv] by (simp add: quoter_init_def)
next
  case True
  have "t = [] \<or> bspace = replicate 20 0"
    using b True live_no_NUL [OF bl(2)] by (cases t) (auto simp: spaces_def)
  then have b0: "bspace = replicate 20 0" using b by (auto simp: spaces_def)
  obtain s1 where 1: "chxalloc 8 THIN ''quoter blanks'' s = (next_adr s, s1)" "chx_to s ((sview s)(next_adr s \<mapsto> [])) s1" by (rule chxalloc_ok [OF inv])
  let ?b = "next_adr s"
  note t1 = chx_toD [OF 1(2)]
  have ne: "z \<noteq> ?b" using live_less [OF inv bl(2)] by simp
  have v1: "sview s1 z = Some t" "sview s1 ?b = Some []" "blanks s1 = Some z" using t1(2) bl ne globs_tabs [OF t1(3)] by simp_all
  obtain s2 where 2: "chxspecial SC_GET SC_BLANK (Some ?b) s1 = Some (1, s2)" "chx_to s1 ((sview s1)(?b \<mapsto> t)) s2"
    by (rule chxspecial_get [OF t1(1) v1(3,1,2)])
  note t2 = chx_toD [OF 2(2)]
  have v2: "sview s2 ?b = Some t" using t2(2) by simp
  obtain s3 where 3: "load_spaces ispace (Some ?b) 0 bspace s2 = Some (int (length t), spaces t, s3)" "chx_to s2 (sview s2) s3"
    using load_spaces_ok [OF t2(1) v2 bl(3) le0, of bspace] b0 by auto
  note t3 = chx_toD [OF 3(2)]
  have v3: "sview s3 ?b = Some t" "blanks s3 \<noteq> Some ?b"
    using t3(2) v2 v1(3) ne globs_tabs [OF t2(3)] globs_tabs [OF t3(3)] by simp_all
  obtain s4 where 4: "chxfree (Some ?b) s3 = Some (1, s4)" "chx_to s3 ((sview s3)(?b := None)) s4" by (rule chxfree_ok [OF t3(1) v3])
  have "(spaces t)[length t := 0] = spaces t" using bl(3) by (simp add: spaces_def list_update_append list_update_same_conv)
  then have "quoter_init bspace s = Some (spaces t, s4)" using True 1(1) 2(1) 3(1) 4(1) by (simp add: quoter_init_def)
  moreover have "sview s4 = sview s"
    using chx_toD(2) [OF 4(2)] t3(2) t2(2) t1(2) fresh_not_live [OF inv] by (auto simp: fun_eq_iff)
  then have "touches {} s s4" using chx_toD [OF 4(2)] t3 t2 t1 by (simp add: touches_def)
  ultimately show thesis by (rule that)
qed

section \<open>The loops\<close>

lemma ispace_code: "k < 18 \<Longrightarrow> 0 < ispace ! k" "k < 18 \<Longrightarrow> ispace ! k < 256"
  by (auto simp: ispace_def less_Suc_eq numeral_eq_Suc)

lemma codes_nth: "k < n \<Longrightarrow> n \<le> 18 \<Longrightarrow> codes n ! k = byte (ispace ! k)" "n \<le> 18 \<Longrightarrow> length (codes n) = n"
  using ispace_nth(3) by (simp_all add: codes_def)

lemma code_byte: "k < 18 \<Longrightarrow> bval (byte (ispace ! k)) = ispace ! k" "k < 18 \<Longrightarrow> byte (ispace ! k) \<noteq> NUL"
proof -
  assume k: "k < 18"
  then show b: "bval (byte (ispace ! k)) = ispace ! k" using ispace_code [OF k] by (simp add: bval_byte)
  show "byte (ispace ! k) \<noteq> NUL" using b ispace_code(1) [OF k] by (intro notI) simp
qed

text \<open>One pass: the character \<open>c\<close> is replaced by \<open>d\<close>.\<close>

lemma repval_one:
  assumes "chx_inv s" and "sview s r = Some x" and "d \<noteq> NUL"
  obtains k s' where "chxrepval (Some r) 0 ty (bval c) (bval d) s = Some (k, s')" "chx_to s ((sview s)(r \<mapsto> map (\<lambda>e. if e = c then d else e) x)) s'"
proof -
  obtain s' where s': "chxrepval (Some r) 0 ty (bval c) (bval d) s = Some (if 0 < int (length x) then 1 else 0, s')"
      "chx_to s ((sview s)(r \<mapsto> take (nat 0) x @ map (repl (bval c) (bval d)) (drop (nat 0) x))) s'"
    by (rule chxrepval_ok [OF assms(1,2), of 0 "bval d"]) (use assms(3) in auto)
  have "repl (bval c) (bval d) = (\<lambda>e. if e = c then d else e)" by (simp add: repl_def fun_eq_iff)
  then show thesis using that s' by simp
qed

lemma spaces_drop: "k < length t \<Longrightarrow> length t \<le> 18 \<Longrightarrow> drop k (spaces t) = bval (t ! k) # drop (Suc k) (spaces t)"
  by (simp add: spaces_def Cons_nth_drop_Suc [symmetric])

lemma spaces_end: "length t \<le> 18 \<Longrightarrow> \<exists>bs. drop (length t) (spaces t) = 0 # bs"
  by (cases "20 - length t") (auto simp: spaces_def)

text \<open>The replacements still to be made from the place \<open>k\<close> of the tables on.\<close>

definition pairs :: "bool \<Rightarrow> string \<Rightarrow> nat \<Rightarrow> (char \<times> char) list" where
  "pairs hide t k = (let cs = codes (length t) in if hide then zip (drop k t) (drop k cs) else zip (drop k cs) (drop k t))"

lemma pairs_Cons:
  assumes "k < length t" "length t \<le> 18"
  shows "pairs hide t k = (if hide then (t ! k, byte (ispace ! k)) else (byte (ispace ! k), t ! k)) # pairs hide t (Suc k)"
proof -
  have c: "k < length (codes (length t))" using assms by (simp add: codes_nth)
  note * = Cons_nth_drop_Suc [OF assms(1), symmetric] Cons_nth_drop_Suc [OF c, symmetric] codes_nth(1) [OF assms]
  show ?thesis unfolding pairs_def Let_def *(1,2) by (simp add: *(3))
qed

lemma pairs_end: "length t \<le> k \<Longrightarrow> pairs hide t k = []"
  by (simp add: pairs_def Let_def)

lemma space_step:
  assumes "chx_inv s" and "sview s r = Some x" and k: "k < 18" "c \<noteq> NUL"
  obtains s' j where "(if hide then chxrepval (Some r) 0 ty (bval c) (ispace ! k) s else chxrepval (Some r) 0 ty (ispace ! k) (bval c) s) = Some (j, s')"
    "chx_to s ((sview s)(r \<mapsto> map (\<lambda>e. if e = (if hide then c else byte (ispace ! k)) then (if hide then byte (ispace ! k) else c) else e) x)) s'"
proof -
  note e = code_byte [OF k(1)]
  show thesis
  proof (cases hide)
    case True
    obtain j s' where "chxrepval (Some r) 0 ty (bval c) (bval (byte (ispace ! k))) s = Some (j, s')"
        "chx_to s ((sview s)(r \<mapsto> map (\<lambda>e. if e = c then byte (ispace ! k) else e) x)) s'"
      by (rule repval_one [OF assms(1,2) e(2)])
    then show thesis by (intro that [of j s']) (simp_all only: e(1) True if_True)
  next
    case False
    obtain j s' where "chxrepval (Some r) 0 ty (bval (byte (ispace ! k))) (bval c) s = Some (j, s')"
        "chx_to s ((sview s)(r \<mapsto> map (\<lambda>e. if e = byte (ispace ! k) then c else e) x)) s'"
      by (rule repval_one [OF assms(1,2) k(2)])
    then show thesis by (intro that [of j s']) (simp_all only: e(1) False if_False)
  qed
qed

lemma code_loop_ok:
  assumes "chx_inv s" and "sview s r = Some x" and t: "length t \<le> 18" "NUL \<notin> set t" and "k \<le> length t"
  shows "\<exists>s'. code_loop hide (drop k (spaces t)) (drop k ispace) (Some r) ty s = Some s' \<and>
    chx_to s ((sview s)(r \<mapsto> replace_each (pairs hide t k) x)) s'"
  using assms(1,2,5)
proof (induction "length t - k" arbitrary: k x s)
  case 0
  obtain bs where "drop k (spaces t) = 0 # bs" using spaces_end [OF t(1)] 0 by auto
  moreover have "drop k ispace = ispace ! k # drop (Suc k) ispace" using ispace_drop [of k] 0 t(1) by simp
  moreover have "(sview s)(r \<mapsto> x) = sview s" using 0(3) by (simp add: map_upd_triv)
  ultimately show ?case using 0 chx_to_refl [OF 0(2)] by (simp add: pairs_end)
next
  case (Suc n)
  then have k: "k < length t" "k < 18" using t(1) by simp_all
  have tk: "t ! k \<noteq> NUL" using nth_mem [OF k(1)] t(2) by force
  have k20: "k < 20" using k(2) by simp
  let ?x = "map (\<lambda>e. if e = (if hide then t ! k else byte (ispace ! k)) then (if hide then byte (ispace ! k) else t ! k) else e) x"
  obtain s1 j where 1: "(if hide then chxrepval (Some r) 0 ty (bval (t ! k)) (ispace ! k) s else chxrepval (Some r) 0 ty (ispace ! k) (bval (t ! k)) s) =
      Some (j, s1)" "chx_to s ((sview s)(r \<mapsto> ?x)) s1"
    by (rule space_step [OF Suc.prems(1,2) k(2) tk])
  have "\<exists>s'. code_loop hide (drop (Suc k) (spaces t)) (drop (Suc k) ispace) (Some r) ty s1 = Some s' \<and>
      chx_to s1 ((sview s1)(r \<mapsto> replace_each (pairs hide t (Suc k)) ?x)) s'"
    by (rule Suc.hyps(1) [OF _ chx_toD(1) [OF 1(2)]]) (use Suc.hyps(2) k chx_toD(2) [OF 1(2)] in auto)
  then obtain s2 where 2: "code_loop hide (drop (Suc k) (spaces t)) (drop (Suc k) ispace) (Some r) ty s1 = Some s2"
      "chx_to s1 ((sview s1)(r \<mapsto> replace_each (pairs hide t (Suc k)) ?x)) s2"
    by blast
  have "code_loop hide (drop k (spaces t)) (drop k ispace) (Some r) ty s = Some s2"
    unfolding spaces_drop [OF k(1) t(1)] ispace_drop [OF k20] code_loop.simps 1(1) using 2(1) tk by simp
  moreover have "(sview s1)(r \<mapsto> replace_each (pairs hide t (Suc k)) ?x) = (sview s)(r \<mapsto> replace_each (pairs hide t k) x)"
    unfolding pairs_Cons [OF k(1) t(1)] using chx_toD(2) [OF 1(2)] by (cases hide) simp_all
  then have "chx_to s ((sview s)(r \<mapsto> replace_each (pairs hide t k) x)) s2" using chx_to_trans [OF 1(2) 2(2)] by simp
  ultimately show ?case by blast
qed

section \<open>Properties\<close>

text \<open>The blanks in force: at most 18 of them, all different and none an internal code; the table is empty or holds them.\<close>

definition quoting :: "string \<Rightarrow> int list \<Rightarrow> chx_state \<Rightarrow> bool" where
  "quoting t bspace s \<longleftrightarrow> chx_inv s \<and> (\<exists>z. blanks s = Some z \<and> sview s z = Some t) \<and> length t \<le> 18 \<and> distinct t \<and>
     set t \<inter> set (codes (length t)) = {} \<and> (bspace = replicate 20 0 \<or> bspace = spaces t)"

lemma codes_distinct: "n \<le> 18 \<Longrightarrow> distinct (codes n)"
proof -
  assume n: "n \<le> 18"
  have "distinct (take n (take 18 ispace))" by (rule distinct_take) (simp add: ispace_def)
  then have "distinct (take n ispace)" using n by (simp add: min_def)
  moreover have "inj_on byte (set (take n ispace))"
  proof (rule inj_onI)
    fix x y assume "x \<in> set (take n ispace)" "y \<in> set (take n ispace)" "byte x = byte y"
    then obtain i j where "i < n" "j < n" "x = ispace ! i" "y = ispace ! j" by (auto simp: in_set_conv_nth)
    then show "x = y" using \<open>byte x = byte y\<close> n ispace_code [of i] ispace_code [of j] bval_byte by (metis less_imp_le less_le_trans)
  qed
  ultimately show ?thesis by (simp add: codes_def distinct_map)
qed

lemma quoter_ok:
  assumes q: "quoting t bspace s" and r: "sview s r = Some y" and a: "sview s a = Some x"
  obtains s' where "quoter (Some r) (if hide then ''quote'' else ''unquote'') (Some a) bspace s = Some (1, spaces t, s')" "touches {r} s s'"
    "sview s' r = Some (map (exchange (pairs hide t 0)) x)"
proof -
  obtain z where z: "blanks s = Some z" "sview s z = Some t" and t: "length t \<le> 18" "set t \<inter> set (codes (length t)) = {}"
    and inv: "chx_inv s" and b: "bspace = replicate 20 0 \<or> bspace = spaces t"
    using q by (auto simp: quoting_def)
  obtain s1 where 1: "quoter_init bspace s = Some (spaces t, s1)" "touches {} s s1" by (rule quoter_init_ok [OF inv z t(1) b])
  have v1: "sview s1 r = Some y" "sview s1 a = Some x" using touches_keeps [OF 1(2)] r a by simp_all
  obtain s2 where 2: "chxcpy (Some r) (Some a) s1 = Some (1, s2)" "chx_to s1 ((sview s1)(r \<mapsto> x)) s2"
    by (rule chxcpy_ok [OF touches_inv [OF 1(2)] v1])
  have v2: "sview s2 r = Some x" using chx_toD(2) [OF 2(2)] by simp
  obtain s3 where 3: "code_loop hide (spaces t) ispace (Some r) THIN s2 = Some s3" "chx_to s2 ((sview s2)(r \<mapsto> replace_each (pairs hide t 0) x)) s3"
    using code_loop_ok [OF chx_toD(1) [OF 2(2)] v2 t(1) live_no_NUL [OF z(2)] le0, of hide THIN] by auto
  have "quoter (Some r) (if hide then ''quote'' else ''unquote'') (Some a) bspace s = Some (1, spaces t, s3)"
    using 1(1) chxtype_live [OF touches_inv [OF 1(2)] v1(2)] 2(1) 3(1) by (cases hide) (simp_all add: quoter_def)
  moreover have "touches {r} s1 s3" using touches_trans [OF touches_upd [OF 2(2)] touches_upd [OF 3(2)], of "{r}"] by simp
  then have "touches {r} s s3" using touches_trans [OF touches_mono [OF 1(2)]] by blast
  moreover have "fst ` set (pairs hide t 0) \<inter> snd ` set (pairs hide t 0) = {}"
  proof -
    have "fst ` set (zip u w) \<inter> snd ` set (zip u w) = {}" if "set u \<inter> set w = {}" for u w :: string
      using that by (force dest: set_zip_leftD set_zip_rightD)
    then show ?thesis using t(2) by (auto simp: pairs_def Let_def Int_commute)
  qed
  then have "sview s3 r = Some (map (exchange (pairs hide t 0)) x)" using chx_toD(2) [OF 3(2)] replace_each_at_once by simp
  ultimately show thesis by (rule that)
qed

lemma quoting_touches:
  assumes "quoting t bspace s" and "touches {r} s s'" and "blanks s \<noteq> Some r"
  shows "quoting t (spaces t) s'"
proof -
  obtain z where z: "blanks s = Some z" "sview s z = Some t" using assms(1) by (auto simp: quoting_def)
  have "blanks s' = Some z" using assms(2) z(1) globs_tabs [of s' s] by (simp add: touches_def)
  moreover have "sview s' z = Some t" using touches_keeps [OF assms(2) z(2)] z(1) assms(3) by auto
  ultimately show ?thesis using assms(1) touches_inv [OF assms(2)] by (simp add: quoting_def)
qed

text \<open>
  C33. \<open>quoter\<close> makes one word of a text and gives it back: what \<open>quote\<close> leaves in the result has no blank, and \<open>unquote\<close> of it is
  the text again, for every text without the internal codes.
\<close>

theorem quoter_round_trip:
  assumes "quoting t bspace s" and "sview s r = Some y" "sview s a = Some x" "sview s b = Some w" and "r \<noteq> b" "blanks s \<noteq> Some r" "blanks s \<noteq> Some b"
    and "set x \<inter> set (codes (length t)) = {}"
  shows "\<exists>v bsp s1 s2. quoter (Some r) ''quote'' (Some a) bspace s = Some (1, bsp, s1) \<and> sview s1 r = Some v \<and> set v \<inter> set t = {} \<and>
    length v = length x \<and> quoter (Some b) ''unquote'' (Some r) bsp s1 = Some (1, bsp, s2) \<and> sview s2 b = Some x \<and> touches {r, b} s s2"
proof -
  have t: "length t \<le> 18" "distinct t" "set t \<inter> set (codes (length t)) = {}" using assms(1) by (auto simp: quoting_def)
  have len: "length (codes (length t)) = length t" using t(1) by (simp add: codes_nth)
  obtain s1 where 1: "quoter (Some r) ''quote'' (Some a) bspace s = Some (1, spaces t, s1)" "touches {r} s s1"
      "sview s1 r = Some (map (exchange (pairs True t 0)) x)"
    using quoter_ok [OF assms(1,2,3), of True] by auto
  let ?v = "map (exchange (pairs True t 0)) x"
  have q1: "quoting t (spaces t) s1" by (rule quoting_touches [OF assms(1) 1(2) assms(6)])
  have b1: "sview s1 b = Some w" using touches_keeps [OF 1(2) assms(4)] assms(5) by simp
  obtain s2 where 2: "quoter (Some b) ''unquote'' (Some r) (spaces t) s1 = Some (1, spaces t, s2)" "touches {b} s1 s2"
      "sview s2 b = Some (map (exchange (pairs False t 0)) ?v)"
    using quoter_ok [OF q1 b1 1(3), of False] by auto
  have "exchange (pairs False t 0) (exchange (pairs True t 0) c) = c" if "c \<in> set x" for c
    using exchange_back [OF t(2) codes_distinct [OF t(1)] len [symmetric]] that assms(8) by (auto simp: pairs_def Let_def)
  then have "map (exchange (pairs False t 0)) ?v = x" by (simp add: map_idI)
  moreover have "set ?v \<inter> set t = {}" using exchange_no [OF t(3) len [symmetric]] by (auto simp: pairs_def Let_def)
  moreover have "touches {r, b} s s2" using touches_trans [OF touches_mono [OF 1(2)] touches_mono [OF 2(2)], of "{r, b}"] by simp
  ultimately show ?thesis using 1(1,3) 2(1,3) by (intro exI [of _ ?v] exI [of _ "spaces t"] exI [of _ s1] exI [of _ s2]) simp
qed

theorem quoter_round_trip_witness:
  "\<exists>v bsp s1 s2. quoter (Some 12) ''quote'' (Some 13) (replicate 20 0) (started_store [[], ''two words'', []]) = Some (1, bsp, s1) \<and>
    sview s1 12 = Some v \<and> set v \<inter> set [CHR '' '', CHR 0x0A, CHR 0x09] = {} \<and> length v = length ''two words'' \<and>
    quoter (Some 14) ''unquote'' (Some 12) bsp s1 = Some (1, bsp, s2) \<and> sview s2 14 = Some ''two words'' \<and>
    touches {12, 14} (started_store [[], ''two words'', []]) s2"
  by (rule quoter_round_trip) (simp_all add: quoting_def started_inv started_sview codes_def ispace_def byte_def char_of_def)

end
