(* ===== verification/Spec2Isabelle.thy ===== *)
theory Spec2Isabelle
  imports ChixProgram Vartab Base64 Ranges Sorts ParseLine Wrap Escapes Quoter
begin

text \<open>
  Caucus (\<open>src/CV2\<close>) is a conferencing system written in C. Conferences hold items, items hold responses; users
  select items and responses with texts such as \<open>1-5:3-last\<close>, and pages written in a macro language show them.
  All parts of the program work on one string type, the \<open>chix\<close>, and on lists of responses. This development
  models that core and the routines built on it.

  \<^bold>\<open>Parts of the program and their theories.\<close>

  \<^item> \<open>Prelude\<close>: C buffers as byte lists with checked reads and writes, NUL-terminated strings, 16- and 32-bit
    wrap-around, \<open>sprintf ("%d")\<close>. An access outside a buffer is the value \<open>None\<close>: a theorem that a function returns
    \<open>Some\<close> is a memory-safety theorem.
  \<^item> \<open>ChixStore\<close> (\<open>chx/chxalloc.c\<close>, \<open>chxfree.c\<close>, \<open>chxcheck.c\<close>, \<open>chxerror.c\<close>, \<open>chxlen.c\<close>, \<open>chxvalue.c\<close>, \<open>chxtype.c\<close>,
    \<open>chxcapc.c\<close>, \<open>chxresiz.c\<close>, \<open>chxmem.c\<close>, \<open>memdebug.c\<close>): the record \<open>chx_state\<close> holds the heap of control blocks, the
    error log and the file-scope statics of the chx functions. \<open>chx_inv\<close> is the invariant of the store, \<open>sview\<close> its
    abstraction: the string at every live address. \<open>chx_to s m s'\<close> is the contract of an operation: the invariant
    holds, the strings are \<open>m\<close>, the statics are kept.
  \<^item> \<open>ChixOps\<close>, \<open>ChixSearch\<close>, \<open>ChixToken\<close>: the operations of \<open>chx/\<close> that build and change strings, that compare,
    search and replace, and that take texts apart and read numbers; start-up (\<open>chx_init\<close>). Each function has a lemma
    \<open><name>_ok\<close> that states its result and its effect on \<open>sview\<close>; the loops over a chix are \<open>partial_function\<close>s, and
    the lemmas state that they return.
  \<^item> \<open>ChixProgram\<close>: sequences of chix calls on variables, as the callers make them. The locale \<open>simulation\<close> carries
    the step-wise contracts to whole programs; its interpretation shows that the API implements plain strings.
  \<^item> \<open>Rlist\<close> (\<open>api/addtorl.c\<close>, \<open>andrlist.c\<close>, \<open>orrlist.c\<close>, \<open>rlall.c\<close>, \<open>rlofsele.c\<close>): lists of rectangles of items and
    responses, with the set \<open>den\<close> they stand for.
  \<^item> \<open>Vartab\<close> (\<open>api/amakvart.c\<close>, \<open>vartfind.c\<close>, \<open>vartadd.c\<close>, \<open>vartis.c\<close>, \<open>afrevart.c\<close>): variable tables over the chix
    store. The locale \<open>variable_store\<close> states that assignments act like map updates.
  \<^item> \<open>Str\<close> (\<open>str/\<close>): the routines on C strings, with base 36 and decimal numbers and the table look-up.
  \<^item> \<open>Namelist\<close> (\<open>people/nl*.c\<close>, \<open>chx/jixreduc.c\<close>): linked lists of chix. The locale \<open>name_order\<close> is what insertion in
    order needs of the comparison; it is interpreted with \<open>chxcompare\<close> under the start-up collation.
  \<^item> \<open>Ranges\<close> (\<open>gen/numtorl.c\<close>, \<open>gen/parsenum.c\<close>): numeric ranges as texts. The locale \<open>range_scan\<close> holds the scan that
    the two functions share and is interpreted with both loops.
  \<^item> \<open>Base64\<close> (\<open>sweb/encode64.c\<close>): encoder and decoder over files.
  \<^item> \<open>Sorts\<close> (\<open>sweb/numsort.c\<close>, \<open>tripsort.c\<close>, \<open>gensort.c\<close>): the sorting functions of the page language, on arguments given
    as one chix of words. The locale \<open>sort_order\<close> holds what bubble sort and ordered insertion need of a comparison;
    it is interpreted with the comparisons of \<open>num_sort\<close> and \<open>trip_sort\<close>.
  \<^item> \<open>ChixKept\<close>: what the clients of the chix functions see from call to call although scanners fill their tables.
  \<^item> \<open>Tokens\<close> (\<open>glyph/tablemat.c\<close>): keyword tables. \<open>Select\<close> (\<open>gen/parse2to.c\<close>, \<open>deleteto.c\<close>, \<open>collapse.c\<close>, \<open>mergetok.c\<close>, the
    start of \<open>newparse.c\<close>): the selection language over its token array, with the passes as functions on lists and the
    strings each pass owns. \<open>Parse2\<close>: the state machine of \<open>parse2_tokens\<close> against the tokens of a line. \<open>Selection\<close>: the
    properties of the three passes together.
  \<^item> \<open>Passes\<close> (the response lists of \<open>gen/newparse.c\<close>): new, fresh, unseen and forgotten items, assembling and filtering, over the tables
    of the conference and of the user. The locale \<open>cell_scan\<close> says what a loop over the items of a list collects; it is
    interpreted with the loops of assembling, filtering and of new responses.
  \<^item> \<open>NewParse\<close> (\<open>gen/newparse.c\<close> as a whole): words for items, modifiers, lists from tokens, the default, the end; with lemmas for
    passes 4 and 5. \<open>ParseLine\<close>: pass 6 on numbers, its errors, and the properties of \<open>new_parse\<close> from the text to the set of responses. The routines it
    calls to query the data base (named ranges, frozen items, dates) are arguments.
  \<^item> \<open>Wrap\<close> (\<open>sweb/wraptext.c\<close>, \<open>chx/jixwidth.c\<close>): wrapping of a text to a width. The loop of the code is a partial function over a
    definition of one pass, so that its end and its failure to end can both be stated.
  \<^item> \<open>Filters\<close> (\<open>sweb/funct2hbr.c\<close>, \<open>funcxmlesc.c\<close>, \<open>cencode.c\<close>, \<open>urlEncode.c\<close>): output filters that read value by value. The locale
    \<open>text_filter\<close> is the contract of the body of such a loop; it is interpreted with the four bodies. \<open>touches\<close> says which
    strings a function may change, \<open>stocked\<close> that its static strings are there. \<open>Escapes\<close> (\<open>funct2esc.c\<close>, \<open>funcescq.c\<close>, \<open>funcescs.c\<close>, \<open>clean.c\<close>):
    the filters that replace in a copy or skip what is escaped. \<open>Quoter\<close> (\<open>quoter.c\<close>): blanks exchanged with internal codes.
  \<^bold>\<open>Modelling choices.\<close> The stateful code passes \<open>chx_state\<close> explicitly through the option monad. A pointer to a chix is
  an address or null; pointers into buffers and arrays are offsets; linked lists are lists. \<open>int4\<close> and \<open>short\<close> are
  integers that wrap where the code stores them, but for the lengths and capacities of chix, which are unbounded: strings of 2 GB
  or more are not considered. A control block that was given back is gone, reading it is \<open>None\<close>. The build has \<open>USE_THIN_CHIX\<close> set, so the width of a
  character is one byte and the multi-byte branches are not modelled. The allocator never fails: the out-of-memory
  branches of \<open>chxmem\<close> and \<open>chxresize\<close> are not reached. Uninitialised locals are parameters, and so are the
  routines on the data base that \<open>new_parse\<close> calls: its theorems hold whatever they return, for lines that do not reach them. No function of the
  development needs fuel but \<open>read_lines\<close>, whose bound is the length of the text plus one.

  \<^bold>\<open>What the theorems show.\<close> Memory safety and functional correctness of every chix operation for all aliasing the code
  allows, and refinement of whole call sequences to plain strings; numbers, lines, C strings,
  base 36 and base 64 survive a round trip; response lists denote intersections, hulls and selections; a line of
  numbers and modifiers selects exactly the responses it names that exist and pass the modifiers, and a line with an error selects nothing, with what becomes of the modifiers; variable
  tables act like maps; name lists stay sorted, are copied, searched, and freed without leaks; texts are wrapped to their width, and
  escaped, encoded and quoted so that decoding gives them back. Some theorems
  record defects: \<open>Rlist.or_rlist_last_only\<close>, \<open>Namelist.nlrdup_leaves_duplicates\<close>, \<open>Selection.parse2_tokens_overrun\<close>,
  \<open>Passes.resp_new_overrun\<close>, \<open>ParseLine.new_parse_overrun\<close>, \<open>ParseLine.new_parse_wraps\<close>,
  \<open>Wrap.wrap_text_spins\<close>, \<open>Filters.cencode_stale\<close>, \<open>Escapes.func_escsingle_lone_backslash\<close>.

  \<^bold>\<open>Not modelled.\<close> The terminal front end (\<open>chg\<close>, \<open>conf\<close>, \<open>resp\<close>, \<open>subj\<close>, \<open>glyph\<close> and most of \<open>gen\<close> and \<open>people\<close>),
  the files on disk and their locks (\<open>unit\<close>, \<open>db\<close>, \<open>inout\<close>, \<open>attach\<close>, \<open>xaction\<close>, \<open>zutil\<close>), the page interpreter, most of its functions and
  the server processes (\<open>sweb\<close>), the operating-system layer (\<open>sys1\<close>, \<open>sys2\<close>) and the data base clients (\<open>sql\<close>): they are
  dominated by input and output. \<open>metamail\<close> and \<open>openldap-2.3.11\<close> are third-party code; \<open>CML\<close>, \<open>JAVA\<close> and
  \<open>V2TARGET\<close> are not C.
\<close>

end
